(* ===== verification/Prelude.thy ===== *)
theory Prelude
  imports Complex_Main "HOL-Library.Monad_Syntax" "HOL-Library.Signed_Division"
    "HOL-Library.Word"
begin

text \<open>
  Shared vocabulary of the development: the errors the C++ code can end in, the
  result type of an operation that throws, and the collections the component
  theories extend.

  A computation that may have undefined behaviour (a signed overflow, a division
  by zero in a release build, an access outside an array) is a value of
  \<open>'a option\<close>, with \<open>None\<close> for undefined behaviour.  A public operation that can
  throw returns \<open>error + 'a\<close>: \<open>Inl\<close> carries the exception, and undefined
  behaviour of its body is the error \<open>Undefined\<close>.
\<close>

datatype error =
    ZeroDivisionError
  | ArithmeticError
  | IndexError
  | OverflowError
  | ValueError
  | MemoryError
  | Undefined

type_synonym 'a res = "error + 'a"

named_theorems cint_simps "evaluation of the checked C++ integer operations"
named_theorems mode_defs "definitions of the ten rounding modes"
named_theorems limb_simps "facts on little-endian limb lists"

definition of_option :: "'a option \<Rightarrow> 'a res" where
  "of_option x = (case x of None \<Rightarrow> Inl Undefined | Some y \<Rightarrow> Inr y)"

lemma of_option_simps [simp]:
  "of_option None = Inl Undefined"
  "of_option (Some y) = Inr y"
  by (simp_all add: of_option_def)

lemma of_option_eq_Inr [simp]: "of_option x = Inr y \<longleftrightarrow> x = Some y"
  by (cases x) simp_all

definition bind_res :: "'a res \<Rightarrow> ('a \<Rightarrow> 'b res) \<Rightarrow> 'b res" where
  "bind_res x f = (case x of Inl e \<Rightarrow> Inl e | Inr y \<Rightarrow> f y)"

lemma bind_res_simps [simp]:
  "bind_res (Inl e) f = Inl e"
  "bind_res (Inr y) f = f y"
  by (simp_all add: bind_res_def)

lemma bind_res_eq_Inr:
  "bind_res x f = Inr z \<longleftrightarrow> (\<exists>y. x = Inr y \<and> f y = Inr z)"
  by (cases x) simp_all

section \<open>Integer division\<close>

lemma sdiv_nonneg: "0 \<le> a \<Longrightarrow> 0 \<le> b \<Longrightarrow> a sdiv b = a div (b::int)"
  by (simp add: signed_divide_int_def sgn_if)

lemma smod_nonneg: "0 \<le> a \<Longrightarrow> 0 \<le> b \<Longrightarrow> a smod b = a mod (b::int)"
  by (simp add: signed_modulo_int_def sgn_if)

lemma abs_sdiv_le: "\<bar>a sdiv b\<bar> \<le> \<bar>a::int\<bar>"
proof (cases "b = 0")
  case False
  then have "\<bar>a\<bar> div \<bar>b\<bar> \<le> \<bar>a\<bar>"
    by (metis abs_ge_zero div_by_1 int_one_le_iff_zero_less zdiv_mono2 zero_less_abs_iff zero_less_one)
  moreover have "0 \<le> \<bar>a\<bar> div \<bar>b\<bar>"
    by (simp add: div_int_pos_iff)
  ultimately show ?thesis
    by (auto simp: signed_divide_int_def abs_mult sgn_if)
qed (simp add: signed_divide_int_def)

lemma abs_smod_less: "b \<noteq> 0 \<Longrightarrow> \<bar>a smod b\<bar> < \<bar>b::int\<bar>"
  by (auto simp: signed_modulo_int_def sgn_if abs_mult)

lemma half_up_div:
  assumes "0 < (b::int)"
  shows "(a + b div 2) div b = (2 * a + b) div (2 * b)"
proof -
  have "(2 * a + b) div 2 = a + b div 2"
    by presburger
  then show ?thesis
    using zdiv_zmult2_eq [of b "2 * a + b" 2] assms by simp
qed

lemma half_down_div:
  assumes "0 < (b::int)"
  shows "(a + (b - 1) div 2) div b = - ((b - 2 * a) div (2 * b))"
proof -
  define q where "q = (a + (b - 1) div 2) div b"
  have "b * q + (a + (b - 1) div 2) mod b = a + (b - 1) div 2"
    by (simp add: q_def)
  moreover have "0 \<le> (a + (b - 1) div 2) mod b" "(a + (b - 1) div 2) mod b < b"
    using assms by simp_all
  ultimately have lo: "b * q \<le> a + (b - 1) div 2" and hi: "a + (b - 1) div 2 < b * q + b"
    by linarith+
  have "(b - 2 * a) div (2 * b) = - q"
  proof (rule int_div_pos_eq)
    show "b - 2 * a = 2 * b * - q + (b - 2 * (a - b * q))"
      by (simp add: algebra_simps)
    show "0 \<le> b - 2 * (a - b * q)" "b - 2 * (a - b * q) < 2 * b"
      using lo hi by presburger+
  qed
  then show ?thesis
    by (simp add: q_def)
qed

end
