(* ===== verification/CInt.thy ===== *)
theory CInt
  imports Prelude
begin

text \<open>
  The built-in integer types of C++ at an arbitrary width, as the templates of
  \<open>bertrand/math.h\<close> use them.  A type is a record of its signedness and width and
  a value is the mathematical integer it denotes.  Unsigned results wrap modulo
  \<open>2 ^ w\<close>; a signed result outside the type is undefined behaviour, \<open>None\<close>, and so
  is a division or remainder by zero or by an out-of-range quotient.  The type of
  an operation is the one after the integral promotions and the usual arithmetic
  conversions, so the widths of interest are 32 and 64.
\<close>

record ity =
  sgnd :: bool
  wid :: nat

abbreviation i32 :: ity where "i32 \<equiv> \<lparr> sgnd = True, wid = 32 \<rparr>"
abbreviation i64 :: ity where "i64 \<equiv> \<lparr> sgnd = True, wid = 64 \<rparr>"
abbreviation u32 :: ity where "u32 \<equiv> \<lparr> sgnd = False, wid = 32 \<rparr>"
abbreviation u64 :: ity where "u64 \<equiv> \<lparr> sgnd = False, wid = 64 \<rparr>"

definition c_min :: "ity \<Rightarrow> int" where
  "c_min t = (if sgnd t then - (2 ^ (wid t - 1)) else 0)"

definition c_max :: "ity \<Rightarrow> int" where
  "c_max t = (if sgnd t then 2 ^ (wid t - 1) - 1 else 2 ^ wid t - 1)"

definition in_ty :: "ity \<Rightarrow> int \<Rightarrow> bool" where
  "in_ty t x \<longleftrightarrow> c_min t \<le> x \<and> x \<le> c_max t"

definition c_norm :: "ity \<Rightarrow> int \<Rightarrow> int option" where
  "c_norm t x =
     (if sgnd t then (if in_ty t x then Some x else None) else Some (x mod 2 ^ wid t))"

definition c_add :: "ity \<Rightarrow> int \<Rightarrow> int \<Rightarrow> int option" where
  "c_add t x y = c_norm t (x + y)"

definition c_sub :: "ity \<Rightarrow> int \<Rightarrow> int \<Rightarrow> int option" where
  "c_sub t x y = c_norm t (x - y)"

definition c_mul :: "ity \<Rightarrow> int \<Rightarrow> int \<Rightarrow> int option" where
  "c_mul t x y = c_norm t (x * y)"

definition c_neg :: "ity \<Rightarrow> int \<Rightarrow> int option" where
  "c_neg t x = c_norm t (- x)"

definition c_div :: "ity \<Rightarrow> int \<Rightarrow> int \<Rightarrow> int option" where
  "c_div t x y = (if y = 0 then None else c_norm t (x sdiv y))"

definition c_mod :: "ity \<Rightarrow> int \<Rightarrow> int \<Rightarrow> int option" where
  "c_mod t x y = (if y = 0 \<or> \<not> in_ty t (x sdiv y) then None else Some (x smod y))"

text \<open>Shifts by a constant amount below the width, bitwise conjunction, and the
  modular left shift C++20 prescribes for signed types too.\<close>

definition c_wrap :: "ity \<Rightarrow> int \<Rightarrow> int" where
  "c_wrap t x =
     (if sgnd t then (x + 2 ^ (wid t - 1)) mod 2 ^ wid t - 2 ^ (wid t - 1)
      else x mod 2 ^ wid t)"

definition c_shl :: "ity \<Rightarrow> int \<Rightarrow> nat \<Rightarrow> int" where
  "c_shl t x n = c_wrap t (x * 2 ^ n)"

definition c_shr :: "int \<Rightarrow> nat \<Rightarrow> int" where
  "c_shr x n = x div 2 ^ n"

lemmas c_ops_defs [cint_simps] =
  c_add_def c_sub_def c_mul_def c_neg_def c_div_def c_mod_def c_norm_def in_ty_def
  c_min_def c_max_def

section \<open>Values in range\<close>

lemma c_norm_in_ty [simp]: "in_ty t x \<Longrightarrow> c_norm t x = Some x"
  by (auto simp: c_norm_def in_ty_def c_min_def c_max_def)

lemma c_norm_signed: "sgnd t \<Longrightarrow> c_norm t x = Some y \<longleftrightarrow> y = x \<and> in_ty t x"
  by (auto simp: c_norm_def)

lemma c_norm_unsigned: "\<not> sgnd t \<Longrightarrow> c_norm t x = Some (x mod 2 ^ wid t)"
  by (simp add: c_norm_def)

lemma in_ty_norm: "c_norm t x = Some y \<Longrightarrow> in_ty t y"
  by (cases "sgnd t") (auto simp: c_norm_def in_ty_def c_min_def c_max_def split: if_splits)

lemma in_ty_unsigned: "\<not> sgnd t \<Longrightarrow> in_ty t x \<longleftrightarrow> 0 \<le> x \<and> x < 2 ^ wid t"
  by (auto simp: in_ty_def c_min_def c_max_def)

lemma c_max_nonneg: "0 \<le> c_max t"
  by (simp add: c_max_def)

lemma in_ty_abs_le: "\<bar>x\<bar> \<le> c_max t \<Longrightarrow> sgnd t \<Longrightarrow> in_ty t x"
  by (auto simp: in_ty_def c_min_def c_max_def)

lemma in_ty_mono: "0 \<le> x \<Longrightarrow> x \<le> y \<Longrightarrow> in_ty t y \<Longrightarrow> in_ty t x"
  by (auto simp: in_ty_def c_min_def split: if_splits)
     (smt (verit) zero_le_power)

lemma in_ty_0 [simp]: "in_ty t 0"
  by (simp add: in_ty_def c_min_def c_max_def)

lemma c_wrap_in_ty [simp]:
  assumes "in_ty t x" "1 \<le> wid t"
  shows "c_wrap t x = x"
proof -
  have "(2::int) ^ wid t = 2 * 2 ^ (wid t - 1)"
    using assms(2) by (metis Suc_diff_1 less_eq_Suc_le One_nat_def power_Suc)
  then show ?thesis
    using assms(1) by (auto simp: c_wrap_def in_ty_def c_min_def c_max_def)
qed

lemma c_div_in_ty: "y \<noteq> 0 \<Longrightarrow> in_ty t (x sdiv y) \<Longrightarrow> c_div t x y = Some (x sdiv y)"
  by (simp add: c_div_def)

lemma c_mod_in_ty: "y \<noteq> 0 \<Longrightarrow> in_ty t (x sdiv y) \<Longrightarrow> c_mod t x y = Some (x smod y)"
  by (simp add: c_mod_def)

text \<open>A quotient can leave its type only for the least value divided by \<open>-1\<close>.\<close>

lemma in_ty_sdiv:
  assumes "in_ty t x" "in_ty t y" "sgnd t \<longrightarrow> x \<noteq> c_min t \<or> y \<noteq> - 1"
  shows "in_ty t (x sdiv y)"
proof (cases "sgnd t")
  case False
  then have "0 \<le> x" "0 \<le> y"
    using assms by (auto simp: in_ty_unsigned)
  then have "0 \<le> x sdiv y" "x sdiv y \<le> x"
    using abs_sdiv_le [of x y] by (auto simp: sdiv_nonneg div_int_pos_iff)
  then show ?thesis
    using assms(1) by (rule in_ty_mono)
next
  case True
  show ?thesis
  proof (cases "x = c_min t")
    case False
    then have "\<bar>x\<bar> \<le> c_max t"
      using assms(1) True by (auto simp: in_ty_def c_min_def c_max_def)
    then show ?thesis
      using abs_sdiv_le [of x y] True by (intro in_ty_abs_le) auto
  next
    case min: True
    then have "y \<noteq> - 1" "x < 0"
      using assms True by (auto simp: c_min_def)
    consider "y = 0" | "y = 1" | "2 \<le> \<bar>y\<bar>"
      using \<open>y \<noteq> - 1\<close> by linarith
    then show ?thesis
    proof cases
      case 3
      then have "\<bar>x\<bar> div \<bar>y\<bar> < \<bar>x\<bar>"
        using \<open>x < 0\<close> by (intro int_div_less_self) auto
      moreover have "\<bar>x sdiv y\<bar> = \<bar>x\<bar> div \<bar>y\<bar>"
        using 3 \<open>x < 0\<close> by (auto simp: signed_divide_int_def abs_mult sgn_if
          pos_imp_zdiv_nonneg_iff)
      ultimately have "\<bar>x sdiv y\<bar> \<le> c_max t"
        using min True by (auto simp: c_min_def c_max_def)
      then show ?thesis
        using True by (rule in_ty_abs_le)
    qed (use assms in \<open>auto simp: signed_divide_int_def sgn_if\<close>)
  qed
qed

end
