(* ===== verification/DivRound.thy ===== *)
theory DivRound
  imports CInt
begin

text \<open>
  The division strategies of \<open>impl::math::div\<close> in \<open>bertrand/math.h\<close>, one
  definition per partial specialization for integers: the suffix \<open>_u\<close> is the one
  constrained to unsigned operands, \<open>_s\<close> the general integer one, and the name
  without suffix is the overload resolution between the two.
\<close>

section \<open>Specializations of the strategies\<close>

definition impl_cpp :: "ity \<Rightarrow> int \<Rightarrow> int \<Rightarrow> int option" where
  "impl_cpp t lhs rhs = c_div t lhs rhs"

definition floor_u :: "ity \<Rightarrow> int \<Rightarrow> int \<Rightarrow> int option" where
  "floor_u t lhs rhs = c_div t lhs rhs"

definition floor_s :: "ity \<Rightarrow> int \<Rightarrow> int \<Rightarrow> int option" where
  "floor_s t lhs rhs = do {
     q \<leftarrow> c_div t lhs rhs;
     inexact \<leftarrow> (if (lhs < 0) \<noteq> (rhs < 0)
                then do { m \<leftarrow> c_mod t lhs rhs; Some (m \<noteq> 0) }
                else Some False);
     c_sub t q (of_bool inexact)
   }"

definition impl_floor :: "ity \<Rightarrow> int \<Rightarrow> int \<Rightarrow> int option" where
  "impl_floor t = (if sgnd t then floor_s t else floor_u t)"

definition ceil_u :: "ity \<Rightarrow> int \<Rightarrow> int \<Rightarrow> int option" where
  "ceil_u t lhs rhs = do {
     q \<leftarrow> c_div t lhs rhs;
     m \<leftarrow> c_mod t lhs rhs;
     c_add t q (of_bool (m \<noteq> 0))
   }"

definition ceil_s :: "ity \<Rightarrow> int \<Rightarrow> int \<Rightarrow> int option" where
  "ceil_s t lhs rhs = do {
     q \<leftarrow> c_div t lhs rhs;
     inexact \<leftarrow> (if (lhs < 0) = (rhs < 0)
                then do { m \<leftarrow> c_mod t lhs rhs; Some (m \<noteq> 0) }
                else Some False);
     c_add t q (of_bool inexact)
   }"

definition impl_ceil :: "ity \<Rightarrow> int \<Rightarrow> int \<Rightarrow> int option" where
  "impl_ceil t = (if sgnd t then ceil_s t else ceil_u t)"

definition down_u :: "ity \<Rightarrow> int \<Rightarrow> int \<Rightarrow> int option" where
  "down_u t lhs rhs = impl_floor t lhs rhs"

definition down_s :: "ity \<Rightarrow> int \<Rightarrow> int \<Rightarrow> int option" where
  "down_s t lhs rhs =
     (if (lhs < 0) \<noteq> (rhs < 0) then impl_ceil t lhs rhs else impl_floor t lhs rhs)"

definition impl_down :: "ity \<Rightarrow> int \<Rightarrow> int \<Rightarrow> int option" where
  "impl_down t = (if sgnd t then down_s t else down_u t)"

definition up_u :: "ity \<Rightarrow> int \<Rightarrow> int \<Rightarrow> int option" where
  "up_u t lhs rhs = impl_ceil t lhs rhs"

definition up_s :: "ity \<Rightarrow> int \<Rightarrow> int \<Rightarrow> int option" where
  "up_s t lhs rhs =
     (if (lhs < 0) \<noteq> (rhs < 0) then impl_floor t lhs rhs else impl_ceil t lhs rhs)"

definition impl_up :: "ity \<Rightarrow> int \<Rightarrow> int \<Rightarrow> int option" where
  "impl_up t = (if sgnd t then up_s t else up_u t)"

text \<open>The unsigned tie strategies add a non-negative offset before dividing.  The
  signed ones share the tail \<open>(lhs + sign * (s / 2)) / rhs\<close>.\<close>

definition half_u :: "ity \<Rightarrow> int \<Rightarrow> int \<Rightarrow> int \<Rightarrow> int option" where
  "half_u t lhs s rhs = do {
     h \<leftarrow> c_div t s 2;
     n \<leftarrow> c_add t lhs h;
     c_div t n rhs
   }"

definition half_s :: "ity \<Rightarrow> int \<Rightarrow> int \<Rightarrow> int \<Rightarrow> int \<Rightarrow> int option" where
  "half_s t lhs sign s rhs = do {
     h \<leftarrow> c_div t s 2;
     e \<leftarrow> c_mul t sign h;
     n \<leftarrow> c_add t lhs e;
     c_div t n rhs
   }"

definition half_floor_u :: "ity \<Rightarrow> int \<Rightarrow> int \<Rightarrow> int option" where
  "half_floor_u t lhs rhs = do { s \<leftarrow> c_sub t rhs 1; half_u t lhs s rhs }"

definition half_floor_s :: "ity \<Rightarrow> int \<Rightarrow> int \<Rightarrow> int option" where
  "half_floor_s t lhs rhs = (
     let a = lhs < 0; b = rhs > 0; sign = of_bool (a \<noteq> b) - of_bool (a = b)
     in do {
       s1 \<leftarrow> c_add t rhs (of_bool a);
       s \<leftarrow> c_sub t s1 (of_bool b);
       half_s t lhs sign s rhs
     })"

definition impl_half_floor :: "ity \<Rightarrow> int \<Rightarrow> int \<Rightarrow> int option" where
  "impl_half_floor t = (if sgnd t then half_floor_s t else half_floor_u t)"

definition half_ceil_u :: "ity \<Rightarrow> int \<Rightarrow> int \<Rightarrow> int option" where
  "half_ceil_u t lhs rhs = half_u t lhs rhs rhs"

definition half_ceil_s :: "ity \<Rightarrow> int \<Rightarrow> int \<Rightarrow> int option" where
  "half_ceil_s t lhs rhs = (
     let a = rhs < 0; b = lhs < 0; sign = of_bool (a = b) - of_bool (a \<noteq> b)
     in do {
       s1 \<leftarrow> c_add t rhs (of_bool a);
       s \<leftarrow> c_sub t s1 (of_bool b);
       half_s t lhs sign s rhs
     })"

definition impl_half_ceil :: "ity \<Rightarrow> int \<Rightarrow> int \<Rightarrow> int option" where
  "impl_half_ceil t = (if sgnd t then half_ceil_s t else half_ceil_u t)"

definition half_down_u :: "ity \<Rightarrow> int \<Rightarrow> int \<Rightarrow> int option" where
  "half_down_u t lhs rhs = do { s \<leftarrow> c_sub t rhs 1; half_u t lhs s rhs }"

definition half_down_s :: "ity \<Rightarrow> int \<Rightarrow> int \<Rightarrow> int option" where
  "half_down_s t lhs rhs = (
     let a = rhs < 0; b = rhs > 0; temp = lhs < 0;
         sign = of_bool (a = temp) - of_bool (a \<noteq> temp)
     in do {
       s1 \<leftarrow> c_add t rhs (of_bool a);
       s \<leftarrow> c_sub t s1 (of_bool b);
       half_s t lhs sign s rhs
     })"

definition impl_half_down :: "ity \<Rightarrow> int \<Rightarrow> int \<Rightarrow> int option" where
  "impl_half_down t = (if sgnd t then half_down_s t else half_down_u t)"

definition half_up_u :: "ity \<Rightarrow> int \<Rightarrow> int \<Rightarrow> int option" where
  "half_up_u t lhs rhs = half_u t lhs rhs rhs"

definition half_up_s :: "ity \<Rightarrow> int \<Rightarrow> int \<Rightarrow> int option" where
  "half_up_s t lhs rhs = (
     let a = lhs < 0; b = rhs < 0; sign = of_bool (a = b) - of_bool (a \<noteq> b)
     in half_s t lhs sign rhs rhs)"

definition impl_half_up :: "ity \<Rightarrow> int \<Rightarrow> int \<Rightarrow> int option" where
  "impl_half_up t = (if sgnd t then half_up_s t else half_up_u t)"

text \<open>\<open>bool odd = (lhs / rhs) % 2\<close>\<close>

definition odd_quot :: "ity \<Rightarrow> int \<Rightarrow> int \<Rightarrow> bool option" where
  "odd_quot t lhs rhs = do { q \<leftarrow> c_div t lhs rhs; m \<leftarrow> c_mod t q 2; Some (m \<noteq> 0) }"

definition half_even_u :: "ity \<Rightarrow> int \<Rightarrow> int \<Rightarrow> int option" where
  "half_even_u t lhs rhs = do {
     odd \<leftarrow> odd_quot t lhs rhs;
     s \<leftarrow> c_sub t rhs (of_bool (\<not> odd));
     half_u t lhs s rhs
   }"

definition half_even_s :: "ity \<Rightarrow> int \<Rightarrow> int \<Rightarrow> int option" where
  "half_even_s t lhs rhs = (
     let a = rhs < 0; b = rhs > 0; temp = lhs < 0;
         sign = of_bool (a = temp) - of_bool (a \<noteq> temp)
     in do {
       odd \<leftarrow> odd_quot t lhs rhs;
       s \<leftarrow> c_add t rhs (of_bool (\<not> odd) * (of_bool a - of_bool b));
       half_s t lhs sign s rhs
     })"

definition impl_half_even :: "ity \<Rightarrow> int \<Rightarrow> int \<Rightarrow> int option" where
  "impl_half_even t = (if sgnd t then half_even_s t else half_even_u t)"

definition half_odd_u :: "ity \<Rightarrow> int \<Rightarrow> int \<Rightarrow> int option" where
  "half_odd_u t lhs rhs = do {
     odd \<leftarrow> odd_quot t lhs rhs;
     s \<leftarrow> c_sub t rhs (of_bool odd);
     half_u t lhs s rhs
   }"

definition half_odd_s :: "ity \<Rightarrow> int \<Rightarrow> int \<Rightarrow> int option" where
  "half_odd_s t lhs rhs = (
     let a = rhs < 0; b = rhs > 0; temp = lhs < 0;
         sign = of_bool (a = temp) - of_bool (a \<noteq> temp)
     in do {
       odd \<leftarrow> odd_quot t lhs rhs;
       s \<leftarrow> c_add t rhs (of_bool odd * (of_bool a - of_bool b));
       half_s t lhs sign s rhs
     })"

definition impl_half_odd :: "ity \<Rightarrow> int \<Rightarrow> int \<Rightarrow> int option" where
  "impl_half_odd t = (if sgnd t then half_odd_s t else half_odd_u t)"

section \<open>The reference roundings\<close>

text \<open>What each strategy promises, as a rounding of the exact rational quotient.\<close>

datatype mode =
    Cpp | Floor | Ceil | Down | Up
  | HalfFloor | HalfCeil | HalfDown | HalfUp | HalfEven | HalfOdd

fun round_to :: "mode \<Rightarrow> real \<Rightarrow> int" where
  "round_to Cpp x = (if 0 \<le> x then \<lfloor>x\<rfloor> else \<lceil>x\<rceil>)"
| "round_to Floor x = \<lfloor>x\<rfloor>"
| "round_to Ceil x = \<lceil>x\<rceil>"
| "round_to Down x = (if 0 \<le> x then \<lfloor>x\<rfloor> else \<lceil>x\<rceil>)"
| "round_to Up x = (if 0 \<le> x then \<lceil>x\<rceil> else \<lfloor>x\<rfloor>)"
| "round_to HalfFloor x = \<lceil>x - 1/2\<rceil>"
| "round_to HalfCeil x = \<lfloor>x + 1/2\<rfloor>"
| "round_to HalfDown x = (if 0 \<le> x then \<lceil>x - 1/2\<rceil> else \<lfloor>x + 1/2\<rfloor>)"
| "round_to HalfUp x = (if 0 \<le> x then \<lfloor>x + 1/2\<rfloor> else \<lceil>x - 1/2\<rceil>)"
| "round_to HalfEven x = (if even \<lceil>x - 1/2\<rceil> then \<lceil>x - 1/2\<rceil> else \<lfloor>x + 1/2\<rfloor>)"
| "round_to HalfOdd x = (if odd \<lceil>x - 1/2\<rceil> then \<lceil>x - 1/2\<rceil> else \<lfloor>x + 1/2\<rfloor>)"

fun is_half :: "mode \<Rightarrow> bool" where
  "is_half m \<longleftrightarrow> m \<in> {HalfFloor, HalfCeil, HalfDown, HalfUp, HalfEven, HalfOdd}"

fun impl_div :: "mode \<Rightarrow> ity \<Rightarrow> int \<Rightarrow> int \<Rightarrow> int option" where
  "impl_div Cpp = impl_cpp"
| "impl_div Floor = impl_floor"
| "impl_div Ceil = impl_ceil"
| "impl_div Down = impl_down"
| "impl_div Up = impl_up"
| "impl_div HalfFloor = impl_half_floor"
| "impl_div HalfCeil = impl_half_ceil"
| "impl_div HalfDown = impl_half_down"
| "impl_div HalfUp = impl_half_up"
| "impl_div HalfEven = impl_half_even"
| "impl_div HalfOdd = impl_half_odd"

text \<open>The operands on which no intermediate result leaves the type: for the tie
  strategies the shifted numerator must fit (and \<open>half_floor\<close> computes
  \<open>rhs + (lhs < 0)\<close> on the way), for the others only the least value
  divided by \<open>-1\<close> is excluded.\<close>

definition div_ok :: "mode \<Rightarrow> ity \<Rightarrow> int \<Rightarrow> int \<Rightarrow> bool" where
  "div_ok m t lhs rhs \<longleftrightarrow>
     3 \<le> wid t \<and> in_ty t lhs \<and> in_ty t rhs \<and> rhs \<noteq> 0 \<and>
     (if is_half m then \<bar>lhs\<bar> + \<bar>rhs\<bar> div 2 \<le> c_max t \<and>
        (m = HalfFloor \<and> sgnd t \<and> lhs < 0 \<longrightarrow> rhs \<noteq> c_max t)
      else sgnd t \<longrightarrow> lhs \<noteq> c_min t \<or> rhs \<noteq> - 1)"

section \<open>Exact quotients\<close>

lemma int_quot_unique:
  "(a::int) = b * q + r \<Longrightarrow> 0 \<le> r \<and> r < b \<or> b < r \<and> r \<le> 0 \<Longrightarrow> a div b = q"
  by (metis int_div_pos_eq int_div_neg_eq)

lemma div_via_sdiv:
  assumes "r \<noteq> 0"
  shows "l div r = l sdiv r - of_bool ((l < 0) \<noteq> (r < 0) \<and> l smod r \<noteq> (0::int))"
  using assms
  by (auto simp: signed_divide_int_def signed_modulo_int_def sgn_if zdiv_zminus1_eq_if
    zdiv_zminus2_eq_if)

lemma cdiv_via_sdiv:
  assumes "r \<noteq> 0"
  shows "- (- l div r) = l sdiv r + of_bool ((l < 0) = (r < 0) \<and> l smod r \<noteq> (0::int))"
  using assms
  by (auto simp: signed_divide_int_def signed_modulo_int_def sgn_if zdiv_zminus1_eq_if
    zdiv_zminus2_eq_if)

definition mag_up :: "int \<Rightarrow> int \<Rightarrow> int" where "mag_up a b = (a + b div 2) div b"
definition mag_down :: "int \<Rightarrow> int \<Rightarrow> int" where "mag_down a b = (a + (b - 1) div 2) div b"

lemma quot_rem_cases:
  assumes "0 < (b::int)"
  obtains q m where "a = b * q + m" "0 \<le> m" "m < b" "a div b = q" "a mod b = m"
  using assms by (metis mult_div_mod_eq pos_mod_bound pos_mod_sign)

lemma mag_up_alt:
  assumes "0 < b"
  shows "mag_up a b = a div b + of_bool (b \<le> 2 * (a mod b))"
proof (rule quot_rem_cases [OF assms, of a])
  fix q m assume *: "a = b * q + m" "0 \<le> m" "m < b" "a div b = q" "a mod b = m"
  have "(a + b div 2) div b = q + of_bool (b \<le> 2 * m)"
    using * by (intro int_quot_unique [where r = "m + b div 2 - b * of_bool (b \<le> 2 * m)"])
      (auto simp: distrib_left)
  then show ?thesis
    using * by (simp add: mag_up_def)
qed

lemma mag_down_alt:
  assumes "0 < b"
  shows "mag_down a b = a div b + of_bool (b < 2 * (a mod b))"
proof (rule quot_rem_cases [OF assms, of a])
  fix q m assume *: "a = b * q + m" "0 \<le> m" "m < b" "a div b = q" "a mod b = m"
  have "(a + (b - 1) div 2) div b = q + of_bool (b < 2 * m)"
    using * by (intro int_quot_unique [where r = "m + (b - 1) div 2 - b * of_bool (b < 2 * m)"])
      (auto simp: distrib_left)
  then show ?thesis
    using * by (simp add: mag_down_def)
qed

lemma real_half_up: "0 < b \<Longrightarrow> \<lfloor>of_int a / of_int b + 1/2 :: real\<rfloor> = mag_up a b"
proof -
  assume b: "0 < b"
  have "of_int a / of_int b + 1/2 = (of_int (2 * a + b) / of_int (2 * b) :: real)"
    using b by (simp add: field_simps)
  then show ?thesis
    using b by (simp only: floor_divide_of_int_eq mag_up_def half_up_div)
qed

lemma real_half_down: "0 < b \<Longrightarrow> \<lceil>of_int a / of_int b - 1/2 :: real\<rceil> = mag_down a b"
proof -
  assume b: "0 < b"
  have "of_int a / of_int b - 1/2 = (of_int (2 * a - b) / of_int (2 * b) :: real)"
    using b by (simp add: field_simps)
  then have "\<lceil>of_int a / of_int b - 1/2 :: real\<rceil> = - (- (2 * a - b) div (2 * b))"
    by (simp only: ceiling_divide_eq_div)
  then show ?thesis
    using b by (simp add: mag_down_def half_down_div)
qed

lemma quot_abs:
  "(of_int l / of_int r :: real) =
     (if (l < 0) = (r < 0) then of_int \<bar>l\<bar> / of_int \<bar>r\<bar> else - (of_int \<bar>l\<bar> / of_int \<bar>r\<bar>))"
  by (auto simp: abs_if)

lemma real_half_up_signed:
  assumes "r \<noteq> 0"
  shows "\<lfloor>of_int l / of_int r + 1/2 :: real\<rfloor> =
     (if (l < 0) = (r < 0) then mag_up \<bar>l\<bar> \<bar>r\<bar> else - mag_down \<bar>l\<bar> \<bar>r\<bar>)"
proof (cases "(l < 0) = (r < 0)")
  case True
  then show ?thesis
    using assms real_half_up [of "\<bar>r\<bar>" "\<bar>l\<bar>"] by (simp add: quot_abs)
next
  case False
  have "- (of_int \<bar>l\<bar> / of_int \<bar>r\<bar>) + 1/2 = - (of_int \<bar>l\<bar> / of_int \<bar>r\<bar> - 1/2 :: real)"
    by simp
  then show ?thesis
    using assms False real_half_down [of "\<bar>r\<bar>" "\<bar>l\<bar>"]
    by (simp only: quot_abs [of l r] if_False floor_minus)
qed

lemma real_half_down_signed:
  assumes "r \<noteq> 0"
  shows "\<lceil>of_int l / of_int r - 1/2 :: real\<rceil> =
     (if (l < 0) = (r < 0) then mag_down \<bar>l\<bar> \<bar>r\<bar> else - mag_up \<bar>l\<bar> \<bar>r\<bar>)"
proof (cases "(l < 0) = (r < 0)")
  case True
  then show ?thesis
    using assms real_half_down [of "\<bar>r\<bar>" "\<bar>l\<bar>"] by (simp add: quot_abs)
next
  case False
  have "- (of_int \<bar>l\<bar> / of_int \<bar>r\<bar>) - 1/2 = - (of_int \<bar>l\<bar> / of_int \<bar>r\<bar> + 1/2 :: real)"
    by simp
  then show ?thesis
    using assms False real_half_up [of "\<bar>r\<bar>" "\<bar>l\<bar>"]
    by (simp only: quot_abs [of l r] if_False ceiling_minus)
qed

lemma quot_nonneg:
  assumes "r \<noteq> 0"
  shows "0 \<le> (of_int l / of_int r :: real) \<longleftrightarrow> (l < 0) = (r < 0) \<or> l = 0"
  using assms by (auto simp: zero_le_divide_iff)

lemma mag_zero [simp]: "0 < b \<Longrightarrow> mag_up 0 b = 0" "0 < b \<Longrightarrow> mag_down 0 b = 0"
  by (simp_all add: mag_up_def mag_down_def div_pos_pos_trivial)

text \<open>The value of each rounding on integer operands.\<close>

definition round_quot :: "mode \<Rightarrow> int \<Rightarrow> int \<Rightarrow> int" where
  "round_quot m l r = round_to m (of_int l / of_int r)"

lemma round_quot_exact:
  assumes "r \<noteq> 0"
  shows "round_quot Floor l r = l div r"
    "round_quot Ceil l r = - (- l div r)"
    "round_quot Cpp l r = l sdiv r"
    "round_quot Down l r = l sdiv r"
    "round_quot Up l r = (if (l < 0) = (r < 0) then - (- l div r) else l div r)"
proof -
  show "round_quot Floor l r = l div r"
    by (simp add: round_quot_def floor_divide_of_int_eq)
  show "round_quot Ceil l r = - (- l div r)"
    by (simp add: round_quot_def ceiling_divide_eq_div)
  show "round_quot Cpp l r = l sdiv r" "round_quot Down l r = l sdiv r"
    using assms div_via_sdiv [of r l] cdiv_via_sdiv [of r l]
    by (auto simp: round_quot_def floor_divide_of_int_eq ceiling_divide_eq_div quot_nonneg)
  show "round_quot Up l r = (if (l < 0) = (r < 0) then - (- l div r) else l div r)"
    using assms
    by (auto simp: round_quot_def floor_divide_of_int_eq ceiling_divide_eq_div quot_nonneg)
qed

lemma round_quot_half:
  fixes l r :: int
  assumes "r \<noteq> 0"
  defines "s \<equiv> (l < 0) = (r < 0)" and "u \<equiv> mag_up \<bar>l\<bar> \<bar>r\<bar>" and "d \<equiv> mag_down \<bar>l\<bar> \<bar>r\<bar>"
  shows "round_quot HalfFloor l r = (if s then d else - u)"
    "round_quot HalfCeil l r = (if s then u else - d)"
    "round_quot HalfDown l r = (if s then d else - d)"
    "round_quot HalfUp l r = (if s then u else - u)"
    "round_quot HalfEven l r = (let q = (if odd (l sdiv r) then u else d) in if s then q else - q)"
    "round_quot HalfOdd l r = (let q = (if odd (l sdiv r) then d else u) in if s then q else - q)"
proof -
  note half = real_half_up_signed [OF assms(1), of l, folded s_def u_def d_def]
    real_half_down_signed [OF assms(1), of l, folded s_def u_def d_def]
    quot_nonneg [OF assms(1), of l, folded s_def]
  have zero: "u = 0 \<and> d = 0" if "l = 0"
    using that assms(1) by (simp add: u_def d_def)
  show "round_quot HalfFloor l r = (if s then d else - u)"
    "round_quot HalfCeil l r = (if s then u else - d)"
    by (simp_all only: round_quot_def round_to.simps half)
  show "round_quot HalfDown l r = (if s then d else - d)"
    "round_quot HalfUp l r = (if s then u else - u)"
    using zero by (cases s; simp only: round_quot_def round_to.simps half; auto)+
  have q: "even (l sdiv r) \<longleftrightarrow> even (\<bar>l\<bar> div \<bar>r\<bar>)"
    using assms(1) by (auto simp: signed_divide_int_def sgn_if)
  have ud: "u = \<bar>l\<bar> div \<bar>r\<bar> + of_bool (\<bar>r\<bar> \<le> 2 * (\<bar>l\<bar> mod \<bar>r\<bar>))"
    "d = \<bar>l\<bar> div \<bar>r\<bar> + of_bool (\<bar>r\<bar> < 2 * (\<bar>l\<bar> mod \<bar>r\<bar>))"
    using assms(1) by (simp_all add: u_def d_def mag_up_alt mag_down_alt)
  have near: "even u \<and> odd d \<longrightarrow> odd (l sdiv r)" "odd u \<and> even d \<longrightarrow> even (l sdiv r)"
    "even u = even d \<longrightarrow> u = d"
    unfolding q by (auto simp: ud)
  show "round_quot HalfEven l r = (let q = (if odd (l sdiv r) then u else d) in if s then q else - q)"
    "round_quot HalfOdd l r = (let q = (if odd (l sdiv r) then d else u) in if s then q else - q)"
    using near by (cases s; simp only: round_quot_def round_to.simps half; auto)+
qed

section \<open>The specializations meet the reference\<close>

lemma c_max_3: "3 \<le> wid t \<Longrightarrow> 3 \<le> c_max t"
proof -
  assume "3 \<le> wid t"
  then have "(2::int) ^ 2 \<le> 2 ^ (wid t - 1)" "(2::int) ^ 3 \<le> 2 ^ wid t"
    by (intro power_increasing; simp)+
  then show ?thesis
    by (auto simp: c_max_def)
qed

lemma in_ty_abs_pos: "0 \<le> x \<Longrightarrow> x \<le> c_max t \<Longrightarrow> in_ty t x"
  by (auto simp: in_ty_def c_min_def) (smt (verit) zero_le_power)

lemma in_ty_2: "3 \<le> wid t \<Longrightarrow> in_ty t 2"
  using c_max_3 [of t] by (simp add: in_ty_abs_pos)

lemma half_s_ok:
  assumes "sgnd t" "3 \<le> wid t" "in_ty t s" "r \<noteq> 0"
    and e: "sign * (s sdiv 2) = (if l < 0 then - h else h)"
    and h: "0 \<le> h" "\<bar>l\<bar> + h \<le> c_max t"
  shows "half_s t l sign s r =
    Some (if (l < 0) = (r < 0) then (\<bar>l\<bar> + h) div \<bar>r\<bar> else - ((\<bar>l\<bar> + h) div \<bar>r\<bar>))"
proof -
  let ?e = "if l < 0 then - h else h"
  have "c_div t s 2 = Some (s sdiv 2)"
    using assms by (intro c_div_in_ty in_ty_sdiv in_ty_2) auto
  moreover have "c_mul t sign (s sdiv 2) = Some ?e"
    unfolding c_mul_def e using assms by (intro c_norm_in_ty in_ty_abs_le) auto
  moreover have n: "c_add t l ?e = Some (l + ?e)"
    unfolding c_add_def using assms by (intro c_norm_in_ty in_ty_abs_le) auto
  moreover have "c_div t (l + ?e) r = Some ((l + ?e) sdiv r)"
    using assms abs_sdiv_le [of "l + ?e" r] by (intro c_div_in_ty in_ty_abs_le) auto
  moreover have "(l + ?e) sdiv r =
      (if (l < 0) = (r < 0) then (\<bar>l\<bar> + h) div \<bar>r\<bar> else - ((\<bar>l\<bar> + h) div \<bar>r\<bar>))"
    using \<open>r \<noteq> 0\<close> h(1) by (auto simp: signed_divide_int_def sgn_if)
  ultimately show ?thesis
    by (simp add: half_s_def)
qed

lemma half_u_ok:
  assumes "\<not> sgnd t" "3 \<le> wid t" "in_ty t s" "r \<noteq> 0" "in_ty t r" "in_ty t l"
    "l + s div 2 \<le> c_max t"
  shows "half_u t l s r = Some ((l + s div 2) div r)"
proof -
  have nn: "0 \<le> s" "0 \<le> r" "0 \<le> l"
    using assms by (auto simp: in_ty_unsigned)
  have "c_div t s 2 = Some (s div 2)"
    using assms nn in_ty_sdiv [OF assms(3) in_ty_2 [OF assms(2)]]
    by (simp add: c_div_in_ty sdiv_nonneg)
  moreover have n: "in_ty t (l + s div 2)"
    using nn assms by (intro in_ty_abs_pos) auto
  moreover have "c_div t (l + s div 2) r = Some ((l + s div 2) div r)"
    using assms nn n in_ty_sdiv [OF n assms(5)] by (simp add: c_div_in_ty sdiv_nonneg)
  ultimately show ?thesis
    by (simp add: half_u_def c_add_def)
qed

lemma odd_quot_ok:
  assumes "in_ty t l" "in_ty t r" "r \<noteq> 0" "3 \<le> wid t" "sgnd t \<longrightarrow> l \<noteq> c_min t \<or> r \<noteq> - 1"
  shows "odd_quot t l r = Some (odd (l sdiv r))"
proof -
  have q: "in_ty t (l sdiv r)"
    using assms by (intro in_ty_sdiv) auto
  then have "in_ty t (l sdiv r sdiv 2)"
    using assms by (intro in_ty_sdiv in_ty_2) auto
  moreover have "x smod 2 \<noteq> 0 \<longleftrightarrow> odd x" for x :: int
    by (auto simp: signed_modulo_int_def sgn_if) presburger+
  ultimately show ?thesis
    using assms q by (simp add: odd_quot_def c_div_in_ty c_mod_in_ty)
qed

lemma inexact_bound:
  assumes "l smod r \<noteq> 0" "r \<noteq> (0::int)"
  shows "\<bar>l sdiv r\<bar> + 1 \<le> \<bar>l\<bar>" "3 \<le> \<bar>l\<bar> \<Longrightarrow> odd r \<or> even l \<Longrightarrow> \<bar>l sdiv r\<bar> + 2 \<le> \<bar>l\<bar>"
proof -
  have r1: "\<bar>r\<bar> \<noteq> 1" and l0: "l \<noteq> 0"
    using assms by (auto simp: signed_modulo_int_def abs_if split: if_splits)
  then have r: "2 \<le> \<bar>r\<bar>"
    using assms(2) by linarith
  have eq: "\<bar>l sdiv r\<bar> = \<bar>l\<bar> div \<bar>r\<bar>"
    using assms(2) l0 by (auto simp: signed_divide_int_def abs_mult sgn_if
      pos_imp_zdiv_nonneg_iff)
  show "\<bar>l sdiv r\<bar> + 1 \<le> \<bar>l\<bar>"
    using int_div_less_self [of "\<bar>l\<bar>" "\<bar>r\<bar>"] r l0 by (simp add: eq)
  show "\<bar>l sdiv r\<bar> + 2 \<le> \<bar>l\<bar>" if "3 \<le> \<bar>l\<bar>" "odd r \<or> even l"
  proof -
    have "\<bar>r\<bar> \<noteq> 2"
    proof
      assume "\<bar>r\<bar> = 2"
      then have "r = 2 \<or> r = -2" by linarith
      with that(2) assms(1) show False
        by (auto simp: signed_modulo_int_def sgn_if)
    qed
    then have "3 \<le> \<bar>r\<bar>"
      using r by linarith
    then have "\<bar>l\<bar> div \<bar>r\<bar> \<le> \<bar>l\<bar> div 3"
      by (intro zdiv_mono2) auto
    then show ?thesis
      using that(1) unfolding eq by linarith
  qed
qed

lemma div_in_ty:
  assumes "div_ok Floor t l r"
  shows "in_ty t (l sdiv r)" "in_ty t (l div r)" "in_ty t (- (- l div r))"
proof -
  have r: "r \<noteq> 0" and l: "in_ty t l" and w: "3 \<le> wid t"
    using assms by (auto simp: div_ok_def)
  have nn: "\<not> sgnd t \<Longrightarrow> 0 \<le> l \<and> 0 \<le> r"
    using assms by (auto simp: div_ok_def in_ty_unsigned)
  show q: "in_ty t (l sdiv r)"
    using assms by (auto simp: div_ok_def intro: in_ty_sdiv)
  show "in_ty t (l div r)"
    using nn inexact_bound(1) [of l r] r l q div_via_sdiv [OF r, of l]
    by (cases "(l < 0) \<noteq> (r < 0) \<and> l smod r \<noteq> 0")
      (auto simp: in_ty_def c_min_def c_max_def split: if_splits)
  show "in_ty t (- (- l div r))"
  proof (cases "(l < 0) = (r < 0) \<and> l smod r \<noteq> 0")
    case inexact: True
    show ?thesis
    proof (cases "sgnd t \<and> l = c_min t")
      case True
      then have "even l" "3 \<le> \<bar>l\<bar>"
        using w c_max_3 [of t] by (auto simp: c_min_def c_max_def)
      then show ?thesis
        using inexact_bound(2) [of l r] inexact r l q cdiv_via_sdiv [OF r, of l]
        by (auto simp: in_ty_def c_min_def c_max_def split: if_splits)
    next
      case False
      then show ?thesis
        using inexact_bound(1) [of l r] inexact r l q cdiv_via_sdiv [OF r, of l]
        by (auto simp: in_ty_def c_min_def c_max_def split: if_splits)
    qed
  qed (use q cdiv_via_sdiv [OF r, of l] in auto)
qed

lemma floor_ceil_ok:
  assumes "div_ok Floor t l r"
  shows "impl_floor t l r = Some (l div r)" "impl_ceil t l r = Some (- (- l div r))"
proof -
  have r: "r \<noteq> 0"
    using assms by (auto simp: div_ok_def)
  note q = div_in_ty [OF assms]
  note ops = c_div_in_ty [OF r q(1)] c_mod_in_ty [OF r q(1)]
  have nn: "0 \<le> l \<and> 0 \<le> r" if "\<not> sgnd t"
    using that assms by (auto simp: div_ok_def in_ty_unsigned)
  have "floor_s t l r = c_sub t (l sdiv r) (of_bool ((l < 0) \<noteq> (r < 0) \<and> l smod r \<noteq> 0))"
    by (simp add: floor_s_def ops)
  then have "floor_s t l r = Some (l div r)"
    using q(2) unfolding c_sub_def div_via_sdiv [OF r, of l, symmetric] by simp
  then show "impl_floor t l r = Some (l div r)"
    using ops nn by (auto simp: impl_floor_def floor_u_def sdiv_nonneg)
  have "ceil_s t l r = c_add t (l sdiv r) (of_bool ((l < 0) = (r < 0) \<and> l smod r \<noteq> 0))"
    by (simp add: ceil_s_def ops)
  then have "ceil_s t l r = Some (- (- l div r))"
    using q(3) unfolding c_add_def cdiv_via_sdiv [OF r, of l, symmetric] by simp
  moreover have "ceil_u t l r = ceil_s t l r" if "\<not> sgnd t"
    using nn [OF that] by (simp add: ceil_u_def ceil_s_def ops)
  ultimately show "impl_ceil t l r = Some (- (- l div r))"
    by (simp add: impl_ceil_def)
qed

lemma in_ty_between:
  "in_ty t r \<Longrightarrow> 0 \<le> x \<and> x \<le> r \<or> r \<le> x \<and> x \<le> 0 \<Longrightarrow> in_ty t x"
  using in_ty_0 [of t] by (auto simp: in_ty_def)

lemma half_of_bound:
  assumes "r \<noteq> (0::int)"
  shows "0 \<le> \<bar>r\<bar> div 2" "0 \<le> (\<bar>r\<bar> - 1) div 2" "(\<bar>r\<bar> - 1) div 2 \<le> \<bar>r\<bar> div 2"
  using assms by presburger+

lemma half_s_cases:
  assumes ok: "div_ok m t l r" "is_half m" "sgnd t"
    and sign: "sign = (if (l < 0) = (r < 0) then 1 else - 1)"
  shows "half_s t l sign r r = Some (if (l < 0) = (r < 0) then mag_up \<bar>l\<bar> \<bar>r\<bar> else - mag_up \<bar>l\<bar> \<bar>r\<bar>)"
    "half_s t l sign (if r < 0 then r + 1 else r - 1) r
       = Some (if (l < 0) = (r < 0) then mag_down \<bar>l\<bar> \<bar>r\<bar> else - mag_down \<bar>l\<bar> \<bar>r\<bar>)"
proof -
  have r: "r \<noteq> 0" and w: "3 \<le> wid t" and ty: "in_ty t r"
    and h: "\<bar>l\<bar> + \<bar>r\<bar> div 2 \<le> c_max t"
    using ok by (auto simp: div_ok_def simp del: is_half.simps)
  have s: "in_ty t (if r < 0 then r + 1 else r - 1)"
    using r by (intro in_ty_between [OF ty]) auto
  have 2: "r sdiv 2 = (if r < 0 then - (\<bar>r\<bar> div 2) else \<bar>r\<bar> div 2)"
    "(if r < 0 then r + 1 else r - 1) sdiv 2 = (if r < 0 then - ((\<bar>r\<bar> - 1) div 2) else (\<bar>r\<bar> - 1) div 2)"
    using r by (auto simp: signed_divide_int_def sgn_if)
  show "half_s t l sign r r = Some (if (l < 0) = (r < 0) then mag_up \<bar>l\<bar> \<bar>r\<bar> else - mag_up \<bar>l\<bar> \<bar>r\<bar>)"
    unfolding mag_up_def
    by (rule half_s_ok [OF ok(3) w ty r])
       (use h half_of_bound [OF r] in \<open>auto simp: sign 2\<close>)
  show "half_s t l sign (if r < 0 then r + 1 else r - 1) r
       = Some (if (l < 0) = (r < 0) then mag_down \<bar>l\<bar> \<bar>r\<bar> else - mag_down \<bar>l\<bar> \<bar>r\<bar>)"
    unfolding mag_down_def
    by (rule half_s_ok [OF ok(3) w s r])
       (unfold 2, use h half_of_bound [OF r] in \<open>auto simp: sign\<close>)
qed

lemma toward_zero_ok:
  assumes "in_ty t r"
  shows "r < 0 \<Longrightarrow> c_add t r 1 = Some (r + 1)" "0 < r \<Longrightarrow> c_sub t r 1 = Some (r - 1)"
    "0 < r \<Longrightarrow> c_add t r (- 1) = Some (r - 1)" "c_add t r 0 = Some r" "c_sub t r 0 = Some r"
    "sgnd t \<Longrightarrow> r \<noteq> c_max t \<Longrightarrow> c_add t r 1 = Some (r + 1)"
    "r < 0 \<Longrightarrow> c_sub t (r + 1) 1 = Some r" "r < 0 \<Longrightarrow> c_sub t (r + 1) 0 = Some (r + 1)"
    "0 < r \<Longrightarrow> c_sub t (r + 1) 1 = Some r"
  using assms
  by (auto simp: c_add_def c_sub_def in_ty_def intro!: c_norm_in_ty in_ty_between [OF assms])

lemma half_u_cases:
  assumes ok: "div_ok m t l r" "is_half m" "\<not> sgnd t"
  shows "half_u t l r r = Some (mag_up l r)"
    "half_u t l (r - 1) r = Some (mag_down l r)"
    "c_sub t r 1 = Some (r - 1)"
proof -
  have r: "r \<noteq> 0" and w: "3 \<le> wid t" and ty: "in_ty t r" "in_ty t l"
    and h: "\<bar>l\<bar> + \<bar>r\<bar> div 2 \<le> c_max t"
    using ok by (auto simp: div_ok_def simp del: is_half.simps)
  have nn: "0 \<le> l" "1 \<le> r"
    using ty r ok(3) by (auto simp: in_ty_unsigned)
  then have r1: "in_ty t (r - 1)"
    using ty(1) by (intro in_ty_mono [of "r - 1" r]) auto
  show "half_u t l r r = Some (mag_up l r)" "half_u t l (r - 1) r = Some (mag_down l r)"
    unfolding mag_up_def mag_down_def using half_of_bound [OF r] nn h
    by (auto intro!: half_u_ok [OF ok(3) w _ r ty] ty r1)
  show "c_sub t r 1 = Some (r - 1)"
    using r1 by (simp add: c_sub_def)
qed

lemma half_ok_odd: 
  assumes "div_ok m t l r" "is_half m"
  shows "odd_quot t l r = Some (odd (l sdiv r))"
proof (rule odd_quot_ok)
  have "\<bar>r\<bar> div 2 \<ge> 0" by simp
  then show "sgnd t \<longrightarrow> l \<noteq> c_min t \<or> r \<noteq> - 1"
    using assms by (auto simp: div_ok_def c_max_def c_min_def simp del: is_half.simps)
qed (use assms in \<open>auto simp: div_ok_def simp del: is_half.simps\<close>)


lemma half_impl_ok:
  assumes ok: "div_ok m t l r" and m: "is_half m"
  shows "impl_div m t l r = Some (round_quot m l r)"
proof -
  have r: "r \<noteq> 0" and ty: "in_ty t r" and odd: "odd_quot t l r = Some (odd (l sdiv r))"
    using ok half_ok_odd [OF ok m] by (auto simp: div_ok_def)
  note val = round_quot_half [OF r, of l]
  show ?thesis
  proof (cases "sgnd t")
    case True
    have pos: "0 < r \<longleftrightarrow> \<not> r < 0"
      using r by auto
    have max: "r \<noteq> c_max t" if "m = HalfFloor" "l < 0"
      using that ok True by (simp add: div_ok_def)
    note half = half_s_cases [OF ok m True] toward_zero_ok [OF ty]
    note defs = impl_half_floor_def impl_half_ceil_def impl_half_down_def impl_half_up_def
      impl_half_even_def impl_half_odd_def half_floor_s_def half_ceil_s_def half_down_s_def
      half_up_s_def half_even_s_def half_odd_s_def Let_def
    show ?thesis
      using m half max r pos unfolding is_half.simps
      by (cases "l < 0"; cases "r < 0"; cases "odd (l sdiv r)") (auto simp: val odd defs True)
  next
    case False
    then have nn: "0 \<le> l" "0 < r"
      using ok by (auto simp: div_ok_def in_ty_unsigned)
    note half = half_u_cases [OF ok m False] toward_zero_ok [OF ty]
    show ?thesis
      using m nn False
      by (auto simp: val half odd impl_half_floor_def impl_half_ceil_def impl_half_down_def
        impl_half_up_def impl_half_even_def impl_half_odd_def half_floor_u_def half_ceil_u_def
        half_down_u_def half_up_u_def half_even_u_def half_odd_u_def Let_def)
  qed
qed


lemma impl_div_ok:
  assumes "div_ok m t l r"
  shows "impl_div m t l r = Some (round_quot m l r)"
proof (cases "is_half m")
  case False
  then have ok: "div_ok Floor t l r" and r: "r \<noteq> 0"
    using assms by (auto simp: div_ok_def)
  have "c_div t l r = Some (l sdiv r)"
    using div_in_ty(1) [OF ok] r by (rule c_div_in_ty [rotated])
  moreover have nn: "0 \<le> l \<and> 0 \<le> r" if "\<not> sgnd t"
    using that ok by (auto simp: div_ok_def in_ty_unsigned)
  moreover have "l sdiv r = (if (l < 0) = (r < 0) then l div r else - (- l div r))"
    using div_via_sdiv [OF r, of l] cdiv_via_sdiv [OF r, of l] by auto
  ultimately show ?thesis
    using False floor_ceil_ok [OF ok] nn
    by (cases m) (auto simp: round_quot_exact [OF r] impl_cpp_def impl_down_def impl_up_def
      down_s_def down_u_def up_s_def up_u_def)
qed (rule half_impl_ok [OF assms])

lemma round_to_near: "\<bar>of_int (round_to m x) - x\<bar> < 1"
  by (cases m) (auto simp: abs_less_iff; linarith)+

lemma round_to_nearest: "is_half m \<Longrightarrow> \<bar>of_int (round_to m x) - x\<bar> \<le> 1 / 2"
proof -
  have f: "of_int \<lfloor>x + 1/2\<rfloor> \<le> x + 1/2" "x + 1/2 < of_int \<lfloor>x + 1/2\<rfloor> + 1"
    and c: "of_int \<lceil>x - 1/2\<rceil> - 1 < x - 1/2" "x - 1/2 \<le> of_int \<lceil>x - 1/2\<rceil>"
    by linarith+
  have "\<bar>of_int \<lfloor>x + 1/2\<rfloor> - x\<bar> \<le> 1 / 2" "\<bar>of_int \<lceil>x - 1/2\<rceil> - x\<bar> \<le> 1 / 2"
    using f c unfolding abs_le_iff by linarith+
  then show "\<bar>of_int (round_to m x) - x\<bar> \<le> 1 / 2" if "is_half m"
    using that by (cases m; simp only: round_to.simps split: if_split; simp)
qed

lemma round_quot_scaled:
  assumes "r \<noteq> 0"
  shows "of_int \<bar>l - round_quot m l r * r\<bar> =
    \<bar>of_int (round_quot m l r) - of_int l / of_int r\<bar> * \<bar>of_int r :: real\<bar>"
  using assms by (simp add: abs_mult [symmetric] field_simps abs_minus_commute)

lemma round_quot_near:
  assumes "r \<noteq> 0"
  shows "\<bar>l - round_quot m l r * r\<bar> < \<bar>r\<bar>"
proof -
  have "of_int \<bar>l - round_quot m l r * r\<bar> < (1::real) * \<bar>of_int r\<bar>"
    unfolding round_quot_scaled [OF assms]
    by (intro mult_strict_right_mono) (use assms in \<open>simp_all add: round_quot_def round_to_near\<close>)
  then show ?thesis
    by (simp flip: of_int_abs)
qed

lemma round_quot_nearest:
  assumes "r \<noteq> 0" "is_half m"
  shows "2 * \<bar>l - round_quot m l r * r\<bar> \<le> \<bar>r\<bar>"
proof -
  have "of_int \<bar>l - round_quot m l r * r\<bar> \<le> (1 / 2 :: real) * \<bar>of_int r\<bar>"
    unfolding round_quot_scaled [OF assms(1)]
    by (intro mult_right_mono)
       (use assms round_to_nearest in \<open>simp_all add: round_quot_def\<close>)
  then have "of_int (2 * \<bar>l - round_quot m l r * r\<bar>) \<le> (of_int \<bar>r\<bar> :: real)"
    by simp
  then show ?thesis
    by (simp only: of_int_le_iff)
qed

end
