(* ===== verification/DivOps.thy ===== *)
theory DivOps
  imports DivRound
begin

text \<open>
  The public objects \<open>div\<close>, \<open>mod\<close> and \<open>divmod\<close> of \<open>bertrand/math.h\<close>: one
  definition per member function.  Every member first rejects a zero divisor (in a
  debug build) and then runs the strategy of the same name; \<open>dbg\<close> is the build
  constant \<open>DEBUG\<close>.  The locales state what the members of the three objects owe
  each other, and every strategy is an interpretation.
\<close>

definition check_for_zero_division :: "bool \<Rightarrow> int \<Rightarrow> unit res" where
  "check_for_zero_division dbg rhs =
     (if dbg \<and> rhs = 0 then Inl ZeroDivisionError else Inr ())"

section \<open>The object \<open>div\<close>\<close>

definition div_cpp :: "bool \<Rightarrow> ity \<Rightarrow> int \<Rightarrow> int \<Rightarrow> int res" where
  "div_cpp dbg t lhs rhs =
     bind_res (check_for_zero_division dbg rhs) (\<lambda>_. of_option (impl_cpp t lhs rhs))"

definition div_floor :: "bool \<Rightarrow> ity \<Rightarrow> int \<Rightarrow> int \<Rightarrow> int res" where
  "div_floor dbg t lhs rhs =
     bind_res (check_for_zero_division dbg rhs) (\<lambda>_. of_option (impl_floor t lhs rhs))"

definition div_ceil :: "bool \<Rightarrow> ity \<Rightarrow> int \<Rightarrow> int \<Rightarrow> int res" where
  "div_ceil dbg t lhs rhs =
     bind_res (check_for_zero_division dbg rhs) (\<lambda>_. of_option (impl_ceil t lhs rhs))"

definition div_down :: "bool \<Rightarrow> ity \<Rightarrow> int \<Rightarrow> int \<Rightarrow> int res" where
  "div_down dbg t lhs rhs =
     bind_res (check_for_zero_division dbg rhs) (\<lambda>_. of_option (impl_down t lhs rhs))"

definition div_up :: "bool \<Rightarrow> ity \<Rightarrow> int \<Rightarrow> int \<Rightarrow> int res" where
  "div_up dbg t lhs rhs =
     bind_res (check_for_zero_division dbg rhs) (\<lambda>_. of_option (impl_up t lhs rhs))"

definition div_half_floor :: "bool \<Rightarrow> ity \<Rightarrow> int \<Rightarrow> int \<Rightarrow> int res" where
  "div_half_floor dbg t lhs rhs =
     bind_res (check_for_zero_division dbg rhs) (\<lambda>_. of_option (impl_half_floor t lhs rhs))"

definition div_half_ceil :: "bool \<Rightarrow> ity \<Rightarrow> int \<Rightarrow> int \<Rightarrow> int res" where
  "div_half_ceil dbg t lhs rhs =
     bind_res (check_for_zero_division dbg rhs) (\<lambda>_. of_option (impl_half_ceil t lhs rhs))"

definition div_half_down :: "bool \<Rightarrow> ity \<Rightarrow> int \<Rightarrow> int \<Rightarrow> int res" where
  "div_half_down dbg t lhs rhs =
     bind_res (check_for_zero_division dbg rhs) (\<lambda>_. of_option (impl_half_down t lhs rhs))"

definition div_half_up :: "bool \<Rightarrow> ity \<Rightarrow> int \<Rightarrow> int \<Rightarrow> int res" where
  "div_half_up dbg t lhs rhs =
     bind_res (check_for_zero_division dbg rhs) (\<lambda>_. of_option (impl_half_up t lhs rhs))"

definition div_half_even :: "bool \<Rightarrow> ity \<Rightarrow> int \<Rightarrow> int \<Rightarrow> int res" where
  "div_half_even dbg t lhs rhs =
     bind_res (check_for_zero_division dbg rhs) (\<lambda>_. of_option (impl_half_even t lhs rhs))"

definition div_half_odd :: "bool \<Rightarrow> ity \<Rightarrow> int \<Rightarrow> int \<Rightarrow> int res" where
  "div_half_odd dbg t lhs rhs =
     bind_res (check_for_zero_division dbg rhs) (\<lambda>_. of_option (impl_half_odd t lhs rhs))"

lemmas div_op_defs [mode_defs] =
  div_cpp_def
  div_floor_def
  div_ceil_def
  div_down_def
  div_up_def
  div_half_floor_def
  div_half_ceil_def
  div_half_down_def
  div_half_up_def
  div_half_even_def
  div_half_odd_def

section \<open>The object \<open>mod\<close>\<close>

text \<open>The expression \<open>lhs - q * rhs\<close> every member ends with.\<close>

definition sub_mul :: "ity \<Rightarrow> int \<Rightarrow> int \<Rightarrow> int \<Rightarrow> int option" where
  "sub_mul t lhs q rhs = do { p \<leftarrow> c_mul t q rhs; c_sub t lhs p }"

definition mod_cpp :: "bool \<Rightarrow> ity \<Rightarrow> int \<Rightarrow> int \<Rightarrow> int res" where
  "mod_cpp dbg t lhs rhs =
     bind_res (div_cpp dbg t lhs rhs) (\<lambda>q. of_option (sub_mul t lhs q rhs))"

definition mod_floor :: "bool \<Rightarrow> ity \<Rightarrow> int \<Rightarrow> int \<Rightarrow> int res" where
  "mod_floor dbg t lhs rhs =
     bind_res (div_floor dbg t lhs rhs) (\<lambda>q. of_option (sub_mul t lhs q rhs))"

definition mod_ceil :: "bool \<Rightarrow> ity \<Rightarrow> int \<Rightarrow> int \<Rightarrow> int res" where
  "mod_ceil dbg t lhs rhs =
     bind_res (div_ceil dbg t lhs rhs) (\<lambda>q. of_option (sub_mul t lhs q rhs))"

definition mod_down :: "bool \<Rightarrow> ity \<Rightarrow> int \<Rightarrow> int \<Rightarrow> int res" where
  "mod_down dbg t lhs rhs =
     bind_res (div_down dbg t lhs rhs) (\<lambda>q. of_option (sub_mul t lhs q rhs))"

definition mod_up :: "bool \<Rightarrow> ity \<Rightarrow> int \<Rightarrow> int \<Rightarrow> int res" where
  "mod_up dbg t lhs rhs =
     bind_res (div_up dbg t lhs rhs) (\<lambda>q. of_option (sub_mul t lhs q rhs))"

definition mod_half_floor :: "bool \<Rightarrow> ity \<Rightarrow> int \<Rightarrow> int \<Rightarrow> int res" where
  "mod_half_floor dbg t lhs rhs =
     bind_res (div_half_floor dbg t lhs rhs) (\<lambda>q. of_option (sub_mul t lhs q rhs))"

definition mod_half_ceil :: "bool \<Rightarrow> ity \<Rightarrow> int \<Rightarrow> int \<Rightarrow> int res" where
  "mod_half_ceil dbg t lhs rhs =
     bind_res (div_half_ceil dbg t lhs rhs) (\<lambda>q. of_option (sub_mul t lhs q rhs))"

definition mod_half_down :: "bool \<Rightarrow> ity \<Rightarrow> int \<Rightarrow> int \<Rightarrow> int res" where
  "mod_half_down dbg t lhs rhs =
     bind_res (div_half_down dbg t lhs rhs) (\<lambda>q. of_option (sub_mul t lhs q rhs))"

definition mod_half_up :: "bool \<Rightarrow> ity \<Rightarrow> int \<Rightarrow> int \<Rightarrow> int res" where
  "mod_half_up dbg t lhs rhs =
     bind_res (div_half_up dbg t lhs rhs) (\<lambda>q. of_option (sub_mul t lhs q rhs))"

definition mod_half_even :: "bool \<Rightarrow> ity \<Rightarrow> int \<Rightarrow> int \<Rightarrow> int res" where
  "mod_half_even dbg t lhs rhs =
     bind_res (div_half_even dbg t lhs rhs) (\<lambda>q. of_option (sub_mul t lhs q rhs))"

definition mod_half_odd :: "bool \<Rightarrow> ity \<Rightarrow> int \<Rightarrow> int \<Rightarrow> int res" where
  "mod_half_odd dbg t lhs rhs =
     bind_res (div_half_odd dbg t lhs rhs) (\<lambda>q. of_option (sub_mul t lhs q rhs))"

section \<open>The object \<open>divmod\<close>\<close>

definition divmod_cpp :: "bool \<Rightarrow> ity \<Rightarrow> int \<Rightarrow> int \<Rightarrow> (int \<times> int) res" where
  "divmod_cpp dbg t lhs rhs =
     bind_res (div_cpp dbg t lhs rhs)
       (\<lambda>q. bind_res (of_option (sub_mul t lhs q rhs))
         (\<lambda>remainder. Inr (q, remainder)))"

definition divmod_floor :: "bool \<Rightarrow> ity \<Rightarrow> int \<Rightarrow> int \<Rightarrow> (int \<times> int) res" where
  "divmod_floor dbg t lhs rhs =
     bind_res (div_floor dbg t lhs rhs)
       (\<lambda>q. bind_res (of_option (sub_mul t lhs q rhs))
         (\<lambda>remainder. Inr (q, remainder)))"

definition divmod_ceil :: "bool \<Rightarrow> ity \<Rightarrow> int \<Rightarrow> int \<Rightarrow> (int \<times> int) res" where
  "divmod_ceil dbg t lhs rhs =
     bind_res (div_ceil dbg t lhs rhs)
       (\<lambda>q. bind_res (of_option (sub_mul t lhs q rhs))
         (\<lambda>remainder. Inr (q, remainder)))"

definition divmod_down :: "bool \<Rightarrow> ity \<Rightarrow> int \<Rightarrow> int \<Rightarrow> (int \<times> int) res" where
  "divmod_down dbg t lhs rhs =
     bind_res (div_down dbg t lhs rhs)
       (\<lambda>q. bind_res (of_option (sub_mul t lhs q rhs))
         (\<lambda>remainder. Inr (q, remainder)))"

definition divmod_up :: "bool \<Rightarrow> ity \<Rightarrow> int \<Rightarrow> int \<Rightarrow> (int \<times> int) res" where
  "divmod_up dbg t lhs rhs =
     bind_res (div_up dbg t lhs rhs)
       (\<lambda>q. bind_res (of_option (sub_mul t lhs q rhs))
         (\<lambda>remainder. Inr (q, remainder)))"

definition divmod_half_floor :: "bool \<Rightarrow> ity \<Rightarrow> int \<Rightarrow> int \<Rightarrow> (int \<times> int) res" where
  "divmod_half_floor dbg t lhs rhs =
     bind_res (div_half_floor dbg t lhs rhs)
       (\<lambda>q. bind_res (of_option (sub_mul t lhs q rhs))
         (\<lambda>remainder. Inr (q, remainder)))"

definition divmod_half_ceil :: "bool \<Rightarrow> ity \<Rightarrow> int \<Rightarrow> int \<Rightarrow> (int \<times> int) res" where
  "divmod_half_ceil dbg t lhs rhs =
     bind_res (div_half_ceil dbg t lhs rhs)
       (\<lambda>q. bind_res (of_option (sub_mul t lhs q rhs))
         (\<lambda>remainder. Inr (q, remainder)))"

definition divmod_half_down :: "bool \<Rightarrow> ity \<Rightarrow> int \<Rightarrow> int \<Rightarrow> (int \<times> int) res" where
  "divmod_half_down dbg t lhs rhs =
     bind_res (div_half_down dbg t lhs rhs)
       (\<lambda>q. bind_res (of_option (sub_mul t lhs q rhs))
         (\<lambda>remainder. Inr (q, remainder)))"

definition divmod_half_up :: "bool \<Rightarrow> ity \<Rightarrow> int \<Rightarrow> int \<Rightarrow> (int \<times> int) res" where
  "divmod_half_up dbg t lhs rhs =
     bind_res (div_half_up dbg t lhs rhs)
       (\<lambda>q. bind_res (of_option (sub_mul t lhs q rhs))
         (\<lambda>remainder. Inr (q, remainder)))"

definition divmod_half_even :: "bool \<Rightarrow> ity \<Rightarrow> int \<Rightarrow> int \<Rightarrow> (int \<times> int) res" where
  "divmod_half_even dbg t lhs rhs =
     bind_res (div_half_even dbg t lhs rhs)
       (\<lambda>q. bind_res (of_option (sub_mul t lhs q rhs))
         (\<lambda>remainder. Inr (q, remainder)))"

definition divmod_half_odd :: "bool \<Rightarrow> ity \<Rightarrow> int \<Rightarrow> int \<Rightarrow> (int \<times> int) res" where
  "divmod_half_odd dbg t lhs rhs =
     bind_res (div_half_odd dbg t lhs rhs)
       (\<lambda>q. bind_res (of_option (sub_mul t lhs q rhs))
         (\<lambda>remainder. Inr (q, remainder)))"

fun div_by :: "mode \<Rightarrow> bool \<Rightarrow> ity \<Rightarrow> int \<Rightarrow> int \<Rightarrow> int res" where
  "div_by Cpp = div_cpp"
| "div_by Floor = div_floor"
| "div_by Ceil = div_ceil"
| "div_by Down = div_down"
| "div_by Up = div_up"
| "div_by HalfFloor = div_half_floor"
| "div_by HalfCeil = div_half_ceil"
| "div_by HalfDown = div_half_down"
| "div_by HalfUp = div_half_up"
| "div_by HalfEven = div_half_even"
| "div_by HalfOdd = div_half_odd"

fun mod_by :: "mode \<Rightarrow> bool \<Rightarrow> ity \<Rightarrow> int \<Rightarrow> int \<Rightarrow> int res" where
  "mod_by Cpp = mod_cpp"
| "mod_by Floor = mod_floor"
| "mod_by Ceil = mod_ceil"
| "mod_by Down = mod_down"
| "mod_by Up = mod_up"
| "mod_by HalfFloor = mod_half_floor"
| "mod_by HalfCeil = mod_half_ceil"
| "mod_by HalfDown = mod_half_down"
| "mod_by HalfUp = mod_half_up"
| "mod_by HalfEven = mod_half_even"
| "mod_by HalfOdd = mod_half_odd"

fun divmod_by :: "mode \<Rightarrow> bool \<Rightarrow> ity \<Rightarrow> int \<Rightarrow> int \<Rightarrow> (int \<times> int) res" where
  "divmod_by Cpp = divmod_cpp"
| "divmod_by Floor = divmod_floor"
| "divmod_by Ceil = divmod_ceil"
| "divmod_by Down = divmod_down"
| "divmod_by Up = divmod_up"
| "divmod_by HalfFloor = divmod_half_floor"
| "divmod_by HalfCeil = divmod_half_ceil"
| "divmod_by HalfDown = divmod_half_down"
| "divmod_by HalfUp = divmod_half_up"
| "divmod_by HalfEven = divmod_half_even"
| "divmod_by HalfOdd = divmod_half_odd"

lemma half_zero:
  "half_u t lhs s 0 = None" "half_s t lhs sign s 0 = None"
  by (simp_all add: half_u_def half_s_def c_div_def bind_eq_None_conv)

lemma impl_div_zero: "impl_div m t lhs 0 = None"
proof (cases m)
  case Down
  then show ?thesis
    by (simp add: impl_down_def down_s_def down_u_def impl_floor_def impl_ceil_def floor_s_def
      floor_u_def ceil_s_def ceil_u_def c_div_def)
next
  case Up
  then show ?thesis
    by (simp add: impl_up_def up_s_def up_u_def impl_floor_def impl_ceil_def floor_s_def
      floor_u_def ceil_s_def ceil_u_def c_div_def)
qed (simp_all add: impl_cpp_def impl_floor_def floor_s_def floor_u_def impl_ceil_def ceil_s_def
  ceil_u_def impl_half_floor_def impl_half_ceil_def impl_half_down_def impl_half_up_def
  impl_half_even_def impl_half_odd_def half_zero Let_def half_floor_s_def half_ceil_s_def
  half_down_s_def half_up_s_def half_even_s_def half_odd_s_def half_floor_u_def half_ceil_u_def
  half_down_u_def half_up_u_def half_even_u_def half_odd_u_def odd_quot_def c_div_def)

section \<open>The contract of a strategy\<close>

locale rounding_strategy =
  fixes ok :: "ity \<Rightarrow> int \<Rightarrow> int \<Rightarrow> bool"
    and dv :: "bool \<Rightarrow> ity \<Rightarrow> int \<Rightarrow> int \<Rightarrow> int res"
    and md :: "bool \<Rightarrow> ity \<Rightarrow> int \<Rightarrow> int \<Rightarrow> int res"
    and dm :: "bool \<Rightarrow> ity \<Rightarrow> int \<Rightarrow> int \<Rightarrow> (int \<times> int) res"
    and rq :: "int \<Rightarrow> int \<Rightarrow> int"
  assumes ok_nonzero: "ok t l r \<Longrightarrow> r \<noteq> 0 \<and> in_ty t l \<and> in_ty t r"
    and quot: "ok t l r \<Longrightarrow> dv dbg t l r = Inr (rq l r)"
    and zero: "dv True t l 0 = Inl ZeroDivisionError"
    and md_quot: "md dbg t l r = bind_res (dv dbg t l r) (\<lambda>q. of_option (sub_mul t l q r))"
    and dm_quot: "dm dbg t l r = bind_res (dv dbg t l r)
      (\<lambda>q. bind_res (md dbg t l r) (\<lambda>m. Inr (q, m)))"
    and near: "r \<noteq> 0 \<Longrightarrow> \<bar>l - rq l r * r\<bar> < \<bar>r\<bar>"
begin

lemma sub_mul_ok:
  assumes "ok t l r" "sgnd t \<longrightarrow> \<bar>l\<bar> + \<bar>r\<bar> \<le> c_max t"
  shows "sub_mul t l (rq l r) r = Some (if sgnd t then l - rq l r * r else (l - rq l r * r) mod 2 ^ wid t)"
proof (cases "sgnd t")
  case True
  have n: "\<bar>l - rq l r * r\<bar> < \<bar>r\<bar>"
    using ok_nonzero [OF assms(1)] by (intro near) auto
  then have "in_ty t (rq l r * r)" "in_ty t (l - rq l r * r)"
    using assms(2) True by (intro in_ty_abs_le; linarith)+
  then show ?thesis
    using True by (simp add: sub_mul_def c_mul_def c_sub_def)
next
  case False
  then show ?thesis
    by (simp add: sub_mul_def c_mul_def c_sub_def c_norm_unsigned mod_diff_right_eq)
qed

lemma remainder:
  assumes "ok t l r" "sgnd t \<longrightarrow> \<bar>l\<bar> + \<bar>r\<bar> \<le> c_max t"
  shows "md dbg t l r = Inr (if sgnd t then l - rq l r * r else (l - rq l r * r) mod 2 ^ wid t)"
  using sub_mul_ok [OF assms] by (simp add: md_quot quot [OF assms(1)])

lemma divmod_agree:
  assumes "ok t l r" "sgnd t \<longrightarrow> \<bar>l\<bar> + \<bar>r\<bar> \<le> c_max t"
  shows "dm dbg t l r = Inr (rq l r, if sgnd t then l - rq l r * r else (l - rq l r * r) mod 2 ^ wid t)"
  using remainder [OF assms] by (simp add: dm_quot quot [OF assms(1)])

lemma zero_raises:
  "md True t l 0 = Inl ZeroDivisionError" "dm True t l 0 = Inl ZeroDivisionError"
  by (simp_all add: md_quot dm_quot zero)

end

locale tie_strategy = rounding_strategy +
  assumes nearest: "r \<noteq> 0 \<Longrightarrow> 2 * \<bar>l - rq l r * r\<bar> \<le> \<bar>r\<bar>"
begin

lemma remainder_half:
  assumes "ok t l r" "sgnd t" "\<bar>l\<bar> + \<bar>r\<bar> \<le> c_max t" "md dbg t l r = Inr m"
  shows "2 * \<bar>m\<bar> \<le> \<bar>r\<bar>"
  using assms remainder [of t l r dbg] nearest [of r l] ok_nonzero [OF assms(1)] by auto

end

lemma strategy_laws:
  "div_ok m t l r \<Longrightarrow> div_by m dbg t l r = Inr (round_quot m l r)"
  "div_by m True t l 0 = Inl ZeroDivisionError"
  "mod_by m dbg t l r = bind_res (div_by m dbg t l r) (\<lambda>q. of_option (sub_mul t l q r))"
  "divmod_by m dbg t l r = bind_res (div_by m dbg t l r)
     (\<lambda>q. bind_res (mod_by m dbg t l r) (\<lambda>x. Inr (q, x)))"
  "r \<noteq> 0 \<Longrightarrow> \<bar>l - round_quot m l r * r\<bar> < \<bar>r\<bar>"
  "r \<noteq> 0 \<Longrightarrow> is_half m \<Longrightarrow> 2 * \<bar>l - round_quot m l r * r\<bar> \<le> \<bar>r\<bar>"
proof -
  have by_impl: "div_by m dbg t l r =
      bind_res (check_for_zero_division dbg r) (\<lambda>_. of_option (impl_div m t l r))" for dbg l r
    by (cases m) (simp_all add: mode_defs)
  show "div_by m dbg t l r = Inr (round_quot m l r)" if "div_ok m t l r"
    using that impl_div_ok [OF that] by (simp add: by_impl check_for_zero_division_def div_ok_def)
  show "div_by m True t l 0 = Inl ZeroDivisionError"
    by (simp add: by_impl check_for_zero_division_def)
  show md: "mod_by m dbg t l r = bind_res (div_by m dbg t l r) (\<lambda>q. of_option (sub_mul t l q r))"
    by (cases m) (simp_all add: mod_cpp_def mod_floor_def mod_ceil_def mod_down_def mod_up_def mod_half_floor_def mod_half_ceil_def mod_half_down_def mod_half_up_def mod_half_even_def mod_half_odd_def)
  have "divmod_by m dbg t l r = bind_res (div_by m dbg t l r)
      (\<lambda>q. bind_res (of_option (sub_mul t l q r)) (\<lambda>x. Inr (q, x)))"
    by (cases m) (simp_all add: divmod_cpp_def divmod_floor_def divmod_ceil_def divmod_down_def divmod_up_def divmod_half_floor_def divmod_half_ceil_def divmod_half_down_def divmod_half_up_def divmod_half_even_def divmod_half_odd_def)
  then show "divmod_by m dbg t l r = bind_res (div_by m dbg t l r)
      (\<lambda>q. bind_res (mod_by m dbg t l r) (\<lambda>x. Inr (q, x)))"
    unfolding md by (cases "div_by m dbg t l r") simp_all
qed (rule round_quot_near round_quot_nearest; assumption)+

interpretation cpp_div: rounding_strategy "div_ok Cpp" div_cpp mod_cpp divmod_cpp "round_quot Cpp"
  using strategy_laws [where m = Cpp] by unfold_locales (auto simp: div_ok_def)

interpretation floor_div: rounding_strategy "div_ok Floor" div_floor mod_floor divmod_floor "round_quot Floor"
  using strategy_laws [where m = Floor] by unfold_locales (auto simp: div_ok_def)

interpretation ceil_div: rounding_strategy "div_ok Ceil" div_ceil mod_ceil divmod_ceil "round_quot Ceil"
  using strategy_laws [where m = Ceil] by unfold_locales (auto simp: div_ok_def)

interpretation down_div: rounding_strategy "div_ok Down" div_down mod_down divmod_down "round_quot Down"
  using strategy_laws [where m = Down] by unfold_locales (auto simp: div_ok_def)

interpretation up_div: rounding_strategy "div_ok Up" div_up mod_up divmod_up "round_quot Up"
  using strategy_laws [where m = Up] by unfold_locales (auto simp: div_ok_def)

interpretation half_floor_div: tie_strategy "div_ok HalfFloor" div_half_floor mod_half_floor divmod_half_floor "round_quot HalfFloor"
  using strategy_laws [where m = HalfFloor] by unfold_locales (auto simp: div_ok_def)

interpretation half_ceil_div: tie_strategy "div_ok HalfCeil" div_half_ceil mod_half_ceil divmod_half_ceil "round_quot HalfCeil"
  using strategy_laws [where m = HalfCeil] by unfold_locales (auto simp: div_ok_def)

interpretation half_down_div: tie_strategy "div_ok HalfDown" div_half_down mod_half_down divmod_half_down "round_quot HalfDown"
  using strategy_laws [where m = HalfDown] by unfold_locales (auto simp: div_ok_def)

interpretation half_up_div: tie_strategy "div_ok HalfUp" div_half_up mod_half_up divmod_half_up "round_quot HalfUp"
  using strategy_laws [where m = HalfUp] by unfold_locales (auto simp: div_ok_def)

interpretation half_even_div: tie_strategy "div_ok HalfEven" div_half_even mod_half_even divmod_half_even "round_quot HalfEven"
  using strategy_laws [where m = HalfEven] by unfold_locales (auto simp: div_ok_def)

interpretation half_odd_div: tie_strategy "div_ok HalfOdd" div_half_odd mod_half_odd divmod_half_odd "round_quot HalfOdd"
  using strategy_laws [where m = HalfOdd] by unfold_locales (auto simp: div_ok_def)

text \<open>The facts of the eleven interpretations, one bundle per law.\<close>

lemmas strategy_quot =
  cpp_div.quot floor_div.quot ceil_div.quot down_div.quot up_div.quot half_floor_div.quot half_ceil_div.quot half_down_div.quot half_up_div.quot half_even_div.quot half_odd_div.quot

lemmas strategy_divmod =
  cpp_div.divmod_agree floor_div.divmod_agree ceil_div.divmod_agree down_div.divmod_agree up_div.divmod_agree half_floor_div.divmod_agree half_ceil_div.divmod_agree half_down_div.divmod_agree half_up_div.divmod_agree half_even_div.divmod_agree half_odd_div.divmod_agree

lemmas strategy_remainder =
  cpp_div.remainder floor_div.remainder ceil_div.remainder down_div.remainder up_div.remainder half_floor_div.remainder half_ceil_div.remainder half_down_div.remainder half_up_div.remainder half_even_div.remainder half_odd_div.remainder

lemmas strategy_zero =
  cpp_div.zero cpp_div.zero_raises floor_div.zero floor_div.zero_raises ceil_div.zero ceil_div.zero_raises down_div.zero down_div.zero_raises up_div.zero up_div.zero_raises half_floor_div.zero half_floor_div.zero_raises half_ceil_div.zero half_ceil_div.zero_raises half_down_div.zero half_down_div.zero_raises half_up_div.zero half_up_div.zero_raises half_even_div.zero half_even_div.zero_raises half_odd_div.zero half_odd_div.zero_raises

section \<open>Properties\<close>

text \<open>C18.  Every member of \<open>div\<close> returns the exact rational quotient rounded by the
  strategy it is named after, for signed and unsigned types of any width, whenever
  no intermediate result leaves the type.\<close>

theorem div_rounds:
  assumes "div_ok m t lhs rhs"
  shows "div_by m dbg t lhs rhs = Inr (round_to m (of_int lhs / of_int rhs))"
  using assms by (cases m) (simp_all only: div_by.simps strategy_quot round_quot_def)

lemma div_rounds_witness:
  "div_by HalfEven True i32 (- 5) 2 = Inr (- 2) \<and> div_by HalfUp True i32 (- 5) 2 = Inr (- 3)"
  using div_rounds [of HalfEven i32 "- 5" 2 True] div_rounds [of HalfUp i32 "- 5" 2 True]
  by (simp add: div_ok_def cint_simps)

text \<open>On a signed type, \<open>divmod\<close> returns a quotient and a remainder that
  reconstruct the dividend, with the remainder smaller than the divisor and, for the
  tie strategies, at most half of it; \<open>div\<close> and \<open>mod\<close> return its two components.\<close>

theorem divmod_reconstructs:
  assumes "div_ok m t lhs rhs" "sgnd t" "\<bar>lhs\<bar> + \<bar>rhs\<bar> \<le> c_max t"
  shows "\<exists>q x. divmod_by m dbg t lhs rhs = Inr (q, x) \<and> div_by m dbg t lhs rhs = Inr q \<and>
    mod_by m dbg t lhs rhs = Inr x \<and> lhs = q * rhs + x \<and> \<bar>x\<bar> < \<bar>rhs\<bar> \<and>
    (is_half m \<longrightarrow> 2 * \<bar>x\<bar> \<le> \<bar>rhs\<bar>)"
proof (intro exI conjI)
  let ?q = "round_quot m lhs rhs"
  have r: "rhs \<noteq> 0"
    using assms(1) by (simp add: div_ok_def)
  show "divmod_by m dbg t lhs rhs = Inr (?q, lhs - ?q * rhs)"
    "div_by m dbg t lhs rhs = Inr ?q" "mod_by m dbg t lhs rhs = Inr (lhs - ?q * rhs)"
    using assms by (cases m; simp add: strategy_divmod strategy_remainder strategy_quot)+
  show "\<bar>lhs - ?q * rhs\<bar> < \<bar>rhs\<bar>" "is_half m \<longrightarrow> 2 * \<bar>lhs - ?q * rhs\<bar> \<le> \<bar>rhs\<bar>"
    using r round_quot_near round_quot_nearest by blast+
qed simp

lemma divmod_reconstructs_witness:
  "\<exists>q x. divmod_by HalfOdd True i64 (- 7) 2 = Inr (q, x) \<and> - 7 = q * 2 + x \<and> 2 * \<bar>x\<bar> \<le> 2"
  using divmod_reconstructs [of HalfOdd i64 "- 7" 2 True] by (auto simp: div_ok_def cint_simps)

text \<open>Dividing by zero raises \<open>ZeroDivisionError\<close> from every member of the three
  objects in a debug build, and is undefined behaviour in a release build.\<close>

theorem zero_divisor:
  "div_by m True t lhs 0 = Inl ZeroDivisionError \<and>
   mod_by m True t lhs 0 = Inl ZeroDivisionError \<and>
   divmod_by m True t lhs 0 = Inl ZeroDivisionError \<and>
   div_by m False t lhs 0 = Inl Undefined \<and>
   mod_by m False t lhs 0 = Inl Undefined \<and>
   divmod_by m False t lhs 0 = Inl Undefined"
proof -
  have "impl_div m t lhs 0 = None"
    by (rule impl_div_zero)
  then have "div_by m False t lhs 0 = Inl Undefined"
    by (cases m) (simp_all add: mode_defs check_for_zero_division_def)
  moreover have "div_by m True t lhs 0 = Inl ZeroDivisionError"
    "mod_by m True t lhs 0 = Inl ZeroDivisionError"
    "divmod_by m True t lhs 0 = Inl ZeroDivisionError"
    by (cases m; simp add: strategy_zero)+
  ultimately show ?thesis
    by (simp add: strategy_laws(3,4))
qed

text \<open>\<open>mod.floor\<close> is the Python remainder: it has the sign of the divisor and is
  the mathematical residue, on signed types away from overflow and on every unsigned
  operand pair.\<close>

theorem mod_floor_python:
  assumes "div_ok Floor t lhs rhs" "sgnd t \<longrightarrow> \<bar>lhs\<bar> + \<bar>rhs\<bar> \<le> c_max t"
  shows "mod_floor dbg t lhs rhs = Inr (lhs mod rhs)"
proof -
  have r: "rhs \<noteq> 0" and ty: "in_ty t lhs" "in_ty t rhs"
    using assms(1) by (auto simp: div_ok_def)
  have eq: "lhs - round_quot Floor lhs rhs * rhs = lhs mod rhs"
    using r by (simp add: round_quot_exact minus_div_mult_eq_mod)
  have "(lhs mod rhs) mod 2 ^ wid t = lhs mod rhs" if "\<not> sgnd t"
  proof (rule mod_pos_pos_trivial)
    have "0 < rhs" "rhs < 2 ^ wid t"
      using that r ty by (auto simp: in_ty_unsigned)
    then show "0 \<le> lhs mod rhs" "lhs mod rhs < 2 ^ wid t"
      by (simp, meson less_trans pos_mod_bound)
  qed
  then show ?thesis
    using floor_div.remainder [OF assms, of dbg] unfolding eq by (cases "sgnd t") simp_all
qed

lemma mod_floor_python_witness:
  "mod_floor True i32 (- 7) 3 = Inr 2 \<and> mod_floor True u64 7 3 = Inr 1"
  using mod_floor_python [of i32 "- 7" 3 True] mod_floor_python [of u64 7 3 True]
  by (simp add: div_ok_def cint_simps)

text \<open>The intermediate product of \<open>mod.floor\<close> can overflow although the remainder
  itself is a small number of the type, and \<open>half_floor\<close> overflows on
  \<open>rhs + (lhs < 0)\<close> for the greatest divisor.\<close>

theorem strategy_overflows:
  "mod_floor True i32 (- 2147483647) 50 = Inl Undefined \<and> (- 2147483647) mod 50 = (3::int) \<and>
   div_half_floor True i32 (- 1) 2147483647 = Inl Undefined \<and>
   div_half_floor True u32 4294967295 3 = Inr 0"
  by (simp add: mod_floor_def div_floor_def check_for_zero_division_def impl_floor_def
    floor_s_def sub_mul_def div_half_floor_def impl_half_floor_def half_floor_s_def
    half_floor_u_def half_u_def cint_simps signed_divide_int_def signed_modulo_int_def)

end
