(* ===== verification/IntPow.thy ===== *)
theory IntPow
  imports DivOps
begin

text \<open>
  Integer powers of \<open>bertrand/math.h\<close>: exponentiation by squaring, plain and
  modular, the operators \<open>pow\<close> over it, and the \<open>round\<close> object, which scales by a
  power of ten computed that way.  The loops recurse on the exponent, so they end for
  every input.
\<close>

section \<open>Exponentiation by squaring\<close>

text \<open>One recursive call is one iteration of the \<open>while (e >= 1)\<close> loop on the
  variables \<open>result\<close>, \<open>y\<close> and \<open>e\<close>.\<close>

function exp_loop :: "ity \<Rightarrow> int \<Rightarrow> int \<Rightarrow> int \<Rightarrow> int option" where
  "exp_loop t result y e =
     (if e \<ge> 1
      then do {
        result' \<leftarrow> (if e smod 2 \<noteq> 0 then c_mul t result y else Some result);
        y' \<leftarrow> c_mul t y y;
        exp_loop t result' y' (e sdiv 2)
      }
      else Some result)"
  by pat_completeness auto
termination
  by (relation "measure (\<lambda>(t, result, y, e). nat e)") (auto simp: sdiv_nonneg)

declare exp_loop.simps [simp del]

definition exponentiate_by_squaring :: "ity \<Rightarrow> int \<Rightarrow> int \<Rightarrow> int option" where
  "exponentiate_by_squaring t base e = exp_loop t 1 base e"

function exp_mod_loop :: "ity \<Rightarrow> int \<Rightarrow> int \<Rightarrow> int \<Rightarrow> int \<Rightarrow> int option" where
  "exp_mod_loop t m result y e =
     (if e \<ge> 1
      then do {
        result' \<leftarrow> (if e smod 2 \<noteq> 0
                   then do { p \<leftarrow> c_mul t result y; c_mod t p m }
                   else Some result);
        p \<leftarrow> c_mul t y y;
        y' \<leftarrow> c_mod t p m;
        exp_mod_loop t m result' y' (e sdiv 2)
      }
      else Some result)"
  by pat_completeness auto
termination
  by (relation "measure (\<lambda>(t, m, result, y, e). nat e)") (auto simp: sdiv_nonneg)

declare exp_mod_loop.simps [simp del]

definition exponentiate_by_squaring_mod :: "ity \<Rightarrow> int \<Rightarrow> int \<Rightarrow> int \<Rightarrow> int option" where
  "exponentiate_by_squaring_mod t base e m = do {
     y \<leftarrow> c_mod t base m;
     exp_mod_loop t m 1 y e
   }"

text \<open>\<open>pow<Base, Exp>\<close> and \<open>pow<Base, Exp, Mod>\<close>; \<open>te\<close> is the type of the exponent.\<close>

definition impl_pow :: "ity \<Rightarrow> ity \<Rightarrow> int \<Rightarrow> int \<Rightarrow> int option" where
  "impl_pow t te base ex =
     (if ex < 0
      then do { e \<leftarrow> c_neg te ex; p \<leftarrow> exponentiate_by_squaring t base e; c_div t 1 p }
      else exponentiate_by_squaring t base ex)"

definition impl_pow_mod :: "ity \<Rightarrow> ity \<Rightarrow> int \<Rightarrow> int \<Rightarrow> int \<Rightarrow> int option" where
  "impl_pow_mod t te base ex m =
     (if ex < 0
      then do {
        e \<leftarrow> c_neg te ex;
        p \<leftarrow> exponentiate_by_squaring t base e;
        q \<leftarrow> c_div t 1 p;
        c_mod t q m
      }
      else exponentiate_by_squaring_mod t base ex m)"

definition check_for_negative_exponent :: "bool \<Rightarrow> int \<Rightarrow> unit res" where
  "check_for_negative_exponent dbg ex =
     (if dbg \<and> ex < 0 then Inl ArithmeticError else Inr ())"

definition math_pow :: "ity \<Rightarrow> ity \<Rightarrow> int \<Rightarrow> int \<Rightarrow> int res" where
  "math_pow t te base ex = of_option (impl_pow t te base ex)"

definition math_pow_mod :: "bool \<Rightarrow> ity \<Rightarrow> ity \<Rightarrow> int \<Rightarrow> int \<Rightarrow> int \<Rightarrow> int res" where
  "math_pow_mod dbg t te base ex m =
     bind_res (check_for_negative_exponent dbg ex)
       (\<lambda>_. bind_res (check_for_zero_division dbg m)
         (\<lambda>_. of_option (impl_pow_mod t te base ex m)))"

section \<open>Correctness of the loops\<close>

lemma half_step:
  assumes "1 \<le> (e::int)"
  shows "nat (e sdiv 2) = nat e div 2" "e smod 2 \<noteq> 0 \<longleftrightarrow> odd (nat e)"
    "e sdiv 2 < e" "0 \<le> e sdiv 2"
  using assms by (auto simp: sdiv_nonneg smod_nonneg nat_div_distrib even_nat_iff odd_iff_mod_2_eq_one)

lemma power_half:
  fixes y :: "'b::comm_semiring_1"
  shows "odd e \<Longrightarrow> r * y * (y * y) ^ (e div 2) = r * y ^ e"
    "even e \<Longrightarrow> r * (y * y) ^ (e div 2) = r * y ^ e"
  by (auto elim!: oddE evenE simp: power_mult power2_eq_square mult.assoc)

lemma exp_loop_unsigned:
  assumes "\<not> sgnd t" "r mod 2 ^ wid t = r"
  shows "exp_loop t r y e = Some (r * y ^ nat e mod 2 ^ wid t)"
  using assms(2)
proof (induction "nat e" arbitrary: r y e rule: less_induct)
  case less
  show ?case
  proof (cases "1 \<le> e")
    case False
    then show ?thesis
      using less.prems by (simp add: exp_loop.simps)
  next
    case True
    note h = half_step [OF True]
    have pw: "(x mod 2 ^ wid t) ^ k * z mod 2 ^ wid t = x ^ k * z mod 2 ^ wid t" for x z :: int and k
      by (metis mod_mult_left_eq power_mod)
    have IH: "exp_loop t r' (y * y mod 2 ^ wid t) (e sdiv 2)
        = Some (r' * (y * y) ^ (nat e div 2) mod 2 ^ wid t)" if "r' mod 2 ^ wid t = r'" for r'
      using less.hyps [of "e sdiv 2" r' "y * y mod 2 ^ wid t"] that h True pw [of "y * y" _ r']
      by (simp add: mult.commute)
    show ?thesis
    proof (cases "odd (nat e)")
      case True
      have "(r * y mod 2 ^ wid t) * (y * y) ^ (nat e div 2) mod 2 ^ wid t = r * y ^ nat e mod 2 ^ wid t"
        by (metis power_half(1) [OF True] mod_mult_left_eq)
      then show ?thesis
        using \<open>1 \<le> e\<close> True h assms(1) IH [of "r * y mod 2 ^ wid t"]
        by (subst exp_loop.simps) (simp add: c_mul_def c_norm_unsigned)
    next
      case False
      then show ?thesis
        using \<open>1 \<le> e\<close> h assms(1) IH [of r] less.prems power_half(2) [of "nat e" r y]
        by (subst exp_loop.simps) (simp add: c_mul_def c_norm_unsigned)
    qed
  qed
qed

text \<open>The loop squares \<open>y\<close> once more than the result needs, up to the least power of
  two above the exponent.\<close>

fun pow2_above :: "nat \<Rightarrow> nat" where
  "pow2_above n = (if n = 0 then 1 else 2 * pow2_above (n div 2))"

declare pow2_above.simps [simp del]

lemma pow2_above_gt: "n < pow2_above n"
proof (induction n rule: pow2_above.induct)
  case (1 n)
  then show ?case
    by (subst pow2_above.simps) (auto simp: less_mult_imp_div_less)
qed

lemma exp_loop_signed:
  assumes "sgnd t" "\<bar>r\<bar> * \<bar>y\<bar> ^ nat e \<le> c_max t" "\<bar>r\<bar> \<le> c_max t" "\<bar>y\<bar> ^ pow2_above (nat e) \<le> c_max t"
  shows "exp_loop t r y e = Some (r * y ^ nat e)"
  using assms(2-4)
proof (induction "nat e" arbitrary: r y e rule: less_induct)
  case less
  show ?case
  proof (cases "1 \<le> e")
    case False
    then show ?thesis by (simp add: exp_loop.simps)
  next
    case True
    note h = half_step [OF True]
    have p2: "pow2_above (nat e) = 2 * pow2_above (nat e div 2)"
      using True by (subst pow2_above.simps) simp
    have pos: "1 \<le> pow2_above (nat e div 2)"
      using pow2_above_gt [of "nat e div 2"] by simp
    have y2: "\<bar>y * y\<bar> \<le> c_max t"
    proof (cases "y = 0")
      case False
      then have "\<bar>y\<bar> ^ 2 \<le> \<bar>y\<bar> ^ pow2_above (nat e)"
        using pos by (intro power_increasing) (auto simp: p2)
      then show ?thesis
        using less.prems(3) by (simp add: power2_eq_square abs_mult)
    qed (simp add: c_max_nonneg)
    have sq: "\<bar>y * y\<bar> ^ pow2_above (nat e div 2) \<le> c_max t"
      using less.prems(3) by (simp add: p2 power_mult power2_eq_square abs_mult)
    have IH: "exp_loop t r' (y * y) (e sdiv 2) = Some (r' * (y * y) ^ (nat e div 2))"
      if "\<bar>r'\<bar> * \<bar>y * y\<bar> ^ (nat e div 2) \<le> c_max t" "\<bar>r'\<bar> \<le> c_max t" for r'
      using less.hyps [of "e sdiv 2" r' "y * y"] that sq h True by simp
    have y_ok: "c_mul t y y = Some (y * y)"
      using y2 assms(1) by (simp add: c_mul_def in_ty_abs_le)
    show ?thesis
    proof (cases "odd (nat e)")
      case odd: True
      have ry: "\<bar>r * y\<bar> \<le> c_max t"
      proof (cases "y = 0")
        case False
        then have "\<bar>r\<bar> * \<bar>y\<bar> ^ 1 \<le> \<bar>r\<bar> * \<bar>y\<bar> ^ nat e"
          using True by (intro mult_left_mono power_increasing) auto
        then show ?thesis
          using less.prems(1) by (simp add: abs_mult)
      qed (simp add: c_max_nonneg)
      have "\<bar>r * y\<bar> * \<bar>y * y\<bar> ^ (nat e div 2) \<le> c_max t"
        using less.prems(1) by (simp only: abs_mult power_half(1) [OF odd])
      then show ?thesis
        using True odd h IH [of "r * y"] ry y_ok assms(1) power_half(1) [OF odd, of r y]
        by (subst exp_loop.simps) (simp add: c_mul_def in_ty_abs_le)
    next
      case even: False
      then have "\<bar>r\<bar> * \<bar>y * y\<bar> ^ (nat e div 2) \<le> c_max t"
        using less.prems(1) by (simp only: abs_mult power_half(2) not_not)
      then show ?thesis
        using True even h IH [of r] less.prems y_ok power_half(2) [of "nat e" r y]
        by (subst exp_loop.simps) simp
    qed
  qed
qed


lemma c_mod_nonneg:
  assumes "0 \<le> p" "in_ty t p" "0 < m"
  shows "c_mod t p m = Some (p mod m)"
proof -
  have eq: "p sdiv m = p div m"
    using assms by (simp add: sdiv_nonneg)
  have "in_ty t (p sdiv m)"
    unfolding eq
  proof (rule in_ty_mono)
    show "0 \<le> p div m" "p div m \<le> p"
      using assms zdiv_mono2 [of p 1 m] by (simp_all add: pos_imp_zdiv_nonneg_iff)
  qed (rule assms(2))
  then show ?thesis
    using assms by (simp add: c_mod_in_ty smod_nonneg)
qed

lemma mul_mod_step:
  assumes "0 \<le> a" "a < m" "0 \<le> b" "b < m" "(m - 1) * (m - 1) \<le> c_max t"
  shows "c_mul t a b = Some (a * b)" "c_mod t (a * b) m = Some (a * b mod m)"
proof -
  have "a * b \<le> (m - 1) * (m - 1)"
    using assms by (intro mult_mono) auto
  then have "in_ty t (a * b)"
    using assms by (intro in_ty_abs_pos) auto
  then show "c_mul t a b = Some (a * b)" "c_mod t (a * b) m = Some (a * b mod m)"
    using assms by (simp_all add: c_mul_def c_mod_nonneg)
qed

lemma exp_mod_loop_ok:
  assumes "(m - 1) * (m - 1) \<le> c_max t" "0 \<le> r" "r < m" "0 \<le> y" "y < m"
  shows "exp_mod_loop t m r y e = Some (r * y ^ nat e mod m)"
  using assms(2-)
proof (induction "nat e" arbitrary: r y e rule: less_induct)
  case less
  show ?case
  proof (cases "1 \<le> e")
    case False
    then show ?thesis
      using less.prems by (simp add: exp_mod_loop.simps)
  next
    case True
    note h = half_step [OF True]
    have m: "0 < m"
      using less.prems by linarith
    note sq = mul_mod_step [OF less.prems(3,4) less.prems(3,4) assms(1)]
    have IH: "exp_mod_loop t m r' (y * y mod m) (e sdiv 2) = Some (r' * (y * y) ^ (nat e div 2) mod m)"
      if "0 \<le> r'" "r' < m" for r'
      using less.hyps [of "e sdiv 2" r' "y * y mod m"] that h True m
      by simp (metis mod_mult_right_eq power_mod)
    show ?thesis
    proof (cases "odd (nat e)")
      case odd: True
      have "(r * y mod m) * (y * y) ^ (nat e div 2) mod m = r * y ^ nat e mod m"
        by (metis power_half(1) [OF odd] mod_mult_left_eq)
      then show ?thesis
        using True odd h sq IH [of "r * y mod m"] m mul_mod_step [OF less.prems assms(1)]
        by (subst exp_mod_loop.simps) simp
    next
      case even: False
      then have "r * (y * y) ^ (nat e div 2) mod m = r * y ^ nat e mod m"
        by (simp only: power_half(2) not_not)
      then show ?thesis
        using True even h sq IH [OF less.prems(1,2)]
        by (subst exp_mod_loop.simps) simp
    qed
  qed
qed

lemma squaring_mod_ok:
  assumes "1 < m" "(m - 1) * (m - 1) \<le> c_max t" "0 \<le> base" "in_ty t base"
  shows "exponentiate_by_squaring_mod t base e m = Some (base ^ nat e mod m)"
proof -
  have "exp_mod_loop t m 1 (base mod m) e = Some ((base mod m) ^ nat e mod m)"
    using assms exp_mod_loop_ok [of m t 1 "base mod m" e] by simp
  then show ?thesis
    using assms by (simp add: exponentiate_by_squaring_mod_def c_mod_nonneg power_mod)
qed

section \<open>Properties\<close>

text \<open>On an unsigned type, \<open>pow\<close> is the power modulo \<open>2 ^ w\<close>; the exponent is any
  non-negative integer.\<close>

theorem pow_unsigned:
  assumes "\<not> sgnd t" "0 < wid t" "0 \<le> e"
  shows "math_pow t te base e = Inr (base ^ nat e mod 2 ^ wid t)"
proof -
  have "1 mod 2 ^ wid t = (1::int)"
    using assms(2) by (intro mod_pos_pos_trivial one_less_power) auto
  then show ?thesis
    using assms exp_loop_unsigned [of t 1 base e]
    by (simp add: math_pow_def impl_pow_def exponentiate_by_squaring_def)
qed

lemma pow_unsigned_witness: "math_pow u32 i32 3 40 = Inr (3 ^ 40 mod 2 ^ 32)"
  using pow_unsigned [of u32 40 i32 3] by simp

text \<open>C19.  On a signed type, \<open>pow\<close> is the exact power as long as the base raised to the
  next power of two above the exponent is representable.\<close>

theorem pow_signed:
  assumes "sgnd t" "0 \<le> e" "\<bar>base\<bar> ^ pow2_above (nat e) \<le> c_max t" "1 < wid t"
  shows "math_pow t te base e = Inr (base ^ nat e)"
proof -
  have one: "(1::int) \<le> c_max t"
    using assms(1,4) self_le_power [of "2::int" "wid t - 1"] by (simp add: c_max_def)
  have "\<bar>base\<bar> ^ nat e \<le> c_max t"
  proof (cases "base = 0")
    case False
    then have "\<bar>base\<bar> ^ nat e \<le> \<bar>base\<bar> ^ pow2_above (nat e)"
      using pow2_above_gt [of "nat e"] by (intro power_increasing) auto
    then show ?thesis
      using assms(3) by linarith
  qed (use one in \<open>cases "nat e"; simp\<close>)
  then show ?thesis
    using assms one exp_loop_signed [of t 1 base e]
    by (simp add: math_pow_def impl_pow_def exponentiate_by_squaring_def)
qed

lemma pow_signed_witness: "math_pow i64 i32 (- 3) 13 = Inr (- 1594323)"
  using pow_signed [of i64 13 "- 3" i32] by (simp add: c_max_def pow2_above.simps)

text \<open>The squaring after the last bit of the exponent is computed although it is not
  needed, so on a signed type \<open>pow\<close> overflows on results that are representable; a
  negative exponent divides one by the power, which is not always zero and is undefined
  for base zero.\<close>

theorem pow_corner_cases:
  "math_pow i64 i32 10 16 = Inl Undefined \<and> (10::int) ^ 16 \<le> c_max i64 \<and>
   math_pow i64 i32 10 15 = Inr (10 ^ 15) \<and>
   math_pow i32 i32 1 (- 5) = Inr 1 \<and> math_pow i32 i32 (- 1) (- 5) = Inr (- 1) \<and>
   math_pow i32 i32 0 (- 1) = Inl Undefined \<and> math_pow i32 i32 7 (- 3) = Inr 0 \<and>
   math_pow_mod True i32 i32 5 0 1 = Inr 1"
  by (simp add: math_pow_def impl_pow_def exponentiate_by_squaring_def exp_loop.simps
    math_pow_mod_def check_for_negative_exponent_def check_for_zero_division_def
    impl_pow_mod_def exponentiate_by_squaring_mod_def exp_mod_loop.simps cint_simps
    signed_divide_int_def signed_modulo_int_def)

text \<open>The modular power is the residue of the power, whenever the square of the
  modulus is representable; a negative exponent and a zero modulus raise in a debug
  build, in that order.\<close>

theorem pow_mod_residue:
  assumes "1 < m" "(m - 1) * (m - 1) \<le> c_max t" "0 \<le> base" "in_ty t base"
  shows "math_pow_mod dbg t te base e m =
    (if 0 \<le> e then Inr (base ^ nat e mod m)
     else if dbg then Inl ArithmeticError
     else of_option (do { k \<leftarrow> c_neg te e; p \<leftarrow> exponentiate_by_squaring t base k;
       q \<leftarrow> c_div t 1 p; c_mod t q m })) \<and>
    math_pow_mod True t te base e 0 =
      (if 0 \<le> e then Inl ZeroDivisionError else Inl ArithmeticError)"
  using assms squaring_mod_ok [OF assms]
  by (simp_all add: math_pow_mod_def check_for_negative_exponent_def
    check_for_zero_division_def impl_pow_mod_def)

lemma pow_mod_residue_witness:
  "math_pow_mod True i32 i32 7 10 561 = Inr (7 ^ 10 mod 561) \<and>
   math_pow_mod True i32 i32 7 (- 1) 561 = Inl ArithmeticError"
  using pow_mod_residue [of 561 i32 7 True i32 10] pow_mod_residue [of 561 i32 7 True i32 "- 1"]
  by (simp add: cint_simps)

end
