(* ===== verification/Rounding.thy ===== *)
theory Rounding
  imports IntPow
begin

text \<open>
  The \<open>round\<close> object of \<open>bertrand/math.h\<close> at \<open>T = long long\<close>, so that the scale
  \<open>pow(10LL, digits)\<close> and the value have one type.  A positive digit count scales the
  value up before dividing, any other count divides by the scale and multiplies back.
  The members do not check for a zero divisor: the scale is a power of ten.
\<close>

text \<open>The body all members share, over the strategy of the same name.\<close>

definition scaled_round :: "(ity \<Rightarrow> int \<Rightarrow> int \<Rightarrow> int option) \<Rightarrow> int \<Rightarrow> int \<Rightarrow> int option" where
  "scaled_round strategy obj digits =
     (if digits > 0
      then do {
        scale \<leftarrow> impl_pow i64 i32 10 digits;
        scaled \<leftarrow> c_mul i64 obj scale;
        strategy i64 scaled scale
      }
      else do {
        nd \<leftarrow> c_neg i32 digits;
        scale \<leftarrow> impl_pow i64 i32 10 nd;
        q \<leftarrow> strategy i64 obj scale;
        c_mul i64 q scale
      })"

definition round_cpp :: "int \<Rightarrow> int \<Rightarrow> int res" where
  "round_cpp obj digits = of_option (scaled_round impl_cpp obj digits)"

definition round_floor :: "int \<Rightarrow> int \<Rightarrow> int res" where
  "round_floor obj digits = of_option (scaled_round impl_floor obj digits)"

definition round_ceil :: "int \<Rightarrow> int \<Rightarrow> int res" where
  "round_ceil obj digits = of_option (scaled_round impl_ceil obj digits)"

definition round_down :: "int \<Rightarrow> int \<Rightarrow> int res" where
  "round_down obj digits = of_option (scaled_round impl_down obj digits)"

definition round_up :: "int \<Rightarrow> int \<Rightarrow> int res" where
  "round_up obj digits = of_option (scaled_round impl_up obj digits)"

definition round_half_floor :: "int \<Rightarrow> int \<Rightarrow> int res" where
  "round_half_floor obj digits = of_option (scaled_round impl_half_floor obj digits)"

definition round_half_ceil :: "int \<Rightarrow> int \<Rightarrow> int res" where
  "round_half_ceil obj digits = of_option (scaled_round impl_half_ceil obj digits)"

definition round_half_down :: "int \<Rightarrow> int \<Rightarrow> int res" where
  "round_half_down obj digits = of_option (scaled_round impl_half_down obj digits)"

definition round_half_up :: "int \<Rightarrow> int \<Rightarrow> int res" where
  "round_half_up obj digits = of_option (scaled_round impl_half_up obj digits)"

definition round_half_even :: "int \<Rightarrow> int \<Rightarrow> int res" where
  "round_half_even obj digits = of_option (scaled_round impl_half_even obj digits)"

definition round_half_odd :: "int \<Rightarrow> int \<Rightarrow> int res" where
  "round_half_odd obj digits = of_option (scaled_round impl_half_odd obj digits)"

fun round_by :: "mode \<Rightarrow> int \<Rightarrow> int \<Rightarrow> int res" where
  "round_by Cpp = round_cpp"
| "round_by Floor = round_floor"
| "round_by Ceil = round_ceil"
| "round_by Down = round_down"
| "round_by Up = round_up"
| "round_by HalfFloor = round_half_floor"
| "round_by HalfCeil = round_half_ceil"
| "round_by HalfDown = round_half_down"
| "round_by HalfUp = round_half_up"
| "round_by HalfEven = round_half_even"
| "round_by HalfOdd = round_half_odd"

lemma round_by_eq: "round_by m obj digits = of_option (scaled_round (impl_div m) obj digits)"
  by (cases m) (simp_all add: round_cpp_def
    round_floor_def
    round_ceil_def
    round_down_def
    round_up_def
    round_half_floor_def
    round_half_ceil_def
    round_half_down_def
    round_half_up_def
    round_half_even_def
    round_half_odd_def)

lemma pow2_above_le: "n < 2 ^ k \<Longrightarrow> pow2_above n \<le> 2 ^ k"
proof (induction k arbitrary: n)
  case (Suc k)
  then have "n div 2 < 2 ^ k"
    by auto
  from Suc.IH [OF this] show ?case
    by (subst pow2_above.simps) simp
qed (simp add: pow2_above.simps)

lemma pow_ten:
  assumes "0 \<le> d" "d \<le> 15"
  shows "impl_pow i64 i32 10 d = Some (10 ^ nat d)"
proof -
  have "nat d < 2 ^ 4"
    using assms by simp
  then have "(10::int) ^ pow2_above (nat d) \<le> 10 ^ (2 ^ 4)"
    by (intro power_increasing pow2_above_le) auto
  moreover have "(10::int) ^ nat d \<le> 10 ^ 15"
    using assms by (intro power_increasing) auto
  ultimately have "exp_loop i64 1 10 d = Some (1 * 10 ^ nat d)"
    by (intro exp_loop_signed) (auto simp: c_max_def)
  then show ?thesis
    using assms by (simp add: impl_pow_def exponentiate_by_squaring_def)
qed

lemma round_to_int: "round_to m (of_int k) = k"
proof -
  have "\<lceil>of_int k - 1/2 :: real\<rceil> = k" "\<lfloor>of_int k + 1/2 :: real\<rfloor> = k"
    by linarith+
  then show ?thesis
    by (cases m) simp_all
qed

text \<open>Rounding away \<open>k \<le> 15\<close> decimal digits returns the multiple of \<open>10 ^ k\<close> the
  strategy selects for the exact quotient.\<close>

theorem round_digits:
  assumes "0 \<le> k" "k \<le> 15" "div_ok m i64 obj (10 ^ nat k)" "\<bar>obj\<bar> + 10 ^ nat k \<le> c_max i64"
  shows "round_by m obj (- k) =
    Inr (round_to m (of_int obj / 10 ^ nat k) * 10 ^ nat k)"
proof -
  let ?s = "10 ^ nat k :: int" and ?q = "round_quot m obj (10 ^ nat k)"
  have neg: "c_neg i32 (- k) = Some k"
    using assms by (simp add: c_neg_def in_ty_def c_min_def c_max_def)
  have "\<bar>obj - ?q * ?s\<bar> < \<bar>?s\<bar>"
    by (intro round_quot_near) simp
  moreover have "\<bar>?s\<bar> = ?s"
    by simp
  ultimately have "\<bar>?q * ?s\<bar> \<le> c_max i64"
    using assms(4) by linarith
  then have "c_mul i64 ?q ?s = Some (?q * ?s)"
    by (simp add: c_mul_def in_ty_abs_le)
  then show ?thesis
    using assms impl_div_ok [OF assms(3)] pow_ten [OF assms(1,2)] neg
    by (simp add: round_by_eq scaled_round_def round_quot_def)
qed

lemma round_digits_witness:
  "round_by HalfEven 12500 (- 3) = Inr 12000 \<and> round_by Floor (- 12500) (- 3) = Inr (- 13000)"
  using round_digits [of 3 HalfEven 12500] round_digits [of 3 Floor "- 12500"]
  by (simp add: div_ok_def in_ty_def c_min_def c_max_def)

text \<open>Rounding an integer to digits after the decimal point returns the integer, as
  long as the scaled value fits.\<close>

theorem round_fraction_digits:
  assumes "0 < d" "d \<le> 15" "div_ok m i64 (obj * 10 ^ nat d) (10 ^ nat d)"
  shows "round_by m obj d = Inr obj"
proof -
  have "in_ty i64 (obj * 10 ^ nat d)"
    using assms(3) by (simp add: div_ok_def)
  moreover have "round_quot m (obj * 10 ^ nat d) (10 ^ nat d) = obj"
    using round_to_int [of m obj] by (simp add: round_quot_def)
  ultimately show ?thesis
    using assms impl_div_ok [OF assms(3)] pow_ten [of d]
    by (simp add: round_by_eq scaled_round_def c_mul_def)
qed

lemma round_fraction_digits_witness: "round_by HalfUp (- 42) 3 = Inr (- 42)"
  using round_fraction_digits [of 3 HalfUp "- 42"]
  by (simp add: div_ok_def in_ty_def c_min_def c_max_def)

end
