(* ===== verification/Primes.thy ===== *)
theory Primes
  imports IntPow
begin

unbundle bit_operations_syntax

text \<open>
  Modular multiplication, the Miller-Rabin test and the prime search of
  \<open>bertrand/math.h\<close>, on an arbitrary built-in integer type, with the number theory
  they rest on: Euclid's lemma, Fermat's little theorem and the square roots of one
  modulo a prime.
\<close>

section \<open>\<open>mul_mod\<close>\<close>

function mul_mod_loop :: "ity \<Rightarrow> int \<Rightarrow> int \<Rightarrow> int \<Rightarrow> int \<Rightarrow> int option" where
  "mul_mod_loop t m result y b =
     (if b > 0
      then do {
        result' \<leftarrow> (if b AND 1 \<noteq> 0
                   then do { s \<leftarrow> c_add t result y; c_mod t s m }
                   else Some result);
        y' \<leftarrow> c_mod t (c_shl t y 1) m;
        mul_mod_loop t m result' y' (c_shr b 1)
      }
      else c_mod t result m)"
  by pat_completeness auto
termination
  by (relation "measure (\<lambda>(t, m, result, y, b). nat b)") (auto simp: c_shr_def)

declare mul_mod_loop.simps [simp del]

definition mul_mod :: "ity \<Rightarrow> int \<Rightarrow> int \<Rightarrow> int \<Rightarrow> int option" where
  "mul_mod t a b m = do { y \<leftarrow> c_mod t a m; mul_mod_loop t m 0 y b }"

lemma mul_mod_loop_ok:
  assumes "1 \<le> wid t" "2 * (m - 1) \<le> c_max t" "0 \<le> r" "r < m" "0 \<le> y" "y < m" "0 \<le> b"
  shows "mul_mod_loop t m r y b = Some ((r + y * b) mod m)"
  using assms(3-)
proof (induction "nat b" arbitrary: r y b rule: less_induct)
  case less
  have m: "0 < m"
    using less.prems by linarith
  show ?case
  proof (cases "b = 0")
    case True
    have "in_ty t r"
      using less.prems assms(2) by (intro in_ty_abs_pos) auto
    then show ?thesis
      using True less.prems m by (simp add: mul_mod_loop.simps c_mod_nonneg)
  next
    case False
    then have b: "0 < b"
      using less.prems by simp
    have in2: "in_ty t (r + y)" "in_ty t (y * 2)"
      using less.prems assms(2) by (intro in_ty_abs_pos; simp)+
    then have ops: "c_add t r y = Some (r + y)" "c_shl t y 1 = y * 2"
      using assms(1) by (simp_all add: c_add_def c_shl_def)
    have mods: "c_mod t (r + y) m = Some ((r + y) mod m)" "c_mod t (y * 2) m = Some (y * 2 mod m)"
      using in2 less.prems m by (simp_all add: c_mod_nonneg)
    have IH: "mul_mod_loop t m r' (y * 2 mod m) (b div 2) = Some ((r' + y * 2 * (b div 2)) mod m)"
      if "0 \<le> r'" "r' < m" for r'
    proof -
      have "mul_mod_loop t m r' (y * 2 mod m) (b div 2) = Some ((r' + y * 2 mod m * (b div 2)) mod m)"
        using that b m by (intro less.hyps) auto
      then show ?thesis
        by (metis mod_add_right_eq mod_mult_left_eq)
    qed
    show ?thesis
    proof (cases "odd b")
      case True
      then have e: "b = 2 * (b div 2) + 1"
        by presburger
      have "((r + y) mod m + y * 2 * (b div 2)) mod m = (r + y * b) mod m"
        by (subst (2) e) (simp add: mod_add_left_eq algebra_simps)
      then show ?thesis
        using b True IH [of "(r + y) mod m"] m ops mods
        by (subst mul_mod_loop.simps) (simp add: and_one_eq c_shr_def odd_iff_mod_2_eq_one)
    next
      case False
      then have e: "b = 2 * (b div 2)"
        by presburger
      have "(r + y * 2 * (b div 2)) mod m = (r + y * b) mod m"
        by (subst (2) e) (simp add: algebra_simps)
      then show ?thesis
        using b False IH [of r] less.prems ops mods
        by (subst mul_mod_loop.simps) (simp add: and_one_eq c_shr_def even_iff_mod_2_eq_zero)
    qed
  qed
qed

lemma mul_mod_ok:
  assumes "1 \<le> wid t" "0 < m" "2 * (m - 1) \<le> c_max t" "0 \<le> a" "in_ty t a" "0 \<le> b"
  shows "mul_mod t a b m = Some (a * b mod m)"
proof -
  have "mul_mod_loop t m 0 (a mod m) b = Some ((0 + a mod m * b) mod m)"
    using assms by (intro mul_mod_loop_ok) auto
  then show ?thesis
    using assms by (simp add: mul_mod_def c_mod_nonneg mod_mult_left_eq)
qed

section \<open>The Miller-Rabin test\<close>

text \<open>\<open>while ((d & 1) == 0) { d >>= 1; ++r; }\<close>.  The loop would not end for \<open>d = 0\<close>, which
  \<open>is_prime\<close> never passes.\<close>

function strip_twos :: "int \<Rightarrow> int \<Rightarrow> (int \<times> int) option" where
  "strip_twos d r =
     (if d = 0 then None
      else if d AND 1 = 0 then strip_twos (c_shr d 1) (r + 1)
      else Some (d, r))"
  by pat_completeness auto
termination
  by (relation "measure (\<lambda>(d, r). nat \<bar>d\<bar>)")
     (auto simp: c_shr_def and_one_eq elim!: evenE simp flip: even_iff_mod_2_eq_zero)

declare strip_twos.simps [simp del]

fun mr_loop :: "ity \<Rightarrow> int \<Rightarrow> nat \<Rightarrow> int \<Rightarrow> bool option" where
  "mr_loop t n 0 x = Some False"
| "mr_loop t n (Suc i) x = do {
     x' \<leftarrow> mul_mod t x x n;
     nm \<leftarrow> c_sub t n 1;
     if x' = nm then Some True else mr_loop t n i x'
   }"

definition mr_test :: "ity \<Rightarrow> int \<Rightarrow> int \<Rightarrow> int \<Rightarrow> int \<Rightarrow> bool option" where
  "mr_test t n d r a = do {
     x \<leftarrow> impl_pow_mod t t a d n;
     nm \<leftarrow> c_sub t n 1;
     if x = 1 \<or> x = nm then Some True else mr_loop t n (nat (r - 1)) x
   }"

definition mr_bases :: "int list" where
  "mr_bases = [2, 3, 5, 7, 11, 13, 17, 19, 23, 29, 31, 37]"

fun mr_all :: "ity \<Rightarrow> int \<Rightarrow> int \<Rightarrow> int \<Rightarrow> int list \<Rightarrow> bool option" where
  "mr_all t n d r [] = Some True"
| "mr_all t n d r (a # as) =
     (if a \<ge> n then Some True
      else do {
        probable \<leftarrow> mr_test t n d r a;
        if \<not> probable then Some False else mr_all t n d r as
      })"

definition is_prime :: "ity \<Rightarrow> int \<Rightarrow> bool option" where
  "is_prime t n =
     (if n AND 1 = 0 then Some (n = 2)
      else if n < 2 then Some False
      else do {
        d0 \<leftarrow> c_sub t n 1;
        (d, r) \<leftarrow> strip_twos d0 0;
        mr_all t n d r mr_bases
      })"

section \<open>\<open>next_prime\<close>\<close>

text \<open>The \<open>for\<close> loop over odd candidates; it may not end where \<open>i += 2\<close> wraps.\<close>

partial_function (option) next_prime_loop :: "ity \<Rightarrow> int \<Rightarrow> int \<Rightarrow> int option" where
  "next_prime_loop t i e =
     (if i < e
      then do {
        p \<leftarrow> is_prime t i;
        if p then Some i else do { i' \<leftarrow> c_add t i 2; next_prime_loop t i' e }
      }
      else Some 2)"

definition next_prime :: "ity \<Rightarrow> int \<Rightarrow> int option" where
  "next_prime t n = do {
     n1 \<leftarrow> c_add t n 1;
     e \<leftarrow> c_mul t 2 n;
     next_prime_loop t (n1 OR 1) e
   }"

section \<open>Number theory\<close>

definition prime_number :: "int \<Rightarrow> bool" where
  "prime_number p \<longleftrightarrow> 1 < p \<and> (\<forall>d. 1 < d \<and> d < p \<longrightarrow> \<not> d dvd p)"

lemma prime_coprime:
  assumes "prime_number p" "\<not> p dvd a"
  shows "coprime p a"
proof -
  have "gcd p a dvd p" "0 < gcd p a"
    using assms by (auto simp: prime_number_def gcd_pos_int)
  moreover have "gcd p a \<le> p"
    using assms by (auto simp: prime_number_def intro: zdvd_imp_le)
  moreover have "gcd p a \<noteq> p"
    using assms(2) by (metis gcd_dvd2)
  ultimately have "gcd p a = 1"
    using assms(1) unfolding prime_number_def by (metis int_one_le_iff_zero_less le_less)
  then show ?thesis
    by (simp add: coprime_iff_gcd_eq_1)
qed

lemma euclid_lemma: "prime_number p \<Longrightarrow> p dvd a * b \<Longrightarrow> p dvd a \<or> p dvd b"
  by (metis prime_coprime coprime_dvd_mult_right_iff)

lemma prime_dvd_choose:
  assumes "prime_number (int p)" "0 < k" "k < p"
  shows "int p dvd int (p choose k)"
proof -
  have "k * (p choose k) = p * (p - 1 choose (k - 1))"
    using assms(2,3) times_binomial_minus1_eq [of k p] by simp
  then have "int p dvd int k * int (p choose k)"
    by (metis dvd_triv_left of_nat_mult)
  moreover have "\<not> int p dvd int k"
    using assms(2,3) by (auto dest: zdvd_imp_le)
  ultimately show ?thesis
    using euclid_lemma [OF assms(1)] by blast
qed

lemma freshman_dream:
  assumes "prime_number (int p)"
  shows "int p dvd (a + 1) ^ p - (a ^ p + 1)"
proof -
  have p: "1 < p"
    using assms by (simp add: prime_number_def)
  have "(a + 1) ^ p = (\<Sum>k\<le>p. int (p choose k) * a ^ k)"
    by (simp add: binomial_ring)
  also have "{..p} = insert p (insert 0 {0<..<p})"
    using p by auto
  also have "(\<Sum>k\<in>insert p (insert 0 {0<..<p}). int (p choose k) * a ^ k) =
      a ^ p + (1 + (\<Sum>k\<in>{0<..<p}. int (p choose k) * a ^ k))"
    using p by simp
  finally have "(a + 1) ^ p - (a ^ p + 1) = (\<Sum>k\<in>{0<..<p}. int (p choose k) * a ^ k)"
    by simp
  then show ?thesis
    using prime_dvd_choose [OF assms] by (auto intro!: dvd_sum)
qed

lemma fermat_nat:
  assumes "prime_number (int p)"
  shows "int p dvd int a ^ p - int a"
proof (induction a)
  case 0
  then show ?case
    using assms by (simp add: prime_number_def power_0_left)
next
  case (Suc a)
  have "int (Suc a) ^ p - int (Suc a) =
      ((int a + 1) ^ p - (int a ^ p + 1)) + (int a ^ p - int a)"
    by (simp add: add.commute)
  then show ?case
    using freshman_dream [OF assms, of "int a"] Suc.IH by (metis dvd_add)
qed

lemma fermat_little:
  assumes "prime_number n" "0 < a" "a < n"
  shows "a ^ nat (n - 1) mod n = 1"
proof -
  have n: "1 < n"
    using assms(1) by (simp add: prime_number_def)
  have "n dvd a ^ nat n - a"
    using fermat_nat [of "nat n" "nat a"] assms n by simp
  also have "a ^ nat n - a = a * (a ^ nat (n - 1) - 1)"
    using n by (simp add: right_diff_distrib power_Suc [symmetric] Suc_nat_eq_nat_zadd1 del: power_Suc)
  finally have "n dvd a \<or> n dvd a ^ nat (n - 1) - 1"
    by (rule euclid_lemma [OF assms(1)])
  moreover have "\<not> n dvd a"
    using assms(2,3) by (metis zdvd_not_zless)
  ultimately have "n dvd a ^ nat (n - 1) - 1"
    by blast
  then have "a ^ nat (n - 1) mod n = 1 mod n"
    by (simp add: mod_eq_dvd_iff)
  then show ?thesis
    using n by simp
qed

lemma sqrt_one:
  assumes "prime_number n" "0 \<le> x" "x < n" "x * x mod n = 1"
  shows "x = 1 \<or> x = n - 1"
proof -
  have n: "1 < n"
    using assms(1) by (simp add: prime_number_def)
  then have "x * x mod n = 1 mod n"
    using assms(4) by simp
  then have "n dvd (x - 1) * (x + 1)"
    by (simp add: mod_eq_dvd_iff algebra_simps)
  then have "n dvd x - 1 \<or> n dvd x + 1"
    by (rule euclid_lemma [OF assms(1)])
  moreover have "x \<noteq> 0"
    using assms(4) by auto
  ultimately show ?thesis
    using assms(2,3) by (auto dest: zdvd_imp_le)
qed

section \<open>The test accepts every prime\<close>

lemma strip_twos_ok:
  assumes "0 < d"
  shows "\<exists>k. strip_twos d r = Some (d div 2 ^ k, r + int k) \<and> odd (d div 2 ^ k) \<and>
    d = d div 2 ^ k * 2 ^ k"
  using assms
proof (induction "nat d" arbitrary: d r rule: less_induct)
  case less
  show ?case
  proof (cases "even d")
    case False
    then show ?thesis
      using less.prems
      by (intro exI [of _ 0]) (simp add: strip_twos.simps and_one_eq odd_iff_mod_2_eq_one)
  next
    case True
    then have half: "0 < d div 2" "d = 2 * (d div 2)"
      using less.prems by auto
    obtain k where k: "strip_twos (d div 2) (r + 1) = Some (d div 2 div 2 ^ k, r + 1 + int k)"
      "odd (d div 2 div 2 ^ k)" "d div 2 = d div 2 div 2 ^ k * 2 ^ k"
      using less.hyps [of "d div 2" "r + 1", OF _ half(1)] less.prems
      by (metis int_div_less_self nat_mono_iff one_less_numeral_iff semiring_norm(76))
    have e: "d div 2 div 2 ^ k = d div 2 ^ Suc k"
      by (simp add: zdiv_zmult2_eq mult.commute)
    have "d = d div 2 ^ Suc k * 2 ^ Suc k"
      using half(2) k(3) e by (metis mult.assoc mult.commute power_Suc)
    then show ?thesis
      using True less.prems k e
      by (intro exI [of _ "Suc k"])
         (simp add: strip_twos.simps [of d] and_one_eq c_shr_def even_iff_mod_2_eq_zero)
  qed
qed

lemma in_ty_double:
  assumes "3 \<le> n" "(n - 1) * (n - 1) \<le> c_max t"
  shows "2 * (n - 1) \<le> c_max t" "in_ty t (n - 1)" "in_ty t n" "c_sub t n 1 = Some (n - 1)"
proof -
  have "2 * (n - 1) \<le> (n - 1) * (n - 1)"
    using assms(1) by (intro mult_right_mono) auto
  then show two: "2 * (n - 1) \<le> c_max t"
    using assms(2) by linarith
  show "in_ty t (n - 1)"
    using assms(1) two by (simp add: in_ty_abs_pos)
  show "in_ty t n"
  proof (rule in_ty_abs_pos)
    have "n \<le> 2 * (n - 1)"
      using assms(1) by simp
    then show "n \<le> c_max t"
      using two by (rule order_trans)
  qed (use assms(1) in simp)
  from \<open>in_ty t (n - 1)\<close> show "c_sub t n 1 = Some (n - 1)"
    by (simp add: c_sub_def)
qed

lemma mr_loop_total:
  assumes "3 \<le> n" "(n - 1) * (n - 1) \<le> c_max t" "1 \<le> wid t" "0 \<le> x" "x < n"
  shows "mr_loop t n k x \<noteq> None"
  using assms(4-)
proof (induction k arbitrary: x)
  case (Suc k)
  note ty = in_ty_double [OF assms(1,2)]
  have "in_ty t x"
    using Suc.prems ty(2) assms(1) by (intro in_ty_mono [of x "n - 1"]) auto
  then have "mul_mod t x x n = Some (x * x mod n)"
    using Suc.prems ty assms by (intro mul_mod_ok) auto
  then show ?case
    using Suc.IH [of "x * x mod n"] ty(4) assms(1) by auto
qed simp

lemma power_mult_2: "(x * x) ^ k = x ^ (2 * k)" for x :: int
  by (simp add: power_mult power2_eq_square)

lemma mr_loop_prime:
  assumes "prime_number n" "3 \<le> n" "(n - 1) * (n - 1) \<le> c_max t" "1 \<le> wid t"
    and "0 \<le> x" "x < n" "x \<noteq> 1" "x \<noteq> n - 1" "x ^ (2 ^ Suc k) mod n = 1"
  shows "mr_loop t n k x = Some True"
  using assms(5-)
proof (induction k arbitrary: x)
  case 0
  then show ?case
    using sqrt_one [OF assms(1), of x] by (simp add: power2_eq_square)
next
  case (Suc k)
  note ty = in_ty_double [OF assms(2,3)]
  have "in_ty t x"
    using Suc.prems ty(2) assms(2) by (intro in_ty_mono [of x "n - 1"]) auto
  then have m: "mul_mod t x x n = Some (x * x mod n)"
    using Suc.prems ty assms by (intro mul_mod_ok) auto
  have "(x * x mod n) ^ (2 ^ Suc k) mod n = 1"
    unfolding power_mod using Suc.prems(5) by (simp only: power_mult_2 power_Suc [of 2 "Suc k"])
  moreover have "x * x mod n \<noteq> 1"
    using sqrt_one [OF assms(1), of x] Suc.prems by auto
  ultimately have "mr_loop t n k (x * x mod n) = Some True" if "x * x mod n \<noteq> n - 1"
    using that assms(2) by (intro Suc.IH) auto
  then show ?case
    using m ty(4) by simp
qed

lemma mr_test_value:
  assumes "3 \<le> n" "(n - 1) * (n - 1) \<le> c_max t" "0 \<le> d" "1 < a" "a < n"
  shows "mr_test t n d r a =
    (let x = a ^ nat d mod n in
     if x = 1 \<or> x = n - 1 then Some True else mr_loop t n (nat (r - 1)) x)"
proof -
  note ty = in_ty_double [OF assms(1,2)]
  have "in_ty t a"
    using assms ty(3) by (intro in_ty_mono [of a n]) auto
  then have "impl_pow_mod t t a d n = Some (a ^ nat d mod n)"
    using assms by (simp add: impl_pow_mod_def squaring_mod_ok)
  then show ?thesis
    using ty(4) by (simp add: mr_test_def Let_def)
qed

lemma mr_test_prime:
  assumes "prime_number n" "3 \<le> n" "(n - 1) * (n - 1) \<le> c_max t" "1 \<le> wid t"
    "1 < a" "a < n" "n - 1 = d * 2 ^ Suc k" "0 \<le> d"
  shows "mr_test t n d (int (Suc k)) a = Some True"
proof -
  let ?x = "a ^ nat d mod n"
  have "nat (n - 1) = nat d * 2 ^ Suc k"
    unfolding assms(7) using assms(8) by (simp add: nat_mult_distrib nat_power_eq)
  then have "?x ^ (2 ^ Suc k) mod n = a ^ nat (n - 1) mod n"
    unfolding power_mod by (simp only: power_mult)
  also have "\<dots> = 1"
    using assms by (intro fermat_little) auto
  finally have "mr_loop t n k ?x = Some True" if "?x \<noteq> 1" "?x \<noteq> n - 1"
    using that assms by (intro mr_loop_prime) auto
  then show ?thesis
    using assms by (auto simp: mr_test_value Let_def)
qed

lemma mr_all_prime:
  assumes "\<And>a. a \<in> set as \<Longrightarrow> a < n \<Longrightarrow> mr_test t n d r a = Some True"
  shows "mr_all t n d r as = Some True"
  using assms by (induction as) auto

lemma mr_all_total:
  assumes "\<And>a. a \<in> set as \<Longrightarrow> a < n \<Longrightarrow> mr_test t n d r a \<noteq> None"
  shows "mr_all t n d r as \<noteq> None"
  using assms
proof (induction as)
  case (Cons a as)
  show ?case
  proof (cases "mr_test t n d r a")
    case None
    then show ?thesis
      using Cons.prems [of a] by (cases "a < n") auto
  next
    case (Some b)
    then show ?thesis
      using Cons by auto
  qed
qed simp

lemma is_prime_odd:
  assumes "3 \<le> n" "odd n" "(n - 1) * (n - 1) \<le> c_max t"
  shows "\<exists>d k. 0 \<le> d \<and> n - 1 = d * 2 ^ Suc k \<and>
    is_prime t n = mr_all t n d (int (Suc k)) mr_bases"
proof -
  obtain k where k: "strip_twos (n - 1) 0 = Some ((n - 1) div 2 ^ k, 0 + int k)"
    "odd ((n - 1) div 2 ^ k)" "n - 1 = (n - 1) div 2 ^ k * 2 ^ k"
    using strip_twos_ok [of "n - 1" 0] assms(1) by auto
  then obtain j where j: "k = Suc j"
    using assms(2) by (cases k) auto
  have "is_prime t n = mr_all t n ((n - 1) div 2 ^ k) (int k) mr_bases"
    using assms k(1) in_ty_double [OF assms(1,3)]
    by (simp add: is_prime_def and_one_eq odd_iff_mod_2_eq_one)
  moreover have "0 \<le> (n - 1) div 2 ^ k"
    using assms(1) by (simp add: pos_imp_zdiv_nonneg_iff)
  ultimately show ?thesis
    using k(3) unfolding j by blast
qed

lemma is_prime_complete:
  assumes "prime_number n" "(n - 1) * (n - 1) \<le> c_max t" "1 \<le> wid t"
  shows "is_prime t n = Some True"
proof (cases "n = 2")
  case True
  then show ?thesis
    by (simp add: is_prime_def and_one_eq)
next
  case False
  then have n: "3 \<le> n" and odd: "odd n"
    using assms(1) by (auto simp: prime_number_def)
  obtain d k where dk: "0 \<le> d" "n - 1 = d * 2 ^ Suc k"
    "is_prime t n = mr_all t n d (int (Suc k)) mr_bases"
    using is_prime_odd [OF n odd assms(2)] by blast
  have "mr_test t n d (int (Suc k)) a = Some True" if "a \<in> set mr_bases" "a < n" for a
    using that n dk assms by (intro mr_test_prime) (auto simp: mr_bases_def)
  then show ?thesis
    unfolding dk(3) by (rule mr_all_prime)
qed

section \<open>The prime search\<close>

lemma is_prime_total:
  assumes "(n - 1) * (n - 1) \<le> c_max t" "1 \<le> wid t"
  shows "is_prime t n \<noteq> None"
proof (cases "3 \<le> n \<and> odd n")
  case True
  then obtain d k where dk: "0 \<le> d" "is_prime t n = mr_all t n d (int (Suc k)) mr_bases"
    using is_prime_odd [of n t] assms(1) by blast
  have "mr_test t n d (int (Suc k)) a \<noteq> None" if "a \<in> set mr_bases" "a < n" for a
    using that dk True assms mr_loop_total [of n t "a ^ nat d mod n" "nat (int (Suc k) - 1)"]
    by (auto simp: mr_test_value Let_def mr_bases_def)
  then show ?thesis
    unfolding dk(2) by (rule mr_all_total)
next
  case False
  then have "even n \<or> n < 2"
    by presburger
  then show ?thesis
    by (auto simp: is_prime_def and_one_eq even_iff_mod_2_eq_zero)
qed

definition rejected_from :: "ity \<Rightarrow> int \<Rightarrow> int \<Rightarrow> bool" where
  "rejected_from t i h \<longleftrightarrow> (\<forall>j. i \<le> j \<and> j < h \<and> odd j \<longrightarrow> is_prime t j = Some False)"

lemma rejected_from_step:
  assumes "is_prime t i = Some False" "odd i" "rejected_from t (i + 2) h"
  shows "rejected_from t i h"
  unfolding rejected_from_def
proof (intro allI impI)
  fix j assume j: "i \<le> j \<and> j < h \<and> odd j"
  then have "j = i \<or> i + 2 \<le> j"
    using assms(2) by presburger
  then show "is_prime t j = Some False"
    using assms j by (auto simp: rejected_from_def)
qed

lemma next_prime_loop_spec:
  assumes "0 \<le> i" "odd i" "even e" "0 \<le> e" "(e - 1) * (e - 1) \<le> c_max t" "3 \<le> wid t"
  shows "\<exists>p. next_prime_loop t i e = Some p \<and>
    (p = 2 \<and> rejected_from t i e \<or>
     i \<le> p \<and> p < e \<and> odd p \<and> is_prime t p = Some True \<and> rejected_from t i p)"
  using assms(1,2)
proof (induction "nat (e - i)" arbitrary: i rule: less_induct)
  case less
  show ?case
  proof (cases "i < e")
    case False
    then show ?thesis
      by (auto simp: next_prime_loop.simps rejected_from_def)
  next
    case True
    have "(i - 1) * (i - 1) \<le> (e - 1) * (e - 1)"
      using True less.prems by (intro mult_mono) presburger+
    then have "is_prime t i \<noteq> None"
      using assms(5,6) by (intro is_prime_total) auto
    then obtain b where b: "is_prime t i = Some b"
      by auto
    show ?thesis
    proof (cases b)
      case found: True
      then show ?thesis
        using True b less.prems by (intro exI [of _ i]) (auto simp: next_prime_loop.simps rejected_from_def)
    next
      case not_prime: False
      have ty: "c_add t i 2 = Some (i + 2)"
      proof -
        have "e + 1 \<le> c_max t"
        proof (cases "4 \<le> e")
          case True
          then have "3 * (e - 1) \<le> (e - 1) * (e - 1)"
            by (intro mult_right_mono) auto
          then show ?thesis
            using assms(5) True by simp
        next
          case False
          then have "e + 1 \<le> 3"
            using assms(3) by presburger
          then show ?thesis
            using c_max_3 [OF assms(6)] by simp
        qed
        moreover have "i + 2 \<le> e + 1"
          using True less.prems assms(3) by presburger
        ultimately show ?thesis
          using less.prems by (simp add: c_add_def in_ty_abs_pos)
      qed
      have "nat (e - (i + 2)) < nat (e - i)" "0 \<le> i + 2" "odd (i + 2)"
        using less.prems True by auto
      from less.hyps [OF this] obtain p where p: "next_prime_loop t (i + 2) e = Some p"
        "p = 2 \<and> rejected_from t (i + 2) e \<or>
         i + 2 \<le> p \<and> p < e \<and> odd p \<and> is_prime t p = Some True \<and> rejected_from t (i + 2) p"
        by blast
      have "next_prime_loop t i e = Some p"
        using True b not_prime ty p(1) by (subst next_prime_loop.simps) simp
      moreover have "rejected_from t i h" if "rejected_from t (i + 2) h" for h
        using b not_prime by (simp add: rejected_from_step [OF _ less.prems(2) that])
      ultimately show ?thesis
        using p(2) by force
    qed
  qed
qed

section \<open>Properties\<close>

text \<open>\<open>mul_mod\<close> is multiplication modulo \<open>m\<close> for every second factor, as long as
  twice the largest residue is representable.\<close>

theorem mul_mod_residue:
  assumes "1 \<le> wid t" "0 < m" "2 * (m - 1) \<le> c_max t" "0 \<le> a" "in_ty t a" "0 \<le> b"
  shows "mul_mod t a b m = Some (a * b mod m)"
  using assms by (rule mul_mod_ok)

lemma mul_mod_residue_witness: "mul_mod u32 4294967295 77 2147483648 = Some 2147483571"
  using mul_mod_residue [of u32 2147483648 4294967295 77] by (simp add: cint_simps)

text \<open>Beyond that bound the addition and the shift wrap and the result is wrong.\<close>

theorem mul_mod_wraps:
  "mul_mod u32 4294967290 2 4294967291 = Some 4294967284 \<and>
   (4294967290 * 2 :: int) mod 4294967291 = 4294967289"
  by (simp add: mul_mod_def mul_mod_loop.simps c_shl_def c_shr_def c_wrap_def cint_simps
    and_one_eq sdiv_nonneg smod_nonneg)

text \<open>C20.  The primality test accepts every prime \<open>n\<close> for which \<open>(n - 1)\<^sup>2\<close> fits
  the type (no false negatives), and it always returns a verdict there.\<close>

theorem is_prime_accepts_primes:
  assumes "prime_number n" "(n - 1) * (n - 1) \<le> c_max t" "1 \<le> wid t"
  shows "is_prime t n = Some True"
  using assms by (rule is_prime_complete)

lemma is_prime_accepts_primes_witness: "is_prime i32 13 = Some True"
proof (rule is_prime_accepts_primes)
  have "\<not> d dvd 13" if "1 < d" "d < 13" for d :: int
  proof -
    have "d = 2 \<or> d = 3 \<or> d = 4 \<or> d = 5 \<or> d = 6 \<or> d = 7 \<or> d = 8 \<or> d = 9 \<or>
      d = 10 \<or> d = 11 \<or> d = 12"
      using that by arith
    then show ?thesis
      by (elim disjE) simp_all
  qed
  then show "prime_number 13"
    by (simp add: prime_number_def)
qed (simp_all add: c_max_def)

text \<open>A rejected number is composite; and the test never answers \<open>True\<close> for an even
  number above two, for one, zero or a negative number.\<close>

theorem is_prime_rejects_composites:
  assumes "(n - 1) * (n - 1) \<le> c_max t" "1 \<le> wid t"
  shows "\<exists>b. is_prime t n = Some b \<and> (\<not> b \<longrightarrow> \<not> prime_number n) \<and>
    (b \<and> n \<noteq> 2 \<longrightarrow> odd n \<and> 2 < n)"
proof -
  have "is_prime t n \<noteq> None"
    using assms by (rule is_prime_total)
  then obtain b where b: "is_prime t n = Some b"
    by auto
  have "odd n \<and> 2 < n" if b "n \<noteq> 2"
    using b that by (auto simp: is_prime_def and_one_eq odd_iff_mod_2_eq_one split: if_splits)
  moreover have "\<not> prime_number n" if "\<not> b"
    using is_prime_complete assms b that by fastforce
  ultimately show ?thesis
    using b by blast
qed

lemma is_prime_rejects_composites_witness:
  "\<exists>b. is_prime i32 15 = Some b \<and> (\<not> b \<longrightarrow> \<not> prime_number 15)"
  using is_prime_rejects_composites [of 15 i32] by (auto simp: c_max_def)

text \<open>C21.  For \<open>n\<close> of at least two where \<open>(2 n - 1)\<^sup>2\<close> fits the type,
  \<open>next_prime\<close> always returns, and what it returns is the first accepted number above
  \<open>n\<close>: no prime lies strictly between \<open>n\<close> and the result, and the fallback value
  two is returned only if there is no prime between \<open>n\<close> and \<open>2 n\<close>.\<close>

theorem next_prime_least:
  assumes "2 \<le> n" "(2 * n - 1) * (2 * n - 1) \<le> c_max t" "3 \<le> wid t"
  shows "\<exists>p. next_prime t n = Some p \<and>
    (p = 2 \<and> (\<forall>q. n < q \<and> q < 2 * n \<longrightarrow> \<not> prime_number q) \<or>
     n < p \<and> p < 2 * n \<and> is_prime t p = Some True \<and>
       (\<forall>q. n < q \<and> q < p \<longrightarrow> \<not> prime_number q))"
proof -
  define i where "i = (n + 1) OR 1"
  have i: "odd i" "n < i" "0 \<le> i" "i \<le> j" if "n < j" "odd j" for j
    using that assms(1) by (auto simp: i_def or_one_eq) presburger+
  have "3 * (2 * n - 1) \<le> (2 * n - 1) * (2 * n - 1)"
    using assms(1) by (intro mult_right_mono) auto
  then have "2 * n \<le> c_max t"
    using assms(1,2) by simp
  then have ranges: "in_ty t (n + 1)" "in_ty t (2 * n)"
    using assms(1) by (simp_all add: in_ty_abs_pos)
  then have start: "next_prime t n = next_prime_loop t i (2 * n)"
    by (simp add: next_prime_def i_def c_add_def c_mul_def)
  have prime_odd: "odd q" if "prime_number q" "n < q" for q
    using that assms(1) by (auto simp: prime_number_def)
  have not_prime: "\<not> prime_number q" if "rejected_from t i h" "h \<le> 2 * n" "n < q" "q < h" for q h
  proof
    assume q: "prime_number q"
    have "(q - 1) * (q - 1) \<le> (2 * n - 1) * (2 * n - 1)"
      using that assms(1) by (intro mult_mono) auto
    then have "is_prime t q = Some True"
      using q assms(2,3) by (intro is_prime_complete) auto
    then show False
      using that i(4) [OF that(3) prime_odd] q prime_odd [OF q that(3)]
      by (auto simp: rejected_from_def)
  qed
  obtain p where p: "next_prime_loop t i (2 * n) = Some p"
    "p = 2 \<and> rejected_from t i (2 * n) \<or>
     i \<le> p \<and> p < 2 * n \<and> odd p \<and> is_prime t p = Some True \<and> rejected_from t i p"
    using next_prime_loop_spec [of i "2 * n" t] i [of "2 * n + 1"] assms by auto
  have "n < i"
    using i(2) [of "2 * n + 1"] assms(1) by simp
  then show ?thesis
    using p(2) not_prime [of "2 * n"] not_prime [of p] p(1) start
    by (intro exI [of _ p]) auto
qed

lemma next_prime_least_witness:
  "\<exists>p. next_prime i32 14 = Some p \<and> (p = 2 \<or> 14 < p \<and> p < 28)"
  using next_prime_least [of 14 i32] by (auto simp: c_max_def)

lemma prime_number_by_trial:
  assumes "1 < n" "n < k * k" "0 < k" "\<And>d. 1 < d \<Longrightarrow> d < k \<Longrightarrow> \<not> d dvd n"
  shows "prime_number n"
  unfolding prime_number_def
proof (intro conjI allI impI notI)
  fix d assume d: "1 < d \<and> d < n" "d dvd n"
  then obtain e where e: "n = d * e"
    by (auto elim: dvdE)
  then have "0 < e"
    using d(1) assms(1) by (metis less_trans zero_less_mult_pos zero_less_one)
  moreover have "e \<noteq> 1"
    using e d(1) by auto
  ultimately have "k \<le> d" "k \<le> e"
    using assms(4) [of d] assms(4) [of e] d e by fastforce+
  then have "k * k \<le> d * e"
    using assms(3) by (intro mult_mono) auto
  then show False
    using e assms(2) by simp
qed (rule assms(1))

fun no_odd_divisor :: "nat \<Rightarrow> int \<Rightarrow> int \<Rightarrow> bool" where
  "no_odd_divisor 0 n d = True"
| "no_odd_divisor (Suc k) n d = (if n mod d = 0 then False else no_odd_divisor k n (d + 2))"

lemma no_odd_divisor_sound:
  assumes "no_odd_divisor k n d" "odd d" "odd x" "d \<le> x" "x < d + 2 * int k"
  shows "\<not> x dvd n"
  using assms
proof (induction k arbitrary: d)
  case (Suc k)
  show ?case
  proof (cases "x = d")
    case True
    then show ?thesis
      using Suc.prems(1) by (auto split: if_splits)
  next
    case False
    then have "d + 2 \<le> x"
      using Suc.prems by presburger
    then show ?thesis
      using Suc.prems by (intro Suc.IH [of "d + 2"]) (auto split: if_splits)
  qed
qed simp

lemma trials_65539:
  "no_odd_divisor 32 65539 3" "no_odd_divisor 32 65539 67" "no_odd_divisor 32 65539 131"
  "no_odd_divisor 32 65539 195"
  by (simp_all add: numeral_eq_Suc)

lemma trial_65539:
  assumes "1 < d" "d < 257"
  shows "\<not> d dvd (65539 :: int)"
proof (cases "odd d")
  case True
  then have "3 \<le> d"
    using assms by presburger
  then consider "3 \<le> d" "d < 67" | "67 \<le> d" "d < 131" | "131 \<le> d" "d < 195" | "195 \<le> d" "d < 259"
    using assms(2) by linarith
  then show ?thesis
    by cases (use trials_65539 [THEN no_odd_divisor_sound, of d] True in auto)
qed (use dvd_trans [of 2 d 65539] in auto)

lemma exp_mod_loop_u32:
  assumes "0 < m" "0 \<le> r" "0 \<le> y"
  shows "exp_mod_loop u32 m r y e =
    (if e \<ge> 1
     then exp_mod_loop u32 m (if e mod 2 = 0 then r else r * y mod 4294967296 mod m)
       (y * y mod 4294967296 mod m) (e div 2)
     else Some r)"
  using assms by (subst exp_mod_loop.simps)
    (simp add: c_mul_def c_norm_unsigned c_mod_nonneg in_ty_unsigned sdiv_nonneg smod_nonneg)

lemma fermat_overflow_65539: "impl_pow_mod u32 u32 2 32769 65539 = Some 0"
  by (simp add: impl_pow_mod_def exponentiate_by_squaring_mod_def c_mod_nonneg in_ty_unsigned
    exp_mod_loop_u32)

text \<open>Above the square root of the type the modular power wraps and primes are
  rejected: the bound of the previous properties cannot be dropped.\<close>

theorem is_prime_overflow: "prime_number 65539 \<and> is_prime u32 65539 = Some False"
proof
  show "prime_number 65539"
    using trial_65539 by (intro prime_number_by_trial [where k = 257]) auto
  show "is_prime u32 65539 = Some False"
    by (simp add: is_prime_def and_one_eq c_shr_def strip_twos.simps mr_bases_def mr_test_def
      fermat_overflow_65539 c_sub_def in_ty_unsigned)
qed

end
