(* ===== verification/WordBits.thy ===== *)
theory WordBits
  imports Prelude
begin

unbundle bit_operations_syntax

text \<open>
  The bit-counting functions of the C++ header \<open><bit>\<close> that the code calls
  (\<open>std::countl_zero\<close>, \<open>std::countr_zero\<close>, \<open>std::popcount\<close>) on words of any width,
  as the standard defines them, and the power-of-two and bit-reversal helpers of
  \<open>bertrand/math.h\<close>.
\<close>

section \<open>Counting bits\<close>

fun clz_below :: "'a::len word \<Rightarrow> nat \<Rightarrow> nat" where
  "clz_below n 0 = 0"
| "clz_below n (Suc k) = (if bit n k then 0 else Suc (clz_below n k))"

definition countl_zero :: "'a::len word \<Rightarrow> nat" where
  "countl_zero n = clz_below n LENGTH('a)"

fun ctz_from :: "'a::len word \<Rightarrow> nat \<Rightarrow> nat \<Rightarrow> nat" where
  "ctz_from n i 0 = 0"
| "ctz_from n i (Suc k) = (if bit n i then 0 else Suc (ctz_from n (Suc i) k))"

definition countr_zero :: "'a::len word \<Rightarrow> nat" where
  "countr_zero n = ctz_from n 0 LENGTH('a)"

definition popcount :: "'a::len word \<Rightarrow> nat" where
  "popcount n = length (filter (bit n) [0..<LENGTH('a)])"

lemma clz_below_spec:
  "clz_below n k \<le> k"
  "k - clz_below n k \<le> i \<Longrightarrow> i < k \<Longrightarrow> \<not> bit n i"
  "clz_below n k < k \<Longrightarrow> bit n (k - 1 - clz_below n k)"
proof (induction k)
  case (Suc k)
  { case 1 show ?case using Suc by simp }
  { case 2 then show ?case using Suc by (cases "i = k") (auto split: if_splits) }
  { case 3 then show ?case using Suc by (auto split: if_splits) }
qed simp_all

lemma ctz_from_spec:
  "ctz_from n i k \<le> k"
  "i \<le> j \<Longrightarrow> j < i + ctz_from n i k \<Longrightarrow> \<not> bit n j"
  "ctz_from n i k < k \<Longrightarrow> bit n (i + ctz_from n i k)"
proof (induction k arbitrary: i)
  case (Suc k)
  { case 1 show ?case using Suc.IH(1) [of "Suc i"] by simp }
  { case 2 then show ?case using Suc.IH(2) [of "Suc i"] by (cases "j = i") (auto split: if_splits) }
  { case 3 then show ?case using Suc.IH(3) [of "Suc i"] by (auto split: if_splits) }
qed simp_all

lemma countl_zero_le: "countl_zero (n :: 'a::len word) \<le> LENGTH('a)"
  by (simp add: countl_zero_def clz_below_spec(1))

lemma countl_zero_bit:
  assumes "n \<noteq> (0 :: 'a::len word)"
  shows "countl_zero n < LENGTH('a)" "bit n (LENGTH('a) - 1 - countl_zero n)"
proof -
  have "\<exists>i < LENGTH('a). bit n i"
    using assms by (metis bit_imp_le_length bit_word_eqI bit_0_eq bot_apply bot_bool_def)
  then show *: "countl_zero n < LENGTH('a)"
    using clz_below_spec(1,2) [where n = n and k = "LENGTH('a)"] unfolding countl_zero_def
    by (metis diff_is_0_eq' le0 le_neq_implies_less order_refl)
  then show "bit n (LENGTH('a) - 1 - countl_zero n)"
    unfolding countl_zero_def by (intro clz_below_spec(3))
qed

lemma countl_zero_above: "LENGTH('a) - countl_zero n \<le> i \<Longrightarrow> \<not> bit (n :: 'a::len word) i"
  using clz_below_spec(2) [where n = n and k = "LENGTH('a)" and i = i] bit_imp_le_length [of n i]
  unfolding countl_zero_def by blast

lemma bits_below_less:
  fixes n :: "'a::len word"
  assumes "\<And>i. k \<le> i \<Longrightarrow> \<not> bit n i"
  shows "unat n < 2 ^ k"
proof -
  have "n = take_bit k n"
    using assms by (intro bit_word_eqI) (auto simp: bit_simps intro: ccontr)
  then show ?thesis
    by (metis take_bit_nat_less_exp unsigned_take_bit_eq)
qed

lemma bit_le_unat:
  fixes n :: "'a::len word"
  assumes "bit n k"
  shows "2 ^ k \<le> unat n"
proof -
  have "bit (unat n) k"
    using assms by (simp add: bit_unsigned_iff)
  then show ?thesis
    by (metis bit_nat_iff div_less even_zero bit_iff_odd not_less)
qed

lemma countl_zero_unat:
  assumes "n \<noteq> (0 :: 'a::len word)"
  shows "2 ^ (LENGTH('a) - 1 - countl_zero n) \<le> unat n" "unat n < 2 ^ (LENGTH('a) - countl_zero n)"
  using bit_le_unat [OF countl_zero_bit(2) [OF assms]]
    bits_below_less [of "LENGTH('a) - countl_zero n" n] countl_zero_above by auto

lemma countl_zero_0 [simp]: "countl_zero (0 :: 'a::len word) = LENGTH('a)"
proof -
  have "clz_below (0 :: 'a word) k = k" for k
    by (induction k) simp_all
  then show ?thesis
    by (simp add: countl_zero_def)
qed

lemma countr_zero_bit:
  assumes "n \<noteq> (0 :: 'a::len word)"
  shows "countr_zero n < LENGTH('a)" "bit n (countr_zero n)"
proof -
  have "\<exists>i < LENGTH('a). bit n i"
    using assms by (metis bit_imp_le_length bit_word_eqI bit_0_eq bot_apply bot_bool_def)
  then show *: "countr_zero n < LENGTH('a)"
    using ctz_from_spec(1,2) [where n = n and i = 0 and k = "LENGTH('a)"] unfolding countr_zero_def
    by (metis add_0 le0 le_neq_implies_less)
  then show "bit n (countr_zero n)"
    using ctz_from_spec(3) [where n = n and i = 0 and k = "LENGTH('a)"] unfolding countr_zero_def by simp
qed

lemma countr_zero_below: "i < countr_zero n \<Longrightarrow> \<not> bit (n :: 'a::len word) i"
  using ctz_from_spec(2) [where n = n and i = 0 and k = "LENGTH('a)" and j = i] by (simp add: countr_zero_def)

lemma countr_zero_0 [simp]: "countr_zero (0 :: 'a::len word) = LENGTH('a)"
proof -
  have "ctz_from (0 :: 'a word) i k = k" for i k
    by (induction k arbitrary: i) simp_all
  then show ?thesis
    by (simp add: countr_zero_def)
qed

section \<open>Powers of two\<close>

definition is_power2 :: "'a::len word \<Rightarrow> bool" where
  "is_power2 n \<longleftrightarrow> n AND (n - 1) = 0"

text \<open>The loop \<open>for (i = 1; i < bits; i <<= 1) n |= (n >> i)\<close>.\<close>

function next_power2_loop :: "nat \<Rightarrow> 'a::len word \<Rightarrow> 'a word" where
  "next_power2_loop i n =
     (if 0 < i \<and> i < LENGTH('a) then next_power2_loop (2 * i) (n OR drop_bit i n) else n)"
  by pat_completeness auto
termination
  by (relation "measure (\<lambda>(i, n :: 'a word). LENGTH('a) - i)") auto

declare next_power2_loop.simps [simp del]

definition next_power2 :: "'a::len word \<Rightarrow> 'a word" where
  "next_power2 n = next_power2_loop 1 (n - 1) + 1"

definition log2_floor :: "'a::len word \<Rightarrow> nat" where
  "log2_floor n = LENGTH('a) - 1 - countl_zero n"

definition mod2 :: "'a::len word \<Rightarrow> 'a word \<Rightarrow> 'a word" where
  "mod2 a b = a AND (b - 1)"

section \<open>Bit reversal\<close>

text \<open>One line of the reversals: exchange the two groups of bits a mask pair selects.\<close>

definition swap_groups :: "'a::len word \<Rightarrow> 'a word \<Rightarrow> nat \<Rightarrow> 'a word \<Rightarrow> 'a word" where
  "swap_groups hi lo s n = drop_bit s (n AND hi) OR push_bit s (n AND lo)"

definition bit_reverse8 :: "8 word \<Rightarrow> 8 word" where
  "bit_reverse8 n = (
     let n = swap_groups 0xF0 0x0F 4 n;
         n = swap_groups 0xCC 0x33 2 n
     in swap_groups 0xAA 0x55 1 n)"

definition bit_reverse16 :: "16 word \<Rightarrow> 16 word" where
  "bit_reverse16 n = (
     let n = swap_groups 0xFF00 0x00FF 8 n;
         n = swap_groups 0xF0F0 0x0F0F 4 n;
         n = swap_groups 0xCCCC 0x3333 2 n
     in swap_groups 0xAAAA 0x5555 1 n)"

definition bit_reverse32 :: "32 word \<Rightarrow> 32 word" where
  "bit_reverse32 n = (
     let n = swap_groups 0xFFFF0000 0x0000FFFF 16 n;
         n = swap_groups 0xFF00FF00 0x00FF00FF 8 n;
         n = swap_groups 0xF0F0F0F0 0x0F0F0F0F 4 n;
         n = swap_groups 0xCCCCCCCC 0x33333333 2 n
     in swap_groups 0xAAAAAAAA 0x55555555 1 n)"

definition bit_reverse64 :: "64 word \<Rightarrow> 64 word" where
  "bit_reverse64 n = (
     let n = swap_groups 0xFFFFFFFF00000000 0x00000000FFFFFFFF 32 n;
         n = swap_groups 0xFFFF0000FFFF0000 0x0000FFFF0000FFFF 16 n;
         n = swap_groups 0xFF00FF00FF00FF00 0x00FF00FF00FF00FF 8 n;
         n = swap_groups 0xF0F0F0F0F0F0F0F0 0x0F0F0F0F0F0F0F0F 4 n;
         n = swap_groups 0xCCCCCCCCCCCCCCCC 0x3333333333333333 2 n
     in swap_groups 0xAAAAAAAAAAAAAAAA 0x5555555555555555 1 n)"

section \<open>Correctness of the helpers\<close>

lemma next_power2_loop_bits:
  fixes n n0 :: "'a::len word"
  assumes "0 < i" "\<And>m. bit n m \<longleftrightarrow> (\<exists>j < i. bit n0 (m + j))"
  shows "bit (next_power2_loop i n) m \<longleftrightarrow> (\<exists>j. bit n0 (m + j))"
  using assms
proof (induction i n rule: next_power2_loop.induct)
  case (1 i n)
  show ?case
  proof (cases "i < LENGTH('a)")
    case True
    have split: "(\<exists>j < 2 * i. P j) \<longleftrightarrow> (\<exists>j < i. P j) \<or> (\<exists>j < i. P (i + j))" for P
    proof
      assume "\<exists>j < 2 * i. P j"
      then obtain j where "j < 2 * i" "P j" by blast
      then show "(\<exists>j < i. P j) \<or> (\<exists>j < i. P (i + j))"
        by (cases "j < i") (auto intro: exI [of _ "j - i"])
    qed (use "1.prems"(1) in force)
    have "bit (n OR drop_bit i n) m \<longleftrightarrow> (\<exists>j < 2 * i. bit n0 (m + j))" for m
      unfolding split using "1.prems"(2)
      by (auto simp: bit_simps ac_simps)
    then show ?thesis
      using "1.IH" "1.prems"(1) True by (subst next_power2_loop.simps) simp
  next
    case False
    then have "(\<exists>j. bit n0 (m + j)) \<longleftrightarrow> (\<exists>j < i. bit n0 (m + j))"
      by (meson bit_imp_le_length le_add2 le_less_trans not_le order_less_le_trans)
    then show ?thesis
      using False "1.prems"(2) by (subst next_power2_loop.simps) simp
  qed
qed

lemma next_power2_exp: "next_power2 (n :: 'a::len word) = 2 ^ (LENGTH('a) - countl_zero (n - 1))"
proof -
  let ?k = "LENGTH('a) - countl_zero (n - 1)"
  have "(\<exists>j. bit (n - 1) (m + j)) \<longleftrightarrow> m < ?k" for m
  proof
    assume "\<exists>j. bit (n - 1) (m + j)"
    then obtain j where "bit (n - 1) (m + j)" by blast
    then show "m < ?k"
      using countl_zero_above [of "n - 1" "m + j"] by linarith
  next
    assume m: "m < ?k"
    then have "n - 1 \<noteq> 0"
      by (intro notI) simp
    then have "bit (n - 1) (m + (?k - 1 - m))"
      using countl_zero_bit(2) [of "n - 1"] m by simp
    then show "\<exists>j. bit (n - 1) (m + j)" ..
  qed
  then have "next_power2_loop 1 (n - 1) = mask ?k"
    by (intro bit_word_eqI) (simp add: next_power2_loop_bits [where n0 = "n - 1"] bit_simps)
  then show ?thesis
    by (simp add: next_power2_def mask_eq_exp_minus_1)
qed

lemma unat_exp_below: "k < LENGTH('a) \<Longrightarrow> unat (2 ^ k :: 'a::len word) = 2 ^ k"
  using unat_of_nat [of "2 ^ k", where 'a = 'a] by (simp add: power_strict_increasing)

lemma is_power2_exp: "is_power2 (2 ^ k :: 'a::len word)"
proof (cases "k < LENGTH('a)")
  case True
  then show ?thesis
    unfolding is_power2_def mask_eq_exp_minus_1 [symmetric]
    by (intro bit_word_eqI) (auto simp: bit_simps)
next
  case False
  then have "(2 :: 'a word) ^ k = 0"
    by simp
  then show ?thesis
    by (simp only: is_power2_def and_zero_eq zero_and_eq)
qed

lemma is_power2_top:
  fixes n :: "'a::len word"
  assumes "n \<noteq> 0" "is_power2 n"
  shows "n = 2 ^ (LENGTH('a) - 1 - countl_zero n)"
proof (rule ccontr)
  let ?k = "LENGTH('a) - 1 - countl_zero n"
  assume neq: "n \<noteq> 2 ^ ?k"
  have k: "?k < LENGTH('a)"
    by (simp add: less_Suc_eq_le)
  have lo: "2 ^ ?k \<le> unat n" "unat n < 2 ^ Suc ?k"
    using countl_zero_unat [OF assms(1)] countl_zero_bit(1) [OF assms(1)]
    by (auto simp: Suc_diff_Suc)
  have "unat n \<noteq> 2 ^ ?k"
    using neq k by (metis unat_exp_below word_unat_eq_iff)
  then have "2 ^ ?k \<le> unat (n - 1)" "unat (n - 1) < 2 ^ Suc ?k"
    using lo assms(1) by (simp_all add: unat_minus_one)
  then have "unat (n - 1) div 2 ^ ?k = 1"
    by (intro div_nat_eqI) simp_all
  then have "bit (unat (n - 1)) ?k"
    by (simp only: bit_iff_odd odd_one not_False_eq_True)
  then have "bit (n AND (n - 1)) ?k"
    using countl_zero_bit(2) [OF assms(1)] by (simp add: bit_simps)
  then show False
    using assms(2) by (simp add: is_power2_def)
qed

lemma bit_swap_groups:
  fixes n :: "'a::len word"
  assumes "\<And>i. i < LENGTH('a) \<Longrightarrow> bit hi i \<longleftrightarrow> odd (i div s)"
    and "\<And>i. i < LENGTH('a) \<Longrightarrow> bit lo i \<longleftrightarrow> even (i div s)"
    and "0 < s" "i < LENGTH('a)" "even (LENGTH('a) div s)" "s dvd LENGTH('a)"
  shows "bit (swap_groups hi lo s n) i = bit n (if odd (i div s) then i - s else i + s)"
proof (cases "odd (i div s)")
  case True
  then have s: "s \<le> i"
    using \<open>0 < s\<close> by (metis div_less even_zero not_less)
  then have "even ((i - s) div s)"
    using True assms(3) by (metis le_add_diff_inverse2 div_add_self2 even_Suc less_not_refl2 Suc_eq_plus1)
  moreover have "\<not> bit (n AND hi) (s + i)"
  proof (cases "s + i < LENGTH('a)")
    case True
    have "even ((s + i) div s)"
      using \<open>odd (i div s)\<close> assms(3) by simp
    then show ?thesis
      using assms(1) [OF True] by (simp add: bit_simps)
  qed (auto simp: bit_simps dest: bit_imp_le_length)
  ultimately show ?thesis
    using True s assms by (auto simp: swap_groups_def bit_simps)
next
  case False
  have "bit (n AND lo) (i - s) = False" if "s \<le> i"
  proof -
    have "odd ((i - s) div s)"
      using that False assms(3) by (metis le_add_diff_inverse2 div_add_self2 even_Suc less_not_refl2 Suc_eq_plus1)
    then show ?thesis
      using assms(2) [of "i - s"] assms(4) by (simp add: bit_simps)
  qed
  moreover have "s + i < LENGTH('a)"
  proof -
    obtain q where q: "LENGTH('a) = s * q" "even q"
      using assms(3,5,6) by (auto elim!: dvdE)
    have "i div s < q"
      using assms(3,4) q(1) by (simp add: less_mult_imp_div_less mult.commute)
    then have "i div s + 1 < q"
      using False q(2) by (metis Suc_eq_plus1 Suc_lessI even_Suc)
    then have "s * (i div s + 2) \<le> LENGTH('a)"
      unfolding q(1) by (intro mult_left_mono) auto
    moreover have "i mod s + s * (i div s) = i" "i mod s < s"
      using assms(3) by simp_all
    ultimately show ?thesis
      by (simp only: add_mult_distrib2)
  qed
  moreover have "odd ((s + i) div s)"
    using False assms(3) by simp
  ultimately show ?thesis
    using False assms by (auto simp: swap_groups_def bit_simps add.commute)
qed

definition groups :: "nat \<Rightarrow> 'a::len word \<Rightarrow> 'a word \<Rightarrow> bool" where
  "groups s hi lo \<longleftrightarrow> 0 < s \<and> s dvd LENGTH('a) \<and> even (LENGTH('a) div s) \<and>
     list_all (\<lambda>i. bit hi i \<longleftrightarrow> odd (i div s)) [0..<LENGTH('a)] \<and>
     list_all (\<lambda>i. bit lo i \<longleftrightarrow> even (i div s)) [0..<LENGTH('a)]"

definition partner :: "nat \<Rightarrow> nat \<Rightarrow> nat" where
  "partner s i = (if odd (i div s) then i - s else i + s)"

lemma swap_groups_partner:
  fixes n :: "'a::len word"
  assumes "groups s hi lo" "i < LENGTH('a)"
  shows "bit (swap_groups hi lo s n) i = bit n (partner s i)"
  using assms bit_swap_groups [of hi s lo i n]
  by (auto simp: groups_def partner_def list_all_iff)

lemma groups_masks:
  "groups 4 (0xF0 :: 8 word) 0x0F" "groups 2 (0xCC :: 8 word) 0x33" "groups 1 (0xAA :: 8 word) 0x55"
  "groups 8 (0xFF00 :: 16 word) 0x00FF" "groups 4 (0xF0F0 :: 16 word) 0x0F0F"
  "groups 2 (0xCCCC :: 16 word) 0x3333" "groups 1 (0xAAAA :: 16 word) 0x5555"
  "groups 16 (0xFFFF0000 :: 32 word) 0x0000FFFF" "groups 8 (0xFF00FF00 :: 32 word) 0x00FF00FF"
  "groups 4 (0xF0F0F0F0 :: 32 word) 0x0F0F0F0F" "groups 2 (0xCCCCCCCC :: 32 word) 0x33333333"
  "groups 1 (0xAAAAAAAA :: 32 word) 0x55555555"
  "groups 32 (0xFFFFFFFF00000000 :: 64 word) 0x00000000FFFFFFFF"
  "groups 16 (0xFFFF0000FFFF0000 :: 64 word) 0x0000FFFF0000FFFF"
  "groups 8 (0xFF00FF00FF00FF00 :: 64 word) 0x00FF00FF00FF00FF"
  "groups 4 (0xF0F0F0F0F0F0F0F0 :: 64 word) 0x0F0F0F0F0F0F0F0F"
  "groups 2 (0xCCCCCCCCCCCCCCCC :: 64 word) 0x3333333333333333"
  "groups 1 (0xAAAAAAAAAAAAAAAA :: 64 word) 0x5555555555555555"
  by code_simp+

lemma partner_orders:
  "list_all (\<lambda>i. partner 1 i < 8 \<and> partner 2 (partner 1 i) < 8 \<and>
     partner 4 (partner 2 (partner 1 i)) = 7 - i) [0..<8]"
  "list_all (\<lambda>i. partner 1 i < 16 \<and> partner 2 (partner 1 i) < 16 \<and>
     partner 4 (partner 2 (partner 1 i)) < 16 \<and>
     partner 8 (partner 4 (partner 2 (partner 1 i))) = 15 - i) [0..<16]"
  "list_all (\<lambda>i. partner 1 i < 32 \<and> partner 2 (partner 1 i) < 32 \<and>
     partner 4 (partner 2 (partner 1 i)) < 32 \<and>
     partner 8 (partner 4 (partner 2 (partner 1 i))) < 32 \<and>
     partner 16 (partner 8 (partner 4 (partner 2 (partner 1 i)))) = 31 - i) [0..<32]"
  "list_all (\<lambda>i. partner 1 i < 64 \<and> partner 2 (partner 1 i) < 64 \<and>
     partner 4 (partner 2 (partner 1 i)) < 64 \<and>
     partner 8 (partner 4 (partner 2 (partner 1 i))) < 64 \<and>
     partner 16 (partner 8 (partner 4 (partner 2 (partner 1 i)))) < 64 \<and>
     partner 32 (partner 16 (partner 8 (partner 4 (partner 2 (partner 1 i))))) = 63 - i) [0..<64]"
  by code_simp+

lemma reversed_bits:
  "i < 8 \<Longrightarrow> bit (bit_reverse8 n8) i = bit n8 (7 - i)"
  "i < 16 \<Longrightarrow> bit (bit_reverse16 n16) i = bit n16 (15 - i)"
  "i < 32 \<Longrightarrow> bit (bit_reverse32 n32) i = bit n32 (31 - i)"
  "i < 64 \<Longrightarrow> bit (bit_reverse64 n64) i = bit n64 (63 - i)"
proof -
  note swap = groups_masks [THEN swap_groups_partner]
  show "i < 8 \<Longrightarrow> bit (bit_reverse8 n8) i = bit n8 (7 - i)"
    using partner_orders(1) by (simp add: bit_reverse8_def Let_def swap list_all_iff del: One_nat_def)
  show "i < 16 \<Longrightarrow> bit (bit_reverse16 n16) i = bit n16 (15 - i)"
    using partner_orders(2) by (simp add: bit_reverse16_def Let_def swap list_all_iff del: One_nat_def)
  show "i < 32 \<Longrightarrow> bit (bit_reverse32 n32) i = bit n32 (31 - i)"
    using partner_orders(3) by (simp add: bit_reverse32_def Let_def swap list_all_iff del: One_nat_def)
  show "i < 64 \<Longrightarrow> bit (bit_reverse64 n64) i = bit n64 (63 - i)"
    using partner_orders(4) by (simp add: bit_reverse64_def Let_def swap list_all_iff del: One_nat_def)
qed

section \<open>Properties\<close>

text \<open>\<open>is_power2\<close> holds of zero and of the powers of two, and of nothing else.\<close>

theorem is_power2_iff: "is_power2 (n :: 'a::len word) \<longleftrightarrow> n = 0 \<or> (\<exists>k < LENGTH('a). n = 2 ^ k)"
proof
  assume *: "is_power2 n"
  have "LENGTH('a) - 1 - countl_zero n < LENGTH('a)"
    by (simp add: less_Suc_eq_le)
  then show "n = 0 \<or> (\<exists>k < LENGTH('a). n = 2 ^ k)"
    using is_power2_top [OF _ *] by blast
qed (auto simp: is_power2_exp, simp add: is_power2_def)

text \<open>\<open>next_power2\<close> is the least power of two not below its argument; the argument
  zero and every argument whose next power of two needs one more bit give zero.\<close>

theorem next_power2_least:
  fixes n :: "'a::len word"
  shows "(if n = 0 \<or> 2 ^ (LENGTH('a) - 1) < unat n then next_power2 n = 0
     else (\<exists>k < LENGTH('a). next_power2 n = 2 ^ k \<and> unat n \<le> 2 ^ k \<and>
       (\<forall>j. unat n \<le> 2 ^ j \<longrightarrow> k \<le> j)))"
proof -
  let ?k = "LENGTH('a) - countl_zero (n - 1)"
  have upper: "unat (n - 1) < 2 ^ ?k"
    by (cases "n - 1 = 0") (simp_all only: countl_zero_unat(2) not_False_eq_True, simp)
  have lower: "2 ^ (?k - 1) \<le> unat (n - 1)" if "0 < ?k"
    using that countl_zero_unat(1) [of "n - 1"] by (cases "n - 1 = 0") auto
  consider "n = 0" | "n \<noteq> 0" "2 ^ (LENGTH('a) - 1) < unat n" | "n \<noteq> 0" "unat n \<le> 2 ^ (LENGTH('a) - 1)"
    by linarith
  then show ?thesis
  proof cases
    case 1
    then have "bit (n - 1) (LENGTH('a) - 1)"
      by simp
    then have "?k = LENGTH('a)"
      using countl_zero_above [of "n - 1" "LENGTH('a) - 1"] countl_zero_le [of "n - 1"]
      by (metis Suc_pred' diff_is_0_eq' diff_le_self le_antisym len_gt_0 not_less_eq_eq)
    then show ?thesis
      using 1 by (simp add: next_power2_exp)
  next
    case 2
    then have "unat (n - 1) = unat n - 1"
      by (simp add: unat_minus_one)
    then have "2 ^ (LENGTH('a) - 1) < (2::nat) ^ ?k"
      using upper 2(2) by linarith
    then have "LENGTH('a) - 1 < ?k"
      by (rule power_less_imp_less_exp [rotated]) simp
    then have "?k = LENGTH('a)"
      by simp
    then show ?thesis
      using 2 by (simp add: next_power2_exp)
  next
    case 3
    have k: "?k < LENGTH('a)"
    proof (rule ccontr)
      assume "\<not> ?k < LENGTH('a)"
      then have "?k = LENGTH('a)"
        by simp
      then show False
        using lower 3 unat_gt_0 [of n] by (simp add: unat_minus_one)
    qed
    have "?k \<le> j" if "unat n \<le> 2 ^ j" for j
    proof (cases "?k = 0")
      case False
      moreover have "unat (n - 1) = unat n - 1" "0 < unat n"
        using 3(1) by (simp_all add: unat_minus_one unat_gt_0)
      ultimately have "(2::nat) ^ (?k - 1) < 2 ^ j"
        using lower that by linarith
      then have "?k - 1 < j"
        by (rule power_less_imp_less_exp [rotated]) simp
      then show ?thesis
        by simp
    qed simp
    moreover have "unat n \<le> 2 ^ ?k"
      using upper 3(1) by (simp add: unat_minus_one)
    ultimately show ?thesis
      using 3 k by (auto simp: next_power2_exp)
  qed
qed

lemma next_power2_least_witness:
  "\<exists>k < 8. next_power2 (5 :: 8 word) = 2 ^ k \<and> (5 :: nat) \<le> 2 ^ k"
  using next_power2_least [of "5 :: 8 word"] by auto

text \<open>\<open>log2\<close> is the floored binary logarithm of every non-zero argument, and \<open>mod2\<close>
  is the remainder by a power of two.\<close>

theorem log2_mod2:
  fixes n a :: "'a::len word"
  shows "(n \<noteq> 0 \<longrightarrow> 2 ^ log2_floor n \<le> unat n \<and> unat n < 2 ^ (log2_floor n + 1)) \<and>
    (k < LENGTH('a) \<longrightarrow> unat (mod2 a (2 ^ k)) = unat a mod 2 ^ k)"
proof (intro conjI impI)
  assume n: "n \<noteq> 0"
  show "2 ^ log2_floor n \<le> unat n"
    using countl_zero_unat(1) [OF n] by (simp add: log2_floor_def)
  show "unat n < 2 ^ (log2_floor n + 1)"
    using countl_zero_unat(2) [OF n] countl_zero_bit(1) [OF n]
    by (simp add: log2_floor_def Suc_diff_Suc)
next
  show "unat (mod2 a (2 ^ k)) = unat a mod 2 ^ k"
    unfolding mod2_def mask_eq_exp_minus_1 [symmetric]
    by (simp add: unsigned_take_bit_eq flip: take_bit_eq_mask take_bit_eq_mod)
qed

lemma log2_mod2_witness:
  "unat (mod2 (77 :: 8 word) (2 ^ 4)) = 13 \<and> 2 ^ log2_floor (77 :: 8 word) \<le> unat (77 :: 8 word)"
  using log2_mod2 [of "77 :: 8 word" 4 77] by simp

text \<open>The four reversals move bit \<open>i\<close> to position \<open>w - 1 - i\<close>, and applying one twice
  is the identity.\<close>

theorem bit_reverse_correct:
  "(bit (bit_reverse8 n8) i \<longleftrightarrow> i < 8 \<and> bit n8 (7 - i)) \<and>
   (bit (bit_reverse16 n16) i \<longleftrightarrow> i < 16 \<and> bit n16 (15 - i)) \<and>
   (bit (bit_reverse32 n32) i \<longleftrightarrow> i < 32 \<and> bit n32 (31 - i)) \<and>
   (bit (bit_reverse64 n64) i \<longleftrightarrow> i < 64 \<and> bit n64 (63 - i)) \<and>
   bit_reverse64 (bit_reverse64 n64) = n64"
proof (intro conjI)
  show "bit (bit_reverse8 n8) i \<longleftrightarrow> i < 8 \<and> bit n8 (7 - i)"
    "bit (bit_reverse16 n16) i \<longleftrightarrow> i < 16 \<and> bit n16 (15 - i)"
    "bit (bit_reverse32 n32) i \<longleftrightarrow> i < 32 \<and> bit n32 (31 - i)"
    "bit (bit_reverse64 n64) i \<longleftrightarrow> i < 64 \<and> bit n64 (63 - i)"
    using reversed_bits(1) [of i n8] reversed_bits(2) [of i n16] reversed_bits(3) [of i n32]
      reversed_bits(4) [of i n64] bit_imp_le_length [of "bit_reverse8 n8" i]
      bit_imp_le_length [of "bit_reverse16 n16" i] bit_imp_le_length [of "bit_reverse32 n32" i]
      bit_imp_le_length [of "bit_reverse64 n64" i] by auto
  show "bit_reverse64 (bit_reverse64 n64) = n64"
    by (intro bit_word_eqI) (simp add: reversed_bits)
qed

end
