(* ===== verification/Limbs.thy ===== *)
theory Limbs
  imports WordBits
begin

text \<open>
  Little-endian arrays of machine words: the number an array denotes, its bits, and
  the facts about carries and masks that the operations of \<open>Bits\<close> share.
\<close>

section \<open>The value of an array\<close>

fun val :: "'a::len word list \<Rightarrow> nat" where
  "val [] = 0"
| "val (x # xs) = unat x + 2 ^ LENGTH('a) * val xs"

lemma unat_less [simp]: "unat (x :: 'a::len word) < 2 ^ LENGTH('a)"
  by (rule unsigned_less)

lemma val_less: "val (xs :: 'a::len word list) < 2 ^ (LENGTH('a) * length xs)"
proof (induction xs)
  case (Cons x xs)
  have "val (x # xs) < 2 ^ LENGTH('a) + 2 ^ LENGTH('a) * val xs"
    by simp
  also have "\<dots> = 2 ^ LENGTH('a) * (val xs + 1)"
    by simp
  also have "\<dots> \<le> 2 ^ LENGTH('a) * 2 ^ (LENGTH('a) * length xs)"
    using Cons.IH by (intro mult_left_mono) auto
  finally show ?case
    by (simp add: power_add)
qed simp

lemma val_append [limb_simps]:
  "val (xs @ ys) = val xs + 2 ^ (LENGTH('a) * length xs) * val (ys :: 'a::len word list)"
  by (induction xs) (simp_all add: power_add algebra_simps)

lemma val_replicate_0 [simp]: "val (replicate k 0) = 0"
  by (induction k) simp_all

lemma val_0_iff: "val xs = 0 \<longleftrightarrow> set xs \<subseteq> {0}"
  by (induction xs) (auto simp: unat_eq_zero)

lemma bit_nat_less: "(n::nat) < 2 ^ k \<Longrightarrow> k \<le> i \<Longrightarrow> \<not> bit n i"
  by (metis bit_take_bit_iff not_less take_bit_nat_eq_self)

lemma bit_add_shifted:
  fixes a b :: nat
  assumes "a < 2 ^ k"
  shows "bit (a + 2 ^ k * b) i \<longleftrightarrow> (if i < k then bit a i else bit b (i - k))"
proof (cases "i < k")
  case True
  then have "2 ^ k = (2::nat) ^ i * 2 ^ (k - i)" "even ((2::nat) ^ (k - i) * b)"
    by (simp_all flip: power_add)
  then have "(a + 2 ^ k * b) div 2 ^ i = a div 2 ^ i + 2 ^ (k - i) * b"
    by (simp add: mult.assoc)
  then show ?thesis
    using True \<open>even ((2::nat) ^ (k - i) * b)\<close> by (simp add: bit_iff_odd)
next
  case False
  then have "(2::nat) ^ i = 2 ^ k * 2 ^ (i - k)"
    by (simp flip: power_add)
  then have "(a + 2 ^ k * b) div 2 ^ i = b div 2 ^ (i - k)"
    using assms by (simp add: div_mult2_eq)
  then show ?thesis
    using False by (simp add: bit_iff_odd)
qed

lemma bit_val:
  "bit (val (xs :: 'a::len word list)) i \<longleftrightarrow>
     i div LENGTH('a) < length xs \<and> bit (xs ! (i div LENGTH('a))) (i mod LENGTH('a))"
proof (induction xs arbitrary: i)
  case (Cons x xs)
  show ?case
  proof (cases "i < LENGTH('a)")
    case True
    then show ?thesis
      by (simp add: bit_add_shifted bit_unsigned_iff)
  next
    case False
    then have "i div LENGTH('a) = Suc ((i - LENGTH('a)) div LENGTH('a))"
      "i mod LENGTH('a) = (i - LENGTH('a)) mod LENGTH('a)"
      by (simp_all add: div_if mod_if)
    then show ?thesis
      using False Cons.IH [of "i - LENGTH('a)"] by (simp add: bit_add_shifted)
  qed
qed simp

lemma bit_val_index:
  "k < LENGTH('a) \<Longrightarrow> bit (val xs) (LENGTH('a) * j + k) \<longleftrightarrow>
     j < length xs \<and> bit (xs ! j) k" for xs :: "'a::len word list"
  by (simp add: bit_val)

lemma val_inject:
  "length xs = length ys \<Longrightarrow> val xs = val ys \<longleftrightarrow> xs = (ys :: 'a::len word list)"
proof (induction xs ys rule: list_induct2)
  case (Cons x xs y ys)
  have "val (x # xs) mod 2 ^ LENGTH('a) = unat x" "val (y # ys) mod 2 ^ LENGTH('a) = unat y"
    "val (x # xs) div 2 ^ LENGTH('a) = val xs" "val (y # ys) div 2 ^ LENGTH('a) = val ys"
    by (simp_all add: div_add1_eq)
  then show ?case
    using Cons.IH by (metis list.inject word_unat_eq_iff)
qed simp

section \<open>The shape of a bitset\<close>

text \<open>\<open>array_size\<close>, \<open>end_mask\<close> and \<open>capacity\<close> of \<open>Bits<N>\<close>; the word width is the length
  of the word type.\<close>

definition array_size :: "'a::len itself \<Rightarrow> nat \<Rightarrow> nat" where
  "array_size _ N = (N + LENGTH('a) - 1) div LENGTH('a)"

definition end_mask :: "nat \<Rightarrow> 'a::len word" where
  "end_mask N = (if N mod LENGTH('a) \<noteq> 0 then push_bit (N mod LENGTH('a)) 1 - 1 else 0)"

definition capacity :: "'a::len itself \<Rightarrow> nat \<Rightarrow> nat" where
  "capacity w N = array_size w N * LENGTH('a)"

text \<open>The representation invariant: the array has its static size and no bit above \<open>N\<close> is
  set.\<close>

definition wf_bits :: "nat \<Rightarrow> 'a::len word list \<Rightarrow> bool" where
  "wf_bits N xs \<longleftrightarrow> length xs = array_size TYPE('a) N \<and> val xs < 2 ^ N"

lemma array_size_cases:
  "N mod LENGTH('a) = 0 \<Longrightarrow> array_size TYPE('a::len) N = N div LENGTH('a)"
  "N mod LENGTH('a) \<noteq> 0 \<Longrightarrow> array_size TYPE('a) N = N div LENGTH('a) + 1"
proof -
  have "N + LENGTH('a) - 1 = (N mod LENGTH('a) + LENGTH('a) - 1) + N div LENGTH('a) * LENGTH('a)"
    by (simp add: algebra_simps Suc_le_eq)
  then have *: "array_size TYPE('a) N = N div LENGTH('a) + (N mod LENGTH('a) + LENGTH('a) - 1) div LENGTH('a)"
    unfolding array_size_def by (metis add.commute div_mult_self1 len_not_eq_0)
  show "array_size TYPE('a) N = N div LENGTH('a)" if "N mod LENGTH('a) = 0"
    using that * by simp
  have "(r + LENGTH('a) - 1) div LENGTH('a) = 1" if "0 < r" "r < LENGTH('a)" for r
    using that by (intro div_nat_eqI) auto
  then show "array_size TYPE('a) N = N div LENGTH('a) + 1" if "N mod LENGTH('a) \<noteq> 0"
    using that * by simp
qed

lemma array_size_bounds:
  "N mod LENGTH('a) = 0 \<Longrightarrow> LENGTH('a) * array_size TYPE('a::len) N = N"
  "N mod LENGTH('a) \<noteq> 0 \<Longrightarrow> LENGTH('a) * (array_size TYPE('a) N - 1) + N mod LENGTH('a) = N"
  "N mod LENGTH('a) \<noteq> 0 \<Longrightarrow> 0 < array_size TYPE('a) N"
  "N \<le> LENGTH('a) * array_size TYPE('a) N"
  "0 < N \<Longrightarrow> 0 < array_size TYPE('a) N"
  "0 < N \<Longrightarrow> LENGTH('a) * (array_size TYPE('a) N - 1) < N"
proof -
  show 1: "N mod LENGTH('a) = 0 \<Longrightarrow> LENGTH('a) * array_size TYPE('a) N = N"
    and 2: "N mod LENGTH('a) \<noteq> 0 \<Longrightarrow> LENGTH('a) * (array_size TYPE('a) N - 1) + N mod LENGTH('a) = N"
    and 3: "N mod LENGTH('a) \<noteq> 0 \<Longrightarrow> 0 < array_size TYPE('a) N"
    by (auto simp: array_size_cases)
  show "N \<le> LENGTH('a) * array_size TYPE('a) N"
  proof (cases "N mod LENGTH('a) = 0")
    case False
    have "N \<le> LENGTH('a) * (array_size TYPE('a) N - 1) + LENGTH('a)"
      using 2 [OF False] mod_less_divisor [OF len_gt_0 [where 'a = 'a], of N] by linarith
    also have "\<dots> = LENGTH('a) * array_size TYPE('a) N"
      using 3 [OF False] by (cases "array_size TYPE('a) N") simp_all
    finally show ?thesis .
  qed (use 1 in simp)
  show pos: "0 < array_size TYPE('a) N" if "0 < N"
    using that 1 3 by (metis mult_0_right neq0_conv)
  show "LENGTH('a) * (array_size TYPE('a) N - 1) < N" if "0 < N"
  proof (cases "N mod LENGTH('a) = 0")
    case True
    then show ?thesis
      using 1 pos [OF that] by (metis diff_less len_gt_0 mult_less_cancel1 zero_less_one)
  next
    case False
    then show ?thesis
      using 2 by linarith
  qed
qed

lemma end_mask_mask: "N mod LENGTH('a) \<noteq> 0 \<Longrightarrow> end_mask N = (mask (N mod LENGTH('a)) :: 'a::len word)"
  by (simp add: end_mask_def mask_eq_exp_minus_1 push_bit_eq_mult)

lemma end_mask_eq_0 [simp]: "end_mask N = (0 :: 'a::len word) \<longleftrightarrow> N mod LENGTH('a) = 0"
proof (cases "N mod LENGTH('a) = 0")
  case False
  then have "bit (end_mask N :: 'a word) 0"
    by (simp add: end_mask_mask bit_simps)
  then show ?thesis
    using False by auto
qed (simp add: end_mask_def)

lemma bit_end_mask:
  "bit (end_mask N :: 'a::len word) i \<longleftrightarrow> i < N mod LENGTH('a)"
proof (cases "N mod LENGTH('a) = 0")
  case False
  then show ?thesis
    by (auto simp: end_mask_mask bit_simps intro: less_trans)
qed (simp add: end_mask_def)

lemma wf_bits_bit: "wf_bits N xs \<Longrightarrow> N \<le> i \<Longrightarrow> \<not> bit (val xs) i"
  unfolding wf_bits_def using bit_nat_less by blast

lemma less_exp_by_bits: "(\<And>i. k \<le> i \<Longrightarrow> \<not> bit n i) \<Longrightarrow> (n::nat) < 2 ^ k"
  by (metis bit_take_bit_iff bit_eqI not_less take_bit_nat_less_exp)

lemma wf_bitsI:
  assumes "length xs = array_size TYPE('a::len) N"
    "\<And>i. N \<le> i \<Longrightarrow> \<not> bit (val (xs :: 'a word list)) i"
  shows "wf_bits N xs"
  using assms less_exp_by_bits by (auto simp: wf_bits_def)

lemma wf_bits_length: "wf_bits N (xs :: 'a::len word list) \<Longrightarrow> length xs = array_size TYPE('a) N"
  by (simp add: wf_bits_def)

text \<open>Equality and order of bitsets are equality and order of their values.\<close>

lemma wf_bits_eq: "wf_bits N xs \<Longrightarrow> wf_bits N ys \<Longrightarrow> val xs = val ys \<longleftrightarrow> xs = ys"
  by (simp add: wf_bits_def val_inject)

text \<open>A loop that fills word \<open>i\<close> of the result from the bits of its arguments.\<close>

lemma bit_val_map:
  fixes f :: "nat \<Rightarrow> 'a::len word"
  shows "bit (val (map f [0..<k])) i \<longleftrightarrow> i div LENGTH('a) < k \<and> bit (f (i div LENGTH('a))) (i mod LENGTH('a))"
  unfolding bit_val by (cases "i div LENGTH('a) < k") simp_all

end
