(* ===== verification/BitOps.thy ===== *)
theory BitOps
  imports Limbs
begin

unbundle bit_operations_syntax

text \<open>
  The bitwise half of \<open>Bits<N>\<close> in \<open>bertrand/bits.h\<close>: the constants, the bitwise
  operators, the shifts in and out of place, filling, flipping, reversal, rotation,
  scanning and the bit proxies.  A bitset is the list of its words; the static
  parameter \<open>N\<close> is the first argument.  A loop over the array that writes in place is
  a fold of list updates in the order of the loop.
\<close>

section \<open>Constants and bitwise operators\<close>

text \<open>\<open>update_by f\<close> is the loop body \<open>buffer[i] = f(buffer, i)\<close>.\<close>

definition update_by :: "('b list \<Rightarrow> nat \<Rightarrow> 'b) \<Rightarrow> 'b list \<Rightarrow> nat \<Rightarrow> 'b list" where
  "update_by f b i = b[i := f b i]"

definition bits_min :: "nat \<Rightarrow> 'a::len word list" where
  "bits_min N = replicate (array_size TYPE('a) N) 0"

text \<open>The number of words the code treats as full: \<open>array_size - (end_mask > 0)\<close>.\<close>

definition full_words :: "'a::len itself \<Rightarrow> nat \<Rightarrow> nat" where
  "full_words w N = array_size w N - of_bool ((end_mask N :: 'a word) > 0)"

definition bits_not :: "nat \<Rightarrow> 'a::len word list \<Rightarrow> 'a word list" where
  "bits_not N xs =
     map (\<lambda>i. NOT (xs ! i)) [0..<full_words TYPE('a) N] @
     (if end_mask N \<noteq> (0 :: 'a word)
      then [NOT (xs ! (array_size TYPE('a) N - 1)) AND end_mask N] else [])"

definition bits_max :: "nat \<Rightarrow> 'a::len word list" where
  "bits_max N = bits_not N (bits_min N)"

definition bits_and :: "nat \<Rightarrow> 'a::len word list \<Rightarrow> 'a word list \<Rightarrow> 'a word list" where
  "bits_and N xs ys = map (\<lambda>i. xs ! i AND ys ! i) [0..<array_size TYPE('a) N]"

definition bits_or :: "nat \<Rightarrow> 'a::len word list \<Rightarrow> 'a word list \<Rightarrow> 'a word list" where
  "bits_or N xs ys = map (\<lambda>i. xs ! i OR ys ! i) [0..<array_size TYPE('a) N]"

definition bits_xor :: "nat \<Rightarrow> 'a::len word list \<Rightarrow> 'a word list \<Rightarrow> 'a word list" where
  "bits_xor N xs ys = map (\<lambda>i. xs ! i XOR ys ! i) [0..<array_size TYPE('a) N]"

definition bits_and_assign :: "nat \<Rightarrow> 'a::len word list \<Rightarrow> 'a word list \<Rightarrow> 'a word list" where
  "bits_and_assign N xs ys =
     foldl (update_by (\<lambda>b i. b ! i AND ys ! i)) xs [0..<array_size TYPE('a) N]"

definition bits_or_assign :: "nat \<Rightarrow> 'a::len word list \<Rightarrow> 'a word list \<Rightarrow> 'a word list" where
  "bits_or_assign N xs ys =
     foldl (update_by (\<lambda>b i. b ! i OR ys ! i)) xs [0..<array_size TYPE('a) N]"

definition bits_xor_assign :: "nat \<Rightarrow> 'a::len word list \<Rightarrow> 'a word list \<Rightarrow> 'a word list" where
  "bits_xor_assign N xs ys =
     foldl (update_by (\<lambda>b i. b ! i XOR ys ! i)) xs [0..<array_size TYPE('a) N]"

definition bits_eq :: "nat \<Rightarrow> 'a::len word list \<Rightarrow> 'a word list \<Rightarrow> bool" where
  "bits_eq N xs ys \<longleftrightarrow> list_all (\<lambda>i. xs ! i = ys ! i) [0..<array_size TYPE('a) N]"

definition bits_to_bool :: "'a::len word list \<Rightarrow> bool" where
  "bits_to_bool xs \<longleftrightarrow> list_ex (\<lambda>x. x \<noteq> 0) xs"

section \<open>Shifts\<close>

definition mask_end :: "nat \<Rightarrow> 'a::len word list \<Rightarrow> 'a word list" where
  "mask_end N b =
     (if end_mask N \<noteq> (0 :: 'a word)
      then b[array_size TYPE('a) N - 1 := b ! (array_size TYPE('a) N - 1) AND end_mask N] else b)"

text \<open>Word \<open>i\<close> of a left shift, from the words \<open>i - whole\<close> and \<open>i - whole - 1\<close> of \<open>b\<close>, and
  of a right shift, from \<open>i + whole\<close> and \<open>i + whole + 1\<close>.\<close>

definition shl_word :: "nat \<Rightarrow> nat \<Rightarrow> 'a::len word list \<Rightarrow> nat \<Rightarrow> 'a word" where
  "shl_word whole partial b i =
     (if partial \<noteq> 0
      then push_bit partial (b ! (i - whole)) OR
        drop_bit (LENGTH('a) - partial) (b ! (i - whole - 1))
      else b ! (i - whole))"

definition shr_word :: "nat \<Rightarrow> nat \<Rightarrow> 'a::len word list \<Rightarrow> nat \<Rightarrow> 'a word" where
  "shr_word whole partial b i =
     (if partial \<noteq> 0
      then drop_bit partial (b ! (i + whole)) OR
        push_bit (LENGTH('a) - partial) (b ! (i + whole + 1))
      else b ! (i + whole))"

text \<open>Out of place.  The guard compares the number of whole words with the bit count \<open>N\<close>
  instead of the array size; past the array the code writes out of bounds.\<close>

definition bits_shl :: "nat \<Rightarrow> 'a::len word list \<Rightarrow> nat \<Rightarrow> 'a word list option" where
  "bits_shl N xs rhs = (
     let whole = rhs div LENGTH('a); partial = rhs mod LENGTH('a);
         n = array_size TYPE('a) N; result = replicate n 0
     in if whole < N
        then let r1 = foldl (update_by (\<lambda>r. shl_word whole partial xs)) result (rev [whole + 1..<n])
             in if whole < n
                then Some (mask_end N (r1[whole := push_bit partial (xs ! 0)]))
                else None
        else Some result)"

definition bits_shr :: "nat \<Rightarrow> 'a::len word list \<Rightarrow> nat \<Rightarrow> 'a word list option" where
  "bits_shr N xs rhs = (
     let whole = rhs div LENGTH('a); partial = rhs mod LENGTH('a);
         n = array_size TYPE('a) N; result = replicate n 0
     in if whole < N
        then if whole < n
             then let r1 = foldl (update_by (\<lambda>r. shr_word whole partial xs)) result [0..<n - whole - 1]
                  in Some (r1[n - whole - 1 := drop_bit partial (xs ! (n - 1))])
             else None
        else Some result)"

text \<open>In place.\<close>

definition bits_shl_assign :: "nat \<Rightarrow> 'a::len word list \<Rightarrow> nat \<Rightarrow> 'a word list" where
  "bits_shl_assign N xs rhs = (
     let whole = rhs div LENGTH('a); partial = rhs mod LENGTH('a); n = array_size TYPE('a) N
     in if whole < n
        then let b1 = foldl (update_by (shl_word whole partial)) xs (rev [whole + 1..<n]);
                 b2 = b1[whole := push_bit partial (b1 ! 0)];
                 b3 = foldl (update_by (\<lambda>b i. 0)) b2 (rev [0..<whole])
             in mask_end N b3
        else replicate n 0)"

definition bits_shr_assign :: "nat \<Rightarrow> 'a::len word list \<Rightarrow> nat \<Rightarrow> 'a word list" where
  "bits_shr_assign N xs rhs = (
     let whole = rhs div LENGTH('a); partial = rhs mod LENGTH('a); n = array_size TYPE('a) N
     in if whole < n
        then let b1 = foldl (update_by (shr_word whole partial)) xs [0..<n - whole - 1];
                 b2 = b1[n - whole - 1 := drop_bit partial (b1 ! (n - 1))]
             in foldl (update_by (\<lambda>b i. 0)) b2 [n - whole..<n]
        else foldl (update_by (\<lambda>b i. 0)) xs [0..<n])"

section \<open>Loops that write in place\<close>

lemma nth_beyond_eq: "length xs = length ys \<Longrightarrow> length xs \<le> j \<Longrightarrow> xs ! j = ys ! j"
proof (induction xs ys arbitrary: j rule: list_induct2)
  case (Cons x xs y ys)
  then show ?case by (cases j) auto
qed simp

lemma length_update_by [simp]: "length (foldl (update_by f) xs is) = length xs"
  by (induction "is" arbitrary: xs) (simp_all add: update_by_def)

lemma foldl_update_desc:
  assumes "n \<le> length xs"
    "\<And>b i. k \<le> i \<Longrightarrow> i < n \<Longrightarrow> (\<And>j. j \<le> i \<Longrightarrow> b ! j = xs ! j) \<Longrightarrow> f b i = f xs i"
    "j < length xs"
  shows "foldl (update_by f) xs (rev [k..<n]) ! j = (if k \<le> j \<and> j < n then f xs j else xs ! j)"
  using assms
proof (induction n arbitrary: xs)
  case (Suc n)
  show ?case
  proof (cases "k \<le> n")
    case True
    define b where "b = update_by f xs n"
    have b: "length b = length xs" "\<And>j. j < n \<Longrightarrow> b ! j = xs ! j" "b ! n = f xs n"
      "\<And>j. n < j \<Longrightarrow> b ! j = xs ! j"
      using Suc.prems(1) by (simp_all add: b_def update_by_def)
    have f_b: "f b i = f xs i" if "k \<le> i" "i < n" for i
      using that b(2) by (intro Suc.prems(2)) auto
    have "foldl (update_by f) b (rev [k..<n]) ! j = (if k \<le> j \<and> j < n then f b j else b ! j)"
    proof (rule Suc.IH)
      fix c i assume i: "k \<le> i" "i < n" and c: "\<And>j. j \<le> i \<Longrightarrow> c ! j = b ! j"
      then have "f c i = f xs i"
        using b(2) by (intro Suc.prems(2)) auto
      then show "f c i = f b i"
        using f_b [OF i] by simp
    qed (use Suc.prems b in auto)
    then show ?thesis
      using True b f_b by (cases "j = n") (auto simp: b_def)
  qed auto
qed simp

lemma foldl_update_asc:
  assumes "n \<le> length xs"
    "\<And>b i. k \<le> i \<Longrightarrow> i < n \<Longrightarrow> length b = length xs \<Longrightarrow>
      (\<And>j. i \<le> j \<Longrightarrow> b ! j = xs ! j) \<Longrightarrow> f b i = f xs i"
    "j < length xs"
  shows "foldl (update_by f) xs [k..<n] ! j = (if k \<le> j \<and> j < n then f xs j else xs ! j)"
  using assms
proof (induction n arbitrary: j)
  case (Suc n)
  show ?case
  proof (cases "k \<le> n")
    case True
    define b where "b = foldl (update_by f) xs [k..<n]"
    have len: "length b = length xs"
      by (simp add: b_def)
    have IH: "b ! j = (if k \<le> j \<and> j < n then f xs j else xs ! j)" if "j < length xs" for j
      unfolding b_def
    proof (rule Suc.IH [OF _ _ that])
      show "n \<le> length xs"
        using Suc.prems(1) by simp
      show "f c i = f xs i" if "k \<le> i" "i < n" "length c = length xs"
        "\<And>j. i \<le> j \<Longrightarrow> c ! j = xs ! j" for c i
        using Suc.prems(2) [OF that(1) less_SucI [OF that(2)] that(3)] that(4) by blast
    qed
    have "b ! j = xs ! j" if "n \<le> j" for j
      using IH [of j] that nth_beyond_eq [OF len, of j] len by (cases "j < length xs") auto
    then have fb: "f b n = f xs n"
      using Suc.prems(2) [OF True lessI len] by blast
    have "update_by f b n ! j = (if k \<le> j \<and> j < Suc n then f xs j else xs ! j)"
      using True IH [OF Suc.prems(3)] len Suc.prems(1,3) fb
      by (cases "j = n") (auto simp: update_by_def)
    then show ?thesis
      using True by (simp add: b_def)
  qed auto
qed simp

section \<open>Positions in the array\<close>

lemma full_words_eq:
  "full_words TYPE('a::len) N =
     (if N mod LENGTH('a) \<noteq> 0 then array_size TYPE('a) N - 1 else array_size TYPE('a) N)"
  by (simp add: full_words_def word_gt_0)

lemma index_div: "i div LENGTH('a::len) < k \<longleftrightarrow> i < LENGTH('a) * k"
  by (simp add: less_mult_imp_div_less div_less_iff_less_mult mult.commute)

lemma index_full: "i div LENGTH('a::len) < full_words TYPE('a) N \<Longrightarrow> i < N"
proof (cases "N mod LENGTH('a) = 0")
  case True
  then show "i div LENGTH('a) < full_words TYPE('a) N \<Longrightarrow> i < N"
    by (simp add: full_words_eq index_div array_size_bounds(1))
next
  case False
  then show "i div LENGTH('a) < full_words TYPE('a) N \<Longrightarrow> i < N"
    using array_size_bounds(2) [OF False] by (simp add: full_words_eq index_div)
qed

lemma index_end:
  assumes "N mod LENGTH('a::len) \<noteq> 0" "i div LENGTH('a) = array_size TYPE('a) N - 1"
  shows "i < N \<longleftrightarrow> i mod LENGTH('a) < N mod LENGTH('a)"
proof -
  have "i = LENGTH('a) * (array_size TYPE('a) N - 1) + i mod LENGTH('a)"
    using assms(2) by (metis mult_div_mod_eq)
  then show ?thesis
    using array_size_bounds(2) [OF assms(1)] by linarith
qed

lemma index_less: "i < N \<Longrightarrow> i div LENGTH('a::len) < array_size TYPE('a) N"
  using array_size_bounds(4) [where 'a = 'a and N = N] by (simp add: index_div)

lemma bit_val_nth:
  fixes zs :: "'a::len word list"
  assumes "length zs = array_size TYPE('a) N" "\<And>i. i < array_size TYPE('a) N \<Longrightarrow> zs ! i = F i"
  shows "bit (val zs) m \<longleftrightarrow>
    m div LENGTH('a) < array_size TYPE('a) N \<and> bit (F (m div LENGTH('a))) (m mod LENGTH('a))"
  using assms by (auto simp: bit_val)

text \<open>A result that is complete in the full words and masked in the last one.\<close>

lemma bit_val_masked:
  fixes f g :: "nat \<Rightarrow> 'a::len word"
  assumes "zs = map f [0..<full_words TYPE('a) N] @
    (if end_mask N \<noteq> (0 :: 'a word) then [f (array_size TYPE('a) N - 1) AND end_mask N] else [])"
  shows "length zs = array_size TYPE('a) N"
    "bit (val zs) m \<longleftrightarrow> m < N \<and> bit (f (m div LENGTH('a))) (m mod LENGTH('a))"
proof -
  show len: "length zs = array_size TYPE('a) N"
    using array_size_bounds(3) [where 'a = 'a and N = N]
    by (auto simp: assms full_words_eq)
  let ?i = "m div LENGTH('a)" and ?k = "m mod LENGTH('a)"
  consider "?i < full_words TYPE('a) N" | "N mod LENGTH('a) \<noteq> 0" "?i = array_size TYPE('a) N - 1"
    | "array_size TYPE('a) N \<le> ?i"
    by (fastforce simp: full_words_eq split: if_splits)
  then show "bit (val zs) m \<longleftrightarrow> m < N \<and> bit (f ?i) ?k"
  proof cases
    case 1
    then show ?thesis
      using index_full [OF 1] by (simp add: bit_val assms nth_append)
  next
    case 2
    then have "full_words TYPE('a) N = ?i"
      by (simp add: full_words_eq)
    then show ?thesis
      using 2 index_end [OF 2] by (auto simp: bit_val assms nth_append bit_simps bit_end_mask)
  next
    case 3
    then show ?thesis
      using index_less [where 'a = 'a and i = m and N = N] len by (auto simp: bit_val)
  qed
qed

lemma mask_end_bits:
  fixes b :: "'a::len word list"
  assumes "length b = array_size TYPE('a) N"
  shows "length (mask_end N b) = array_size TYPE('a) N"
    "bit (val (mask_end N b)) m \<longleftrightarrow> m < N \<and> bit (val b) m"
    "wf_bits N (mask_end N b)" "val (mask_end N b) = take_bit N (val b)"
proof -
  show len: "length (mask_end N b) = array_size TYPE('a) N"
    using assms by (simp add: mask_end_def)
  have "mask_end N b = map ((!) b) [0..<full_words TYPE('a) N] @
    (if end_mask N \<noteq> (0 :: 'a word) then [b ! (array_size TYPE('a) N - 1) AND end_mask N] else [])"
    using array_size_bounds(3) [where 'a = 'a and N = N] assms
    by (intro nth_equalityI)
       (auto simp: mask_end_def full_words_eq nth_append nth_list_update)
  from bit_val_masked(2) [OF this] show bits:
    "bit (val (mask_end N b)) m \<longleftrightarrow> m < N \<and> bit (val b) m" for m
    using index_less [of m N, where 'a = 'a] assms by (auto simp: bit_val)
  show "wf_bits N (mask_end N b)"
    using len bits by (intro wf_bitsI) auto
  show "val (mask_end N b) = take_bit N (val b)"
    by (rule bit_eqI) (simp add: bits bit_simps)
qed

section \<open>Bitwise operators\<close>

lemma bits_min_val [simp]: "val (bits_min N) = 0" "wf_bits N (bits_min N)"
  by (simp_all add: bits_min_def wf_bits_def)

lemma bits_not_bits:
  fixes xs :: "'a::len word list"
  assumes "wf_bits N xs"
  shows "wf_bits N (bits_not N xs)" "bit (val (bits_not N xs)) m \<longleftrightarrow> m < N \<and> \<not> bit (val xs) m"
proof -
  note masked = bit_val_masked [of "bits_not N xs" "\<lambda>i. NOT (xs ! i)" N, OF bits_not_def]
  show bits: "bit (val (bits_not N xs)) m \<longleftrightarrow> m < N \<and> \<not> bit (val xs) m" for m
    using masked(2) [of m] index_less [of m N, where 'a = 'a] wf_bits_length [OF assms]
    by (auto simp: bit_val bit_simps)
  show "wf_bits N (bits_not N xs)"
    using masked(1) bits by (intro wf_bitsI) auto
qed

lemma bits_max_bits:
  "wf_bits N (bits_max N :: 'a::len word list)" "val (bits_max N :: 'a word list) = mask N"
proof -
  show "wf_bits N (bits_max N :: 'a word list)"
    unfolding bits_max_def by (intro bits_not_bits) simp
  show "val (bits_max N :: 'a word list) = mask N"
    unfolding bits_max_def by (rule bit_eqI) (simp add: bits_not_bits bit_simps)
qed

lemma bits_logic_bits:
  fixes xs ys :: "'a::len word list"
  assumes "wf_bits N xs" "wf_bits N ys"
  shows "bit (val (bits_and N xs ys)) m \<longleftrightarrow> bit (val xs) m \<and> bit (val ys) m"
    "bit (val (bits_or N xs ys)) m \<longleftrightarrow> bit (val xs) m \<or> bit (val ys) m"
    "bit (val (bits_xor N xs ys)) m \<longleftrightarrow> bit (val xs) m \<noteq> bit (val ys) m"
  unfolding bits_and_def bits_or_def bits_xor_def bit_val_map using assms
  by (auto simp: bit_val bit_simps wf_bits_length)

lemma bits_logic_wf:
  fixes xs ys :: "'a::len word list"
  assumes "wf_bits N xs" "wf_bits N ys"
  shows "wf_bits N (bits_and N xs ys)" "wf_bits N (bits_or N xs ys)" "wf_bits N (bits_xor N xs ys)"
  using assms by (auto intro!: wf_bitsI simp: bits_logic_bits wf_bits_bit)
    (simp_all add: bits_and_def bits_or_def bits_xor_def)

lemma bits_logic_val:
  fixes xs ys :: "'a::len word list"
  assumes "wf_bits N xs" "wf_bits N ys"
  shows "val (bits_and N xs ys) = val xs AND val ys" "val (bits_or N xs ys) = val xs OR val ys"
    "val (bits_xor N xs ys) = val xs XOR val ys"
  by (rule bit_eqI; simp add: bits_logic_bits [OF assms] bit_simps)+

lemma bits_not_val:
  assumes "wf_bits N xs"
  shows "val (bits_not N xs) = 2 ^ N - 1 - val xs"
proof -
  have "val (bits_not N xs) AND val xs = 0"
    by (rule bit_eqI) (auto simp: bits_not_bits [OF assms] bit_simps)
  then have "val (bits_not N xs) + val xs = val (bits_not N xs) OR val xs"
    by (rule disjunctive_add_eq_or)
  also have "\<dots> = mask N"
    by (intro bit_eqI)
       (use wf_bits_bit [OF assms] in \<open>auto simp: bits_not_bits [OF assms] bit_simps intro: leI ccontr\<close>)
  finally show ?thesis
    by (simp add: mask_eq_exp_minus_1)
qed

lemma bits_eq_val:
  assumes "wf_bits N xs" "wf_bits N ys"
  shows "bits_eq N xs ys \<longleftrightarrow> val xs = val (ys :: 'a::len word list)"
  unfolding wf_bits_eq [OF assms]
  using wf_bits_length [OF assms(1)] wf_bits_length [OF assms(2)]
  by (auto simp: bits_eq_def list_all_iff list_eq_iff_nth_eq)

lemma bits_to_bool_val: "bits_to_bool xs \<longleftrightarrow> val xs \<noteq> 0"
  by (auto simp: bits_to_bool_def list_ex_iff val_0_iff)

lemma update_loop_map:
  assumes "length xs = n" "\<And>b i. b ! i = xs ! i \<Longrightarrow> f b i = f xs i"
  shows "foldl (update_by f) xs [0..<n] = map (f xs) [0..<n]"
proof (rule nth_equalityI)
  fix i assume "i < length (foldl (update_by f) xs [0..<n])"
  then have i: "i < n"
    using assms(1) by simp
  have "foldl (update_by f) xs [0..<n] ! i = (if 0 \<le> i \<and> i < n then f xs i else xs ! i)"
  proof (rule foldl_update_asc)
    fix b :: "'a list" and i
    assume "\<And>j. i \<le> j \<Longrightarrow> b ! j = xs ! j"
    then show "f b i = f xs i"
      by (intro assms(2)) blast
  qed (use assms(1) i in simp_all)
  then show "foldl (update_by f) xs [0..<n] ! i = map (f xs) [0..<n] ! i"
    using i by simp
qed (use assms(1) in simp)

lemma bits_logic_assign:
  fixes xs ys :: "'a::len word list"
  assumes "wf_bits N xs"
  shows "bits_and_assign N xs ys = bits_and N xs ys" "bits_or_assign N xs ys = bits_or N xs ys"
    "bits_xor_assign N xs ys = bits_xor N xs ys"
proof -
  note len = wf_bits_length [OF assms]
  show "bits_and_assign N xs ys = bits_and N xs ys"
    unfolding bits_and_assign_def bits_and_def
    by (rule update_loop_map [where f = "\<lambda>b i. b ! i AND ys ! i", OF len]) simp
  show "bits_or_assign N xs ys = bits_or N xs ys"
    unfolding bits_or_assign_def bits_or_def
    by (rule update_loop_map [where f = "\<lambda>b i. b ! i OR ys ! i", OF len]) simp
  show "bits_xor_assign N xs ys = bits_xor N xs ys"
    unfolding bits_xor_assign_def bits_xor_def
    by (rule update_loop_map [where f = "\<lambda>b i. b ! i XOR ys ! i", OF len]) simp
qed

section \<open>Shifts\<close>

lemma shift_position:
  fixes m W p w :: nat
  assumes "p < w"
  shows "W * w + p \<le> m \<longleftrightarrow> W < m div w \<or> W = m div w \<and> p \<le> m mod w"
    "W * w + p \<le> m \<Longrightarrow> (m - (W * w + p)) div w =
      (if p \<le> m mod w then m div w - W else m div w - W - 1)"
    "W * w + p \<le> m \<Longrightarrow> (m - (W * w + p)) mod w =
      (if p \<le> m mod w then m mod w - p else m mod w + w - p)"
    "(m + (W * w + p)) div w = (if m mod w + p < w then m div w + W else m div w + W + 1)"
    "(m + (W * w + p)) mod w = (if m mod w + p < w then m mod w + p else m mod w + p - w)"
proof -
  define q r where "q = m div w" and "r = m mod w"
  have m: "m = q * w + r" and r: "r < w"
    using assms by (simp_all add: q_def r_def)
  have le: "W * w + p \<le> m \<longleftrightarrow> W < q \<or> W = q \<and> p \<le> r"
  proof (cases W q rule: linorder_cases)
    case less
    then have "(W + 1) * w \<le> q * w"
      by (intro mult_le_mono1) simp
    then show ?thesis
      using less m assms by simp
  next
    case greater
    then have "(q + 1) * w \<le> W * w"
      by (intro mult_le_mono1) simp
    then show ?thesis
      using greater m r by simp
  qed (simp add: m)
  then show "W * w + p \<le> m \<longleftrightarrow> W < m div w \<or> W = m div w \<and> p \<le> m mod w"
    by (simp add: q_def r_def)
  have unique: "(a * w + b) div w = a" "(a * w + b) mod w = b" if "b < w" for a b
    using that by simp_all
  have sub: "m - (W * w + p) = (if p \<le> r then q - W else q - W - 1) * w + (if p \<le> r then r - p else r + w - p)"
    if shifted: "W * w + p \<le> m"
  proof -
    obtain d where d: "q = W + d"
      using shifted le by (metis le_Suc_ex less_or_eq_imp_le)
    show ?thesis
    proof (cases "p \<le> r")
      case False
      then obtain e where "d = Suc e"
        using shifted le d by (cases d) auto
      then show ?thesis
        using False d assms by (simp add: m algebra_simps)
    qed (simp add: m d algebra_simps)
  qed
  show "(m - (W * w + p)) div w = (if p \<le> m mod w then m div w - W else m div w - W - 1)"
    "(m - (W * w + p)) mod w = (if p \<le> m mod w then m mod w - p else m mod w + w - p)"
    if "W * w + p \<le> m"
    unfolding sub [OF that] using r assms
    by (subst unique; fastforce simp: q_def r_def less_imp_diff_less)+
  have add: "m + (W * w + p) = (if r + p < w then q + W else q + W + 1) * w +
    (if r + p < w then r + p else r + p - w)"
    by (simp add: m algebra_simps)
  have small: "(if r + p < w then r + p else r + p - w) < w"
    using r assms by (cases "r + p < w") simp_all
  show "(m + (W * w + p)) div w = (if m mod w + p < w then m div w + W else m div w + W + 1)"
    unfolding add unique(1) [OF small] by (simp add: q_def r_def)
  show "(m + (W * w + p)) mod w = (if m mod w + p < w then m mod w + p else m mod w + p - w)"
    unfolding add unique(2) [OF small] by (simp add: q_def r_def)
qed

text \<open>The words a shift produces, before the last one is masked.\<close>

definition shl_spec :: "nat \<Rightarrow> nat \<Rightarrow> 'a::len word list \<Rightarrow> nat \<Rightarrow> 'a word" where
  "shl_spec W p xs j =
     (if j < W then 0 else if j = W then push_bit p (xs ! 0) else shl_word W p xs j)"

definition shr_spec :: "nat \<Rightarrow> nat \<Rightarrow> 'a::len word list \<Rightarrow> nat \<Rightarrow> 'a word" where
  "shr_spec W p xs j =
     (if j + W + 1 < length xs then shr_word W p xs j
      else if j + W + 1 = length xs then drop_bit p (xs ! (length xs - 1)) else 0)"

lemma shl_spec_bit:
  fixes xs :: "'a::len word list"
  assumes "m div LENGTH('a) < length xs"
  shows "bit (shl_spec (rhs div LENGTH('a)) (rhs mod LENGTH('a)) xs (m div LENGTH('a))) (m mod LENGTH('a))
    \<longleftrightarrow> rhs \<le> m \<and> bit (val xs) (m - rhs)"
proof -
  define W p where "W = rhs div LENGTH('a)" and "p = rhs mod LENGTH('a)"
  have p: "p < LENGTH('a)" and rhs: "rhs = W * LENGTH('a) + p"
    by (simp_all add: W_def p_def)
  note pos = shift_position(1-3) [OF p, of W m]
  have eq: "LENGTH('a) - p + m mod LENGTH('a) = LENGTH('a) + m mod LENGTH('a) - p"
    using p by simp
  show ?thesis
    unfolding W_def [symmetric] p_def [symmetric] unfolding rhs
  proof (cases "W * LENGTH('a) + p \<le> m")
    case True
    then have le: "W \<le> m div LENGTH('a)" and part: "W = m div LENGTH('a) \<Longrightarrow> p \<le> m mod LENGTH('a)"
      using pos(1) by auto
    show "bit (shl_spec W p xs (m div LENGTH('a))) (m mod LENGTH('a)) \<longleftrightarrow>
      W * LENGTH('a) + p \<le> m \<and> bit (val xs) (m - (W * LENGTH('a) + p))"
      using le part assms True
      unfolding bit_val pos(2,3) [OF True]
      by (auto simp: shl_spec_def shl_word_def bit_simps add.commute eq dest: bit_imp_le_length)
  next
    case False
    then show "bit (shl_spec W p xs (m div LENGTH('a))) (m mod LENGTH('a)) \<longleftrightarrow>
      W * LENGTH('a) + p \<le> m \<and> bit (val xs) (m - (W * LENGTH('a) + p))"
      using pos(1) by (auto simp: shl_spec_def bit_simps)
  qed
qed

lemma shr_spec_bit:
  fixes xs :: "'a::len word list"
  shows "bit (shr_spec (rhs div LENGTH('a)) (rhs mod LENGTH('a)) xs (m div LENGTH('a))) (m mod LENGTH('a))
    \<longleftrightarrow> bit (val xs) (m + rhs)"
proof -
  define W p where "W = rhs div LENGTH('a)" and "p = rhs mod LENGTH('a)"
  have p: "p < LENGTH('a)" and rhs: "rhs = W * LENGTH('a) + p"
    by (simp_all add: W_def p_def)
  note pos = shift_position(4,5) [OF p, of m W]
  have last: "xs ! (length xs - Suc 0) = xs ! (W + m div LENGTH('a))"
    if "Suc (W + m div LENGTH('a)) = length xs"
    by (simp flip: that)
  show ?thesis
    unfolding W_def [symmetric] p_def [symmetric] unfolding rhs bit_val pos
    using p mod_less_divisor [OF len_gt_0 [where 'a = 'a], of m]
    by (auto simp: shr_spec_def shr_word_def bit_simps not_less algebra_simps last
        simp del: mod_less_divisor dest: bit_imp_le_length)
qed

lemma shift_words_result:
  fixes zs :: "'a::len word list"
  assumes "length zs = array_size TYPE('a) N" "length xs = array_size TYPE('a) N"
  shows "(\<And>j. j < array_size TYPE('a) N \<Longrightarrow>
      zs ! j = shl_spec (rhs div LENGTH('a)) (rhs mod LENGTH('a)) xs j) \<Longrightarrow>
    bit (val zs) m \<longleftrightarrow> m div LENGTH('a) < array_size TYPE('a) N \<and> rhs \<le> m \<and> bit (val xs) (m - rhs)"
    "(\<And>j. j < array_size TYPE('a) N \<Longrightarrow>
      zs ! j = shr_spec (rhs div LENGTH('a)) (rhs mod LENGTH('a)) xs j) \<Longrightarrow>
    bit (val zs) m \<longleftrightarrow> m div LENGTH('a) < array_size TYPE('a) N \<and> bit (val xs) (m + rhs)"
  using assms by (auto simp: bit_val [of zs] shl_spec_bit shr_spec_bit)

lemma shl_word_cong:
  "W < i \<Longrightarrow> (\<And>j. j \<le> i \<Longrightarrow> b ! j = xs ! j) \<Longrightarrow> shl_word W p b i = shl_word W p xs i"
  by (simp add: shl_word_def)

lemma shr_word_cong:
  "(\<And>j. i \<le> j \<Longrightarrow> b ! j = xs ! j) \<Longrightarrow> shr_word W p b i = shr_word W p xs i"
  by (simp add: shr_word_def)

text \<open>The loops of the shifts, in place and into a fresh array.\<close>

lemma shift_loops:
  assumes "length xs = n" "j < n"
  shows "foldl (update_by (shl_word W p)) xs (rev [W + 1..<n]) ! j =
      (if W < j then shl_word W p xs j else xs ! j)"
    "foldl (update_by (shr_word W p)) xs [0..<n - W - 1] ! j =
      (if j < n - W - 1 then shr_word W p xs j else xs ! j)"
    "length zs = n \<Longrightarrow> foldl (update_by (\<lambda>r. shl_word W p xs)) zs (rev [W + 1..<n]) ! j =
      (if W < j then shl_word W p xs j else zs ! j)"
    "length zs = n \<Longrightarrow> foldl (update_by (\<lambda>r. shr_word W p xs)) zs [0..<n - W - 1] ! j =
      (if j < n - W - 1 then shr_word W p xs j else zs ! j)"
proof -
  have "foldl (update_by (shl_word W p)) xs (rev [W + 1..<n]) ! j =
    (if W + 1 \<le> j \<and> j < n then shl_word W p xs j else xs ! j)"
  proof (rule foldl_update_desc)
    fix b i assume "W + 1 \<le> i" and b: "\<And>j. j \<le> i \<Longrightarrow> b ! j = xs ! j"
    then show "shl_word W p b i = shl_word W p xs i"
      by (intro shl_word_cong [OF _ b]) simp
  qed (use assms in simp_all)
  then show "foldl (update_by (shl_word W p)) xs (rev [W + 1..<n]) ! j =
      (if W < j then shl_word W p xs j else xs ! j)"
    using assms by simp
  have "foldl (update_by (shr_word W p)) xs [0..<n - W - 1] ! j =
    (if 0 \<le> j \<and> j < n - W - 1 then shr_word W p xs j else xs ! j)"
  proof (rule foldl_update_asc)
    fix b i assume b: "\<And>j. i \<le> j \<Longrightarrow> b ! j = xs ! j"
    then show "shr_word W p b i = shr_word W p xs i"
      by (intro shr_word_cong [OF b])
  qed (use assms in simp_all)
  then show "foldl (update_by (shr_word W p)) xs [0..<n - W - 1] ! j =
      (if j < n - W - 1 then shr_word W p xs j else xs ! j)"
    by simp
next
  assume len: "length zs = n"
  have "foldl (update_by (\<lambda>r. shl_word W p xs)) zs (rev [W + 1..<n]) ! j =
    (if W + 1 \<le> j \<and> j < n then shl_word W p xs j else zs ! j)"
    by (rule foldl_update_desc) (use assms len in simp_all)
  then show "foldl (update_by (\<lambda>r. shl_word W p xs)) zs (rev [W + 1..<n]) ! j =
      (if W < j then shl_word W p xs j else zs ! j)"
    using assms by simp
  have "foldl (update_by (\<lambda>r. shr_word W p xs)) zs [0..<n - W - 1] ! j =
    (if 0 \<le> j \<and> j < n - W - 1 then shr_word W p xs j else zs ! j)"
    by (rule foldl_update_asc) (use assms len in simp_all)
  then show "foldl (update_by (\<lambda>r. shr_word W p xs)) zs [0..<n - W - 1] ! j =
      (if j < n - W - 1 then shr_word W p xs j else zs ! j)"
    by simp
qed

lemma zero_loop:
  assumes "n \<le> length b" "j < length b"
  shows "foldl (update_by (\<lambda>b i. 0)) b (rev [k..<n]) ! j = (if k \<le> j \<and> j < n then 0 else b ! j)"
    "foldl (update_by (\<lambda>b i. 0)) b [k..<n] ! j = (if k \<le> j \<and> j < n then 0 else b ! j)"
  by (rule foldl_update_desc foldl_update_asc; use assms in simp)+

lemma bits_shl_assign_words:
  fixes xs :: "'a::len word list"
  assumes "length xs = array_size TYPE('a) N" "rhs div LENGTH('a) < array_size TYPE('a) N"
  shows "\<exists>b. bits_shl_assign N xs rhs = mask_end N b \<and> length b = array_size TYPE('a) N \<and>
    (\<forall>j < array_size TYPE('a) N. b ! j = shl_spec (rhs div LENGTH('a)) (rhs mod LENGTH('a)) xs j)"
proof -
  define W p n where "W = rhs div LENGTH('a)" and "p = rhs mod LENGTH('a)" and "n = array_size TYPE('a) N"
  define b1 where "b1 = foldl (update_by (shl_word W p)) xs (rev [W + 1..<n])"
  define b2 where "b2 = b1[W := push_bit p (b1 ! 0)]"
  define b3 where "b3 = foldl (update_by (\<lambda>b i. 0)) b2 (rev [0..<W])"
  have n: "length xs = n" "W < n"
    using assms by (simp_all add: W_def n_def)
  have len: "length b1 = n" "length b2 = n" "length b3 = n"
    by (simp_all add: b1_def b2_def b3_def n)
  have b1: "b1 ! j = (if W < j then shl_word W p xs j else xs ! j)" if "j < n" for j
    unfolding b1_def using n(1) that by (rule shift_loops(1))
  have b3: "b3 ! j = (if 0 \<le> j \<and> j < W then 0 else b2 ! j)" if "j < n" for j
    unfolding b3_def by (rule zero_loop) (use n len that in auto)
  have "b3 ! j = shl_spec W p xs j" if "j < n" for j
    unfolding b3 [OF that] using that n len b1 [OF that] b1 [of 0]
    by (cases "j = W") (auto simp: b2_def shl_spec_def)
  moreover have "bits_shl_assign N xs rhs = mask_end N b3"
    using n by (simp add: bits_shl_assign_def Let_def W_def p_def n_def b1_def b2_def b3_def)
  ultimately show ?thesis
    using len by (auto simp: W_def p_def n_def)
qed

lemma bits_shr_assign_words:
  fixes xs :: "'a::len word list"
  assumes "length xs = array_size TYPE('a) N" "rhs div LENGTH('a) < array_size TYPE('a) N"
  shows "length (bits_shr_assign N xs rhs) = array_size TYPE('a) N"
    "j < array_size TYPE('a) N \<Longrightarrow> bits_shr_assign N xs rhs ! j =
      shr_spec (rhs div LENGTH('a)) (rhs mod LENGTH('a)) xs j"
proof -
  define W p n where "W = rhs div LENGTH('a)" and "p = rhs mod LENGTH('a)" and "n = array_size TYPE('a) N"
  define b1 where "b1 = foldl (update_by (shr_word W p)) xs [0..<n - W - 1]"
  define b2 where "b2 = b1[n - W - 1 := drop_bit p (b1 ! (n - 1))]"
  define b3 where "b3 = foldl (update_by (\<lambda>b i. 0)) b2 [n - W..<n]"
  have n: "length xs = n" "W < n"
    using assms by (simp_all add: W_def n_def)
  have len: "length b1 = n" "length b2 = n" "length b3 = n"
    by (simp_all add: b1_def b2_def b3_def n)
  have def: "bits_shr_assign N xs rhs = b3"
    using n by (simp add: bits_shr_assign_def Let_def W_def p_def n_def b1_def b2_def b3_def)
  show "length (bits_shr_assign N xs rhs) = array_size TYPE('a) N"
    using def len by (simp add: n_def)
  have b1: "b1 ! j = (if j < n - W - 1 then shr_word W p xs j else xs ! j)" if "j < n" for j
    unfolding b1_def using n(1) that by (rule shift_loops(2))
  have b3: "b3 ! j = (if n - W \<le> j \<and> j < n then 0 else b2 ! j)" if "j < n" for j
    unfolding b3_def by (rule zero_loop) (use n len that in auto)
  show "bits_shr_assign N xs rhs ! j = shr_spec (rhs div LENGTH('a)) (rhs mod LENGTH('a)) xs j"
    if "j < array_size TYPE('a) N"
  proof -
    have j: "j < n"
      using that by (simp add: n_def)
    show ?thesis
      unfolding def b3 [OF j] W_def [symmetric] p_def [symmetric] using j n len b1 [OF j] b1 [of "n - 1"]
      by (cases "j = n - W - 1") (auto simp: b2_def shr_spec_def)
  qed
qed

text \<open>Both in-place shifts are the shifts of the value.\<close>

lemma bits_shl_assign_bits:
  fixes xs :: "'a::len word list"
  assumes "wf_bits N xs"
  shows "bit (val (bits_shl_assign N xs rhs)) m \<longleftrightarrow> m < N \<and> rhs \<le> m \<and> bit (val xs) (m - rhs)"
    "length (bits_shl_assign N xs rhs) = array_size TYPE('a) N"
proof -
  note len = wf_bits_length [OF assms]
  have "(bit (val (bits_shl_assign N xs rhs)) m \<longleftrightarrow> m < N \<and> rhs \<le> m \<and> bit (val xs) (m - rhs)) \<and>
    length (bits_shl_assign N xs rhs) = array_size TYPE('a) N"
  proof (cases "rhs div LENGTH('a) < array_size TYPE('a) N")
    case True
    from bits_shl_assign_words [OF len True] obtain b where
      b: "bits_shl_assign N xs rhs = mask_end N b" "length b = array_size TYPE('a) N"
        "\<And>j. j < array_size TYPE('a) N \<Longrightarrow>
          b ! j = shl_spec (rhs div LENGTH('a)) (rhs mod LENGTH('a)) xs j"
      by blast
    show ?thesis
      using index_less [of m N, where 'a = 'a]
      by (auto simp: b(1) mask_end_bits(1,2) [OF b(2)] shift_words_result(1) [OF b(2) len b(3)])
  next
    case False
    then have "m < N \<Longrightarrow> \<not> rhs \<le> m"
      using index_less [of m N, where 'a = 'a] div_le_mono [of rhs m "LENGTH('a)"] by auto
    then show ?thesis
      using False by (auto simp: bits_shl_assign_def Let_def)
  qed
  then show "bit (val (bits_shl_assign N xs rhs)) m \<longleftrightarrow> m < N \<and> rhs \<le> m \<and> bit (val xs) (m - rhs)"
    "length (bits_shl_assign N xs rhs) = array_size TYPE('a) N"
    by blast+
qed

lemma bits_shr_assign_bits:
  fixes xs :: "'a::len word list"
  assumes len: "length xs = array_size TYPE('a) N"
  shows "bit (val (bits_shr_assign N xs rhs)) m \<longleftrightarrow> bit (val xs) (m + rhs)"
    "length (bits_shr_assign N xs rhs) = array_size TYPE('a) N"
proof -
  have out: "\<not> bit (val xs) i" if "array_size TYPE('a) N \<le> i div LENGTH('a)" for i
    using that len by (simp add: bit_val)
  have "(bit (val (bits_shr_assign N xs rhs)) m \<longleftrightarrow> bit (val xs) (m + rhs)) \<and>
    length (bits_shr_assign N xs rhs) = array_size TYPE('a) N"
  proof (cases "rhs div LENGTH('a) < array_size TYPE('a) N")
    case True
    note words = bits_shr_assign_words [OF len True]
    have "array_size TYPE('a) N \<le> (m + rhs) div LENGTH('a)" if "array_size TYPE('a) N \<le> m div LENGTH('a)"
      using that div_le_mono [of m "m + rhs" "LENGTH('a)"] by simp
    then show ?thesis
      using shift_words_result(2) [OF words(1) len words(2)] words(1) out [of "m + rhs"] by fastforce
  next
    case False
    then have "array_size TYPE('a) N \<le> (m + rhs) div LENGTH('a)"
      using div_le_mono [of rhs "m + rhs" "LENGTH('a)"] by simp
    moreover have "bits_shr_assign N xs rhs = replicate (array_size TYPE('a) N) 0"
      using False len zero_loop(2) [of "length xs" xs _ 0]
      by (intro nth_equalityI) (simp_all add: bits_shr_assign_def Let_def)
    ultimately show ?thesis
      using out by simp
  qed
  then show "bit (val (bits_shr_assign N xs rhs)) m \<longleftrightarrow> bit (val xs) (m + rhs)"
    "length (bits_shr_assign N xs rhs) = array_size TYPE('a) N"
    by blast+
qed

lemma bits_shl_assign_val:
  assumes "wf_bits N xs"
  shows "val (bits_shl_assign N xs rhs) = take_bit N (push_bit rhs (val xs))"
    "wf_bits N (bits_shl_assign N xs rhs)"
proof -
  show "val (bits_shl_assign N xs rhs) = take_bit N (push_bit rhs (val xs))"
    by (rule bit_eqI) (auto simp: bits_shl_assign_bits [OF assms] bit_simps)
  show "wf_bits N (bits_shl_assign N xs rhs)"
    by (intro wf_bitsI) (simp_all add: bits_shl_assign_bits [OF assms])
qed

lemma bits_shr_assign_val:
  assumes "wf_bits N xs"
  shows "val (bits_shr_assign N xs rhs) = drop_bit rhs (val xs)"
    "wf_bits N (bits_shr_assign N xs rhs)"
proof -
  note bits = bits_shr_assign_bits [OF wf_bits_length [OF assms]]
  show "val (bits_shr_assign N xs rhs) = drop_bit rhs (val xs)"
    by (rule bit_eqI) (simp add: bits bit_simps add.commute)
  show "wf_bits N (bits_shr_assign N xs rhs)"
    by (intro wf_bitsI) (use assms in \<open>simp_all add: bits wf_bits_bit\<close>)
qed

lemma array_size_le: "array_size TYPE('a::len) N \<le> N"
proof (cases "N = 0")
  case False
  have "array_size TYPE('a) N - 1 \<le> LENGTH('a) * (array_size TYPE('a) N - 1)"
    using len_gt_0 [where 'a = 'a] by (simp add: Suc_le_eq)
  then show ?thesis
    using array_size_bounds(6) [where 'a = 'a and N = N] False by linarith
qed (simp add: array_size_def)

text \<open>The out-of-place shifts agree with them, except for shifts by at least the array
  size but fewer than \<open>N\<close> whole words, which leave the array.\<close>

lemma bits_shl_eq:
  fixes xs :: "'a::len word list"
  assumes "length xs = array_size TYPE('a) N"
  shows "bits_shl N xs rhs = (if array_size TYPE('a) N \<le> rhs div LENGTH('a) \<and> rhs div LENGTH('a) < N
    then None else Some (bits_shl_assign N xs rhs))"
proof (cases "rhs div LENGTH('a) < array_size TYPE('a) N")
  case True
  define W p n where "W = rhs div LENGTH('a)" and "p = rhs mod LENGTH('a)" and "n = array_size TYPE('a) N"
  define r where "r = (foldl (update_by (\<lambda>r. shl_word W p xs)) (replicate n 0)
    (rev [W + 1..<n]))[W := push_bit p (xs ! 0)]"
  have n: "length xs = n" "W < n"
    using assms True by (simp_all add: W_def n_def)
  have "n \<le> N"
    by (simp add: n_def array_size_le)
  from bits_shl_assign_words [OF assms True] obtain b where
    b: "bits_shl_assign N xs rhs = mask_end N b" "length b = n"
      "\<And>j. j < n \<Longrightarrow> b ! j = shl_spec W p xs j"
    by (auto simp: W_def p_def n_def)
  have "r = b"
  proof (rule nth_equalityI)
    fix j assume "j < length r"
    then have j: "j < n"
      by (simp add: r_def)
    show "r ! j = b ! j"
      unfolding r_def using j n shift_loops(3) [OF n(1) j, of "replicate n 0" W p] b(3) [OF j]
      by (cases "j = W") (auto simp: shl_spec_def)
  qed (simp add: r_def b n)
  then show ?thesis
    using n \<open>n \<le> N\<close> b(1) by (simp add: bits_shl_def Let_def W_def p_def n_def r_def)
next
  case False
  then show ?thesis
    by (simp add: bits_shl_def bits_shl_assign_def Let_def)
qed

lemma bits_shr_eq:
  fixes xs :: "'a::len word list"
  assumes "length xs = array_size TYPE('a) N"
  shows "bits_shr N xs rhs = (if array_size TYPE('a) N \<le> rhs div LENGTH('a) \<and> rhs div LENGTH('a) < N
    then None else Some (bits_shr_assign N xs rhs))"
proof (cases "rhs div LENGTH('a) < array_size TYPE('a) N")
  case True
  define W p n where "W = rhs div LENGTH('a)" and "p = rhs mod LENGTH('a)" and "n = array_size TYPE('a) N"
  define r where "r = (foldl (update_by (\<lambda>r. shr_word W p xs)) (replicate n 0)
    [0..<n - W - 1])[n - W - 1 := drop_bit p (xs ! (n - 1))]"
  have n: "length xs = n" "W < n"
    using assms True by (simp_all add: W_def n_def)
  have "n \<le> N"
    by (simp add: n_def array_size_le)
  note words = bits_shr_assign_words [OF assms True, folded W_def p_def n_def]
  have "r = bits_shr_assign N xs rhs"
  proof (rule nth_equalityI)
    fix j assume "j < length r"
    then have j: "j < n"
      by (simp add: r_def)
    show "r ! j = bits_shr_assign N xs rhs ! j"
      unfolding r_def words(2) [OF j]
      using j n shift_loops(4) [OF n(1) j, of "replicate n 0" W p]
      by (cases "j = n - W - 1") (auto simp: shr_spec_def)
  qed (simp add: r_def words(1))
  then show ?thesis
    using n \<open>n \<le> N\<close> by (simp add: bits_shr_def Let_def W_def p_def n_def r_def)
next
  case False
  have "bits_shr_assign N xs rhs = replicate (array_size TYPE('a) N) 0"
    using False assms zero_loop(2) [of "length xs" xs _ 0]
    by (intro nth_equalityI) (simp_all add: bits_shr_assign_def Let_def)
  then show ?thesis
    using False by (simp add: bits_shr_def Let_def)
qed

section \<open>What the operators compute\<close>

text \<open>On well-formed operands the bitwise operators act on the denoted numbers, keep the
  bits above \<open>N\<close> clear, and the assigning forms agree with the pure ones; equality and the
  conversion to \<open>bool\<close> are those of the numbers.\<close>

theorem bitwise_values:
  fixes xs ys :: "'a::len word list"
  assumes "wf_bits N xs" "wf_bits N ys"
  shows "val (bits_and N xs ys) = val xs AND val ys \<and> val (bits_or N xs ys) = val xs OR val ys \<and>
    val (bits_xor N xs ys) = val xs XOR val ys \<and> val (bits_not N xs) = 2 ^ N - 1 - val xs \<and>
    val (bits_max N :: 'a word list) = 2 ^ N - 1 \<and>
    wf_bits N (bits_and N xs ys) \<and> wf_bits N (bits_or N xs ys) \<and> wf_bits N (bits_xor N xs ys) \<and>
    wf_bits N (bits_not N xs) \<and>
    bits_and_assign N xs ys = bits_and N xs ys \<and> bits_or_assign N xs ys = bits_or N xs ys \<and>
    bits_xor_assign N xs ys = bits_xor N xs ys \<and>
    (bits_eq N xs ys \<longleftrightarrow> val xs = val ys) \<and> (bits_to_bool xs \<longleftrightarrow> val xs \<noteq> 0)"
proof -
  have "val (bits_not N xs) = 2 ^ N - 1 - val xs"
    by (rule bits_not_val [OF assms(1)])
  moreover have "bits_eq N xs ys \<longleftrightarrow> val xs = val ys"
    by (rule bits_eq_val [OF assms])
  ultimately show ?thesis
    using assms by (simp add: bits_logic_val bits_logic_wf bits_logic_assign bits_not_bits(1)
        bits_max_bits mask_eq_exp_minus_1 bits_to_bool_val)
qed

lemma bitwise_values_witness:
  "wf_bits 12 [0xF0, 0x0A :: 8 word] \<and>
   val (bits_not 12 [0xF0, 0x0A :: 8 word]) = 2 ^ 12 - 1 - val [0xF0, 0x0A :: 8 word]"
  using bitwise_values [of 12 "[0xF0, 0x0A :: 8 word]" "[0xF0, 0x0A :: 8 word]"]
  by (simp add: wf_bits_def array_size_def)

text \<open>C22.  The shifts in place multiply by a power of two modulo \<open>2 ^ N\<close>, and divide by
  one rounding down, for every shift amount.\<close>

theorem shifts_in_place:
  fixes xs :: "'a::len word list"
  assumes "wf_bits N xs"
  shows "val (bits_shl_assign N xs rhs) = (val xs * 2 ^ rhs) mod 2 ^ N \<and>
    val (bits_shr_assign N xs rhs) = val xs div 2 ^ rhs \<and>
    wf_bits N (bits_shl_assign N xs rhs) \<and> wf_bits N (bits_shr_assign N xs rhs)"
  using assms by (simp add: bits_shl_assign_val bits_shr_assign_val take_bit_eq_mod
      push_bit_eq_mult drop_bit_eq_div)

lemma shifts_in_place_witness:
  "wf_bits 20 [0xF1, 0x23, 0x04 :: 8 word] \<and>
   val (bits_shl_assign 20 [0xF1, 0x23, 0x04 :: 8 word] 9) = (val [0xF1, 0x23, 0x04 :: 8 word] * 2 ^ 9) mod 2 ^ 20"
  using shifts_in_place [of 20 "[0xF1, 0x23, 0x04 :: 8 word]" 9]
  by (simp add: wf_bits_def array_size_def)

text \<open>The out-of-place shifts agree with the ones in place, except that a shift by at
  least the capacity but by fewer than \<open>N\<close> whole words writes outside the array.\<close>

theorem shifts_out_of_place:
  fixes xs :: "'a::len word list"
  assumes "wf_bits N xs"
  shows "(bits_shl N xs rhs = None \<longleftrightarrow> capacity TYPE('a) N \<le> rhs \<and> rhs < N * LENGTH('a)) \<and>
    (bits_shr N xs rhs = None \<longleftrightarrow> capacity TYPE('a) N \<le> rhs \<and> rhs < N * LENGTH('a)) \<and>
    (\<forall>ys. bits_shl N xs rhs = Some ys \<longrightarrow> ys = bits_shl_assign N xs rhs) \<and>
    (\<forall>ys. bits_shr N xs rhs = Some ys \<longrightarrow> ys = bits_shr_assign N xs rhs)"
proof -
  have "array_size TYPE('a) N \<le> rhs div LENGTH('a) \<longleftrightarrow> capacity TYPE('a) N \<le> rhs"
    by (simp add: capacity_def less_eq_div_iff_mult_less_eq)
  moreover have "rhs div LENGTH('a) < N \<longleftrightarrow> rhs < N * LENGTH('a)"
    by (simp add: div_less_iff_less_mult)
  ultimately show ?thesis
    using wf_bits_length [OF assms] by (simp add: bits_shl_eq bits_shr_eq)
qed

lemma shifts_out_of_place_witness:
  "wf_bits 16 [0xF1, 0x23 :: 8 word] \<and> bits_shl 16 [0xF1, 0x23 :: 8 word] 16 = None"
  using shifts_out_of_place [of 16 "[0xF1, 0x23 :: 8 word]" 16]
  by (simp add: wf_bits_def array_size_def capacity_def)

end
