(* ===== verification/BitScan.thy ===== *)
theory BitScan
  imports BitOps
begin

text \<open>
  The queries of \<open>Bits<N>\<close>: \<open>any\<close>, \<open>all\<close>, \<open>count\<close>, the searches for the first and the
  last one or zero, their versions for a slice (which take the mask of the slice), the
  most significant bit, and the access to single bits with the proxy that a mutable
  access returns.
\<close>

section \<open>Whole set\<close>

definition bits_any :: "nat \<Rightarrow> 'a::len word list \<Rightarrow> bool" where
  "bits_any N xs \<longleftrightarrow> list_ex (\<lambda>i. xs ! i \<noteq> 0) [0..<array_size TYPE('a) N]"

definition bits_all :: "nat \<Rightarrow> 'a::len word list \<Rightarrow> bool" where
  "bits_all N xs \<longleftrightarrow>
     list_all (\<lambda>i. xs ! i = - 1) [0..<full_words TYPE('a) N] \<and>
     (if end_mask N \<noteq> (0 :: 'a word) then xs ! (array_size TYPE('a) N - 1) = end_mask N else True)"

definition bits_count :: "nat \<Rightarrow> 'a::len word list \<Rightarrow> nat" where
  "bits_count N xs = foldl (\<lambda>count i. count + popcount (xs ! i)) 0 [0..<array_size TYPE('a) N]"

text \<open>The two scanning loops, over the word that \<open>f\<close> computes for each index.  A word
  without a one makes \<open>countr_zero\<close> and \<open>countl_zero\<close> return the word size.\<close>

fun first_set :: "(nat \<Rightarrow> 'a::len word) \<Rightarrow> nat list \<Rightarrow> nat option" where
  "first_set f [] = None"
| "first_set f (i # is) = (
     let j = countr_zero (f i)
     in if j < LENGTH('a) then Some (LENGTH('a) * i + j) else first_set f is)"

fun last_set :: "(nat \<Rightarrow> 'a::len word) \<Rightarrow> nat list \<Rightarrow> nat option" where
  "last_set f [] = None"
| "last_set f (i # is) = (
     let j = countl_zero (f i)
     in if j < LENGTH('a) then Some (LENGTH('a) * i + LENGTH('a) - 1 - j) else last_set f is)"

definition first_one :: "nat \<Rightarrow> 'a::len word list \<Rightarrow> nat option" where
  "first_one N xs = first_set (\<lambda>i. xs ! i) [0..<array_size TYPE('a) N]"

definition last_one :: "nat \<Rightarrow> 'a::len word list \<Rightarrow> nat option" where
  "last_one N xs = last_set (\<lambda>i. xs ! i) (rev [0..<array_size TYPE('a) N])"

text \<open>\<open>countr_one x\<close> and \<open>countl_one x\<close> count the zeros of the complement.  \<open>first_zero\<close>
  does not mask the last word.\<close>

definition first_zero :: "nat \<Rightarrow> 'a::len word list \<Rightarrow> nat option" where
  "first_zero N xs = first_set (\<lambda>i. NOT (xs ! i)) [0..<array_size TYPE('a) N]"

definition last_zero :: "nat \<Rightarrow> 'a::len word list \<Rightarrow> nat option" where
  "last_zero N xs = (
     let n = array_size TYPE('a) N;
         j = countl_zero (NOT (xs ! (n - 1) OR NOT (end_mask N)))
     in if end_mask N \<noteq> (0 :: 'a word) \<and> j < LENGTH('a)
        then Some (LENGTH('a) * (n - 1) + LENGTH('a) - 1 - j)
        else last_set (\<lambda>i. NOT (xs ! i)) (rev [0..<full_words TYPE('a) N]))"

definition msb_is_set :: "nat \<Rightarrow> 'a::len word list \<Rightarrow> bool" where
  "msb_is_set N xs \<longleftrightarrow> (
     if end_mask N \<noteq> (0 :: 'a word)
     then push_bit (N mod LENGTH('a) - 1) 1 \<le> xs ! (array_size TYPE('a) N - 1)
     else push_bit (LENGTH('a) - 1) 1 \<le> xs ! (array_size TYPE('a) N - 1))"

section \<open>Slices\<close>

definition slice_any :: "nat \<Rightarrow> 'a::len word list \<Rightarrow> 'a word list \<Rightarrow> bool" where
  "slice_any N xs ms \<longleftrightarrow> bits_to_bool (bits_and N xs ms)"

definition slice_all :: "nat \<Rightarrow> 'a::len word list \<Rightarrow> 'a word list \<Rightarrow> bool" where
  "slice_all N xs ms \<longleftrightarrow> bits_eq N (bits_and N xs ms) ms"

definition slice_count :: "nat \<Rightarrow> 'a::len word list \<Rightarrow> 'a word list \<Rightarrow> nat" where
  "slice_count N xs ms =
     foldl (\<lambda>count i. count + popcount (xs ! i AND ms ! i)) 0 [0..<array_size TYPE('a) N]"

definition slice_first_one :: "nat \<Rightarrow> 'a::len word list \<Rightarrow> 'a word list \<Rightarrow> nat option" where
  "slice_first_one N xs ms = first_set (\<lambda>i. xs ! i AND ms ! i) [0..<array_size TYPE('a) N]"

definition slice_last_one :: "nat \<Rightarrow> 'a::len word list \<Rightarrow> 'a word list \<Rightarrow> nat option" where
  "slice_last_one N xs ms = last_set (\<lambda>i. xs ! i AND ms ! i) (rev [0..<array_size TYPE('a) N])"

definition slice_first_zero :: "nat \<Rightarrow> 'a::len word list \<Rightarrow> 'a word list \<Rightarrow> nat option" where
  "slice_first_zero N xs ms = first_set (\<lambda>i. NOT (xs ! i AND ms ! i)) [0..<array_size TYPE('a) N]"

definition slice_last_zero :: "nat \<Rightarrow> 'a::len word list \<Rightarrow> 'a word list \<Rightarrow> nat option" where
  "slice_last_zero N xs ms =
     last_set (\<lambda>i. NOT (xs ! i OR NOT (ms ! i))) (rev [0..<array_size TYPE('a) N])"

section \<open>Single bits\<close>

text \<open>The proxy is a pointer to a word and the index of a bit in it; its operations update
  the word.\<close>

record bit_reference =
  ref_word :: nat
  ref_index :: nat

definition ref_get :: "'a::len word list \<Rightarrow> bit_reference \<Rightarrow> bool" where
  "ref_get xs r \<longleftrightarrow> xs ! ref_word r AND push_bit (ref_index r) 1 \<noteq> 0"

definition ref_set :: "'a::len word list \<Rightarrow> bit_reference \<Rightarrow> bool \<Rightarrow> 'a word list" where
  "ref_set xs r x = xs[ref_word r :=
     (xs ! ref_word r AND NOT (push_bit (ref_index r) 1)) OR push_bit (ref_index r) (of_bool x)]"

definition ref_or :: "'a::len word list \<Rightarrow> bit_reference \<Rightarrow> bool \<Rightarrow> 'a word list" where
  "ref_or xs r x = xs[ref_word r := xs ! ref_word r OR push_bit (ref_index r) (of_bool x)]"

definition ref_and :: "'a::len word list \<Rightarrow> bit_reference \<Rightarrow> bool \<Rightarrow> 'a word list" where
  "ref_and xs r x = xs[ref_word r := xs ! ref_word r AND push_bit (ref_index r) (of_bool x)]"

definition ref_xor :: "'a::len word list \<Rightarrow> bit_reference \<Rightarrow> bool \<Rightarrow> 'a word list" where
  "ref_xor xs r x = xs[ref_word r := xs ! ref_word r XOR push_bit (ref_index r) (of_bool x)]"

text \<open>Python-style normalisation of a run-time index.  Only a debug build checks it.\<close>

definition normalize_index :: "bool \<Rightarrow> int \<Rightarrow> int \<Rightarrow> int res" where
  "normalize_index debug sz i = (
     let j = i + sz * of_bool (i < 0)
     in if debug \<and> (j < 0 \<or> sz \<le> j) then Inl IndexError else Inr j)"

text \<open>\<open>at\<close> returns the position of the iterator, \<open>None\<close> for the end iterator.\<close>

definition bits_at :: "nat \<Rightarrow> int \<Rightarrow> int option" where
  "bits_at N index = (
     let i = index + int N * of_bool (index < 0)
     in if i < 0 \<or> int N \<le> i then None else Some i)"

text \<open>\<open>operator[]\<close>, in its mutable form (which makes a proxy) and its constant form.  An
  access outside the array is undefined behaviour.\<close>

definition bits_ref :: "'a::len itself \<Rightarrow> bool \<Rightarrow> nat \<Rightarrow> int \<Rightarrow> bit_reference res" where
  "bits_ref w debug N i = bind_res (normalize_index debug (int N) i) (\<lambda>j.
     if 0 \<le> j \<and> nat j div LENGTH('a) < array_size w N
     then Inr \<lparr>ref_word = nat j div LENGTH('a), ref_index = nat j mod LENGTH('a)\<rparr>
     else Inl Undefined)"

definition bits_index :: "bool \<Rightarrow> nat \<Rightarrow> 'a::len word list \<Rightarrow> int \<Rightarrow> bool res" where
  "bits_index debug N xs i = bind_res (normalize_index debug (int N) i) (\<lambda>j.
     if 0 \<le> j \<and> nat j div LENGTH('a) < array_size TYPE('a) N
     then Inr (xs ! (nat j div LENGTH('a)) AND push_bit (nat j mod LENGTH('a)) 1 \<noteq> 0)
     else Inl Undefined)"

text \<open>\<open>get<I>\<close> compiles only for an index that is valid after normalisation.\<close>

definition bits_get :: "nat \<Rightarrow> 'a::len word list \<Rightarrow> int \<Rightarrow> bool option" where
  "bits_get N xs i = (
     let j = i + int N * of_bool (i < 0)
     in if 0 \<le> j \<and> j < int N
        then Some (xs ! (nat j div LENGTH('a)) AND push_bit (nat j mod LENGTH('a)) 1 \<noteq> 0)
        else None)"

section \<open>The scanning loops\<close>

text \<open>Position \<open>m\<close> of the words that \<open>f\<close> computes.\<close>

definition word_bit :: "(nat \<Rightarrow> 'a::len word) \<Rightarrow> nat \<Rightarrow> bool" where
  "word_bit f m \<longleftrightarrow> bit (f (m div LENGTH('a))) (m mod LENGTH('a))"

lemma countr_zero_less [simp]: "countr_zero (x :: 'a::len word) < LENGTH('a) \<longleftrightarrow> x \<noteq> 0"
  using countr_zero_bit(1) [of x] by (cases "x = 0") auto

lemma countl_zero_less [simp]: "countl_zero (x :: 'a::len word) < LENGTH('a) \<longleftrightarrow> x \<noteq> 0"
  using countl_zero_bit(1) [of x] by (cases "x = 0") auto

lemma first_set_spec:
  fixes f :: "nat \<Rightarrow> 'a::len word"
  shows "first_set f [k..<n] = Some m \<Longrightarrow> k \<le> m div LENGTH('a) \<and> m div LENGTH('a) < n \<and>
      word_bit f m \<and> (\<forall>j < m. k \<le> j div LENGTH('a) \<longrightarrow> \<not> word_bit f j)"
    "first_set f [k..<n] = None \<Longrightarrow> k \<le> j div LENGTH('a) \<Longrightarrow> j div LENGTH('a) < n \<Longrightarrow> \<not> word_bit f j"
proof (induction "n - k" arbitrary: k)
  case (Suc d)
  have k: "k < n"
    using Suc.hyps(3) by simp
  have d: "d = n - Suc k"
    using Suc.hyps(3) by simp
  have step: "first_set f [k..<n] = (if f k \<noteq> 0 then Some (LENGTH('a) * k + countr_zero (f k))
    else first_set f [Suc k..<n])"
    using k by (simp add: upt_conv_Cons Let_def)
  have zero: "\<not> word_bit f j" if "f k = 0" "j div LENGTH('a) = k" for j
    using that by (simp add: word_bit_def)
  { case 1
    show ?case
    proof (cases "f k = 0")
      case True
      then have "first_set f [Suc k..<n] = Some m"
        using 1 step by simp
      from Suc.hyps(1) [OF d this] show ?thesis
        using zero [OF True] by (metis Suc_leD Suc_leI le_neq_implies_less)
    next
      case False
      then have m: "m = LENGTH('a) * k + countr_zero (f k)"
        using 1 step by simp
      have "\<not> word_bit f j" if "j < m" "k \<le> j div LENGTH('a)" for j
      proof -
        have "j = LENGTH('a) * (j div LENGTH('a)) + j mod LENGTH('a)"
          by simp
        moreover have "j div LENGTH('a) = k"
          using that m False countr_zero_bit(1) [OF False] div_le_mono [of j m "LENGTH('a)"] by simp
        ultimately have "j mod LENGTH('a) < countr_zero (f k)"
          using that(1) m by simp
        then show ?thesis
          using \<open>j div LENGTH('a) = k\<close> by (simp add: word_bit_def countr_zero_below)
      qed
      then show ?thesis
        using m False k countr_zero_bit [OF False] by (simp add: word_bit_def)
    qed
  next
    case 2
    show ?case
    proof (cases "f k = 0")
      case True
      then have "first_set f [Suc k..<n] = None"
        using 2 step by simp
      from Suc.hyps(2) [OF d this] show ?thesis
        using zero [OF True, of j] 2 by (cases "j div LENGTH('a) = k") auto
    qed (use 2 step in simp)
  }
qed simp_all

lemma last_set_spec:
  fixes f :: "nat \<Rightarrow> 'a::len word"
  shows "last_set f (rev [0..<n]) = Some m \<Longrightarrow> m div LENGTH('a) < n \<and>
      word_bit f m \<and> (\<forall>j > m. j div LENGTH('a) < n \<longrightarrow> \<not> word_bit f j)"
    "last_set f (rev [0..<n]) = None \<Longrightarrow> j div LENGTH('a) < n \<Longrightarrow> \<not> word_bit f j"
proof (induction n)
  case (Suc n)
  have step: "last_set f (rev [0..<Suc n]) = (if f n \<noteq> 0
    then Some (LENGTH('a) * n + LENGTH('a) - 1 - countl_zero (f n)) else last_set f (rev [0..<n]))"
    by (simp add: Let_def)
  have zero: "\<not> word_bit f j" if "f n = 0" "j div LENGTH('a) = n" for j
    using that by (simp add: word_bit_def)
  { case 1
    show ?case
    proof (cases "f n = 0")
      case True
      then show ?thesis
        using 1 step Suc.IH(1) zero [OF True] by (metis less_Suc_eq)
    next
      case False
      define c where "c = LENGTH('a) - 1 - countl_zero (f n)"
      have c: "c < LENGTH('a)" "bit (f n) c" "LENGTH('a) - countl_zero (f n) = Suc c"
        using countl_zero_bit [OF False] unfolding c_def by linarith+
      then have m: "m = LENGTH('a) * n + c"
        using 1 step False countl_zero_bit(1) [OF False] by (simp add: c_def)
      have "\<not> word_bit f j" if "m < j" "j div LENGTH('a) < Suc n" for j
      proof -
        have "j = LENGTH('a) * (j div LENGTH('a)) + j mod LENGTH('a)"
          by simp
        moreover have "j div LENGTH('a) = n"
          using that m c(1) div_le_mono [of m j "LENGTH('a)"] by simp
        ultimately have "c < j mod LENGTH('a)"
          using that(1) m by (metis nat_add_left_cancel_less)
        then show ?thesis
          using countl_zero_above [of "f n" "j mod LENGTH('a)"] c(3) \<open>j div LENGTH('a) = n\<close>
          by (simp add: word_bit_def)
      qed
      then show ?thesis
        using m c by (simp add: word_bit_def)
    qed
  next
    case 2
    then show ?case
      using step Suc.IH(2) zero [of j] by (cases "f n = 0") (auto simp: less_Suc_eq)
  }
qed simp_all

lemma first_set_eqs:
  fixes f :: "nat \<Rightarrow> 'a::len word"
  assumes "\<And>m. P m \<longleftrightarrow> m div LENGTH('a) < n \<and> word_bit f m"
  shows "first_set f [0..<n] = (if \<exists>m. P m then Some (LEAST m. P m) else None)"
proof (cases "first_set f [0..<n]")
  case None
  then show ?thesis
    using first_set_spec(2) [OF None] assms by auto
next
  case (Some m)
  have "P m" "\<And>j. j < m \<Longrightarrow> \<not> P j"
    using first_set_spec(1) [OF Some] assms by auto
  then show ?thesis
    using Some by (metis LeastI not_less_Least not_less_iff_gr_or_eq)
qed

lemma last_set_eqs:
  fixes f :: "nat \<Rightarrow> 'a::len word"
  assumes "\<And>m. P m \<longleftrightarrow> m div LENGTH('a) < n \<and> word_bit f m"
  shows "last_set f (rev [0..<n]) = (if \<exists>m. P m then Some (GREATEST m. P m) else None)"
proof (cases "last_set f (rev [0..<n])")
  case None
  then show ?thesis
    using last_set_spec(2) [OF None] assms by auto
next
  case (Some m)
  have m: "P m" "\<And>j. m < j \<Longrightarrow> \<not> P j"
    using last_set_spec(1) [OF Some] assms by auto
  then have "(GREATEST m. P m) = m"
    by (intro Greatest_equality) (auto simp: not_less [symmetric])
  then show ?thesis
    using m(1) Some by auto
qed

section \<open>Counting\<close>

lemma popcount_card: "popcount (x :: 'a::len word) = card {i. bit x i}"
proof -
  have "{i. bit x i} = set (filter (bit x) [0..<LENGTH('a)])"
    by (auto dest: bit_imp_le_length)
  then show ?thesis
    by (simp only: popcount_def) (metis distinct_card distinct_filter distinct_upt)
qed

lemma finite_bits_nat: "finite {i. bit (n :: nat) i}"
proof (rule finite_subset)
  show "{i. bit n i} \<subseteq> {..<n}"
    using bit_nat_less [of n] less_exp by (metis (mono_tags) lessThan_iff mem_Collect_eq not_less subsetI)
qed simp

lemma card_bits_val:
  "card {i. bit (val (xs :: 'a::len word list)) i} = sum_list (map popcount xs)"
proof (induction xs)
  case (Cons x xs)
  let ?high = "(\<lambda>i. i + LENGTH('a)) ` {i. bit (val xs) i}"
  have "{i. bit (val (x # xs)) i} = {i. bit x i} \<union> ?high"
  proof (intro set_eqI)
    fix i
    show "i \<in> {i. bit (val (x # xs)) i} \<longleftrightarrow> i \<in> {i. bit x i} \<union> ?high"
      by (cases "i < LENGTH('a)")
         (auto simp: bit_add_shifted bit_unsigned_iff image_iff not_less dest: bit_imp_le_length
           intro!: exI [of _ "i - LENGTH('a)"])
  qed
  moreover have "{i. bit x i} \<inter> ?high = {}"
    by (auto dest: bit_imp_le_length)
  moreover have "finite {i. bit x i}"
    by (rule finite_subset [of _ "{..<LENGTH('a)}"]) (auto dest: bit_imp_le_length)
  ultimately have "card {i. bit (val (x # xs)) i} = card {i. bit x i} + card ?high"
    using finite_bits_nat by (simp add: card_Un_disjoint)
  also have "card ?high = card {i. bit (val xs) i}"
    by (rule card_image) simp
  finally show ?case
    by (simp add: Cons.IH popcount_card)
qed simp

lemma count_loop: "foldl (\<lambda>c i. c + f i) 0 [0..<n] = sum_list (map f [0..<n])" for f :: "nat \<Rightarrow> nat"
  by (induction n) simp_all

lemma bits_count_card:
  assumes "wf_bits N xs"
  shows "bits_count N xs = card {i. bit (val xs) i}"
proof -
  have "map (\<lambda>i. popcount (xs ! i)) [0..<length xs] = map popcount xs"
    by (intro nth_equalityI) simp_all
  then show ?thesis
    unfolding bits_count_def count_loop card_bits_val wf_bits_length [OF assms, symmetric]
    by (rule arg_cong)
qed

lemma slice_count_and: "slice_count N xs ms = bits_count N (bits_and N xs ms)"
  unfolding slice_count_def bits_count_def count_loop bits_and_def
  by (intro arg_cong [where f = sum_list] map_cong) simp_all

section \<open>Queries of the whole set\<close>

lemma word_bit_index: "m div LENGTH('a) < length xs \<and> word_bit (\<lambda>i. xs ! i) m \<longleftrightarrow> bit (val xs) m"
  for xs :: "'a::len word list"
  by (simp add: bit_val word_bit_def)

lemma first_one_eq:
  assumes "wf_bits N xs"
  shows "first_one N xs = (if val xs = 0 then None else Some (LEAST m. bit (val xs) m))"
  unfolding first_one_def wf_bits_length [OF assms, symmetric]
  by (subst first_set_eqs [where P = "bit (val xs)"]) (auto simp: word_bit_index bit_eq_iff)

lemma last_one_eq:
  assumes "wf_bits N xs"
  shows "last_one N xs = (if val xs = 0 then None else Some (GREATEST m. bit (val xs) m))"
  unfolding last_one_def wf_bits_length [OF assms, symmetric]
  by (subst last_set_eqs [where P = "bit (val xs)"]) (auto simp: word_bit_index bit_eq_iff)

lemma bits_any_eq:
  assumes "wf_bits N xs"
  shows "bits_any N xs \<longleftrightarrow> val xs \<noteq> 0"
proof -
  have "set xs = (!) xs ` {..<length xs}"
    by (metis atLeast_upt map_nth set_map)
  then show ?thesis
    unfolding bits_any_def wf_bits_length [OF assms, symmetric] val_0_iff
    by (fastforce simp: list_ex_iff)
qed

lemma bits_all_eq:
  fixes xs :: "'a::len word list"
  assumes "wf_bits N xs"
  shows "bits_all N xs \<longleftrightarrow> val xs = 2 ^ N - 1"
proof -
  let ?n = "array_size TYPE('a) N" and ?full = "full_words TYPE('a) N" and ?max = "bits_max N :: 'a word list"
  have len: "length xs = ?n" "length ?max = ?n"
    using wf_bits_length [OF assms] wf_bits_length [OF bits_max_bits(1)] by blast+
  have max: "?max ! i = (if i < ?full then - 1 else end_mask N)" if "i < ?n" for i
    using that array_size_bounds(3) [of N, where 'a = 'a]
    by (simp add: bits_max_def bits_not_def bits_min_def nth_append full_words_eq)
  have split: "(\<forall>i < ?n. P i) \<longleftrightarrow> (\<forall>i < ?full. P i) \<and> (N mod LENGTH('a) \<noteq> 0 \<longrightarrow> P (?n - 1))" for P
  proof (cases "N mod LENGTH('a) = 0")
    case False
    then have "?n = Suc (?n - 1)" "?full = ?n - 1"
      using array_size_bounds(3) [of N, where 'a = 'a] by (simp_all add: full_words_eq)
    then show ?thesis
      using False by (metis less_Suc_eq)
  qed (simp add: full_words_eq)
  have full: "?full \<le> ?n" "N mod LENGTH('a) \<noteq> 0 \<Longrightarrow> ?full = ?n - 1 \<and> 0 < ?n"
    using array_size_bounds(3) [of N, where 'a = 'a] by (simp_all add: full_words_eq)
  have "xs = ?max \<longleftrightarrow> (\<forall>i < ?n. xs ! i = ?max ! i)"
    using len by (simp add: list_eq_iff_nth_eq)
  also have "\<dots> \<longleftrightarrow> (\<forall>i < ?full. xs ! i = - 1) \<and> (N mod LENGTH('a) \<noteq> 0 \<longrightarrow> xs ! (?n - 1) = end_mask N)"
    unfolding split using full by (simp add: max)
  also have "\<dots> \<longleftrightarrow> bits_all N xs"
    by (simp add: bits_all_def list_all_iff Ball_def)
  finally have "bits_all N xs \<longleftrightarrow> xs = ?max"
    by blast
  then show ?thesis
    using wf_bits_eq [OF assms bits_max_bits(1)] by (simp add: bits_max_bits(2) mask_eq_exp_minus_1)
qed

section \<open>Searching for zeros\<close>

lemma word_bit_not: "word_bit (\<lambda>i. NOT (f i)) m \<longleftrightarrow> \<not> word_bit f m"
  by (simp add: word_bit_def bit_simps)

lemma full_bits_iff:
  assumes "wf_bits N xs"
  shows "val xs = 2 ^ N - 1 \<longleftrightarrow> (\<forall>m < N. bit (val xs) m)"
proof -
  have "val xs = mask N \<longleftrightarrow> (\<forall>m. bit (val xs) m \<longleftrightarrow> m < N)"
    by (simp add: bit_eq_iff bit_simps)
  then show ?thesis
    unfolding mask_eq_exp_minus_1 [symmetric] using wf_bits_bit [OF assms] by (metis not_less)
qed

lemma last_set_cong: "(\<And>i. i \<in> set is \<Longrightarrow> f i = g i) \<Longrightarrow> last_set f is = last_set g is"
  by (induction "is") simp_all

text \<open>The search for the first zero of a set that is not full finds it; of a full set it finds
  the first position of the padding when there is any.\<close>

lemma first_zero_eq:
  fixes xs :: "'a::len word list"
  assumes "wf_bits N xs"
  shows "first_zero N xs =
    (if val xs \<noteq> 2 ^ N - 1 then Some (LEAST m. \<not> bit (val xs) m)
     else if N mod LENGTH('a) \<noteq> 0 then Some N else None)"
proof -
  let ?n = "array_size TYPE('a) N" and ?P = "\<lambda>m. m div LENGTH('a) < array_size TYPE('a) N \<and> \<not> bit (val xs) m"
  note len = wf_bits_length [OF assms]
  have eq: "first_zero N xs = (if \<exists>m. ?P m then Some (LEAST m. ?P m) else None)"
    unfolding first_zero_def
    by (rule first_set_eqs) (auto simp: word_bit_not word_bit_def bit_val len)
  note full_iff = full_bits_iff [OF assms]
  show ?thesis
  proof (cases "val xs = 2 ^ N - 1")
    case False
    then obtain m where m: "m < N" "\<not> bit (val xs) m"
      using full_iff by blast
    have "?P (LEAST m. \<not> bit (val xs) m)"
      using m index_less [of "LEAST m. \<not> bit (val xs) m" N, where 'a = 'a]
      by (metis (mono_tags) LeastI Least_le le_less_trans)
    then have "(LEAST m. ?P m) = (LEAST m. \<not> bit (val xs) m)"
      by (intro Least_equality) (auto intro: Least_le)
    then show ?thesis
      using False \<open>?P (LEAST m. \<not> bit (val xs) m)\<close> by (auto simp: eq)
  next
    case True
    then have P: "?P m \<longleftrightarrow> N \<le> m \<and> m div LENGTH('a) < ?n" for m
      using full_iff wf_bits_bit [OF assms] by (auto simp: not_less [symmetric])
    show ?thesis
    proof (cases "N mod LENGTH('a) = 0")
      case z: True
      then have "\<not> ?P m" for m
        unfolding P using array_size_bounds(1) [OF z] by (simp add: index_div)
      then show ?thesis
        using True z by (simp add: eq)
    next
      case nz: False
      then have "N < LENGTH('a) * ?n"
        using array_size_bounds(4) [of N, where 'a = 'a] by (metis le_neq_implies_less mod_mult_self1_is_0)
      then have "?P N"
        unfolding P by (simp add: index_div)
      moreover have "(LEAST m. ?P m) = N"
        using \<open>?P N\<close> P by (intro Least_equality) blast+
      ultimately show ?thesis
        using True nz by (auto simp: eq)
    qed
  qed
qed

lemma last_zero_eq:
  fixes xs :: "'a::len word list"
  assumes "wf_bits N xs"
  shows "last_zero N xs =
    (if val xs \<noteq> 2 ^ N - 1 then Some (GREATEST m. m < N \<and> \<not> bit (val xs) m) else None)"
proof -
  let ?n = "array_size TYPE('a) N" and ?full = "full_words TYPE('a) N"
  let ?P = "\<lambda>m. m < N \<and> \<not> bit (val xs) m"
  define f where "f i = (if i < ?full then NOT (xs ! i) else NOT (xs ! i OR NOT (end_mask N)))" for i
  note len = wf_bits_length [OF assms]
  note full_iff = full_bits_iff [OF assms]
  have low: "last_set (\<lambda>i. NOT (xs ! i)) (rev [0..<?full]) = last_set f (rev [0..<?full])"
    by (rule last_set_cong) (simp add: f_def)
  have "last_zero N xs = last_set f (rev [0..<?n])"
  proof (cases "N mod LENGTH('a) = 0")
    case True
    then show ?thesis
      using low by (simp add: last_zero_def Let_def full_words_eq)
  next
    case False
    then obtain k where k: "?n = Suc k" "?full = k"
      using array_size_bounds(3) [OF False] by (metis Suc_pred full_words_eq diff_Suc_1)
    then show ?thesis
      using False low by (simp add: last_zero_def Let_def f_def)
  qed
  also have "\<dots> = (if \<exists>m. ?P m then Some (GREATEST m. ?P m) else None)"
  proof (rule last_set_eqs)
    fix m
    let ?i = "m div LENGTH('a)"
    consider "?i < ?full" | "N mod LENGTH('a) \<noteq> 0" "?i = ?n - 1" "?i < ?n" "\<not> ?i < ?full" | "?n \<le> ?i"
      using array_size_bounds(3) [of N, where 'a = 'a]
      by (fastforce simp: full_words_eq split: if_splits)
    then show "?P m \<longleftrightarrow> ?i < ?n \<and> word_bit f m"
    proof cases
      case 1
      then show ?thesis
        using index_full [OF 1] index_less [of m N, where 'a = 'a] len
        by (simp add: word_bit_def f_def bit_val bit_simps)
    next
      case 2
      then show ?thesis
        using index_end [OF 2(1,2)] len
        by (auto simp: word_bit_def f_def bit_val bit_simps bit_end_mask)
    next
      case 3
      then show ?thesis
        using index_less [of m N, where 'a = 'a] by auto
    qed
  qed
  finally show ?thesis
    using full_iff by simp
qed

section \<open>Slices and single bits\<close>

lemma first_set_cong: "(\<And>i. i \<in> set is \<Longrightarrow> f i = g i) \<Longrightarrow> first_set f is = first_set g is"
  by (induction "is") simp_all

lemma slice_searches:
  "slice_first_one N xs ms = first_one N (bits_and N xs ms)"
  "slice_last_one N xs ms = last_one N (bits_and N xs ms)"
  "slice_first_zero N xs ms = first_zero N (bits_and N xs ms)"
  unfolding slice_first_one_def first_one_def slice_last_one_def last_one_def
    slice_first_zero_def first_zero_def bits_and_def
  by (rule first_set_cong last_set_cong; simp)+

lemma slice_last_zero_eq:
  fixes xs ms :: "'a::len word list"
  assumes "wf_bits N xs" "wf_bits N ms"
  shows "slice_last_zero N xs ms =
    (if \<exists>m. bit (val ms) m \<and> \<not> bit (val xs) m
     then Some (GREATEST m. bit (val ms) m \<and> \<not> bit (val xs) m) else None)"
  unfolding slice_last_zero_def
  by (rule last_set_eqs)
     (use wf_bits_length [OF assms(1)] wf_bits_length [OF assms(2)] in
       \<open>auto simp: word_bit_def bit_val bit_simps\<close>)

lemma top_bit_iff:
  fixes x :: "'a::len word"
  assumes "k < LENGTH('a)" "\<And>i. k < i \<Longrightarrow> \<not> bit x i"
  shows "push_bit k 1 \<le> x \<longleftrightarrow> bit x k"
proof -
  have "unat x < 2 ^ Suc k"
    using assms(2) by (intro less_exp_by_bits) (simp add: bit_unsigned_iff)
  then have "unat x div 2 ^ k < 2"
    by (simp add: div_less_iff_less_mult)
  then have "odd (unat x div 2 ^ k) \<longleftrightarrow> unat x div 2 ^ k \<noteq> 0"
    by (auto simp: less_Suc_eq numeral_2_eq_2)
  also have "\<dots> \<longleftrightarrow> 2 ^ k \<le> unat x"
    by (simp add: div_eq_0_iff not_less)
  also have "\<dots> \<longleftrightarrow> push_bit k 1 \<le> x"
    using unat_exp_below [OF assms(1)] by (simp add: word_le_nat_alt push_bit_eq_mult)
  finally have "odd (unat x div 2 ^ k) \<longleftrightarrow> push_bit k 1 \<le> x" .
  moreover have "odd (unat x div 2 ^ k) \<longleftrightarrow> bit x k"
    by (simp flip: bit_iff_odd add: bit_unsigned_iff)
  ultimately show ?thesis
    by blast
qed

lemma msb_is_set_eq:
  fixes xs :: "'a::len word list"
  assumes "wf_bits N xs" "0 < N"
  shows "msb_is_set N xs \<longleftrightarrow> bit (val xs) (N - 1)"
proof -
  let ?n = "array_size TYPE('a) N"
  note len = wf_bits_length [OF assms(1)]
  have n: "0 < ?n"
    using assms(2) by (rule array_size_bounds(5))
  have clear: "\<not> bit (xs ! (?n - 1)) i" if "N \<le> LENGTH('a) * (?n - 1) + i" for i
    using wf_bits_bit [OF assms(1) that] bit_val_index [of i xs "?n - 1"] n len
      bit_imp_le_length [of "xs ! (?n - 1)" i] by auto
  have msb: "push_bit k 1 \<le> xs ! (?n - 1) \<longleftrightarrow> bit (val xs) (N - 1)"
    if "N = LENGTH('a) * (?n - 1) + Suc k" "k < LENGTH('a)" for k
  proof -
    have "push_bit k 1 \<le> xs ! (?n - 1) \<longleftrightarrow> bit (xs ! (?n - 1)) k"
      by (rule top_bit_iff [OF that(2)], rule clear, subst that(1)) simp
    also have "\<dots> \<longleftrightarrow> bit (val xs) (LENGTH('a) * (?n - 1) + k)"
      using bit_val_index [OF that(2), of xs "?n - 1"] n len by simp
    also have "LENGTH('a) * (?n - 1) + k = N - 1"
      by (subst (2) that(1)) simp
    finally show ?thesis .
  qed
  show ?thesis
  proof (cases "N mod LENGTH('a) = 0")
    case True
    have "N = LENGTH('a) * ?n"
      using array_size_bounds(1) [OF True] by simp
    also have "\<dots> = LENGTH('a) * (?n - 1) + Suc (LENGTH('a) - 1)"
      using n by (cases ?n) simp_all
    finally show ?thesis
      using True msb [of "LENGTH('a) - 1"] by (simp add: msb_is_set_def)
  next
    case False
    have "N = LENGTH('a) * (?n - 1) + Suc (N mod LENGTH('a) - 1)"
      using array_size_bounds(2) [OF False] False by simp
    then show ?thesis
      using False msb [of "N mod LENGTH('a) - 1"] by (simp add: msb_is_set_def less_imp_diff_less)
  qed
qed

text \<open>An update of one word changes only the bits of that word.\<close>

lemma bit_val_update:
  fixes xs :: "'a::len word list"
  assumes "k < length xs"
  shows "bit (val (xs[k := y])) m \<longleftrightarrow>
    (if m div LENGTH('a) = k then bit y (m mod LENGTH('a)) else bit (val xs) m)"
  using assms by (auto simp: bit_val nth_list_update)

lemma push_one_bit: "bit (push_bit k (of_bool x) :: 'a::len word) i \<longleftrightarrow> k < LENGTH('a) \<and> i = k \<and> x"
  by (auto simp: bit_simps)

lemma and_push_one: "(y :: 'a::len word) AND push_bit k 1 \<noteq> 0 \<longleftrightarrow> bit y k"
proof -
  have "y AND push_bit k 1 = (if bit y k then push_bit k 1 else 0)"
    by (rule bit_word_eqI) (auto simp: bit_simps)
  moreover have "push_bit k 1 \<noteq> (0 :: 'a word)" if "bit y k"
  proof -
    have "bit (push_bit k 1 :: 'a word) k"
      using bit_imp_le_length [OF that] by (simp add: bit_simps)
    then show ?thesis by (metis bit_0_eq bot_apply bot_bool_def)
  qed
  ultimately show ?thesis
    by auto
qed

definition ref_position :: "'a::len itself \<Rightarrow> bit_reference \<Rightarrow> nat" where
  "ref_position _ r = LENGTH('a) * ref_word r + ref_index r"

lemma ref_position_iff:
  "ref_index r < LENGTH('a) \<Longrightarrow> m = ref_position TYPE('a::len) r \<longleftrightarrow>
    m div LENGTH('a) = ref_word r \<and> m mod LENGTH('a) = ref_index r"
  by (auto simp: ref_position_def) (metis mult_div_mod_eq)

lemma normalize_index_valid:
  assumes "- int N \<le> i" "i < int N"
  shows "i + int N * of_bool (i < 0) = i mod int N" "nat (i mod int N) < N" "0 < N"
proof -
  show *: "i + int N * of_bool (i < 0) = i mod int N"
  proof (cases "i < 0")
    case True
    then have "(i + int N) mod int N = i + int N"
      using assms by (intro mod_pos_pos_trivial) auto
    moreover have "(i + int N) mod int N = i mod int N"
      by simp
    ultimately show ?thesis
      using True by (simp del: mod_add_self2)
  qed (use assms in simp)
  show "0 < N"
    using assms by linarith
  then show "nat (i mod int N) < N"
    by (simp add: nat_less_iff)
qed

lemma ref_ops_bits:
  fixes xs :: "'a::len word list"
  assumes "ref_word r < length xs" "ref_index r < LENGTH('a)"
  defines "p \<equiv> ref_position TYPE('a) r"
  shows "ref_get xs r \<longleftrightarrow> bit (val xs) p"
    "bit (val (ref_set xs r x)) m \<longleftrightarrow> (if m = p then x else bit (val xs) m)"
    "bit (val (ref_or xs r x)) m \<longleftrightarrow> bit (val xs) m \<or> m = p \<and> x"
    "bit (val (ref_xor xs r x)) m \<longleftrightarrow> bit (val xs) m \<noteq> (m = p \<and> x)"
    "bit (val (ref_and xs r x)) m \<longleftrightarrow>
       bit (val xs) m \<and> (m div LENGTH('a) = ref_word r \<longrightarrow> m = p \<and> x)"
proof -
  have p: "m = p \<longleftrightarrow> m div LENGTH('a) = ref_word r \<and> m mod LENGTH('a) = ref_index r" for m
    unfolding p_def by (rule ref_position_iff [OF assms(2)])
  have clear: "bit (NOT (push_bit (ref_index r) 1) :: 'a word) (m mod LENGTH('a)) \<longleftrightarrow>
    m mod LENGTH('a) \<noteq> ref_index r" for m
    using assms(2) push_one_bit [where x = True and 'a = 'a] by (simp add: bit_not_iff)
  show "ref_get xs r \<longleftrightarrow> bit (val xs) p"
    unfolding ref_get_def and_push_one using p [of p] assms(1) by (simp add: bit_val)
  show "bit (val (ref_set xs r x)) m \<longleftrightarrow> (if m = p then x else bit (val xs) m)"
    unfolding ref_set_def bit_val_update [OF assms(1)] p bit_or_iff bit_and_iff clear push_one_bit
    using assms by (auto simp: bit_val)
  show "bit (val (ref_or xs r x)) m \<longleftrightarrow> bit (val xs) m \<or> m = p \<and> x"
    unfolding ref_or_def bit_val_update [OF assms(1)] p bit_or_iff push_one_bit
    using assms by (auto simp: bit_val)
  show "bit (val (ref_xor xs r x)) m \<longleftrightarrow> bit (val xs) m \<noteq> (m = p \<and> x)"
    unfolding ref_xor_def bit_val_update [OF assms(1)] p bit_xor_iff push_one_bit
    using assms by (auto simp: bit_val)
  show "bit (val (ref_and xs r x)) m \<longleftrightarrow>
       bit (val xs) m \<and> (m div LENGTH('a) = ref_word r \<longrightarrow> m = p \<and> x)"
    unfolding ref_and_def bit_val_update [OF assms(1)] p bit_and_iff push_one_bit
    using assms by (auto simp: bit_val)
qed

lemma index_access:
  fixes xs :: "'a::len word list"
  assumes "wf_bits N xs" "- int N \<le> i" "i < int N"
  shows "bits_index debug N xs i = Inr (bit (val xs) (nat (i mod int N)))"
    "bits_get N xs i = Some (bit (val xs) (nat (i mod int N)))"
    "bits_at N i = Some (i mod int N)"
    "bits_ref TYPE('a) debug N i = Inr \<lparr>ref_word = nat (i mod int N) div LENGTH('a),
       ref_index = nat (i mod int N) mod LENGTH('a)\<rparr>"
proof -
  note n = normalize_index_valid [OF assms(2,3)]
  have m: "0 \<le> i mod int N" "i mod int N < int N"
    using n(3) by simp_all
  have inside: "(i mod int N < 0 \<or> int N \<le> i mod int N) \<longleftrightarrow> False"
    using m by (metis not_le)
  have norm: "normalize_index debug (int N) i = Inr (i mod int N)"
    unfolding normalize_index_def Let_def n(1) inside by simp
  have word: "nat (i mod int N) div LENGTH('a) < array_size TYPE('a) N"
    by (rule index_less [OF n(2)])
  show "bits_index debug N xs i = Inr (bit (val xs) (nat (i mod int N)))"
    unfolding bits_index_def norm and_push_one using word m wf_bits_length [OF assms(1)]
    by (simp add: bit_val)
  show "bits_get N xs i = Some (bit (val xs) (nat (i mod int N)))"
    unfolding bits_get_def Let_def n(1) and_push_one using m word wf_bits_length [OF assms(1)]
    by (simp add: bit_val)
  show "bits_at N i = Some (i mod int N)"
    unfolding bits_at_def Let_def n(1) inside by simp
  show "bits_ref TYPE('a) debug N i = Inr \<lparr>ref_word = nat (i mod int N) div LENGTH('a),
       ref_index = nat (i mod int N) mod LENGTH('a)\<rparr>"
    using word m by (simp add: bits_ref_def norm)
qed

section \<open>What the queries answer\<close>

text \<open>\<open>any\<close>, \<open>all\<close> and \<open>count\<close> are the obvious functions of the set of positions that
  are one, \<open>first_one\<close> and \<open>last_one\<close> its least and greatest element, and the sign test
  reads position \<open>N - 1\<close>.\<close>

theorem one_queries:
  fixes xs :: "'a::len word list"
  assumes "wf_bits N xs" "0 < N"
  shows "(bits_any N xs \<longleftrightarrow> (\<exists>m. bit (val xs) m)) \<and>
    (bits_all N xs \<longleftrightarrow> (\<forall>m < N. bit (val xs) m)) \<and>
    bits_count N xs = card {m. bit (val xs) m} \<and>
    first_one N xs = (if \<exists>m. bit (val xs) m then Some (LEAST m. bit (val xs) m) else None) \<and>
    last_one N xs = (if \<exists>m. bit (val xs) m then Some (GREATEST m. bit (val xs) m) else None) \<and>
    (msb_is_set N xs \<longleftrightarrow> bit (val xs) (N - 1))"
proof (intro conjI)
  have ex: "val xs \<noteq> 0 \<longleftrightarrow> (\<exists>m. bit (val xs) m)"
    by (simp add: bit_eq_iff)
  show "bits_any N xs \<longleftrightarrow> (\<exists>m. bit (val xs) m)"
    unfolding ex [symmetric] by (rule bits_any_eq [OF assms(1)])
  show "bits_all N xs \<longleftrightarrow> (\<forall>m < N. bit (val xs) m)"
    unfolding full_bits_iff [OF assms(1), symmetric] by (rule bits_all_eq [OF assms(1)])
  show "first_one N xs = (if \<exists>m. bit (val xs) m then Some (LEAST m. bit (val xs) m) else None)"
    "last_one N xs = (if \<exists>m. bit (val xs) m then Some (GREATEST m. bit (val xs) m) else None)"
    unfolding ex [symmetric] first_one_eq [OF assms(1)] last_one_eq [OF assms(1)] by simp_all
qed (rule bits_count_card [OF assms(1)] msb_is_set_eq [OF assms])+

lemma one_queries_witness:
  "wf_bits 12 [0xF0, 0x0A :: 8 word] \<and>
   bits_count 12 [0xF0, 0x0A :: 8 word] = card {m. bit (val [0xF0, 0x0A :: 8 word]) m}"
  using one_queries [of 12 "[0xF0, 0x0A :: 8 word]"] by (simp add: wf_bits_def array_size_def)

text \<open>\<open>last_zero\<close> is the greatest position below \<open>N\<close> that is zero, and nothing for a
  full set.  \<open>first_zero\<close> is the least one when there is one, but a full set with padding in
  its last word answers \<open>N\<close>.\<close>

theorem zero_queries:
  fixes xs :: "'a::len word list"
  assumes "wf_bits N xs"
  shows "last_zero N xs = (if \<exists>m < N. \<not> bit (val xs) m
      then Some (GREATEST m. m < N \<and> \<not> bit (val xs) m) else None) \<and>
    first_zero N xs = (if \<exists>m < N. \<not> bit (val xs) m then Some (LEAST m. \<not> bit (val xs) m)
      else if N mod LENGTH('a) \<noteq> 0 then Some N else None)"
  using full_bits_iff [OF assms] by (simp add: last_zero_eq [OF assms] first_zero_eq [OF assms])

lemma zero_queries_witness:
  "wf_bits 12 [0xFF, 0x0F :: 8 word] \<and> first_zero 12 [0xFF, 0x0F :: 8 word] = Some 12"
proof -
  have wf: "wf_bits 12 [0xFF, 0x0F :: 8 word]"
    by (simp add: wf_bits_def array_size_def)
  moreover have "\<forall>m < 12. bit (val [0xFF, 0x0F :: 8 word]) m"
    by (simp only: full_bits_iff [OF wf, symmetric]) simp
  ultimately show ?thesis
    using zero_queries [of 12 "[0xFF, 0x0F :: 8 word]"] by auto
qed

text \<open>The queries of a slice answer for the positions in its mask, except
  \<open>first_zero\<close>, which also reports the positions outside the mask.\<close>

theorem slice_queries:
  fixes xs ms :: "'a::len word list"
  assumes "wf_bits N xs" "wf_bits N ms"
  shows "(slice_any N xs ms \<longleftrightarrow> (\<exists>m. bit (val ms) m \<and> bit (val xs) m)) \<and>
    (slice_all N xs ms \<longleftrightarrow> (\<forall>m. bit (val ms) m \<longrightarrow> bit (val xs) m)) \<and>
    slice_count N xs ms = card {m. bit (val ms) m \<and> bit (val xs) m} \<and>
    slice_first_one N xs ms = (if \<exists>m. bit (val ms) m \<and> bit (val xs) m
      then Some (LEAST m. bit (val ms) m \<and> bit (val xs) m) else None) \<and>
    slice_last_one N xs ms = (if \<exists>m. bit (val ms) m \<and> bit (val xs) m
      then Some (GREATEST m. bit (val ms) m \<and> bit (val xs) m) else None) \<and>
    slice_last_zero N xs ms = (if \<exists>m. bit (val ms) m \<and> \<not> bit (val xs) m
      then Some (GREATEST m. bit (val ms) m \<and> \<not> bit (val xs) m) else None) \<and>
    ((\<exists>m < N. \<not> bit (val ms) m) \<longrightarrow> slice_first_zero N xs ms =
      Some (LEAST m. \<not> (bit (val ms) m \<and> bit (val xs) m)))"
proof -
  let ?zs = "bits_and N xs ms"
  note wf = bits_logic_wf(1) [OF assms]
  have bits: "bit (val ?zs) m \<longleftrightarrow> bit (val ms) m \<and> bit (val xs) m" for m
    using bits_logic_bits(1) [OF assms] by blast
  have ex: "val ?zs \<noteq> 0 \<longleftrightarrow> (\<exists>m. bit (val ms) m \<and> bit (val xs) m)"
    by (simp add: bit_eq_iff bits)
  show ?thesis
  proof (intro conjI)
    show "slice_any N xs ms \<longleftrightarrow> (\<exists>m. bit (val ms) m \<and> bit (val xs) m)"
      unfolding ex [symmetric] slice_any_def by (rule bits_to_bool_val)
    show "slice_all N xs ms \<longleftrightarrow> (\<forall>m. bit (val ms) m \<longrightarrow> bit (val xs) m)"
      unfolding slice_all_def bits_eq_val [OF wf assms(2)] by (auto simp: bit_eq_iff bits)
    show "slice_count N xs ms = card {m. bit (val ms) m \<and> bit (val xs) m}"
      unfolding slice_count_and bits_count_card [OF wf] bits ..
    show "slice_first_one N xs ms = (if \<exists>m. bit (val ms) m \<and> bit (val xs) m
      then Some (LEAST m. bit (val ms) m \<and> bit (val xs) m) else None)"
      unfolding ex [symmetric] slice_searches first_one_eq [OF wf] bits by simp
    show "slice_last_one N xs ms = (if \<exists>m. bit (val ms) m \<and> bit (val xs) m
      then Some (GREATEST m. bit (val ms) m \<and> bit (val xs) m) else None)"
      unfolding ex [symmetric] slice_searches last_one_eq [OF wf] bits by simp
    show "(\<exists>m < N. \<not> bit (val ms) m) \<longrightarrow> slice_first_zero N xs ms =
      Some (LEAST m. \<not> (bit (val ms) m \<and> bit (val xs) m))"
    proof
      assume "\<exists>m < N. \<not> bit (val ms) m"
      then have "val ?zs \<noteq> 2 ^ N - 1"
        unfolding full_bits_iff [OF wf] bits by blast
      then show "slice_first_zero N xs ms = Some (LEAST m. \<not> (bit (val ms) m \<and> bit (val xs) m))"
        unfolding slice_searches first_zero_eq [OF wf] bits by simp
    qed
  qed (rule slice_last_zero_eq [OF assms])
qed

lemma slice_queries_witness:
  "wf_bits 12 [0xFF, 0x0F :: 8 word] \<and> wf_bits 12 [0xF0, 0x01 :: 8 word] \<and>
   slice_count 12 [0xFF, 0x0F :: 8 word] [0xF0, 0x01] =
     card {m. bit (val [0xF0, 0x01 :: 8 word]) m \<and> bit (val [0xFF, 0x0F :: 8 word]) m}"
  using slice_queries [of 12 "[0xFF, 0x0F :: 8 word]" "[0xF0, 0x01]"]
  by (simp add: wf_bits_def array_size_def)

text \<open>C23.  Indexing wraps once like Python: an index in \<open>[-N, N)\<close> addresses position \<open>i mod
  N\<close> through \<open>operator[]\<close>, \<open>get\<close>, \<open>at\<close> and the proxy, in every
  build (for \<open>get\<close> its comment denies that); outside it a debug build throws,
  \<open>get\<close> does not compile and \<open>at\<close> gives the end iterator.\<close>

theorem indexing:
  fixes xs :: "'a::len word list"
  assumes "wf_bits N xs"
  shows "(if - int N \<le> i \<and> i < int N
     then bits_index debug N xs i = Inr (bit (val xs) (nat (i mod int N))) \<and>
       bits_get N xs i = Some (bit (val xs) (nat (i mod int N))) \<and> bits_at N i = Some (i mod int N) \<and>
       map_sum id (ref_get xs) (bits_ref TYPE('a) debug N i) = bits_index debug N xs i
     else bits_index True N xs i = Inl IndexError \<and> bits_ref TYPE('a) True N i = Inl IndexError \<and>
       bits_get N xs i = None \<and> bits_at N i = None)"
proof (cases "- int N \<le> i \<and> i < int N")
  case True
  then have "- int N \<le> i" "i < int N"
    by auto
  note acc = index_access [OF assms this]
  let ?m = "nat (i mod int N)"
  have "?m < N"
    by (rule normalize_index_valid) (use True in auto)
  then have "ref_get xs \<lparr>ref_word = ?m div LENGTH('a), ref_index = ?m mod LENGTH('a)\<rparr> = bit (val xs) ?m"
    using index_less [of ?m N, where 'a = 'a] wf_bits_length [OF assms]
    by (subst ref_ops_bits(1)) (simp_all add: ref_position_def)
  then show ?thesis
    using True by (simp add: acc)
next
  case False
  then have "i + int N * of_bool (i < 0) < 0 \<or> int N \<le> i + int N * of_bool (i < 0)"
    by (cases "i < 0") auto
  then show ?thesis
    using False by (auto simp: bits_index_def bits_ref_def bits_get_def bits_at_def normalize_index_def Let_def)
qed

lemma indexing_witness:
  "wf_bits 12 [0xF0, 0x0A :: 8 word] \<and> bits_get 12 [0xF0, 0x0A :: 8 word] 12 = None"
  using indexing [of 12 "[0xF0, 0x0A :: 8 word]" 12 True] by (simp add: wf_bits_def array_size_def)

text \<open>Writing through a proxy changes the bit it refers to and no other, for \<open>=\<close>, \<open>|=\<close>
  and \<open>^=\<close>; \<open>&=\<close> also clears every other bit of the word it points into.\<close>

theorem reference_writes:
  fixes xs :: "'a::len word list"
  assumes "ref_word r < length xs" "ref_index r < LENGTH('a)" "p = ref_position TYPE('a) r"
  shows "(bit (val (ref_set xs r x)) m \<longleftrightarrow> (if m = p then x else bit (val xs) m)) \<and>
    (bit (val (ref_or xs r x)) m \<longleftrightarrow> (if m = p then bit (val xs) m \<or> x else bit (val xs) m)) \<and>
    (bit (val (ref_xor xs r x)) m \<longleftrightarrow> (if m = p then bit (val xs) m \<noteq> x else bit (val xs) m)) \<and>
    (bit (val (ref_and xs r x)) m \<longleftrightarrow> (if m = p then bit (val xs) m \<and> x
       else if m div LENGTH('a) = ref_word r then False else bit (val xs) m))"
  unfolding assms(3) using ref_ops_bits(2-5) [OF assms(1,2), of x m] ref_position_iff [OF assms(2), of m]
  by simp

lemma reference_writes_witness:
  "\<not> bit (val (ref_and [0xFF :: 8 word] \<lparr>ref_word = 0, ref_index = 3\<rparr> True)) 4"
  using reference_writes [where xs = "[0xFF :: 8 word]" and r = "\<lparr>ref_word = 0, ref_index = 3\<rparr>"
      and x = True and m = 4 and p = 3]
  by (simp add: ref_position_def)

end
