(* ===== verification/BitEdit.thy ===== *)
theory BitEdit
  imports BitScan
begin

text \<open>
  The in-place edits of \<open>Bits<N>\<close>: filling, flipping, reversing the bits or the bytes,
  rotating, the mask of an interval, and the edits of a slice through its mask.  The
  reversal of a word is a parameter of the reversal of the array; the locale
  \<open>word_reversal\<close> states its contract, and the four overloads of \<open>impl::bit_reverse\<close>
  interpret it.
\<close>

section \<open>Operations\<close>

definition bits_fill :: "nat \<Rightarrow> 'a::len word list \<Rightarrow> bool \<Rightarrow> 'a word list" where
  "bits_fill N xs v = (
     let filled = - 1 * of_bool v;
         b = foldl (update_by (\<lambda>b i. filled)) xs [0..<full_words TYPE('a) N]
     in if end_mask N \<noteq> (0 :: 'a word)
        then b[array_size TYPE('a) N - 1 := filled AND end_mask N] else b)"

definition bits_flip :: "nat \<Rightarrow> 'a::len word list \<Rightarrow> 'a word list" where
  "bits_flip N xs = (
     let b = foldl (update_by (\<lambda>b i. b ! i XOR - 1)) xs [0..<full_words TYPE('a) N];
         n = array_size TYPE('a) N
     in if end_mask N \<noteq> (0 :: 'a word) then b[n - 1 := b ! (n - 1) XOR end_mask N] else b)"

text \<open>Both reversals swap the words of the array and apply \<open>f\<close> to each.\<close>

definition swap_step :: "('a \<Rightarrow> 'a) \<Rightarrow> nat \<Rightarrow> 'a list \<Rightarrow> nat \<Rightarrow> 'a list" where
  "swap_step f n b i = b[i := f (b ! (n - 1 - i)), n - 1 - i := f (b ! i)]"

definition swap_words :: "('a \<Rightarrow> 'a) \<Rightarrow> nat \<Rightarrow> 'a list \<Rightarrow> 'a list" where
  "swap_words f n xs = (
     let b = foldl (swap_step f n) xs [0..<n div 2]
     in if n mod 2 \<noteq> 0 then b[n div 2 := f (b ! (n div 2))] else b)"

definition bits_reverse :: "('a::len word \<Rightarrow> 'a word) \<Rightarrow> nat \<Rightarrow> 'a word list \<Rightarrow> 'a word list" where
  "bits_reverse rv N xs = (
     let b = swap_words rv (array_size TYPE('a) N) xs
     in if N mod LENGTH('a) \<noteq> 0 then bits_shr_assign N b (LENGTH('a) - N mod LENGTH('a)) else b)"

text \<open>\<open>std::byteswap\<close>.\<close>

definition byteswap :: "'a::len word \<Rightarrow> 'a word" where
  "byteswap x = foldl (\<lambda>acc i. push_bit 8 acc OR take_bit 8 (drop_bit (8 * i) x)) 0 [0..<LENGTH('a) div 8]"

definition bits_reverse_bytes :: "nat \<Rightarrow> 'a::len word list \<Rightarrow> 'a word list" where
  "bits_reverse_bytes N xs = (
     let b = swap_words byteswap (array_size TYPE('a) N) xs
     in if end_mask N \<noteq> (0 :: 'a word) then bits_shr_assign N b (LENGTH('a) - N mod LENGTH('a)) else b)"

text \<open>\<open>n % ssize()\<close> truncates, so its sign is that of \<open>n\<close>; it is undefined for an empty
  set.\<close>

definition bits_rotate :: "nat \<Rightarrow> 'a::len word list \<Rightarrow> int \<Rightarrow> 'a word list option" where
  "bits_rotate N xs n = (
     if N = 0 then None
     else let m = n smod int N
       in if m = 0 then Some xs
          else if 0 < n then do {
            temp \<leftarrow> bits_shr N xs (nat m);
            Some (bits_or_assign N (bits_shl_assign N xs (nat (int N - m))) temp)
          }
          else do {
            temp \<leftarrow> bits_shl N xs (nat (- m));
            Some (bits_or_assign N (bits_shr_assign N xs (nat (int N + m))) temp)
          })"

text \<open>The mask of the positions in \<open>[start, stop)\<close>, for \<open>start \<le> stop \<le> N\<close>.\<close>

definition interval_mask :: "nat \<Rightarrow> nat \<Rightarrow> nat \<Rightarrow> 'a::len word list" where
  "interval_mask N start stop = (
     let r = bits_shl_assign N (bits_max N) (N - stop);
         r = bits_shr_assign N r (N - (stop - start))
     in bits_shl_assign N r start)"

text \<open>The edits of a slice with mask \<open>ms\<close>.\<close>

definition slice_fill :: "nat \<Rightarrow> 'a::len word list \<Rightarrow> 'a word list \<Rightarrow> bool \<Rightarrow> 'a word list" where
  "slice_fill N xs ms v =
     (if v then bits_or_assign N xs ms else bits_and_assign N xs (bits_not N ms))"

definition slice_flip :: "nat \<Rightarrow> 'a::len word list \<Rightarrow> 'a word list \<Rightarrow> 'a word list" where
  "slice_flip N xs ms = bits_xor_assign N xs ms"

definition slice_reverse ::
  "('a::len word \<Rightarrow> 'a word) \<Rightarrow> nat \<Rightarrow> 'a word list \<Rightarrow> 'a word list \<Rightarrow> 'a word list" where
  "slice_reverse rv N xs ms = (
     let reversed = bits_reverse rv N (bits_and N xs ms)
     in bits_or_assign N (bits_and_assign N xs (bits_not N ms)) reversed)"

lemma wf_bits_bitD: "wf_bits N xs \<Longrightarrow> bit (val xs) m \<Longrightarrow> m < N"
  using wf_bits_bit by (metis not_le)

section \<open>Filling and flipping\<close>

lemma masked_update:
  fixes xs :: "'a::len word list"
  assumes "length xs = array_size TYPE('a) N" "\<And>b i. b ! i = xs ! i \<Longrightarrow> f b i = f xs i"
  shows "(if end_mask N \<noteq> (0 :: 'a word)
      then (foldl (update_by f) xs [0..<full_words TYPE('a) N])[array_size TYPE('a) N - 1 := y]
      else foldl (update_by f) xs [0..<full_words TYPE('a) N]) =
    map (f xs) [0..<full_words TYPE('a) N] @ (if end_mask N \<noteq> (0 :: 'a word) then [y] else [])"
proof -
  have nth: "foldl (update_by f) xs [0..<k] ! j = (if 0 \<le> j \<and> j < k then f xs j else xs ! j)"
    if "k \<le> length xs" "j < length xs" for j k
    by (rule foldl_update_asc) (use that assms(2) in blast)+
  show ?thesis
    using assms(1) array_size_bounds(3) [of N, where 'a = 'a]
    by (intro nth_equalityI) (auto simp: full_words_eq nth nth_append nth_list_update)
qed

lemma loop_nth:
  assumes "\<And>b i. b ! i = xs ! i \<Longrightarrow> f b i = f xs i" "k \<le> j" "k \<le> length xs" "j < length xs"
  shows "foldl (update_by f) xs [0..<k] ! j = xs ! j"
proof -
  have "foldl (update_by f) xs [0..<k] ! j = (if 0 \<le> j \<and> j < k then f xs j else xs ! j)"
    by (rule foldl_update_asc) (use assms in blast)+
  then show ?thesis
    using assms by simp
qed

lemma bits_fill_eq:
  fixes xs :: "'a::len word list"
  assumes "length xs = array_size TYPE('a) N"
  shows "bits_fill N xs v = (if v then bits_max N else bits_min N)"
proof -
  have "bits_fill N xs v = map (\<lambda>i. - 1 * of_bool v) [0..<full_words TYPE('a) N] @
    (if end_mask N \<noteq> (0 :: 'a word) then [- 1 * of_bool v AND end_mask N] else [])"
    unfolding bits_fill_def Let_def by (rule masked_update) (use assms in simp_all)
  also have "\<dots> = (if v then bits_max N else bits_min N)"
    using array_size_bounds(3) [of N, where 'a = 'a]
    by (intro nth_equalityI)
       (auto simp: bits_max_def bits_not_def bits_min_def full_words_eq nth_append)
  finally show ?thesis .
qed

lemma bits_flip_eq:
  fixes xs :: "'a::len word list"
  assumes "wf_bits N xs"
  shows "bits_flip N xs = bits_not N xs"
proof -
  let ?n = "array_size TYPE('a) N"
  let ?b = "foldl (update_by (\<lambda>b i. b ! i XOR - 1)) xs [0..<full_words TYPE('a) N]"
  note len = wf_bits_length [OF assms]
  have "bits_flip N xs = map (\<lambda>i. xs ! i XOR - 1) [0..<full_words TYPE('a) N] @
    (if end_mask N \<noteq> (0 :: 'a word) then [?b ! (?n - 1) XOR end_mask N] else [])"
    unfolding bits_flip_def Let_def by (rule masked_update) (use len in simp_all)
  also have "\<dots> = bits_not N xs"
  proof (cases "N mod LENGTH('a) = 0")
    case False
    have last: "?b ! (?n - 1) = xs ! (?n - 1)"
      using array_size_bounds(3) [OF False] False len
      by (intro loop_nth) (simp_all add: full_words_eq)
    have "\<not> bit (xs ! (?n - 1)) i" if "N mod LENGTH('a) \<le> i" for i
      using that array_size_bounds(2,3) [OF False] wf_bits_bit [OF assms, of "LENGTH('a) * (?n - 1) + i"]
        bit_val_index [of i xs "?n - 1"] bit_imp_le_length [of "xs ! (?n - 1)" i] len by auto
    then have "xs ! (?n - 1) XOR end_mask N = NOT (xs ! (?n - 1)) AND end_mask N"
      by (intro bit_word_eqI) (auto simp: bit_simps bit_end_mask not_less)
    then show ?thesis
      unfolding last bits_not_def by simp
  qed (simp add: bits_not_def)
  finally show ?thesis .
qed

section \<open>Reversing\<close>

lemma length_swap_loop [simp]: "length (foldl (swap_step f n) xs is) = length xs"
  by (induction "is" arbitrary: xs) (simp_all add: swap_step_def)

lemma swap_step_nth:
  assumes "length b = n" "k < n" "j < n"
  shows "swap_step f n b k ! j =
    (if j = n - 1 - k then f (b ! k) else if j = k then f (b ! (n - 1 - k)) else b ! j)"
  using assms by (simp add: swap_step_def nth_list_update)

lemma swap_loop:
  assumes "length xs = n" "k \<le> n div 2" "j < n"
  shows "foldl (swap_step f n) xs [0..<k] ! j =
    (if j < k \<or> n - k \<le> j then f (xs ! (n - 1 - j)) else xs ! j)"
  using assms
proof (induction k arbitrary: j)
  case (Suc k)
  let ?b = "foldl (swap_step f n) xs [0..<k]"
  have k: "Suc k \<le> n - 1 - k"
    using Suc.prems(2) by linarith
  have b: "?b ! k = xs ! k" "?b ! (n - 1 - k) = xs ! (n - 1 - k)"
    using Suc.IH [of k] Suc.IH [of "n - 1 - k"] Suc.prems k by auto
  have "n - 1 - (n - 1 - k) = k"
    using k by simp
  moreover have "foldl (swap_step f n) xs [0..<Suc k] ! j =
    (if j = n - 1 - k then f (xs ! k) else if j = k then f (xs ! (n - 1 - k)) else ?b ! j)"
    using swap_step_nth [of ?b n k j f] Suc.prems k b by simp
  ultimately show ?case
    using Suc.IH [of j] Suc.prems k by auto
qed simp

lemma swap_words_eq:
  assumes "length xs = n"
  shows "swap_words f n xs = map f (rev xs)"
proof -
  let ?b = "foldl (swap_step f n) xs [0..<n div 2]"
  have b: "?b ! j = (if j < n div 2 \<or> n - n div 2 \<le> j then f (xs ! (n - 1 - j)) else xs ! j)"
    if "j < n" for j
    using assms that by (intro swap_loop) simp_all
  define z where "z = (if n mod 2 \<noteq> 0 then ?b[n div 2 := f (?b ! (n div 2))] else ?b)"
  have len_z: "length z = n"
    using assms by (simp add: z_def)
  have *: "z ! j = f (xs ! (n - 1 - j))"
    if "j < n" for j
  proof (cases "j = n div 2 \<and> n mod 2 \<noteq> 0")
    case True
    then have "n - 1 - j = j" "\<not> (j < n div 2 \<or> n - n div 2 \<le> j)"
      using that by presburger+
    then show ?thesis
      using True that assms b [OF that] by (simp add: z_def)
  next
    case False
    then have "j < n div 2 \<or> n - n div 2 \<le> j"
      using that by presburger
    then show ?thesis
      using False b [OF that] by (auto simp: z_def)
  qed
  have "z = map f (rev xs)"
    by (rule nth_equalityI) (use assms len_z * in \<open>simp_all add: rev_nth\<close>)
  then show ?thesis
    by (simp add: swap_words_def z_def Let_def)
qed

lemma bit_val_mirror:
  fixes xs :: "'a::len word list"
  assumes "m < LENGTH('a) * length xs"
  shows "bit (val xs) (LENGTH('a) * length xs - 1 - m) \<longleftrightarrow>
    bit (rev xs ! (m div LENGTH('a))) (LENGTH('a) - 1 - m mod LENGTH('a))"
proof -
  define q r n where "q = m div LENGTH('a)" and "r = m mod LENGTH('a)" and "n = length xs"
  have m: "m = LENGTH('a) * q + r" and r: "r < LENGTH('a)"
    by (simp_all add: q_def r_def)
  have q: "q < n"
    using assms by (simp add: q_def n_def index_div)
  then obtain d where d: "n = q + Suc d"
    using less_imp_Suc_add by auto
  have "LENGTH('a) * n - 1 - m = LENGTH('a) * d + (LENGTH('a) - 1 - r)"
    using r by (simp add: m d algebra_simps)
  moreover have "bit (val xs) (LENGTH('a) * d + (LENGTH('a) - 1 - r)) \<longleftrightarrow> bit (xs ! d) (LENGTH('a) - 1 - r)"
    using r d by (subst bit_val_index) (simp_all flip: n_def)
  moreover have "rev xs ! q = xs ! d"
    using q d by (simp add: rev_nth flip: n_def)
  ultimately show ?thesis
    by (simp add: q_def r_def n_def)
qed

locale word_reversal =
  fixes rv :: "'a::len word \<Rightarrow> 'a word"
  assumes bit_rv: "i < LENGTH('a) \<Longrightarrow> bit (rv x) i \<longleftrightarrow> bit x (LENGTH('a) - 1 - i)"
begin

lemma reversed_words:
  assumes "length xs = n"
  shows "bit (val (swap_words rv n xs)) m \<longleftrightarrow>
    m < LENGTH('a) * n \<and> bit (val xs) (LENGTH('a) * n - 1 - m)"
proof (cases "m < LENGTH('a) * n")
  case True
  then have "m div LENGTH('a) < n"
    by (simp add: index_div)
  then show ?thesis
    using True assms bit_val_mirror [of m xs] by (simp add: swap_words_eq bit_val [of "map rv (rev xs)"] bit_rv)
qed (use assms in \<open>simp add: swap_words_eq bit_val index_div\<close>)

lemma reverse_bits:
  assumes "wf_bits N xs"
  shows "bit (val (bits_reverse rv N xs)) m \<longleftrightarrow> m < N \<and> bit (val xs) (N - 1 - m)"
    "length (bits_reverse rv N xs) = array_size TYPE('a) N"
proof -
  let ?n = "array_size TYPE('a) N" and ?b = "swap_words rv (array_size TYPE('a) N) xs"
  note len = wf_bits_length [OF assms]
  have len_b: "length ?b = ?n"
    using len by (simp add: swap_words_eq)
  show "length (bits_reverse rv N xs) = ?n"
    using len_b by (simp add: bits_reverse_def Let_def bits_shr_assign_bits(2))
  show "bit (val (bits_reverse rv N xs)) m \<longleftrightarrow> m < N \<and> bit (val xs) (N - 1 - m)"
  proof (cases "N mod LENGTH('a) = 0")
    case True
    then show ?thesis
      using reversed_words [OF len] array_size_bounds(1) [OF True]
      by (simp add: bits_reverse_def Let_def)
  next
    case False
    define s where "s = LENGTH('a) - N mod LENGTH('a)"
    have total: "LENGTH('a) * ?n = N + s"
    proof -
      have "LENGTH('a) * ?n = LENGTH('a) * (?n - 1) + LENGTH('a)"
        using array_size_bounds(3) [OF False] by (cases ?n) simp_all
      then show ?thesis
        using array_size_bounds(2) [OF False] mod_less_divisor [OF len_gt_0 [where 'a = 'a], of N]
        unfolding s_def by linarith
    qed
    have "bit (val (bits_reverse rv N xs)) m \<longleftrightarrow> bit (val ?b) (m + s)"
      using False by (simp add: bits_reverse_def Let_def bits_shr_assign_bits(1) [OF len_b] s_def)
    also have "\<dots> \<longleftrightarrow> m + s < N + s \<and> bit (val xs) (N + s - 1 - (m + s))"
      unfolding reversed_words [OF len] total ..
    also have "N + s - 1 - (m + s) = N - 1 - m"
      by simp
    finally show ?thesis
      by simp
  qed
qed

end

interpretation rev8: word_reversal bit_reverse8
  by unfold_locales (simp add: reversed_bits)

interpretation rev16: word_reversal bit_reverse16
  by unfold_locales (simp add: reversed_bits)

interpretation rev32: word_reversal bit_reverse32
  by unfold_locales (simp add: reversed_bits)

interpretation rev64: word_reversal bit_reverse64
  by unfold_locales (simp add: reversed_bits)

section \<open>Rotating and masks\<close>

lemma rotate_index:
  assumes "m = n smod int N" "p < N" "0 < N"
  shows "0 < n \<Longrightarrow> (int p + n) mod int N = (if int p + m < int N then int p + m else int p + m - int N)"
    "n < 0 \<Longrightarrow> (int p + n) mod int N = (if 0 \<le> int p + m then int p + m else int p + m + int N)"
    "0 < n \<Longrightarrow> 0 \<le> m \<and> m < int N" "n < 0 \<Longrightarrow> - int N < m \<and> m \<le> 0"
proof -
  have n: "n = int N * (n sdiv int N) + m"
    using smod_mult_sdiv_eq [of n "int N"] by (simp add: assms(1))
  have p: "0 \<le> int p" "int p < int N"
    using assms(2) by simp_all
  have mod: "0 \<le> int p + m + int N * c \<Longrightarrow> int p + m + int N * c < int N \<Longrightarrow>
    (int p + n) mod int N = int p + m + int N * c" for c
  proof (rule int_mod_pos_eq)
    show "int p + n = int N * (n sdiv int N - c) + (int p + m + int N * c)"
      unfolding right_diff_distrib using n by linarith
  qed
  show range: "0 < n \<Longrightarrow> 0 \<le> m \<and> m < int N" "n < 0 \<Longrightarrow> - int N < m \<and> m \<le> 0"
    using assms smod_int_compares [of n "int N"] by auto
  show "(int p + n) mod int N = (if int p + m < int N then int p + m else int p + m - int N)" if "0 < n"
    using mod [of 0] mod [of "- 1"] range(1) [OF that] p by auto
  show "(int p + n) mod int N = (if 0 \<le> int p + m then int p + m else int p + m + int N)" if "n < 0"
    using mod [of 0] mod [of 1] range(2) [OF that] p by auto
qed

lemma bits_or_assign_bits:
  assumes "wf_bits N xs" "wf_bits N ys"
  shows "bit (val (bits_or_assign N xs ys)) m \<longleftrightarrow> bit (val xs) m \<or> bit (val ys) m"
    "wf_bits N (bits_or_assign N xs ys)"
  using bits_logic_bits(2) [OF assms] bits_logic_wf(2) [OF assms] bits_logic_assign(2) [OF assms(1)]
  by simp_all

lemma bits_rotate_bits:
  fixes xs :: "'a::len word list"
  assumes "wf_bits N xs" "0 < N"
  shows "\<exists>ys. bits_rotate N xs n = Some ys \<and> wf_bits N ys \<and>
    (\<forall>p < N. bit (val ys) p \<longleftrightarrow> bit (val xs) (nat ((int p + n) mod int N)))"
proof -
  define m where "m = n smod int N"
  note idx = rotate_index [OF m_def _ assms(2)]
  have in_array: "\<not> (array_size TYPE('a) N \<le> k div LENGTH('a) \<and> k div LENGTH('a) < N)" if "k < N" for k
    using index_less [OF that, where 'a = 'a] by simp
  have wf: "wf_bits N (bits_shr_assign N xs k)" "wf_bits N (bits_shl_assign N xs k)" for k
    by (simp_all add: assms(1) bits_shl_assign_val bits_shr_assign_val)
  note bits = bits_shl_assign_bits(1) [OF assms(1)] bits_shr_assign_bits(1) [OF wf_bits_length [OF assms(1)]]
    bits_or_assign_bits(1) [OF wf(2) wf(1)] bits_or_assign_bits(1) [OF wf(1) wf(2)]
  consider "m = 0" | "0 < n" "0 < m" "m < int N" | "n < 0" "- int N < m" "m < 0"
    using idx(3,4) [of 0] assms(2)
    by (cases n "0 :: int" rule: linorder_cases; cases m "0 :: int" rule: linorder_cases)
       (auto simp: m_def)
  then show ?thesis
  proof cases
    case 1
    then have "n = int N * (n sdiv int N)"
      using smod_mult_sdiv_eq [of n "int N"] by (simp add: m_def)
    then have "int N dvd n"
      by (metis dvd_triv_left)
    then have "(int p + n) mod int N = int p" if "p < N" for p
      using that by (auto elim!: dvdE)
    then show ?thesis
      using 1 assms by (auto simp: bits_rotate_def m_def Let_def)
  next
    case 2
    let ?ys = "bits_or_assign N (bits_shl_assign N xs (nat (int N - m))) (bits_shr_assign N xs (nat m))"
    have "bits_rotate N xs n = Some ?ys"
      using 2 assms(2) in_array [of "nat m"] wf_bits_length [OF assms(1)]
      by (simp add: bits_rotate_def bits_shr_eq Let_def flip: m_def)
    moreover have "bit (val ?ys) p \<longleftrightarrow> bit (val xs) (nat ((int p + n) mod int N))" if "p < N" for p
    proof (cases "int p + m < int N")
      case True
      then have "nat (int p + m) = p + nat m" "\<not> nat (int N - m) \<le> p"
        using 2 by auto
      then show ?thesis
        using that True 2 unfolding bits idx(1) [OF that 2(1)] by simp
    next
      case False
      then have "nat (int p + m - int N) = p - nat (int N - m)" "nat (int N - m) \<le> p" "N \<le> p + nat m"
        using 2 by auto
      then show ?thesis
        using that False wf_bits_bit [OF assms(1), of "p + nat m"] unfolding bits idx(1) [OF that 2(1)] by simp
    qed
    ultimately show ?thesis
      using bits_or_assign_bits(2) [OF wf(2) wf(1)] by blast
  next
    case 3
    let ?ys = "bits_or_assign N (bits_shr_assign N xs (nat (int N + m))) (bits_shl_assign N xs (nat (- m)))"
    have "bits_rotate N xs n = Some ?ys"
      using 3 assms(2) in_array [of "nat (- m)"] wf_bits_length [OF assms(1)]
      by (simp add: bits_rotate_def bits_shl_eq Let_def flip: m_def)
    moreover have "bit (val ?ys) p \<longleftrightarrow> bit (val xs) (nat ((int p + n) mod int N))" if "p < N" for p
    proof (cases "0 \<le> int p + m")
      case True
      then have "nat (int p + m) = p - nat (- m)" "nat (- m) \<le> p" "N \<le> p + nat (int N + m)"
        using 3 by auto
      then show ?thesis
        using that True wf_bits_bit [OF assms(1), of "p + nat (int N + m)"]
        unfolding bits idx(2) [OF that 3(1)] by simp
    next
      case False
      then have "nat (int p + m + int N) = p + nat (int N + m)" "\<not> nat (- m) \<le> p"
        using 3 by auto
      then show ?thesis
        using that False unfolding bits idx(2) [OF that 3(1)] by simp
    qed
    ultimately show ?thesis
      using bits_or_assign_bits(2) [OF wf(1) wf(2)] by blast
  qed
qed

lemma interval_mask_bits:
  assumes "start \<le> stop" "stop \<le> N"
  shows "wf_bits N (interval_mask N start stop :: 'a::len word list)"
    "bit (val (interval_mask N start stop :: 'a word list)) m \<longleftrightarrow> start \<le> m \<and> m < stop"
proof -
  let ?r1 = "bits_shl_assign N (bits_max N :: 'a word list) (N - stop)"
  let ?r2 = "bits_shr_assign N ?r1 (N - (stop - start))"
  have wf1: "wf_bits N ?r1" and wf2: "wf_bits N ?r2"
    by (simp_all add: bits_shl_assign_val bits_shr_assign_val bits_max_bits)
  show "wf_bits N (interval_mask N start stop :: 'a word list)"
    unfolding interval_mask_def Let_def by (rule bits_shl_assign_val(2) [OF wf2])
  have "bit (val (interval_mask N start stop :: 'a word list)) m \<longleftrightarrow>
    m < N \<and> start \<le> m \<and> m - start + (N - (stop - start)) < N"
    unfolding interval_mask_def Let_def bits_shl_assign_bits(1) [OF wf2]
      bits_shr_assign_bits(1) [OF wf_bits_length [OF wf1]] bits_shl_assign_bits(1) [OF bits_max_bits(1)]
      bits_max_bits(2)
    using assms by (auto simp: bit_simps)
  then show "bit (val (interval_mask N start stop :: 'a word list)) m \<longleftrightarrow> start \<le> m \<and> m < stop"
    using assms by auto
qed

section \<open>Reversing bytes\<close>

lemma byteswap_loop:
  fixes x :: "'a::len word"
  assumes "8 * k \<le> LENGTH('a)"
  shows "bit (foldl (\<lambda>acc i. push_bit 8 acc OR take_bit 8 (drop_bit (8 * i) x)) 0 [0..<k]) i \<longleftrightarrow>
    i < 8 * k \<and> bit x (8 * (k - 1 - i div 8) + i mod 8)"
  using assms
proof (induction k arbitrary: i)
  case (Suc k)
  show ?case
  proof (cases "i < 8")
    case True
    then show ?thesis
      using Suc.prems by (simp add: bit_simps)
  next
    case False
    then obtain j where j: "i = 8 + j"
      using le_Suc_ex by (metis not_less)
    show ?thesis
      using Suc.prems Suc.IH [of j] by (auto simp: j bit_simps)
  qed
qed simp

lemma bit_byteswap:
  fixes x :: "'a::len word"
  assumes "8 dvd LENGTH('a)" "i < LENGTH('a)"
  shows "bit (byteswap x) i \<longleftrightarrow> bit x (8 * (LENGTH('a) div 8 - 1 - i div 8) + i mod 8)"
  using assms unfolding byteswap_def by (subst byteswap_loop) auto

text \<open>The position that byte reversal exchanges with \<open>m\<close>, among \<open>8 * B\<close>.\<close>

definition byte_mirror :: "nat \<Rightarrow> nat \<Rightarrow> nat" where
  "byte_mirror B m = 8 * (B - 1 - m div 8) + m mod 8"

lemma byte_mirror_shift:
  assumes "m < 8 * B"
  shows "byte_mirror (B + s) (m + 8 * s) = byte_mirror B m"
  using assms by (simp add: byte_mirror_def)

lemma swapped_bytes:
  fixes xs :: "'a::len word list"
  assumes "length xs = n" "LENGTH('a) = 8 * b"
  shows "bit (val (swap_words byteswap n xs)) m \<longleftrightarrow>
    m < 8 * (b * n) \<and> bit (val xs) (byte_mirror (b * n) m)"
proof (cases "m div LENGTH('a) < n")
  case True
  define q r where "q = m div LENGTH('a)" and "r = m mod LENGTH('a)"
  have m: "m = LENGTH('a) * q + r" and r: "r < LENGTH('a)"
    by (simp_all add: q_def r_def)
  obtain d where d: "n = q + Suc d"
    using True less_imp_Suc_add by (auto simp: q_def)
  have "r div 8 < b"
    using r assms(2) by simp
  have "m div 8 = b * q + r div 8" "m mod 8 = r mod 8"
    by (simp_all add: m assms(2) mult.assoc)
  then have "byte_mirror (b * n) m = LENGTH('a) * d + (8 * (b - 1 - r div 8) + r mod 8)"
    using \<open>r div 8 < b\<close> by (simp add: byte_mirror_def d assms(2) algebra_simps)
  moreover have "8 * (b - 1 - r div 8) + r mod 8 < LENGTH('a)"
    using \<open>r div 8 < b\<close> assms(2) by (simp add: diff_mult_distrib2)
  ultimately have "bit (val xs) (byte_mirror (b * n) m) \<longleftrightarrow> bit (xs ! d) (8 * (b - 1 - r div 8) + r mod 8)"
    using assms(1) d by (simp add: bit_val_index)
  moreover have "m < 8 * (b * n)"
    using True unfolding index_div by (simp only: assms(2) mult.assoc)
  moreover have "bit (val (map byteswap (rev xs))) m \<longleftrightarrow> bit (byteswap (xs ! d)) r"
    using True d assms(1) by (simp add: bit_val rev_nth flip: q_def r_def)
  moreover have "bit (byteswap (xs ! d)) r \<longleftrightarrow> bit (xs ! d) (8 * (b - 1 - r div 8) + r mod 8)"
    using r assms(2) by (subst bit_byteswap) simp_all
  ultimately show ?thesis
    unfolding swap_words_eq [OF assms(1)] by blast
next
  case False
  then have "\<not> m < 8 * (b * n)"
    unfolding index_div by (simp only: assms(2) mult.assoc not_False_eq_True)
  then show ?thesis
    using False assms(1) by (simp add: swap_words_eq bit_val [of "map byteswap (rev xs)"])
qed

lemma reverse_bytes_bits:
  fixes xs :: "'a::len word list"
  assumes "wf_bits N xs" "8 dvd LENGTH('a)" "N = 8 * B"
  shows "bit (val (bits_reverse_bytes N xs)) m \<longleftrightarrow> m < N \<and> bit (val xs) (byte_mirror B m)"
    "length (bits_reverse_bytes N xs) = array_size TYPE('a) N"
proof -
  obtain b where b: "LENGTH('a) = 8 * b"
    using assms(2) by auto
  let ?n = "array_size TYPE('a) N" and ?b = "swap_words byteswap (array_size TYPE('a) N) xs"
  note len = wf_bits_length [OF assms(1)] and swapped = swapped_bytes [OF wf_bits_length [OF assms(1)] b]
  have len_b: "length ?b = ?n"
    using len by (simp add: swap_words_eq)
  show "length (bits_reverse_bytes N xs) = ?n"
    using len_b by (simp add: bits_reverse_bytes_def Let_def bits_shr_assign_bits(2))
  show "bit (val (bits_reverse_bytes N xs)) m \<longleftrightarrow> m < N \<and> bit (val xs) (byte_mirror B m)"
  proof (cases "N mod LENGTH('a) = 0")
    case True
    then have "b * ?n = B"
      using array_size_bounds(1) [OF True] assms(3) b by simp
    then show ?thesis
      using True swapped assms(3) by (simp add: bits_reverse_bytes_def Let_def)
  next
    case False
    obtain s where s: "LENGTH('a) - N mod LENGTH('a) = 8 * s"
      using assms(2,3) by (metis dvd_def dvd_diff_nat dvd_mod dvd_triv_left)
    have "LENGTH('a) * ?n = LENGTH('a) * (?n - 1) + LENGTH('a)"
      using array_size_bounds(3) [OF False] by (cases ?n) simp_all
    then have "LENGTH('a) * ?n = N + 8 * s"
      using array_size_bounds(2) [OF False] mod_less_divisor [OF len_gt_0 [where 'a = 'a], of N] s
      by linarith
    then have total: "b * ?n = B + s"
      using b assms(3) by simp
    have "bit (val (bits_reverse_bytes N xs)) m \<longleftrightarrow> bit (val ?b) (m + 8 * s)"
      using False by (simp add: bits_reverse_bytes_def Let_def bits_shr_assign_bits(1) [OF len_b] s)
    then show ?thesis
      unfolding swapped total using byte_mirror_shift [of m B s] assms(3) by auto
  qed
qed

section \<open>What the edits do\<close>

text \<open>\<open>fill\<close> sets or clears every bit, \<open>flip\<close> complements the set and is its own inverse,
  and the results are well formed.\<close>

theorem fill_flip:
  fixes xs :: "'a::len word list"
  assumes "wf_bits N xs"
  shows "val (bits_fill N xs v) = (if v then 2 ^ N - 1 else 0) \<and>
    val (bits_flip N xs) = 2 ^ N - 1 - val xs \<and> bits_flip N (bits_flip N xs) = xs \<and>
    wf_bits N (bits_fill N xs v) \<and> wf_bits N (bits_flip N xs)"
proof -
  note wf = bits_not_bits(1) [OF assms]
  have "val (bits_not N (bits_not N xs)) = val xs"
    using assms bits_not_val [OF wf] bits_not_val [OF assms] by (auto simp: wf_bits_def)
  then have "bits_not N (bits_not N xs) = xs"
    using wf_bits_eq [OF bits_not_bits(1) [OF wf] assms] by simp
  then show ?thesis
    using assms wf wf_bits_length [OF assms]
    by (simp add: bits_fill_eq bits_flip_eq bits_not_val bits_max_bits mask_eq_exp_minus_1)
qed

lemma fill_flip_witness:
  "wf_bits 12 [0xF0, 0x0A :: 8 word] \<and> bits_flip 12 (bits_flip 12 [0xF0, 0x0A :: 8 word]) = [0xF0, 0x0A]"
  using fill_flip [of 12 "[0xF0, 0x0A :: 8 word]" True] by (simp add: wf_bits_def array_size_def)

text \<open>\<open>reverse\<close> moves bit \<open>m\<close> to \<open>N - 1 - m\<close> for each word type, also when the last word
  is padded; reversing the bytes of a set of whole bytes mirrors them.\<close>

theorem reverse_correct:
  assumes "wf_bits N xs8" "wf_bits N xs16" "wf_bits N xs32" "wf_bits N xs64"
  shows "(bit (val (bits_reverse bit_reverse8 N xs8)) m \<longleftrightarrow> m < N \<and> bit (val xs8) (N - 1 - m)) \<and>
    (bit (val (bits_reverse bit_reverse16 N xs16)) m \<longleftrightarrow> m < N \<and> bit (val xs16) (N - 1 - m)) \<and>
    (bit (val (bits_reverse bit_reverse32 N xs32)) m \<longleftrightarrow> m < N \<and> bit (val xs32) (N - 1 - m)) \<and>
    (bit (val (bits_reverse bit_reverse64 N xs64)) m \<longleftrightarrow> m < N \<and> bit (val xs64) (N - 1 - m)) \<and>
    (\<forall>B. N = 8 * B \<longrightarrow> (bit (val (bits_reverse_bytes N xs64)) m \<longleftrightarrow>
      m < N \<and> bit (val xs64) (8 * (B - 1 - m div 8) + m mod 8)))"
  using rev8.reverse_bits(1) [OF assms(1)] rev16.reverse_bits(1) [OF assms(2)]
    rev32.reverse_bits(1) [OF assms(3)] rev64.reverse_bits(1) [OF assms(4)]
    reverse_bytes_bits(1) [OF assms(4)] by (simp add: byte_mirror_def)

lemma reverse_correct_witness:
  "wf_bits 72 [0x01, 0x80 :: 64 word] \<and>
   bit (val (bits_reverse bit_reverse64 72 [0x01, 0x80 :: 64 word])) 71"
proof -
  have wf: "wf_bits 72 (bits_min 72 :: 8 word list)" "wf_bits 72 (bits_min 72 :: 16 word list)"
    "wf_bits 72 (bits_min 72 :: 32 word list)" "wf_bits 72 [0x01, 0x80 :: 64 word]"
    by (simp_all add: wf_bits_def [of 72 "[0x01, 0x80 :: 64 word]"] array_size_def)
  show ?thesis
    using reverse_correct [OF wf, of 71] wf(4) by (simp add: bit_0)
qed

text \<open>C24.  \<open>rotate(n)\<close> reads bit \<open>p\<close> of the result from position \<open>p + n\<close> modulo \<open>N\<close>, for
  every sign and size of \<open>n\<close>.\<close>

theorem rotate_correct:
  fixes xs :: "'a::len word list"
  assumes "wf_bits N xs" "0 < N"
  shows "\<exists>ys. bits_rotate N xs n = Some ys \<and> wf_bits N ys \<and>
    (\<forall>p < N. bit (val ys) p \<longleftrightarrow> bit (val xs) (nat ((int p + n) mod int N)))"
  by (rule bits_rotate_bits [OF assms])

lemma rotate_correct_witness:
  "wf_bits 12 [0xF0, 0x0A :: 8 word] \<and> (\<exists>ys. bits_rotate 12 [0xF0, 0x0A :: 8 word] (- 17) = Some ys)"
  using rotate_correct [of 12 "[0xF0, 0x0A :: 8 word]" "- 17"] by (auto simp: wf_bits_def array_size_def)

text \<open>The mask of an interval has exactly the bits of the interval; a slice is filled and
  flipped inside its mask and nowhere else.\<close>

theorem slice_edits:
  fixes xs :: "'a::len word list"
  assumes "wf_bits N xs" "start \<le> stop" "stop \<le> N"
  shows "(let ms = interval_mask N start stop in
    (bit (val ms) m \<longleftrightarrow> start \<le> m \<and> m < stop) \<and> wf_bits N ms \<and>
    (bit (val (slice_fill N xs ms v)) m \<longleftrightarrow> (if start \<le> m \<and> m < stop then v else bit (val xs) m)) \<and>
    (bit (val (slice_flip N xs ms)) m \<longleftrightarrow> (if start \<le> m \<and> m < stop then \<not> bit (val xs) m else bit (val xs) m)))"
proof -
  let ?ms = "interval_mask N start stop :: 'a word list"
  note mask = interval_mask_bits [OF assms(2,3), where 'a = 'a]
  note wf_not = bits_not_bits(1) [OF mask(1)]
  have "bit (val (slice_fill N xs ?ms v)) m \<longleftrightarrow> (if start \<le> m \<and> m < stop then v else bit (val xs) m)"
    using assms(3) unfolding slice_fill_def bits_logic_assign [OF assms(1)]
    by (auto simp: bits_logic_bits(2) [OF assms(1) mask(1)] bits_logic_bits(1) [OF assms(1) wf_not]
        bits_not_bits(2) [OF mask(1)] mask(2) not_le dest: wf_bits_bitD [OF assms(1)])
  moreover have "bit (val (slice_flip N xs ?ms)) m \<longleftrightarrow>
    (if start \<le> m \<and> m < stop then \<not> bit (val xs) m else bit (val xs) m)"
    unfolding slice_flip_def bits_logic_assign [OF assms(1)] bits_logic_bits(3) [OF assms(1) mask(1)] mask(2)
    by auto
  ultimately show ?thesis
    using mask by (simp add: Let_def)
qed

lemma slice_edits_witness:
  "wf_bits 12 [0xF0, 0x0A :: 8 word] \<and>
   \<not> bit (val (slice_flip 12 [0xF0, 0x0A :: 8 word] (interval_mask 12 3 9))) 7"
  using slice_edits [of 12 "[0xF0, 0x0A :: 8 word]" 3 9 7 True]
  by (simp add: wf_bits_def array_size_def Let_def bit_val)

text \<open>Reversing a slice mirrors it around the middle of the whole set: the selected bits
  leave the slice, for example bit 0 of the slice \<open>[0, 3)\<close> of eight bits moves to bit 7
  instead of bit 2.\<close>

theorem slice_reverse_bits:
  assumes "wf_bits N xs" "wf_bits N ms"
  shows "(bit (val (slice_reverse bit_reverse64 N xs ms)) m \<longleftrightarrow>
      bit (val xs) m \<and> \<not> bit (val ms) m \<or>
      m < N \<and> bit (val xs) (N - 1 - m) \<and> bit (val ms) (N - 1 - m)) \<and>
    slice_reverse bit_reverse8 8 [1] (interval_mask 8 0 3) = [0x80]"
proof -
  note wf_not = bits_not_bits(1) [OF assms(2)] and wf_and = bits_logic_wf(1) [OF assms]
  note wf_keep = bits_logic_wf(1) [OF assms(1) wf_not]
  have wf_rev: "wf_bits N (bits_reverse bit_reverse64 N (bits_and N xs ms))"
    using rev64.reverse_bits [OF wf_and] by (intro wf_bitsI) auto
  have "bit (val (slice_reverse bit_reverse64 N xs ms)) m \<longleftrightarrow>
      bit (val xs) m \<and> \<not> bit (val ms) m \<or>
      m < N \<and> bit (val xs) (N - 1 - m) \<and> bit (val ms) (N - 1 - m)"
    unfolding slice_reverse_def Let_def bits_logic_assign(1) [OF assms(1)] bits_or_assign_bits(1) [OF wf_keep wf_rev]
      rev64.reverse_bits(1) [OF wf_and] bits_logic_bits(1) [OF assms] bits_logic_bits(1) [OF assms(1) wf_not]
      bits_not_bits(2) [OF assms(2)]
    by (auto dest: wf_bits_bitD [OF assms(1)])
  moreover have "slice_reverse bit_reverse8 8 [1] (interval_mask 8 0 3) = [0x80]"
    by code_simp
  ultimately show ?thesis
    by simp
qed

lemma slice_reverse_bits_witness:
  "bit (val (slice_reverse bit_reverse64 64 [1 :: 64 word] [7])) 63"
  using slice_reverse_bits [of 64 "[1]" "[7]" 63] by (simp add: wf_bits_def array_size_def bit_0)

end
