(* ===== verification/BigWord.thy ===== *)
theory BigWord
  imports Limbs
begin

unbundle bit_operations_syntax

text \<open>
  The double-width words of \<open>impl::integer::word\<close>.  Where the compiler has an integer
  twice as wide as a word, \<open>big\<close> wraps it; otherwise it is a pair of words whose
  product and quotient are computed with half-words.  The record \<open>big_ops\<close> is the
  interface the arithmetic of \<open>Bits\<close> uses, the locale \<open>big_word\<close> states its contract,
  and both implementations interpret it.
\<close>

section \<open>Native double-width words\<close>

text \<open>\<open>'a bit0 word\<close> has twice the bits of \<open>'a word\<close>.\<close>

definition nb_make :: "'a::len word \<Rightarrow> 'a word \<Rightarrow> 'a bit0 word" where
  "nb_make hi lo = push_bit LENGTH('a) (ucast hi) OR ucast lo"

definition nb_hi :: "'a::len bit0 word \<Rightarrow> 'a word" where
  "nb_hi v = ucast (drop_bit LENGTH('a) v)"

definition nb_lo :: "'a::len bit0 word \<Rightarrow> 'a word" where
  "nb_lo v = ucast (v AND (push_bit LENGTH('a) 1 - 1))"

definition nb_gt :: "'a::len bit0 word \<Rightarrow> 'a bit0 word \<Rightarrow> bool" where
  "nb_gt v u \<longleftrightarrow> u < v"

definition nb_mul :: "'a::len word \<Rightarrow> 'a word \<Rightarrow> 'a bit0 word" where
  "nb_mul a b = ucast a * ucast b"

text \<open>Division by zero is undefined.\<close>

definition nb_divmod :: "'a::len bit0 word \<Rightarrow> 'a word \<Rightarrow> ('a word \<times> 'a word) option" where
  "nb_divmod value v =
     (if v = 0 then None else Some (ucast (value div ucast v), ucast (value mod ucast v)))"

section \<open>Composite double-width words\<close>

text \<open>A pair of words, high half first.  The half-words of the product and of the division
  (\<open>uint32_t\<close> for 64-bit words) have \<open>chunk = size / 2\<close> bits.\<close>

type_synonym 'a cb = "'a word \<times> 'a word"

definition cb_gt :: "'a::len cb \<Rightarrow> 'a cb \<Rightarrow> bool" where
  "cb_gt x y \<longleftrightarrow> fst y < fst x \<or> fst x = fst y \<and> snd y < snd x"

definition cb_mul :: "'a::len word \<Rightarrow> 'a word \<Rightarrow> 'a cb" where
  "cb_mul a b = (
     let chunk = LENGTH('a) div 2;
         msk = push_bit chunk 1 - 1;
         x_hi = drop_bit chunk a; x_lo = a AND msk;
         y_hi = drop_bit chunk b; y_lo = b AND msk;
         lo_lo = x_lo * y_lo;
         lo_hi = x_lo * y_hi;
         hi_lo = x_hi * y_lo;
         hi_hi = x_hi * y_hi;
         cross = drop_bit chunk lo_lo + (lo_hi AND msk) + (hi_lo AND msk);
         carry = drop_bit chunk cross
     in (hi_hi + drop_bit chunk lo_hi + drop_bit chunk hi_lo + carry,
         (lo_lo AND msk) OR push_bit chunk cross))"

text \<open>One estimation step of the division: \<open>qhat\<close> and \<open>rhat\<close> from the top half of the
  divisor, corrected once with its bottom half \<open>d0\<close> and the next numerator half \<open>n\<close>.\<close>

definition cb_estimate :: "'a::len word \<Rightarrow> 'a word \<Rightarrow> 'a word \<Rightarrow> 'a word \<Rightarrow> 'a word \<Rightarrow> 'a word" where
  "cb_estimate h n d1 d0 v = (
     let b = push_bit (LENGTH('a) div 2) 1;
         qhat = h div d1;
         rhat = h mod d1;
         c1 = qhat * d0;
         c2 = rhat * b + n
     in if c2 < c1 then qhat - (1 + of_bool (v < c1 - c2)) else qhat)"

text \<open>\<open>-shift & (size - 1)\<close> is \<open>(size - shift) mod size\<close> for a shift below the word size, and
  \<open>-int64_t(shift) >> (size - 1)\<close> is all ones unless the shift is zero.\<close>

definition cb_divmod :: "'a::len cb \<Rightarrow> 'a word \<Rightarrow> 'a word \<times> 'a word" where
  "cb_divmod n v = (
     if v \<le> fst n then (- 1, - 1)
     else if fst n = 0 then (snd n div v, snd n mod v)
     else
       let chunk = LENGTH('a) div 2;
           b = push_bit chunk 1;
           msk = b - 1;
           shift = countl_zero v;
           v = push_bit shift v;
           h = push_bit shift (fst n) OR
             (drop_bit ((LENGTH('a) - shift) mod LENGTH('a)) (snd n) AND (if shift = 0 then 0 else - 1));
           l = push_bit shift (snd n);
           n1 = drop_bit chunk l;
           n0 = l AND msk;
           d1 = drop_bit chunk v;
           d0 = v AND msk;
           q1 = cb_estimate h n1 d1 d0 v AND msk;
           r = h * b + n1 - q1 * v;
           q0 = cb_estimate r n0 d1 d0 v AND msk
       in (push_bit chunk q1 OR q0, drop_bit shift (r * b + n0 - q0 * v)))"

section \<open>The interface\<close>

record 'w big_ops =
  composite :: bool
  big_mul :: "'w \<Rightarrow> 'w \<Rightarrow> 'w \<times> 'w"
  big_divmod :: "'w \<times> 'w \<Rightarrow> 'w \<Rightarrow> ('w \<times> 'w) option"
  big_gt :: "'w \<times> 'w \<Rightarrow> 'w \<times> 'w \<Rightarrow> bool"

text \<open>The two implementations, over pairs of halves.\<close>

definition native_big :: "'a::len word big_ops" where
  "native_big = \<lparr>composite = False,
     big_mul = (\<lambda>a b. (nb_hi (nb_mul a b), nb_lo (nb_mul a b))),
     big_divmod = (\<lambda>n v. nb_divmod (nb_make (fst n) (snd n)) v),
     big_gt = (\<lambda>x y. nb_gt (nb_make (fst x) (snd x)) (nb_make (fst y) (snd y)))\<rparr>"

text \<open>The composite division has no undefined behaviour: it answers all ones when the quotient
  does not fit, in particular for a zero divisor.\<close>

definition composite_big :: "'a::len word big_ops" where
  "composite_big = \<lparr>composite = True, big_mul = cb_mul,
     big_divmod = (\<lambda>n v. Some (cb_divmod n v)), big_gt = cb_gt\<rparr>"

text \<open>The word types of up to 8, 16 and 32 bits double into the next built-in type.\<close>

definition word8_big :: "8 word big_ops" where "word8_big = native_big"
definition word16_big :: "16 word big_ops" where "word16_big = native_big"
definition word32_big :: "32 word big_ops" where "word32_big = native_big"

text \<open>The number a pair of halves denotes.\<close>

definition pair_val :: "'a::len word \<times> 'a word \<Rightarrow> nat" where
  "pair_val p = 2 ^ LENGTH('a) * unat (fst p) + unat (snd p)"

locale big_word =
  fixes ops :: "'a::len word big_ops"
  assumes mul_val: "pair_val (big_mul ops a b) = unat a * unat b"
    and gt_val: "big_gt ops x y \<longleftrightarrow> pair_val y < pair_val x"

locale big_word_div = big_word +
  assumes divmod_val: "unat (fst n) < unat v \<Longrightarrow> \<exists>q r. big_divmod ops n v = Some (q, r) \<and>
    unat q = pair_val n div unat v \<and> unat r = pair_val n mod unat v"

section \<open>The native words meet the contract\<close>

lemma unat_ucast_bit0 [simp]: "unat (ucast (x :: 'a::len word) :: 'a bit0 word) = unat x"
proof -
  have "unat x < 2 ^ (2 * LENGTH('a))"
    by (rule less_le_trans [OF unat_less]) simp
  then show ?thesis
    by (simp add: unsigned_ucast_eq take_bit_nat_eq_self)
qed

lemma take_bit_unat: "take_bit LENGTH('a) (unat (x :: 'a::len word)) = unat x"
  by (simp add: take_bit_nat_eq_self)

lemma unat_less_bit0: "unat (v :: 'a::len bit0 word) < 2 ^ LENGTH('a) * 2 ^ LENGTH('a)"
  using unsigned_less [of v] by (simp add: mult_2 power_add)

lemma half_product: "unat (a :: 'a::len word) * unat (b :: 'a word) < 2 ^ LENGTH('a) * 2 ^ LENGTH('a)"
  by (intro mult_strict_mono') simp_all

lemma pair_val_less: "pair_val (p :: 'a::len word \<times> 'a word) < 2 ^ LENGTH('a) * 2 ^ LENGTH('a)"
proof -
  have "pair_val p < 2 ^ LENGTH('a) * (unat (fst p) + 1)"
    by (simp add: pair_val_def)
  also have "\<dots> \<le> 2 ^ LENGTH('a) * 2 ^ LENGTH('a)"
    by (intro mult_left_mono) (simp_all add: Suc_le_eq)
  finally show ?thesis .
qed

lemma pair_val_div_mod [simp]:
  "pair_val (h, l :: 'a::len word) div 2 ^ LENGTH('a) = unat h"
  "pair_val (h, l) mod 2 ^ LENGTH('a) = unat l"
  by (simp_all add: pair_val_def)

lemma nb_make_val: "unat (nb_make h (l :: 'a::len word)) = pair_val (h, l)"
proof -
  have "unat (push_bit LENGTH('a) (ucast h) :: 'a bit0 word) = 2 ^ LENGTH('a) * unat h"
  proof -
    have "unat h * 2 ^ LENGTH('a) < 2 ^ LENGTH('a bit0)"
      by (simp add: mult_2 power_add)
    then have "take_bit LENGTH('a bit0) (push_bit LENGTH('a) (unat h)) = unat h * 2 ^ LENGTH('a)"
      unfolding push_bit_eq_mult take_bit_eq_mod by (rule mod_less)
    then show ?thesis
      by (simp only: unsigned_push_bit_eq unat_ucast_bit0 mult.commute)
  qed
  moreover have "(push_bit LENGTH('a) (ucast h) AND ucast l :: 'a bit0 word) = 0"
    by (rule bit_word_eqI) (auto simp: bit_simps dest: bit_imp_le_length)
  ultimately have "nb_make h l = push_bit LENGTH('a) (ucast h) + ucast l"
    by (simp add: nb_make_def disjunctive_add_eq_or)
  then show ?thesis
    using pair_val_less [of "(h, l)"] \<open>unat (push_bit LENGTH('a) (ucast h) :: 'a bit0 word) = _\<close>
    by (simp add: unat_word_ariths pair_val_def mult_2 power_add)
qed

lemma nb_halves:
  fixes v :: "'a::len bit0 word"
  shows "unat (nb_hi v) = unat v div 2 ^ LENGTH('a)" "unat (nb_lo v) = unat v mod 2 ^ LENGTH('a)"
    "pair_val (nb_hi v, nb_lo v) = unat v"
proof -
  have "unat v div 2 ^ LENGTH('a) < 2 ^ LENGTH('a)"
    using unat_less_bit0 [of v] by (simp add: div_less_iff_less_mult)
  then show hi: "unat (nb_hi v) = unat v div 2 ^ LENGTH('a)"
    by (simp only: nb_hi_def unsigned_ucast_eq unsigned_drop_bit_eq take_bit_unat)
      (simp add: drop_bit_eq_div take_bit_eq_mod)
  have "v AND (push_bit LENGTH('a) 1 - 1) = take_bit LENGTH('a) v"
    by (simp add: take_bit_eq_mask mask_eq_exp_minus_1 push_bit_eq_mult)
  then show lo: "unat (nb_lo v) = unat v mod 2 ^ LENGTH('a)"
    unfolding nb_lo_def unsigned_ucast_eq by (simp add: unsigned_take_bit_eq flip: take_bit_eq_mod)
  show "pair_val (nb_hi v, nb_lo v) = unat v"
    by (simp add: pair_val_def hi lo)
qed

lemma nb_mul_val: "unat (nb_mul a b) = unat a * unat (b :: 'a::len word)"
  using half_product [of a b] by (simp add: nb_mul_def unat_word_ariths mult_2 power_add)

lemma quotient_fits:
  fixes v :: "'a::len word" and n :: "'a word \<times> 'a word"
  assumes "unat (fst n) < unat v"
  shows "pair_val n div unat v < 2 ^ LENGTH('a)"
proof -
  have "pair_val n < 2 ^ LENGTH('a) * (unat (fst n) + 1)"
    by (simp add: pair_val_def)
  also have "\<dots> \<le> 2 ^ LENGTH('a) * unat v"
    using assms by (intro mult_left_mono) simp_all
  finally show ?thesis
    using assms by (simp add: div_less_iff_less_mult)
qed

lemma nb_divmod_val:
  assumes "unat (fst n) < unat (v :: 'a::len word)"
  shows "\<exists>q r. nb_divmod (nb_make (fst n) (snd n)) v = Some (q, r) \<and>
    unat q = pair_val n div unat v \<and> unat r = pair_val n mod unat v"
proof -
  have "pair_val n mod unat v < 2 ^ LENGTH('a)"
    using assms by (intro less_trans [OF mod_less_divisor unat_less]) simp
  then show ?thesis
    using assms quotient_fits [OF assms] nb_make_val [of "fst n" "snd n"]
    by (auto simp: nb_divmod_def unsigned_ucast_eq take_bit_eq_mod unat_div unat_mod)
qed

lemma nb_gt_val: "nb_gt (nb_make h l) (nb_make h' l') \<longleftrightarrow> pair_val (h', l') < pair_val (h, l)"
  by (simp add: nb_gt_def word_less_nat_alt nb_make_val)

interpretation native: big_word_div native_big
  by unfold_locales
     (simp_all add: native_big_def nb_halves(3) nb_mul_val nb_gt_val nb_divmod_val)

section \<open>The composite words meet the contract\<close>

lemma cb_gt_val: "cb_gt x y \<longleftrightarrow> pair_val y < pair_val (x :: 'a::len cb)"
proof -
  have "pair_val y < pair_val x" if "unat (fst y) < unat (fst x)" for x y :: "'a cb"
  proof -
    have "pair_val y < 2 ^ LENGTH('a) * (unat (fst y) + 1)"
      by (simp add: pair_val_def)
    also have "\<dots> \<le> 2 ^ LENGTH('a) * unat (fst x)"
      using that by (intro mult_left_mono) simp_all
    finally show ?thesis
      by (simp add: pair_val_def)
  qed
  from this [of x y] this [of y x] show ?thesis
    by (cases "unat (fst x)" "unat (fst y)" rule: linorder_cases)
       (auto simp: cb_gt_def word_less_nat_alt pair_val_def word_unat_eq_iff)
qed

text \<open>Half-words: \<open>c\<close> is \<open>chunk\<close>.\<close>

lemma half_words:
  fixes a :: "'a::len word"
  assumes "LENGTH('a) = 2 * c"
  shows "unat (drop_bit c a) = unat a div 2 ^ c" "unat (a AND (push_bit c 1 - 1)) = unat a mod 2 ^ c"
    "unat a div 2 ^ c < 2 ^ c" "2 ^ LENGTH('a) = (2 ^ c * 2 ^ c :: nat)"
proof -
  show len: "2 ^ LENGTH('a) = (2 ^ c * 2 ^ c :: nat)"
    by (simp add: assms mult_2 power_add)
  show "unat (drop_bit c a) = unat a div 2 ^ c"
    unfolding unsigned_drop_bit_eq take_bit_unat by (rule drop_bit_eq_div)
  have *: "a AND (push_bit c 1 - 1) = take_bit c a"
    by (simp add: take_bit_eq_mask mask_eq_exp_minus_1 push_bit_eq_mult)
  show "unat (a AND (push_bit c 1 - 1)) = unat a mod 2 ^ c"
    unfolding * unsigned_take_bit_eq by (rule take_bit_eq_mod)
  show "unat a div 2 ^ c < 2 ^ c"
    using unat_less [of a] unfolding len by (simp add: div_less_iff_less_mult)
qed

text \<open>The product in halves, on natural numbers, with \<open>p\<close> the base of a half.\<close>

lemma product_in_halves:
  fixes p xh xl yh yl :: nat
  assumes "xh < p" "xl < p" "yh < p" "yl < p" "4 \<le> p"
  defines "ll \<equiv> xl * yl" and "lh \<equiv> xl * yh" and "hl \<equiv> xh * yl" and "hh \<equiv> xh * yh"
  defines "cross \<equiv> ll div p + lh mod p + hl mod p"
  defines "hi \<equiv> hh + lh div p + hl div p + cross div p"
  shows "ll < p * p" "lh < p * p" "hl < p * p" "hh < p * p" "cross < p * p"
    "(p * xh + xl) * (p * yh + yl) = p * p * hi + (p * (cross mod p) + ll mod p)" "hi < p * p"
    "ll div p + lh mod p < p * p" "hh + lh div p < p * p" "hh + lh div p + hl div p < p * p"
proof -
  show "ll < p * p" "lh < p * p" "hl < p * p" "hh < p * p"
    unfolding ll_def lh_def hl_def hh_def using assms(1-4) by (intro mult_strict_mono'; simp)+
  have "ll div p < p"
    using \<open>ll < p * p\<close> assms(1) by (intro less_mult_imp_div_less)
  moreover have "lh mod p < p" "hl mod p < p"
    using assms by simp_all
  ultimately have "cross < 3 * p"
    unfolding cross_def by linarith
  also have "\<dots> \<le> p * p"
    using assms by simp
  finally show cross: "cross < p * p" .
  then show "ll div p + lh mod p < p * p"
    by (simp add: cross_def)
  have split: "z = p * (z div p) + z mod p" for z
    by simp
  have "(p * xh + xl) * (p * yh + yl) = p * p * hh + p * lh + p * hl + ll"
    by (simp add: ll_def lh_def hl_def hh_def algebra_simps)
  also have "\<dots> = p * p * (hh + lh div p + hl div p) + p * cross + ll mod p"
  proof -
    have "p * lh = p * p * (lh div p) + p * (lh mod p)" "p * hl = p * p * (hl div p) + p * (hl mod p)"
      "ll = p * (ll div p) + ll mod p"
      by (simp_all flip: distrib_left add: mult.assoc)
    then show ?thesis
      unfolding cross_def distrib_left by linarith
  qed
  also have "p * cross = p * p * (cross div p) + p * (cross mod p)"
    by (simp flip: distrib_left add: mult.assoc)
  finally show prod: "(p * xh + xl) * (p * yh + yl) = p * p * hi + (p * (cross mod p) + ll mod p)"
    by (simp add: hi_def distrib_left)
  have digit: "p * a + b < p * p" if "a < p" "b < p" for a b
  proof -
    have "p * a + b < p * (a + 1)"
      using that by simp
    also have "\<dots> \<le> p * p"
      using that by (intro mult_left_mono) simp_all
    finally show ?thesis .
  qed
  have "(p * xh + xl) * (p * yh + yl) < (p * p) * (p * p)"
    using digit assms by (intro mult_strict_mono') simp_all
  then have "p * p * hi < p * p * (p * p)"
    using prod by linarith
  then show hi: "hi < p * p"
    by simp
  then show "hh + lh div p < p * p" "hh + lh div p + hl div p < p * p"
    by (simp_all add: hi_def)
qed

lemma unat_no_wrap:
  fixes a b :: "'a::len word"
  shows "unat a + unat b < 2 ^ LENGTH('a) \<Longrightarrow> unat (a + b) = unat a + unat b"
    "unat a * unat b < 2 ^ LENGTH('a) \<Longrightarrow> unat (a * b) = unat a * unat b"
  by (simp_all add: unat_word_ariths)

lemma unat_digits:
  fixes lo hi :: "'a::len word"
  assumes "LENGTH('a) = 2 * c" "unat lo < 2 ^ c"
  shows "unat (lo OR push_bit c hi) = 2 ^ c * (unat hi mod 2 ^ c) + unat lo"
    "unat (push_bit c hi OR lo) = 2 ^ c * (unat hi mod 2 ^ c) + unat lo"
proof -
  have lo: "unat lo = take_bit c (unat lo)"
    using assms(2) by (simp add: take_bit_nat_eq_self)
  have bits: "bit (lo OR push_bit c hi) i \<longleftrightarrow> bit (2 ^ c * (unat hi mod 2 ^ c) + unat lo) i"
    if "i < LENGTH('a)" for i
  proof (cases "i < c")
    case True
    then show ?thesis
      using assms that bit_add_shifted [OF assms(2), of "unat hi mod 2 ^ c" i]
      by (simp add: bit_simps add.commute)
  next
    case False
    then have "i - c < c"
      using assms(1) that by simp
    have "\<not> bit lo i"
      using False bit_nat_less [OF assms(2), of i] by (simp add: bit_unsigned_iff)
    then show ?thesis
      using False \<open>i - c < c\<close> assms that bit_add_shifted [OF assms(2), of "unat hi mod 2 ^ c" i]
      by (simp add: bit_simps add.commute flip: take_bit_eq_mod)
  qed
  have bound: "2 ^ c * (unat hi mod 2 ^ c) + unat lo < 2 ^ LENGTH('a)"
  proof -
    have "2 ^ c * (unat hi mod 2 ^ c) + unat lo < 2 ^ c * (unat hi mod 2 ^ c + 1)"
      using assms(2) by simp
    also have "\<dots> \<le> 2 ^ c * 2 ^ c"
      by (intro mult_left_mono) (simp_all add: Suc_le_eq)
    finally show ?thesis
      by (simp add: assms(1) mult_2 power_add)
  qed
  show *: "unat (lo OR push_bit c hi) = 2 ^ c * (unat hi mod 2 ^ c) + unat lo"
  proof (rule bit_eqI)
    fix i
    show "bit (unat (lo OR push_bit c hi)) i \<longleftrightarrow> bit (2 ^ c * (unat hi mod 2 ^ c) + unat lo) i"
      using bits [of i] bit_nat_less [OF bound, of i]
      by (cases "i < LENGTH('a)") (auto simp: bit_unsigned_iff dest: bit_imp_le_length)
  qed
  show "unat (push_bit c hi OR lo) = 2 ^ c * (unat hi mod 2 ^ c) + unat lo"
    using * by (simp add: or.commute)
qed

lemma cb_mul_val:
  fixes a b :: "'a::len word"
  assumes "LENGTH('a) = 2 * c" "2 \<le> c"
  shows "pair_val (cb_mul a b) = unat a * unat b"
proof -
  define p :: nat where "p = 2 ^ c"
  define xh xl yh yl where "xh = unat a div p" and "xl = unat a mod p"
    and "yh = unat b div p" and "yl = unat b mod p"
  have p: "4 \<le> p" "2 ^ LENGTH('a) = p * p"
    using assms power_increasing [of 2 c "2 :: nat"] by (simp_all add: p_def mult_2 power_add)
  have half: "unat (drop_bit c z) = unat z div p" "unat (z AND (push_bit c 1 - 1)) = unat z mod p"
    "unat z div p < p" "unat z mod p < p" for z :: "'a word"
    using half_words(1-3) [OF assms(1), of z] by (simp_all add: p_def)
  have ab: "unat a = p * xh + xl" "unat b = p * yh + yl"
    by (simp_all add: xh_def xl_def yh_def yl_def)
  note digits = half(3) [of a, folded xh_def] half(4) [of a, folded xl_def]
    half(3) [of b, folded yh_def] half(4) [of b, folded yl_def]
  note prod = product_in_halves [OF digits p(1)]
  let ?lo = "\<lambda>z. z AND (push_bit c 1 - 1) :: 'a word" and ?hi = "\<lambda>z. drop_bit c z :: 'a word"
  have ll: "unat (?lo a * ?lo b) = xl * yl" and lh: "unat (?lo a * ?hi b) = xl * yh"
    and hl: "unat (?hi a * ?lo b) = xh * yl" and hh: "unat (?hi a * ?hi b) = xh * yh"
    using prod(1-4) by (subst unat_no_wrap(2); simp only: half p(2) xh_def xl_def yh_def yl_def)+
  let ?cross = "?hi (?lo a * ?lo b) + ?lo (?lo a * ?hi b) + ?lo (?hi a * ?lo b)"
  have "unat (?hi (?lo a * ?lo b) + ?lo (?lo a * ?hi b)) = xl * yl div p + xl * yh mod p"
    using prod(8) by (subst unat_no_wrap(1)) (simp_all only: half ll lh p(2))
  then have cross: "unat ?cross = xl * yl div p + xl * yh mod p + xh * yl mod p"
    using prod(5) by (subst unat_no_wrap(1)) (simp_all only: half hl p(2))
  have "unat (?hi a * ?hi b + ?hi (?lo a * ?hi b)) = xh * yh + xl * yh div p"
    using prod(9) by (subst unat_no_wrap(1)) (simp_all only: half hh lh p(2))
  then have "unat (?hi a * ?hi b + ?hi (?lo a * ?hi b) + ?hi (?hi a * ?lo b)) =
    xh * yh + xl * yh div p + xh * yl div p"
    using prod(10) by (subst unat_no_wrap(1)) (simp_all only: half hl p(2))
  then have hi: "unat (?hi a * ?hi b + ?hi (?lo a * ?hi b) + ?hi (?hi a * ?lo b) + ?hi ?cross) =
    xh * yh + xl * yh div p + xh * yl div p + (xl * yl div p + xl * yh mod p + xh * yl mod p) div p"
    using prod(7) by (subst unat_no_wrap(1)) (simp_all only: half cross p(2))
  have "unat (?lo (?lo a * ?lo b) OR push_bit c ?cross) = p * (unat ?cross mod p) + unat (?lo (?lo a * ?lo b))"
    unfolding p_def by (rule unat_digits(1) [OF assms(1)]) (use half(4) [of "?lo a * ?lo b"] in \<open>simp only: half(2) p_def\<close>)
  then have lo: "unat (?lo (?lo a * ?lo b) OR push_bit c ?cross) =
    p * ((xl * yl div p + xl * yh mod p + xh * yl mod p) mod p) + xl * yl mod p"
    by (simp only: cross half(2) ll)
  have "LENGTH('a) div 2 = c"
    using assms(1) by simp
  then have "pair_val (cb_mul a b) = p * p * unat (?hi a * ?hi b + ?hi (?lo a * ?hi b) + ?hi (?hi a * ?lo b) + ?hi ?cross) +
    unat (?lo (?lo a * ?lo b) OR push_bit c ?cross)"
    by (simp only: cb_mul_def Let_def pair_val_def fst_conv snd_conv p(2))
  also have "\<dots> = unat a * unat b"
    unfolding hi lo ab by (rule prod(6) [symmetric])
  finally show ?thesis .
qed

text \<open>One estimation step, on natural numbers, with \<open>p\<close> the base of a half.\<close>

lemma estimate_digit:
  fixes p d1 d0 n h :: nat
  assumes "p \<le> 2 * d1" "d1 < p" "d0 < p" "n < p" "h < p * d1 + d0"
  defines "v \<equiv> p * d1 + d0" and "c1 \<equiv> h div d1 * d0" and "c2 \<equiv> h mod d1 * p + n"
  shows "c1 < p * p" "c2 < p * p" "c2 < c1 \<Longrightarrow> 1 + of_bool (v < c1 - c2) \<le> h div d1"
    "(h * p + n) div v = (if c2 < c1 then h div d1 - (1 + of_bool (v < c1 - c2)) else h div d1)"
proof -
  define q r where "q = h div d1" and "r = h mod d1"
  have d1: "0 < d1" "0 < p"
    using assms(1,2) by linarith+
  have h: "h = q * d1 + r" "r < d1"
    using d1 by (simp_all add: q_def r_def)
  have "q \<le> p + 1"
  proof -
    have "h < d1 * (p + 2)"
      using assms(1,3,5) by (simp add: algebra_simps)
    then have "q < p + 2"
      using d1 by (simp add: q_def div_less_iff_less_mult mult.commute)
    then show ?thesis by simp
  qed
  then have "q * d0 \<le> (p + 1) * (p - 1)"
    using assms(3) by (intro mult_le_mono) simp_all
  also have "\<dots> < p * p"
    using d1 by (cases p) simp_all
  finally show c1: "c1 < p * p"
    by (simp add: c1_def q_def)
  have "c2 < (r + 1) * p"
    using assms(4) by (simp add: c2_def r_def)
  also have "\<dots> \<le> d1 * p"
    using h(2) by (intro mult_right_mono) simp_all
  finally have c2: "c2 < d1 * p" .
  also have "\<dots> < p * p"
    using assms(2) d1 by simp
  finally show "c2 < p * p" .
  have v: "0 < v" "d1 * p \<le> v"
    using d1 by (simp_all add: v_def)
  have "p * p \<le> 2 * d1 * p"
    by (rule mult_le_mono1 [OF assms(1)])
  also have "\<dots> \<le> 2 * v"
    by (simp add: v_def algebra_simps)
  finally have big: "p * p \<le> 2 * v" .
  have split: "h * p + n + c1 = q * v + c2"
  proof -
    have "c1 = q * d0" "c2 = r * p + n"
      by (simp_all add: c1_def c2_def q_def r_def)
    then show ?thesis
      by (simp add: h(1) v_def algebra_simps)
  qed
  have exact: "(h * p + n) div v = k" if "h * p + n = k * v + s" "s < v" for k s
    using that v(1) by simp
  show "c2 < c1 \<Longrightarrow> 1 + of_bool (v < c1 - c2) \<le> h div d1"
    and "(h * p + n) div v = (if c2 < c1 then h div d1 - (1 + of_bool (v < c1 - c2)) else h div d1)"
  proof -
    show qpos: "1 + of_bool (v < c1 - c2) \<le> h div d1" if lt: "c2 < c1"
    proof (rule ccontr)
      assume "\<not> 1 + of_bool (v < c1 - c2) \<le> h div d1"
      then have "q < 1 + of_bool (v < c1 - c2)"
        by (simp only: q_def not_le)
      then have "q = 0 \<or> q = 1 \<and> v < c1 - c2"
        by (cases "v < c1 - c2") (auto simp: less_Suc_eq)
      then have "q * v + c2 < c1"
        using lt by auto
      then show False
        using split by linarith
    qed
    show "(h * p + n) div v = (if c2 < c1 then h div d1 - (1 + of_bool (v < c1 - c2)) else h div d1)"
    proof (cases "c2 < c1")
      case False
      then have "h * p + n = q * v + (c2 - c1)" "c2 - c1 < v"
        using split c2 v(2) by linarith+
      then have "(h * p + n) div v = q"
        by (rule exact)
      then show ?thesis
        using False by (simp flip: q_def)
    next
      case lt: True
      show ?thesis
      proof (cases "v < c1 - c2")
        case True
        then obtain k where k: "q = k + 2"
          using qpos [OF lt] that [of "q - 2"] by (simp flip: q_def)
        then have "h * p + n = k * v + (2 * v - (c1 - c2))" "2 * v - (c1 - c2) < v"
          using True split c1 big lt by (simp_all add: algebra_simps)
        then have "(h * p + n) div v = k"
          by (rule exact)
        then show ?thesis
          using True lt k by (simp flip: q_def)
      next
        case False
        then obtain k where k: "q = k + 1"
          using qpos [OF lt] that [of "q - 1"] by (simp flip: q_def)
        then have "h * p + n = k * v + (v - (c1 - c2))" "v - (c1 - c2) < v"
          using False split lt v(1) by (simp_all add: algebra_simps)
        then have "(h * p + n) div v = k"
          by (rule exact)
        then show ?thesis
          using False lt k by (simp flip: q_def)
      qed
    qed
  qed
qed

lemma cb_estimate_val:
  fixes h n d1 d0 v :: "'a::len word"
  assumes "LENGTH('a) = 2 * c" "2 ^ c \<le> 2 * unat d1" "unat d1 < 2 ^ c" "unat d0 < 2 ^ c" "unat n < 2 ^ c"
    "unat v = 2 ^ c * unat d1 + unat d0" "unat h < unat v"
  shows "unat (cb_estimate h n d1 d0 v) = (unat h * 2 ^ c + unat n) div unat v"
proof -
  have len: "2 ^ LENGTH('a) = (2 ^ c * 2 ^ c :: nat)" "LENGTH('a) div 2 = c"
    by (simp_all add: assms(1) mult_2 power_add)
  note est = estimate_digit [OF assms(2-5) assms(7) [unfolded assms(6)], folded assms(6)]
  have c: "c \<noteq> 0"
  proof
    assume "c = 0"
    then show False
      using assms(2,3) by simp
  qed
  define B :: "'a word" where "B = push_bit c 1"
  have b: "unat B = 2 ^ c"
    using c assms(1) by (simp add: unat_exp_below push_bit_eq_mult B_def)
  have c1: "unat (h div d1 * d0) = unat h div unat d1 * unat d0"
    using est(1) by (subst unat_no_wrap(2)) (simp_all only: unat_div len)
  have "unat (h mod d1 * B) = unat h mod unat d1 * 2 ^ c"
  proof (subst unat_no_wrap(2))
    show "unat (h mod d1) * unat B < 2 ^ LENGTH('a)"
      unfolding unat_mod b len using est(2) by linarith
  qed (simp only: unat_mod b)
  then have c2: "unat (h mod d1 * B + n) = unat h mod unat d1 * 2 ^ c + unat n"
    using est(2) by (subst unat_no_wrap(1)) (simp_all only: len)
  have lt: "h mod d1 * B + n < h div d1 * d0 \<longleftrightarrow>
    unat h mod unat d1 * 2 ^ c + unat n < unat h div unat d1 * unat d0"
    by (simp only: word_less_nat_alt c1 c2)
  have eq: "cb_estimate h n d1 d0 v = (if h mod d1 * B + n < h div d1 * d0
    then h div d1 - (1 + of_bool (v < h div d1 * d0 - (h mod d1 * B + n))) else h div d1)"
    by (simp only: cb_estimate_def Let_def len(2) B_def)
  show ?thesis
  proof (cases "unat h mod unat d1 * 2 ^ c + unat n < unat h div unat d1 * unat d0")
    case True
    let ?k = "1 + of_bool (v < h div d1 * d0 - (h mod d1 * B + n)) :: 'a word"
    have "unat (h div d1 * d0 - (h mod d1 * B + n)) =
      unat h div unat d1 * unat d0 - (unat h mod unat d1 * 2 ^ c + unat n)"
      using True by (subst unat_sub) (simp_all only: word_le_nat_alt c1 c2 less_imp_le)
    then have k: "unat ?k = 1 + of_bool (unat v < unat h div unat d1 * unat d0 - (unat h mod unat d1 * 2 ^ c + unat n))"
      using assms(1) c by (simp add: word_less_nat_alt)
    have "unat (h div d1 - ?k) = unat (h div d1) - unat ?k"
      using est(3) [OF True] by (intro unat_sub) (simp only: word_le_nat_alt unat_div k)
    then show ?thesis
      unfolding eq using True lt est(4) by (simp only: if_True unat_div k)
  next
    case False
    then show ?thesis
      unfolding eq using lt est(4) by (simp only: if_False unat_div)
  qed
qed

text \<open>Shifting both operands of the division left until the divisor is normalised.\<close>

lemma normalised_divisor:
  fixes v :: "'a::len word"
  assumes "LENGTH('a) = 2 * c" "2 \<le> c" "0 < unat v"
  defines "s \<equiv> countl_zero v" and "w \<equiv> push_bit (countl_zero v) v"
  shows "s < LENGTH('a)" "unat w = 2 ^ s * unat v" "2 ^ c \<le> 2 * (unat w div 2 ^ c)"
proof -
  have v: "v \<noteq> 0"
    using assms(3) by auto
  show s: "s < LENGTH('a)"
    using countl_zero_bit(1) [OF v] by (simp add: s_def)
  have bounds: "2 ^ (LENGTH('a) - 1 - s) \<le> unat v" "unat v < 2 ^ (LENGTH('a) - s)"
    using countl_zero_unat [OF v] by (simp_all add: s_def)
  have "2 ^ s * unat v < 2 ^ s * 2 ^ (LENGTH('a) - s)"
    using bounds(2) by simp
  also have "\<dots> = 2 ^ LENGTH('a)"
    using s by (simp flip: power_add)
  finally have fits: "2 ^ s * unat v < 2 ^ LENGTH('a)" .
  then have "take_bit LENGTH('a) (push_bit s (unat v)) = 2 ^ s * unat v"
    unfolding push_bit_eq_mult take_bit_eq_mod by (simp add: mult.commute)
  then show w: "unat w = 2 ^ s * unat v"
    unfolding w_def s_def [symmetric] by (simp only: unsigned_push_bit_eq)
  have "2 ^ (LENGTH('a) - 1) = (2 ^ s * 2 ^ (LENGTH('a) - 1 - s) :: nat)"
    using s by (simp flip: power_add)
  also have "\<dots> \<le> unat w"
    using bounds(1) by (simp add: w)
  finally have "2 ^ (LENGTH('a) - 1) div 2 ^ c \<le> unat w div 2 ^ c"
    by (rule div_le_mono)
  moreover have "2 ^ (LENGTH('a) - 1) div 2 ^ c = (2 ^ (c - 1) :: nat)"
    using assms(1,2) by (simp add: power_diff [symmetric])
  moreover have "2 ^ c = (2 * 2 ^ (c - 1) :: nat)"
    using assms(2) by (simp flip: power_Suc)
  ultimately show "2 ^ c \<le> 2 * (unat w div 2 ^ c)"
    by simp
qed

lemma shifted_dividend:
  fixes h l v :: "'a::len word"
  assumes "unat h < unat v" "s < LENGTH('a)" "2 ^ s * unat v < 2 ^ LENGTH('a)"
  defines "h' \<equiv> push_bit s h OR
    (drop_bit ((LENGTH('a) - s) mod LENGTH('a)) l AND (if s = 0 then 0 else - 1))"
    and "l' \<equiv> push_bit s l"
  shows "2 ^ LENGTH('a) * unat h' + unat l' = 2 ^ s * pair_val (h, l)"
proof -
  let ?w = "LENGTH('a)"
  have fits: "2 ^ s * unat h < 2 ^ ?w"
  proof -
    have "2 ^ s * unat h \<le> 2 ^ s * unat v"
      using assms(1) by simp
    then show ?thesis
      using assms(3) by linarith
  qed
  have h_shift: "unat (push_bit s h) = 2 ^ s * unat h"
    using fits unfolding unsigned_push_bit_eq by (simp add: push_bit_eq_mult take_bit_eq_mod mult.commute)
  have l': "unat l' = 2 ^ s * unat l mod 2 ^ ?w"
    unfolding l'_def unsigned_push_bit_eq by (simp add: push_bit_eq_mult take_bit_eq_mod mult.commute)
  show ?thesis
  proof (cases "s = 0")
    case True
    then show ?thesis
      by (simp add: h'_def l'_def pair_val_def)
  next
    case False
    then have "unat (drop_bit (?w - s) l) = unat l div 2 ^ (?w - s)"
      unfolding unsigned_drop_bit_eq take_bit_unat by (intro drop_bit_eq_div)
    also have "\<dots> = 2 ^ s * unat l div 2 ^ ?w"
    proof -
      have "2 ^ ?w = (2 ^ s * 2 ^ (?w - s) :: nat)"
        using assms(2) by (simp flip: power_add)
      then show ?thesis
        by simp
    qed
    finally have low: "unat (drop_bit (?w - s) l) = 2 ^ s * unat l div 2 ^ ?w" .
    have "push_bit s h AND drop_bit (?w - s) l = 0"
      using assms(2) by (intro bit_word_eqI) (auto simp: bit_simps dest: bit_imp_le_length)
    then have "h' = push_bit s h + drop_bit (?w - s) l"
      using False assms(2) by (simp add: h'_def disjunctive_add_eq_or)
    moreover have "2 ^ s * unat h + 2 ^ s * unat l div 2 ^ ?w < 2 ^ ?w"
    proof -
      have "2 ^ s * unat l < 2 ^ s * 2 ^ ?w"
        by simp
      then have "2 ^ s * unat l div 2 ^ ?w < 2 ^ s"
        by (intro less_mult_imp_div_less)
      then have "2 ^ s * unat h + 2 ^ s * unat l div 2 ^ ?w < 2 ^ s * (unat h + 1)"
        by simp
      also have "\<dots> \<le> 2 ^ s * unat v"
        using assms(1) by (intro mult_left_mono) simp_all
      finally show ?thesis
        using assms(3) by linarith
    qed
    ultimately have h': "unat h' = 2 ^ s * unat h + 2 ^ s * unat l div 2 ^ ?w"
      by (simp add: unat_no_wrap(1) h_shift low)
    have "2 ^ ?w * (2 ^ s * unat l div 2 ^ ?w) + 2 ^ s * unat l mod 2 ^ ?w = 2 ^ s * unat l"
      by simp
    then show ?thesis
      unfolding h' l' pair_val_def fst_conv snd_conv distrib_left by (simp add: mult.left_commute)
  qed
qed

text \<open>The partial remainder is computed modulo the word, but it fits.\<close>

lemma partial_remainder:
  fixes h n v q :: "'a::len word"
  assumes "c < LENGTH('a)" "unat q = (unat h * 2 ^ c + unat n) div unat v" "0 < unat v"
  shows "unat (h * push_bit c 1 + n - q * v) = (unat h * 2 ^ c + unat n) mod unat v"
proof -
  let ?x = "unat h * 2 ^ c + unat n"
  have "h * push_bit c 1 + n = (of_nat ?x :: 'a word)"
    by (simp add: push_bit_eq_mult)
  moreover have "q * v = of_nat (?x div unat v * unat v)"
    by (simp flip: assms(2))
  moreover have "?x = ?x div unat v * unat v + ?x mod unat v"
    by simp
  ultimately have "h * push_bit c 1 + n - q * v = of_nat (?x mod unat v)"
    by (metis add_diff_cancel_left' of_nat_add)
  moreover have "?x mod unat v < 2 ^ LENGTH('a)"
    using assms(3) by (intro less_trans [OF mod_less_divisor unat_less])
  ultimately show ?thesis
    by (simp add: unat_of_nat)
qed

lemma cb_divmod_val:
  fixes n :: "'a::len cb"
  assumes "LENGTH('a) = 2 * c" "2 \<le> c" "unat (fst n) < unat v"
  shows "unat (fst (cb_divmod n v)) = pair_val n div unat v"
    "unat (snd (cb_divmod n v)) = pair_val n mod unat v"
proof -
  obtain h l where n: "n = (h, l)"
    by (cases n)
  have "unat (fst (cb_divmod n v)) = pair_val n div unat v \<and>
    unat (snd (cb_divmod n v)) = pair_val n mod unat v"
  proof (cases "h = 0")
    case True
    then show ?thesis
      using assms(3) by (simp add: n cb_divmod_def pair_val_def word_le_nat_alt unat_div unat_mod)
  next
    case False
    define s V where "s = countl_zero v" and "V = push_bit s v"
    define H where "H = push_bit s h OR
      (drop_bit ((LENGTH('a) - s) mod LENGTH('a)) l AND (if s = 0 then 0 else - 1))"
    define L where "L = push_bit s l"
    define n1 n0 where "n1 = drop_bit c L" and "n0 = L AND (push_bit c 1 - 1)"
    define d1 d0 where "d1 = drop_bit c V" and "d0 = V AND (push_bit c 1 - 1)"
    define q1 where "q1 = cb_estimate H n1 d1 d0 V AND (push_bit c 1 - 1)"
    define r where "r = H * push_bit c 1 + n1 - q1 * V"
    define q0 where "q0 = cb_estimate r n0 d1 d0 V AND (push_bit c 1 - 1)"
    have eq: "cb_divmod n v = (push_bit c q1 OR q0, drop_bit s (r * push_bit c 1 + n0 - q0 * V))"
      using assms(1,3) False by (simp add: n cb_divmod_def Let_def word_le_nat_alt q1_def q0_def r_def
          H_def L_def n1_def n0_def d1_def d0_def V_def s_def)
    have vpos: "0 < unat v"
      using assms(3) by linarith
    note norm = normalised_divisor [OF assms(1,2) vpos, folded s_def, folded V_def]
    note half = half_words(1-3) [OF assms(1)]
    have V: "unat V = 2 ^ c * unat d1 + unat d0" "0 < unat V"
      using norm(2) vpos by (simp_all only: d1_def d0_def half mult_div_mod_eq) simp
    have small: "unat n1 < 2 ^ c" "unat n0 < 2 ^ c" "unat d1 < 2 ^ c" "unat d0 < 2 ^ c"
      by (simp_all only: n1_def n0_def d1_def d0_def half) simp_all
    have d1: "2 ^ c \<le> 2 * unat d1"
      using norm(3) by (simp only: d1_def half)
    have L: "unat L = 2 ^ c * unat n1 + unat n0"
      by (simp only: n1_def n0_def half mult_div_mod_eq)
    have fits: "2 ^ s * unat v < 2 ^ LENGTH('a)"
      using norm(2) unat_less [of V] by simp
    have HL: "2 ^ LENGTH('a) * unat H + unat L = 2 ^ s * pair_val n"
      using shifted_dividend [OF _ norm(1) fits, of h l] assms(3) by (simp only: n fst_conv H_def L_def)
    have total: "(unat H * 2 ^ c + unat n1) * 2 ^ c + unat n0 = 2 ^ s * pair_val n"
    proof -
      have "2 ^ LENGTH('a) = (2 ^ c * 2 ^ c :: nat)"
        by (simp add: assms(1) mult_2 power_add)
      then show ?thesis
        using HL by (simp only: L) (simp add: algebra_simps)
    qed
    have "pair_val n < 2 ^ LENGTH('a) * unat v"
      using quotient_fits [OF assms(3)] vpos by (simp add: div_less_iff_less_mult)
    then have "2 ^ s * pair_val n < 2 ^ LENGTH('a) * unat V"
      by (simp add: norm(2) mult.left_commute)
    then have "2 ^ LENGTH('a) * unat H < 2 ^ LENGTH('a) * unat V"
      using HL by linarith
    then have H: "unat H < unat V"
      by simp
    note est1 = cb_estimate_val [OF assms(1) d1 small(3,4,1) V(1) H]
    have "unat H * 2 ^ c + unat n1 < unat V * 2 ^ c"
    proof -
      have "unat H * 2 ^ c + unat n1 < (unat H + 1) * 2 ^ c"
        using small(1) by simp
      also have "\<dots> \<le> unat V * 2 ^ c"
        using H by (intro mult_right_mono) simp_all
      finally show ?thesis .
    qed
    then have "(unat H * 2 ^ c + unat n1) div unat V < 2 ^ c"
      using V(2) by (simp add: div_less_iff_less_mult mult.commute)
    then have q1: "unat q1 = (unat H * 2 ^ c + unat n1) div unat V"
      by (simp only: q1_def half est1 mod_less)
    have c: "c < LENGTH('a)"
      using assms(1,2) by simp
    note r = partial_remainder [OF c q1 V(2), folded r_def]
    have R: "unat r < unat V"
      unfolding r using V(2) by simp
    note est0 = cb_estimate_val [OF assms(1) d1 small(3,4,2) V(1) R]
    have "unat r * 2 ^ c + unat n0 < unat V * 2 ^ c"
    proof -
      have "unat r * 2 ^ c + unat n0 < (unat r + 1) * 2 ^ c"
        using small(2) by simp
      also have "\<dots> \<le> unat V * 2 ^ c"
        using R by (intro mult_right_mono) simp_all
      finally show ?thesis .
    qed
    then have "(unat r * 2 ^ c + unat n0) div unat V < 2 ^ c"
      using V(2) by (simp add: div_less_iff_less_mult mult.commute)
    then have q0: "unat q0 = (unat r * 2 ^ c + unat n0) div unat V"
      by (simp only: q0_def half est0 mod_less)
    note rem = partial_remainder [OF c q0 V(2)]
    let ?X = "unat H * 2 ^ c + unat n1" and ?Y = "unat r * 2 ^ c + unat n0"
    have "?X = unat q1 * unat V + unat r"
      unfolding q1 r by simp
    then have "2 ^ s * pair_val n = unat q1 * 2 ^ c * unat V + ?Y"
      using total by (simp add: algebra_simps)
    also have "?Y = unat q0 * unat V + ?Y mod unat V"
      unfolding q0 by simp
    finally have "2 ^ s * pair_val n = (unat q1 * 2 ^ c + unat q0) * unat V + ?Y mod unat V"
      by (simp add: algebra_simps)
    then have div: "2 ^ s * pair_val n div unat V = unat q1 * 2 ^ c + unat q0"
      and mod: "2 ^ s * pair_val n mod unat V = ?Y mod unat V"
      using V(2) by simp_all
    have "unat q1 < 2 ^ c" "unat q0 < 2 ^ c"
      by (simp_all only: q1_def q0_def half) simp_all
    then have "unat (push_bit c q1 OR q0) = pair_val n div unat v"
      using unat_digits(2) [OF assms(1)] div by (simp add: norm(2) mult.commute)
    moreover have "unat (drop_bit s (r * push_bit c 1 + n0 - q0 * V)) = pair_val n mod unat v"
    proof -
      have "unat (drop_bit s (r * push_bit c 1 + n0 - q0 * V)) = ?Y mod unat V div 2 ^ s"
        unfolding unsigned_drop_bit_eq take_bit_unat unfolding rem by (rule drop_bit_eq_div)
      also have "\<dots> = 2 ^ s * (pair_val n mod unat v) div 2 ^ s"
        by (simp only: mod [symmetric]) (simp only: norm(2) mult_mod_right)
      finally show ?thesis
        by simp
    qed
    ultimately show ?thesis
      by (simp add: eq)
  qed
  then show "unat (fst (cb_divmod n v)) = pair_val n div unat v"
    "unat (snd (cb_divmod n v)) = pair_val n mod unat v"
    by simp_all
qed

interpretation composite: big_word_div "composite_big :: 64 word big_ops"
proof
  fix a b v :: "64 word" and x y n :: "64 word \<times> 64 word"
  show "pair_val (big_mul composite_big a b) = unat a * unat b"
    using cb_mul_val [of 32 a b] by (simp add: composite_big_def)
  show "big_gt composite_big x y \<longleftrightarrow> pair_val y < pair_val x"
    by (simp add: composite_big_def cb_gt_val)
  show "\<exists>q r. big_divmod composite_big n v = Some (q, r) \<and>
      unat q = pair_val n div unat v \<and> unat r = pair_val n mod unat v" if "unat (fst n) < unat v"
    using cb_divmod_val [of 32 n v] that by (cases "cb_divmod n v") (simp add: composite_big_def)
qed

section \<open>Both representations compute the same\<close>

text \<open>C25.  A composite 128-bit word multiplies, compares and divides exactly like the native
  one: the product is the full product, and when the quotient fits in a word (the high half
  is below the divisor) it and the remainder are those of the numbers.\<close>

theorem composite_is_native:
  fixes a b v :: "64 word" and n :: "64 cb"
  shows "cb_mul a b = (nb_hi (nb_mul a b), nb_lo (nb_mul a b)) \<and>
    (cb_gt (a, b) n \<longleftrightarrow> nb_gt (nb_make a b) (nb_make (fst n) (snd n))) \<and>
    (if fst n < v then Some (cb_divmod n v) = nb_divmod (nb_make (fst n) (snd n)) v
     else cb_divmod n v = (- 1, - 1))"
proof -
  have inject: "p = p'" if "pair_val p = pair_val p'" for p p' :: "64 cb"
  proof -
    have "pair_val p div 2 ^ 64 = unat (fst p)" "pair_val p mod 2 ^ 64 = unat (snd p)" for p :: "64 cb"
      using pair_val_div_mod [of "fst p" "snd p"] by simp_all
    with that show ?thesis
      by (metis prod_eq_iff word_unat_eq_iff)
  qed
  have "cb_mul a b = (nb_hi (nb_mul a b), nb_lo (nb_mul a b))"
    using composite.mul_val [of a b] native.mul_val [of a b] inject
    by (simp add: composite_big_def native_big_def)
  moreover have "cb_gt (a, b) n \<longleftrightarrow> nb_gt (nb_make a b) (nb_make (fst n) (snd n))"
    using composite.gt_val [of "(a, b)" n] native.gt_val [of "(a, b)" n]
    by (simp add: composite_big_def native_big_def)
  moreover have "Some (cb_divmod n v) = nb_divmod (nb_make (fst n) (snd n)) v" if "fst n < v"
    using composite.divmod_val [of n v] native.divmod_val [of n v] that
    by (force simp: composite_big_def native_big_def word_less_nat_alt word_unat_eq_iff prod_eq_iff)
  moreover have "cb_divmod n v = (- 1, - 1)" if "\<not> fst n < v"
    using that by (simp add: cb_divmod_def not_less)
  ultimately show ?thesis
    by simp
qed

end
