(* ===== verification/BitArith.thy ===== *)
theory BitArith
  imports BitEdit BigWord
begin

text \<open>
  The additive arithmetic of \<open>Bits<N>\<close>: addition, subtraction, increment, decrement,
  negation and the three-way comparison.  Carry loops are folds over the word indices with
  the carry in the state; an out parameter is the last argument, and the flag is returned
  with it.
\<close>

section \<open>Addition and subtraction\<close>

text \<open>The body of the schoolbook loop: \<open>(overflow, out)\<close>.\<close>

definition add_step ::
  "'a::len word list \<Rightarrow> 'a word list \<Rightarrow> bool \<times> 'a word list \<Rightarrow> nat \<Rightarrow> bool \<times> 'a word list" where
  "add_step xs ys st i = (
     let overflow = fst st; out = snd st;
         a = xs ! i + of_bool overflow;
         overflow = a < xs ! i;
         b = a + ys ! i
     in (overflow \<or> b < a, out[i := b]))"

definition bits_add_out ::
  "'a::len word big_ops \<Rightarrow> nat \<Rightarrow> 'a word list \<Rightarrow> 'a word list \<Rightarrow> 'a word list \<Rightarrow> bool \<times> 'a word list" where
  "bits_add_out ops N xs ys out = (
     let n = array_size TYPE('a) N
     in if n = 1 \<and> \<not> composite ops
        then let s = ucast (xs ! 0) + ucast (ys ! 0) :: 'a bit0 word
          in if end_mask N \<noteq> (0 :: 'a word)
             then (drop_bit (N mod LENGTH('a)) s \<noteq> 0, out[0 := ucast (s AND ucast (end_mask N :: 'a word))])
             else (drop_bit LENGTH('a) s \<noteq> 0, out[0 := ucast s])
        else let st = foldl (add_step xs ys) (False, out) [0..<full_words TYPE('a) N]
          in if end_mask N \<noteq> (0 :: 'a word)
             then let s = xs ! (n - 1) + of_bool (fst st) + ys ! (n - 1)
               in (drop_bit (N mod LENGTH('a)) s \<noteq> 0, (snd st)[n - 1 := s AND end_mask N])
             else st)"

definition bits_add ::
  "'a::len word big_ops \<Rightarrow> nat \<Rightarrow> 'a word list \<Rightarrow> 'a word list \<Rightarrow> bool \<times> 'a word list" where
  "bits_add ops N xs ys = bits_add_out ops N xs ys (bits_min N)"

definition sub_step ::
  "'a::len word list \<Rightarrow> 'a word list \<Rightarrow> bool \<times> 'a word list \<Rightarrow> nat \<Rightarrow> bool \<times> 'a word list" where
  "sub_step xs ys st i = (
     let overflow = fst st; out = snd st;
         a = xs ! i - of_bool overflow;
         overflow = xs ! i < a;
         b = a - ys ! i
     in (overflow \<or> a < b, out[i := b]))"

definition bits_sub_out ::
  "nat \<Rightarrow> 'a::len word list \<Rightarrow> 'a word list \<Rightarrow> 'a word list \<Rightarrow> bool \<times> 'a word list" where
  "bits_sub_out N xs ys out = (
     let n = array_size TYPE('a) N;
         st = foldl (sub_step xs ys) (False, out) [0..<full_words TYPE('a) N]
     in if end_mask N \<noteq> (0 :: 'a word)
        then let d = xs ! (n - 1) - of_bool (fst st) - ys ! (n - 1)
          in (xs ! (n - 1) < d, (snd st)[n - 1 := d AND end_mask N])
        else st)"

definition bits_sub :: "nat \<Rightarrow> 'a::len word list \<Rightarrow> 'a word list \<Rightarrow> bool \<times> 'a word list" where
  "bits_sub N xs ys = bits_sub_out N xs ys (bits_min N)"

text \<open>The operators drop the flag; the assigning ones write into their own left operand.\<close>

definition bits_plus :: "'a::len word big_ops \<Rightarrow> nat \<Rightarrow> 'a word list \<Rightarrow> 'a word list \<Rightarrow> 'a word list" where
  "bits_plus ops N xs ys = snd (bits_add ops N xs ys)"

definition bits_minus :: "nat \<Rightarrow> 'a::len word list \<Rightarrow> 'a word list \<Rightarrow> 'a word list" where
  "bits_minus N xs ys = snd (bits_sub N xs ys)"

section \<open>Increment, decrement, negation, comparison\<close>

text \<open>The loops stop at the first word that does not carry.\<close>

fun inc_loop :: "'a::len word list \<Rightarrow> bool \<Rightarrow> nat list \<Rightarrow> 'a word list \<times> bool" where
  "inc_loop b carry [] = (b, carry)"
| "inc_loop b carry (i # is) =
     (if carry then inc_loop (b[i := b ! i + 1]) (b ! i = - 1) is else (b, carry))"

definition bits_inc :: "nat \<Rightarrow> 'a::len word list \<Rightarrow> 'a word list" where
  "bits_inc N xs = (
     if N = 0 then xs
     else let carry = xs ! 0 = - 1;
              n = array_size TYPE('a) N;
              st = inc_loop (xs[0 := xs ! 0 + 1]) carry [1..<full_words TYPE('a) N];
              b = fst st
       in if end_mask N \<noteq> (0 :: 'a word)
          then b[n - 1 := (b ! (n - 1) + of_bool (snd st)) AND end_mask N] else b)"

fun dec_loop :: "'a::len word list \<Rightarrow> bool \<Rightarrow> nat list \<Rightarrow> 'a word list \<times> bool" where
  "dec_loop b borrow [] = (b, borrow)"
| "dec_loop b borrow (i # is) =
     (if borrow then dec_loop (b[i := b ! i - 1]) (b ! i = 0) is else (b, borrow))"

definition bits_dec :: "nat \<Rightarrow> 'a::len word list \<Rightarrow> 'a word list" where
  "bits_dec N xs = (
     if N = 0 then xs
     else let borrow = xs ! 0 = 0;
              n = array_size TYPE('a) N;
              st = dec_loop (xs[0 := xs ! 0 - 1]) borrow [1..<full_words TYPE('a) N];
              b = fst st
       in if end_mask N \<noteq> (0 :: 'a word)
          then b[n - 1 := (b ! (n - 1) - of_bool (snd st)) AND end_mask N] else b)"

definition bits_negate :: "nat \<Rightarrow> 'a::len word list \<Rightarrow> 'a word list" where
  "bits_negate N xs = bits_inc N (bits_flip N xs)"

datatype ordering = Less | Equal | Greater

fun lex_compare :: "'a::len word list \<Rightarrow> 'a word list \<Rightarrow> ordering" where
  "lex_compare (x # xs) (y # ys) =
     (if x < y then Less else if y < x then Greater else lex_compare xs ys)"
| "lex_compare [] [] = Equal"
| "lex_compare [] ys = Less"
| "lex_compare xs [] = Greater"

definition bits_compare :: "'a::len word list \<Rightarrow> 'a word list \<Rightarrow> ordering" where
  "bits_compare xs ys = lex_compare (rev xs) (rev ys)"

section \<open>Words with a carry\<close>

lemma unat_of_bool [simp]: "unat (of_bool b :: 'a::len word) = of_bool b"
  by (cases b) simp_all

lemma word_add_carry: "unat (a + b) + 2 ^ LENGTH('a) * of_bool (a + b < a) = unat a + unat (b :: 'a::len word)"
proof (cases "unat a + unat b < 2 ^ LENGTH('a)")
  case True
  then show ?thesis
    by (simp add: unat_no_wrap(1) word_less_nat_alt)
next
  case False
  have bounds: "unat a < 2 ^ LENGTH('a)" "unat b < 2 ^ LENGTH('a)"
    by (rule unat_less)+
  have "unat (a + b) = (unat a + unat b) mod 2 ^ LENGTH('a)"
    by (rule unat_word_ariths)
  also have "\<dots> = (unat a + unat b - 2 ^ LENGTH('a)) mod 2 ^ LENGTH('a)"
    using False by (intro le_mod_geq) simp
  also have "\<dots> = unat a + unat b - 2 ^ LENGTH('a)"
    using bounds by (intro mod_less) linarith
  finally have sum: "unat (a + b) = unat a + unat b - 2 ^ LENGTH('a)" .
  then have "a + b < a"
    unfolding word_less_nat_alt using False bounds by linarith
  then show ?thesis
    using sum False by simp
qed

lemma word_add_carry': "unat (a + b) + 2 ^ LENGTH('a) * of_bool (a + b < b) = unat a + unat (b :: 'a::len word)"
  using word_add_carry [of b a] by (simp add: add.commute)

lemma word_sub_borrow: "unat (a - b) + unat b = unat a + 2 ^ LENGTH('a) * of_bool (a < a - (b :: 'a::len word))"
proof -
  have "unat (a - b + b) + 2 ^ LENGTH('a) * of_bool (a - b + b < a - b) = unat (a - b) + unat b"
    by (rule word_add_carry)
  then show ?thesis
    by simp
qed

lemma add_word:
  fixes x y :: "'a::len word" and c :: bool
  defines "a \<equiv> x + of_bool c"
  shows "unat (a + y) + 2 ^ LENGTH('a) * of_bool (a < x \<or> a + y < a) = unat x + unat y + of_bool c"
proof -
  have 1: "unat a + 2 ^ LENGTH('a) * of_bool (a < x) = unat x + of_bool c"
    using word_add_carry [of x "of_bool c"] by (simp add: a_def)
  have 2: "unat (a + y) + 2 ^ LENGTH('a) * of_bool (a + y < a) = unat a + unat y"
    by (rule word_add_carry)
  have "\<not> a + y < a" if "a < x"
  proof -
    have "unat a + 2 ^ LENGTH('a) = unat x + of_bool c"
      using 1 that by simp
    then have "unat a = 0"
      using unat_less [of x] of_bool_less_eq_one [of c, where 'a = nat] by linarith
    then show ?thesis
      by (simp add: unat_eq_zero)
  qed
  then show ?thesis
    using 1 2 by (cases "a < x") auto
qed

lemma sub_word:
  fixes x y :: "'a::len word" and c :: bool
  defines "a \<equiv> x - of_bool c"
  shows "unat (a - y) + unat y + of_bool c = unat x + 2 ^ LENGTH('a) * of_bool (x < a \<or> a < a - y)"
proof -
  have 1: "unat a + of_bool c = unat x + 2 ^ LENGTH('a) * of_bool (x < a)"
    using word_sub_borrow [of x "of_bool c"] by (simp add: a_def)
  have 2: "unat (a - y) + unat y = unat a + 2 ^ LENGTH('a) * of_bool (a < a - y)"
    by (rule word_sub_borrow)
  have "\<not> a < a - y" if "x < a"
  proof -
    have "unat a + of_bool c = unat x + 2 ^ LENGTH('a)"
      using 1 that by simp
    then have "2 ^ LENGTH('a) \<le> unat a + 1"
      using of_bool_less_eq_one [of c, where 'a = nat] by linarith
    then show ?thesis
      unfolding word_less_nat_alt using unat_less [of "a - y"] by linarith
  qed
  then show ?thesis
    using 1 2 by (cases "x < a") auto
qed

text \<open>Values of prefixes and of updated arrays.\<close>

lemma val_take_Suc:
  "k < length xs \<Longrightarrow> val (take (Suc k) xs) = val (take k xs) + 2 ^ (LENGTH('a) * k) * unat (xs ! k)"
  for xs :: "'a::len word list"
  by (simp add: take_Suc_conv_app_nth val_append)

lemma val_take_less: "k \<le> length xs \<Longrightarrow> val (take k xs) < 2 ^ (LENGTH('a) * k)"
  for xs :: "'a::len word list"
  using val_less [of "take k xs"] by simp

lemma val_update:
  "k < length xs \<Longrightarrow> val (xs[k := y]) + 2 ^ (LENGTH('a) * k) * unat (xs ! k) =
    val xs + 2 ^ (LENGTH('a) * k) * unat y" for xs :: "'a::len word list"
proof (induction xs arbitrary: k)
  case (Cons x xs)
  show ?case
  proof (cases k)
    case (Suc j)
    then have "val (xs[j := y]) + 2 ^ (LENGTH('a) * j) * unat (xs ! j) = val xs + 2 ^ (LENGTH('a) * j) * unat y"
      using Cons by simp
    from arg_cong [OF this, of "\<lambda>t. 2 ^ LENGTH('a) * t"] show ?thesis
      by (simp add: Suc power_add distrib_left mult.assoc)
  qed simp
qed simp

lemma val_last:
  "length xs = Suc k \<Longrightarrow> val xs = val (take k xs) + 2 ^ (LENGTH('a) * k) * unat (xs ! k)"
  for xs :: "'a::len word list"
  using val_take_Suc [of k xs] by simp

section \<open>Addition and subtraction\<close>

lemma digit_sum:
  fixes P :: nat
  assumes "V + P * c = A + B" "z + M * c' = x + y + c"
  shows "V + P * z + P * M * c' = (A + P * x) + (B + P * y)"
proof -
  have "P * z + P * M * c' = P * x + P * y + P * c"
    using arg_cong [OF assms(2), of "\<lambda>t. P * t"] by (simp add: distrib_left)
  then show ?thesis
    using assms(1) by linarith
qed

lemma digit_difference:
  fixes P :: nat
  assumes "V + B = A + P * c" "z + y + c = x + M * c'"
  shows "(V + P * z) + (B + P * y) = (A + P * x) + P * M * c'"
proof -
  have "P * z + P * y + P * c = P * x + P * M * c'"
    using arg_cong [OF assms(2), of "\<lambda>t. P * t"] by (simp add: distrib_left)
  then show ?thesis
    using assms(1) by linarith
qed

lemma add_loop:
  fixes xs ys :: "'a::len word list"
  assumes "length xs = n" "length ys = n" "length out = n" "k \<le> n"
  defines "st \<equiv> foldl (add_step xs ys) (False, out) [0..<k]"
  shows "length (snd st) = n" "val (take k (snd st)) + 2 ^ (LENGTH('a) * k) * of_bool (fst st) =
      val (take k xs) + val (take k ys)"
  unfolding st_def using assms(4)
proof (induction k)
  case (Suc k)
  let ?st = "foldl (add_step xs ys) (False, out) [0..<k]"
  obtain c b where st: "?st = (c, b)"
    by (cases ?st)
  define z where "z = xs ! k + of_bool c + ys ! k"
  define c' where "c' = (xs ! k + of_bool c < xs ! k \<or> z < xs ! k + of_bool c)"
  have step: "foldl (add_step xs ys) (False, out) [0..<Suc k] = (c', b[k := z])"
    by (simp add: st add_step_def Let_def z_def c'_def)
  { case 1
    show ?case
      using Suc 1 unfolding step by (simp add: st)
  next
    case 2
    have len: "length b = n"
      using Suc.IH(1) 2 by (simp add: st)
    have IH: "val (take k b) + 2 ^ (LENGTH('a) * k) * of_bool c = val (take k xs) + val (take k ys)"
      using Suc.IH(2) 2 by (simp add: st)
    have word: "unat z + 2 ^ LENGTH('a) * of_bool c' = unat (xs ! k) + unat (ys ! k) + of_bool c"
      unfolding z_def c'_def by (rule add_word)
    have "val (take (Suc k) (b[k := z])) = val (take k b) + 2 ^ (LENGTH('a) * k) * unat z"
      using 2 len by (subst val_take_Suc) simp_all
    moreover have "val (take (Suc k) xs) = val (take k xs) + 2 ^ (LENGTH('a) * k) * unat (xs ! k)"
      "val (take (Suc k) ys) = val (take k ys) + 2 ^ (LENGTH('a) * k) * unat (ys ! k)"
      using 2 assms(1,2) by (simp_all add: val_take_Suc)
    moreover have "2 ^ (LENGTH('a) * Suc k) = (2 ^ (LENGTH('a) * k) * 2 ^ LENGTH('a) :: nat)"
      by (simp add: power_add)
    ultimately show ?case
      using digit_sum [OF IH word] unfolding step snd_conv fst_conv by simp
  }
qed (simp_all add: assms)

lemma sub_loop:
  fixes xs ys :: "'a::len word list"
  assumes "length xs = n" "length ys = n" "length out = n" "k \<le> n"
  defines "st \<equiv> foldl (sub_step xs ys) (False, out) [0..<k]"
  shows "length (snd st) = n" "val (take k (snd st)) + val (take k ys) =
      val (take k xs) + 2 ^ (LENGTH('a) * k) * of_bool (fst st)"
  unfolding st_def using assms(4)
proof (induction k)
  case (Suc k)
  let ?st = "foldl (sub_step xs ys) (False, out) [0..<k]"
  obtain c b where st: "?st = (c, b)"
    by (cases ?st)
  define z where "z = xs ! k - of_bool c - ys ! k"
  define c' where "c' = (xs ! k < xs ! k - of_bool c \<or> xs ! k - of_bool c < z)"
  have step: "foldl (sub_step xs ys) (False, out) [0..<Suc k] = (c', b[k := z])"
    by (simp add: st sub_step_def Let_def z_def c'_def)
  { case 1
    show ?case
      using Suc 1 unfolding step by (simp add: st)
  next
    case 2
    have len: "length b = n"
      using Suc.IH(1) 2 by (simp add: st)
    have IH: "val (take k b) + val (take k ys) = val (take k xs) + 2 ^ (LENGTH('a) * k) * of_bool c"
      using Suc.IH(2) 2 by (simp add: st)
    have word: "unat z + unat (ys ! k) + of_bool c = unat (xs ! k) + 2 ^ LENGTH('a) * of_bool c'"
      unfolding z_def c'_def by (rule sub_word)
    have "val (take (Suc k) (b[k := z])) = val (take k b) + 2 ^ (LENGTH('a) * k) * unat z"
      using 2 len by (subst val_take_Suc) simp_all
    moreover have "val (take (Suc k) xs) = val (take k xs) + 2 ^ (LENGTH('a) * k) * unat (xs ! k)"
      "val (take (Suc k) ys) = val (take k ys) + 2 ^ (LENGTH('a) * k) * unat (ys ! k)"
      using 2 assms(1,2) by (simp_all add: val_take_Suc)
    moreover have "2 ^ (LENGTH('a) * Suc k) = (2 ^ (LENGTH('a) * k) * 2 ^ LENGTH('a) :: nat)"
      by (simp add: power_add)
    ultimately show ?case
      using digit_difference [OF IH word] unfolding step snd_conv fst_conv by simp
  }
qed (simp_all add: assms)

text \<open>The masked last word, with \<open>r\<close> the number of bits in use.\<close>

lemma padded_shape:
  assumes "N mod LENGTH('a::len) \<noteq> 0"
  shows "\<exists>k r. array_size TYPE('a) N = Suc k \<and> full_words TYPE('a) N = k \<and> r = N mod LENGTH('a) \<and>
    0 < r \<and> r < LENGTH('a) \<and> N = LENGTH('a) * k + r"
  using array_size_bounds(2,3) [OF assms] assms
  by (intro exI [of _ "array_size TYPE('a) N - 1"] exI [of _ "N mod LENGTH('a)"])
     (simp add: full_words_eq)

lemma split_at_word:
  fixes lo s P R :: nat
  assumes "lo < P" "0 < R"
  shows "(lo + P * s) mod (P * R) = lo + P * (s mod R)" "P * R \<le> lo + P * s \<longleftrightarrow> s div R \<noteq> 0"
proof -
  define Q d t where "Q = P * R" and "d = s div R" and "t = lo + P * (s mod R)"
  have "t < P * (s mod R + 1)"
    using assms(1) by (simp add: t_def)
  also have "\<dots> \<le> Q"
    unfolding Q_def using assms(2) by (intro mult_left_mono) (simp_all add: Suc_le_eq)
  finally have t: "t < Q" .
  have "P * s = P * (R * d + s mod R)"
    by (simp add: d_def)
  also have "\<dots> = Q * d + P * (s mod R)"
    by (simp only: distrib_left mult.assoc Q_def)
  finally have eq: "lo + P * s = t + Q * d"
    by (simp add: t_def)
  have "(t + Q * d) mod Q = t"
    using t by simp
  then show "(lo + P * s) mod (P * R) = lo + P * (s mod R)"
    by (simp only: eq flip: Q_def t_def)
  have "Q \<le> t + Q * d \<longleftrightarrow> d \<noteq> 0"
    using t by (cases d) auto
  then show "P * R \<le> lo + P * s \<longleftrightarrow> s div R \<noteq> 0"
    by (simp only: eq flip: Q_def d_def)
qed

lemma unat_and_end_mask:
  assumes "N mod LENGTH('a) \<noteq> 0"
  shows "unat (s AND end_mask N :: 'a::len word) = unat s mod 2 ^ (N mod LENGTH('a))"
  unfolding end_mask_mask [OF assms] take_bit_eq_mask [symmetric] unsigned_take_bit_eq
  by (rule take_bit_eq_mod)

lemma drop_bit_eq_0_unat: "drop_bit k (s :: 'a::len word) \<noteq> 0 \<longleftrightarrow> unat s div 2 ^ k \<noteq> 0"
proof -
  have "unat (drop_bit k s) = unat s div 2 ^ k"
    unfolding unsigned_drop_bit_eq take_bit_unat by (rule drop_bit_eq_div)
  then show ?thesis
    by (metis unat_eq_zero)
qed

lemma wf_bits_last:
  fixes xs :: "'a::len word list"
  assumes "wf_bits N xs" "N = LENGTH('a) * k + r" "length xs = Suc k"
  shows "unat (xs ! k) < 2 ^ r" "val xs = val (take k xs) + 2 ^ (LENGTH('a) * k) * unat (xs ! k)"
proof -
  show val: "val xs = val (take k xs) + 2 ^ (LENGTH('a) * k) * unat (xs ! k)"
    by (rule val_last [OF assms(3)])
  then have "2 ^ (LENGTH('a) * k) * unat (xs ! k) < 2 ^ N"
    using assms(1) by (simp add: wf_bits_def)
  then show "unat (xs ! k) < 2 ^ r"
    by (simp add: assms(2) power_add)
qed

lemma school_add:
  fixes xs ys :: "'a::len word list"
  assumes "wf_bits N xs" "wf_bits N ys" "length out = array_size TYPE('a) N"
    "array_size TYPE('a) N \<noteq> 1 \<or> composite ops"
  shows "val (snd (bits_add_out ops N xs ys out)) = (val xs + val ys) mod 2 ^ N"
    "fst (bits_add_out ops N xs ys out) \<longleftrightarrow> 2 ^ N \<le> val xs + val ys"
    "length (snd (bits_add_out ops N xs ys out)) = array_size TYPE('a) N"
proof -
  let ?n = "array_size TYPE('a) N"
  note len = wf_bits_length [OF assms(1)] wf_bits_length [OF assms(2)]
  have not_single: "\<not> (?n = 1 \<and> \<not> composite ops)"
    using assms(4) by blast
  have "val (snd (bits_add_out ops N xs ys out)) = (val xs + val ys) mod 2 ^ N \<and>
    (fst (bits_add_out ops N xs ys out) \<longleftrightarrow> 2 ^ N \<le> val xs + val ys) \<and>
    length (snd (bits_add_out ops N xs ys out)) = ?n"
  proof (cases "N mod LENGTH('a) = 0")
    case True
    define st where "st = foldl (add_step xs ys) (False, out) [0..<?n]"
    have res: "bits_add_out ops N xs ys out = st"
      by (simp only: bits_add_out_def Let_def if_not_P [OF not_single]) (simp add: True st_def full_words_eq)
    note loop = add_loop [OF len assms(3) order_refl, folded st_def]
    have N: "2 ^ (LENGTH('a) * ?n) = (2 ^ N :: nat)"
      by (simp add: array_size_bounds(1) [OF True])
    have "val (snd st) < 2 ^ N"
      using val_less [of "snd st"] loop(1) N by simp
    moreover have "val (snd st) + 2 ^ N * of_bool (fst st) = val xs + val ys"
      using loop len N by simp
    ultimately show ?thesis
      using loop(1) by (cases "fst st") (auto simp: res simp flip: \<open>_ = val xs + val ys\<close>)
  next
    case False
    from padded_shape [OF False] obtain k r where shape: "?n = Suc k" "full_words TYPE('a) N = k"
      "r = N mod LENGTH('a)" "r < LENGTH('a)" "N = LENGTH('a) * k + r" by blast
    define st where "st = foldl (add_step xs ys) (False, out) [0..<k]"
    define s where "s = xs ! k + of_bool (fst st) + ys ! k"
    have res: "bits_add_out ops N xs ys out = (drop_bit r s \<noteq> 0, (snd st)[k := s AND end_mask N])"
      by (simp only: bits_add_out_def Let_def if_not_P [OF not_single])
        (use False shape(1-3) in \<open>simp add: st_def s_def\<close>)
    have "k \<le> ?n"
      using shape(1) by simp
    note loop = add_loop [OF len assms(3) this, folded st_def]
    note X = wf_bits_last [OF assms(1) shape(5) len(1) [unfolded shape(1)]]
    note Y = wf_bits_last [OF assms(2) shape(5) len(2) [unfolded shape(1)]]
    define P :: nat where "P = 2 ^ (LENGTH('a) * k)"
    have N: "2 ^ N = P * 2 ^ r"
      by (simp add: P_def shape(5) power_add)
    have "(2 :: nat) ^ Suc r \<le> 2 ^ LENGTH('a)"
      using shape(4) by (intro power_increasing) simp_all
    then have "unat (xs ! k) + of_bool (fst st) + unat (ys ! k) < 2 ^ LENGTH('a)"
      using X(1) Y(1) of_bool_less_eq_one [of "fst st", where 'a = nat] by simp
    then have s: "unat s = unat (xs ! k) + of_bool (fst st) + unat (ys ! k)"
      unfolding s_def by (simp add: unat_no_wrap(1))
    have lo: "val (take k (snd st)) < P"
      using val_take_less [of k "snd st"] loop(1) shape(1) by (simp add: P_def)
    have total: "val xs + val ys = val (take k (snd st)) + P * unat s"
      unfolding X(2) Y(2) s distrib_left P_def using loop(2) by simp
    have "val (snd (bits_add_out ops N xs ys out)) = val (take k (snd st)) + P * (unat s mod 2 ^ r)"
      using loop(1) shape(1) val_last [of "(snd st)[k := s AND end_mask N]" k]
      by (simp add: res P_def unat_and_end_mask [OF False] shape(3))
    then show ?thesis
      using split_at_word [OF lo, of "2 ^ r" "unat s"] loop(1)
      unfolding total N by (simp add: res drop_bit_eq_0_unat)
  qed
  then show "val (snd (bits_add_out ops N xs ys out)) = (val xs + val ys) mod 2 ^ N"
    "fst (bits_add_out ops N xs ys out) \<longleftrightarrow> 2 ^ N \<le> val xs + val ys"
    "length (snd (bits_add_out ops N xs ys out)) = array_size TYPE('a) N"
    by blast+
qed

text \<open>The result of a single-word operation done in the double width.\<close>

definition narrow :: "nat \<Rightarrow> 'a::len bit0 word \<Rightarrow> 'a word list \<Rightarrow> bool \<times> 'a word list" where
  "narrow N s out =
     (if end_mask N \<noteq> (0 :: 'a word)
      then (drop_bit (N mod LENGTH('a)) s \<noteq> 0, out[0 := ucast (s AND ucast (end_mask N :: 'a word))])
      else (drop_bit LENGTH('a) s \<noteq> 0, out[0 := ucast s]))"

lemma narrow_val:
  fixes out :: "'a::len word list"
  assumes "array_size TYPE('a) N = 1" "length out = 1"
  shows "val (snd (narrow N s out)) = unat s mod 2 ^ N" "fst (narrow N s out) \<longleftrightarrow> 2 ^ N \<le> unat s"
    "length (snd (narrow N s out)) = 1"
proof -
  obtain y where out: "out = [y]"
    using assms(2) by (auto simp: length_Suc_conv)
  have "val (snd (narrow N s out)) = unat s mod 2 ^ N \<and> (fst (narrow N s out) \<longleftrightarrow> 2 ^ N \<le> unat s)"
  proof (cases "N mod LENGTH('a) = 0")
    case True
    then have N: "N = LENGTH('a)"
      using array_size_bounds(1) [OF True] assms(1) by simp
    then show ?thesis
      using True by (simp add: narrow_def out drop_bit_eq_0_unat unsigned_ucast_eq take_bit_eq_mod
          div_eq_0_iff not_less)
  next
    case False
    then have N: "N mod LENGTH('a) = N" "N < LENGTH('a)"
      using array_size_bounds(2) [OF False] assms(1) mod_less_divisor [OF len_gt_0 [where 'a = 'a], of N]
      by simp_all
    have mask: "ucast (end_mask N :: 'a word) = (mask N :: 'a bit0 word)"
      unfolding end_mask_mask [OF False] N(1) using N(2)
      by (intro bit_word_eqI) (auto simp: bit_simps)
    have "unat (ucast (s AND mask N) :: 'a word) = unat s mod 2 ^ N"
      unfolding take_bit_eq_mask [symmetric] unsigned_ucast_eq unsigned_take_bit_eq take_bit_take_bit
      using N(2) by (simp add: min_def take_bit_eq_mod)
    then show ?thesis
      using False by (simp add: narrow_def out drop_bit_eq_0_unat N(1) mask div_eq_0_iff not_less)
  qed
  then show "val (snd (narrow N s out)) = unat s mod 2 ^ N" "fst (narrow N s out) \<longleftrightarrow> 2 ^ N \<le> unat s"
    by blast+
  show "length (snd (narrow N s out)) = 1"
    by (simp add: narrow_def out)
qed

lemma single_word: "length xs = 1 \<Longrightarrow> val xs = unat (xs ! 0)"
  by (auto simp: length_Suc_conv)

lemma native_add:
  fixes xs ys :: "'a::len word list"
  assumes "wf_bits N xs" "wf_bits N ys" "length out = array_size TYPE('a) N"
    "array_size TYPE('a) N = 1" "\<not> composite ops"
  shows "val (snd (bits_add_out ops N xs ys out)) = (val xs + val ys) mod 2 ^ N"
    "fst (bits_add_out ops N xs ys out) \<longleftrightarrow> 2 ^ N \<le> val xs + val ys"
    "length (snd (bits_add_out ops N xs ys out)) = array_size TYPE('a) N"
proof -
  let ?s = "ucast (xs ! 0) + ucast (ys ! 0) :: 'a bit0 word"
  have res: "bits_add_out ops N xs ys out = narrow N ?s out"
    using assms(4,5) by (simp only: bits_add_out_def narrow_def Let_def if_P simp_thms)
  have "unat (xs ! 0) + unat (ys ! 0) < 2 * 2 ^ LENGTH('a)"
    using unat_less [of "xs ! 0"] unat_less [of "ys ! 0"] by linarith
  also have "\<dots> \<le> 2 ^ LENGTH('a bit0)"
  proof -
    have "2 ^ LENGTH('a bit0) = (2 ^ LENGTH('a) * 2 ^ LENGTH('a) :: nat)"
      by (simp add: mult_2 power_add)
    moreover have "2 \<le> (2 ^ LENGTH('a) :: nat)"
      using self_le_power [of "2 :: nat" "LENGTH('a)"] by simp
    ultimately show ?thesis
      by simp
  qed
  finally have "unat ?s = unat (xs ! 0) + unat (ys ! 0)"
    by (subst unat_no_wrap(1)) simp_all
  also have "\<dots> = val xs + val ys"
    using wf_bits_length [OF assms(1)] wf_bits_length [OF assms(2)] assms(4) by (simp add: single_word)
  finally show "val (snd (bits_add_out ops N xs ys out)) = (val xs + val ys) mod 2 ^ N"
    "fst (bits_add_out ops N xs ys out) \<longleftrightarrow> 2 ^ N \<le> val xs + val ys"
    "length (snd (bits_add_out ops N xs ys out)) = array_size TYPE('a) N"
    using narrow_val [OF assms(4) assms(3) [unfolded assms(4)], of ?s] unfolding res by (simp_all add: assms(4))
qed

lemma add_correct:
  fixes xs ys :: "'a::len word list"
  assumes "wf_bits N xs" "wf_bits N ys" "length out = array_size TYPE('a) N"
  shows "val (snd (bits_add_out ops N xs ys out)) = (val xs + val ys) mod 2 ^ N"
    "fst (bits_add_out ops N xs ys out) \<longleftrightarrow> 2 ^ N \<le> val xs + val ys"
    "wf_bits N (snd (bits_add_out ops N xs ys out))"
proof -
  show *: "val (snd (bits_add_out ops N xs ys out)) = (val xs + val ys) mod 2 ^ N"
    "fst (bits_add_out ops N xs ys out) \<longleftrightarrow> 2 ^ N \<le> val xs + val ys"
    using school_add [OF assms, of ops] native_add [OF assms, of ops] by blast+
  have "length (snd (bits_add_out ops N xs ys out)) = array_size TYPE('a) N"
    using school_add [OF assms, of ops] native_add [OF assms, of ops] by blast
  then show "wf_bits N (snd (bits_add_out ops N xs ys out))"
    by (simp add: wf_bits_def *)
qed

lemma sub_correct:
  fixes xs ys :: "'a::len word list"
  assumes "wf_bits N xs" "wf_bits N ys" "length out = array_size TYPE('a) N"
  shows "val (snd (bits_sub_out N xs ys out)) = (2 ^ N + val xs - val ys) mod 2 ^ N"
    "fst (bits_sub_out N xs ys out) \<longleftrightarrow> val xs < val ys"
    "wf_bits N (snd (bits_sub_out N xs ys out))"
proof -
  let ?n = "array_size TYPE('a) N"
  note len = wf_bits_length [OF assms(1)] wf_bits_length [OF assms(2)]
  have bounds: "val xs < 2 ^ N" "val ys < 2 ^ N"
    using assms by (simp_all add: wf_bits_def)
  have main: "val z + val ys = val xs + 2 ^ N * of_bool c \<Longrightarrow> val z < 2 ^ N \<Longrightarrow>
    val z = (2 ^ N + val xs - val ys) mod 2 ^ N \<and> (c \<longleftrightarrow> val xs < val ys)" for z :: "'a word list" and c
  proof (cases c)
    case False
    assume "val z + val ys = val xs + 2 ^ N * of_bool c"
    then have *: "val ys \<le> val xs" "2 ^ N + val xs - val ys = 2 ^ N + (val xs - val ys)" "val z = val xs - val ys"
      using False by simp_all
    have "(2 ^ N + (val xs - val ys)) mod 2 ^ N = val xs - val ys"
      using bounds by (subst mod_add_self1) simp
    then show ?thesis
      unfolding *(2,3) using False *(1) by simp
  next
    case True
    assume "val z + val ys = val xs + 2 ^ N * of_bool c" "val z < 2 ^ N"
    then have "val z = 2 ^ N + val xs - val ys" "val xs < val ys"
      using True bounds by auto
    then show ?thesis
      using True \<open>val z < 2 ^ N\<close> by simp
  qed
  have "\<exists>z c. bits_sub_out N xs ys out = (c, z) \<and> length z = ?n \<and> val z < 2 ^ N \<and>
    val z + val ys = val xs + 2 ^ N * of_bool c"
  proof (cases "N mod LENGTH('a) = 0")
    case True
    define st where "st = foldl (sub_step xs ys) (False, out) [0..<?n]"
    have res: "bits_sub_out N xs ys out = st"
      by (simp only: bits_sub_out_def Let_def) (simp add: True st_def full_words_eq)
    note loop = sub_loop [OF len assms(3) order_refl, folded st_def]
    have N: "2 ^ (LENGTH('a) * ?n) = (2 ^ N :: nat)"
      by (simp add: array_size_bounds(1) [OF True])
    then show ?thesis
      using loop len val_less [of "snd st"] by (intro exI [of _ "snd st"] exI [of _ "fst st"]) (simp add: res)
  next
    case False
    from padded_shape [OF False] obtain k r where shape: "?n = Suc k" "full_words TYPE('a) N = k"
      "r = N mod LENGTH('a)" "r < LENGTH('a)" "N = LENGTH('a) * k + r" by blast
    define st where "st = foldl (sub_step xs ys) (False, out) [0..<k]"
    define c where "c = fst st"
    define d where "d = xs ! k - of_bool c - ys ! k"
    define z where "z = (snd st)[k := d AND end_mask N]"
    have res: "bits_sub_out N xs ys out = (xs ! k < d, z)"
      by (simp only: bits_sub_out_def Let_def) (use False shape(1-3) in \<open>simp add: st_def d_def c_def z_def\<close>)
    have "k \<le> ?n"
      using shape(1) by simp
    note loop = sub_loop [OF len assms(3) this, folded st_def, folded c_def]
    note X = wf_bits_last [OF assms(1) shape(5) len(1) [unfolded shape(1)]]
    note Y = wf_bits_last [OF assms(2) shape(5) len(2) [unfolded shape(1)]]
    define P R M :: nat where "P = 2 ^ (LENGTH('a) * k)" and "R = 2 ^ r" and "M = 2 ^ LENGTH('a)"
    have N: "2 ^ N = P * R"
      by (simp add: P_def R_def shape(5) power_add)
    have "2 * R \<le> M"
      using shape(4) power_increasing [of "Suc r" "LENGTH('a)" "2 :: nat"] by (simp add: R_def M_def)
    have "R dvd M"
      using shape(4) by (simp add: R_def M_def le_imp_power_dvd)
    have xy: "unat (xs ! k) < R" "unat (ys ! k) < R"
      using X(1) Y(1) by (simp_all add: R_def)
    define o' where "o' = (xs ! k < xs ! k - of_bool c \<or> xs ! k - of_bool c < d)"
    have word: "unat d + unat (ys ! k) + of_bool c = unat (xs ! k) + M * of_bool o'"
      unfolding M_def o'_def d_def by (rule sub_word)
    have c1: "of_bool c \<le> (1 :: nat)"
      by simp
    have flag: "xs ! k < d \<longleftrightarrow> o'"
    proof (cases o')
      case True
      then have "unat d + unat (ys ! k) + of_bool c = unat (xs ! k) + M"
        using word by simp
      then have "unat (xs ! k) < unat d"
        using xy \<open>2 * R \<le> M\<close> c1 by linarith
      then show ?thesis
        using True by (simp add: word_less_nat_alt)
    next
      case f: False
      then have "unat d \<le> unat (xs ! k)"
        using word by simp
      then show ?thesis
        using f by (simp add: word_less_nat_alt)
    qed
    have mask: "unat (d AND end_mask N) = unat d mod R"
      by (simp add: unat_and_end_mask [OF False] R_def shape(3))
    have last: "unat d mod R + unat (ys ! k) + of_bool c = unat (xs ! k) + R * of_bool o'"
    proof (cases o')
      case True
      obtain e where e: "M = R * e"
        using \<open>R dvd M\<close> by (elim dvdE)
      then obtain f where f: "e = Suc f"
        using \<open>2 * R \<le> M\<close> xy by (cases e) auto
      have "unat d = (unat (xs ! k) + R - unat (ys ! k) - of_bool c) + R * f"
        using True word xy c1 by (simp add: e f)
      moreover have "unat (xs ! k) + R - unat (ys ! k) - of_bool c < R"
      proof -
        have "unat d < M"
          by (simp add: M_def)
        then have "unat (xs ! k) < unat (ys ! k) + of_bool c"
          using True word by simp
        then show ?thesis
          using xy by linarith
      qed
      ultimately have "unat d mod R = unat (xs ! k) + R - unat (ys ! k) - of_bool c"
        by simp
      then show ?thesis
        using True xy c1 by simp
    next
      case f: False
      then have "unat d < R"
        using word xy by simp
      then show ?thesis
        using f word by simp
    qed
    have len_z: "length z = Suc k"
      using loop(1) shape(1) by (simp add: z_def)
    have val_z: "val z = val (take k (snd st)) + P * (unat d mod R)"
      using loop(1) shape(1) val_last [OF len_z] by (simp add: z_def P_def mask)
    have "val z + val ys = val xs + 2 ^ N * of_bool o'"
      using digit_difference [OF loop(2) last] unfolding val_z X(2) Y(2) N P_def by simp
    moreover have "val z < 2 ^ N"
    proof -
      have "val (take k (snd st)) < P"
        using val_take_less [of k "snd st"] loop(1) shape(1) by (simp add: P_def)
      moreover have "P * (unat d mod R + 1) \<le> P * R"
        using xy by (intro mult_left_mono) (simp_all add: Suc_le_eq)
      ultimately show ?thesis
        by (simp add: val_z N)
    qed
    ultimately show ?thesis
      using len_z shape(1) by (auto simp: res flag)
  qed
  then obtain z c where z: "bits_sub_out N xs ys out = (c, z)" "length z = ?n" "val z < 2 ^ N"
    "val z + val ys = val xs + 2 ^ N * of_bool c" by blast
  then show "val (snd (bits_sub_out N xs ys out)) = (2 ^ N + val xs - val ys) mod 2 ^ N"
    "fst (bits_sub_out N xs ys out) \<longleftrightarrow> val xs < val ys"
    "wf_bits N (snd (bits_sub_out N xs ys out))"
    using main [OF z(4,3)] by (simp_all add: wf_bits_def)
qed

section \<open>Increment, decrement, negation\<close>

lemma unat_max: "unat (- 1 :: 'a::len word) + 1 = 2 ^ LENGTH('a)"
  using word_sub_borrow [of "0 :: 'a word" 1] by (simp add: word_gt_0)

lemma word_succ_carry: "unat (x + 1) + 2 ^ LENGTH('a) * of_bool (x = - 1) = unat (x :: 'a::len word) + 1"
proof (cases "x = - 1")
  case True
  then show ?thesis
    using unat_max [where 'a = 'a] by simp
next
  case False
  then have "unat x \<noteq> unat (- 1 :: 'a word)"
    by (simp add: word_unat_eq_iff)
  then have "unat x + 1 < 2 ^ LENGTH('a)"
    using unat_max [where 'a = 'a] unat_less [of x] by linarith
  then show ?thesis
    using False by (simp add: unat_no_wrap(1))
qed

lemma word_pred_borrow: "unat (x - 1) + 1 = unat (x :: 'a::len word) + 2 ^ LENGTH('a) * of_bool (x = 0)"
proof (cases "x = 0")
  case True
  then show ?thesis
    using unat_max [where 'a = 'a] by simp
next
  case False
  then have "unat (x - 1) = unat x - 1" "0 < unat x"
    by (simp_all add: unat_minus_one unat_gt_0)
  then show ?thesis
    using False by simp
qed

lemma inc_loop_val:
  fixes b :: "'a::len word list"
  assumes "k \<le> n" "n \<le> length b"
  shows "length (fst (inc_loop b c [k..<n])) = length b \<and>
    val (fst (inc_loop b c [k..<n])) + 2 ^ (LENGTH('a) * n) * of_bool (snd (inc_loop b c [k..<n])) =
      val b + 2 ^ (LENGTH('a) * k) * of_bool c \<and>
    (\<forall>j \<ge> n. fst (inc_loop b c [k..<n]) ! j = b ! j)"
  using assms
proof (induction "n - k" arbitrary: k b c)
  case (Suc d)
  then have k: "k < n" "d = n - Suc k"
    by simp_all
  show ?case
  proof (cases c)
    case True
    let ?b = "b[k := b ! k + 1]" and ?c = "b ! k = - 1"
    have step: "inc_loop b c [k..<n] = inc_loop ?b ?c [Suc k..<n]"
      using k True by (simp add: upt_conv_Cons)
    have "val ?b + 2 ^ (LENGTH('a) * k) * unat (b ! k) = val b + 2 ^ (LENGTH('a) * k) * unat (b ! k + 1)"
      using k Suc.prems by (intro val_update) simp
    moreover have "2 ^ (LENGTH('a) * k) * unat (b ! k + 1) + 2 ^ (LENGTH('a) * Suc k) * of_bool ?c =
      2 ^ (LENGTH('a) * k) * unat (b ! k) + 2 ^ (LENGTH('a) * k)"
      using arg_cong [OF word_succ_carry [of "b ! k"], of "\<lambda>t. 2 ^ (LENGTH('a) * k) * t"]
      by (simp add: distrib_left power_add mult.assoc mult.commute [of "2 ^ LENGTH('a)"])
    ultimately have "val ?b + 2 ^ (LENGTH('a) * Suc k) * of_bool ?c = val b + 2 ^ (LENGTH('a) * k)"
      by linarith
    moreover note Suc.hyps(1) [OF k(2), of ?b ?c]
    ultimately show ?thesis
      unfolding step using True Suc.prems k by simp
  next
    case False
    then show ?thesis
      using k by (simp add: upt_conv_Cons)
  qed
qed simp

lemma dec_loop_val:
  fixes b :: "'a::len word list"
  assumes "k \<le> n" "n \<le> length b"
  shows "length (fst (dec_loop b c [k..<n])) = length b \<and>
    val (fst (dec_loop b c [k..<n])) + 2 ^ (LENGTH('a) * k) * of_bool c =
      val b + 2 ^ (LENGTH('a) * n) * of_bool (snd (dec_loop b c [k..<n])) \<and>
    (\<forall>j \<ge> n. fst (dec_loop b c [k..<n]) ! j = b ! j)"
  using assms
proof (induction "n - k" arbitrary: k b c)
  case (Suc d)
  then have k: "k < n" "d = n - Suc k"
    by simp_all
  show ?case
  proof (cases c)
    case True
    let ?b = "b[k := b ! k - 1]" and ?c = "b ! k = 0"
    have step: "dec_loop b c [k..<n] = dec_loop ?b ?c [Suc k..<n]"
      using k True by (simp add: upt_conv_Cons)
    have "val ?b + 2 ^ (LENGTH('a) * k) * unat (b ! k) = val b + 2 ^ (LENGTH('a) * k) * unat (b ! k - 1)"
      using k Suc.prems by (intro val_update) simp
    moreover have "2 ^ (LENGTH('a) * k) * unat (b ! k - 1) + 2 ^ (LENGTH('a) * k) =
      2 ^ (LENGTH('a) * k) * unat (b ! k) + 2 ^ (LENGTH('a) * Suc k) * of_bool ?c"
      using arg_cong [OF word_pred_borrow [of "b ! k"], of "\<lambda>t. 2 ^ (LENGTH('a) * k) * t"]
      by (simp add: distrib_left power_add mult.assoc mult.commute [of "2 ^ LENGTH('a)"])
    ultimately have "val ?b + 2 ^ (LENGTH('a) * k) = val b + 2 ^ (LENGTH('a) * Suc k) * of_bool ?c"
      by linarith
    moreover note Suc.hyps(1) [OF k(2), of ?b ?c]
    ultimately show ?thesis
      unfolding step using True Suc.prems k by simp
  next
    case False
    then show ?thesis
      using k by (simp add: upt_conv_Cons)
  qed
qed simp

lemma inc_entry:
  "xs \<noteq> [] \<Longrightarrow> inc_loop (xs[0 := xs ! 0 + 1]) (xs ! 0 = - 1) [1..<k] = inc_loop xs True [0..<max 1 k]"
  "xs \<noteq> [] \<Longrightarrow> dec_loop (xs[0 := xs ! 0 - 1]) (xs ! 0 = 0) [1..<k] = dec_loop xs True [0..<max 1 k]"
  by (cases k; simp add: upt_conv_Cons max_def del: upt_Suc)+

lemma inc_correct:
  fixes xs :: "'a::len word list"
  assumes "wf_bits N xs"
  shows "val (bits_inc N xs) = (val xs + 1) mod 2 ^ N" "wf_bits N (bits_inc N xs)"
proof -
  let ?n = "array_size TYPE('a) N"
  note len = wf_bits_length [OF assms]
  have "val (bits_inc N xs) = (val xs + 1) mod 2 ^ N \<and> length (bits_inc N xs) = ?n"
  proof (cases "N = 0")
    case True
    then show ?thesis
      using assms by (simp add: bits_inc_def wf_bits_def)
  next
    case False
    have n: "0 < ?n" "xs \<noteq> []"
      using False array_size_bounds(5) [of N, where 'a = 'a] len by auto
    define m where "m = max 1 (full_words TYPE('a) N)"
    define st where "st = inc_loop xs True [0..<m]"
    have m: "m \<le> ?n"
      using n(1) by (simp add: m_def full_words_eq)
    then have loop: "length (fst st) = ?n" "val (fst st) + 2 ^ (LENGTH('a) * m) * of_bool (snd st) = val xs + 1"
      "\<And>j. m \<le> j \<Longrightarrow> fst st ! j = xs ! j"
      using inc_loop_val [of 0 m xs True] len by (simp_all add: st_def)
    have res: "bits_inc N xs = (if end_mask N \<noteq> (0 :: 'a word)
      then (fst st)[?n - 1 := (fst st ! (?n - 1) + of_bool (snd st)) AND end_mask N] else fst st)"
      using False by (simp only: bits_inc_def Let_def inc_entry(1) [OF n(2)] st_def m_def) simp
    show ?thesis
    proof (cases "N mod LENGTH('a) = 0")
      case True
      then have m': "m = ?n"
        using n(1) by (simp add: m_def full_words_eq)
      have N: "2 ^ (LENGTH('a) * ?n) = (2 ^ N :: nat)"
        by (simp add: array_size_bounds(1) [OF True])
      have "val (fst st) < 2 ^ N"
        using val_less [of "fst st"] loop(1) N by simp
      moreover have "val xs + 1 = val (fst st) + 2 ^ N * of_bool (snd st)"
        using loop(2) by (simp add: m' N)
      ultimately have "(val xs + 1) mod 2 ^ N = val (fst st)"
        by simp
      then show ?thesis
        using True loop(1) by (simp add: res)
    next
      case masked: False
      from padded_shape [OF masked] obtain k r where shape: "?n = Suc k" "full_words TYPE('a) N = k"
        "r = N mod LENGTH('a)" "r < LENGTH('a)" "N = LENGTH('a) * k + r" by blast
      note X = wf_bits_last [OF assms shape(5) len [unfolded shape(1)]]
      have "(2 :: nat) ^ Suc r \<le> 2 ^ LENGTH('a)"
        using shape(4) by (intro power_increasing) simp_all
      then have room: "unat (xs ! k) + 1 < 2 ^ LENGTH('a)"
        using X(1) by (simp add: less_le_trans)
      let ?b = "(fst st)[k := fst st ! k + of_bool (snd st)]"
      have "val ?b = val xs + 1"
      proof (cases "k = 0")
        case True
        have "\<not> snd st"
          using True room unat_max [where 'a = 'a] by (auto simp: st_def m_def shape(2))
        then show ?thesis
          using loop(2) by simp
      next
        case False
        then have m': "m = k"
          by (simp add: m_def shape(2))
        have "val ?b + 2 ^ (LENGTH('a) * k) * unat (xs ! k) =
          val (fst st) + 2 ^ (LENGTH('a) * k) * unat (xs ! k + of_bool (snd st))"
          using val_update [of k "fst st" "fst st ! k + of_bool (snd st)"] loop(1) loop(3) [of k]
          by (simp add: shape(1) m')
        moreover have "unat (xs ! k + of_bool (snd st)) = unat (xs ! k) + of_bool (snd st)"
          using room by (cases "snd st") (simp_all add: unat_no_wrap(1))
        ultimately show ?thesis
          using loop(2) by (simp add: m' distrib_left)
      qed
      moreover have "bits_inc N xs = mask_end N ?b"
        using masked loop(1) by (simp add: res mask_end_def shape(1))
      ultimately show ?thesis
        using mask_end_bits(1,4) [of ?b N] loop(1) by (simp add: take_bit_eq_mod)
    qed
  qed
  then show "val (bits_inc N xs) = (val xs + 1) mod 2 ^ N" "wf_bits N (bits_inc N xs)"
    by (simp_all add: wf_bits_def)
qed

lemma dec_correct:
  fixes xs :: "'a::len word list"
  assumes "wf_bits N xs" "0 < N"
  shows "val (bits_dec N xs) =
      (if val xs \<noteq> 0 then val xs - 1 else if N < LENGTH('a) then 2 ^ N - 2 else 2 ^ N - 1)"
    "length (bits_dec N xs) = array_size TYPE('a) N"
proof -
  let ?n = "array_size TYPE('a) N"
  note len = wf_bits_length [OF assms(1)]
  have n: "0 < ?n" "xs \<noteq> []"
    using array_size_bounds(5) [OF assms(2), where 'a = 'a] len by auto
  define m where "m = max 1 (full_words TYPE('a) N)"
  define st where "st = dec_loop xs True [0..<m]"
  have m: "m \<le> ?n"
    using n(1) by (simp add: m_def full_words_eq)
  then have loop: "length (fst st) = ?n" "val (fst st) + 1 = val xs + 2 ^ (LENGTH('a) * m) * of_bool (snd st)"
    "\<And>j. m \<le> j \<Longrightarrow> fst st ! j = xs ! j"
    using dec_loop_val [of 0 m xs True] len by (simp_all add: st_def)
  have res: "bits_dec N xs = (if end_mask N \<noteq> (0 :: 'a word)
    then (fst st)[?n - 1 := (fst st ! (?n - 1) - of_bool (snd st)) AND end_mask N] else fst st)"
    using assms(2) by (simp only: bits_dec_def Let_def inc_entry(2) [OF n(2)] st_def m_def) simp
  show "length (bits_dec N xs) = ?n"
    by (simp add: res loop(1))
  show "val (bits_dec N xs) =
      (if val xs \<noteq> 0 then val xs - 1 else if N < LENGTH('a) then 2 ^ N - 2 else 2 ^ N - 1)"
  proof (cases "N mod LENGTH('a) = 0")
    case True
    then have m': "m = ?n"
      using n(1) by (simp add: m_def full_words_eq)
    have N: "2 ^ (LENGTH('a) * ?n) = (2 ^ N :: nat)"
      by (simp add: array_size_bounds(1) [OF True])
    have "val (fst st) < 2 ^ N" "\<not> N < LENGTH('a)"
      using val_less [of "fst st"] loop(1) N True assms(2) by auto
    moreover have "val (fst st) + 1 = val xs + 2 ^ N * of_bool (snd st)"
      using loop(2) by (simp add: m' N)
    ultimately have "val (fst st) = (if val xs \<noteq> 0 then val xs - 1 else 2 ^ N - 1)"
      by (cases "snd st"; cases "val xs") auto
    then show ?thesis
      using True \<open>\<not> N < LENGTH('a)\<close> by (simp add: res)
  next
    case masked: False
    from padded_shape [OF masked] obtain k r where shape: "?n = Suc k" "full_words TYPE('a) N = k"
      "r = N mod LENGTH('a)" "r < LENGTH('a)" "N = LENGTH('a) * k + r" by blast
    note X = wf_bits_last [OF assms(1) shape(5) len [unfolded shape(1)]]
    define P R :: nat where "P = 2 ^ (LENGTH('a) * k)" and "R = 2 ^ r"
    have N: "2 ^ N = P * R" "0 < P" "0 < R" "unat (xs ! k) < R"
      using X(1) by (simp_all add: P_def R_def shape(5) power_add)
    have R: "R < 2 ^ LENGTH('a)" "R dvd 2 ^ LENGTH('a)"
      using shape(4) by (simp_all add: R_def le_imp_power_dvd)
    have wrap: "unat (0 - d :: 'a word) mod R = R - unat d" if "0 < unat d" "unat d \<le> R" for d :: "'a word"
    proof -
      obtain e where e: "2 ^ LENGTH('a) = R * e"
        using R(2) by (elim dvdE)
      then obtain f where f: "e = Suc f"
        using R(1) by (cases e) auto
      have "unat (0 - d) + unat d = 2 ^ LENGTH('a)"
        using word_sub_borrow [of 0 d] that(1) by (simp add: word_gt_0 unat_gt_0)
      then have "unat (0 - d) = (R - unat d) + R * f"
        using that(2) by (simp add: e f)
      moreover have "R - unat d < R"
        using that N(3) by simp
      ultimately show ?thesis
        by simp
    qed
    let ?w = "fst st ! k - of_bool (snd st)"
    have last: "unat (?w AND end_mask N) = unat ?w mod R"
      by (simp add: unat_and_end_mask [OF masked] R_def shape(3))
    have out: "bits_dec N xs = (fst st)[k := ?w AND end_mask N]"
      using masked by (simp add: res shape(1))
    have total: "val (bits_dec N xs) = val (take k (fst st)) + P * (unat ?w mod R)"
      using val_last [of "bits_dec N xs" k] loop(1) shape(1) by (simp add: out last P_def)
    show ?thesis
    proof (cases "k = 0")
      case True
      have st: "st = (xs[0 := xs ! 0 - 1], xs ! 0 = 0)"
        by (simp add: st_def m_def shape(2) True)
      have small: "N < LENGTH('a)" "val xs = unat (xs ! 0)" "P = 1"
        using shape(4,5) X(2) by (simp_all add: P_def True)
      show ?thesis
      proof (cases "xs ! 0 = 0")
        case zero: True
        have "?w = 0 - 2"
          using True n(2) zero by (simp add: st)
        moreover have "unat (0 - 2 :: 'a word) mod R = R - 2"
        proof -
          have "2 ^ 1 \<le> R"
            unfolding R_def by (rule power_increasing) (use shape(3) masked in simp_all)
          then have "2 \<le> R" "(2 :: nat) < 2 ^ LENGTH('a)"
            using R(1) by simp_all
          then have "unat (2 :: 'a word) = 2"
            using unat_of_nat [of 2, where 'a = 'a] by simp
          then show ?thesis
            using wrap [of 2] \<open>2 \<le> R\<close> by simp
        qed
        ultimately show ?thesis
          using total small zero True N(1) by simp
      next
        case nonzero: False
        then have "unat ?w = unat (xs ! 0) - 1"
          using True n(2) by (simp add: st unat_minus_one)
        then show ?thesis
          using total small nonzero True N(4) by (simp add: unat_eq_zero)
      qed
    next
      case False
      then have m': "m = k"
        by (simp add: m_def shape(2))
      have "LENGTH('a) * 1 \<le> LENGTH('a) * k"
        using False by (intro mult_le_mono2) simp
      then have big: "\<not> N < LENGTH('a)"
        using shape(5) by linarith
      have word: "fst st ! k = xs ! k"
        using loop(3) [of k] m' by simp
      have "val (fst st) = val (take k (fst st)) + P * unat (xs ! k)"
        using val_last [of "fst st" k] loop(1) shape(1) word by (simp add: P_def)
      then have low: "val (take k (fst st)) + 1 = val (take k xs) + P * of_bool (snd st)"
        using loop(2) X(2) by (simp add: m' P_def)
      have lo: "val (take k xs) < P" "val (take k (fst st)) < P"
        using val_take_less [of k xs] val_take_less [of k "fst st"] len loop(1) shape(1) by (simp_all add: P_def)
      show ?thesis
      proof (cases "snd st")
        case nob: False
        then have "unat ?w mod R = unat (xs ! k)"
          using N(4) by (simp add: word)
        then show ?thesis
          using total low nob X(2) by (simp add: P_def)
      next
        case b: True
        then have take: "val (take k xs) = 0" "val (take k (fst st)) = P - 1"
          using low lo by simp_all
        show ?thesis
        proof (cases "xs ! k = 0")
          case True
          then have "unat ?w mod R = R - 1"
            using wrap [of 1] b word N(3) by (simp add: Suc_le_eq)
          then have "val (bits_dec N xs) = P * R - 1"
            using total take(2) N(2,3) by (cases R) simp_all
          then show ?thesis
            using True X(2) take(1) big N(1) by simp
        next
          case f: False
          then have "unat ?w mod R = unat (xs ! k) - 1" "0 < unat (xs ! k)"
            using b N(4) by (simp_all add: word unat_minus_one unat_gt_0 less_imp_diff_less)
          then show ?thesis
            using total X(2) take N(2) by (cases "unat (xs ! k)") (simp_all add: P_def)
        qed
      qed
    qed
  qed
qed

lemma negate_correct:
  assumes "wf_bits N xs"
  shows "val (bits_negate N xs) = (2 ^ N - val xs) mod 2 ^ N" "wf_bits N (bits_negate N xs)"
proof -
  have wf: "wf_bits N (bits_flip N xs)"
    using bits_not_bits(1) [OF assms] by (simp add: bits_flip_eq [OF assms])
  show "wf_bits N (bits_negate N xs)"
    unfolding bits_negate_def by (rule inc_correct(2) [OF wf])
  have "val xs < 2 ^ N"
    using assms by (simp add: wf_bits_def)
  then have "val (bits_flip N xs) + 1 = 2 ^ N - val xs"
    by (simp add: bits_flip_eq [OF assms] bits_not_val [OF assms])
  then show "val (bits_negate N xs) = (2 ^ N - val xs) mod 2 ^ N"
    by (simp only: bits_negate_def inc_correct(1) [OF wf])
qed

section \<open>Comparison\<close>

lemma compare_snoc:
  "bits_compare (xs @ [x]) (ys @ [y]) =
    (if x < y then Less else if y < x then Greater else bits_compare xs ys)"
  by (simp add: bits_compare_def)

lemma compare_correct:
  "length xs = length ys \<Longrightarrow> bits_compare xs ys =
    (if val xs < val ys then Less else if val xs = val ys then Equal else Greater)"
  for xs ys :: "'a::len word list"
proof (induction xs arbitrary: ys rule: rev_induct)
  case Nil
  then show ?case
    by (simp add: bits_compare_def)
next
  case (snoc x xs)
  then obtain zs y where ys: "ys = zs @ [y]" "length zs = length xs"
    by (cases ys rule: rev_cases) auto
  define P :: nat where "P = 2 ^ (LENGTH('a) * length xs)"
  have val: "val (xs @ [x]) = val xs + P * unat x" "val (zs @ [y]) = val zs + P * unat y"
    "val xs < P" "val zs < P"
    using val_less [of xs] val_less [of zs] by (simp_all add: val_append ys(2) P_def)
  have order: "a + P * i < b + P * j" if "i < j" "a < P" for a b i j
  proof -
    have "a + P * i < P * (i + 1)"
      using that(2) by simp
    also have "\<dots> \<le> P * j"
      using that(1) by (intro mult_left_mono) simp_all
    finally show ?thesis by simp
  qed
  show ?case
  proof (cases "unat x" "unat y" rule: linorder_cases)
    case less
    then show ?thesis
      using order [OF less val(3), of "val zs"] by (simp add: ys(1) compare_snoc val word_less_nat_alt)
  next
    case equal
    then show ?thesis
      using snoc.IH [of zs] ys(2) by (simp add: ys(1) compare_snoc val word_less_nat_alt)
  next
    case greater
    then show ?thesis
      using order [OF greater val(4), of "val xs"] by (simp add: ys(1) compare_snoc val word_less_nat_alt)
  qed
qed

section \<open>What the additive operations compute\<close>

text \<open>C26.  \<open>add\<close> is addition modulo \<open>2 ^ N\<close> and raises the flag exactly when the sum does not
  fit, both in the double width and word by word, whatever the out parameter held before.\<close>

theorem add_wraps:
  fixes xs ys :: "'a::len word list"
  assumes "wf_bits N xs" "wf_bits N ys" "length out = array_size TYPE('a) N"
  shows "val (snd (bits_add_out ops N xs ys out)) = (val xs + val ys) mod 2 ^ N \<and>
    (fst (bits_add_out ops N xs ys out) \<longleftrightarrow> 2 ^ N \<le> val xs + val ys) \<and>
    wf_bits N (snd (bits_add_out ops N xs ys out)) \<and>
    val (bits_plus ops N xs ys) = (val xs + val ys) mod 2 ^ N"
  using add_correct [OF assms, of ops]
    add_correct [OF assms(1,2) wf_bits_length [OF bits_min_val(2)], of ops]
  by (simp add: bits_plus_def bits_add_def)

lemma add_wraps_witness:
  "wf_bits 100 [0xFFFFFFFFFFFFFFFF, 0xFFFFFFFFF :: 64 word] \<and> wf_bits 100 [1, 0 :: 64 word] \<and>
   fst (bits_add_out native_big 100 [0xFFFFFFFFFFFFFFFF, 0xFFFFFFFFF :: 64 word] [1, 0] [7, 7])"
  using add_wraps [of 100 "[0xFFFFFFFFFFFFFFFF, 0xFFFFFFFFF :: 64 word]" "[1, 0]" "[7, 7]" native_big]
  by (simp add: wf_bits_def array_size_def)

text \<open>\<open>sub\<close> is subtraction modulo \<open>2 ^ N\<close> and raises the flag exactly when the subtrahend
  is larger.\<close>

theorem sub_wraps:
  fixes xs ys :: "'a::len word list"
  assumes "wf_bits N xs" "wf_bits N ys" "length out = array_size TYPE('a) N"
  shows "val (snd (bits_sub_out N xs ys out)) = (2 ^ N + val xs - val ys) mod 2 ^ N \<and>
    (fst (bits_sub_out N xs ys out) \<longleftrightarrow> val xs < val ys) \<and>
    wf_bits N (snd (bits_sub_out N xs ys out)) \<and>
    val (bits_minus N xs ys) = (2 ^ N + val xs - val ys) mod 2 ^ N"
  using sub_correct [OF assms] sub_correct [OF assms(1,2) wf_bits_length [OF bits_min_val(2)]]
  by (simp add: bits_minus_def bits_sub_def)

lemma sub_wraps_witness:
  "wf_bits 100 [0, 0 :: 64 word] \<and> wf_bits 100 [1, 0 :: 64 word] \<and>
   fst (bits_sub_out 100 [0, 0 :: 64 word] [1, 0] [7, 7])"
  using sub_wraps [of 100 "[0, 0 :: 64 word]" "[1, 0]" "[7, 7]"]
  by (simp add: wf_bits_def array_size_def)

text \<open>\<open>++\<close> adds one modulo \<open>2 ^ N\<close> and \<open>negate\<close> is the two's complement.  \<open>--\<close>
  subtracts one, except for a zero of fewer bits than a word: the borrow is applied twice,
  and the result is \<open>2 ^ N - 2\<close>.\<close>

theorem step_operators:
  fixes xs :: "'a::len word list"
  assumes "wf_bits N xs" "0 < N"
  shows "val (bits_inc N xs) = (val xs + 1) mod 2 ^ N \<and>
    val (bits_negate N xs) = (2 ^ N - val xs) mod 2 ^ N \<and>
    wf_bits N (bits_inc N xs) \<and> wf_bits N (bits_negate N xs) \<and>
    val (bits_dec N xs) = (if val xs \<noteq> 0 then val xs - 1
      else if N < LENGTH('a) then 2 ^ N - 2 else 2 ^ N - 1)"
  using inc_correct [OF assms(1)] negate_correct [OF assms(1)] dec_correct(1) [OF assms] by simp

lemma step_operators_witness:
  "wf_bits 5 [0 :: 8 word] \<and> val (bits_dec 5 [0 :: 8 word]) = 30"
  using step_operators [of 5 "[0 :: 8 word]"] by (simp add: wf_bits_def array_size_def)

text \<open>C27.  The three-way comparison, lexicographic from the most significant word, is the
  order of the denoted numbers.\<close>

theorem compare_is_order:
  fixes xs ys :: "'a::len word list"
  assumes "wf_bits N xs" "wf_bits N ys"
  shows "bits_compare xs ys =
    (if val xs < val ys then Less else if val xs = val ys then Equal else Greater)"
  using wf_bits_length [OF assms(1)] wf_bits_length [OF assms(2)] by (intro compare_correct) simp

lemma compare_is_order_witness:
  "wf_bits 12 [0xFF, 0x01 :: 8 word] \<and> wf_bits 12 [0x00, 0x02 :: 8 word] \<and>
   bits_compare [0xFF, 0x01 :: 8 word] [0x00, 0x02] = Less"
  using compare_is_order [of 12 "[0xFF, 0x01 :: 8 word]" "[0x00, 0x02]"]
  by (simp add: wf_bits_def array_size_def)

end
