(* ===== verification/BitMul.thy ===== *)
theory BitMul
  imports BitArith
begin

unbundle bit_operations_syntax

text \<open>
  Multiplication of \<open>Bits<N>\<close>, in the double width for a single word and by the schoolbook
  loops otherwise, and \<open>scatter\<close>, the deposit of bits under a mask.
\<close>

section \<open>Multiplication\<close>

text \<open>The inner loop of \<open>_mul\<close>: the two carries of a column are combined with \<open>|=\<close>.\<close>

definition mul_step ::
  "'a::len word big_ops \<Rightarrow> 'a word \<Rightarrow> 'a word list \<Rightarrow> nat \<Rightarrow> 'a word \<times> 'a word list \<Rightarrow> nat \<Rightarrow>
   'a word \<times> 'a word list" where
  "mul_step ops x ys i st j = (
     let carry = fst st; result = snd st;
         k = j + i;
         p = big_mul ops x (ys ! j);
         sum = snd p + result ! k;
         new_carry = of_bool (sum < result ! k);
         sum = sum + carry;
         new_carry = new_carry OR of_bool (sum < carry)
     in (fst p + new_carry, result[k := sum]))"

definition mul_row ::
  "'a::len word big_ops \<Rightarrow> nat \<Rightarrow> 'a word list \<Rightarrow> 'a word list \<Rightarrow> 'a word list \<Rightarrow> nat \<Rightarrow> 'a word list" where
  "mul_row ops n xs ys result i = (
     let st = foldl (mul_step ops (xs ! i) ys i) (0, result) [0..<n]
     in (snd st)[i + n := snd st ! (i + n) + fst st])"

definition school_mul ::
  "'a::len word big_ops \<Rightarrow> nat \<Rightarrow> 'a word list \<Rightarrow> 'a word list \<Rightarrow> 'a word list" where
  "school_mul ops n xs ys = foldl (mul_row ops n xs ys) (replicate (n * 2) 0) [0..<n]"

definition bits_mul_out ::
  "'a::len word big_ops \<Rightarrow> nat \<Rightarrow> 'a word list \<Rightarrow> 'a word list \<Rightarrow> 'a word list \<Rightarrow> bool \<times> 'a word list" where
  "bits_mul_out ops N xs ys out = (
     let n = array_size TYPE('a) N
     in if n = 1 \<and> \<not> composite ops
        then let result = nb_mul (xs ! 0) (ys ! 0)
          in if end_mask N \<noteq> (0 :: 'a word)
             then (drop_bit (N mod LENGTH('a)) result \<noteq> 0,
               out[0 := ucast (result AND ucast (end_mask N :: 'a word))])
             else (drop_bit LENGTH('a) result \<noteq> 0, out[0 := ucast result])
        else let result = school_mul ops n xs ys;
                 out = take n result @ drop n out;
                 high = list_ex (\<lambda>i. result ! i \<noteq> 0) [n..<n * 2]
          in if end_mask N \<noteq> (0 :: 'a word)
             then let overflow = result ! (n - 1) AND NOT (end_mask N) \<noteq> 0
               in (if overflow then True else high, out[n - 1 := out ! (n - 1) AND end_mask N])
             else (high, out))"

definition bits_mul ::
  "'a::len word big_ops \<Rightarrow> nat \<Rightarrow> 'a word list \<Rightarrow> 'a word list \<Rightarrow> bool \<times> 'a word list" where
  "bits_mul ops N xs ys = bits_mul_out ops N xs ys (bits_min N)"

definition bits_times :: "'a::len word big_ops \<Rightarrow> nat \<Rightarrow> 'a word list \<Rightarrow> 'a word list \<Rightarrow> 'a word list" where
  "bits_times ops N xs ys = snd (bits_mul ops N xs ys)"

section \<open>Scatter\<close>

text \<open>The numeral \<open>1\<close> as a bitset, and the loop over the active bits of the mask, lowest
  first.  Each turn removes a bit from \<open>slots\<close>, so \<open>N\<close> turns are enough.\<close>

definition bits_one :: "nat \<Rightarrow> 'a::len word list" where
  "bits_one N = (if N = 0 then [] else (bits_min N)[0 := 1])"

fun scatter_loop ::
  "nat \<Rightarrow> nat \<Rightarrow> 'a::len word list \<Rightarrow> 'a word list \<Rightarrow> 'a word list \<Rightarrow> 'a word list option" where
  "scatter_loop fuel N out src slots = (
     if \<not> bits_to_bool slots then Some out
     else case fuel of 0 \<Rightarrow> None
     | Suc fuel \<Rightarrow>
       let slot = bits_and N slots (bits_negate N slots);
           out = (if bits_to_bool (bits_and N src (bits_one N)) then bits_or_assign N out slot else out);
           src = bits_shr_assign N src 1
       in if \<not> bits_to_bool src then Some out
          else scatter_loop fuel N out src (bits_xor_assign N slots slot))"

declare scatter_loop.simps [simp del]

definition bits_scatter :: "nat \<Rightarrow> 'a::len word list \<Rightarrow> 'a word list \<Rightarrow> 'a word list option" where
  "bits_scatter N xs ms = scatter_loop N N (bits_min N) xs ms"


section \<open>The schoolbook loops\<close>

text \<open>The column does not carry twice.  Where it does, \<open>|=\<close> drops one of the carries.\<close>

definition carry_once ::
  "'a::len word big_ops \<Rightarrow> 'a word \<Rightarrow> 'a word list \<Rightarrow> nat \<Rightarrow> 'a word \<times> 'a word list \<Rightarrow> nat \<Rightarrow> bool" where
  "carry_once ops x ys i st j \<longleftrightarrow> (
     let sum = snd (big_mul ops x (ys ! j)) + snd st ! (j + i)
     in \<not> (sum < snd st ! (j + i) \<and> sum + fst st < fst st))"

definition row_once ::
  "'a::len word big_ops \<Rightarrow> nat \<Rightarrow> 'a word \<Rightarrow> 'a word list \<Rightarrow> 'a word list \<Rightarrow> nat \<Rightarrow> bool" where
  "row_once ops n x ys result i \<longleftrightarrow>
     (\<forall>j < n. carry_once ops x ys i (foldl (mul_step ops x ys i) (0, result) [0..<j]) j)"

lemma of_bool_or: "(of_bool p OR of_bool q :: 'a::len word) = of_bool (p \<or> q)"
  by (cases p; cases q) simp_all

lemma column_sum:
  fixes M :: nat
  assumes "x < M" "y < M" "r < M" "c < M" "M * hi + lo = x * y"
    "s1 + M * of_bool p = lo + r" "s2 + M * of_bool q = s1 + c"
  shows "M * (hi + of_bool p + of_bool q) + s2 = x * y + r + c" "hi + of_bool p + of_bool q < M"
proof -
  show eq: "M * (hi + of_bool p + of_bool q) + s2 = x * y + r + c"
    using assms(5-7) by (simp add: distrib_left)
  obtain m where m: "M = Suc m"
    using assms(1) by (cases M) auto
  have "x * y \<le> m * m"
    using assms(1,2) by (intro mult_le_mono) (simp_all add: m)
  then have "x * y + r + c < M * M"
    using assms(3,4) by (simp add: m)
  then have "M * (hi + of_bool p + of_bool q) < M * M"
    using eq by linarith
  then show "hi + of_bool p + of_bool q < M"
    by simp
qed

lemma row_algebra:
  fixes P :: nat
  assumes "v' + P * (M * c') = v + P * (x * y + c)" "v + P * c = r + A * (x * t)" "t' = t + B * y"
    "P' = P * M" "P = A * B"
  shows "v' + P' * c' = r + A * (x * t')"
proof -
  have "v' + P' * c' = (v + P * c) + P * (x * y)"
    using assms(1) unfolding assms(4) mult.assoc distrib_left by linarith
  also have "\<dots> = r + A * (x * t')"
    unfolding assms(2) unfolding assms(3,5) by (simp add: distrib_left mult_ac)
  finally show ?thesis .
qed

context big_word
begin

lemma mul_step_val:
  assumes "carry_once ops x ys i (c, r) j" "j + i < length r"
  shows "length (snd (mul_step ops x ys i (c, r) j)) = length r \<and>
    val (snd (mul_step ops x ys i (c, r) j)) +
      2 ^ (LENGTH('a) * (j + i)) * (2 ^ LENGTH('a) * unat (fst (mul_step ops x ys i (c, r) j))) =
    val r + 2 ^ (LENGTH('a) * (j + i)) * (unat x * unat (ys ! j) + unat c) \<and>
    (\<forall>k. k \<noteq> j + i \<longrightarrow> snd (mul_step ops x ys i (c, r) j) ! k = r ! k)"
proof -
  define p where "p = big_mul ops x (ys ! j)"
  define s1 s2 where "s1 = snd p + r ! (j + i)" and "s2 = s1 + c"
  define o1 o2 where "o1 = (s1 < r ! (j + i))" and "o2 = (s2 < c)"
  let ?M = "2 ^ LENGTH('a) :: nat" and ?P = "2 ^ (LENGTH('a) * (j + i)) :: nat"
  have step: "mul_step ops x ys i (c, r) j = (fst p + of_bool (o1 \<or> o2), r[j + i := s2])"
    by (simp add: mul_step_def Let_def of_bool_or p_def s1_def s2_def o1_def o2_def)
  have once: "\<not> (o1 \<and> o2)"
    using assms(1) by (simp add: carry_once_def Let_def p_def s1_def s2_def o1_def o2_def)
  have p: "?M * unat (fst p) + unat (snd p) = unat x * unat (ys ! j)"
    using mul_val [of x "ys ! j"] by (simp add: pair_val_def p_def)
  have 1: "unat s1 + ?M * of_bool o1 = unat (snd p) + unat (r ! (j + i))"
    unfolding s1_def o1_def by (rule word_add_carry')
  have 2: "unat s2 + ?M * of_bool o2 = unat s1 + unat c"
    unfolding s2_def o2_def by (rule word_add_carry')
  note col = column_sum [OF unat_less unat_less unat_less unat_less p 1 2]
  have "unat (of_bool (o1 \<or> o2) :: 'a word) = of_bool o1 + of_bool o2"
    using once by (cases o1; cases o2) simp_all
  then have carry: "unat (fst p + of_bool (o1 \<or> o2)) = unat (fst p) + of_bool o1 + of_bool o2"
    using col(2) by (subst unat_no_wrap(1)) simp_all
  have "val (r[j + i := s2]) + ?P * unat (r ! (j + i)) = val r + ?P * unat s2"
    by (rule val_update [OF assms(2)])
  moreover have "?P * (?M * (unat (fst p) + of_bool o1 + of_bool o2)) + ?P * unat s2 =
    ?P * (unat x * unat (ys ! j)) + ?P * unat (r ! (j + i)) + ?P * unat c"
    using arg_cong [OF col(1), of "\<lambda>t. ?P * t"] by (simp only: distrib_left)
  ultimately have "val (r[j + i := s2]) + ?P * (?M * (unat (fst p) + of_bool o1 + of_bool o2)) =
    val r + ?P * (unat x * unat (ys ! j) + unat c)"
    unfolding distrib_left [of ?P "unat x * unat (ys ! j)"] by linarith
  then show ?thesis
    unfolding step fst_conv snd_conv carry by simp
qed

lemma mul_row_loop:
  assumes "length r = n * 2" "i < n" "length ys = n" "j \<le> n" "row_once ops n x ys r i"
  defines "st \<equiv> foldl (mul_step ops x ys i) (0, r) [0..<j]"
  shows "length (snd st) = n * 2 \<and>
    val (snd st) + 2 ^ (LENGTH('a) * (j + i)) * unat (fst st) =
      val r + 2 ^ (LENGTH('a) * i) * (unat x * val (take j ys)) \<and>
    (\<forall>k. j + i \<le> k \<longrightarrow> snd st ! k = r ! k)"
  unfolding st_def using assms(4)
proof (induction j)
  case (Suc j)
  let ?st = "foldl (mul_step ops x ys i) (0, r) [0..<j]"
  obtain c b where st: "?st = (c, b)"
    by (cases ?st)
  have IH: "length b = n * 2" "val b + 2 ^ (LENGTH('a) * (j + i)) * unat c =
      val r + 2 ^ (LENGTH('a) * i) * (unat x * val (take j ys))"
    "\<And>k. j + i \<le> k \<Longrightarrow> b ! k = r ! k"
    using Suc st by simp_all
  have "carry_once ops x ys i (c, b) j"
    using assms(5) [unfolded row_once_def, rule_format, of j] Suc.prems st by simp
  moreover have "j + i < length b"
    using IH(1) Suc.prems assms(2) by simp
  ultimately have step: "length (snd (mul_step ops x ys i (c, b) j)) = n * 2"
    "val (snd (mul_step ops x ys i (c, b) j)) +
      2 ^ (LENGTH('a) * (j + i)) * (2 ^ LENGTH('a) * unat (fst (mul_step ops x ys i (c, b) j))) =
     val b + 2 ^ (LENGTH('a) * (j + i)) * (unat x * unat (ys ! j) + unat c)"
    "\<And>k. k \<noteq> j + i \<Longrightarrow> snd (mul_step ops x ys i (c, b) j) ! k = b ! k"
    using mul_step_val [of x ys i c b j] IH(1) by auto
  have foldl_Suc: "foldl (mul_step ops x ys i) (0, r) [0..<Suc j] = mul_step ops x ys i (c, b) j"
    by (simp add: st)
  have take: "val (take (Suc j) ys) = val (take j ys) + 2 ^ (LENGTH('a) * j) * unat (ys ! j)"
    using Suc.prems assms(3) by (simp add: val_take_Suc)
  have pow: "2 ^ (LENGTH('a) * (Suc j + i)) = (2 ^ (LENGTH('a) * (j + i)) * 2 ^ LENGTH('a) :: nat)"
    "2 ^ (LENGTH('a) * (j + i)) = (2 ^ (LENGTH('a) * i) * 2 ^ (LENGTH('a) * j) :: nat)"
    by (simp_all add: power_add algebra_simps)
  have "val (snd (mul_step ops x ys i (c, b) j)) +
      2 ^ (LENGTH('a) * (Suc j + i)) * unat (fst (mul_step ops x ys i (c, b) j)) =
    val r + 2 ^ (LENGTH('a) * i) * (unat x * val (take (Suc j) ys))"
    by (rule row_algebra [OF step(2) IH(2) take pow])
  then show ?case
    unfolding foldl_Suc using step(1,3) IH(3) by simp
qed (simp_all add: assms)

lemma mul_row_val:
  assumes "length r = n * 2" "i < n" "length ys = n" "row_once ops n (xs ! i) ys r i" "r ! (i + n) = 0"
  shows "length (mul_row ops n xs ys r i) = n * 2"
    "val (mul_row ops n xs ys r i) = val r + 2 ^ (LENGTH('a) * i) * (unat (xs ! i) * val ys)"
    "i + n < k \<Longrightarrow> mul_row ops n xs ys r i ! k = r ! k"
proof -
  define st where "st = foldl (mul_step ops (xs ! i) ys i) (0, r) [0..<n]"
  have row: "mul_row ops n xs ys r i = (snd st)[i + n := snd st ! (i + n) + fst st]"
    by (simp add: mul_row_def Let_def st_def)
  have loop: "length (snd st) = n * 2" "val (snd st) + 2 ^ (LENGTH('a) * (n + i)) * unat (fst st) =
      val r + 2 ^ (LENGTH('a) * i) * (unat (xs ! i) * val ys)"
    "\<And>k. n + i \<le> k \<Longrightarrow> snd st ! k = r ! k"
    using mul_row_loop [OF assms(1-3) order_refl assms(4)] assms(3) by (simp_all add: st_def)
  then show "length (mul_row ops n xs ys r i) = n * 2"
    by (simp add: row)
  have "snd st ! (i + n) = 0"
    using loop(3) [of "i + n"] assms(5) by simp
  then show "val (mul_row ops n xs ys r i) = val r + 2 ^ (LENGTH('a) * i) * (unat (xs ! i) * val ys)"
    using val_update [of "i + n" "snd st" "snd st ! (i + n) + fst st"] loop(1,2) assms(2)
    by (simp add: row add.commute)
  show "i + n < k \<Longrightarrow> mul_row ops n xs ys r i ! k = r ! k"
    using loop(3) [of k] by (simp add: row)
qed

lemma school_mul_rows:
  assumes "length xs = n" "length ys = n" "i \<le> n"
    "\<And>i. i < n \<Longrightarrow> row_once ops n (xs ! i) ys (foldl (mul_row ops n xs ys) (replicate (n * 2) 0) [0..<i]) i"
  shows "length (foldl (mul_row ops n xs ys) (replicate (n * 2) 0) [0..<i]) = n * 2 \<and>
    val (foldl (mul_row ops n xs ys) (replicate (n * 2) 0) [0..<i]) = val (take i xs) * val ys \<and>
    (\<forall>k. i + n \<le> k \<longrightarrow> k < n * 2 \<longrightarrow> foldl (mul_row ops n xs ys) (replicate (n * 2) 0) [0..<i] ! k = 0)"
  using assms(3)
proof (induction i)
  case (Suc i)
  let ?r = "foldl (mul_row ops n xs ys) (replicate (n * 2) 0) [0..<i]"
  have IH: "length ?r = n * 2" "val ?r = val (take i xs) * val ys"
    "\<And>k. i + n \<le> k \<Longrightarrow> k < n * 2 \<Longrightarrow> ?r ! k = 0"
    using Suc by simp_all
  note row = mul_row_val [OF IH(1) _ assms(2) assms(4)]
  have "?r ! (i + n) = 0"
    using IH(3) [of "i + n"] Suc.prems by simp
  note row = row [OF _ _ this]
  have "val (take (Suc i) xs) = val (take i xs) + 2 ^ (LENGTH('a) * i) * unat (xs ! i)"
    using Suc.prems assms(1) by (simp add: val_take_Suc)
  then have "val (mul_row ops n xs ys ?r i) = val (take (Suc i) xs) * val ys"
    using row(2) Suc.prems IH(2) by (simp add: algebra_simps)
  then show ?case
    using row(1,3) Suc.prems IH(3) by simp
qed simp

lemma school_mul_val:
  assumes "length xs = n" "length ys = n"
    "\<And>i. i < n \<Longrightarrow> row_once ops n (xs ! i) ys (foldl (mul_row ops n xs ys) (replicate (n * 2) 0) [0..<i]) i"
  shows "length (school_mul ops n xs ys) = n * 2" "val (school_mul ops n xs ys) = val xs * val ys"
  using school_mul_rows [OF assms(1,2) order_refl assms(3)] assms(1) by (simp_all add: school_mul_def)

text \<open>A factor of one word never carries twice in a column.\<close>

lemma mul_zero: "big_mul ops 0 y = (0, 0)" "big_mul ops x 0 = (0, 0)"
  using mul_val [of 0 y] mul_val [of x 0]
  by (cases "big_mul ops 0 y"; cases "big_mul ops x 0"; simp add: pair_val_def unat_eq_zero)+

lemma zero_row_once: "row_once ops n 0 ys r i"
  by (simp add: row_once_def carry_once_def mul_zero Let_def)

lemma first_row_once: "length r = n * 2 \<Longrightarrow> (\<And>k. k < n \<Longrightarrow> r ! k = 0) \<Longrightarrow> row_once ops n x ys r 0"
  unfolding row_once_def
proof (intro allI impI)
  fix j assume r: "length r = n * 2" "\<And>k. k < n \<Longrightarrow> r ! k = 0" and j: "j < n"
  have keep: "snd (foldl (mul_step ops x ys 0) (0, r) [0..<m]) ! k = r ! k" if "m \<le> k" for m k
    using that by (induction m) (simp_all add: mul_step_def Let_def)
  show "carry_once ops x ys 0 (foldl (mul_step ops x ys 0) (0, r) [0..<j]) j"
    using keep [of j j] r(2) [OF j] by (simp add: carry_once_def Let_def)
qed

lemma short_row_once:
  assumes "\<And>j. 0 < j \<Longrightarrow> j < n \<Longrightarrow> ys ! j = 0"
  shows "row_once ops n x ys r i"
  unfolding row_once_def
proof (intro allI impI)
  fix j assume j: "j < n"
  show "carry_once ops x ys i (foldl (mul_step ops x ys i) (0, r) [0..<j]) j"
  proof (cases "j = 0")
    case False
    then show ?thesis
      using assms [of j] j by (simp add: carry_once_def Let_def mul_zero)
  qed (simp add: carry_once_def)
qed

lemma high_words_zero:
  fixes xs :: "'c::len word list"
  assumes "val xs < 2 ^ LENGTH('c)" "0 < j" "j < length xs"
  shows "xs ! j = 0"
proof (rule bit_word_eqI)
  fix k assume k: "k < LENGTH('c)"
  have "LENGTH('c) * 1 \<le> LENGTH('c) * j"
    using assms(2) by (intro mult_le_mono2) simp
  then have "LENGTH('c) \<le> LENGTH('c) * j + k"
    by linarith
  then have "\<not> bit (val xs) (LENGTH('c) * j + k)"
    using bit_nat_less [OF assms(1)] by blast
  moreover have "bit (val xs) (LENGTH('c) * j + k) \<longleftrightarrow> bit (xs ! j) k"
    using bit_val_index [OF k, of xs j] assms(3) by simp
  ultimately show "bit (xs ! j) k \<longleftrightarrow> bit (0 :: 'c word) k"
    by simp
qed

lemma school_mul_single:
  assumes "length xs = n" "length ys = n" "val xs < 2 ^ LENGTH('a) \<or> val ys < 2 ^ LENGTH('a)"
  shows "length (school_mul ops n xs ys) = n * 2" "val (school_mul ops n xs ys) = val xs * val ys"
proof -
  let ?r = "\<lambda>i. foldl (mul_row ops n xs ys) (replicate (n * 2) 0) [0..<i]"
  have once: "row_once ops n (xs ! i) ys (?r i) i" if "i < n" for i
  proof (cases "val ys < 2 ^ LENGTH('a)")
    case True
    show ?thesis
      by (rule short_row_once) (use high_words_zero [OF True] assms(2) in auto)
  next
    case False
    then have xs: "val xs < 2 ^ LENGTH('a)"
      using assms(3) by blast
    show ?thesis
    proof (cases "i = 0")
      case True
      then show ?thesis
        by (simp add: first_row_once)
    next
      case False
      then show ?thesis
        using high_words_zero [OF xs, of i] that assms(1) by (simp add: zero_row_once)
    qed
  qed
  show "length (school_mul ops n xs ys) = n * 2" "val (school_mul ops n xs ys) = val xs * val ys"
    using school_mul_val [OF assms(1,2) once] by blast+
qed

end

section \<open>The product of two bitsets\<close>

lemma take_drop_append: "length xs = n \<Longrightarrow> take n ys @ drop n xs = take n ys"
  by simp

text \<open>The flag of the schoolbook branch tests the bits from position \<open>N\<close> on.\<close>

lemma high_bits:
  fixes res :: "'a::len word list"
  assumes "length res = array_size TYPE('a) N * 2"
  defines "n \<equiv> array_size TYPE('a) N"
  shows "(N mod LENGTH('a) \<noteq> 0 \<and> res ! (n - 1) AND NOT (end_mask N) \<noteq> 0 \<or>
      list_ex (\<lambda>i. res ! i \<noteq> 0) [n..<n * 2]) \<longleftrightarrow> 2 ^ N \<le> val res"
proof
  assume lhs: "N mod LENGTH('a) \<noteq> 0 \<and> res ! (n - 1) AND NOT (end_mask N) \<noteq> 0 \<or>
      list_ex (\<lambda>i. res ! i \<noteq> 0) [n..<n * 2]"
  have "\<exists>m \<ge> N. bit (val res) m"
  proof (cases "list_ex (\<lambda>i. res ! i \<noteq> 0) [n..<n * 2]")
    case True
    then obtain i where i: "n \<le> i" "i < n * 2" "res ! i \<noteq> 0"
      by (auto simp: list_ex_iff)
    then obtain k where k: "k < LENGTH('a)" "bit (res ! i) k"
      by (metis bit_0_eq bit_imp_le_length bit_word_eqI bot_apply bot_bool_def)
    have "LENGTH('a) * n \<le> LENGTH('a) * i + k"
      using i(1) by (intro trans_le_add1 mult_le_mono2)
    then have "N \<le> LENGTH('a) * i + k"
      using array_size_bounds(4) [of N, where 'a = 'a] by (simp add: n_def)
    moreover have "bit (val res) (LENGTH('a) * i + k)"
      using i(2) k assms(1) by (simp add: bit_val_index n_def)
    ultimately show ?thesis by blast
  next
    case False
    then have nz: "N mod LENGTH('a) \<noteq> 0" "res ! (n - 1) AND NOT (end_mask N) \<noteq> 0"
      using lhs by blast+
    then obtain k where k: "k < LENGTH('a)" "bit (res ! (n - 1) AND NOT (end_mask N)) k"
      by (metis bit_0_eq bit_imp_le_length bit_word_eqI bot_apply bot_bool_def)
    then have "bit (res ! (n - 1)) k" "N mod LENGTH('a) \<le> k"
      by (simp_all add: bit_simps bit_end_mask)
    moreover have "0 < n"
      using array_size_bounds(3) [OF nz(1)] by (simp add: n_def)
    ultimately have "bit (val res) (LENGTH('a) * (n - 1) + k)"
      using k(1) assms(1) by (simp add: bit_val_index n_def)
    moreover have "N \<le> LENGTH('a) * (n - 1) + k"
      using array_size_bounds(2) [OF nz(1)] \<open>N mod LENGTH('a) \<le> k\<close> by (simp add: n_def)
    ultimately show ?thesis by blast
  qed
  then show "2 ^ N \<le> val res"
    using bit_nat_less [of "val res" N] by (meson not_le)
next
  assume "2 ^ N \<le> val res"
  then obtain m where m: "N \<le> m" "bit (val res) m"
    using less_exp_by_bits [of N "val res"] by (meson not_le)
  let ?i = "m div LENGTH('a)" and ?k = "m mod LENGTH('a)"
  have i: "?i < n * 2" "bit (res ! ?i) ?k"
    using m(2) assms(1) by (simp_all add: bit_val n_def)
  then have nonzero: "res ! ?i \<noteq> 0"
    by auto
  show "N mod LENGTH('a) \<noteq> 0 \<and> res ! (n - 1) AND NOT (end_mask N) \<noteq> 0 \<or>
      list_ex (\<lambda>i. res ! i \<noteq> 0) [n..<n * 2]"
  proof (cases "n \<le> ?i")
    case True
    then show ?thesis
      using i(1) nonzero by (auto simp: list_ex_iff)
  next
    case False
    then have "m < LENGTH('a) * n"
      by (simp add: not_le index_div)
    then have nz: "N mod LENGTH('a) \<noteq> 0"
      using m(1) array_size_bounds(1) [of N, where 'a = 'a] by (auto simp: n_def)
    have "?i = n - 1"
    proof -
      have "LENGTH('a) * (n - 1) \<le> m"
        using array_size_bounds(2) [OF nz] m(1) by (simp add: n_def)
      then have "n - 1 \<le> ?i"
        by (simp add: less_eq_div_iff_mult_less_eq mult.commute)
      then show ?thesis
        using False by linarith
    qed
    moreover have "\<not> ?k < N mod LENGTH('a)"
      using index_end [OF nz, of m] \<open>?i = n - 1\<close> m(1) by (simp add: n_def)
    ultimately have "bit (res ! (n - 1) AND NOT (end_mask N)) ?k"
      using i(2) by (simp add: bit_simps bit_end_mask)
    then show ?thesis
      using nz by auto
  qed
qed

lemma school_product:
  fixes xs ys :: "'a::len word list"
  assumes "length res = array_size TYPE('a) N * 2" "val res = p" "school_mul ops (array_size TYPE('a) N) xs ys = res"
    "length out = array_size TYPE('a) N" "\<not> (array_size TYPE('a) N = 1 \<and> \<not> composite ops)"
  shows "val (snd (bits_mul_out ops N xs ys out)) = p mod 2 ^ N"
    "fst (bits_mul_out ops N xs ys out) \<longleftrightarrow> 2 ^ N \<le> p"
    "length (snd (bits_mul_out ops N xs ys out)) = array_size TYPE('a) N"
proof -
  let ?n = "array_size TYPE('a) N"
  have eq: "bits_mul_out ops N xs ys out = (N mod LENGTH('a) \<noteq> 0 \<and> res ! (?n - 1) AND NOT (end_mask N) \<noteq> 0 \<or>
      list_ex (\<lambda>i. res ! i \<noteq> 0) [?n..<?n * 2], mask_end N (take ?n res))"
    by (simp only: bits_mul_out_def Let_def if_not_P [OF assms(5)] assms(3) take_drop_append [OF assms(4)])
      (simp add: mask_end_def)
  show "fst (bits_mul_out ops N xs ys out) \<longleftrightarrow> 2 ^ N \<le> p"
    using high_bits [OF assms(1)] assms(2) by (simp only: eq fst_conv)
  have len: "length (take ?n res) = ?n"
    using assms(1) by simp
  show "length (snd (bits_mul_out ops N xs ys out)) = ?n"
    by (simp only: eq snd_conv mask_end_bits(1) [OF len])
  have "p = val (take ?n res) + 2 ^ (LENGTH('a) * ?n) * val (drop ?n res)"
    using val_append [of "take ?n res" "drop ?n res"] assms(1,2) by simp
  moreover have "2 ^ N dvd (2 :: nat) ^ (LENGTH('a) * ?n) * val (drop ?n res)"
    by (intro dvd_mult2 le_imp_power_dvd) (rule array_size_bounds(4))
  ultimately have "p mod 2 ^ N = val (take ?n res) mod 2 ^ N"
    by (auto elim!: dvdE)
  then show "val (snd (bits_mul_out ops N xs ys out)) = p mod 2 ^ N"
    by (simp only: eq snd_conv mask_end_bits(4) [OF len] take_bit_eq_mod)
qed

lemma native_product:
  fixes xs ys :: "'a::len word list"
  assumes "length xs = 1" "length ys = 1" "length out = 1" "array_size TYPE('a) N = 1" "\<not> composite ops"
  shows "val (snd (bits_mul_out ops N xs ys out)) = (val xs * val ys) mod 2 ^ N"
    "fst (bits_mul_out ops N xs ys out) \<longleftrightarrow> 2 ^ N \<le> val xs * val ys"
    "length (snd (bits_mul_out ops N xs ys out)) = 1"
proof -
  have eq: "bits_mul_out ops N xs ys out = narrow N (nb_mul (xs ! 0) (ys ! 0)) out"
    using assms(4,5) by (simp only: bits_mul_out_def narrow_def Let_def if_P simp_thms)
  show "val (snd (bits_mul_out ops N xs ys out)) = (val xs * val ys) mod 2 ^ N"
    "fst (bits_mul_out ops N xs ys out) \<longleftrightarrow> 2 ^ N \<le> val xs * val ys"
    "length (snd (bits_mul_out ops N xs ys out)) = 1"
    using narrow_val [OF assms(4,3), of "nb_mul (xs ! 0) (ys ! 0)"] assms(1,2)
    unfolding eq by (simp_all add: nb_mul_val single_word)
qed

section \<open>Depositing bits\<close>

lemma lowest_bit:
  fixes s :: nat
  assumes "s \<noteq> 0"
  obtains t where "bit s t" "\<And>k. k < t \<Longrightarrow> \<not> bit s k"
proof -
  have "\<exists>k. bit s k"
    using assms bit_eqI [of s 0] by auto
  then show ?thesis
    using that [of "LEAST k. bit s k"] LeastI_ex [of "bit s"] not_less_Least [of _ "bit s"] by blast
qed

lemma isolate_lowest:
  fixes s :: nat
  assumes "bit s t" "\<And>k. k < t \<Longrightarrow> \<not> bit s k" "s < 2 ^ N"
  shows "bit (s AND (2 ^ N - s)) m \<longleftrightarrow> m = t" "2 ^ N - s < 2 ^ N"
proof -
  have t: "t < N"
    using assms(1) bit_nat_less [OF assms(3)] by (meson not_le)
  have "s \<noteq> 0"
    using assms(1) by (intro notI) simp
  then show "2 ^ N - s < 2 ^ N"
    using assms(3) by simp
  define u where "u = drop_bit (Suc t) s"
  have s: "s = (2 ^ t - 1 + 2 ^ t * (2 * u)) + 1"
  proof -
    have "s = 2 ^ t + 2 ^ Suc t * u"
      by (rule bit_eqI) (subst bit_add_shifted; use assms(1,2) in
        \<open>auto simp: bit_drop_bit_eq u_def bit_exp_iff not_less_eq less_Suc_eq\<close>)
    then show ?thesis by simp
  qed
  have low: "bit (s - 1) k \<longleftrightarrow> (if k < t then True else k \<noteq> t \<and> bit s k)" for k
  proof -
    have "bit (s - 1) k \<longleftrightarrow> (if k < t then bit (mask t :: nat) k else bit (2 * u) (k - t))"
      using bit_add_shifted [of "2 ^ t - 1" t "2 * u" k] by (subst s) (simp add: mask_eq_exp_minus_1)
    also have "\<dots> \<longleftrightarrow> (if k < t then True else k \<noteq> t \<and> bit s k)"
      by (auto simp: bit_mask_iff bit_double_iff u_def bit_drop_bit_eq)
    finally show ?thesis .
  qed
  have "int (2 ^ N - s) = take_bit N (- int s)"
    using assms(3) \<open>s \<noteq> 0\<close> by (simp add: take_bit_eq_mod zmod_zminus1_eq_if of_nat_diff)
  then have "bit (2 ^ N - s) k \<longleftrightarrow> k < N \<and> \<not> bit (s - 1) k" for k
  proof -
    have "bit (int (2 ^ N - s)) k \<longleftrightarrow> k < N \<and> \<not> bit (int s - 1) k"
      using \<open>int (2 ^ N - s) = _\<close> by (simp only: bit_take_bit_iff) (simp add: minus_eq_not_minus_1 bit_not_iff)
    moreover have "int s - 1 = int (s - 1)"
      using \<open>s \<noteq> 0\<close> by simp
    ultimately show ?thesis
      by (simp only: bit_of_nat_iff) simp
  qed
  then show "bit (s AND (2 ^ N - s)) m \<longleftrightarrow> m = t"
    using low [of m] t assms(1,2) by (auto simp: bit_and_iff)
qed

text \<open>The number of active mask bits below a position.\<close>

definition rank :: "nat \<Rightarrow> nat \<Rightarrow> nat" where
  "rank s m = card {j. j < m \<and> bit s j}"

lemma rank_remove:
  assumes "bit s t" "t < m" "\<And>k. bit s' k \<longleftrightarrow> bit s k \<and> k \<noteq> t"
  shows "rank s m = Suc (rank s' m)"
proof -
  have "{j. j < m \<and> bit s j} = insert t {j. j < m \<and> bit s' j}"
    using assms by auto
  then show ?thesis
    using assms(3) [of t] by (simp add: rank_def)
qed

lemma rank_zero: "(\<And>k. k < m \<Longrightarrow> \<not> bit s k) \<Longrightarrow> rank s m = 0"
  by (simp add: rank_def)

lemma bits_one_val:
  assumes "0 < N"
  shows "val (bits_one N :: 'a::len word list) = 1" "wf_bits N (bits_one N :: 'a word list)"
proof -
  obtain n where n: "array_size TYPE('a) N = Suc n"
    using index_less [OF assms, where 'a = 'a] by (cases "array_size TYPE('a) N") auto
  have "bits_one N = (1 :: 'a word) # replicate n 0"
    using assms n by (simp add: bits_one_def bits_min_def)
  then show "val (bits_one N :: 'a word list) = 1" "wf_bits N (bits_one N :: 'a word list)"
    using n one_less_power [of "2 :: nat" N] assms by (simp_all add: wf_bits_def)
qed

lemma scatter_loop_correct:
  fixes out src slots :: "'a::len word list"
  assumes "wf_bits N out" "wf_bits N src" "wf_bits N slots" "0 < N" "rank (val slots) N \<le> fuel"
  shows "\<exists>r. scatter_loop fuel N out src slots = Some r \<and> wf_bits N r \<and>
    (\<forall>m. bit (val r) m \<longleftrightarrow> bit (val out) m \<or> bit (val slots) m \<and> bit (val src) (rank (val slots) m))"
  using assms
proof (induction fuel arbitrary: out src slots)
  case (0 out src slots)
  have "val slots = 0"
  proof (rule bit_eqI)
    fix k
    have "{j. j < N \<and> bit (val slots) j} = {}"
      using 0(5) by (simp add: rank_def)
    then show "bit (val slots) k \<longleftrightarrow> bit 0 k"
      using wf_bits_bitD [OF 0(3), of k] by auto
  qed
  then show ?case
    using 0(1) by (simp add: scatter_loop.simps bits_to_bool_val)
next
  case (Suc fuel out src slots)
  show ?case
  proof (cases "val slots = 0")
    case True
    then show ?thesis
      using Suc.prems(1) by (simp add: scatter_loop.simps bits_to_bool_val)
  next
    case False
    then obtain t where t: "bit (val slots) t" "\<And>k. k < t \<Longrightarrow> \<not> bit (val slots) k"
      by (rule lowest_bit) blast
    have bound: "val slots < 2 ^ N"
      using Suc.prems(3) by (simp add: wf_bits_def)
    define slot where "slot = bits_and N slots (bits_negate N slots)"
    define out' where "out' = (if bits_to_bool (bits_and N src (bits_one N)) then bits_or_assign N out slot else out)"
    define src' where "src' = bits_shr_assign N src 1"
    define slots' where "slots' = bits_xor_assign N slots slot"
    have step: "scatter_loop (Suc fuel) N out src slots =
      (if val src' = 0 then Some out' else scatter_loop fuel N out' src' slots')"
      using False by (simp add: scatter_loop.simps [of "Suc fuel"] bits_to_bool_val Let_def
          slot_def out'_def src'_def slots'_def)
    note neg = negate_correct [OF Suc.prems(3)]
    have "2 ^ N - val slots < 2 ^ N"
      using t bound by (rule isolate_lowest(2)) simp
    then have neg_val: "val (bits_negate N slots) = 2 ^ N - val slots"
      by (simp only: neg(1) mod_less)
    have slot: "bit (val slot) m \<longleftrightarrow> m = t" for m
      unfolding slot_def bits_logic_val(1) [OF Suc.prems(3) neg(2)] neg_val
      by (rule isolate_lowest(1) [OF t bound])
    have slot_wf: "wf_bits N slot"
      unfolding slot_def by (rule bits_logic_wf(1) [OF Suc.prems(3) neg(2)])
    have "val (bits_and N src (bits_one N)) = val src AND 1"
      using bits_one_val [OF Suc.prems(4), where 'a = 'a] by (simp add: bits_logic_val(1) [OF Suc.prems(2)])
    then have odd: "bits_to_bool (bits_and N src (bits_one N)) \<longleftrightarrow> bit (val src) 0"
      by (simp add: bits_to_bool_val and_one_eq odd_iff_mod_2_eq_one bit_0)
    have out': "bit (val out') m \<longleftrightarrow> bit (val out) m \<or> m = t \<and> bit (val src) 0" "wf_bits N out'" for m
      using bits_or_assign_bits [OF Suc.prems(1) slot_wf] Suc.prems(1) by (auto simp: out'_def odd slot)
    have src': "bit (val src') m \<longleftrightarrow> bit (val src) (Suc m)" "wf_bits N src'" for m
      using bits_shr_assign_val [OF Suc.prems(2), of 1] by (simp_all add: src'_def bit_drop_bit_eq)
    have slots': "bit (val slots') m \<longleftrightarrow> bit (val slots) m \<and> m \<noteq> t" "wf_bits N slots'" for m
      using bits_logic_val(3) [OF Suc.prems(3) slot_wf] bits_logic_wf(3) [OF Suc.prems(3) slot_wf] t(1)
        bits_logic_assign(3) [OF Suc.prems(3), of slot]
      by (auto simp: slots'_def bit_xor_iff slot)
    have rank: "rank (val slots) m = Suc (rank (val slots') m)" if "t < m" for m
      by (rule rank_remove [OF t(1) that slots'(1)])
    have low: "rank (val slots) t = 0"
      by (rule rank_zero [OF t(2)])
    have goal: "bit (val out') m \<or> bit (val slots') m \<and> bit (val src') (rank (val slots') m) \<longleftrightarrow>
      bit (val out) m \<or> bit (val slots) m \<and> bit (val src) (rank (val slots) m)" for m
      using rank [of m] low t by (cases m t rule: linorder_cases) (auto simp: out' src' slots')
    show ?thesis
    proof (cases "val src' = 0")
      case True
      then show ?thesis
        using goal out'(2) by (simp add: step)
    next
      case False
      have "t < N"
        by (rule wf_bits_bitD [OF Suc.prems(3) t(1)])
      then have "rank (val slots') N \<le> fuel"
        using rank [of N] Suc.prems(5) by simp
      then show ?thesis
        using Suc.IH [OF out'(2) src'(2) slots'(2) Suc.prems(4)] False goal by (simp add: step)
    qed
  qed
qed

section \<open>What the multiplicative operations compute\<close>

text \<open>No column of the schoolbook loops carries twice.\<close>

definition carries_once :: "'a::len word big_ops \<Rightarrow> nat \<Rightarrow> 'a word list \<Rightarrow> 'a word list \<Rightarrow> bool" where
  "carries_once ops n xs ys \<longleftrightarrow> (\<forall>i < n. row_once ops n (xs ! i) ys
     (foldl (mul_row ops n xs ys) (replicate (n * 2) 0) [0..<i]) i)"

lemma mul_correct:
  fixes xs ys :: "'a::len word list"
  assumes "big_word ops" "wf_bits N xs" "wf_bits N ys" "length out = array_size TYPE('a) N"
    "array_size TYPE('a) N = 1 \<and> \<not> composite ops \<or> val xs < 2 ^ LENGTH('a) \<or> val ys < 2 ^ LENGTH('a) \<or>
      carries_once ops (array_size TYPE('a) N) xs ys"
  shows "val (snd (bits_mul_out ops N xs ys out)) = (val xs * val ys) mod 2 ^ N \<and>
    (fst (bits_mul_out ops N xs ys out) \<longleftrightarrow> 2 ^ N \<le> val xs * val ys) \<and>
    wf_bits N (snd (bits_mul_out ops N xs ys out))"
proof -
  note len = wf_bits_length [OF assms(2)] wf_bits_length [OF assms(3)]
  have "val (snd (bits_mul_out ops N xs ys out)) = (val xs * val ys) mod 2 ^ N \<and>
    (fst (bits_mul_out ops N xs ys out) \<longleftrightarrow> 2 ^ N \<le> val xs * val ys) \<and>
    length (snd (bits_mul_out ops N xs ys out)) = array_size TYPE('a) N"
  proof (cases "array_size TYPE('a) N = 1 \<and> \<not> composite ops")
    case True
    then show ?thesis
      using native_product [of xs ys out N ops] len assms(4) by simp
  next
    case False
    have "length (school_mul ops (array_size TYPE('a) N) xs ys) = array_size TYPE('a) N * 2 \<and>
      val (school_mul ops (array_size TYPE('a) N) xs ys) = val xs * val ys"
      using big_word.school_mul_val [OF assms(1) len] big_word.school_mul_single [OF assms(1) len]
        assms(5) False unfolding carries_once_def by blast
    then show ?thesis
      using school_product [OF _ _ refl assms(4) False, of xs ys] by blast
  qed
  then show ?thesis
    by (simp add: wf_bits_def)
qed

text \<open>C28.  With either double word, a product of a single word, of two operands one of which
  fits a word, or of operands no column of which carries twice, is multiplication modulo
  \<open>2 ^ N\<close>, and the flag is raised exactly when the product does not fit.\<close>

theorem mul_wraps:
  fixes xs ys :: "'a::len word list"
  assumes "big_word ops" "wf_bits N xs" "wf_bits N ys" "length out = array_size TYPE('a) N"
    "array_size TYPE('a) N = 1 \<and> \<not> composite ops \<or> val xs < 2 ^ LENGTH('a) \<or> val ys < 2 ^ LENGTH('a) \<or>
      carries_once ops (array_size TYPE('a) N) xs ys"
  shows "val (snd (bits_mul_out ops N xs ys out)) = (val xs * val ys) mod 2 ^ N \<and>
    (fst (bits_mul_out ops N xs ys out) \<longleftrightarrow> 2 ^ N \<le> val xs * val ys) \<and>
    wf_bits N (snd (bits_mul_out ops N xs ys out))"
  by (rule mul_correct [OF assms])

lemma mul_wraps_witness:
  "wf_bits 128 [0xFFFFFFFFFFFFFFFF, 3 :: 64 word] \<and> wf_bits 128 [0xFFFFFFFFFFFFFFFF, 0 :: 64 word] \<and>
   fst (bits_mul_out composite_big 128 [0xFFFFFFFFFFFFFFFF, 3 :: 64 word] [0xFFFFFFFFFFFFFFFF, 0] [7, 7])"
  using mul_wraps [OF composite.big_word_axioms, of 128 "[0xFFFFFFFFFFFFFFFF, 3]" "[0xFFFFFFFFFFFFFFFF, 0]" "[7, 7]"]
  by (simp add: wf_bits_def array_size_def)

text \<open>A product with a column that carries twice loses a carry: the high word of
  the double-width result is one too small, and a product of two sets of 256 bits that fits is wrong,
  with the overflow flag clear.\<close>

theorem mul_loses_carry:
  "school_mul native_big 2 [0xFFFFFFFFFFFFFFFA, 0xFFFFFFFFFFFFFFFB :: 64 word]
     [0xFFFFFFFFFFFFFFFF, 0xFFFFFFFFFFFFFFFB] = [6, 28, 9, 0xFFFFFFFFFFFFFFF7] \<and>
   val [6, 28, 9, 0xFFFFFFFFFFFFFFF7 :: 64 word] + 2 ^ 192 =
     val [0xFFFFFFFFFFFFFFFA, 0xFFFFFFFFFFFFFFFB :: 64 word] *
     val [0xFFFFFFFFFFFFFFFF, 0xFFFFFFFFFFFFFFFB :: 64 word] \<and>
   bits_mul native_big 256 [0xFFFFFFFFFFFFFFFA, 0xFFFFFFFFFFFFFFFB, 0, 0 :: 64 word]
     [0xFFFFFFFFFFFFFFFF, 0xFFFFFFFFFFFFFFFB, 0, 0] = (False, [6, 28, 9, 0xFFFFFFFFFFFFFFF7])"
proof (intro conjI)
  show "school_mul native_big 2 [0xFFFFFFFFFFFFFFFA, 0xFFFFFFFFFFFFFFFB :: 64 word]
     [0xFFFFFFFFFFFFFFFF, 0xFFFFFFFFFFFFFFFB] = [6, 28, 9, 0xFFFFFFFFFFFFFFF7]"
    by code_simp
  show "val [6, 28, 9, 0xFFFFFFFFFFFFFFF7 :: 64 word] + 2 ^ 192 =
     val [0xFFFFFFFFFFFFFFFA, 0xFFFFFFFFFFFFFFFB :: 64 word] *
     val [0xFFFFFFFFFFFFFFFF, 0xFFFFFFFFFFFFFFFB :: 64 word]"
    by simp
  show "bits_mul native_big 256 [0xFFFFFFFFFFFFFFFA, 0xFFFFFFFFFFFFFFFB, 0, 0 :: 64 word]
     [0xFFFFFFFFFFFFFFFF, 0xFFFFFFFFFFFFFFFB, 0, 0] = (False, [6, 28, 9, 0xFFFFFFFFFFFFFFF7])"
    by code_simp
qed

text \<open>\<open>scatter\<close> ends within \<open>N\<close> turns.  An active position of the mask receives the bit
  of the source whose index is the number of active positions below it; every other bit is
  clear.\<close>

theorem scatter_deposits:
  fixes xs ms :: "'a::len word list"
  assumes "wf_bits N xs" "wf_bits N ms" "0 < N"
  shows "\<exists>r. bits_scatter N xs ms = Some r \<and> wf_bits N r \<and>
    (\<forall>m. bit (val r) m \<longleftrightarrow> bit (val ms) m \<and> bit (val xs) (card {j. j < m \<and> bit (val ms) j}))"
proof -
  have "{j. j < N \<and> bit (val ms) j} \<subseteq> {..<N}"
    by auto
  from card_mono [OF _ this] have "rank (val ms) N \<le> N"
    by (simp add: rank_def)
  from scatter_loop_correct [OF bits_min_val(2) assms this] show ?thesis
    by (simp add: bits_scatter_def rank_def)
qed

lemma scatter_deposits_witness:
  "wf_bits 12 [0x05, 0x00 :: 8 word] \<and> wf_bits 12 [0xA0, 0x03 :: 8 word] \<and>
   (\<exists>r. bits_scatter 12 [0x05, 0x00 :: 8 word] [0xA0, 0x03] = Some r \<and> wf_bits 12 r)"
  using scatter_deposits [of 12 "[0x05, 0x00 :: 8 word]" "[0xA0, 0x03]"]
  by (auto simp: wf_bits_def array_size_def)

end
