(* ===== verification/BitDiv.thy ===== *)
theory BitDiv
  imports BitMul
begin

unbundle bit_operations_syntax

text \<open>
  Division of \<open>Bits<N>\<close>: the cases that need no division kernel (a zero divisor, a smaller
  dividend, a power of two, a single word), the short division by one word, and the kernel
  for longer divisors, in the order of \<open>divmod\<close>.  Undefined behaviour and the loop that may
  not end are \<open>None\<close>.
\<close>

section \<open>The division kernel\<close>

text \<open>The short division: \<open>(rem, quotient)\<close> over the word indices, highest first.\<close>

fun short_div ::
  "'a::len word big_ops \<Rightarrow> 'a word \<Rightarrow> 'a word list \<Rightarrow> nat list \<Rightarrow> 'a word \<Rightarrow> 'a word list \<Rightarrow>
   ('a word \<times> 'a word list) option" where
  "short_div ops v xs [] rem q = Some (rem, q)"
| "short_div ops v xs (i # is) rem q = (case big_divmod ops (rem, xs ! i) v of
     None \<Rightarrow> None
   | Some (qhat, rhat) \<Rightarrow> short_div ops v xs is rhat (q[i := qhat]))"

text \<open>The left shift of the normalisation: \<open>(carry, u)\<close>.\<close>

definition shift_step :: "nat \<Rightarrow> 'a::len word \<times> 'a word list \<Rightarrow> nat \<Rightarrow> 'a word \<times> 'a word list" where
  "shift_step shift st i = (
     let carry = fst st; u = snd st
     in (drop_bit (LENGTH('a) - shift) (u ! i), u[i := push_bit shift (u ! i) OR carry]))"

definition normalise :: "nat \<Rightarrow> 'a::len word list \<Rightarrow> 'a word list" where
  "normalise shift u = (
     if shift \<noteq> 0 then snd (foldl (shift_step shift) (0, u) [0..<length u]) else u)"

text \<open>The refinement of the trial quotient, a \<open>while\<close> loop with a break.\<close>

partial_function (option) refine_qhat ::
  "'a::len word big_ops \<Rightarrow> 'a word \<Rightarrow> 'a word \<Rightarrow> 'a word \<Rightarrow> 'a word \<Rightarrow> 'a word \<Rightarrow> 'a word option" where
  "refine_qhat ops v1 v2 u2 qhat rhat = (
     let b = push_bit (LENGTH('a) div 2) 1
     in if b \<le> qhat \<or> big_gt ops (big_mul ops qhat v2) (rhat * b, u2)
        then if b \<le> rhat + v1 then Some (qhat - 1)
          else refine_qhat ops v1 v2 u2 (qhat - 1) (rhat + v1)
        else Some qhat)"

declare refine_qhat.simps [code]

text \<open>Multiply and subtract, and the correction: \<open>(borrow, u)\<close>.\<close>

definition mul_sub_step ::
  "'a::len word big_ops \<Rightarrow> 'a word \<Rightarrow> 'a word list \<Rightarrow> nat \<Rightarrow> 'a word \<times> 'a word list \<Rightarrow> nat \<Rightarrow>
   'a word \<times> 'a word list" where
  "mul_sub_step ops qhat v j st i = (
     let borrow = fst st; u = snd st;
         prod = big_mul ops qhat (v ! i);
         temp = u ! (i + j) - borrow;
         borrow = of_bool (u ! (i + j) < temp);
         temp = temp - snd prod;
         borrow = borrow + of_bool (snd prod < temp)
     in (borrow + fst prod, u[i + j := temp]))"

definition add_back_step ::
  "'a::len word list \<Rightarrow> nat \<Rightarrow> 'a word \<times> 'a word list \<Rightarrow> nat \<Rightarrow> 'a word \<times> 'a word list" where
  "add_back_step v j st i = (
     let borrow = fst st; u = snd st;
         temp = u ! (i + j) + borrow;
         borrow = of_bool (temp < u ! (i + j));
         temp = temp + v ! i;
         borrow = borrow + of_bool (temp < v ! i)
     in (borrow, u[i + j := temp]))"

text \<open>One turn of the trial division, for the quotient word \<open>j\<close>: \<open>(quotient, u)\<close>.\<close>

definition knuth_step ::
  "'a::len word big_ops \<Rightarrow> nat \<Rightarrow> 'a word list \<Rightarrow> 'a word list \<Rightarrow> 'a word list \<Rightarrow> nat \<Rightarrow>
   ('a word list \<times> 'a word list) option" where
  "knuth_step ops n v q u j = (
     case big_divmod ops (u ! (j + n), u ! (j + n - 1)) (v ! (n - 1)) of
       None \<Rightarrow> None
     | Some (qhat, rhat) \<Rightarrow> (case refine_qhat ops (v ! (n - 1)) (v ! (n - 2)) (u ! (j + n - 2)) qhat rhat of
         None \<Rightarrow> None
       | Some qhat \<Rightarrow>
         let st = foldl (mul_sub_step ops qhat v j) (0, u) [0..<n];
             borrow = fst st; u = snd st
         in if u ! (j + n) < borrow
            then let st = foldl (add_back_step v j) (0, u) [0..<n]
              in Some (q[j := qhat - 1], (snd st)[j + n := snd st ! (j + n) + fst st])
            else Some (q[j := qhat], u)))"

fun knuth_loop ::
  "'a::len word big_ops \<Rightarrow> nat \<Rightarrow> 'a word list \<Rightarrow> nat list \<Rightarrow> 'a word list \<Rightarrow> 'a word list \<Rightarrow>
   ('a word list \<times> 'a word list) option" where
  "knuth_loop ops n v [] q u = Some (q, u)"
| "knuth_loop ops n v (j # js) q u = (case knuth_step ops n v q u j of
     None \<Rightarrow> None
   | Some st \<Rightarrow> knuth_loop ops n v js (fst st) (snd st))"

text \<open>The remainder is shifted back.  A shift by the width of a word is undefined.\<close>

definition unshift_step :: "nat \<Rightarrow> 'a::len word list \<Rightarrow> 'a word list \<Rightarrow> nat \<Rightarrow> 'a word" where
  "unshift_step shift u r i = drop_bit shift (u ! i) OR push_bit (LENGTH('a) - shift) (u ! (i + 1))"

definition unshift :: "nat \<Rightarrow> nat \<Rightarrow> 'a::len word list \<Rightarrow> 'a word list \<Rightarrow> 'a word list option" where
  "unshift shift n u r = (
     if shift = 0 \<and> 0 < n - 1 then None
     else let r = foldl (update_by (unshift_step shift u)) r [0..<n - 1];
              r = r[n - 1 := drop_bit shift (u ! (n - 1))]
          in Some (foldl (update_by (\<lambda>r i. 0)) r [n..<length r]))"

definition bits_long_div ::
  "'a::len word big_ops \<Rightarrow> nat \<Rightarrow> 'a word list \<Rightarrow> 'a word list \<Rightarrow> 'a word list \<Rightarrow> 'a word list \<Rightarrow>
   ('a word list \<times> 'a word list) option" where
  "bits_long_div ops N xs ys q r = (
     case (last_one N xs, last_one N ys) of
       (Some lhs_last, Some rhs_last) \<Rightarrow>
         let n = (rhs_last + (LENGTH('a) - 1)) div LENGTH('a);
             m = (lhs_last + (LENGTH('a) - 1)) div LENGTH('a) - n
         in if n = 1
            then (case short_div ops (ys ! 0) xs (rev [0..<m + n]) 0 q of
                None \<Rightarrow> None
              | Some (rem, q) \<Rightarrow> Some (foldl (update_by (\<lambda>q i. 0)) q [m + n..<array_size TYPE('a) N],
                  foldl (update_by (\<lambda>r i. 0)) (r[0 := rem]) [1..<n]))
            else let shift = LENGTH('a) - 1 - rhs_last mod LENGTH('a);
                     u = normalise shift (xs @ [0]);
                     v = normalise shift ys
              in (case knuth_loop ops n v (rev [0..<m + 1]) (bits_fill N q False) u of
                  None \<Rightarrow> None
                | Some (q, u) \<Rightarrow> (case unshift shift n u r of None \<Rightarrow> None | Some r \<Rightarrow> Some (q, r)))
     | _ \<Rightarrow> None)"

section \<open>Division\<close>

text \<open>The whole of \<open>divmod\<close>, with the previous values of the out parameters.  The result is
  the pair of their new values.  Reading the position out of an empty optional is undefined.\<close>

definition bits_divmod_out ::
  "'a::len word big_ops \<Rightarrow> bool \<Rightarrow> nat \<Rightarrow> 'a word list \<Rightarrow> 'a word list \<Rightarrow> 'a word list \<Rightarrow> 'a word list \<Rightarrow>
   ('a word list \<times> 'a word list) res" where
  "bits_divmod_out ops debug N xs ys q r = (
     let power_of_two = first_one N ys
     in if debug \<and> power_of_two = None then Inl ZeroDivisionError
     else if bits_compare xs ys = Less then Inr (bits_fill N q False, xs)
     else case power_of_two of
       None \<Rightarrow> Inl Undefined
     | Some p \<Rightarrow>
       let power_mask = bits_shl_assign N (bits_one N) p
       in if bits_eq N ys power_mask
          then Inr (bits_shr_assign N xs p, bits_and N xs (bits_minus N power_mask (bits_one N)))
          else if array_size TYPE('a) N = 1
          then Inr (q[0 := xs ! 0 div ys ! 0], r[0 := xs ! 0 mod ys ! 0])
          else of_option (bits_long_div ops N xs ys q r))"

definition bits_divmod ::
  "'a::len word big_ops \<Rightarrow> bool \<Rightarrow> nat \<Rightarrow> 'a word list \<Rightarrow> 'a word list \<Rightarrow> ('a word list \<times> 'a word list) res" where
  "bits_divmod ops debug N xs ys = bits_divmod_out ops debug N xs ys (bits_min N) (bits_min N)"

definition bits_divmod_rem ::
  "'a::len word big_ops \<Rightarrow> bool \<Rightarrow> nat \<Rightarrow> 'a word list \<Rightarrow> 'a word list \<Rightarrow> 'a word list \<Rightarrow>
   ('a word list \<times> 'a word list) res" where
  "bits_divmod_rem ops debug N xs ys r = bits_divmod_out ops debug N xs ys (bits_min N) r"

text \<open>The operators; the assigning ones pass their own left operand as an out parameter.\<close>

definition bits_div :: "'a::len word big_ops \<Rightarrow> bool \<Rightarrow> nat \<Rightarrow> 'a word list \<Rightarrow> 'a word list \<Rightarrow> 'a word list res" where
  "bits_div ops debug N xs ys = bind_res (bits_divmod ops debug N xs ys) (\<lambda>p. Inr (fst p))"

definition bits_mod :: "'a::len word big_ops \<Rightarrow> bool \<Rightarrow> nat \<Rightarrow> 'a word list \<Rightarrow> 'a word list \<Rightarrow> 'a word list res" where
  "bits_mod ops debug N xs ys = bind_res (bits_divmod ops debug N xs ys) (\<lambda>p. Inr (snd p))"

definition bits_div_assign :: "'a::len word big_ops \<Rightarrow> bool \<Rightarrow> nat \<Rightarrow> 'a word list \<Rightarrow> 'a word list \<Rightarrow> 'a word list res" where
  "bits_div_assign ops debug N xs ys =
     bind_res (bits_divmod_out ops debug N xs ys xs (bits_min N)) (\<lambda>p. Inr (fst p))"

definition bits_mod_assign :: "'a::len word big_ops \<Rightarrow> bool \<Rightarrow> nat \<Rightarrow> 'a word list \<Rightarrow> 'a word list \<Rightarrow> 'a word list res" where
  "bits_mod_assign ops debug N xs ys =
     bind_res (bits_divmod_out ops debug N xs ys (bits_min N) xs) (\<lambda>p. Inr (snd p))"


text \<open>\<open>Bits(v)\<close> for a built-in value \<open>v\<close> no wider than a word: the words above are clear.\<close>

definition bits_from_word :: "nat \<Rightarrow> 'a::len word \<Rightarrow> 'a word list" where
  "bits_from_word N v = mask_end N ((bits_min N)[0 := v])"

section \<open>The cases without a kernel\<close>

lemma least_bit_power:
  assumes "(n :: nat) = 2 ^ k"
  shows "(LEAST m. bit n m) = k"
  using assms by (intro Least_equality) (simp_all add: bit_exp_iff)

lemma power_mask_val:
  assumes "p < N"
  shows "val (bits_shl_assign N (bits_one N :: 'a::len word list) p) = 2 ^ p"
    "wf_bits N (bits_shl_assign N (bits_one N :: 'a word list) p)"
    "val (bits_minus N (bits_shl_assign N (bits_one N :: 'a word list) p) (bits_one N)) = 2 ^ p - 1"
    "wf_bits N (bits_minus N (bits_shl_assign N (bits_one N :: 'a word list) p) (bits_one N))"
proof -
  have "0 < N" using assms by simp
  note one = bits_one_val [OF this, where 'a = 'a]
  have lt: "(2 :: nat) ^ p < 2 ^ N"
    using assms by simp
  show mask: "val (bits_shl_assign N (bits_one N :: 'a word list) p) = 2 ^ p"
    "wf_bits N (bits_shl_assign N (bits_one N :: 'a word list) p)"
    using bits_shl_assign_val [OF one(2), of p] one(1) lt by (simp_all add: take_bit_eq_mod)
  have "(2 ^ N + 2 ^ p - 1 :: nat) = (2 ^ p - 1) + 2 ^ N"
    by simp
  moreover have "(2 ^ p - 1 :: nat) < 2 ^ N"
    using lt by linarith
  ultimately have "(2 ^ N + 2 ^ p - 1) mod 2 ^ N = (2 ^ p - 1 :: nat)"
    by (simp only: mod_add_self2 mod_less)
  then show "val (bits_minus N (bits_shl_assign N (bits_one N :: 'a word list) p) (bits_one N)) = 2 ^ p - 1"
    "wf_bits N (bits_minus N (bits_shl_assign N (bits_one N :: 'a word list) p) (bits_one N))"
    using sub_correct [OF mask(2) one(2) wf_bits_length [OF bits_min_val(2)]] mask(1) one(1)
    by (simp_all add: bits_minus_def bits_sub_def)
qed

section \<open>The short division\<close>

context big_word_div
begin

lemma short_div_val:
  assumes "rem < v" "k \<le> length xs" "k \<le> length q"
  shows "\<exists>rem' q'. short_div ops v xs (rev [0..<k]) rem q = Some (rem', q') \<and> length q' = length q \<and>
    unat rem' = (2 ^ (LENGTH('a) * k) * unat rem + val (take k xs)) mod unat v \<and>
    val (take k q') = (2 ^ (LENGTH('a) * k) * unat rem + val (take k xs)) div unat v \<and>
    (\<forall>i. k \<le> i \<longrightarrow> q' ! i = q ! i)"
  using assms
proof (induction k arbitrary: rem q)
  case 0
  then show ?case
    by (simp add: word_less_nat_alt)
next
  case (Suc k)
  let ?B = "2 ^ LENGTH('a) :: nat" and ?P = "2 ^ (LENGTH('a) * k) :: nat"
  have v: "unat rem < unat v"
    using Suc.prems(1) by (simp add: word_less_nat_alt)
  obtain d r where step: "big_divmod ops (rem, xs ! k) v = Some (d, r)"
    "unat d = (?B * unat rem + unat (xs ! k)) div unat v"
    "unat r = (?B * unat rem + unat (xs ! k)) mod unat v"
    using divmod_val [of "(rem, xs ! k)" v] v by (auto simp: pair_val_def)
  have "r < v"
    using step(3) v by (simp add: word_less_nat_alt)
  then obtain rem' q' where IH: "short_div ops v xs (rev [0..<k]) r (q[k := d]) = Some (rem', q')"
    "length q' = length q" "unat rem' = (?P * unat r + val (take k xs)) mod unat v"
    "val (take k q') = (?P * unat r + val (take k xs)) div unat v"
    "\<And>i. k \<le> i \<Longrightarrow> q' ! i = q[k := d] ! i"
    using Suc.IH [of r "q[k := d]"] Suc.prems by auto
  let ?x = "?B * unat rem + unat (xs ! k)"
  have total: "2 ^ (LENGTH('a) * Suc k) * unat rem + val (take (Suc k) xs) =
      ?P * (unat v * unat d) + (?P * unat r + val (take k xs))"
  proof -
    have "2 ^ (LENGTH('a) * Suc k) * unat rem + val (take (Suc k) xs) = ?P * ?x + val (take k xs)"
      using Suc.prems(2) by (simp add: val_take_Suc power_add algebra_simps)
    also have "?x = unat v * unat d + unat r"
      unfolding step(2,3) by simp
    finally show ?thesis
      by (simp add: distrib_left)
  qed
  have "val (take (Suc k) q') = val (take k q') + ?P * unat d"
    using IH(2) IH(5) [of k] Suc.prems(3) by (simp add: val_take_Suc)
  moreover have "(2 ^ (LENGTH('a) * Suc k) * unat rem + val (take (Suc k) xs)) div unat v =
      ?P * unat d + (?P * unat r + val (take k xs)) div unat v"
    unfolding total using v by (simp add: mult.left_commute [of ?P])
  moreover have "(2 ^ (LENGTH('a) * Suc k) * unat rem + val (take (Suc k) xs)) mod unat v =
      (?P * unat r + val (take k xs)) mod unat v"
    unfolding total by (simp add: mult.left_commute [of ?P])
  ultimately show ?case
    using IH step(1) by simp
qed

end


lemma zero_tail:
  assumes "k \<le> length xs"
  shows "foldl (update_by (\<lambda>b i. 0)) xs [k..<length xs] = take k xs @ replicate (length xs - k) (0 :: 'a::len word)"
proof (rule nth_equalityI)
  fix i assume "i < length (foldl (update_by (\<lambda>b i. 0)) xs [k..<length xs])"
  then show "foldl (update_by (\<lambda>b i. 0)) xs [k..<length xs] ! i =
      (take k xs @ replicate (length xs - k) 0) ! i"
    using assms by (subst foldl_update_asc) (auto simp: nth_append)
qed (use assms in simp)

text \<open>The position of the top bit bounds a number from both sides.\<close>

lemma last_one_bounds:
  assumes "wf_bits N xs" "last_one N xs = Some t"
  shows "2 ^ t \<le> val xs" "val xs < 2 ^ Suc t" "bit (val xs) t" "t < N"
proof -
  have nz: "val xs \<noteq> 0" and t: "t = (GREATEST m. bit (val xs) m)"
    using assms by (auto simp: last_one_eq split: if_splits)
  obtain m where "bit (val xs) m"
    using lowest_bit [OF nz] by blast
  moreover have bound: "m \<le> N" if "bit (val xs) m" for m
    using wf_bits_bitD [OF assms(1) that] by simp
  ultimately show bit: "bit (val xs) t"
    unfolding t by (rule GreatestI_nat)
  show "t < N"
    by (rule wf_bits_bitD [OF assms(1) bit])
  show "val xs < 2 ^ Suc t"
  proof (rule less_exp_by_bits)
    fix i assume "Suc t \<le> i"
    then show "\<not> bit (val xs) i"
      using Greatest_le_nat [of "bit (val xs)" i N] bound by (force simp: t)
  qed
  show "2 ^ t \<le> val xs"
    using bit bit_nat_less [of "val xs" t t] by (meson le_refl not_le)
qed

lemma ceil_words:
  assumes "t mod LENGTH('a) \<noteq> 0"
  shows "(t + (LENGTH('a::len) - 1)) div LENGTH('a) = t div LENGTH('a) + 1"
proof -
  have "t + (LENGTH('a) - 1) = (t mod LENGTH('a) - 1) + LENGTH('a) * (t div LENGTH('a) + 1)"
    using assms mult_div_mod_eq [of "LENGTH('a)" t] len_gt_0 [where 'a = 'a]
    unfolding distrib_left mult_1_right by linarith
  moreover have "t mod LENGTH('a) - 1 < LENGTH('a)"
    using mod_less_divisor [of "LENGTH('a)" t] by (simp add: less_imp_diff_less)
  ultimately show ?thesis
    by (simp only: div_mult_self2) simp
qed

context big_word_div
begin

lemma short_div_returns:
  fixes xs ys q r :: "'a word list"
  assumes "wf_bits N xs" "wf_bits N ys" "last_one N xs = Some t" "last_one N ys = Some s" "s < LENGTH('a)"
    "s \<noteq> 0" "length q = array_size TYPE('a) N" "val ys \<le> val xs"
  shows "\<exists>p. bits_long_div ops N xs ys q r = Some p"
proof -
  note top = last_one_bounds [OF assms(1,3)] and divisor = last_one_bounds [OF assms(2,4)]
  let ?k = "(t + (LENGTH('a) - 1)) div LENGTH('a)"
  have n: "(s + (LENGTH('a) - 1)) div LENGTH('a) = 1"
    using ceil_words [of s, where 'a = 'a] assms(5,6) by simp
  have "bit (ys ! 0) s"
    using divisor(3) assms(5) by (simp add: bit_val)
  then have v: "0 < ys ! 0"
    by (auto simp: word_neq_0_conv [symmetric])
  have "?k \<le> t div LENGTH('a) + 1"
  proof -
    have "?k \<le> (t + LENGTH('a)) div LENGTH('a)"
      by (intro div_le_mono) simp
    then show ?thesis by simp
  qed
  then have k: "?k \<le> array_size TYPE('a) N"
    using index_less [OF top(4), where 'a = 'a] by linarith
  have "2 ^ s < (2 :: nat) ^ Suc t"
    using divisor(1) assms(8) top(2) by linarith
  then have "s < Suc t"
    by (rule power_less_imp_less_exp [rotated]) simp
  then have "LENGTH('a) * 1 \<le> t + (LENGTH('a) - 1)"
    using assms(6) len_gt_0 [where 'a = 'a] by linarith
  then have "1 \<le> ?k"
    by (simp add: less_eq_div_iff_mult_less_eq)
  then have k1: "?k - 1 + 1 = ?k"
    by simp
  have "?k \<le> length xs" "?k \<le> length q"
    using k wf_bits_length [OF assms(1)] assms(7) by simp_all
  from short_div_val [OF v this] show ?thesis
    unfolding bits_long_div_def assms(3,4) Let_def prod.case option.case n k1 if_P [OF refl] by fastforce
qed

lemma long_div_short:
  fixes xs ys q r :: "'a word list"
  assumes "wf_bits N xs" "wf_bits N ys" "length q = array_size TYPE('a) N" "length r = array_size TYPE('a) N"
    "last_one N xs = Some t" "t mod LENGTH('a) \<noteq> 0" "val ys \<le> val xs" "1 < val ys" "val ys < 2 ^ LENGTH('a)"
  shows "\<exists>q' rem. bits_long_div ops N xs ys q r = Some (q', r[0 := rem]) \<and>
    val q' = val xs div val ys \<and> unat rem = val xs mod val ys \<and> length q' = array_size TYPE('a) N"
proof -
  note len = wf_bits_length [OF assms(1)] wf_bits_length [OF assms(2)]
  define k where "k = t div LENGTH('a) + 1"
  note top = last_one_bounds [OF assms(1,5)]
  have t_less: "Suc t \<le> LENGTH('a) * k"
    using mult_div_mod_eq [of "LENGTH('a)" t] mod_less_divisor [OF len_gt_0, where 'a1 = 'a, of t]
    unfolding k_def distrib_left mult_1_right by linarith
  have k: "k \<le> array_size TYPE('a) N"
    using index_less [OF top(4), where 'a = 'a] by (simp add: k_def)
  have "1 < array_size TYPE('a) N \<or> array_size TYPE('a) N = 1"
    using k by (auto simp: k_def)
  obtain s where s: "last_one N ys = Some s"
    using assms(8) by (simp add: last_one_eq [OF assms(2)])
  note divisor = last_one_bounds [OF assms(2) s]
  have "s < LENGTH('a)"
    using divisor(1) assms(9) by (meson le_less_trans nat_power_less_imp_less pos2)
  moreover have "0 < s"
    using divisor(2) assms(8) by (cases s) auto
  ultimately have n: "(s + (LENGTH('a) - 1)) div LENGTH('a) = 1"
    using ceil_words [of s, where 'a = 'a] by simp
  have ys: "val ys = unat (ys ! 0)"
  proof -
    have "val ys = val (take 1 ys) + 2 ^ LENGTH('a) * val (drop 1 ys)"
      using val_append [of "take 1 ys" "drop 1 ys"] k len by (simp add: k_def min_def)
    moreover have "val (drop 1 ys) = 0"
      using calculation assms(9) by (cases "val (drop 1 ys)") auto
    moreover have "take 1 ys = [ys ! 0]"
      using k len by (simp add: k_def take_Suc_conv_app_nth)
    ultimately show ?thesis by simp
  qed
  then have v: "0 < ys ! 0"
    using assms(8) by (simp add: word_less_nat_alt)
  have "k \<le> length xs" "k \<le> length q"
    using k len assms(3) by simp_all
  from short_div_val [OF v this] obtain rem q' where short:
    "short_div ops (ys ! 0) xs (rev [0..<k]) 0 q = Some (rem, q')" "length q' = length q"
    "unat rem = val (take k xs) mod unat (ys ! 0)" "val (take k q') = val (take k xs) div unat (ys ! 0)"
    by auto
  have xs: "val (take k xs) = val xs"
  proof -
    have "val xs = val (take k xs) + 2 ^ (LENGTH('a) * k) * val (drop k xs)"
      using val_append [of "take k xs" "drop k xs"] k len by (simp add: min_def)
    moreover have "val xs < 2 ^ (LENGTH('a) * k)"
      using top(2) power_increasing [OF t_less, of "2 :: nat"] by linarith
    ultimately show ?thesis
      by (cases "val (drop k xs)") auto
  qed
  have tail: "foldl (update_by (\<lambda>b i. 0)) q' [k..<array_size TYPE('a) N] =
      take k q' @ replicate (array_size TYPE('a) N - k) 0"
    using zero_tail [of k q'] k short(2) assms(3) by simp
  have eq: "bits_long_div ops N xs ys q r =
      Some (take k q' @ replicate (array_size TYPE('a) N - k) 0, r[0 := rem])"
  proof -
    have k_eq: "(t + (LENGTH('a) - 1)) div LENGTH('a) = k" "k - 1 + 1 = k"
      using ceil_words [OF assms(6)] by (simp_all add: k_def)
    show ?thesis
      unfolding bits_long_div_def assms(5) s Let_def prod.case option.case k_eq n if_P [OF refl] short(1) tail
      by simp
  qed
  moreover have "val (take k q' @ replicate (array_size TYPE('a) N - k) 0) = val xs div val ys"
    using short(4) k short(2) assms(3) by (simp add: val_append xs ys min_def)
  moreover have "length (take k q' @ replicate (array_size TYPE('a) N - k) 0) = array_size TYPE('a) N"
    using short(2) k assms(3) by simp
  moreover have "unat rem = val xs mod val ys"
    using short(3) by (simp add: xs ys)
  ultimately show ?thesis by blast
qed

end


section \<open>The kernel returns\<close>

text \<open>A refinement turn that does not leave the loop wraps \<open>rhat\<close> around, which makes it smaller.\<close>

lemma refine_qhat_returns:
  fixes v1 :: "'a::len word"
  assumes "push_bit (LENGTH('a) div 2) 1 \<le> v1"
  shows "\<exists>d. refine_qhat ops v1 v2 u2 qhat rhat = Some d"
proof (induction "unat rhat" arbitrary: qhat rhat rule: less_induct)
  case less
  show ?case
  proof (cases "push_bit (LENGTH('a) div 2) 1 \<le> rhat + v1")
    case True
    then show ?thesis
      by (subst refine_qhat.simps) (simp add: Let_def)
  next
    case False
    then have "rhat + v1 < v1"
      using assms by simp
    then have "2 ^ LENGTH('a) \<le> unat rhat + unat v1"
      using unat_no_wrap(1) [of rhat v1] by (force simp: word_less_nat_alt)
    moreover have "unat v1 < 2 ^ LENGTH('a)"
      by (rule unat_less)
    moreover have "unat (rhat + v1) + 2 ^ LENGTH('a) = unat rhat + unat v1"
      using word_add_carry' [of rhat v1] \<open>rhat + v1 < v1\<close> by simp
    ultimately have "unat (rhat + v1) < unat rhat"
      by linarith
    from less [OF this] False show ?thesis
      by (subst refine_qhat.simps) (simp add: Let_def)
  qed
qed

lemma normalise_nth:
  assumes "i < length u"
  shows "\<exists>c. normalise shift u ! i = push_bit shift (u ! i) OR (c :: 'a::len word)"
proof (cases "shift = 0")
  case False
  have "k \<le> length u \<Longrightarrow> length (snd (foldl (shift_step shift) (0, u) [0..<k])) = length u \<and>
    (\<forall>i. k \<le> i \<longrightarrow> snd (foldl (shift_step shift) (0, u) [0..<k]) ! i = u ! i) \<and>
    (\<forall>i < k. \<exists>c. snd (foldl (shift_step shift) (0, u) [0..<k]) ! i = push_bit shift (u ! i) OR c)" for k
  proof (induction k)
    case (Suc k)
    then show ?case
      by (auto simp: shift_step_def Let_def nth_list_update less_Suc_eq)
  qed simp
  then show ?thesis
    using assms False by (auto simp: normalise_def)
qed (use assms in \<open>auto simp: normalise_def intro: exI [of _ 0]\<close>)

lemma unat_push_one: "k < LENGTH('a) \<Longrightarrow> unat (push_bit k 1 :: 'a::len word) = 2 ^ k"
proof -
  assume "k < LENGTH('a)"
  then have "unat (word_of_nat (2 ^ k) :: 'a word) = 2 ^ k"
    unfolding unat_of_nat by (intro mod_less power_strict_increasing) simp_all
  then show ?thesis by simp
qed

lemma push_one_le:
  assumes "bit (x :: 'a::len word) (LENGTH('a) - 1)"
  shows "push_bit k 1 \<le> x"
proof -
  have "2 ^ (LENGTH('a) - 1) \<le> unat x"
    using assms bit_nat_less [of "unat x" "LENGTH('a) - 1"] by (auto simp: bit_unsigned_iff not_less [symmetric])
  moreover have "unat (push_bit k 1 :: 'a word) \<le> 2 ^ (LENGTH('a) - 1)"
  proof (cases "k < LENGTH('a)")
    case True
    then show ?thesis
      by (simp add: unat_push_one [OF True, unfolded push_bit_of_1])
  next
    case False
    then have zero: "push_bit k 1 = (0 :: 'a word)"
      by (intro bit_word_eqI) (auto simp: bit_simps)
    show ?thesis
      unfolding zero by simp
  qed
  ultimately show ?thesis
    by (simp add: word_le_nat_alt)
qed


text \<open>Division by a non-zero word has a result, whose remainder is arbitrary on overflow.\<close>

locale big_word_total = big_word_div +
  assumes divmod_total: "v \<noteq> 0 \<Longrightarrow> big_divmod ops p v \<noteq> None"
begin

lemma knuth_step_returns:
  assumes "bit (v ! (n - 1)) (LENGTH('a) - 1)"
  shows "\<exists>q' u'. knuth_step ops n v q u j = Some (q', u') \<and> length q' = length q \<and> length u' = length u"
proof -
  have nz: "v ! (n - 1) \<noteq> 0"
    using assms by auto
  obtain d r where d: "big_divmod ops (u ! (j + n), u ! (j + n - 1)) (v ! (n - 1)) = Some (d, r)"
    using divmod_total [OF nz] by fastforce
  obtain e where e: "refine_qhat ops (v ! (n - 1)) (v ! (n - 2)) (u ! (j + n - 2)) d r = Some e"
    using refine_qhat_returns [OF push_one_le [OF assms]] by blast
  have len: "length (snd (foldl (mul_sub_step ops e v j) (c, w) is)) = length w"
    "length (snd (foldl (add_back_step v j) (c, w) is)) = length w" for c w "is"
    by (induction "is" arbitrary: c w) (simp_all add: mul_sub_step_def add_back_step_def Let_def)
  show ?thesis
    unfolding knuth_step_def d option.case prod.case e Let_def by (simp add: len)
qed

lemma knuth_loop_returns:
  assumes "bit (v ! (n - 1)) (LENGTH('a) - 1)"
  shows "\<exists>q' u'. knuth_loop ops n v js q u = Some (q', u') \<and> length q' = length q \<and> length u' = length u"
proof (induction js arbitrary: q u)
  case (Cons j js)
  obtain q1 u1 where 1: "knuth_step ops n v q u j = Some (q1, u1)" "length q1 = length q" "length u1 = length u"
    using knuth_step_returns [OF assms] by blast
  show ?case
    using Cons [of q1 u1] 1 by simp
qed simp

lemma long_div_returns:
  fixes xs ys q r :: "'a word list"
  assumes "wf_bits N xs" "wf_bits N ys" "length q = array_size TYPE('a) N" "length r = array_size TYPE('a) N"
    "last_one N xs = Some t" "last_one N ys = Some s" "s mod LENGTH('a) \<noteq> 0" "s mod LENGTH('a) \<noteq> LENGTH('a) - 1"
    "LENGTH('a) \<le> s"
  shows "\<exists>q' r'. bits_long_div ops N xs ys q r = Some (q', r')"
proof -
  define k where "k = s div LENGTH('a)"
  define shift where "shift = LENGTH('a) - 1 - s mod LENGTH('a)"
  note len = wf_bits_length [OF assms(1)] wf_bits_length [OF assms(2)]
  note top = last_one_bounds [OF assms(2,6)]
  have k: "0 < k" "k < length ys"
    using assms(9) index_less [OF top(4), where 'a = 'a] len by (simp_all add: k_def div_greater_zero_iff)
  have words: "(s + (LENGTH('a) - 1)) div LENGTH('a) = k + 1"
    using ceil_words [OF assms(7)] by (simp add: k_def)
  have lt: "s mod LENGTH('a) < LENGTH('a)"
    by simp
  have shift: "shift \<noteq> 0" "shift + s mod LENGTH('a) = LENGTH('a) - 1"
    using lt assms(8) unfolding shift_def by linarith+
  have "shift + s mod LENGTH('a) < LENGTH('a)"
    using shift(2) len_gt_0 [where 'a = 'a] by linarith
  moreover have "bit (ys ! k) (s mod LENGTH('a))"
    using top(3) by (simp add: bit_val k_def)
  ultimately have "bit (push_bit shift (ys ! k)) (LENGTH('a) - 1)"
    using shift(2) [symmetric] by (simp add: bit_push_bit_iff)
  then have norm: "bit (normalise shift ys ! (k + 1 - 1)) (LENGTH('a) - 1)"
    using normalise_nth [OF k(2), of shift] by (auto simp: bit_or_iff)
  have fill: "length (bits_fill N q False) = array_size TYPE('a) N"
    by (simp add: bits_fill_eq [OF assms(3)] wf_bits_length [OF bits_min_val(2)])
  let ?m = "(t + (LENGTH('a) - 1)) div LENGTH('a) - (k + 1)"
  obtain q' u' where loop: "knuth_loop ops (k + 1) (normalise shift ys) (rev [0..<?m + 1])
      (bits_fill N q False) (normalise shift (xs @ [0])) = Some (q', u')"
    using knuth_loop_returns [OF norm] by blast
  have "k + 1 \<noteq> 1"
    using k(1) by simp
  then show ?thesis
    unfolding bits_long_div_def assms(5,6) Let_def prod.case option.case words shift_def [symmetric]
      if_not_P [OF \<open>k + 1 \<noteq> 1\<close>] loop
    using shift(1) by (simp add: unshift_def Let_def)
qed

end


lemma divmod_zero:
  assumes "wf_bits N xs" "wf_bits N ys" "val ys = 0"
  shows "bits_divmod_out ops debug N xs ys q r = Inl (if debug then ZeroDivisionError else Undefined)"
proof -
  have "bits_compare xs ys \<noteq> Less"
    using compare_correct [of xs ys] wf_bits_length [OF assms(1)] wf_bits_length [OF assms(2)] assms(3) by simp
  then show ?thesis
    using assms by (simp add: bits_divmod_out_def first_one_eq)
qed

lemma divmod_cases:
  fixes xs ys :: "'a::len word list"
  assumes "wf_bits N xs" "wf_bits N ys" "val ys \<noteq> 0" "length q = array_size TYPE('a) N"
  shows "bits_divmod_out ops debug N xs ys q r = (
    if val xs < val ys then Inr (bits_min N, xs)
    else let p = LEAST m. bit (val ys) m
      in if val ys = 2 ^ p
         then Inr (bits_shr_assign N xs p,
           bits_and N xs (bits_minus N (bits_shl_assign N (bits_one N) p) (bits_one N)))
         else if array_size TYPE('a) N = 1
         then Inr (q[0 := xs ! 0 div ys ! 0], r[0 := xs ! 0 mod ys ! 0])
         else of_option (bits_long_div ops N xs ys q r))"
proof -
  define p where "p = (LEAST m. bit (val ys) m)"
  obtain m where "bit (val ys) m"
    using lowest_bit [OF assms(3)] by blast
  then have "bit (val ys) p"
    unfolding p_def by (rule LeastI)
  then have p: "p < N"
    by (rule wf_bits_bitD [OF assms(2)])
  have first: "first_one N ys = Some p"
    using assms(3) by (simp add: first_one_eq [OF assms(2)] p_def)
  have less: "bits_compare xs ys = Less \<longleftrightarrow> val xs < val ys"
    using compare_correct [of xs ys] wf_bits_length [OF assms(1)] wf_bits_length [OF assms(2)] by simp
  have pow: "bits_eq N ys (bits_shl_assign N (bits_one N) p) \<longleftrightarrow> val ys = 2 ^ p"
    using bits_eq_val [OF assms(2) power_mask_val(2) [OF p]] power_mask_val(1) [OF p, where 'a = 'a] by simp
  show ?thesis
    unfolding bits_divmod_out_def Let_def first less option.case pow p_def [symmetric]
    by (simp add: bits_fill_eq [OF assms(4)])
qed

lemma divmod_simple:
  fixes xs ys :: "'a::len word list"
  assumes "wf_bits N xs" "wf_bits N ys" "val ys \<noteq> 0" "length q = array_size TYPE('a) N" "length r = array_size TYPE('a) N"
    "val xs < val ys \<or> (\<exists>k. val ys = 2 ^ k) \<or> array_size TYPE('a) N = 1"
  shows "\<exists>q' r'. bits_divmod_out ops debug N xs ys q r = Inr (q', r') \<and>
    val q' = val xs div val ys \<and> val r' = val xs mod val ys \<and> length q' = array_size TYPE('a) N \<and>
    length r' = array_size TYPE('a) N"
proof -
  note len = wf_bits_length [OF assms(1)] wf_bits_length [OF assms(2)]
  define p where "p = (LEAST m. bit (val ys) m)"
  note cases = divmod_cases [OF assms(1-4), of ops debug r, folded p_def, unfolded Let_def]
  show ?thesis
  proof (cases "val xs < val ys")
    case True
    then show ?thesis
      using len wf_bits_length [OF bits_min_val(2), where 'a = 'a] by (simp add: cases)
  next
    case False
    show ?thesis
    proof (cases "val ys = 2 ^ p")
      case True
      have "val ys < 2 ^ N"
        using assms(2) by (simp add: wf_bits_def)
      then have p: "p < N"
        using True by (metis nat_power_less_imp_less pos2)
      note mask = power_mask_val(3,4) [OF p, where 'a = 'a]
      have q: "val (bits_shr_assign N xs p) = val xs div val ys" "wf_bits N (bits_shr_assign N xs p)"
        using bits_shr_assign_val [OF assms(1), of p] True by (simp_all add: drop_bit_eq_div)
      have r: "val (bits_and N xs (bits_minus N (bits_shl_assign N (bits_one N) p) (bits_one N))) = val xs mod val ys"
        "wf_bits N (bits_and N xs (bits_minus N (bits_shl_assign N (bits_one N) p) (bits_one N)))"
        using bits_logic_val(1) [OF assms(1) mask(2)] bits_logic_wf(1) [OF assms(1) mask(2)] mask(1) True
        by (simp_all add: take_bit_eq_mod [symmetric] take_bit_eq_mask mask_eq_exp_minus_1)
      show ?thesis
        using False True q r by (simp add: cases wf_bits_length)
    next
      case pow: False
      then have "array_size TYPE('a) N = 1"
        using False assms(6) least_bit_power by (auto simp: p_def)
      then show ?thesis
        using False pow len assms(4,5) by (simp add: cases single_word unat_div unat_mod)
    qed
  qed
qed


interpretation native_total: big_word_total native_big
  by unfold_locales (simp add: native_big_def nb_divmod_def)

interpretation composite_total: big_word_total "composite_big :: 64 word big_ops"
  by unfold_locales (simp add: composite_big_def)

section \<open>Division keeps the padding clear\<close>

text \<open>Only the last word has padding, so a bitset is well formed when that word has no bit above the size.\<close>

lemma wf_bits_topI:
  fixes xs :: "'a::len word list"
  assumes "length xs = array_size TYPE('a) N"
    "\<And>j. N \<le> LENGTH('a) * (array_size TYPE('a) N - 1) + j \<Longrightarrow> \<not> bit (xs ! (array_size TYPE('a) N - 1)) j"
  shows "wf_bits N xs"
proof (rule wf_bitsI)
  fix i assume i: "N \<le> i"
  show "\<not> bit (val xs) i"
  proof
    assume "bit (val xs) i"
    then have bit: "i div LENGTH('a) < array_size TYPE('a) N" "bit (xs ! (i div LENGTH('a))) (i mod LENGTH('a))"
      using assms(1) by (simp_all add: bit_val)
    have "LENGTH('a) * (array_size TYPE('a) N - 1) \<le> i"
      using array_size_bounds(6) [of N, where 'a = 'a] i by (cases "N = 0") (simp_all add: array_size_def)
    then have "array_size TYPE('a) N - 1 \<le> i div LENGTH('a)"
      by (simp add: less_eq_div_iff_mult_less_eq mult.commute)
    then have "i div LENGTH('a) = array_size TYPE('a) N - 1"
      using bit(1) by linarith
    then show False
      using assms(2) [of "i mod LENGTH('a)"] bit(2) i mult_div_mod_eq [of "LENGTH('a)" i] by simp
  qed
qed (rule assms(1))

lemma knuth_step_keeps:
  assumes "knuth_step ops n v q u j = Some (q', u')"
  shows "length q' = length q \<and> length u' = length u \<and> (\<forall>i. i \<noteq> j \<longrightarrow> q' ! i = q ! i)"
proof -
  have len: "length (snd (foldl (mul_sub_step ops e v j) (c, w) is)) = length w"
    "length (snd (foldl (add_back_step v j) (c, w) is)) = length w" for e c w "is"
    by (induction "is" arbitrary: c w) (simp_all add: mul_sub_step_def add_back_step_def Let_def)
  show ?thesis
    using assms by (auto simp: knuth_step_def Let_def len split: option.splits if_splits)
qed

lemma knuth_loop_keeps:
  assumes "knuth_loop ops n v js q u = Some (q', u')"
  shows "length q' = length q \<and> length u' = length u \<and> (\<forall>i. i \<notin> set js \<longrightarrow> q' ! i = q ! i)"
  using assms
proof (induction js arbitrary: q u)
  case (Cons j js)
  then obtain q1 u1 where step: "knuth_step ops n v q u j = Some (q1, u1)" "knuth_loop ops n v js q1 u1 = Some (q', u')"
    by (auto split: option.splits)
  then show ?case
    using knuth_step_keeps [OF step(1)] Cons.IH [OF step(2)] by simp
qed simp

lemma unshift_keeps:
  assumes "unshift shift n u r = Some r'" "0 < n" "n \<le> length r"
  shows "length r' = length r \<and> r' ! (n - 1) = drop_bit shift (u ! (n - 1)) \<and>
    (\<forall>i. n \<le> i \<and> i < length r \<longrightarrow> r' ! i = 0)"
proof -
  define w where "w = (foldl (update_by (unshift_step shift u)) r [0..<n - 1])[n - 1 := drop_bit shift (u ! (n - 1))]"
  have len: "length w = length r"
    by (simp add: w_def)
  have "r' = foldl (update_by (\<lambda>r i. 0)) w [n..<length w]"
    using assms(1) by (auto simp: unshift_def w_def Let_def split: if_splits)
  then have "r' = take n w @ replicate (length w - n) 0"
    using zero_tail [of n w] assms(3) len by simp
  then show ?thesis
    using assms(2,3) len by (auto simp: nth_append w_def)
qed


lemma ceil_le: "t < N \<Longrightarrow> (t + (LENGTH('a) - 1)) div LENGTH('a::len) \<le> array_size TYPE('a) N"
  unfolding array_size_def by (intro div_le_mono) simp

lemma long_div_wf:
  fixes xs ys q r :: "'a::len word list"
  assumes "big_word_div ops" "wf_bits N xs" "wf_bits N ys" "length q = array_size TYPE('a) N" "wf_bits N r"
    "val ys \<le> val xs" "\<nexists>k. val ys = 2 ^ k" "array_size TYPE('a) N \<noteq> 1" "bits_long_div ops N xs ys q r = Some (q', r')"
  shows "wf_bits N q' \<and> wf_bits N r'"
proof -
  let ?W = "LENGTH('a)" and ?K = "array_size TYPE('a) N"
  note len = wf_bits_length [OF assms(2)] wf_bits_length [OF assms(3)] wf_bits_length [OF assms(5)]
  obtain t s where t: "last_one N xs = Some t" and s: "last_one N ys = Some s"
    using assms(9) by (auto simp: bits_long_div_def split: option.splits)
  note top = last_one_bounds [OF assms(2) t] and divisor = last_one_bounds [OF assms(3) s]
  define n where "n = (s + (?W - 1)) div ?W"
  define k where "k = (t + (?W - 1)) div ?W"
  have "s \<noteq> 0"
    using divisor(1,2) assms(7) [unfolded not_ex, rule_format, of 0] by (intro notI) simp
  have "2 ^ s < (2 :: nat) ^ Suc t"
    using divisor(1) assms(6) top(2) by linarith
  then have "s < Suc t"
    by (rule power_less_imp_less_exp [rotated]) simp
  then have "n \<le> k"
    unfolding n_def k_def by (intro div_le_mono) simp
  have "0 < n"
    using \<open>s \<noteq> 0\<close> len_gt_0 [where 'a = 'a] by (simp add: n_def div_greater_zero_iff)
  have k: "k \<le> ?K" and n: "n \<le> ?K"
    using ceil_le [OF top(4), where 'a = 'a] ceil_le [OF divisor(4), where 'a = 'a] by (simp_all add: k_def n_def)
  have K: "1 < ?K"
    using n \<open>0 < n\<close> assms(8) by linarith
  show ?thesis
  proof (cases "n = 1")
    case True
    have v: "0 < ys ! 0"
    proof (rule ccontr)
      assume "\<not> 0 < ys ! 0"
      then have zero: "ys ! 0 = 0"
        by (metis word_neq_0_conv)
      then have "\<not> s < ?W"
        using divisor(3) by (auto simp: bit_val)
      moreover have "s + (?W - 1) < ?W * 1 + ?W"
        using dividend_less_times_div [OF len_gt_0 [where 'a = 'a], of "s + (?W - 1)"] True by (simp add: n_def)
      ultimately have "s = ?W"
        by linarith
      then have bounds: "2 ^ ?W \<le> val ys" "val ys < 2 ^ ?W * 2"
        using divisor(1,2) by simp_all
      have split: "val ys = 2 ^ ?W * val (drop 1 ys)"
        using zero K len by (cases ys) simp_all
      then have "val (drop 1 ys) = 1"
        using bounds by (cases "val (drop 1 ys)") auto
      then show False
        using split assms(7) by auto
    qed
    obtain w q1 where short: "short_div ops (ys ! 0) xs (rev [0..<k]) 0 q = Some (w, q1)" "length q1 = length q"
      "val (take k q1) = val (take k xs) div unat (ys ! 0)"
      using big_word_div.short_div_val [OF assms(1) v, of k xs q] k len assms(4) by auto
    have tail: "foldl (update_by (\<lambda>b i. 0)) q1 [k..<?K] = take k q1 @ replicate (?K - k) 0"
      using zero_tail [of k q1] k short(2) assms(4) by simp
    have words: "(s + (?W - 1)) div ?W = 1" "(t + (?W - 1)) div ?W = k" "k - 1 + 1 = k"
      using True \<open>n \<le> k\<close> by (simp_all add: n_def k_def)
    have eq: "q' = take k q1 @ replicate (?K - k) 0" "r' = r[0 := w]"
      using assms(9) unfolding bits_long_div_def t s Let_def prod.case option.case words if_P [OF refl] short(1) tail
      by simp_all
    have "val q' \<le> val (take k xs)"
      using short(3) by (simp add: eq(1) val_append)
    also have "\<dots> \<le> val xs"
      using val_append [of "take k xs" "drop k xs"] by simp
    finally have "val q' < 2 ^ N"
      using assms(2) by (simp add: wf_bits_def)
    then have "wf_bits N q'"
      using k short(2) assms(4) by (simp add: wf_bits_def eq(1))
    moreover have "wf_bits N r'"
    proof (rule wf_bits_topI)
      fix j assume j: "N \<le> ?W * (?K - 1) + j"
      show "\<not> bit (r' ! (?K - 1)) j"
      proof
        assume bit: "bit (r' ! (?K - 1)) j"
        then have "j < ?W"
          by (simp add: bit_imp_le_length)
        then have "bit (val r) (?W * (?K - 1) + j)"
          using bit K len by (simp add: eq(2) bit_val_index)
        then show False
          using wf_bits_bitD [OF assms(5)] j by fastforce
      qed
    qed (use len in \<open>simp add: eq(2)\<close>)
    ultimately show ?thesis ..
  next
    case False
    define shift where "shift = ?W - 1 - s mod ?W"
    obtain u where loop: "knuth_loop ops n (normalise shift ys) (rev [0..<k - n + 1]) (bits_fill N q False)
        (normalise shift (xs @ [0])) = Some (q', u)" and un: "unshift shift n u r = Some r'"
      using assms(9)
      unfolding bits_long_div_def t s Let_def prod.case option.case n_def [symmetric] k_def [symmetric]
        shift_def [symmetric] if_not_P [OF False]
      by (auto split: option.splits)
    note q = knuth_loop_keeps [OF loop] and r = unshift_keeps [OF un \<open>0 < n\<close>]
    have fill: "bits_fill N q False = bits_min N"
      by (simp add: bits_fill_eq [OF assms(4)])
    have "wf_bits N q'"
    proof (rule wf_bits_topI)
      fix j
      have "?K - 1 \<notin> set (rev [0..<k - n + 1])"
        using k n False \<open>0 < n\<close> K by auto
      then have "q' ! (?K - 1) = (bits_min N :: 'a word list) ! (?K - 1)"
        using q by (simp add: fill)
      also have "\<dots> = 0"
        using K by (simp add: bits_min_def)
      finally show "\<not> bit (q' ! (?K - 1)) j"
        by simp
    qed (use q in \<open>simp add: fill wf_bits_length [OF bits_min_val(2)]\<close>)
    moreover have "wf_bits N r'"
    proof (rule wf_bits_topI)
      fix j assume j: "N \<le> ?W * (?K - 1) + j"
      show "\<not> bit (r' ! (?K - 1)) j"
      proof (cases "n = ?K")
        case True
        have "s mod ?W \<noteq> 0"
        proof
          assume zero: "s mod ?W = 0"
          define c where "c = s div ?W"
          have s: "s = ?W * c"
            using mult_div_mod_eq [of ?W s] zero by (simp add: c_def)
          have "(?W - 1 + ?W * c) div ?W = c + (?W - 1) div ?W"
            by (rule div_mult_self2) simp
          then have "s = ?W * ?K"
            using True by (simp add: s n_def add.commute)
          then show False
            using array_size_bounds(4) [of N, where 'a = 'a] divisor(4) by simp
        qed
        then have "s div ?W = ?K - 1"
          using ceil_words [of s, where 'a = 'a] True by (simp add: n_def)
        then have s: "s = ?W * (?K - 1) + s mod ?W"
          using mult_div_mod_eq [of ?W s] by simp
        show ?thesis
        proof
          assume "bit (r' ! (?K - 1)) j"
          then have "shift + j < ?W"
            using r True len by (auto simp: bit_drop_bit_eq dest: bit_imp_le_length)
          then have "j \<le> s mod ?W"
            by (simp add: shift_def)
          then show False
            using s j divisor(4) by linarith
        qed
      next
        case False
        then show ?thesis
          using r n len K by simp
      qed
    qed (use r n len in simp)
    ultimately show ?thesis ..
  qed
qed


lemma quotient_wf:
  assumes "wf_bits N xs"
  shows "val q = val xs div v \<Longrightarrow> length q = array_size TYPE('a::len) N \<Longrightarrow> wf_bits N (q :: 'a word list)"
    "val r = val xs mod v \<Longrightarrow> length r = array_size TYPE('a) N \<Longrightarrow> wf_bits N (r :: 'a word list)"
proof -
  have "val xs < 2 ^ N"
    using assms by (simp add: wf_bits_def)
  then have "val xs div v < 2 ^ N" "val xs mod v < 2 ^ N"
    by (auto intro: le_less_trans [OF div_le_dividend] le_less_trans [OF mod_less_eq_dividend])
  then show "val q = val xs div v \<Longrightarrow> length q = array_size TYPE('a) N \<Longrightarrow> wf_bits N q"
    "val r = val xs mod v \<Longrightarrow> length r = array_size TYPE('a) N \<Longrightarrow> wf_bits N r"
    by (simp_all add: wf_bits_def)
qed

lemma divmod_wf:
  fixes xs ys q r :: "'a::len word list"
  assumes "big_word_div ops" "wf_bits N xs" "wf_bits N ys" "length q = array_size TYPE('a) N" "wf_bits N r"
    "bits_divmod_out ops debug N xs ys q r = Inr (q', r')"
  shows "wf_bits N q' \<and> wf_bits N r'"
proof -
  have nz: "val ys \<noteq> 0"
    using divmod_zero [OF assms(2,3)] assms(6) by force
  note cases = divmod_cases [OF assms(2,3) nz assms(4), of ops debug r]
  show ?thesis
  proof (cases "val xs < val ys \<or> (\<exists>k. val ys = 2 ^ k) \<or> array_size TYPE('a) N = 1")
    case True
    have "val q' = val xs div val ys \<and> val r' = val xs mod val ys \<and> length q' = array_size TYPE('a) N \<and>
        length r' = array_size TYPE('a) N"
      using divmod_simple [OF assms(2,3) nz assms(4) wf_bits_length [OF assms(5)] True, of ops debug] assms(6) by auto
    then show ?thesis
      using quotient_wf [OF assms(2)] by blast
  next
    case False
    then have "val ys \<noteq> 2 ^ (LEAST m. bit (val ys) m)"
      by blast
    then have "bits_long_div ops N xs ys q r = Some (q', r')"
      using assms(6) False by (cases "bits_long_div ops N xs ys q r") (auto simp: cases Let_def)
    then show ?thesis
      using False by (intro long_div_wf [OF assms(1-5)]) simp_all
  qed
qed

section \<open>What division computes\<close>

lemma divmod_correct:
  fixes xs ys q r :: "'a::len word list"
  assumes "big_word_div ops" "wf_bits N xs" "wf_bits N ys" "val ys \<noteq> 0"
    "length q = array_size TYPE('a) N" "length r = array_size TYPE('a) N"
    "val xs < val ys \<or> (\<exists>k. val ys = 2 ^ k) \<or> array_size TYPE('a) N = 1 \<or>
      val ys < 2 ^ LENGTH('a) \<and> last_one N xs = Some t \<and> t mod LENGTH('a) \<noteq> 0 \<and> tl r = replicate (length r - 1) 0"
  shows "\<exists>q' r'. bits_divmod_out ops debug N xs ys q r = Inr (q', r') \<and>
    val q' = val xs div val ys \<and> val r' = val xs mod val ys \<and> wf_bits N q' \<and> wf_bits N r'"
proof -
  have "\<exists>q' r'. bits_divmod_out ops debug N xs ys q r = Inr (q', r') \<and> val q' = val xs div val ys \<and>
    val r' = val xs mod val ys \<and> length q' = array_size TYPE('a) N \<and> length r' = array_size TYPE('a) N"
  proof (cases "val xs < val ys \<or> (\<exists>k. val ys = 2 ^ k) \<or> array_size TYPE('a) N = 1")
    case True
    then show ?thesis
      by (rule divmod_simple [OF assms(2-6)])
  next
    case False
    then have short: "val ys < 2 ^ LENGTH('a)" "last_one N xs = Some t" "t mod LENGTH('a) \<noteq> 0"
      "tl r = replicate (length r - 1) 0" "val ys \<le> val xs"
      using assms(7) by auto
    have "val ys \<noteq> 2 ^ 0"
      using False by blast
    then have "1 < val ys"
      using assms(4) by simp
    from big_word_div.long_div_short [OF assms(1-3,5,6) short(2,3,5) this short(1)]
    obtain q' rem where long: "bits_long_div ops N xs ys q r = Some (q', r[0 := rem])"
      "val q' = val xs div val ys" "unat rem = val xs mod val ys" "length q' = array_size TYPE('a) N"
      by blast
    have "0 < array_size TYPE('a) N"
      using last_one_bounds(4) [OF assms(2) short(2)] index_less [of t N, where 'a = 'a] by linarith
    then have "r[0 := rem] = rem # replicate (length r - 1) 0"
      using assms(6) short(4) by (cases r) auto
    then have "val (r[0 := rem]) = val xs mod val ys"
      using long(3) by simp
    moreover have "bits_divmod_out ops debug N xs ys q r = Inr (q', r[0 := rem])"
      using False long(1) by (simp add: divmod_cases [OF assms(2-5)] Let_def)
    ultimately show ?thesis
      using long assms(6) by auto
  qed
  then show ?thesis
    using quotient_wf [OF assms(2)] by blast
qed

text \<open>C29.  For a divisor that is not zero, division by a larger number, by a power of two, within a single word,
  and by a number that fits one word (of a dividend whose top bit is not at a multiple of the word size,
  with a remainder parameter that is clear above its first word) has the exact quotient and remainder.\<close>

theorem divmod_exact:
  fixes xs ys q r :: "'a::len word list"
  assumes "big_word_div ops" "wf_bits N xs" "wf_bits N ys" "val ys \<noteq> 0"
    "length q = array_size TYPE('a) N" "length r = array_size TYPE('a) N"
    "val xs < val ys \<or> (\<exists>k. val ys = 2 ^ k) \<or> array_size TYPE('a) N = 1 \<or>
      val ys < 2 ^ LENGTH('a) \<and> last_one N xs = Some t \<and> t mod LENGTH('a) \<noteq> 0 \<and> tl r = replicate (length r - 1) 0"
  shows "\<exists>q' r'. bits_divmod_out ops debug N xs ys q r = Inr (q', r') \<and>
    val q' = val xs div val ys \<and> val r' = val xs mod val ys \<and> wf_bits N q' \<and> wf_bits N r'"
  by (rule divmod_correct [OF assms])

lemma divmod_exact_witness:
  "\<exists>q r. bits_divmod_out native_big True 128 [7, 2 :: 64 word] [3, 0] [9, 9] [9, 0] = Inr (q, r) \<and>
     val q = val [7, 2 :: 64 word] div val [3, 0 :: 64 word] \<and>
     val r = val [7, 2 :: 64 word] mod val [3, 0 :: 64 word] \<and> wf_bits 128 q \<and> wf_bits 128 r"
proof (rule divmod_exact [OF native.big_word_div_axioms])
  show "wf_bits 128 [7, 2 :: 64 word]" "wf_bits 128 [3, 0 :: 64 word]" "val [3, 0 :: 64 word] \<noteq> 0"
    "length [9, 9 :: 64 word] = array_size TYPE(64) 128" "length [9, 0 :: 64 word] = array_size TYPE(64) 128"
    by (simp_all add: wf_bits_def array_size_def)
  have "last_one 128 [7, 2 :: 64 word] = Some 65"
    by code_simp
  then show "val [7, 2 :: 64 word] < val [3, 0 :: 64 word] \<or> (\<exists>k. val [3, 0 :: 64 word] = 2 ^ k) \<or>
      array_size TYPE(64) 128 = 1 \<or> val [3, 0 :: 64 word] < 2 ^ LENGTH(64) \<and>
      last_one 128 [7, 2 :: 64 word] = Some 65 \<and> 65 mod LENGTH(64) \<noteq> (0 :: nat) \<and>
      tl [9, 0 :: 64 word] = replicate (length [9, 0 :: 64 word] - 1) 0"
    by (intro disjI2 conjI) simp_all
qed

text \<open>A zero divisor raises in a debug build, and is undefined in a release build.\<close>

theorem divmod_by_zero:
  fixes xs ys q r :: "'a::len word list"
  assumes "wf_bits N xs" "wf_bits N ys" "val ys = 0"
  shows "bits_divmod_out ops debug N xs ys q r = Inl (if debug then ZeroDivisionError else Undefined) \<and>
    bits_div ops debug N xs ys = Inl (if debug then ZeroDivisionError else Undefined) \<and>
    bits_mod ops debug N xs ys = Inl (if debug then ZeroDivisionError else Undefined)"
  using divmod_zero [OF assms] by (simp add: bits_div_def bits_mod_def bits_divmod_def)

lemma divmod_by_zero_witness:
  "wf_bits 12 [0xFF, 0x01 :: 8 word] \<and> wf_bits 12 [0, 0 :: 8 word] \<and>
   bits_div native_big True 12 [0xFF, 0x01 :: 8 word] [0, 0] = Inl ZeroDivisionError"
  using divmod_by_zero [of 12 "[0xFF, 0x01 :: 8 word]" "[0, 0]" native_big True]
  by (simp add: wf_bits_def array_size_def)

text \<open>C30.  Division always returns for a non-zero divisor whose top bit is neither the first nor
  the last of its word: the refinement loop ends, and no step is undefined.\<close>

theorem divmod_returns:
  fixes xs ys q r :: "'a::len word list"
  assumes "big_word_total ops" "wf_bits N xs" "wf_bits N ys" "length q = array_size TYPE('a) N"
    "length r = array_size TYPE('a) N" "last_one N ys = Some s" "s mod LENGTH('a) \<noteq> 0" "s mod LENGTH('a) \<noteq> LENGTH('a) - 1"
  shows "\<exists>q' r'. bits_divmod_out ops debug N xs ys q r = Inr (q', r')"
proof (cases "val xs < val ys \<or> (\<exists>k. val ys = 2 ^ k) \<or> array_size TYPE('a) N = 1")
  case True
  then show ?thesis
    using divmod_simple [OF assms(2,3) _ assms(4,5), of ops debug] last_one_bounds(1) [OF assms(3,6)] by fastforce
next
  case False
  have "val ys \<noteq> 0"
    using last_one_bounds(1) [OF assms(3,6)] by (intro notI) simp
  note cases = divmod_cases [OF assms(2,3) this assms(4), of ops debug r]
  have "val xs \<noteq> 0"
    using False \<open>val ys \<noteq> 0\<close> by auto
  then obtain t where t: "last_one N xs = Some t"
    by (simp add: last_one_eq [OF assms(2)])
  have div: "big_word_div ops"
    using assms(1) by (rule big_word_total.axioms)
  have "\<exists>p. bits_long_div ops N xs ys q r = Some p"
  proof (cases "LENGTH('a) \<le> s")
    case True
    then show ?thesis
      using big_word_total.long_div_returns [OF assms(1-5) t assms(6-8)] by blast
  next
    case short: False
    then have "s < LENGTH('a)"
      by simp
    moreover have "s \<noteq> 0"
      using assms(7) by (intro notI) simp
    moreover have "val ys \<le> val xs"
      using False by simp
    ultimately show ?thesis
      by (intro big_word_div.short_div_returns [OF div assms(2,3) t assms(6)] assms(4))
  qed
  then show ?thesis
    using False by (auto simp: cases Let_def)
qed

lemma divmod_returns_witness:
  "\<exists>q r. bits_divmod_out native_big True 128 [5, 9 :: 64 word] [1, 3] [0, 0] [0, 0] = Inr (q, r)"
proof (rule divmod_returns [OF native_total.big_word_total_axioms])
  show "last_one 128 [1, 3 :: 64 word] = Some 65"
    by code_simp
qed (simp_all add: wf_bits_def array_size_def)

text \<open>C31.  A dividend whose top bit is the first of a word above the lowest loses that word in the division by one word
  that is no power of two: quotient and remainder are those of the number without its top bit.  The remainder parameter only gets its lowest
  word, so that \<open>%=\<close>, which passes the dividend for it, keeps the high words of the dividend.\<close>

theorem division_loses_word:
  fixes xs ys q r :: "'a::len word list"
  assumes "big_word_div ops" "wf_bits N xs" "wf_bits N ys" "length q = array_size TYPE('a) N" "length r = array_size TYPE('a) N"
    "last_one N xs = Some t" "t mod LENGTH('a) = 0" "0 < t" "val ys < 2 ^ LENGTH('a)" "\<nexists>k. val ys = 2 ^ k" "val ys \<noteq> 0"
  shows "\<exists>q' w. bits_divmod_out ops debug N xs ys q r = Inr (q', r[0 := w]) \<and>
    val q' = (val xs - 2 ^ t) div val ys \<and> unat w = (val xs - 2 ^ t) mod val ys"
proof -
  note len = wf_bits_length [OF assms(2)] wf_bits_length [OF assms(3)]
  note top = last_one_bounds [OF assms(2,6)]
  define k where "k = t div LENGTH('a)"
  have t: "t = LENGTH('a) * k"
    using mult_div_mod_eq [of "LENGTH('a)" t] assms(7) by (simp add: k_def)
  have k: "0 < k" "k < array_size TYPE('a) N"
    using assms(8) t index_less [OF top(4), where 'a = 'a] by (simp_all add: k_def [symmetric])
  obtain s where s: "last_one N ys = Some s"
    using assms(11) by (simp add: last_one_eq [OF assms(3)])
  note divisor = last_one_bounds [OF assms(3) s]
  have small: "s < LENGTH('a)"
    using divisor(1) assms(9) by (meson le_less_trans nat_power_less_imp_less pos2)
  have "s \<noteq> 0"
  proof
    assume "s = 0"
    then have "val ys = 2 ^ 0"
      using divisor(2) assms(11) by simp
    then show False
      using assms(10) by blast
  qed
  then have n: "(s + (LENGTH('a) - 1)) div LENGTH('a) = 1"
    using ceil_words [of s, where 'a = 'a] small by simp
  have ys: "val ys = unat (ys ! 0)"
  proof -
    have "0 < length ys"
      using k len by simp
    then have "val ys = unat (ys ! 0) + 2 ^ LENGTH('a) * val (drop 1 ys)"
      by (cases ys) simp_all
    then show ?thesis
      using assms(9) by (cases "val (drop 1 ys)") auto
  qed
  then have v: "0 < ys ! 0"
    using assms(11) by (simp add: word_less_nat_alt)
  have "k \<le> length xs" "k \<le> length q"
    using k len assms(4) by simp_all
  from big_word_div.short_div_val [OF assms(1) v this] obtain w q' where short:
    "short_div ops (ys ! 0) xs (rev [0..<k]) 0 q = Some (w, q')" "length q' = length q"
    "unat w = val (take k xs) mod unat (ys ! 0)" "val (take k q') = val (take k xs) div unat (ys ! 0)"
    by auto
  have low: "val (take k xs) = val xs - 2 ^ t"
  proof -
    have split: "val xs = val (take k xs) + 2 ^ t * val (drop k xs)"
      using val_append [of "take k xs" "drop k xs"] k len by (simp add: min_def t)
    have "val (take k xs) < 2 ^ t"
      using val_less [of "take k xs"] k len by (simp add: min_def t)
    then have "val (drop k xs) = val xs div 2 ^ t"
      by (simp add: split)
    also have "\<dots> = 1"
      using top(1,2) by (intro div_nat_eqI) simp_all
    finally have "val (drop k xs) = 1" .
    then show ?thesis
      using split by simp
  qed
  have tail: "foldl (update_by (\<lambda>b i. 0)) q' [k..<array_size TYPE('a) N] = take k q' @ replicate (array_size TYPE('a) N - k) 0"
    using zero_tail [of k q'] k short(2) assms(4) by simp
  have words: "(t + (LENGTH('a) - 1)) div LENGTH('a) = k" "k - 1 + 1 = k"
  proof -
    have "(LENGTH('a) - 1 + LENGTH('a) * k) div LENGTH('a) = k + (LENGTH('a) - 1) div LENGTH('a)"
      by (rule div_mult_self2) simp
    then show "(t + (LENGTH('a) - 1)) div LENGTH('a) = k"
      by (simp add: t add.commute)
  qed (use k in simp)
  have "bits_long_div ops N xs ys q r = Some (take k q' @ replicate (array_size TYPE('a) N - k) 0, r[0 := w])"
    unfolding bits_long_div_def assms(6) s Let_def prod.case option.case words n if_P [OF refl] short(1) tail by simp
  moreover have "\<not> val xs < val ys"
  proof -
    have "(2 :: nat) ^ LENGTH('a) \<le> 2 ^ t"
      unfolding t using k by (intro power_increasing) simp_all
    then show ?thesis
      using top(1) assms(9) by linarith
  qed
  moreover have "val ys \<noteq> 2 ^ (LEAST m. bit (val ys) m)" "array_size TYPE('a) N \<noteq> 1"
    using assms(10) k by (blast, linarith)
  ultimately have "bits_divmod_out ops debug N xs ys q r = Inr (take k q' @ replicate (array_size TYPE('a) N - k) 0, r[0 := w])"
    by (simp add: divmod_cases [OF assms(2,3,11,4)] Let_def)
  moreover have "val (take k q' @ replicate (array_size TYPE('a) N - k) 0) = (val xs - 2 ^ t) div val ys"
    using short(4) k short(2) assms(4) by (simp add: val_append low ys min_def)
  moreover have "unat w = (val xs - 2 ^ t) mod val ys"
    using short(3) by (simp add: low ys)
  ultimately show ?thesis
    by blast
qed

lemma division_loses_word_witness:
  "\<exists>q w. bits_divmod_out native_big True 128 [5, 1 :: 64 word] [3, 0] [9, 9] [8, 7] = Inr (q, [w, 7]) \<and> val q = 1 \<and> unat w = 2"
proof -
  have top: "last_one 128 [5, 1 :: 64 word] = Some 64"
    by code_simp
  have no: "\<nexists>k. val [3, 0 :: 64 word] = 2 ^ k"
  proof
    assume "\<exists>k. val [3, 0 :: 64 word] = 2 ^ k"
    then obtain k where k: "3 = (2 :: nat) ^ k"
      by auto
    then show False
      by (cases k) (auto dest: arg_cong [where f = even])
  qed
  have "\<exists>q w. bits_divmod_out native_big True 128 [5, 1 :: 64 word] [3, 0] [9, 9] [8, 7] = Inr (q, [8, 7][0 := w]) \<and>
      val q = (val [5, 1 :: 64 word] - 2 ^ 64) div val [3, 0 :: 64 word] \<and> unat w = (val [5, 1 :: 64 word] - 2 ^ 64) mod val [3, 0 :: 64 word]"
    by (rule division_loses_word [OF native.big_word_div_axioms _ _ _ _ top _ _ _ no])
      (simp_all add: wf_bits_def array_size_def)
  then show ?thesis
    by auto
qed

text \<open>Other failures of the kernel, on concrete operands: a divisor whose top bit is the first of its second word is cut to
  its low word, a divisor of two words leaves a wrong remainder, and one whose top bit is the last of its word is
  shifted by the word size.\<close>

lemma divmod_goes_wrong:
  "bits_divmod native_big True 128 [0, 8 :: 64 word] [1, 1] = Inr ([0, 8], [0, 0]) \<and>
   bits_divmod native_big True 128 [5, 9 :: 64 word] [1, 3] = Inr ([3, 0], [6, 0]) \<and>
   bits_divmod native_big True 128 [-1, -1 :: 64 word] [1, 0x8000000000000000] = Inl Undefined"
  by (intro conjI; code_simp)

end
