(* ===== verification/BitStrings.thy ===== *)
theory BitStrings
  imports BitDiv
begin

unbundle bit_operations_syntax

text \<open>
  Parsing: \<open>from_string\<close> reads a string of digits, most significant digit first, over any list of
  digit strings (whose number is the base).  A digit string may have several characters.  The loops
  run on fuel, \<open>None\<close> meaning that it did not suffice; errors are values of the result type.
\<close>

section \<open>The digit table\<close>

text \<open>The lookup of \<open>string_map\<close>, a perfect hash of the digit strings to their positions.\<close>

fun find_key :: "string list \<Rightarrow> string \<Rightarrow> nat option" where
  "find_key [] s = None"
| "find_key (k # ks) s = (if k = s then Some 0 else map_option Suc (find_key ks s))"

text \<open>\<open>widths\<close>: the distinct lengths of the digit strings in decreasing order.\<close>

fun drop_repeats :: "nat list \<Rightarrow> nat list" where
  "drop_repeats (x # y # zs) = (if y < x then x # drop_repeats (y # zs) else drop_repeats (x # zs))"
| "drop_repeats xs = xs"

definition key_widths :: "string list \<Rightarrow> nat list" where
  "key_widths ks = drop_repeats (rev (sort (map length ks)))"

text \<open>\<open>std::bit_width\<close>.\<close>

fun bit_width :: "nat \<Rightarrow> nat" where
  "bit_width n = (if n = 0 then 0 else Suc (bit_width (n div 2)))"

declare bit_width.simps [simp del]

definition bits_per_digit :: "string list \<Rightarrow> nat" where
  "bits_per_digit ks = bit_width (length ks - 1)"

definition power2_base :: "string list \<Rightarrow> bool" where
  "power2_base ks \<longleftrightarrow> is_power2 (word_of_nat (length ks) :: 64 word)"

section \<open>Parsing\<close>

text \<open>Would a left shift by \<open>k\<close> lose the most significant set bit?  The scan goes down from the last
  word and stops when the distance from the end exceeds the shift.\<close>

fun overflow_scan :: "nat \<Rightarrow> nat \<Rightarrow> 'a::len word list \<Rightarrow> nat \<Rightarrow> nat list \<Rightarrow> bool" where
  "overflow_scan N k xs distance [] = False"
| "overflow_scan N k xs distance (j # js) = (
     if \<not> distance \<le> k then False
     else
       let msb = countl_zero (xs ! j)
       in if msb < LENGTH('a)
          then let distance = N - (LENGTH('a) * j + LENGTH('a) - 1 - msb)
            in if distance \<le> k then True else overflow_scan N k xs distance js
          else overflow_scan N k xs (distance + LENGTH('a)) js)"

definition shift_overflows :: "nat \<Rightarrow> nat \<Rightarrow> 'a::len word list \<Rightarrow> bool" where
  "shift_overflows N k xs = (
     let j = array_size TYPE('a) N - 1;
         msb = countl_zero (xs ! j)
     in if msb < LENGTH('a)
        then N - (LENGTH('a) * j + LENGTH('a) - 1 - msb) \<le> k
        else overflow_scan N k xs (N mod LENGTH('a)) (rev [0..<j]))"

text \<open>Appending a digit; \<open>None\<close> is the overflow error.\<close>

definition push_digit ::
  "'a::len word big_ops \<Rightarrow> nat \<Rightarrow> string list \<Rightarrow> 'a word list \<Rightarrow> nat \<Rightarrow> 'a word list option" where
  "push_digit ops N ks result d = (
     if power2_base ks
     then if shift_overflows N (bits_per_digit ks) result then None
       else Some (bits_or_assign N (bits_shl_assign N result (bits_per_digit ks)) (bits_from_word N (word_of_nat d)))
     else
       let (overflow, result) = bits_mul_out ops N result (bits_from_word N (word_of_nat (length ks))) result
       in if overflow then None
          else let (overflow, result) = bits_add_out ops N result (bits_from_word N (word_of_nat d)) result
            in if overflow then None else Some result)"

text \<open>One step: a digit string of the first width that matches, and the new position; or else the
  rest of the string as the continuation.\<close>

fun from_string_helper ::
  "'a::len word big_ops \<Rightarrow> nat \<Rightarrow> string list \<Rightarrow> nat list \<Rightarrow> 'a word list \<Rightarrow> string \<Rightarrow> nat \<Rightarrow> string \<Rightarrow>
   ('a word list \<times> nat \<times> string) res" where
  "from_string_helper ops N ks [] result str i continuation = Inr (result, i, drop i str)"
| "from_string_helper ops N ks (w # ws) result str i continuation = (
     case find_key ks (take w (drop i str)) of
       Some d \<Rightarrow> (case push_digit ops N ks result d of
         None \<Rightarrow> Inl OverflowError
       | Some result \<Rightarrow> Inr (result, i + w, continuation))
     | None \<Rightarrow> from_string_helper ops N ks ws result str i continuation)"

fun string_loop ::
  "nat \<Rightarrow> 'a::len word big_ops \<Rightarrow> nat \<Rightarrow> string list \<Rightarrow> string \<Rightarrow> nat \<Rightarrow> 'a word list \<Rightarrow> 'a word list res option" where
  "string_loop fuel ops N ks str idx result = (
     if \<not> idx < length str then Some (Inr result)
     else case fuel of 0 \<Rightarrow> None
     | Suc fuel \<Rightarrow> (case from_string_helper ops N ks (key_widths ks) result str idx '''' of
         Inl e \<Rightarrow> Some (Inl e)
       | Inr (result, idx, continuation) \<Rightarrow>
           if continuation \<noteq> '''' then Some (Inl ValueError)
           else string_loop fuel ops N ks str idx result))"

declare string_loop.simps [simp del]

text \<open>The bit scan of base two.\<close>

fun binary_loop ::
  "nat \<Rightarrow> nat \<Rightarrow> string \<Rightarrow> string \<Rightarrow> string \<Rightarrow> nat \<Rightarrow> 'a::len word list \<Rightarrow> 'a word list res option" where
  "binary_loop fuel N zero one str idx result = (
     if \<not> idx < length str then Some (Inr result)
     else case fuel of 0 \<Rightarrow> None
     | Suc fuel \<Rightarrow>
       if take (length zero) (drop idx str) = zero
       then if msb_is_set N result then Some (Inl OverflowError)
         else binary_loop fuel N zero one str (idx + length zero) (bits_shl_assign N result 1)
       else if take (length one) (drop idx str) = one
       then if msb_is_set N result then Some (Inl OverflowError)
         else binary_loop fuel N zero one str (idx + length one)
           (bits_or_assign N (bits_shl_assign N result 1) (bits_from_word N 1))
       else Some (Inl ValueError))"

declare binary_loop.simps [simp del]

text \<open>Every turn consumes a character, so the length of the string is enough fuel.\<close>

definition from_string ::
  "'a::len word big_ops \<Rightarrow> nat \<Rightarrow> string list \<Rightarrow> string \<Rightarrow> 'a word list res option" where
  "from_string ops N ks str = (
     if length ks = 2 then binary_loop (length str) N (ks ! 0) (ks ! 1) str 0 (bits_min N)
     else string_loop (length str) ops N ks str 0 (bits_min N))"

text \<open>The overload with a continuation: a string that is no digit is stored as the
  continuation, but the loops go on.\<close>

fun string_loop_cont ::
  "nat \<Rightarrow> 'a::len word big_ops \<Rightarrow> nat \<Rightarrow> string list \<Rightarrow> string \<Rightarrow> nat \<Rightarrow> 'a word list \<Rightarrow> string \<Rightarrow>
   ('a word list \<times> string) res option" where
  "string_loop_cont fuel ops N ks str idx result continuation = (
     if \<not> idx < length str then Some (Inr (result, continuation))
     else case fuel of 0 \<Rightarrow> None
     | Suc fuel \<Rightarrow> (case from_string_helper ops N ks (key_widths ks) result str idx continuation of
         Inl e \<Rightarrow> Some (Inl e)
       | Inr (result, idx, continuation) \<Rightarrow> string_loop_cont fuel ops N ks str idx result continuation))"

declare string_loop_cont.simps [simp del]

fun binary_loop_cont ::
  "nat \<Rightarrow> nat \<Rightarrow> string \<Rightarrow> string \<Rightarrow> string \<Rightarrow> nat \<Rightarrow> 'a::len word list \<Rightarrow> string \<Rightarrow>
   ('a word list \<times> string) res option" where
  "binary_loop_cont fuel N zero one str idx result continuation = (
     if \<not> idx < length str then Some (Inr (result, continuation))
     else case fuel of 0 \<Rightarrow> None
     | Suc fuel \<Rightarrow>
       if take (length zero) (drop idx str) = zero
       then if msb_is_set N result then Some (Inl OverflowError)
         else binary_loop_cont fuel N zero one str (idx + length zero) (bits_shl_assign N result 1) continuation
       else if take (length one) (drop idx str) = one
       then if msb_is_set N result then Some (Inl OverflowError)
         else binary_loop_cont fuel N zero one str (idx + length one)
           (bits_or_assign N (bits_shl_assign N result 1) (bits_from_word N 1)) continuation
       else binary_loop_cont fuel N zero one str idx result (drop idx str))"

declare binary_loop_cont.simps [simp del]

definition from_string_cont ::
  "nat \<Rightarrow> 'a::len word big_ops \<Rightarrow> nat \<Rightarrow> string list \<Rightarrow> string \<Rightarrow> ('a word list \<times> string) res option" where
  "from_string_cont fuel ops N ks str = (
     if length ks = 2 then binary_loop_cont fuel N (ks ! 0) (ks ! 1) str 0 (bits_min N) ''''
     else string_loop_cont fuel ops N ks str 0 (bits_min N) '''')"

text \<open>The canonical digits.\<close>

definition binary_digits :: "string list" where
  "binary_digits = [''0'', ''1'']"

definition octal_digits :: "string list" where
  "octal_digits = [''0'', ''1'', ''2'', ''3'', ''4'', ''5'', ''6'', ''7'']"

definition decimal_digits :: "string list" where
  "decimal_digits = [''0'', ''1'', ''2'', ''3'', ''4'', ''5'', ''6'', ''7'', ''8'', ''9'']"

definition hex_digits :: "string list" where
  "hex_digits = [''0'', ''1'', ''2'', ''3'', ''4'', ''5'', ''6'', ''7'', ''8'', ''9'',
     ''A'', ''B'', ''C'', ''D'', ''E'', ''F'']"

definition from_binary :: "'a::len word big_ops \<Rightarrow> nat \<Rightarrow> string \<Rightarrow> 'a word list res option" where
  "from_binary ops N str = from_string ops N binary_digits str"

definition from_octal :: "'a::len word big_ops \<Rightarrow> nat \<Rightarrow> string \<Rightarrow> 'a word list res option" where
  "from_octal ops N str = from_string ops N octal_digits str"

definition from_decimal :: "'a::len word big_ops \<Rightarrow> nat \<Rightarrow> string \<Rightarrow> 'a word list res option" where
  "from_decimal ops N str = from_string ops N decimal_digits str"

definition from_hex :: "'a::len word big_ops \<Rightarrow> nat \<Rightarrow> string \<Rightarrow> 'a word list res option" where
  "from_hex ops N str = from_string ops N hex_digits str"

section \<open>Digit tables of one width\<close>

definition uniform_keys :: "string list \<Rightarrow> nat \<Rightarrow> bool" where
  "uniform_keys ks L \<longleftrightarrow> distinct ks \<and> list_all (\<lambda>k. length k = L) ks \<and> 0 < L \<and> 2 \<le> length ks"

lemma find_key_None: "s \<notin> set ks \<Longrightarrow> find_key ks s = None"
  by (induction ks) auto

lemma find_key_nth: "distinct ks \<Longrightarrow> d < length ks \<Longrightarrow> find_key ks (ks ! d) = Some d"
proof (induction ks arbitrary: d)
  case (Cons k ks)
  then show ?case
    by (cases d) auto
qed simp

lemma drop_repeats_replicate: "drop_repeats (replicate (Suc n) L) = [L]"
  by (induction n) simp_all

lemma key_widths_uniform:
  assumes "uniform_keys ks L"
  shows "key_widths ks = [L]"
proof -
  have map: "map length ks = replicate (length ks) L"
    using assms by (intro replicate_eqI) (auto simp: uniform_keys_def list_all_iff)
  have "sort (replicate (length ks) L) = replicate (length ks) L"
    by (rule sorted_sort_id) simp
  then have "rev (sort (map length ks)) = replicate (length ks) L"
    by (simp only: map rev_replicate)
  moreover obtain n where "length ks = Suc n"
    using assms by (cases "length ks") (auto simp: uniform_keys_def)
  ultimately show ?thesis
    by (simp only: key_widths_def drop_repeats_replicate)
qed

lemma bit_width_mask: "bit_width (2 ^ k - 1) = k"
proof (induction k)
  case (Suc k)
  have "(2 ^ Suc k - 1 :: nat) div 2 = 2 ^ k - 1"
    by simp
  moreover have "(2 ^ Suc k - 1 :: nat) \<noteq> 0"
    using one_less_power [of "2 :: nat" "Suc k"] by linarith
  ultimately show ?case
    using Suc.IH by (subst bit_width.simps) (simp only: if_False simp_thms)
qed (simp add: bit_width.simps)

lemma power2_base_iff:
  assumes "0 < length ks" "length ks < 2 ^ 64"
  shows "power2_base ks \<longleftrightarrow> (\<exists>k. length ks = 2 ^ k)"
proof -
  have n: "unat (word_of_nat (length ks) :: 64 word) = length ks"
    using assms(2) by (simp add: unat_of_nat)
  have pow: "unat ((2 :: 64 word) ^ k) = 2 ^ k" if "k < 64" for k
    using unat_push_one [of k, where 'a = 64] that by simp
  have "(\<exists>k < 64. (word_of_nat (length ks) :: 64 word) = 2 ^ k) \<longleftrightarrow> (\<exists>k < 64. length ks = 2 ^ k)"
    by (metis n pow word_unat_eq_iff)
  also have "\<dots> \<longleftrightarrow> (\<exists>k. length ks = 2 ^ k)"
    using assms(2) by (metis nat_power_less_imp_less pos2)
  finally show ?thesis
    using assms(1) n by (auto simp: power2_base_def is_power2_iff)
qed

section \<open>Appending a digit\<close>

lemma double_half: "0 < N \<Longrightarrow> 2 ^ N = (2 * 2 ^ (N - 1) :: 'b::comm_semiring_1)"
  by (cases N) simp_all

lemma top_bit_nat:
  fixes v :: nat
  assumes "v < 2 ^ N" "0 < N"
  shows "bit v (N - 1) \<longleftrightarrow> 2 ^ (N - 1) \<le> v"
proof -
  have "bit v (N - 1) \<longleftrightarrow> odd (v div 2 ^ (N - 1))"
    by (rule bit_iff_odd)
  moreover have "v div 2 ^ (N - 1) < 2"
    using assms double_half [OF assms(2), where 'b = nat] by (simp add: less_mult_imp_div_less mult.commute)
  moreover have "v div 2 ^ (N - 1) = 0 \<longleftrightarrow> v < 2 ^ (N - 1)"
    by (simp add: div_eq_0_iff)
  ultimately show ?thesis
    by (cases "v div 2 ^ (N - 1) = 0") (auto simp: not_less less_2_cases_iff)
qed

lemma bits_from_word_val:
  fixes v :: "'a::len word"
  assumes "0 < N" "unat v < 2 ^ N"
  shows "val (bits_from_word N v) = unat v" "wf_bits N (bits_from_word N v)"
proof -
  have len: "length ((bits_min N)[0 := v]) = array_size TYPE('a) N"
    by (simp add: wf_bits_length [OF bits_min_val(2)])
  have "0 < length (bits_min N :: 'a word list)"
    using array_size_bounds(5) [OF assms(1), where 'a = 'a] by (simp add: wf_bits_length [OF bits_min_val(2)])
  from val_update [OF this, of v] have "val ((bits_min N)[0 := v]) = unat v"
    using \<open>0 < length (bits_min N :: 'a word list)\<close> by (simp add: bits_min_def)
  then show "val (bits_from_word N v) = unat v" "wf_bits N (bits_from_word N v)"
    using mask_end_bits(3,4) [OF len] assms(2) by (simp_all add: bits_from_word_def take_bit_nat_eq_self)
qed

lemma last_set_less:
  fixes f :: "nat \<Rightarrow> 'a::len word"
  shows "last_set f (rev [0..<j]) = Some t \<Longrightarrow> t < LENGTH('a) * j"
proof (induction j)
  case (Suc j)
  have "LENGTH('a) * j + LENGTH('a) - 1 - countl_zero (f j) < LENGTH('a) * Suc j"
    using len_gt_0 [where 'a = 'a] unfolding mult_Suc_right by linarith
  then show ?case
    using Suc by (auto simp: Let_def split: if_splits)
qed simp

lemma overflow_scan_iff:
  fixes xs :: "'a::len word list"
  assumes "distance + LENGTH('a) * j \<le> N"
  shows "overflow_scan N k xs distance (rev [0..<j]) \<longleftrightarrow>
    (case last_set (\<lambda>i. xs ! i) (rev [0..<j]) of None \<Rightarrow> False | Some t \<Rightarrow> N - t \<le> k)"
  using assms
proof (induction j arbitrary: distance)
  case (Suc j)
  have rev: "rev [0..<Suc j] = j # rev [0..<j]"
    by simp
  show ?case
  proof (cases "distance \<le> k")
    case False
    show ?thesis
    proof (cases "last_set (\<lambda>i. xs ! i) (rev [0..<Suc j])")
      case (Some t)
      have "t < LENGTH('a) * Suc j"
        by (rule last_set_less [OF Some])
      then have "\<not> N - t \<le> k"
        using Suc.prems False by linarith
      then show ?thesis
        using False unfolding Some by (simp add: rev)
    qed (use False in \<open>simp add: rev\<close>)
  next
    case True
    show ?thesis
    proof (cases "countl_zero (xs ! j) < LENGTH('a)")
      case msb: True
      have "\<not> overflow_scan N k xs d (rev [0..<j])" if "k < d" for d
        using that by (cases "rev [0..<j]") simp_all
      then show ?thesis
        using True msb unfolding rev by (simp add: Let_def not_le)
    next
      case False
      have "distance + LENGTH('a) + LENGTH('a) * j \<le> N"
        using Suc.prems by simp
      from Suc.IH [OF this] show ?thesis
        using True False unfolding rev by (simp add: Let_def)
    qed
  qed
qed simp

lemma shift_overflows_iff:
  fixes xs :: "'a::len word list"
  assumes "wf_bits N xs" "0 < N"
  shows "shift_overflows N k xs \<longleftrightarrow> 2 ^ N \<le> val xs * 2 ^ k"
proof -
  let ?n = "array_size TYPE('a) N"
  have n: "[0..<?n] = [0..<?n - 1] @ [?n - 1]" "0 < ?n"
    using array_size_bounds(5) [OF assms(2), where 'a = 'a] upt_Suc_append [of 0 "?n - 1"] by simp_all
  have "N mod LENGTH('a) + LENGTH('a) * (?n - 1) \<le> N"
  proof (cases "N mod LENGTH('a) = 0")
    case True
    then show ?thesis
      using array_size_bounds(6) [OF assms(2), where 'a = 'a] by simp
  next
    case False
    then show ?thesis
      using array_size_bounds(2) [OF False] by linarith
  qed
  from overflow_scan_iff [OF this, of k xs]
  have scan: "shift_overflows N k xs \<longleftrightarrow> (case last_one N xs of None \<Rightarrow> False | Some t \<Rightarrow> N - t \<le> k)"
    unfolding shift_overflows_def last_one_def n(1) by (simp add: Let_def)
  show ?thesis
  proof (cases "last_one N xs")
    case None
    then have "val xs = 0"
      by (simp add: last_one_eq [OF assms(1)] split: if_splits)
    then show ?thesis
      unfolding scan None by simp
  next
    case (Some t)
    note top = last_one_bounds [OF assms(1) Some]
    have lower: "2 ^ (t + k) \<le> val xs * 2 ^ k"
      using top(1) by (simp add: power_add)
    have upper: "val xs * 2 ^ k < 2 ^ (Suc t + k)"
      unfolding power_add using top(2) by (intro mult_strict_right_mono) simp_all
    have "2 ^ N \<le> val xs * 2 ^ k \<longleftrightarrow> N \<le> t + k"
    proof
      assume "2 ^ N \<le> val xs * 2 ^ k"
      then have "2 ^ N < (2 :: nat) ^ (Suc t + k)"
        using upper by linarith
      then have "N < Suc t + k"
        by (rule power_less_imp_less_exp [rotated]) simp
      then show "N \<le> t + k" by simp
    next
      assume "N \<le> t + k"
      then have "2 ^ N \<le> (2 :: nat) ^ (t + k)"
        by (intro power_increasing) simp_all
      then show "2 ^ N \<le> val xs * 2 ^ k"
        using lower by linarith
    qed
    then show ?thesis
      unfolding scan Some using top(4) by auto
  qed
qed

lemma or_digit: "d < 2 ^ k \<Longrightarrow> (2 ^ k * a) OR d = 2 ^ k * a + (d :: nat)"
  using bit_add_shifted [of d k a] bit_nat_less [of d k]
  by (intro bit_eqI) (auto simp: bit_or_iff push_bit_eq_mult [symmetric] mult.commute bit_push_bit_iff add.commute)


text \<open>A base that fits the set, a word and the table of bases.\<close>

definition good_base :: "'a::len itself \<Rightarrow> nat \<Rightarrow> nat \<Rightarrow> bool" where
  "good_base w N b \<longleftrightarrow> 2 \<le> b \<and> b \<le> 2 ^ N \<and> b < 2 ^ LENGTH('a) \<and> b < 2 ^ 64"

lemma push_digit_val:
  fixes xs :: "'a::len word list"
  assumes "big_word ops" "wf_bits N xs" "good_base TYPE('a) N (length ks)" "d < length ks"
  shows "push_digit ops N ks xs d = None \<longleftrightarrow> 2 ^ N \<le> val xs * length ks + d"
    "push_digit ops N ks xs d = Some r \<Longrightarrow> wf_bits N r \<and> val r = val xs * length ks + d"
proof -
  have base: "2 \<le> length ks" "length ks \<le> 2 ^ N" "length ks < 2 ^ LENGTH('a)" "length ks < 2 ^ 64"
    using assms(3) by (simp_all add: good_base_def)
  have N: "0 < N"
    using base(1,2) by (cases N) simp_all
  have small: "unat (word_of_nat m :: 'a word) = m" if "m \<le> length ks" for m
    using that base(3) by (simp add: unat_of_nat)
  have digit: "val (bits_from_word N (word_of_nat d :: 'a word)) = d" "wf_bits N (bits_from_word N (word_of_nat d :: 'a word))"
    using bits_from_word_val [OF N, of "word_of_nat d :: 'a word"] small [of d] assms(4) base(2) by simp_all
  have "(push_digit ops N ks xs d = None \<longleftrightarrow> 2 ^ N \<le> val xs * length ks + d) \<and>
    (\<forall>r. push_digit ops N ks xs d = Some r \<longrightarrow> wf_bits N r \<and> val r = val xs * length ks + d)"
  proof (cases "power2_base ks")
    case True
    have "0 < length ks"
      using base(1) by linarith
    then obtain k where k: "length ks = 2 ^ k"
      using True base(4) by (auto simp: power2_base_iff)
    have bits: "bits_per_digit ks = k"
      unfolding bits_per_digit_def k by (rule bit_width_mask)
    have "k \<le> N"
      using base(2) unfolding k by (rule power_le_imp_le_exp [rotated]) simp
    then have dvd: "2 ^ k dvd (2 :: nat) ^ N"
      by (rule le_imp_power_dvd)
    have iff: "2 ^ N \<le> val xs * 2 ^ k + d \<longleftrightarrow> 2 ^ N \<le> val xs * 2 ^ k"
    proof -
      obtain m where m: "(2 :: nat) ^ N = 2 ^ k * m"
        using dvd by (elim dvdE)
      have "val xs * 2 ^ k + d < 2 ^ k * Suc (val xs)"
        using assms(4) by (simp add: k)
      then have "m * 2 ^ k \<le> val xs * 2 ^ k + d \<longrightarrow> m \<le> val xs"
        by (metis less_Suc_eq_le less_le_trans mult.commute mult_less_cancel1 not_le)
      moreover have "2 ^ k * m \<le> val xs * 2 ^ k \<longleftrightarrow> m \<le> val xs"
        by (simp add: mult.commute)
      ultimately show ?thesis
        unfolding m mult.commute [of m] by linarith
    qed
    show ?thesis
    proof (cases "2 ^ N \<le> val xs * 2 ^ k")
      case over: True
      then show ?thesis
        using True iff by (simp add: push_digit_def bits k shift_overflows_iff [OF assms(2) N])
    next
      case False
      define s where "s = bits_shl_assign N xs k"
      have s: "val s = 2 ^ k * val xs" "wf_bits N s"
        using bits_shl_assign_val [OF assms(2), of k] False
        by (simp_all add: s_def take_bit_nat_eq_self push_bit_eq_mult mult.commute)
      have "val (bits_or_assign N s (bits_from_word N (word_of_nat d))) = 2 ^ k * val xs + d"
        using bits_logic_val(2) [OF s(2) digit(2)] bits_logic_assign(2) [OF s(2)] assms(4)
        by (simp add: s(1) digit(1) k or_digit)
      moreover have "wf_bits N (bits_or_assign N s (bits_from_word N (word_of_nat d)))"
        by (rule bits_or_assign_bits(2) [OF s(2) digit(2)])
      ultimately show ?thesis
        using True False iff
        by (simp add: push_digit_def bits k shift_overflows_iff [OF assms(2) N] s_def [symmetric] mult.commute)
    qed
  next
    case False
    have "length ks \<noteq> 2 ^ N"
      using False power2_base_iff [of ks] base by force
    then have lt: "length ks < 2 ^ N"
      using base(2) by simp
    have b: "val (bits_from_word N (word_of_nat (length ks) :: 'a word)) = length ks"
      "wf_bits N (bits_from_word N (word_of_nat (length ks) :: 'a word))"
      using bits_from_word_val [OF N, of "word_of_nat (length ks) :: 'a word"] small lt by simp_all
    define mul where "mul = bits_mul_out ops N xs (bits_from_word N (word_of_nat (length ks))) xs"
    have mul: "val (snd mul) = (val xs * length ks) mod 2 ^ N" "fst mul \<longleftrightarrow> 2 ^ N \<le> val xs * length ks"
      "wf_bits N (snd mul)"
      using mul_correct [OF assms(1,2) b(2) wf_bits_length [OF assms(2)]] b(1) base(3) by (simp_all add: mul_def)
    define add where "add = bits_add_out ops N (snd mul) (bits_from_word N (word_of_nat d)) (snd mul)"
    note add = add_correct [OF mul(3) digit(2) wf_bits_length [OF mul(3)], of ops, folded add_def]
    have eq: "push_digit ops N ks xs d = (if fst mul then None else if fst add then None else Some (snd add))"
      using False by (simp add: push_digit_def mul_def [symmetric] add_def [symmetric] case_prod_beta Let_def)
    show ?thesis
    proof (cases "2 ^ N \<le> val xs * length ks")
      case True
      then show ?thesis
        by (simp add: eq mul(2))
    next
      case False
      then show ?thesis
        using add by (simp add: eq mul digit(1))
    qed
  qed
  then show "push_digit ops N ks xs d = None \<longleftrightarrow> 2 ^ N \<le> val xs * length ks + d"
    "push_digit ops N ks xs d = Some r \<Longrightarrow> wf_bits N r \<and> val r = val xs * length ks + d"
    by blast+
qed

section \<open>Parsing a sequence of digits\<close>

text \<open>The number a sequence of digits denotes, the characters it is written with, and the text
  that may follow: nothing, or something that is no digit.\<close>

definition horner :: "nat \<Rightarrow> nat \<Rightarrow> nat list \<Rightarrow> nat" where
  "horner b v ds = foldl (\<lambda>a d. a * b + d) v ds"

definition spell :: "string list \<Rightarrow> nat list \<Rightarrow> string" where
  "spell ks ds = concat (map ((!) ks) ds)"

definition no_digit :: "string list \<Rightarrow> nat \<Rightarrow> string \<Rightarrow> bool" where
  "no_digit ks L s \<longleftrightarrow> s = [] \<or> take L s \<notin> set ks"

text \<open>The specification of the parser.\<close>

definition parse_spec :: "nat \<Rightarrow> nat \<Rightarrow> nat \<Rightarrow> nat list \<Rightarrow> string \<Rightarrow> 'a::len word list res option \<Rightarrow> bool" where
  "parse_spec N b v ds rest res \<longleftrightarrow>
     (if 2 ^ N \<le> horner b v ds then res = Some (Inl OverflowError)
      else if rest \<noteq> [] then res = Some (Inl ValueError)
      else \<exists>r. res = Some (Inr r) \<and> wf_bits N r \<and> val r = horner b v ds)"

lemma horner_simps [simp]: "horner b v [] = v" "horner b v (d # ds) = horner b (v * b + d) ds"
  by (simp_all add: horner_def)

lemma horner_mono: "0 < b \<Longrightarrow> v \<le> horner b v ds"
proof (induction ds arbitrary: v)
  case (Cons d ds)
  have "v \<le> v * b + d"
    using Cons.prems by (cases b) simp_all
  also have "\<dots> \<le> horner b (v * b + d) ds"
    by (rule Cons.IH [OF Cons.prems])
  finally show ?case by simp
qed simp

lemma spell_simps [simp]: "spell ks [] = []" "spell ks (d # ds) = ks ! d @ spell ks ds"
  by (simp_all add: spell_def)

lemma uniform_length: "uniform_keys ks L \<Longrightarrow> d < length ks \<Longrightarrow> length (ks ! d) = L"
  by (simp add: uniform_keys_def list_all_length)

text \<open>A step of either loop on a digit and on other text.\<close>

lemma helper_digit:
  assumes "uniform_keys ks L" "d < length ks" "drop i str = ks ! d @ s"
  shows "from_string_helper ops N ks (key_widths ks) xs str i cont =
    (case push_digit ops N ks xs d of None \<Rightarrow> Inl OverflowError | Some r \<Rightarrow> Inr (r, i + L, cont))"
  using assms uniform_length [OF assms(1,2)] find_key_nth [of ks d]
  by (simp add: key_widths_uniform [OF assms(1)] uniform_keys_def)

lemma helper_no_digit:
  assumes "uniform_keys ks L" "take L (drop i str) \<notin> set ks"
  shows "from_string_helper ops N ks (key_widths ks) xs str i cont = Inr (xs, i, drop i str)"
  using find_key_None [OF assms(2)] by (simp add: key_widths_uniform [OF assms(1)])

lemma string_loop_spec:
  fixes xs :: "'a::len word list"
  assumes "big_word ops" "wf_bits N xs" "good_base TYPE('a) N (length ks)" "uniform_keys ks L"
    "\<forall>d \<in> set ds. d < length ks" "no_digit ks L rest" "drop i str = spell ks ds @ rest" "i \<le> length str"
    "length str \<le> fuel + i"
  shows "parse_spec N (length ks) (val xs) ds rest (string_loop fuel ops N ks str i xs)"
  using assms(2,5,7-9)
proof (induction ds arbitrary: fuel i xs)
  case Nil
  have "val xs < 2 ^ N"
    using Nil(1) by (simp add: wf_bits_def)
  show ?case
  proof (cases "rest = []")
    case True
    then have "\<not> i < length str"
      using Nil(3) by simp
    then show ?thesis
      using True Nil(1) \<open>val xs < 2 ^ N\<close> by (simp add: parse_spec_def string_loop.simps)
  next
    case False
    then have i: "i < length str"
      using Nil(3) by (metis append_Nil drop_all not_le spell_simps(1))
    then obtain f where f: "fuel = Suc f"
      using Nil(5) by (cases fuel) simp_all
    have "take L (drop i str) \<notin> set ks"
      using assms(6) False Nil(3) by (simp add: no_digit_def)
    from helper_no_digit [OF assms(4) this, of ops N xs "[]"] show ?thesis
      using i f False Nil(3) \<open>val xs < 2 ^ N\<close> by (simp add: parse_spec_def string_loop.simps [of "Suc f"])
  qed
next
  case (Cons d ds)
  have d: "d < length ks"
    using Cons.prems(2) by simp
  have split: "drop i str = ks ! d @ (spell ks ds @ rest)"
    using Cons.prems(3) by simp
  have L: "length (ks ! d) = L" "0 < L"
    using uniform_length [OF assms(4) d] assms(4) by (simp_all add: uniform_keys_def)
  have len: "length str - i = L + length (spell ks ds @ rest)"
    using arg_cong [OF split, of length] L by simp
  then have i: "i < length str"
    using L(2) by linarith
  then obtain f where f: "fuel = Suc f"
    using Cons.prems(5) by (cases fuel) simp_all
  have next_drop: "drop (i + L) str = spell ks ds @ rest"
    using arg_cong [OF split, of "drop L"] L(1) by (simp add: add.commute)
  note push = push_digit_val [OF assms(1) Cons.prems(1) assms(3) d]
  note step = helper_digit [OF assms(4) d split, of ops N xs "[]"]
  show ?case
  proof (cases "push_digit ops N ks xs d")
    case None
    then have "2 ^ N \<le> val xs * length ks + d"
      using push(1) by simp
    also have "\<dots> \<le> horner (length ks) (val xs * length ks + d) ds"
      using d by (intro horner_mono) linarith
    finally show ?thesis
      using i f step None by (simp add: parse_spec_def string_loop.simps [of "Suc f"])
  next
    case (Some r)
    have "parse_spec N (length ks) (val r) ds rest (string_loop f ops N ks str (i + L) r)"
      using Cons.IH [of r "i + L" f] push(2) [OF Some] Cons.prems(2,5) next_drop len L(2) f i by simp
    then show ?thesis
      using i f step Some push(2) [OF Some] by (simp add: parse_spec_def string_loop.simps [of "Suc f"])
  qed
qed


text \<open>The same for the bit scan of base two.\<close>

lemma binary_digit_val:
  assumes "wf_bits N xs" "0 < N"
  shows "msb_is_set N xs \<longleftrightarrow> 2 ^ N \<le> val xs * 2"
    "\<not> msb_is_set N xs \<Longrightarrow> val (bits_shl_assign N xs 1) = val xs * 2 \<and> wf_bits N (bits_shl_assign N xs 1) \<and>
      val (bits_or_assign N (bits_shl_assign N xs 1) (bits_from_word N 1)) = val xs * 2 + 1 \<and>
      wf_bits N (bits_or_assign N (bits_shl_assign N xs 1) (bits_from_word N 1))"
proof -
  have v: "val xs < 2 ^ N"
    using assms(1) by (simp add: wf_bits_def)
  have "2 ^ N \<le> val xs * 2 \<longleftrightarrow> 2 ^ (N - 1) \<le> val xs"
    using double_half [OF assms(2), where 'b = nat] by linarith
  then show msb: "msb_is_set N xs \<longleftrightarrow> 2 ^ N \<le> val xs * 2"
    by (simp only: msb_is_set_eq [OF assms] top_bit_nat [OF v assms(2)])
  have one: "val (bits_from_word N (1 :: 'a word)) = 1" "wf_bits N (bits_from_word N (1 :: 'a word))"
    using bits_from_word_val [OF assms(2), of "1 :: 'a word"] one_less_power [of "2 :: nat" N] assms(2) by simp_all
  assume "\<not> msb_is_set N xs"
  then have "val (bits_shl_assign N xs 1) = 2 ^ 1 * val xs" "wf_bits N (bits_shl_assign N xs 1)"
    using bits_shl_assign_val [OF assms(1), of 1]
    by (simp_all add: msb take_bit_nat_eq_self push_bit_eq_mult mult.commute)
  then show "val (bits_shl_assign N xs 1) = val xs * 2 \<and> wf_bits N (bits_shl_assign N xs 1) \<and>
      val (bits_or_assign N (bits_shl_assign N xs 1) (bits_from_word N 1)) = val xs * 2 + 1 \<and>
      wf_bits N (bits_or_assign N (bits_shl_assign N xs 1) (bits_from_word N 1))"
    using bits_logic_val(2) [of N "bits_shl_assign N xs 1" "bits_from_word N 1"] one or_digit [of 1 1 "val xs"]
      bits_logic_assign(2) [of N "bits_shl_assign N xs 1" "bits_from_word N 1"]
      bits_or_assign_bits(2) [of N "bits_shl_assign N xs 1" "bits_from_word N 1"]
    by (simp add: mult.commute)
qed

lemma binary_loop_spec:
  fixes xs :: "'a::len word list"
  assumes "wf_bits N xs" "0 < N" "uniform_keys [z, e] L"
    "\<forall>d \<in> set ds. d < 2" "no_digit [z, e] L rest" "drop i str = spell [z, e] ds @ rest" "i \<le> length str"
    "length str \<le> fuel + i"
  shows "parse_spec N 2 (val xs) ds rest (binary_loop fuel N z e str i xs)"
  using assms(1,4,6-8)
proof (induction ds arbitrary: fuel i xs)
  case Nil
  have "val xs < 2 ^ N"
    using Nil(1) by (simp add: wf_bits_def)
  show ?case
  proof (cases "rest = []")
    case True
    then have "\<not> i < length str"
      using Nil(3) by simp
    then show ?thesis
      using True Nil(1) \<open>val xs < 2 ^ N\<close> by (simp add: parse_spec_def binary_loop.simps)
  next
    case False
    then have i: "i < length str"
      using Nil(3) by (metis append_Nil drop_all not_le spell_simps(1))
    then obtain f where f: "fuel = Suc f"
      using Nil(5) by (cases fuel) simp_all
    have "take L (drop i str) \<notin> {z, e}" "length z = L" "length e = L"
      using assms(3,5) False Nil(3) by (simp_all add: no_digit_def uniform_keys_def)
    then show ?thesis
      using i f False \<open>val xs < 2 ^ N\<close> by (simp add: parse_spec_def binary_loop.simps [of "Suc f"])
  qed
next
  case (Cons d ds)
  have d: "d = 0 \<or> d = 1"
    using Cons.prems(2) by auto
  have keys: "length z = L" "length e = L" "0 < L" "z \<noteq> e"
    using assms(3) by (simp_all add: uniform_keys_def)
  have split: "drop i str = [z, e] ! d @ (spell [z, e] ds @ rest)"
    using Cons.prems(3) by simp
  have L: "length ([z, e] ! d) = L"
    using d keys by auto
  have len: "length str - i = L + length (spell [z, e] ds @ rest)"
    using arg_cong [OF split, of length] L by simp
  then have i: "i < length str"
    using keys(3) by linarith
  then obtain f where f: "fuel = Suc f"
    using Cons.prems(5) by (cases fuel) simp_all
  have next_drop: "drop (i + L) str = spell [z, e] ds @ rest"
    using arg_cong [OF split, of "drop L"] L by (simp add: add.commute)
  have take: "take L (drop i str) = [z, e] ! d"
    using split L by simp
  note msb = binary_digit_val [OF Cons.prems(1) assms(2)]
  define r where "r = (if d = 0 then bits_shl_assign N xs 1
    else bits_or_assign N (bits_shl_assign N xs 1) (bits_from_word N 1))"
  have step: "binary_loop fuel N z e str i xs =
      (if msb_is_set N xs then Some (Inl OverflowError) else binary_loop f N z e str (i + L) r)"
    using d by (elim disjE) (simp_all add: f i take keys keys(4) [symmetric] binary_loop.simps [of "Suc f"] r_def)
  show ?case
  proof (cases "msb_is_set N xs")
    case True
    then have "2 ^ N \<le> val xs * 2 + d"
      using msb(1) by simp
    also have "\<dots> \<le> horner 2 (val xs * 2 + d) ds"
      by (rule horner_mono) simp
    finally show ?thesis
      using True by (simp add: parse_spec_def step)
  next
    case False
    have r: "val r = val xs * 2 + d" "wf_bits N r"
      using msb(2) [OF False] d by (auto simp: r_def)
    have "parse_spec N 2 (val r) ds rest (binary_loop f N z e str (i + L) r)"
      using Cons.IH [of r "i + L" f] r(2) Cons.prems(2,5) next_drop len keys(3) f i by simp
    then show ?thesis
      using False r(1) by (simp add: parse_spec_def step)
  qed
qed

lemma from_string_spec:
  fixes ops :: "'a::len word big_ops"
  assumes "big_word ops" "good_base TYPE('a) N (length ks)" "uniform_keys ks L"
    "\<forall>d \<in> set ds. d < length ks" "no_digit ks L rest"
  shows "parse_spec N (length ks) 0 ds rest (from_string ops N ks (spell ks ds @ rest))"
proof -
  have N: "0 < N"
    using assms(2) by (cases N) (simp_all add: good_base_def)
  show ?thesis
  proof (cases "length ks = 2")
    case True
    then obtain z e where ks: "ks = [z, e]"
      by (auto simp: length_Suc_conv numeral_2_eq_2)
    have keys: "ks ! 0 = z" "ks ! 1 = e"
      by (simp_all add: ks)
    have digits: "\<forall>d \<in> set ds. d < 2"
      using assms(4) by (simp add: True)
    have "parse_spec N 2 (val (bits_min N :: 'a word list)) ds rest
        (binary_loop (length (spell ks ds @ rest)) N z e (spell ks ds @ rest) 0 (bits_min N :: 'a word list))"
      unfolding ks by (rule binary_loop_spec [OF bits_min_val(2) N assms(3) [unfolded ks] digits assms(5) [unfolded ks]]) simp_all
    then show ?thesis
      unfolding from_string_def if_P [OF True] True keys by simp
  next
    case False
    then show ?thesis
      using string_loop_spec [OF assms(1) bits_min_val(2) assms(2,3,4,5), of 0 "spell ks ds @ rest" "length (spell ks ds @ rest)"]
      by (simp add: from_string_def)
  qed
qed

section \<open>The overload with a continuation\<close>

text \<open>As long as only digits are read, the two overloads take the same steps.\<close>

lemma string_loop_cont_same:
  "string_loop fuel ops N ks str i xs = Some (Inr r) \<Longrightarrow>
    string_loop_cont fuel ops N ks str i xs '''' = Some (Inr (r, ''''))"
  "string_loop fuel ops N ks str i xs = Some (Inl OverflowError) \<Longrightarrow>
    string_loop_cont fuel ops N ks str i xs '''' = Some (Inl OverflowError)"
  by (induction fuel arbitrary: i xs)
    (auto simp: string_loop.simps [of 0] string_loop_cont.simps [of 0] string_loop.simps [of "Suc n" for n]
      string_loop_cont.simps [of "Suc n" for n] split: if_splits sum.splits)

lemma binary_loop_cont_same:
  "binary_loop fuel N z e str i xs = Some (Inr r) \<Longrightarrow>
    binary_loop_cont fuel N z e str i xs '''' = Some (Inr (r, ''''))"
  "binary_loop fuel N z e str i xs = Some (Inl OverflowError) \<Longrightarrow>
    binary_loop_cont fuel N z e str i xs '''' = Some (Inl OverflowError)"
  by (induction fuel arbitrary: i xs)
    (auto simp: binary_loop.simps [of 0] binary_loop_cont.simps [of 0] binary_loop.simps [of "Suc n" for n]
      binary_loop_cont.simps [of "Suc n" for n] split: if_splits)

lemma from_string_cont_same:
  "from_string ops N ks str = Some (Inr r) \<Longrightarrow> from_string_cont (length str) ops N ks str = Some (Inr (r, ''''))"
  "from_string ops N ks str = Some (Inl OverflowError) \<Longrightarrow>
    from_string_cont (length str) ops N ks str = Some (Inl OverflowError)"
  by (auto simp: from_string_def from_string_cont_def string_loop_cont_same binary_loop_cont_same split: if_splits)

text \<open>Text that is no digit leaves the state of the loops unchanged.\<close>

lemma string_loop_cont_stuck:
  assumes "uniform_keys ks L" "take L (drop i str) \<notin> set ks" "i < length str"
  shows "string_loop_cont fuel ops N ks str i xs c = None"
proof (induction fuel arbitrary: c)
  case (Suc fuel)
  then show ?case
    using assms(3) helper_no_digit [OF assms(1,2), of ops N xs c] by (simp add: string_loop_cont.simps [of "Suc fuel"])
qed (use assms(3) in \<open>simp add: string_loop_cont.simps\<close>)

lemma binary_loop_cont_stuck:
  assumes "uniform_keys [z, e] L" "take L (drop i str) \<notin> {z, e}" "i < length str"
  shows "binary_loop_cont fuel N z e str i xs c = None"
proof (induction fuel arbitrary: c)
  case (Suc fuel)
  have "length z = L" "length e = L"
    using assms(1) by (simp_all add: uniform_keys_def)
  then show ?case
    using assms(2,3) Suc.IH by (simp add: binary_loop_cont.simps [of "Suc fuel"])
qed (use assms(3) in \<open>simp add: binary_loop_cont.simps\<close>)

text \<open>The steps on a digit, and the loops on digits followed by other text.\<close>

lemma spell_step:
  assumes "uniform_keys ks L" "d < length ks" "drop i str = spell ks (d # ds) @ rest"
  shows "i < length str" "take L (drop i str) = ks ! d" "drop (i + L) str = spell ks ds @ rest"
proof -
  have L: "length (ks ! d) = L" "0 < L"
    using uniform_length [OF assms(1,2)] assms(1) by (simp_all add: uniform_keys_def)
  have "0 < length (drop i str)"
    unfolding assms(3) using L by simp
  then show "i < length str"
    by simp
  show "take L (drop i str) = ks ! d"
    unfolding assms(3) using L(1) by simp
  show "drop (i + L) str = spell ks ds @ rest"
    using arg_cong [OF assms(3), of "drop L"] L(1) by (simp add: add.commute)
qed

lemma string_loop_cont_diverges:
  fixes xs :: "'a::len word list"
  assumes "big_word ops" "wf_bits N xs" "good_base TYPE('a) N (length ks)" "uniform_keys ks L"
    "\<forall>d \<in> set ds. d < length ks" "no_digit ks L rest" "rest \<noteq> []" "drop i str = spell ks ds @ rest"
    "horner (length ks) (val xs) ds < 2 ^ N"
  shows "string_loop_cont fuel ops N ks str i xs c = None"
  using assms(2,5,8,9)
proof (induction ds arbitrary: fuel i xs c)
  case Nil
  have "i < length str"
    using Nil(3) assms(7) by (cases "i < length str") simp_all
  moreover have "take L (drop i str) \<notin> set ks"
    using Nil(3) assms(6,7) by (simp add: no_digit_def)
  ultimately show ?case
    by (intro string_loop_cont_stuck [OF assms(4)])
next
  case (Cons d ds)
  have d: "d < length ks"
    using Cons.prems(2) by simp
  note step = spell_step [OF assms(4) d Cons.prems(3)]
  show ?case
  proof (cases fuel)
    case (Suc f)
    have "val xs * length ks + d \<le> horner (length ks) (val xs * length ks + d) ds"
      using d by (intro horner_mono) linarith
    then have "\<not> 2 ^ N \<le> val xs * length ks + d"
      using Cons.prems(4) by simp
    then obtain r where r: "push_digit ops N ks xs d = Some r"
      using push_digit_val(1) [OF assms(1) Cons.prems(1) assms(3) d] by auto
    note r' = push_digit_val(2) [OF assms(1) Cons.prems(1) assms(3) d r]
    have "string_loop_cont f ops N ks str (i + L) r c = None"
      using Cons.IH [of r "i + L" f c] r' Cons.prems(2,4) step(3) by simp
    moreover have "from_string_helper ops N ks (key_widths ks) xs str i c = Inr (r, i + L, c)"
      using helper_digit [OF assms(4) d, of i str "spell ks ds @ rest" ops N xs c] Cons.prems(3) r by simp
    ultimately show ?thesis
      using step(1) by (simp add: Suc string_loop_cont.simps [of "Suc f"])
  qed (use step(1) in \<open>simp add: string_loop_cont.simps\<close>)
qed

lemma binary_loop_cont_diverges:
  fixes xs :: "'a::len word list"
  assumes "wf_bits N xs" "0 < N" "uniform_keys [z, e] L" "\<forall>d \<in> set ds. d < 2" "no_digit [z, e] L rest" "rest \<noteq> []"
    "drop i str = spell [z, e] ds @ rest" "horner 2 (val xs) ds < 2 ^ N"
  shows "binary_loop_cont fuel N z e str i xs c = None"
  using assms(1,4,7,8)
proof (induction ds arbitrary: fuel i xs c)
  case Nil
  have "i < length str"
    using Nil(3) assms(6) by (cases "i < length str") simp_all
  moreover have "take L (drop i str) \<notin> {z, e}"
    using Nil(3) assms(5,6) by (simp add: no_digit_def)
  ultimately show ?case
    by (intro binary_loop_cont_stuck [OF assms(3)])
next
  case (Cons d ds)
  have d: "d < length [z, e]" "d = 0 \<or> d = 1"
    using Cons.prems(2) by auto
  note step = spell_step [OF assms(3) d(1) Cons.prems(3)]
  have keys: "length z = L" "length e = L" "z \<noteq> e"
    using assms(3) by (simp_all add: uniform_keys_def)
  show ?case
  proof (cases fuel)
    case (Suc f)
    define r where "r = (if d = 0 then bits_shl_assign N xs 1
      else bits_or_assign N (bits_shl_assign N xs 1) (bits_from_word N 1))"
    have "val xs * 2 + d \<le> horner 2 (val xs * 2 + d) ds"
      by (intro horner_mono) simp
    then have "\<not> 2 ^ N \<le> val xs * 2"
      using Cons.prems(4) by simp
    then have msb: "\<not> msb_is_set N xs"
      using binary_digit_val(1) [OF Cons.prems(1) assms(2)] by simp
    have r: "val r = val xs * 2 + d" "wf_bits N r"
      using binary_digit_val(2) [OF Cons.prems(1) assms(2) msb] d(2) by (auto simp: r_def)
    have "binary_loop_cont f N z e str (i + L) r c = None"
      using Cons.IH [of r "i + L" f c] r Cons.prems(2,4) step(3) by simp
    moreover have "binary_loop_cont fuel N z e str i xs c = binary_loop_cont f N z e str (i + L) r c"
      using d(2) msb
      by (elim disjE) (simp_all add: Suc step(1) step(2) keys keys(3) [symmetric] binary_loop_cont.simps [of "Suc f"] r_def)
    ultimately show ?thesis by simp
  qed (use step(1) in \<open>simp add: binary_loop_cont.simps\<close>)
qed

section \<open>What the parser computes\<close>

text \<open>C36.  Over a table of different digit strings of one width, of a base of at least two that fits the set
  (\<open>base \<le> 2 ^ N\<close>) and is below the bounds of a word and of 64 bits
  (\<open>good_base\<close>), parsing a string of digits, possibly followed by text that starts with no
  digit, gives: an overflow error when the number of the digits does not fit the set, else a value error
  when some text follows, else the set of that number.  The errors come in the order of the text.\<close>

theorem parse_correct:
  fixes ops :: "'a::len word big_ops"
  assumes "big_word ops" "good_base TYPE('a) N (length ks)" "uniform_keys ks L"
    "\<forall>d \<in> set ds. d < length ks" "no_digit ks L rest"
  shows "if 2 ^ N \<le> horner (length ks) 0 ds then from_string ops N ks (spell ks ds @ rest) = Some (Inl OverflowError)
    else if rest \<noteq> [] then from_string ops N ks (spell ks ds @ rest) = Some (Inl ValueError)
    else \<exists>r. from_string ops N ks (spell ks ds @ rest) = Some (Inr r) \<and> wf_bits N r \<and> val r = horner (length ks) 0 ds"
  using from_string_spec [OF assms] unfolding parse_spec_def .

lemma hex_uniform: "uniform_keys hex_digits 1"
  by (simp add: uniform_keys_def hex_digits_def)

lemma parse_correct_witness:
  "\<exists>r. from_string native_big 12 hex_digits ''A3F'' = Some (Inr r) \<and> wf_bits 12 r \<and> val (r :: 8 word list) = 0xA3F"
proof -
  have "spell hex_digits [10, 3, 15] @ [] = ''A3F''"
    by (simp add: hex_digits_def)
  moreover have "length hex_digits = 16"
    by (simp add: hex_digits_def)
  ultimately show ?thesis
    using parse_correct [OF native.big_word_axioms, of 12 hex_digits 1 "[10, 3, 15]" "[]", where 'a = 8] hex_uniform
    by (simp add: good_base_def no_digit_def)
qed

text \<open>The overload with a continuation returns, for some number of turns of its loop, exactly
  when nothing follows the digits or they overflow: at the first character that is no digit it
  stores the rest of the string and goes round for ever.\<close>

theorem continuation_returns_iff:
  fixes ops :: "'a::len word big_ops"
  assumes "big_word ops" "good_base TYPE('a) N (length ks)" "uniform_keys ks L"
    "\<forall>d \<in> set ds. d < length ks" "no_digit ks L rest"
  shows "(\<exists>fuel. from_string_cont fuel ops N ks (spell ks ds @ rest) \<noteq> None) \<longleftrightarrow>
    rest = [] \<or> 2 ^ N \<le> horner (length ks) 0 ds"
proof -
  note spec = from_string_spec [OF assms, unfolded parse_spec_def]
  have N: "0 < N"
    using assms(2) by (cases N) (simp_all add: good_base_def)
  show ?thesis
  proof (cases "rest = [] \<or> 2 ^ N \<le> horner (length ks) 0 ds")
    case True
    then have "from_string_cont (length (spell ks ds @ rest)) ops N ks (spell ks ds @ rest) \<noteq> None"
      using spec from_string_cont_same [of ops N ks "spell ks ds @ rest"] by (auto split: if_splits)
    then show ?thesis
      using True by blast
  next
    case False
    have horner: "horner (length ks) (val (bits_min N :: 'a word list)) ds < 2 ^ N"
      using False bits_min_val(1) [of N, where 'a = 'a] by simp
    have "from_string_cont fuel ops N ks (spell ks ds @ rest) = None" for fuel
    proof (cases "length ks = 2")
      case True
      then obtain z e where ks: "ks = [z, e]"
        by (auto simp: length_Suc_conv numeral_2_eq_2)
      have "binary_loop_cont fuel N z e (spell ks ds @ rest) 0 (bits_min N :: 'a word list) '''' = None"
        using assms(4) horner False unfolding True
        by (intro binary_loop_cont_diverges [OF bits_min_val(2) N assms(3) [unfolded ks] _ assms(5) [unfolded ks]]) (simp_all add: ks)
      then show ?thesis
        using True by (simp add: from_string_cont_def ks)
    next
      case two: False
      have "string_loop_cont fuel ops N ks (spell ks ds @ rest) 0 (bits_min N) '''' = None"
        using False horner by (intro string_loop_cont_diverges [OF assms(1) bits_min_val(2) assms(2-5)]) simp_all
      then show ?thesis
        using two by (simp add: from_string_cont_def)
    qed
    then show ?thesis
      using False by simp
  qed
qed

lemma continuation_returns_iff_witness:
  "\<not> (\<exists>fuel. from_string_cont fuel (native_big :: 8 word big_ops) 12 hex_digits ''A3x'' \<noteq> None)"
proof -
  have "spell hex_digits [10, 3] @ ''x'' = ''A3x''" "no_digit hex_digits 1 ''x''" "length hex_digits = 16"
    by (simp_all add: hex_digits_def no_digit_def)
  then show ?thesis
    using continuation_returns_iff [OF native.big_word_axioms, of 12 hex_digits 1 "[10, 3]" "''x''", where 'a = 8] hex_uniform
    by (simp add: good_base_def)
qed

text \<open>A base that is a power of two with digits wider than the set: the check of the shift
  looks at the set bits of the number read so far, so that the first digit is cut without an error.\<close>

theorem wide_digit_truncates:
  "from_hex native_big 3 ''F'' = Some (Inr [7 :: 8 word]) \<and>
   from_hex native_big 3 ''FF'' = (Some (Inl OverflowError) :: 8 word list res option)"
  by (intro conjI; code_simp)

end
