(* ===== verification/BitPrint.thy ===== *)
theory BitPrint
  imports BitStrings
begin

unbundle bit_operations_syntax

text \<open>
  Printing: \<open>to_string\<close> writes the digits of a set over any list of digit strings, by a scan of the
  bits for a base that is a power of two, and by repeated division otherwise.  The round trips with
  the parser close the theory.
\<close>

section \<open>Printing\<close>

text \<open>The table of binary logarithms, in units of \<open>10 ^ -16\<close>.\<close>

definition log2_table :: "int list" where
  "log2_table = [
   0, 0, 10000000000000000, 15849625007211560,
   20000000000000000, 23219280948873620, 25849625007211560, 28073549220576040,
   30000000000000000, 31699250014423120, 33219280948873620, 34594316186372973,
   35849625007211560, 37004397181410920, 38073549220576040, 39068905956085187,
   40000000000000000, 40874628412503390, 41699250014423120, 42479275134435850,
   43219280948873630, 43923174227787610, 44594316186372970, 45235619560570130,
   45849625007211560, 46438561897747240, 47004397181410920, 47548875021634680,
   48073549220576040, 48579809951275720, 49068905956085190, 49541963103868750,
   50000000000000000, 50443941193584530, 50874628412503390, 51292830169449660,
   51699250014423120, 52094533656289500, 52479275134435850, 52854022188622490,
   53219280948873630, 53575520046180840, 53923174227787610, 54262647547020980,
   54594316186372970, 54918530963296750, 55235619560570130, 55545888516776380,
   55849625007211560, 56147098441152080, 56438561897747240, 56724253419714950,
   57004397181410920, 57279204545631990, 57548875021634680, 57813597135246600,
   58073549220576040, 58328900141647410, 58579809951275720, 58826430493618420,
   59068905956085190, 59307373375628870, 59541963103868750, 59772799234999170]"

text \<open>\<open>size_type(c) + (size_type(c) < c)\<close> for \<open>c = n / log2_table[base]\<close>.  The quotient is exact
  here; the code rounds it to a double, which only matters next to an integer.\<close>

definition digit_count :: "nat \<Rightarrow> nat \<Rightarrow> nat" where
  "digit_count base n = (
     let c = int n * 10 ^ 16; t = log2_table ! base
     in nat (c div t + of_bool (c mod t \<noteq> 0)))"

text \<open>The digit at position \<open>j\<close> for a base \<open>2 ^ nbits\<close>.  The guard of the second word admits an index
  one past the array, where reading is undefined.\<close>

definition extract_digit_power2 :: "nat \<Rightarrow> nat \<Rightarrow> 'a::len word list \<Rightarrow> nat \<Rightarrow> nat option" where
  "extract_digit_power2 N nbits xs j = (
     let msk = word_of_nat (2 ^ nbits - 1);
         idx = j * nbits div LENGTH('a);
         bit = j * nbits mod LENGTH('a);
         v = drop_bit bit (xs ! idx) AND msk
     in if LENGTH('a) < bit + nbits \<and> idx + 1 \<le> array_size TYPE('a) N
        then if idx + 1 < array_size TYPE('a) N
          then let consumed = LENGTH('a) - bit;
                   next_v = xs ! (idx + 1) AND drop_bit consumed msk
            in Some (unat (v + push_bit consumed next_v))
          else None
        else Some (unat v))"

text \<open>The digit by division: the digit, and the new quotient and remainder.\<close>

definition extract_digit ::
  "'a::len word big_ops \<Rightarrow> bool \<Rightarrow> nat \<Rightarrow> nat \<Rightarrow> 'a word list \<Rightarrow> 'a word list \<Rightarrow>
   (nat \<times> 'a word list \<times> 'a word list) res" where
  "extract_digit ops debug N base q r =
     bind_res (bits_divmod_out ops debug N q (bits_from_word N (word_of_nat base)) q r)
       (\<lambda>p. Inr (unat (snd p ! 0), p))"

fun extract_digits ::
  "nat \<Rightarrow> 'a::len word big_ops \<Rightarrow> bool \<Rightarrow> nat \<Rightarrow> nat \<Rightarrow> 'a word list \<Rightarrow> 'a word list \<Rightarrow> nat list res" where
  "extract_digits 0 ops debug N base q r = Inr []"
| "extract_digits (Suc n) ops debug N base q r =
     bind_res (extract_digit ops debug N base q r) (\<lambda>(d, q, r).
       bind_res (extract_digits n ops debug N base q r) (\<lambda>ds. Inr (d # ds)))"

fun all_some :: "'b option list \<Rightarrow> 'b list option" where
  "all_some [] = Some []"
| "all_some (None # xs) = None"
| "all_some (Some x # xs) = map_option ((#) x) (all_some xs)"

text \<open>The digits from the least significant one, for every position of the widest value, and the
  number of those that are printed.\<close>

definition string_parts ::
  "'a::len word big_ops \<Rightarrow> bool \<Rightarrow> nat \<Rightarrow> string list \<Rightarrow> 'a word list \<Rightarrow> (string list \<times> nat) res" where
  "string_parts ops debug N ks xs = (
     let base = length ks;
         ceil = digit_count base N;
         msb = (case last_one N xs of None \<Rightarrow> 0 | Some t \<Rightarrow> t);
         count = digit_count base (msb + 1);
         digits = (if power2_base ks
           then of_option (all_some (map (extract_digit_power2 N (bit_width (base - 1)) xs) [0..<ceil]))
           else extract_digits ceil ops debug N base xs (bits_min N))
     in bind_res digits (\<lambda>ds. Inr (map ((!) ks) ds, count)))"

definition to_string ::
  "'a::len word big_ops \<Rightarrow> bool \<Rightarrow> nat \<Rightarrow> string list \<Rightarrow> 'a word list \<Rightarrow> string res" where
  "to_string ops debug N ks xs =
     bind_res (string_parts ops debug N ks xs) (\<lambda>(parts, count). Inr (concat (map ((!) parts) (rev [0..<count]))))"

definition to_binary :: "'a::len word big_ops \<Rightarrow> bool \<Rightarrow> nat \<Rightarrow> 'a word list \<Rightarrow> string res" where
  "to_binary ops debug N xs = to_string ops debug N binary_digits xs"

definition to_octal :: "'a::len word big_ops \<Rightarrow> bool \<Rightarrow> nat \<Rightarrow> 'a word list \<Rightarrow> string res" where
  "to_octal ops debug N xs = to_string ops debug N octal_digits xs"

definition to_decimal :: "'a::len word big_ops \<Rightarrow> bool \<Rightarrow> nat \<Rightarrow> 'a word list \<Rightarrow> string res" where
  "to_decimal ops debug N xs = to_string ops debug N decimal_digits xs"

definition to_hex :: "'a::len word big_ops \<Rightarrow> bool \<Rightarrow> nat \<Rightarrow> 'a word list \<Rightarrow> string res" where
  "to_hex ops debug N xs = to_string ops debug N hex_digits xs"


section \<open>Digits of a number\<close>

definition digits_of :: "nat \<Rightarrow> nat \<Rightarrow> nat \<Rightarrow> nat list" where
  "digits_of b c v = map (\<lambda>j. v div b ^ j mod b) [0..<c]"

lemma length_digits_of [simp]: "length (digits_of b c v) = c"
  by (simp add: digits_of_def)

lemma digits_of_Suc: "digits_of b (Suc c) v = v mod b # digits_of b c (v div b)"
  unfolding digits_of_def upt_conv_Cons [OF zero_less_Suc] map_Suc_upt [symmetric]
  by (simp add: div_mult2_eq)

lemma digits_of_less: "0 < b \<Longrightarrow> d \<in> set (digits_of b c v) \<Longrightarrow> d < b"
  by (auto simp: digits_of_def)

lemma horner_shift: "horner b a ds = a * b ^ length ds + horner b 0 ds"
proof (induction ds arbitrary: a)
  case (Cons d ds)
  show ?case
    using Cons.IH [of "a * b + d"] Cons.IH [of d] by (simp add: algebra_simps)
qed simp

lemma horner_digits_of: "horner b 0 (rev (digits_of b c v)) = v mod b ^ c"
proof (induction c)
  case (Suc c)
  have "rev (digits_of b (Suc c) v) = (v div b ^ c mod b) # rev (digits_of b c v)"
    by (simp add: digits_of_def)
  then show ?case
    using horner_shift [of b "v div b ^ c mod b" "rev (digits_of b c v)"] Suc.IH mod_mult2_eq [of v "b ^ c" b]
    by (simp add: mult.commute)
qed (simp add: digits_of_def)

text \<open>Parsing the digits of a number that has enough of them gives the set of that number back.\<close>

lemma from_string_digits_of:
  fixes xs :: "'a::len word list"
  assumes "big_word ops" "good_base TYPE('a) N (length ks)" "uniform_keys ks L" "wf_bits N xs" "val xs < length ks ^ c"
  shows "from_string ops N ks (spell ks (rev (digits_of (length ks) c (val xs)))) = Some (Inr xs)"
proof -
  have "0 < length ks"
    using assms(2) unfolding good_base_def by linarith
  then have "\<forall>d \<in> set (rev (digits_of (length ks) c (val xs))). d < length ks"
    using digits_of_less by simp
  moreover have "val xs < 2 ^ N"
    using assms(4) by (simp add: wf_bits_def)
  moreover have "horner (length ks) 0 (rev (digits_of (length ks) c (val xs))) = val xs"
    using assms(5) by (simp add: horner_digits_of)
  ultimately obtain r where "from_string ops N ks (spell ks (rev (digits_of (length ks) c (val xs)))) = Some (Inr r)"
    "wf_bits N r" "val r = val xs"
    using from_string_spec [OF assms(1-3), of "rev (digits_of (length ks) c (val xs))" "[]"]
    by (auto simp: parse_spec_def no_digit_def)
  then show ?thesis
    using wf_bits_eq [OF _ assms(4), of r] by simp
qed

section \<open>The printed parts\<close>

lemma all_some_eq: "all_some xs = (if None \<in> set xs then None else Some (map the xs))"
  by (induction xs rule: all_some.induct) auto

text \<open>The digits that are printed, out of those of the widest value.\<close>

lemma concat_parts:
  assumes "c \<le> n"
  shows "concat (map ((!) (map ((!) ks) (digits_of b n v))) (rev [0..<c])) = spell ks (rev (digits_of b c v))"
proof -
  have "map ((!) (map ((!) ks) (digits_of b n v))) [0..<c] = map ((!) ks) (digits_of b c v)"
    using assms by (simp add: digits_of_def)
  then show ?thesis
    by (simp only: spell_def rev_map [symmetric])
qed

lemma to_string_parts:
  assumes "string_parts ops debug N ks xs = Inr (map ((!) ks) (digits_of b n v), c)" "c \<le> n"
  shows "to_string ops debug N ks xs = Inr (spell ks (rev (digits_of b c v)))"
  by (simp only: to_string_def assms(1) bind_res_simps prod.case concat_parts [OF assms(2)])

definition top_bit :: "nat \<Rightarrow> 'a::len word list \<Rightarrow> nat" where
  "top_bit N xs = (case last_one N xs of None \<Rightarrow> 0 | Some t \<Rightarrow> t)"

lemma top_bit_bounds:
  assumes "wf_bits N xs" "0 < N"
  shows "val xs < 2 ^ Suc (top_bit N xs)" "val xs \<noteq> 0 \<Longrightarrow> 2 ^ top_bit N xs \<le> val xs" "top_bit N xs < N"
proof -
  have zero: "val xs = 0" if "last_one N xs = None"
    using that last_one_eq [OF assms(1)] by (simp split: if_splits)
  note top = last_one_bounds [OF assms(1)]
  show "val xs < 2 ^ Suc (top_bit N xs)" "val xs \<noteq> 0 \<Longrightarrow> 2 ^ top_bit N xs \<le> val xs" "top_bit N xs < N"
    using zero top assms(2) by (auto simp: top_bit_def split: option.split)
qed

subsection \<open>Bases that are powers of two\<close>

lemma log2_table_power2: "0 < k \<Longrightarrow> k \<le> 5 \<Longrightarrow> log2_table ! (2 ^ k) = int k * 10 ^ 16"
proof -
  assume "0 < k" "k \<le> 5"
  then have "k = 1 \<or> k = 2 \<or> k = 3 \<or> k = 4 \<or> k = 5"
    by arith
  then show ?thesis
    by (elim disjE) (simp_all add: log2_table_def)
qed

definition ceil_div :: "nat \<Rightarrow> nat \<Rightarrow> nat" where
  "ceil_div n k = n div k + of_bool (n mod k \<noteq> 0)"

lemma digit_count_power2:
  assumes "0 < k" "k \<le> 5"
  shows "digit_count (2 ^ k) n = ceil_div n k"
proof -
  have "int n * 10 ^ 16 div (int k * 10 ^ 16) = int n div int k"
    "int n * 10 ^ 16 mod (int k * 10 ^ 16) = int n mod int k * 10 ^ 16"
    by (simp_all add: mult_mod_left)
  moreover have "int n div int k = int (n div k)" "int n mod int k = int (n mod k)"
    by (simp_all add: zdiv_int zmod_int)
  ultimately show ?thesis
    by (auto simp: digit_count_def Let_def log2_table_power2 [OF assms] ceil_div_def nat_add_distrib)
qed

lemma ceil_div_le_iff: "0 < k \<Longrightarrow> ceil_div n k \<le> c \<longleftrightarrow> n \<le> c * k"
proof -
  assume k: "0 < k"
  have n: "n = n div k * k + n mod k" "n mod k < k"
    using k by simp_all
  show ?thesis
  proof (cases "n mod k = 0")
    case True
    then have "n = n div k * k"
      using n by simp
    then show ?thesis
      using True k by (metis add.right_neutral ceil_div_def mult_le_cancel2 of_bool_eq(1))
  next
    case False
    have "n \<le> c * k \<longleftrightarrow> n div k < c"
      using False n k by (metis div_less_iff_less_mult le_less mod_mult_self2_is_0 mult.commute)
    then show ?thesis
      using False by (auto simp: ceil_div_def)
  qed
qed

lemma extract_power2_val:
  fixes xs :: "'a::len word list"
  assumes "wf_bits N xs" "0 < k" "k \<le> LENGTH('a)" "j * k < N"
  shows "extract_digit_power2 N k xs j =
    (if LENGTH('a) * array_size TYPE('a) N < j * k + k then None else Some (val xs div (2 ^ k) ^ j mod 2 ^ k))"
proof -
  let ?n = "array_size TYPE('a) N" and ?L = "LENGTH('a)"
  define idx bi where "idx = j * k div ?L" and "bi = j * k mod ?L"
  have jk: "j * k = ?L * idx + bi" "bi < ?L"
    by (simp_all add: idx_def bi_def)
  have idx: "idx < ?n"
    unfolding idx_def using assms(4) by (rule index_less)
  have len: "length xs = ?n"
    by (rule wf_bits_length [OF assms(1)])
  have val: "bit (val xs div (2 ^ k) ^ j mod 2 ^ k) i \<longleftrightarrow> i < k \<and> bit (val xs) (?L * idx + (bi + i))" for i
    using jk(1)
    by (simp add: power_mult [symmetric] mult.commute [of k] drop_bit_eq_div [symmetric] take_bit_eq_mod [symmetric]
        bit_take_bit_iff bit_drop_bit_eq add.assoc)
  show ?thesis
  proof (cases "?L < bi + k")
    case False
    have "?L * Suc idx \<le> ?L * ?n"
      using idx by (intro mult_le_mono2) simp
    then have "\<not> ?L * ?n < j * k + k"
      using jk False by (simp add: algebra_simps)
    moreover have "unat (drop_bit bi (xs ! idx) AND mask k) = val xs div (2 ^ k) ^ j mod 2 ^ k"
    proof (rule bit_eqI)
      fix i
      show "bit (unat (drop_bit bi (xs ! idx) AND mask k)) i \<longleftrightarrow> bit (val xs div (2 ^ k) ^ j mod 2 ^ k) i"
      proof (cases "i < k")
        case True
        then have "bi + i < ?L"
          using False by linarith
        then show ?thesis
          using True idx assms(3) unfolding val
          by (simp add: bit_val_index len bit_unsigned_iff bit_and_iff bit_mask_iff bit_drop_bit_eq)
      next
        case False
        then show ?thesis
          unfolding val by (simp add: bit_unsigned_iff bit_and_iff bit_mask_iff)
      qed
    qed
    ultimately show ?thesis
      using False by (simp add: extract_digit_power2_def mask_eq_exp_minus_1 [symmetric] idx_def [symmetric] bi_def [symmetric] Let_def)
  next
    case True
    show ?thesis
    proof (cases "idx + 1 < ?n")
      case False
      then have "?n = Suc idx"
        using idx by simp
      then have "?L * ?n < j * k + k"
        using True jk by simp
      then show ?thesis
        using True False idx by (simp add: extract_digit_power2_def idx_def [symmetric] bi_def [symmetric] Let_def)
    next
      case idx2: True
      define lo hi where "lo = drop_bit bi (xs ! idx) AND mask k"
        and "hi = push_bit (?L - bi) (xs ! (idx + 1) AND drop_bit (?L - bi) (mask k))"
      have "?L * (idx + 2) \<le> ?L * ?n"
        using idx2 by (intro mult_le_mono2) simp
      then have fits: "\<not> ?L * ?n < j * k + k"
        using jk assms(3) by (simp add: algebra_simps)
      have lo: "bit lo i \<longleftrightarrow> i < k \<and> bi + i < ?L \<and> bit (xs ! idx) (bi + i)" for i
        using bit_imp_le_length [of "xs ! idx" "bi + i"] assms(3)
        by (auto simp: lo_def bit_and_iff bit_mask_iff bit_drop_bit_eq)
      have hi: "bit hi i \<longleftrightarrow> i < k \<and> ?L \<le> bi + i \<and> bit (xs ! (idx + 1)) (bi + i - ?L)" for i
        using jk(2) assms(3) by (auto simp: hi_def bit_and_iff bit_mask_iff bit_drop_bit_eq bit_push_bit_iff algebra_simps)
      have "lo + hi = lo OR hi"
        by (rule disjunctive_add_eq_or) (auto simp: bit_eq_iff bit_and_iff lo hi)
      moreover have "unat (lo OR hi) = val xs div (2 ^ k) ^ j mod 2 ^ k"
      proof (rule bit_eqI)
        fix i
        show "bit (unat (lo OR hi)) i \<longleftrightarrow> bit (val xs div (2 ^ k) ^ j mod 2 ^ k) i"
        proof (cases "bi + i < ?L")
          case True
          then show ?thesis
            using idx assms(3) unfolding val by (auto simp: bit_val_index len bit_unsigned_iff bit_or_iff lo hi)
        next
          case False
          show ?thesis
          proof (cases "i < k")
            case True
            have "?L * idx + (bi + i) = ?L * (idx + 1) + (bi + i - ?L)"
              using False by simp
            moreover have "bi + i - ?L < ?L"
              using True jk(2) assms(3) by linarith
            ultimately show ?thesis
              using False True idx2 assms(3) unfolding val
              by (simp only: bit_val_index) (simp add: len bit_unsigned_iff bit_or_iff lo hi)
          qed (simp add: val bit_unsigned_iff bit_or_iff lo hi)
        qed
      qed
      ultimately show ?thesis
        using True idx2 fits
        by (simp add: extract_digit_power2_def mask_eq_exp_minus_1 [symmetric] idx_def [symmetric] bi_def [symmetric] Let_def lo_def hi_def)
    qed
  qed
qed

lemma power2_baseI: "length ks = 2 ^ k \<Longrightarrow> k \<le> 5 \<Longrightarrow> power2_base ks"
proof -
  assume ks: "length ks = 2 ^ k" and k: "k \<le> 5"
  have "(2 :: nat) ^ k \<le> 2 ^ 5"
    using k by (intro power_increasing) simp_all
  then have "length ks < 2 ^ 64"
    by (simp add: ks)
  then show ?thesis
    using power2_base_iff [of ks] ks by auto
qed

lemma print_power2_correct:
  fixes xs :: "'a::len word list"
  assumes "wf_bits N xs" "0 < N" "0 < k" "k \<le> 5" "k \<le> LENGTH('a)" "length ks = 2 ^ k"
  shows "to_string ops debug N ks xs =
    (if LENGTH('a) * array_size TYPE('a) N < ceil_div N k * k then Inl Undefined
     else Inr (spell ks (rev (digits_of (2 ^ k) (ceil_div (Suc (top_bit N xs)) k) (val xs)))))"
proof -
  let ?ds = "map (extract_digit_power2 N k xs) [0..<ceil_div N k]"
  have in_range: "j * k < N" if "j < ceil_div N k" for j
    using that ceil_div_le_iff [OF assms(3), of N j] by simp
  note digit = extract_power2_val [OF assms(1,3,5) in_range]
  have width: "bit_width (2 ^ k - Suc 0) = k"
    using bit_width_mask [of k] by simp
  have parts: "string_parts ops debug N ks xs =
      bind_res (of_option (all_some ?ds)) (\<lambda>ds. Inr (map ((!) ks) ds, ceil_div (Suc (top_bit N xs)) k))"
    using power2_baseI [OF assms(6,4)]
    by (simp add: string_parts_def Let_def width top_bit_def [symmetric] assms(6) digit_count_power2 [OF assms(3,4)])
  have pos: "0 < ceil_div N k"
    using ceil_div_le_iff [OF assms(3), of N 0] assms(2) by simp
  show ?thesis
  proof (cases "LENGTH('a) * array_size TYPE('a) N < ceil_div N k * k")
    case True
    have "ceil_div N k = Suc (ceil_div N k - 1)"
      using pos by simp
    then have "ceil_div N k * k = (ceil_div N k - 1) * k + k"
      by (metis mult_Suc add.commute)
    then have "extract_digit_power2 N k xs (ceil_div N k - 1) = None"
      using digit [of "ceil_div N k - 1"] True pos by simp
    then have "None \<in> set ?ds"
      using pos by (auto simp: image_iff intro!: bexI [of _ "ceil_div N k - 1"])
    then show ?thesis
      using True by (simp add: to_string_def parts all_some_eq)
  next
    case False
    have "extract_digit_power2 N k xs j = Some (val xs div (2 ^ k) ^ j mod 2 ^ k)" if "j < ceil_div N k" for j
    proof -
      have "Suc j * k \<le> ceil_div N k * k"
        using that by (intro mult_le_mono1) simp
      then show ?thesis
        using digit [OF that] False by simp
    qed
    then have ds: "all_some ?ds = Some (digits_of (2 ^ k) (ceil_div N k) (val xs))"
      by (auto simp: all_some_eq digits_of_def)
    have "ceil_div (Suc (top_bit N xs)) k \<le> ceil_div N k"
      using top_bit_bounds(3) [OF assms(1,2)] ceil_div_le_iff [OF assms(3)] le_refl [of "ceil_div N k"]
      by (meson Suc_leI le_trans)
    then show ?thesis
      using False by (subst to_string_parts [where n = "ceil_div N k"]) (simp_all add: parts ds)
  qed
qed

text \<open>Every value has enough digits, and no leading zero.\<close>

lemma power2_digits_enough:
  assumes "wf_bits N xs" "0 < N" "0 < k"
  shows "val xs < (2 ^ k) ^ ceil_div (Suc (top_bit N xs)) k"
proof -
  let ?c = "ceil_div (Suc (top_bit N xs)) k"
  have "Suc (top_bit N xs) \<le> ?c * k"
    using ceil_div_le_iff [OF assms(3)] by blast
  then have "(2 :: nat) ^ Suc (top_bit N xs) \<le> 2 ^ (?c * k)"
    by (intro power_increasing) simp_all
  then show ?thesis
    using top_bit_bounds(1) [OF assms(1,2)] by (simp add: power_mult [symmetric] mult.commute)
qed

lemma power2_leading_digit:
  assumes "wf_bits N xs" "0 < N" "0 < k" "val xs \<noteq> 0"
  shows "hd (rev (digits_of (2 ^ k) (ceil_div (Suc (top_bit N xs)) k) (val xs))) \<noteq> 0"
proof -
  define c where "c = ceil_div (Suc (top_bit N xs)) k"
  have "\<not> c \<le> 0"
    unfolding c_def ceil_div_le_iff [OF assms(3)] by simp
  then obtain m where m: "c = Suc m"
    by (cases c) simp_all
  have "\<not> c \<le> m"
    by (simp add: m)
  then have "m * k < Suc (top_bit N xs)"
    unfolding c_def by (simp add: ceil_div_le_iff [OF assms(3)])
  then have "(2 :: nat) ^ (m * k) \<le> 2 ^ top_bit N xs"
    by (intro power_increasing) simp_all
  moreover have "((2 :: nat) ^ k) ^ m = 2 ^ (m * k)"
    by (simp add: power_mult [symmetric] mult.commute)
  ultimately have low: "(2 ^ k) ^ m \<le> val xs"
    using top_bit_bounds(2) [OF assms(1,2,4)] by linarith
  have "val xs < (2 ^ k) ^ Suc m"
    using power2_digits_enough [OF assms(1-3)] by (simp only: c_def [symmetric] m)
  then have "val xs div (2 ^ k) ^ m < 2 ^ k"
    by (simp add: less_mult_imp_div_less mult.commute)
  moreover have "0 < val xs div (2 ^ k) ^ m"
    using low by (simp add: div_greater_zero_iff)
  ultimately show ?thesis
    by (simp add: c_def [symmetric] m digits_of_def)
qed

subsection \<open>Other bases\<close>

text \<open>Within one word, division yields the digits of every base that fits.\<close>

lemma extract_digits_val:
  fixes q r :: "'a::len word list"
  assumes "array_size TYPE('a) N = 1" "0 < b" "b < 2 ^ N" "b < 2 ^ LENGTH('a)"
    "wf_bits N q" "length r = 1"
  shows "extract_digits c ops debug N b q r = Inr (digits_of b c (val q))"
  using assms(5,6)
proof (induction c arbitrary: q r)
  case (Suc c)
  have N: "0 < N"
    using assms(1) by (cases N) (simp_all add: array_size_def)
  have b: "val (bits_from_word N (word_of_nat b :: 'a word)) = b" "wf_bits N (bits_from_word N (word_of_nat b :: 'a word))"
    using bits_from_word_val [OF N, of "word_of_nat b :: 'a word"] assms(3,4) by (simp_all add: unat_of_nat)
  have len: "length q = array_size TYPE('a) N" "length r = array_size TYPE('a) N"
    using Suc.prems wf_bits_length [OF Suc.prems(1)] assms(1) by simp_all
  obtain q' r' where step: "bits_divmod_out ops debug N q (bits_from_word N (word_of_nat b)) q r = Inr (q', r')"
    "val q' = val q div b" "val r' = val q mod b" "length q' = 1" "length r' = 1"
    using divmod_simple [OF Suc.prems(1) b(2) _ len, of ops debug] b(1) assms(1,2) by auto
  have "val q' < 2 ^ N"
    using Suc.prems(1) step(2) by (metis div_le_dividend le_less_trans wf_bits_def)
  then have wf: "wf_bits N q'"
    using step(4) assms(1) by (simp add: wf_bits_def)
  have digit: "unat (r' ! 0) = val q mod b"
    using step(3,5) by (cases r') simp_all
  show ?case
    using Suc.IH [OF wf step(5)] step(2) digit by (simp add: extract_digit_def step(1) digits_of_Suc)
qed (simp add: digits_of_def)

text \<open>The decimal digits suffice: \<open>485 / 146\<close> is just below \<open>log 2 10\<close>.\<close>

lemma decimal_count_iff: "digit_count 10 n \<le> c \<longleftrightarrow> int n * 10000000000000000 \<le> int c * 33219280948873620"
proof -
  define x where "x = int n * 10000000000000000"
  define q r where "q = x div 33219280948873620" and "r = x mod 33219280948873620"
  have x: "x = q * 33219280948873620 + r" "0 \<le> r" "r < 33219280948873620"
    by (simp_all add: q_def r_def)
  have "digit_count 10 n = nat (q + of_bool (r \<noteq> 0))"
    by (simp add: digit_count_def Let_def log2_table_def q_def r_def x_def)
  then have "digit_count 10 n \<le> c \<longleftrightarrow> q + of_bool (r \<noteq> 0) \<le> int c"
    by (simp only: nat_le_iff)
  also have "\<dots> \<longleftrightarrow> x \<le> int c * 33219280948873620"
  proof (cases "r = 0")
    case False
    then show ?thesis
      using x by (simp only: not_False_eq_True of_bool_eq) (intro iffI; linarith)
  qed (simp add: x(1))
  finally show ?thesis
    by (simp only: x_def)
qed

lemma decimal_digits_enough:
  assumes "n \<le> 2048"
  shows "(2 :: nat) ^ n \<le> 10 ^ digit_count 10 n"
proof -
  define m where "m = digit_count 10 n"
  have "int n * 10000000000000000 \<le> int m * 33219280948873620"
    using decimal_count_iff [of n m] by (simp add: m_def)
  then have "146 * n \<le> 485 * m"
    using assms by linarith
  then have "(2 :: nat) ^ (146 * n) \<le> 2 ^ (485 * m)"
    by (intro power_increasing) simp_all
  also have "(2 :: nat) ^ (485 * m) = (2 ^ 485) ^ m"
    by (rule power_mult)
  also have "\<dots> \<le> (10 ^ 146) ^ m"
    by (intro power_mono) simp_all
  finally have "((2 :: nat) ^ n) ^ 146 \<le> (10 ^ m) ^ 146"
    by (simp only: power_mult [symmetric] mult.commute)
  then show ?thesis
    unfolding m_def by (rule power_le_imp_le_base [of _ 145, simplified]) simp
qed

section \<open>What printing computes\<close>

text \<open>Printing over a base that is a power of two reads past the array when the digits of
  the widest value need more bits than the array has; otherwise it writes the digits of the value,
  and no leading zero unless the value is zero.\<close>

theorem print_power2:
  fixes xs :: "'a::len word list"
  assumes "wf_bits N xs" "0 < N" "0 < k" "k \<le> 5" "k \<le> LENGTH('a)" "length ks = 2 ^ k"
  shows "if LENGTH('a) * array_size TYPE('a) N < ceil_div N k * k
    then to_string ops debug N ks xs = Inl Undefined
    else \<exists>ds. to_string ops debug N ks xs = Inr (spell ks ds) \<and> horner (2 ^ k) 0 ds = val xs \<and>
      (\<forall>d \<in> set ds. d < 2 ^ k) \<and> (val xs \<noteq> 0 \<longrightarrow> hd ds \<noteq> 0)"
proof -
  let ?ds = "rev (digits_of (2 ^ k) (ceil_div (Suc (top_bit N xs)) k) (val xs))"
  have "horner (2 ^ k) 0 ?ds = val xs"
    using power2_digits_enough [OF assms(1-3)] by (simp add: horner_digits_of)
  moreover have "\<forall>d \<in> set ?ds. d < 2 ^ k"
    using digits_of_less [of "2 ^ k"] by simp
  moreover have "val xs \<noteq> 0 \<longrightarrow> hd ?ds \<noteq> 0"
    using power2_leading_digit [OF assms(1-3)] by blast
  ultimately show ?thesis
    by (auto simp: print_power2_correct [OF assms])
qed

lemma print_power2_witness:
  "to_string native_big True 8 octal_digits [0xFF :: 8 word] = Inl Undefined \<and>
   (\<exists>ds. to_string native_big True 15 octal_digits [0xFF, 0 :: 8 word] = Inr (spell octal_digits ds) \<and>
     horner 8 0 ds = 0xFF \<and> (\<forall>d \<in> set ds. d < 8) \<and> (val [0xFF, 0 :: 8 word] \<noteq> 0 \<longrightarrow> hd ds \<noteq> 0))"
proof (intro conjI)
  have "LENGTH(8) * array_size TYPE(8) 8 < ceil_div 8 3 * 3"
    by (simp add: array_size_def ceil_div_def)
  then show "to_string native_big True 8 octal_digits [0xFF :: 8 word] = Inl Undefined"
    using print_power2 [of 8 "[0xFF :: 8 word]" 3 octal_digits native_big True]
    by (simp add: wf_bits_def array_size_def octal_digits_def)
  have "\<not> LENGTH(8) * array_size TYPE(8) 15 < ceil_div 15 3 * 3"
    by (simp add: array_size_def ceil_div_def)
  then show "\<exists>ds. to_string native_big True 15 octal_digits [0xFF, 0 :: 8 word] = Inr (spell octal_digits ds) \<and>
     horner 8 0 ds = 0xFF \<and> (\<forall>d \<in> set ds. d < 8) \<and> (val [0xFF, 0 :: 8 word] \<noteq> 0 \<longrightarrow> hd ds \<noteq> 0)"
    using print_power2 [of 15 "[0xFF, 0 :: 8 word]" 3 octal_digits native_big True]
    by (simp add: wf_bits_def array_size_def octal_digits_def)
qed

lemma power2_roundtrip:
  fixes xs :: "'a::len word list"
  assumes "big_word ops" "wf_bits N xs" "uniform_keys ks L" "length ks = 2 ^ k" "0 < k" "k \<le> 5" "k \<le> N"
    "k < LENGTH('a)" "k dvd LENGTH('a)"
  shows "\<exists>s. to_string ops' debug N ks xs = Inr s \<and> from_string ops N ks s = Some (Inr xs)"
proof -
  have N: "0 < N"
    using assms(5,7) by linarith
  obtain m where m: "LENGTH('a) * array_size TYPE('a) N = m * k"
    using assms(9) by (metis dvd_def dvd_mult2 mult.commute)
  have "N \<le> LENGTH('a) * array_size TYPE('a) N"
    by (rule array_size_bounds)
  then have "ceil_div N k \<le> m"
    using assms(5) by (simp add: ceil_div_le_iff m)
  then have fits: "\<not> LENGTH('a) * array_size TYPE('a) N < ceil_div N k * k"
    by (simp add: m)
  have "(2 :: nat) ^ k \<le> 2 ^ N" "(2 :: nat) ^ k < 2 ^ LENGTH('a)" "(2 :: nat) ^ k < 2 ^ 64" "(2 :: nat) ^ 1 \<le> 2 ^ k"
    using assms(5-8) by (intro power_increasing power_strict_increasing; simp)+
  then have base: "good_base TYPE('a) N (length ks)"
    by (simp add: good_base_def assms(4))
  have "from_string ops N ks (spell ks (rev (digits_of (2 ^ k) (ceil_div (Suc (top_bit N xs)) k) (val xs)))) = Some (Inr xs)"
    using from_string_digits_of [OF assms(1) base assms(3,2)] power2_digits_enough [OF assms(2) N assms(5)]
    by (simp only: assms(4))
  then show ?thesis
    using print_power2_correct [OF assms(2) N assms(5,6) _ assms(4)] assms(8) fits by simp
qed

text \<open>The round trip: what \<open>to_binary\<close> and \<open>to_hex\<close> print, the parsers read back as the same
  set, for words of a multiple of four bits.\<close>

theorem binary_hex_roundtrip:
  fixes xs :: "'a::len word list"
  assumes "big_word ops" "wf_bits N xs" "4 \<le> N" "4 < LENGTH('a)" "4 dvd LENGTH('a)"
  shows "(\<exists>s. to_binary ops debug N xs = Inr s \<and> from_binary ops N s = Some (Inr xs)) \<and>
    (\<exists>s. to_hex ops debug N xs = Inr s \<and> from_hex ops N s = Some (Inr xs))"
proof
  have "uniform_keys binary_digits 1"
    by (simp add: uniform_keys_def binary_digits_def)
  then show "\<exists>s. to_binary ops debug N xs = Inr s \<and> from_binary ops N s = Some (Inr xs)"
    unfolding to_binary_def from_binary_def using assms
    by (intro power2_roundtrip [of _ _ _ _ _ 1]) (simp_all add: binary_digits_def)
  show "\<exists>s. to_hex ops debug N xs = Inr s \<and> from_hex ops N s = Some (Inr xs)"
    unfolding to_hex_def from_hex_def using assms hex_uniform
    by (intro power2_roundtrip [of _ _ _ _ _ 4]) (simp_all add: hex_digits_def)
qed

lemma binary_hex_roundtrip_witness:
  "\<exists>s. to_hex native_big True 100 [0xDEADBEEF, 0xF :: 64 word] = Inr s \<and>
     from_hex native_big 100 s = Some (Inr [0xDEADBEEF, 0xF :: 64 word])"
  using binary_hex_roundtrip [OF native.big_word_axioms, of 100 "[0xDEADBEEF, 0xF :: 64 word]" True]
  by (simp add: wf_bits_def array_size_def)

lemma decimal_roundtrip_correct:
  fixes xs :: "'a::len word list"
  assumes "big_word ops" "wf_bits N xs" "array_size TYPE('a) N = 1" "4 \<le> N" "4 \<le> LENGTH('a)" "N \<le> 2048"
  shows "\<exists>s. to_decimal ops debug N xs = Inr s \<and> from_decimal ops N s = Some (Inr xs)"
proof -
  have N: "0 < N"
    using assms(4) by linarith
  have ten: "length decimal_digits = 10" "uniform_keys decimal_digits 1"
    by (simp_all add: decimal_digits_def uniform_keys_def)
  have "(2 :: nat) ^ 4 \<le> 2 ^ N" "(2 :: nat) ^ 4 \<le> 2 ^ LENGTH('a)"
    using assms(4,5) by (intro power_increasing; simp)+
  then have base: "good_base TYPE('a) N (length decimal_digits)" "10 < (2 :: nat) ^ N" "10 < (2 :: nat) ^ LENGTH('a)"
    by (simp_all add: good_base_def ten)
  have "\<not> power2_base decimal_digits"
    by (simp add: power2_base_def decimal_digits_def is_power2_def)
  moreover have "length (bits_min N :: 'a word list) = 1"
    using wf_bits_length [OF bits_min_val(2), of N, where 'a = 'a] assms(3) by simp
  ultimately have parts: "string_parts ops debug N decimal_digits xs =
      Inr (map ((!) decimal_digits) (digits_of 10 (digit_count 10 N) (val xs)), digit_count 10 (Suc (top_bit N xs)))"
    using extract_digits_val [OF assms(3) _ base(2,3) assms(2)]
    by (simp add: string_parts_def Let_def top_bit_def [symmetric] ten)
  have top: "Suc (top_bit N xs) \<le> N"
    using top_bit_bounds(3) [OF assms(2) N] by simp
  have "int (Suc (top_bit N xs)) * 10000000000000000 \<le> int N * 10000000000000000"
    using top by simp
  also have "\<dots> \<le> int (digit_count 10 N) * 33219280948873620"
    using decimal_count_iff [of N "digit_count 10 N"] by blast
  finally have count: "digit_count 10 (Suc (top_bit N xs)) \<le> digit_count 10 N"
    by (simp only: decimal_count_iff)
  have "val xs < 2 ^ Suc (top_bit N xs)"
    by (rule top_bit_bounds(1) [OF assms(2) N])
  also have "\<dots> \<le> 10 ^ digit_count 10 (Suc (top_bit N xs))"
    using top assms(6) by (intro decimal_digits_enough) linarith
  finally have "from_string ops N decimal_digits (spell decimal_digits (rev (digits_of 10 (digit_count 10 (Suc (top_bit N xs))) (val xs)))) = Some (Inr xs)"
    using from_string_digits_of [OF assms(1) base(1) ten(2) assms(2)] by (simp only: ten(1))
  then show ?thesis
    using to_string_parts [OF parts count] by (simp add: to_decimal_def from_decimal_def)
qed

text \<open>C37.  The round trip in base ten, for sets of one word and 4 to 2048 bits: all the digits are there.\<close>

theorem decimal_roundtrip:
  fixes xs :: "'a::len word list"
  assumes "big_word ops" "wf_bits N xs" "array_size TYPE('a) N = 1" "4 \<le> N" "4 \<le> LENGTH('a)" "N \<le> 2048"
  shows "\<exists>s. to_decimal ops debug N xs = Inr s \<and> from_decimal ops N s = Some (Inr xs)"
  by (rule decimal_roundtrip_correct [OF assms])

lemma decimal_roundtrip_witness:
  "\<exists>s. to_decimal native_big True 64 [12345678901234567890 :: 64 word] = Inr s \<and>
     from_decimal native_big 64 s = Some (Inr [12345678901234567890 :: 64 word])"
  using decimal_roundtrip [OF native.big_word_axioms, of 64 "[12345678901234567890 :: 64 word]" True]
  by (simp add: wf_bits_def array_size_def)

text \<open>What printing gets wrong: a decimal number may have a leading zero, since the count of
  digits is that of the widest number with the same top bit, and a number of several words is divided
  with the defects of the division.\<close>

theorem print_goes_wrong:
  "to_decimal native_big True 8 [8 :: 8 word] = Inr ''08'' \<and>
   to_octal native_big True 8 [255 :: 8 word] = Inl Undefined \<and>
   to_decimal native_big True 128 [0, 1 :: 64 word] = Inr ''00000000000000000000''"
  by (intro conjI; code_simp)

end
