(* ===== verification/SignedInts.thy ===== *)
theory SignedInts
  imports BitStrings
begin

unbundle bit_operations_syntax

text \<open>
  The two's complement integers \<open>Int<N>\<close>, whose only field is a \<open>Bits<N>\<close>.  An \<open>Int\<close> is
  represented by the words of that field.  The operators that only exist for several words
  (\<open>requires array_size > 1\<close>) are translated for every size; the built-in operators that
  replace them on a single word are reached through the conversion \<open>int_as_signed\<close>.
\<close>

section \<open>Constants and conversions\<close>

definition int_min :: "nat \<Rightarrow> 'a::len word list" where
  "int_min N = (
     let n = array_size TYPE('a) N
     in if end_mask N \<noteq> (0 :: 'a word)
        then (bits_min N)[n - 1 := push_bit (N mod LENGTH('a) - 1) 1]
        else (bits_min N)[n - 1 := push_bit (LENGTH('a) - 1) 1])"

definition int_max :: "nat \<Rightarrow> 'a::len word list" where
  "int_max N = (
     let n = array_size TYPE('a) N;
         result = foldl (update_by (\<lambda>b i. - 1)) (bits_min N) [0..<n - 1]
     in if end_mask N \<noteq> (0 :: 'a word)
        then result[n - 1 := drop_bit 1 (end_mask N)]
        else result[n - 1 := drop_bit 1 (- 1)])"

text \<open>\<open>Int(v)\<close> for a built-in value \<open>v\<close> no wider than a word: the words above are not sign extended.\<close>

definition int_from_word :: "nat \<Rightarrow> 'a::len word \<Rightarrow> 'a word list" where
  "int_from_word N v = bits_from_word N v"

text \<open>The conversion of a single word.  The negation is done in \<open>int\<close> for the two small
  word types, and overflows for the least value of the larger ones.\<close>

definition int_as_signed :: "nat \<Rightarrow> 'a::len word list \<Rightarrow> int option" where
  "int_as_signed N xs = (
     if msb_is_set N xs
     then let neg = bits_negate N xs ! 0
       in if 32 \<le> LENGTH('a) \<and> neg = push_bit (LENGTH('a) - 1) 1 then None else Some (sint (- neg))
     else Some (sint (xs ! 0)))"

definition int_to_bool :: "'a::len word list \<Rightarrow> bool" where
  "int_to_bool xs = bits_to_bool xs"

definition int_sign :: "nat \<Rightarrow> 'a::len word list \<Rightarrow> int" where
  "int_sign N xs = 1 - 2 * of_bool (msb_is_set N xs)"

section \<open>Addition, subtraction and multiplication\<close>

definition int_add_out ::
  "'a::len word big_ops \<Rightarrow> nat \<Rightarrow> 'a word list \<Rightarrow> 'a word list \<Rightarrow> 'a word list \<Rightarrow> bool \<times> 'a word list" where
  "int_add_out ops N xs ys out = (
     let this_neg = msb_is_set N xs;
         other_neg = msb_is_set N ys;
         out = snd (bits_add_out ops N xs ys out)
     in (this_neg = other_neg \<and> msb_is_set N out \<noteq> this_neg, out))"

definition int_add ::
  "'a::len word big_ops \<Rightarrow> nat \<Rightarrow> 'a word list \<Rightarrow> 'a word list \<Rightarrow> bool \<times> 'a word list" where
  "int_add ops N xs ys = (
     let this_neg = msb_is_set N xs;
         other_neg = msb_is_set N ys;
         result = snd (bits_add ops N xs ys)
     in (this_neg = other_neg \<and> msb_is_set N result \<noteq> this_neg, result))"

definition int_sub_out ::
  "nat \<Rightarrow> 'a::len word list \<Rightarrow> 'a word list \<Rightarrow> 'a word list \<Rightarrow> bool \<times> 'a word list" where
  "int_sub_out N xs ys out = (
     let this_neg = msb_is_set N xs;
         other_neg = msb_is_set N ys;
         out = snd (bits_sub_out N xs ys out)
     in (this_neg \<noteq> other_neg \<and> msb_is_set N out \<noteq> this_neg, out))"

definition int_sub :: "nat \<Rightarrow> 'a::len word list \<Rightarrow> 'a word list \<Rightarrow> bool \<times> 'a word list" where
  "int_sub N xs ys = (
     let this_neg = msb_is_set N xs;
         other_neg = msb_is_set N ys;
         result = snd (bits_sub N xs ys)
     in (this_neg \<noteq> other_neg \<and> msb_is_set N result \<noteq> this_neg, result))"

text \<open>The overflow flag of the product compares the bits above the result with its sign.\<close>

definition int_mul_out ::
  "'a::len word big_ops \<Rightarrow> nat \<Rightarrow> 'a word list \<Rightarrow> 'a word list \<Rightarrow> 'a word list \<Rightarrow> bool \<times> 'a word list" where
  "int_mul_out ops N xs ys out = (
     let n = array_size TYPE('a) N
     in if n = 1 \<and> \<not> composite ops
        then let result = nb_mul (xs ! 0) (ys ! 0)
          in if end_mask N \<noteq> (0 :: 'a word)
             then let sign_mask = push_bit (N mod LENGTH('a) - 1) 1;
                      msk = ucast (end_mask N :: 'a word);
                      inv_mask = NOT msk;
                      sign = (result AND sign_mask \<noteq> 0)
               in (result AND inv_mask \<noteq> inv_mask * of_bool sign, out[0 := ucast (result AND msk)])
             else let sign_mask = push_bit (LENGTH('a) - 1) 1;
                      msk = ucast (- 1 :: 'a word);
                      inv_mask = NOT msk;
                      sign = (result AND sign_mask \<noteq> 0)
               in (result AND inv_mask \<noteq> inv_mask * of_bool sign, out[0 := ucast result])
        else let result = school_mul ops n xs ys;
                 out = take n result @ drop n out
          in if end_mask N \<noteq> (0 :: 'a word)
             then let sign_mask = push_bit (N mod LENGTH('a) - 1) 1;
                      inv_mask = NOT (end_mask N);
                      sign = (result ! (n - 1) AND sign_mask \<noteq> 0);
                      expected = - 1 * of_bool sign
               in (if result ! (n - 1) AND inv_mask \<noteq> inv_mask * of_bool sign then True
                   else list_ex (\<lambda>i. result ! i \<noteq> expected) [n..<n * 2],
                   out[n - 1 := out ! (n - 1) AND end_mask N])
             else let sign_mask = push_bit (LENGTH('a) - 1) 1;
                      sign = (result ! (n - 1) AND sign_mask \<noteq> 0);
                      expected = - 1 * of_bool sign
               in (list_ex (\<lambda>i. result ! i \<noteq> expected) [n..<n * 2], out))"

definition int_mul ::
  "'a::len word big_ops \<Rightarrow> nat \<Rightarrow> 'a word list \<Rightarrow> 'a word list \<Rightarrow> bool \<times> 'a word list" where
  "int_mul ops N xs ys = int_mul_out ops N xs ys (bits_min N)"

section \<open>Division\<close>

text \<open>The check of a debug build.  On several words \<open>other == -1\<close> compares with the converted
  constant; on a single word both comparisons are built-in ones.\<close>

definition int_min_by_minus_one :: "nat \<Rightarrow> 'a::len word list \<Rightarrow> 'a word list \<Rightarrow> bool option" where
  "int_min_by_minus_one N xs ys = (
     if array_size TYPE('a) N = 1
     then (case (int_as_signed N xs, int_as_signed N (int_min N :: 'a word list)) of
         (Some a, Some b) \<Rightarrow>
           if a = b then map_option (\<lambda>c. c = - 1) (int_as_signed N ys) else Some False
       | _ \<Rightarrow> None)
     else Some (bits_eq N xs (int_min N) \<and> bits_eq N ys (int_from_word N (- 1))))"

text \<open>The out parameters may be the dividend or the divisor, so \<open>divmod\<close> works on a store of objects: \<open>a\<close> is \<open>*this\<close>, \<open>b\<close> is
  \<open>other\<close>, \<open>q\<close> the quotient and \<open>r\<close> the remainder.  The two out parameters are different objects.  The quotient is assigned
  and negated before \<open>other\<close> is read for the division.\<close>

definition int_divmod_at ::
  "'a::len word big_ops \<Rightarrow> bool \<Rightarrow> nat \<Rightarrow> nat \<Rightarrow> nat \<Rightarrow> nat \<Rightarrow> nat \<Rightarrow> (nat \<Rightarrow> 'a word list) \<Rightarrow> (nat \<Rightarrow> 'a word list) res" where
  "int_divmod_at ops debug N a b q r m = (
     let this_neg = msb_is_set N (m a);
         other_neg = msb_is_set N (m b);
         m = m(q := m a)
     in bind_res (if this_neg \<and> debug then of_option (int_min_by_minus_one N (m a) (m b)) else Inr False) (\<lambda>overflow.
       if overflow then Inl OverflowError
       else let m = (if this_neg then m(q := bits_negate N (m q)) else m)
         in bind_res (bits_divmod_out ops debug N (m q) (if other_neg then bits_negate N (m b) else m b) (m q) (m r))
           (\<lambda>p. let m = m(q := fst p, r := snd p);
                  m = (if this_neg \<noteq> other_neg then m(q := bits_negate N (m q)) else m)
              in Inr (if this_neg then m(r := bits_negate N (m r)) else m))))"

text \<open>The call with four different objects: the new values of the out parameters.\<close>

definition int_divmod_out ::
  "'a::len word big_ops \<Rightarrow> bool \<Rightarrow> nat \<Rightarrow> 'a word list \<Rightarrow> 'a word list \<Rightarrow> 'a word list \<Rightarrow>
   ('a word list \<times> 'a word list) res" where
  "int_divmod_out ops debug N xs ys r =
     bind_res (int_divmod_at ops debug N 0 1 2 3 (\<lambda>i. if i = 0 then xs else if i = 1 then ys else if i = 2 then bits_min N else r))
       (\<lambda>m. Inr (m 2, m 3))"

definition int_divmod ::
  "'a::len word big_ops \<Rightarrow> bool \<Rightarrow> nat \<Rightarrow> 'a word list \<Rightarrow> 'a word list \<Rightarrow> ('a word list \<times> 'a word list) res" where
  "int_divmod ops debug N xs ys = int_divmod_out ops debug N xs ys (bits_min N)"

definition int_divmod_rem ::
  "'a::len word big_ops \<Rightarrow> bool \<Rightarrow> nat \<Rightarrow> 'a word list \<Rightarrow> 'a word list \<Rightarrow> 'a word list \<Rightarrow>
   ('a word list \<times> 'a word list) res" where
  "int_divmod_rem ops debug N xs ys r = int_divmod_out ops debug N xs ys r"

section \<open>Comparison and bitwise operators\<close>

definition int_compare :: "nat \<Rightarrow> 'a::len word list \<Rightarrow> 'a word list \<Rightarrow> ordering" where
  "int_compare N xs ys = (
     let a = - of_bool (msb_is_set N xs) :: int;
         b = - of_bool (msb_is_set N ys)
     in if a \<noteq> b then (if a < b then Less else Greater) else bits_compare xs ys)"

definition int_eq :: "nat \<Rightarrow> 'a::len word list \<Rightarrow> 'a word list \<Rightarrow> bool" where
  "int_eq N xs ys = bits_eq N xs ys"

definition int_not :: "nat \<Rightarrow> 'a::len word list \<Rightarrow> 'a word list" where
  "int_not N xs = bits_not N xs"

definition int_and :: "nat \<Rightarrow> 'a::len word list \<Rightarrow> 'a word list \<Rightarrow> 'a word list" where
  "int_and N xs ys = bits_and N xs ys"

definition int_and_assign :: "nat \<Rightarrow> 'a::len word list \<Rightarrow> 'a word list \<Rightarrow> 'a word list" where
  "int_and_assign N xs ys = bits_and_assign N xs ys"

definition int_or :: "nat \<Rightarrow> 'a::len word list \<Rightarrow> 'a word list \<Rightarrow> 'a word list" where
  "int_or N xs ys = bits_or N xs ys"

definition int_or_assign :: "nat \<Rightarrow> 'a::len word list \<Rightarrow> 'a word list \<Rightarrow> 'a word list" where
  "int_or_assign N xs ys = bits_or_assign N xs ys"

definition int_xor :: "nat \<Rightarrow> 'a::len word list \<Rightarrow> 'a word list \<Rightarrow> 'a word list" where
  "int_xor N xs ys = bits_xor N xs ys"

definition int_xor_assign :: "nat \<Rightarrow> 'a::len word list \<Rightarrow> 'a word list \<Rightarrow> 'a word list" where
  "int_xor_assign N xs ys = bits_xor_assign N xs ys"

definition int_shl :: "nat \<Rightarrow> 'a::len word list \<Rightarrow> nat \<Rightarrow> 'a word list option" where
  "int_shl N xs rhs = (
     if msb_is_set N xs then map_option (bits_negate N) (bits_shl N (bits_negate N xs) rhs)
     else bits_shl N xs rhs)"

definition int_shl_assign :: "nat \<Rightarrow> 'a::len word list \<Rightarrow> nat \<Rightarrow> 'a word list" where
  "int_shl_assign N xs rhs = (
     if msb_is_set N xs then bits_negate N (bits_shl_assign N (bits_negate N xs) rhs)
     else bits_shl_assign N xs rhs)"

definition int_shr :: "nat \<Rightarrow> 'a::len word list \<Rightarrow> nat \<Rightarrow> 'a word list option" where
  "int_shr N xs rhs = (
     if msb_is_set N xs then map_option (bits_negate N) (bits_shr N (bits_negate N xs) rhs)
     else bits_shr N xs rhs)"

definition int_shr_assign :: "nat \<Rightarrow> 'a::len word list \<Rightarrow> nat \<Rightarrow> 'a word list" where
  "int_shr_assign N xs rhs = (
     if msb_is_set N xs then bits_negate N (bits_shr_assign N (bits_negate N xs) rhs)
     else bits_shr_assign N xs rhs)"

section \<open>Arithmetic operators\<close>

definition int_inc :: "nat \<Rightarrow> 'a::len word list \<Rightarrow> 'a word list" where
  "int_inc N xs = bits_inc N xs"

text \<open>The postfix forms: the returned old value and the new state.\<close>

definition int_post_inc :: "nat \<Rightarrow> 'a::len word list \<Rightarrow> 'a word list \<times> 'a word list" where
  "int_post_inc N xs = (let copy = xs in (copy, bits_inc N xs))"

definition int_plus :: "'a::len word big_ops \<Rightarrow> nat \<Rightarrow> 'a word list \<Rightarrow> 'a word list \<Rightarrow> 'a word list" where
  "int_plus ops N xs ys = bits_plus ops N xs ys"

definition int_plus_assign :: "'a::len word big_ops \<Rightarrow> nat \<Rightarrow> 'a word list \<Rightarrow> 'a word list \<Rightarrow> 'a word list" where
  "int_plus_assign ops N xs ys = snd (bits_add_out ops N xs ys xs)"

definition int_neg :: "nat \<Rightarrow> 'a::len word list \<Rightarrow> 'a word list" where
  "int_neg N xs = bits_negate N xs"

definition int_dec :: "nat \<Rightarrow> 'a::len word list \<Rightarrow> 'a word list" where
  "int_dec N xs = bits_dec N xs"

definition int_post_dec :: "nat \<Rightarrow> 'a::len word list \<Rightarrow> 'a word list \<times> 'a word list" where
  "int_post_dec N xs = (let copy = xs in (copy, bits_dec N xs))"

definition int_minus :: "nat \<Rightarrow> 'a::len word list \<Rightarrow> 'a word list \<Rightarrow> 'a word list" where
  "int_minus N xs ys = bits_minus N xs ys"

definition int_minus_assign :: "nat \<Rightarrow> 'a::len word list \<Rightarrow> 'a word list \<Rightarrow> 'a word list" where
  "int_minus_assign N xs ys = snd (bits_sub_out N xs ys xs)"

definition int_times :: "'a::len word big_ops \<Rightarrow> nat \<Rightarrow> 'a word list \<Rightarrow> 'a word list \<Rightarrow> 'a word list" where
  "int_times ops N xs ys = snd (int_mul ops N xs ys)"

definition int_times_assign :: "'a::len word big_ops \<Rightarrow> nat \<Rightarrow> 'a word list \<Rightarrow> 'a word list \<Rightarrow> 'a word list" where
  "int_times_assign ops N xs ys = snd (int_mul_out ops N xs ys xs)"

definition int_div :: "'a::len word big_ops \<Rightarrow> bool \<Rightarrow> nat \<Rightarrow> 'a word list \<Rightarrow> 'a word list \<Rightarrow> 'a word list res" where
  "int_div ops debug N xs ys = bind_res (int_divmod ops debug N xs ys) (\<lambda>p. Inr (fst p))"

text \<open>\<open>a /= b\<close> and \<open>a %= b\<close> on a store of objects, with a local variable for the other result.\<close>

definition int_div_assign ::
  "'a::len word big_ops \<Rightarrow> bool \<Rightarrow> nat \<Rightarrow> nat \<Rightarrow> nat \<Rightarrow> (nat \<Rightarrow> 'a word list) \<Rightarrow> (nat \<Rightarrow> 'a word list) res" where
  "int_div_assign ops debug N a b m = (
     let remainder = Suc (max a b)
     in bind_res (int_divmod_at ops debug N a b a remainder (m(remainder := bits_min N))) (\<lambda>m'. Inr (m(a := m' a))))"

definition int_mod :: "'a::len word big_ops \<Rightarrow> bool \<Rightarrow> nat \<Rightarrow> 'a word list \<Rightarrow> 'a word list \<Rightarrow> 'a word list res" where
  "int_mod ops debug N xs ys = bind_res (int_divmod ops debug N xs ys) (\<lambda>p. Inr (snd p))"

definition int_mod_assign ::
  "'a::len word big_ops \<Rightarrow> bool \<Rightarrow> nat \<Rightarrow> nat \<Rightarrow> nat \<Rightarrow> (nat \<Rightarrow> 'a word list) \<Rightarrow> (nat \<Rightarrow> 'a word list) res" where
  "int_mod_assign ops debug N a b m = (
     let quotient = Suc (max a b)
     in bind_res (int_divmod_at ops debug N a b quotient a (m(quotient := bits_min N))) (\<lambda>m'. Inr (m(a := m' a))))"

text \<open>Without an alias of divisor and quotient, \<open>divmod\<close> is a function of the values.\<close>

definition int_divmod_values ::
  "'a::len word big_ops \<Rightarrow> bool \<Rightarrow> nat \<Rightarrow> 'a word list \<Rightarrow> 'a word list \<Rightarrow> 'a word list \<Rightarrow>
   ('a word list \<times> 'a word list) res" where
  "int_divmod_values ops debug N xs ys r = (
     let this_neg = msb_is_set N xs;
         other_neg = msb_is_set N ys
     in bind_res (if this_neg \<and> debug then of_option (int_min_by_minus_one N xs ys) else Inr False) (\<lambda>overflow.
       if overflow then Inl OverflowError
       else let quotient = (if this_neg then bits_negate N xs else xs)
         in bind_res (bits_divmod_out ops debug N quotient (if other_neg then bits_negate N ys else ys) quotient r)
           (\<lambda>p. Inr (if this_neg \<noteq> other_neg then bits_negate N (fst p) else fst p,
              if this_neg then bits_negate N (snd p) else snd p))))"

lemma bind_res_assoc: "bind_res (bind_res x f) g = bind_res x (\<lambda>y. bind_res (f y) g)"
  by (cases x) simp_all

lemma bind_res_if: "bind_res (if c then x else y) g = (if c then bind_res x g else bind_res y g)"
  by (rule if_distrib)

lemma int_divmod_at_values:
  assumes "q \<noteq> b" "q \<noteq> r"
  shows "int_divmod_at ops debug N a b q r m =
    bind_res (int_divmod_values ops debug N (m a) (m b) (m r)) (\<lambda>p. Inr (m(q := fst p, r := snd p)))"
proof -
  define s t where "s = msb_is_set N (m a)" and "t = msb_is_set N (m b)"
  define m1 where "m1 = m(q := m a)"
  have m1: "m1 a = m a" "m1 b = m b" "m1 q = m a" "m1 r = m r"
    using assms by (simp_all add: m1_def)
  define m2 where "m2 = (if s then m1(q := bits_negate N (m1 q)) else m1)"
  have m2: "m2 q = (if s then bits_negate N (m a) else m a)" "m2 b = m b" "m2 r = m r"
    using assms m1 by (simp_all add: m2_def)
  have m2_upd: "m2(q := x, r := y) = m(q := x, r := y)" for x y
    by (auto simp: m2_def m1_def)
  have finish: "(let n = m2(q := fst p, r := snd p); n = (if s \<noteq> t then n(q := bits_negate N (n q)) else n)
      in Inr (if s then n(r := bits_negate N (n r)) else n)) =
    (Inr (m(q := if s \<noteq> t then bits_negate N (fst p) else fst p, r := if s then bits_negate N (snd p) else snd p)) :: (nat \<Rightarrow> 'a word list) res)" for p
    using assms(2) unfolding m2_upd Let_def by (auto simp: fun_upd_twist [of q r])
  have "int_divmod_at ops debug N a b q r m =
      bind_res (if s \<and> debug then of_option (int_min_by_minus_one N (m a) (m b)) else Inr False) (\<lambda>overflow.
        if overflow then Inl OverflowError
        else bind_res (bits_divmod_out ops debug N (m2 q) (if t then bits_negate N (m2 b) else m2 b) (m2 q) (m2 r))
          (\<lambda>p. Inr (m(q := if s \<noteq> t then bits_negate N (fst p) else fst p, r := if s then bits_negate N (snd p) else snd p))))"
    unfolding int_divmod_at_def s_def [symmetric] t_def [symmetric] m1_def [symmetric] m1(1,2)
    unfolding Let_def [of m1] Let_def [of s] Let_def [of t] m2_def [symmetric] Let_def [of m2] finish by (simp only: m1(1,2))
  then show ?thesis
    unfolding int_divmod_values_def Let_def s_def [symmetric] t_def [symmetric] bind_res_assoc m2
    by (simp only:) (rule arg_cong [where f = "bind_res _"], rule ext, simp add: bind_res_if bind_res_assoc)
qed

lemma int_divmod_out_values: "int_divmod_out ops debug N xs ys r = int_divmod_values ops debug N xs ys r"
  unfolding int_divmod_out_def
  by (subst int_divmod_at_values) (simp_all add: bind_res_def split: sum.split)


section \<open>Signed values\<close>

text \<open>The number a set of bits denotes in two's complement, and the reduction of a number to
  that range.\<close>

definition sval :: "nat \<Rightarrow> 'a::len word list \<Rightarrow> int" where
  "sval N xs = (if bit (val xs) (N - 1) then int (val xs) - 2 ^ N else int (val xs))"

definition signed_wrap :: "nat \<Rightarrow> int \<Rightarrow> int" where
  "signed_wrap N k = (k + 2 ^ (N - 1)) mod 2 ^ N - 2 ^ (N - 1)"

lemma sval_alt:
  assumes "wf_bits N xs" "0 < N"
  shows "sval N xs = (if 2 ^ (N - 1) \<le> int (val xs) then int (val xs) - 2 ^ N else int (val xs))"
    "msb_is_set N xs \<longleftrightarrow> sval N xs < 0"
    "- (2 ^ (N - 1)) \<le> sval N xs" "sval N xs < 2 ^ (N - 1)"
    "sval N xs mod 2 ^ N = int (val xs)"
    "sval N xs = int (val xs) - (if sval N xs < 0 then 2 ^ N else 0)"
proof -
  have v: "val xs < 2 ^ N"
    using assms(1) by (simp add: wf_bits_def)
  then have vi: "int (val xs) < 2 ^ N"
    by (metis of_nat_less_iff of_nat_numeral of_nat_power)
  have "2 ^ (N - 1) \<le> val xs \<longleftrightarrow> 2 ^ (N - 1) \<le> int (val xs)"
    by (metis of_nat_le_iff of_nat_numeral of_nat_power)
  then have bit: "bit (val xs) (N - 1) \<longleftrightarrow> 2 ^ (N - 1) \<le> int (val xs)"
    by (simp only: top_bit_nat [OF v assms(2)])
  show alt: "sval N xs = (if 2 ^ (N - 1) \<le> int (val xs) then int (val xs) - 2 ^ N else int (val xs))"
    by (simp only: sval_def bit)
  have dbl: "(2 :: int) ^ N = 2 * 2 ^ (N - 1)"
    by (rule double_half [OF assms(2)])
  show "msb_is_set N xs \<longleftrightarrow> sval N xs < 0"
    unfolding msb_is_set_eq [OF assms] bit alt using vi by auto
  show "- (2 ^ (N - 1)) \<le> sval N xs" "sval N xs < 2 ^ (N - 1)"
    using vi dbl unfolding alt by (auto split: if_splits)
  show "sval N xs mod 2 ^ N = int (val xs)"
    using vi by (auto simp: alt mod_diff_left_eq [symmetric] minus_mod_self2)
  show "sval N xs = int (val xs) - (if sval N xs < 0 then 2 ^ N else 0)"
    using vi unfolding alt by auto
qed

lemma signed_wrap_unique:
  assumes "0 < N" "- (2 ^ (N - 1)) \<le> v" "v < 2 ^ (N - 1)" "v mod 2 ^ N = k mod 2 ^ N"
  shows "signed_wrap N k = v"
proof -
  have "(k + 2 ^ (N - 1)) mod 2 ^ N = (v + 2 ^ (N - 1)) mod 2 ^ N"
    using assms(4) by (metis mod_add_left_eq)
  also have "\<dots> = v + 2 ^ (N - 1)"
    using assms(2,3) double_half [OF assms(1), where 'b = int] by (intro mod_pos_pos_trivial) linarith+
  finally show ?thesis
    by (simp add: signed_wrap_def)
qed

lemma signed_wrap_range:
  assumes "0 < N"
  shows "- (2 ^ (N - 1)) \<le> signed_wrap N k" "signed_wrap N k < 2 ^ (N - 1)"
    "signed_wrap N k mod 2 ^ N = k mod 2 ^ N"
    "signed_wrap N k = k \<longleftrightarrow> - (2 ^ (N - 1)) \<le> k \<and> k < 2 ^ (N - 1)"
proof -
  have "0 \<le> (k + 2 ^ (N - 1)) mod 2 ^ N" "(k + 2 ^ (N - 1)) mod 2 ^ N < 2 ^ N"
    by simp_all
  then show range: "- (2 ^ (N - 1)) \<le> signed_wrap N k" "signed_wrap N k < 2 ^ (N - 1)"
    using double_half [OF assms, where 'b = int] unfolding signed_wrap_def by linarith+
  show "signed_wrap N k mod 2 ^ N = k mod 2 ^ N"
    unfolding signed_wrap_def by (simp add: mod_diff_left_eq)
  show "signed_wrap N k = k \<longleftrightarrow> - (2 ^ (N - 1)) \<le> k \<and> k < 2 ^ (N - 1)"
    using range signed_wrap_unique [OF assms, of k k] by metis
qed

text \<open>Bits that agree with a number modulo \<open>2 ^ N\<close> denote its reduction.\<close>

lemma sval_eq:
  assumes "wf_bits N xs" "0 < N" "int (val xs) = k mod 2 ^ N"
  shows "sval N xs = signed_wrap N k"
  using signed_wrap_unique [OF assms(2) sval_alt(3,4) [OF assms(1,2)], of k]
  by (simp add: sval_alt(5) [OF assms(1,2)] assms(3))

lemma sval_zero_iff: "wf_bits N xs \<Longrightarrow> 0 < N \<Longrightarrow> sval N xs = 0 \<longleftrightarrow> val xs = 0"
  by (metis mod_0 of_nat_eq_0_iff sval_alt(5) sval_def zero_neq_one bit_0_eq bot_apply bot_bool_def of_nat_0)

text \<open>The number of a sum lies in one of three ranges, which the signs tell apart.\<close>

lemma signed_sum_sign:
  assumes "0 < N" "- (2 ^ (N - 1)) \<le> x" "x < 2 ^ (N - 1)" "- (2 ^ (N - 1)) \<le> y" "y < 2 ^ (N - 1)"
  shows "(((x < 0) = (y < 0)) \<and> ((signed_wrap N (x + y) < 0) \<noteq> (x < 0))) \<longleftrightarrow> signed_wrap N (x + y) \<noteq> x + y"
    "(((x < 0) \<noteq> (y < 0)) \<and> ((signed_wrap N (x - y) < 0) \<noteq> (x < 0))) \<longleftrightarrow> signed_wrap N (x - y) \<noteq> x - y"
proof -
  define H :: int where "H = 2 ^ (N - 1)"
  have dbl: "2 ^ N = 2 * H"
    unfolding H_def by (rule double_half [OF assms(1)])
  have cases: "signed_wrap N k = (if k < - H then k + 2 * H else if H \<le> k then k - 2 * H else k)"
    if "- (2 * H) \<le> k" "k < 2 * H" for k
    using that by (intro signed_wrap_unique [OF assms(1), folded H_def, unfolded dbl]) auto
  have b: "- H \<le> x" "x < H" "- H \<le> y" "y < H"
    using assms(2-5) by (simp_all add: H_def)
  show "(((x < 0) = (y < 0)) \<and> ((signed_wrap N (x + y) < 0) \<noteq> (x < 0))) \<longleftrightarrow> signed_wrap N (x + y) \<noteq> x + y"
    using b by (subst (1 2) cases) auto
  show "(((x < 0) \<noteq> (y < 0)) \<and> ((signed_wrap N (x - y) < 0) \<noteq> (x < 0))) \<longleftrightarrow> signed_wrap N (x - y) \<noteq> x - y"
    using b by (subst (1 2) cases) auto
qed


section \<open>Sums and differences\<close>

lemma signed_result:
  assumes "wf_bits N out" "0 < N" "int (val out) = k mod 2 ^ N"
  shows "sval N out = signed_wrap N k" "msb_is_set N out \<longleftrightarrow> signed_wrap N k < 0"
  using sval_eq [OF assms] sval_alt(2) [OF assms(1,2)] by simp_all

lemma int_add_out_signed:
  fixes xs ys :: "'a::len word list"
  assumes "wf_bits N xs" "wf_bits N ys" "length out = array_size TYPE('a) N" "0 < N"
  shows "sval N (snd (int_add_out ops N xs ys out)) = signed_wrap N (sval N xs + sval N ys)"
    "fst (int_add_out ops N xs ys out) \<longleftrightarrow> signed_wrap N (sval N xs + sval N ys) \<noteq> sval N xs + sval N ys"
    "wf_bits N (snd (int_add_out ops N xs ys out))"
proof -
  note x = sval_alt [OF assms(1,4)] and y = sval_alt [OF assms(2,4)]
  note add = add_correct [OF assms(1-3), of ops]
  have "int (val (snd (bits_add_out ops N xs ys out))) = (sval N xs mod 2 ^ N + sval N ys mod 2 ^ N) mod 2 ^ N"
    by (simp add: add(1) x(5) y(5) zmod_int)
  then have "int (val (snd (bits_add_out ops N xs ys out))) = (sval N xs + sval N ys) mod 2 ^ N"
    by (simp only: mod_add_eq)
  note res = signed_result [OF add(3) assms(4) this]
  show "sval N (snd (int_add_out ops N xs ys out)) = signed_wrap N (sval N xs + sval N ys)"
    "wf_bits N (snd (int_add_out ops N xs ys out))"
    using res(1) add(3) by (simp_all add: int_add_out_def Let_def)
  show "fst (int_add_out ops N xs ys out) \<longleftrightarrow> signed_wrap N (sval N xs + sval N ys) \<noteq> sval N xs + sval N ys"
    using signed_sum_sign(1) [OF assms(4) x(3,4) y(3,4)]
    by (simp add: int_add_out_def Let_def x(2) y(2) res(2))
qed

lemma int_sub_out_signed:
  fixes xs ys :: "'a::len word list"
  assumes "wf_bits N xs" "wf_bits N ys" "length out = array_size TYPE('a) N" "0 < N"
  shows "sval N (snd (int_sub_out N xs ys out)) = signed_wrap N (sval N xs - sval N ys)"
    "fst (int_sub_out N xs ys out) \<longleftrightarrow> signed_wrap N (sval N xs - sval N ys) \<noteq> sval N xs - sval N ys"
    "wf_bits N (snd (int_sub_out N xs ys out))"
proof -
  note x = sval_alt [OF assms(1,4)] and y = sval_alt [OF assms(2,4)]
  note sub = sub_correct [OF assms(1-3)]
  have "val ys \<le> 2 ^ N"
    using assms(2) by (simp add: wf_bits_def)
  then have "int (2 ^ N + val xs - val ys) = 2 ^ N + (int (val xs) - int (val ys))"
    by simp
  then have "int (val (snd (bits_sub_out N xs ys out))) = (int (val xs) - int (val ys)) mod 2 ^ N"
    unfolding sub(1) zmod_int by simp
  then have "int (val (snd (bits_sub_out N xs ys out))) = (sval N xs - sval N ys) mod 2 ^ N"
    by (simp only: x(5) [symmetric] y(5) [symmetric] mod_diff_eq)
  note res = signed_result [OF sub(3) assms(4) this]
  show "sval N (snd (int_sub_out N xs ys out)) = signed_wrap N (sval N xs - sval N ys)"
    "wf_bits N (snd (int_sub_out N xs ys out))"
    using res(1) sub(3) by (simp_all add: int_sub_out_def Let_def)
  show "fst (int_sub_out N xs ys out) \<longleftrightarrow> signed_wrap N (sval N xs - sval N ys) \<noteq> sval N xs - sval N ys"
    using signed_sum_sign(2) [OF assms(4) x(3,4) y(3,4)]
    by (simp add: int_sub_out_def Let_def x(2) y(2) res(2))
qed

lemma int_add_is_out: "int_add ops N xs ys = int_add_out ops N xs ys (bits_min N)"
  by (simp add: int_add_def int_add_out_def bits_add_def)

lemma int_sub_is_out: "int_sub N xs ys = int_sub_out N xs ys (bits_min N)"
  by (simp add: int_sub_def int_sub_out_def bits_sub_def)

section \<open>Negation and magnitudes\<close>

lemma negate_signed:
  assumes "wf_bits N xs" "0 < N"
  shows "int (val (bits_negate N xs)) = (- sval N xs) mod 2 ^ N" "wf_bits N (bits_negate N xs)"
    "sval N (bits_negate N xs) = signed_wrap N (- sval N xs)"
proof -
  note neg = negate_correct [OF assms(1)]
  have "int (val (bits_negate N xs)) = (2 ^ N + - int (val xs)) mod 2 ^ N"
    using assms(1) by (simp add: neg(1) zmod_int of_nat_diff wf_bits_def)
  also have "\<dots> = (- (sval N xs mod 2 ^ N)) mod 2 ^ N"
    by (simp add: sval_alt(5) [OF assms])
  also have "\<dots> = (- sval N xs) mod 2 ^ N"
    by (rule mod_minus_eq)
  finally show val: "int (val (bits_negate N xs)) = (- sval N xs) mod 2 ^ N" .
  show "wf_bits N (bits_negate N xs)"
    by (rule neg(2))
  show "sval N (bits_negate N xs) = signed_wrap N (- sval N xs)"
    by (rule sval_eq [OF neg(2) assms(2) val])
qed

text \<open>The magnitude the division and the shifts work on.\<close>

definition int_abs :: "nat \<Rightarrow> 'a::len word list \<Rightarrow> 'a word list" where
  "int_abs N xs = (if msb_is_set N xs then bits_negate N xs else xs)"

lemma int_abs_val:
  assumes "wf_bits N xs" "0 < N"
  shows "int (val (int_abs N xs)) = \<bar>sval N xs\<bar>" "wf_bits N (int_abs N xs)"
proof -
  note x = sval_alt [OF assms] and dbl = double_half [OF assms(2), where 'b = int]
  show "wf_bits N (int_abs N xs)"
    using negate_signed(2) [OF assms] assms(1) by (simp add: int_abs_def)
  have "(0 :: int) < 2 ^ (N - 1)"
    by simp
  then show "int (val (int_abs N xs)) = \<bar>sval N xs\<bar>"
    using x(3,4,5) dbl negate_signed(1) [OF assms]
    by (auto simp: int_abs_def x(2) mod_pos_pos_trivial)
qed

lemma negated_result:
  assumes "wf_bits N xs" "0 < N" "int (val xs) = k mod 2 ^ N"
  shows "sval N (bits_negate N xs) = signed_wrap N (- k)" "wf_bits N (bits_negate N xs)"
proof -
  note neg = negate_signed [OF assms(1,2)]
  have "(- sval N xs) mod 2 ^ N = (- (sval N xs mod 2 ^ N)) mod 2 ^ N"
    by (simp add: mod_minus_eq)
  also have "\<dots> = (- k) mod 2 ^ N"
    by (simp add: sval_alt(5) [OF assms(1,2)] assms(3) mod_minus_eq)
  finally show "sval N (bits_negate N xs) = signed_wrap N (- k)"
    using neg(1) by (intro sval_eq [OF neg(2) assms(2)]) simp
qed (rule negate_signed(2) [OF assms(1,2)])


section \<open>Products\<close>

lemma product_bound:
  fixes a b :: nat
  assumes "a < 2 ^ N" "b < 2 ^ N" "0 < N"
  shows "a * b div 2 ^ N + 1 < 2 ^ N"
proof -
  obtain m where m: "(2 :: nat) ^ N = Suc (Suc m)"
    using double_half [OF assms(3), where 'b = nat] by (cases "2 ^ (N - 1) :: nat") auto
  have "a * b \<le> Suc m * Suc m"
    using assms(1,2) by (intro mult_le_mono) (simp_all add: m)
  also have "\<dots> < 2 ^ N * Suc m"
    by (simp add: m)
  finally have "a * b div 2 ^ N < Suc m"
    by (simp add: less_mult_imp_div_less mult.commute)
  then show ?thesis
    by (simp add: m)
qed

text \<open>The sign-extension test on a product of two unsigned numbers only asks whether it reaches
  the sign bit.\<close>

lemma extension_test:
  fixes a b K :: nat
  assumes "a < 2 ^ N" "b < 2 ^ N" "0 < N" "2 ^ N * K = 2 ^ M" "2 ^ N \<le> K"
  shows "2 ^ N * (a * b div 2 ^ N) \<noteq> (2 ^ M - 2 ^ N) * of_bool (bit (a * b) (N - 1)) \<longleftrightarrow> 2 ^ (N - 1) \<le> a * b"
proof -
  let ?q = "a * b div 2 ^ N"
  have q: "?q + 1 < K"
    using product_bound [OF assms(1-3)] assms(5) by linarith
  have top: "(2 :: nat) ^ M - 2 ^ N = 2 ^ N * (K - 1)"
    by (simp add: assms(4) [symmetric] diff_mult_distrib2)
  have "2 ^ N * ?q \<noteq> 2 ^ N * (K - 1)"
    using q by simp
  moreover have "bit (a * b) (N - 1) \<longleftrightarrow> bit (a * b mod 2 ^ N) (N - 1)"
    using assms(3) by (simp add: take_bit_eq_mod [symmetric] bit_take_bit_iff)
  then have "bit (a * b) (N - 1) \<longleftrightarrow> 2 ^ (N - 1) \<le> a * b mod 2 ^ N"
    by (simp only: top_bit_nat [OF mod_less_divisor [OF zero_less_power [OF pos2]] assms(3)])
  moreover have "2 ^ (N - 1) \<le> a * b \<longleftrightarrow> 2 ^ (N - 1) \<le> a * b mod 2 ^ N \<or> ?q \<noteq> 0"
  proof (cases "a * b < 2 ^ N")
    case False
    then have "2 ^ (N - 1) \<le> a * b"
      using double_half [OF assms(3), where 'b = nat] by linarith
    moreover have "?q \<noteq> 0"
      using False by (simp add: div_eq_0_iff)
    ultimately show ?thesis by simp
  qed simp
  ultimately show ?thesis
    unfolding top by auto
qed

lemma unat_high_part:
  fixes r :: "'b::len word"
  assumes "N \<le> LENGTH('b)"
  shows "unat (r AND NOT (mask N)) = 2 ^ N * (unat r div 2 ^ N)"
proof -
  have "r AND NOT (mask N) = push_bit N (drop_bit N r)"
    by (rule bit_word_eqI) (auto simp: bit_simps)
  moreover have "unat (push_bit N (drop_bit N r)) = take_bit LENGTH('b) (push_bit N (drop_bit N (unat r)))"
    by (simp add: unsigned_push_bit_eq unsigned_drop_bit_eq take_bit_unat)
  moreover have "push_bit N (drop_bit N (unat r)) \<le> unat r"
    by (simp add: push_bit_eq_mult drop_bit_eq_div)
  then have "take_bit LENGTH('b) (push_bit N (drop_bit N (unat r))) = push_bit N (drop_bit N (unat r))"
    using unat_less [of r] by (intro take_bit_nat_eq_self) linarith
  ultimately show ?thesis
    by (simp add: push_bit_eq_mult drop_bit_eq_div mult.commute)
qed

lemma unat_not_mask: "N \<le> LENGTH('b::len) \<Longrightarrow> unat (NOT (mask N) :: 'b word) = 2 ^ LENGTH('b) - 2 ^ N"
proof -
  assume N: "N \<le> LENGTH('b)"
  have "unat (- 1 :: 'b word) div 2 ^ N = 2 ^ (LENGTH('b) - N) - 1"
  proof -
    have "unat (- 1 :: 'b word) = mask LENGTH('b)"
      by (simp add: unsigned_minus_1_eq_mask)
    then have "unat (- 1 :: 'b word) div 2 ^ N = drop_bit N (mask LENGTH('b))"
      by (simp add: drop_bit_eq_div)
    also have "\<dots> = mask (LENGTH('b) - N)"
      by (simp add: drop_bit_mask_eq)
    finally show ?thesis
      by (simp add: mask_eq_exp_minus_1)
  qed
  then have "unat (NOT (mask N) :: 'b word) = 2 ^ N * (2 ^ (LENGTH('b) - N) - 1)"
    using unat_high_part [OF N, of "- 1 :: 'b word"] by simp
  then show ?thesis
    using N by (simp add: diff_mult_distrib2 power_add [symmetric])
qed


lemma single_word_masks:
  assumes "array_size TYPE('a::len) N = 1" "0 < N"
  shows "N \<le> LENGTH('a)"
    "N mod LENGTH('a) \<noteq> 0 \<Longrightarrow> N mod LENGTH('a) = N \<and> ucast (end_mask N :: 'a word) = (mask N :: 'a bit0 word)"
    "N mod LENGTH('a) = 0 \<Longrightarrow> LENGTH('a) = N \<and> ucast (- 1 :: 'a word) = (mask N :: 'a bit0 word)"
proof -
  show le: "N \<le> LENGTH('a)"
    using array_size_bounds(4) [of N, where 'a = 'a] assms(1) by simp
  show "N mod LENGTH('a) = N \<and> ucast (end_mask N :: 'a word) = (mask N :: 'a bit0 word)"
    if "N mod LENGTH('a) \<noteq> 0"
  proof -
    have N: "N < LENGTH('a)"
      using that le by (cases "N = LENGTH('a)") simp_all
    then have "ucast (end_mask N :: 'a word) = (mask N :: 'a bit0 word)"
      unfolding end_mask_mask [OF that] by (intro bit_word_eqI) (auto simp: bit_simps)
    then show ?thesis
      using N by simp
  qed
  show "LENGTH('a) = N \<and> ucast (- 1 :: 'a word) = (mask N :: 'a bit0 word)" if "N mod LENGTH('a) = 0"
  proof -
    have N: "LENGTH('a) = N"
      using that le assms(2) by (cases "N < LENGTH('a)") simp_all
    have "ucast (- 1 :: 'a word) = (mask LENGTH('a) :: 'a bit0 word)"
      by (intro bit_word_eqI) (auto simp: bit_simps)
    then show ?thesis
      using N by simp
  qed
qed

lemma int_mul_single:
  fixes xs ys :: "'a::len word list"
  assumes "wf_bits N xs" "wf_bits N ys" "length out = array_size TYPE('a) N" "0 < N"
    "array_size TYPE('a) N = 1" "\<not> composite ops"
  shows "sval N (snd (int_mul_out ops N xs ys out)) = signed_wrap N (sval N xs * sval N ys)"
    "fst (int_mul_out ops N xs ys out) \<longleftrightarrow> 2 ^ (N - 1) \<le> val xs * val ys"
    "wf_bits N (snd (int_mul_out ops N xs ys out))"
proof -
  let ?r = "nb_mul (xs ! 0) (ys ! 0)" and ?inv = "NOT (mask N) :: 'a bit0 word"
  note len = wf_bits_length [OF assms(1)] wf_bits_length [OF assms(2)]
  note one = single_word_masks [OF assms(5,4)]
  have P: "unat ?r = val xs * val ys"
    using len assms(5) by (simp add: nb_mul_val single_word)
  have snd_eq: "snd (int_mul_out ops N xs ys out) = snd (narrow N ?r out)"
    using assms(5,6) by (simp add: int_mul_out_def narrow_def Let_def)
  have "length out = 1"
    using assms(3,5) by simp
  note narrow = narrow_val [OF assms(5) this, of ?r]
  show wf: "wf_bits N (snd (int_mul_out ops N xs ys out))"
    using narrow(1,3) assms(5) by (simp add: snd_eq wf_bits_def)
  have "int (val (snd (int_mul_out ops N xs ys out))) = (int (val xs) * int (val ys)) mod 2 ^ N"
    by (simp add: snd_eq narrow(1) P zmod_int)
  also have "\<dots> = (sval N xs * sval N ys) mod 2 ^ N"
    by (simp only: sval_alt(5) [OF assms(1,4), symmetric] sval_alt(5) [OF assms(2,4), symmetric] mod_mult_eq)
  finally show "sval N (snd (int_mul_out ops N xs ys out)) = signed_wrap N (sval N xs * sval N ys)"
    by (rule sval_eq [OF wf assms(4)])
  have fst_eq: "fst (int_mul_out ops N xs ys out) \<longleftrightarrow> ?r AND ?inv \<noteq> ?inv * of_bool (bit ?r (N - 1))"
    using assms(5,6) one(2,3) and_push_one [of ?r "N - 1"]
    by (cases "N mod LENGTH('a) = 0") (simp_all add: int_mul_out_def Let_def)
  have le: "N \<le> LENGTH('a bit0)"
    using one(1) by simp
  have "2 ^ N * 2 ^ (LENGTH('a bit0) - N) = (2 ^ LENGTH('a bit0) :: nat)"
    using le by (simp only: power_add [symmetric] le_add_diff_inverse)
  moreover have "(2 :: nat) ^ N \<le> 2 ^ (LENGTH('a bit0) - N)"
    using one(1) by (intro power_increasing) simp_all
  moreover have "val xs < 2 ^ N" "val ys < 2 ^ N"
    using assms(1,2) by (simp_all add: wf_bits_def)
  ultimately have test: "2 ^ N * (unat ?r div 2 ^ N) \<noteq> (2 ^ LENGTH('a bit0) - 2 ^ N) * of_bool (bit (unat ?r) (N - 1)) \<longleftrightarrow>
      2 ^ (N - 1) \<le> val xs * val ys"
    unfolding P using assms(4) by (intro extension_test) assumption+
  have "bit ?r (N - 1) \<longleftrightarrow> bit (unat ?r) (N - 1)"
    using le assms(4) by (simp add: bit_unsigned_iff)
  then have "unat (?inv * of_bool (bit ?r (N - 1))) =
      (2 ^ LENGTH('a bit0) - 2 ^ N) * of_bool (bit (unat ?r) (N - 1))"
    using unat_not_mask [OF le] by (cases "bit ?r (N - 1)") simp_all
  then have "fst (int_mul_out ops N xs ys out) \<longleftrightarrow>
      2 ^ N * (unat ?r div 2 ^ N) \<noteq> (2 ^ LENGTH('a bit0) - 2 ^ N) * of_bool (bit (unat ?r) (N - 1))"
    unfolding fst_eq word_unat_eq_iff unat_high_part [OF le] by simp
  then show "fst (int_mul_out ops N xs ys out) \<longleftrightarrow> 2 ^ (N - 1) \<le> val xs * val ys"
    using test by simp
qed


section \<open>Comparison, shifts and division\<close>

lemma int_compare_signed:
  assumes "wf_bits N xs" "wf_bits N ys" "0 < N"
  shows "int_compare N xs ys =
    (if sval N xs < sval N ys then Less else if sval N xs = sval N ys then Equal else Greater)"
proof -
  note x = sval_alt [OF assms(1,3)] and y = sval_alt [OF assms(2,3)]
  have cmp: "bits_compare xs ys =
      (if val xs < val ys then Less else if val xs = val ys then Equal else Greater)"
    using wf_bits_length [OF assms(1)] wf_bits_length [OF assms(2)] by (intro compare_correct) simp
  have same: "(val xs < val ys \<longleftrightarrow> sval N xs < sval N ys) \<and> (val xs = val ys \<longleftrightarrow> sval N xs = sval N ys)"
    if "sval N xs < 0 \<longleftrightarrow> sval N ys < 0"
    using that x(6) y(6) by (cases "sval N xs < 0") auto
  show ?thesis
  proof (cases "sval N xs < 0 \<longleftrightarrow> sval N ys < 0")
    case True
    then show ?thesis
      using same by (simp add: int_compare_def x(2) y(2) cmp)
  qed (auto simp: int_compare_def x(2) y(2))
qed

lemma last_position:
  assumes "0 < N"
  defines "c \<equiv> (if N mod LENGTH('a) \<noteq> 0 then N mod LENGTH('a) - 1 else LENGTH('a) - 1)"
  shows "c < LENGTH('a::len)" "LENGTH('a) * (array_size TYPE('a) N - 1) + c = N - 1"
    "array_size TYPE('a) N - 1 < array_size TYPE('a) N"
proof -
  have "N mod LENGTH('a) - 1 < LENGTH('a)" "LENGTH('a) - 1 < LENGTH('a)"
    using mod_less_divisor [OF len_gt_0, where 'a1 = 'a, of N] len_gt_0 [where 'a = 'a] by linarith+
  then show "c < LENGTH('a)"
    unfolding c_def by simp
  show pos: "array_size TYPE('a) N - 1 < array_size TYPE('a) N"
    using index_less [OF assms(1), where 'a = 'a] by simp
  show "LENGTH('a) * (array_size TYPE('a) N - 1) + c = N - 1"
  proof (cases "N mod LENGTH('a) = 0")
    case True
    then have "N = LENGTH('a) * (array_size TYPE('a) N - 1) + LENGTH('a)"
      using array_size_bounds(1) [OF True] pos by (cases "array_size TYPE('a) N") simp_all
    moreover have "c = LENGTH('a) - 1"
      using True by (simp add: c_def)
    ultimately show ?thesis
      using len_gt_0 [where 'a = 'a] by linarith
  next
    case False
    then show ?thesis
      using array_size_bounds(2) [OF False] unfolding c_def by simp
  qed
qed

lemma int_min_max:
  assumes "0 < N"
  shows "val (int_min N :: 'a::len word list) = 2 ^ (N - 1)" "wf_bits N (int_min N :: 'a word list)"
    "int_max N = bits_not N (int_min N :: 'a word list)"
proof -
  let ?n = "array_size TYPE('a) N"
  define c where "c = (if N mod LENGTH('a) \<noteq> 0 then N mod LENGTH('a) - 1 else LENGTH('a) - 1)"
  note pos = last_position [OF assms, where 'a = 'a, folded c_def]
  have len: "length (bits_min N :: 'a word list) = ?n"
    by (rule wf_bits_length [OF bits_min_val(2)])
  have eq: "int_min N = (bits_min N)[?n - 1 := push_bit c (1 :: 'a word)]"
    by (simp add: int_min_def Let_def c_def)
  have zero: "(bits_min N :: 'a word list) ! (?n - 1) = 0"
    using pos(3) by (simp add: bits_min_def)
  have "?n - 1 < length (bits_min N :: 'a word list)"
    using pos(3) len by simp
  from val_update [OF this, of "push_bit c 1"]
  have "val (int_min N :: 'a word list) = 2 ^ (LENGTH('a) * (?n - 1)) * unat (push_bit c (1 :: 'a word))"
    unfolding eq [symmetric] zero by simp
  also have "\<dots> = 2 ^ (N - 1)"
    unfolding unat_push_one [OF pos(1)] power_add [symmetric] pos(2) by simp
  finally show val: "val (int_min N :: 'a word list) = 2 ^ (N - 1)" .
  then show "wf_bits N (int_min N :: 'a word list)"
    using assms len by (simp add: wf_bits_def eq)
  have min_nth: "(int_min N :: 'a word list) ! i = (if i = ?n - 1 then push_bit c 1 else 0)" if "i < ?n" for i
    using that len by (auto simp: eq bits_min_def)
  define ones where "ones = foldl (update_by (\<lambda>b i. - 1)) (bits_min N :: 'a word list) [0..<?n - 1]"
  have ones: "length ones = ?n" "\<And>i. i < ?n - 1 \<Longrightarrow> ones ! i = - 1"
    using len by (simp_all add: ones_def foldl_update_asc)
  show "int_max N = bits_not N (int_min N :: 'a word list)"
  proof (cases "N mod LENGTH('a) = 0")
    case True
    have "drop_bit 1 (- 1) = NOT (push_bit c (1 :: 'a word))"
      using pos(1) True by (intro bit_word_eqI) (auto simp: bit_simps c_def)
    then have "int_max N = ones[?n - 1 := NOT (push_bit c 1)]"
      using True by (simp only: int_max_def Let_def ones_def end_mask_eq_0 not_True_eq_False if_False simp_thms)
    then show ?thesis
      using True ones pos(3)
      by (intro nth_equalityI) (auto simp: bits_not_def full_words_eq min_nth nth_list_update)
  next
    case False
    have "drop_bit 1 (end_mask N) = NOT (push_bit c (1 :: 'a word)) AND end_mask N"
      using pos(1) False unfolding end_mask_mask [OF False]
      by (intro bit_word_eqI) (auto simp: bit_simps c_def)
    then have "int_max N = ones[?n - 1 := NOT (push_bit c 1) AND end_mask N]"
      using False by (simp only: int_max_def Let_def ones_def end_mask_eq_0 not_False_eq_True if_True simp_thms)
    then show ?thesis
      using False ones pos(3)
      by (intro nth_equalityI) (auto simp: bits_not_def full_words_eq min_nth nth_list_update nth_append)
  qed
qed

lemma shl_assign_signed:
  assumes "wf_bits N xs" "0 < N"
  shows "sval N (int_shl_assign N xs k) = signed_wrap N (sval N xs * 2 ^ k)" "wf_bits N (int_shl_assign N xs k)"
proof -
  have shl: "int (val (bits_shl_assign N ys k)) = (int (val ys) * 2 ^ k) mod 2 ^ N" "wf_bits N (bits_shl_assign N ys k)"
    if "wf_bits N ys" for ys :: "'a word list"
    using bits_shl_assign_val [OF that, of k]
    by (simp_all add: take_bit_eq_mod push_bit_eq_mult zmod_int)
  show wf: "wf_bits N (int_shl_assign N xs k)"
    using shl(2) assms by (simp add: int_shl_assign_def negate_correct(2))
  show "sval N (int_shl_assign N xs k) = signed_wrap N (sval N xs * 2 ^ k)"
  proof (cases "msb_is_set N xs")
    case True
    note neg = negate_signed [OF assms]
    have "int (val (bits_shl_assign N (bits_negate N xs) k)) = (- sval N xs * 2 ^ k) mod 2 ^ N"
      by (simp only: shl(1) [OF neg(2)] neg(1) mod_mult_left_eq)
    from negated_result(1) [OF shl(2) [OF neg(2)] assms(2) this] show ?thesis
      using True by (simp add: int_shl_assign_def)
  next
    case False
    have "int (val (bits_shl_assign N xs k)) = (sval N xs * 2 ^ k) mod 2 ^ N"
      by (simp only: shl(1) [OF assms(1)] sval_alt(5) [OF assms, symmetric] mod_mult_left_eq)
    from sval_eq [OF shl(2) [OF assms(1)] assms(2) this] show ?thesis
      using False by (simp add: int_shl_assign_def)
  qed
qed

text \<open>The right shift divides the magnitude, which rounds towards zero.\<close>

lemma sdiv_pow:
  "(if x < 0 then - (\<bar>x\<bar> div 2 ^ k) else x div 2 ^ k) = x sdiv (2 ^ k :: int)"
  by (auto simp: signed_divide_int_def sgn_if)

lemma shr_assign_signed:
  assumes "wf_bits N xs" "0 < N"
  shows "sval N (int_shr_assign N xs k) = sval N xs sdiv 2 ^ k" "wf_bits N (int_shr_assign N xs k)"
proof -
  define q where "q = \<bar>sval N xs\<bar> div 2 ^ k"
  note x = sval_alt [OF assms] and mag = int_abs_val [OF assms]
  have shr: "int (val (bits_shr_assign N (int_abs N xs) k)) = q" "wf_bits N (bits_shr_assign N (int_abs N xs) k)"
    using bits_shr_assign_val [OF mag(2), of k]
    by (simp_all add: drop_bit_eq_div q_def mag(1) [symmetric] zdiv_int)
  have q: "0 \<le> q" "q \<le> \<bar>sval N xs\<bar>"
  proof -
    have "val (int_abs N xs) div 2 ^ k \<le> val (int_abs N xs)"
      by (rule div_le_dividend)
    then have "int (val (int_abs N xs)) div 2 ^ k \<le> int (val (int_abs N xs))"
      by (metis of_nat_le_iff zdiv_int of_nat_numeral of_nat_power)
    then show "q \<le> \<bar>sval N xs\<bar>"
      by (simp add: q_def mag(1))
  qed (simp add: q_def pos_imp_zdiv_nonneg_iff)
  have "(2 :: int) ^ (N - 1) \<le> 2 ^ N"
    by (rule power_increasing) simp_all
  moreover have "(0 :: int) < 2 ^ (N - 1)"
    by simp
  ultimately have small: "q mod 2 ^ N = q"
    using q x(3,4) double_half [OF assms(2), where 'b = int] by (intro mod_pos_pos_trivial) linarith+
  have eq: "int_shr_assign N xs k =
      (if msb_is_set N xs then bits_negate N (bits_shr_assign N (int_abs N xs) k) else bits_shr_assign N (int_abs N xs) k)"
    by (simp add: int_shr_assign_def int_abs_def)
  show "wf_bits N (int_shr_assign N xs k)"
    using shr(2) by (simp add: eq negate_correct(2))
  have val: "int (val (bits_shr_assign N (int_abs N xs) k)) = q mod 2 ^ N"
    by (simp add: shr(1) small)
  show "sval N (int_shr_assign N xs k) = sval N xs sdiv 2 ^ k"
  proof (cases "sval N xs < 0")
    case True
    then have "sval N (int_shr_assign N xs k) = signed_wrap N (- q)"
      using negated_result(1) [OF shr(2) assms(2) val] by (simp add: eq x(2))
    also have "\<dots> = - q"
      using q x(3) True by (subst signed_wrap_range(4) [OF assms(2)]) linarith
    also have "\<dots> = sval N xs sdiv 2 ^ k"
      using True by (simp add: sdiv_pow [symmetric] q_def)
    finally show ?thesis .
  next
    case False
    then have "sval N (int_shr_assign N xs k) = signed_wrap N q"
      using sval_eq [OF shr(2) assms(2) val] by (simp add: eq x(2))
    also have "\<dots> = q"
      using q x(4) False by (subst signed_wrap_range(4) [OF assms(2)]) linarith
    also have "\<dots> = sval N xs sdiv 2 ^ k"
      using False by (simp add: sdiv_pow [symmetric] q_def)
    finally show ?thesis .
  qed
qed

lemma divmod_signed:
  fixes xs ys r :: "'a::len word list"
  assumes "wf_bits N xs" "wf_bits N ys" "length r = array_size TYPE('a) N" "sval N ys \<noteq> 0" "0 < N"
    "\<bar>sval N xs\<bar> < \<bar>sval N ys\<bar> \<or> (\<exists>k. \<bar>sval N ys\<bar> = 2 ^ k) \<or> array_size TYPE('a) N = 1"
  shows "\<exists>q' r'. int_divmod_out ops False N xs ys r = Inr (q', r') \<and>
    sval N q' = signed_wrap N (sval N xs sdiv sval N ys) \<and> sval N r' = sval N xs smod sval N ys \<and>
    wf_bits N q' \<and> wf_bits N r'"
proof -
  let ?x = "sval N xs" and ?y = "sval N ys"
  note x = sval_alt [OF assms(1,5)] and y = sval_alt [OF assms(2,5)]
  note ax = int_abs_val [OF assms(1,5)] and ay = int_abs_val [OF assms(2,5)]
  have "val (int_abs N xs) < val (int_abs N ys) \<or> (\<exists>k. val (int_abs N ys) = 2 ^ k) \<or> array_size TYPE('a) N = 1"
    using assms(6) unfolding ax(1) [symmetric] ay(1) [symmetric]
    by (metis of_nat_less_iff of_nat_eq_iff of_nat_numeral of_nat_power)
  moreover have "val (int_abs N ys) \<noteq> 0"
    using ay(1) assms(4) by auto
  ultimately obtain q r' where div: "bits_divmod_out ops False N (int_abs N xs) (int_abs N ys) (int_abs N xs) r = Inr (q, r')"
    "val q = val (int_abs N xs) div val (int_abs N ys)" "val r' = val (int_abs N xs) mod val (int_abs N ys)"
    "length q = array_size TYPE('a) N" "length r' = array_size TYPE('a) N"
    using divmod_simple [OF ax(2) ay(2) _ wf_bits_length [OF ax(2)] assms(3)] by blast
  define qa ra where "qa = \<bar>?x\<bar> div \<bar>?y\<bar>" and "ra = \<bar>?x\<bar> mod \<bar>?y\<bar>"
  have qr: "int (val q) = qa" "int (val r') = ra"
    by (simp_all add: div(2,3) zdiv_int zmod_int ax(1) ay(1) qa_def ra_def)
  have bound: "0 \<le> qa" "qa \<le> \<bar>?x\<bar>" "0 \<le> ra" "ra \<le> \<bar>?x\<bar>" "ra < \<bar>?y\<bar>"
  proof -
    have "val q \<le> val (int_abs N xs)"
      unfolding div(2) by (rule div_le_dividend)
    then show "qa \<le> \<bar>?x\<bar>"
      unfolding qr(1) [symmetric] ax(1) [symmetric] by simp
  qed (use assms(4) zmod_le_nonneg_dividend [of "\<bar>?x\<bar>" "\<bar>?y\<bar>"] in
    \<open>simp_all add: qa_def ra_def pos_imp_zdiv_nonneg_iff\<close>)
  have range: "\<bar>?x\<bar> \<le> 2 ^ (N - 1)" "(2 :: int) ^ N = 2 * 2 ^ (N - 1)" "(0 :: int) < 2 ^ (N - 1)"
    using x(3,4) double_half [OF assms(5), where 'b = int] by simp_all
  have small: "qa mod 2 ^ N = qa" "ra mod 2 ^ N = ra"
    using bound range by (intro mod_pos_pos_trivial; linarith)+
  have wf: "wf_bits N q" "wf_bits N r'"
  proof -
    have "int (val q) < 2 ^ N" "int (val r') < 2 ^ N"
      using qr bound range by linarith+
    then show "wf_bits N q" "wf_bits N r'"
      using div(4,5) by (simp_all add: wf_bits_def)
  qed
  have eq: "int_divmod_out ops False N xs ys r = Inr (if (?x < 0) \<noteq> (?y < 0) then bits_negate N q else q,
      if ?x < 0 then bits_negate N r' else r')"
    using div(1) by (simp add: int_divmod_out_values int_divmod_values_def int_abs_def Let_def x(2) y(2))
  have q: "sval N (if (?x < 0) \<noteq> (?y < 0) then bits_negate N q else q) = signed_wrap N (?x sdiv ?y)"
  proof -
    have "?x sdiv ?y = (if (?x < 0) \<noteq> (?y < 0) then - qa else qa)"
      by (auto simp: signed_divide_int_def sgn_if qa_def assms(4))
    then show ?thesis
      using negated_result(1) [OF wf(1) assms(5), of qa] sval_eq [OF wf(1) assms(5), of qa] qr small by simp
  qed
  have r: "sval N (if ?x < 0 then bits_negate N r' else r') = ?x smod ?y"
  proof -
    have "?x smod ?y = (if ?x < 0 then - ra else ra)"
      by (auto simp: signed_modulo_int_def sgn_if ra_def)
    moreover have "signed_wrap N (- ra) = - ra" if "?x < 0"
      using bound range that x(3) by (subst signed_wrap_range(4) [OF assms(5)]) linarith
    moreover have "signed_wrap N ra = ra" if "\<not> ?x < 0"
      using bound range that x(4) by (subst signed_wrap_range(4) [OF assms(5)]) linarith
    ultimately show ?thesis
      using negated_result(1) [OF wf(2) assms(5), of ra] sval_eq [OF wf(2) assms(5), of ra] qr small by simp
  qed
  show ?thesis
    using q r wf by (simp add: eq negate_correct(2))
qed


section \<open>What the signed operations compute\<close>

text \<open>Signed addition and subtraction denote the sum and the difference reduced to the signed
  range, and the flag is raised exactly when they leave it.\<close>

theorem signed_sums:
  fixes xs ys :: "'a::len word list"
  assumes "wf_bits N xs" "wf_bits N ys" "length out = array_size TYPE('a) N" "0 < N"
  shows "sval N (snd (int_add_out ops N xs ys out)) = signed_wrap N (sval N xs + sval N ys) \<and>
    (fst (int_add_out ops N xs ys out) \<longleftrightarrow> \<not> (- (2 ^ (N - 1)) \<le> sval N xs + sval N ys \<and> sval N xs + sval N ys < 2 ^ (N - 1))) \<and>
    sval N (snd (int_sub_out N xs ys out)) = signed_wrap N (sval N xs - sval N ys) \<and>
    (fst (int_sub_out N xs ys out) \<longleftrightarrow> \<not> (- (2 ^ (N - 1)) \<le> sval N xs - sval N ys \<and> sval N xs - sval N ys < 2 ^ (N - 1))) \<and>
    int_add ops N xs ys = int_add_out ops N xs ys (bits_min N) \<and>
    int_sub N xs ys = int_sub_out N xs ys (bits_min N)"
  using int_add_out_signed [OF assms, of ops] int_sub_out_signed [OF assms]
  unfolding signed_wrap_range(4) [OF assms(4)] by (simp add: int_add_is_out int_sub_is_out)

lemma signed_sums_witness:
  "wf_bits 8 [0x7F :: 8 word] \<and> fst (int_add_out native_big 8 [0x7F :: 8 word] [1] [0]) \<and>
   sval 8 (snd (int_add_out native_big 8 [0x7F :: 8 word] [1] [0])) = - 128"
  using signed_sums [of 8 "[0x7F :: 8 word]" "[1]" "[0]" native_big]
  by (simp add: wf_bits_def array_size_def sval_def signed_wrap_def bit_iff_odd)

text \<open>The signed product of a single word denotes the product reduced to the signed range, but
  its flag tests the product of the bit patterns: it is exact for two operands that are not
  negative, and is raised for every negative operand unless the other one is zero.\<close>

theorem signed_product:
  fixes xs ys :: "'a::len word list"
  assumes "wf_bits N xs" "wf_bits N ys" "length out = array_size TYPE('a) N" "0 < N"
    "array_size TYPE('a) N = 1" "\<not> composite ops"
  shows "sval N (snd (int_mul_out ops N xs ys out)) = signed_wrap N (sval N xs * sval N ys) \<and>
    (fst (int_mul_out ops N xs ys out) \<longleftrightarrow>
      (if 0 \<le> sval N xs \<and> 0 \<le> sval N ys then 2 ^ (N - 1) \<le> sval N xs * sval N ys
       else sval N xs \<noteq> 0 \<and> sval N ys \<noteq> 0))"
proof -
  note x = sval_alt [OF assms(1,4)] and y = sval_alt [OF assms(2,4)]
  note zero = sval_zero_iff [OF assms(1,4)] sval_zero_iff [OF assms(2,4)]
  have cast: "2 ^ (N - 1) \<le> val xs * val ys \<longleftrightarrow> (2 :: int) ^ (N - 1) \<le> int (val xs) * int (val ys)"
    by (metis of_nat_le_iff of_nat_mult of_nat_numeral of_nat_power)
  have big: "(2 :: int) ^ (N - 1) \<le> a * b" if "2 ^ (N - 1) \<le> a" "1 \<le> b" for a b :: int
  proof -
    have "0 \<le> a"
      using order_trans [OF zero_le_power that(1)] by simp
    then show ?thesis
      using mult_mono [of "2 ^ (N - 1)" a 1 b] that by simp
  qed
  have "(2 :: int) ^ (N - 1) \<le> int (val xs) * int (val ys) \<longleftrightarrow>
    (if 0 \<le> sval N xs \<and> 0 \<le> sval N ys then 2 ^ (N - 1) \<le> sval N xs * sval N ys
     else sval N xs \<noteq> 0 \<and> sval N ys \<noteq> 0)"
  proof (cases "0 \<le> sval N xs \<and> 0 \<le> sval N ys")
    case True
    then show ?thesis
      using x(6) y(6) by simp
  next
    case False
    have pos: "2 ^ (N - 1) \<le> int (val xs)" if "sval N xs < 0"
      using that x(1) by (auto split: if_splits)
    have pos': "2 ^ (N - 1) \<le> int (val ys)" if "sval N ys < 0"
      using that y(1) by (auto split: if_splits)
    show ?thesis
    proof (cases "val xs = 0 \<or> val ys = 0")
      case True
      then show ?thesis
        using False zero by auto
    next
      case nz: False
      then have one: "1 \<le> int (val xs)" "1 \<le> int (val ys)"
        by simp_all
      have "(2 :: int) ^ (N - 1) \<le> int (val xs) * int (val ys)"
      proof (cases "sval N xs < 0")
        case True
        then show ?thesis
          by (rule big [OF pos one(2)])
      next
        case False
        then have "sval N ys < 0"
          using \<open>\<not> (0 \<le> sval N xs \<and> 0 \<le> sval N ys)\<close> by simp
        then show ?thesis
          using big [OF pos' one(1)] by (simp only: mult.commute)
      qed
      then show ?thesis
        using False nz zero by auto
    qed
  qed
  then show ?thesis
    using int_mul_single [OF assms] cast by simp
qed

lemma signed_product_witness:
  "wf_bits 8 [0xFF :: 8 word] \<and> fst (int_mul_out native_big 8 [0xFF :: 8 word] [1] [0]) \<and>
   sval 8 (snd (int_mul_out native_big 8 [0xFF :: 8 word] [1] [0])) = - 1"
  using signed_product [of 8 "[0xFF :: 8 word]" "[1]" "[0]" native_big]
  by (simp add: wf_bits_def array_size_def sval_def signed_wrap_def bit_iff_odd native_big_def)

text \<open>Signed comparison is the order of the denoted numbers, \<open>min\<close> and \<open>max\<close> are the ends of
  the range, and \<open>sign\<close> is one for zero.\<close>

theorem signed_order:
  fixes xs ys :: "'a::len word list"
  assumes "wf_bits N xs" "wf_bits N ys" "0 < N"
  shows "int_compare N xs ys =
      (if sval N xs < sval N ys then Less else if sval N xs = sval N ys then Equal else Greater) \<and>
    sval N (int_min N :: 'a word list) = - (2 ^ (N - 1)) \<and> sval N (int_max N :: 'a word list) = 2 ^ (N - 1) - 1 \<and>
    int_sign N xs = (if sval N xs < 0 then - 1 else 1)"
proof -
  note mm = int_min_max [OF assms(3), where 'a = 'a]
  have dbl: "(2 :: int) ^ N = 2 * 2 ^ (N - 1)" "(2 :: nat) ^ N = 2 * 2 ^ (N - 1)"
    by (rule double_half [OF assms(3)])+
  have "sval N (int_min N :: 'a word list) = - (2 ^ (N - 1))"
    using sval_alt(1) [OF mm(2) assms(3)] dbl(1) by (simp add: mm(1))
  moreover have "sval N (int_max N :: 'a word list) = 2 ^ (N - 1) - 1"
  proof -
    have wf: "wf_bits N (int_max N :: 'a word list)"
      unfolding mm(3) by (rule bits_not_bits(1) [OF mm(2)])
    have val: "int (val (int_max N :: 'a word list)) = 2 ^ (N - 1) - 1"
      using bits_not_val [OF mm(2)] unfolding mm(3) mm(1) dbl(2) by (simp add: of_nat_diff)
    show ?thesis
      unfolding sval_alt(1) [OF wf assms(3)] val by simp
  qed
  ultimately show ?thesis
    using int_compare_signed [OF assms] sval_alt(2) [OF assms(1,3)] by (simp add: int_sign_def)
qed

lemma signed_order_witness:
  "wf_bits 12 [0x00, 0x08 :: 8 word] \<and> int_compare 12 [0x00, 0x08 :: 8 word] [0x01, 0x00] = Less"
  using signed_order [of 12 "[0x00, 0x08 :: 8 word]" "[0x01, 0x00]"]
  by (simp add: wf_bits_def array_size_def sval_def bit_iff_odd)

text \<open>The signed shifts multiply by a power of two within the signed range, and divide by one
  rounding towards zero.\<close>

theorem signed_shifts:
  assumes "wf_bits N xs" "0 < N"
  shows "sval N (int_shl_assign N xs k) = signed_wrap N (sval N xs * 2 ^ k) \<and>
    sval N (int_shr_assign N xs k) = sval N xs sdiv 2 ^ k"
  using shl_assign_signed [OF assms] shr_assign_signed [OF assms] by simp

lemma signed_shifts_witness:
  "wf_bits 8 [0xFB :: 8 word] \<and> sval 8 (int_shr_assign 8 [0xFB :: 8 word] 1) = - 2"
  using signed_shifts [of 8 "[0xFB :: 8 word]" 1]
  by (simp add: wf_bits_def array_size_def sval_def bit_iff_odd signed_divide_int_def)

text \<open>C32.  In a release build, for a divisor that is not zero and is not the object of the quotient, signed division rounds
  towards zero and the remainder has the sign of the dividend, whenever the division of the magnitudes needs no kernel (a
  smaller dividend, a power of two, a single word); the least number divided by \<open>-1\<close> wraps around.  The dividend may be
  either out parameter and the divisor that of the remainder; other objects keep their values.\<close>

theorem signed_division:
  fixes m :: "nat \<Rightarrow> 'a::len word list"
  assumes "wf_bits N (m a)" "wf_bits N (m b)" "length (m r) = array_size TYPE('a) N" "sval N (m b) \<noteq> 0" "0 < N" "q \<noteq> b" "q \<noteq> r"
    "\<bar>sval N (m a)\<bar> < \<bar>sval N (m b)\<bar> \<or> (\<exists>k. \<bar>sval N (m b)\<bar> = 2 ^ k) \<or> array_size TYPE('a) N = 1"
  shows "\<exists>m'. int_divmod_at ops False N a b q r m = Inr m' \<and>
    sval N (m' q) = signed_wrap N (sval N (m a) sdiv sval N (m b)) \<and> sval N (m' r) = sval N (m a) smod sval N (m b) \<and>
    (\<forall>k. k \<noteq> q \<and> k \<noteq> r \<longrightarrow> m' k = m k)"
proof -
  obtain x y where "int_divmod_values ops False N (m a) (m b) (m r) = Inr (x, y)"
    "sval N x = signed_wrap N (sval N (m a) sdiv sval N (m b))" "sval N y = sval N (m a) smod sval N (m b)"
    using divmod_signed [OF assms(1-5,8), of ops] unfolding int_divmod_out_values by blast
  then show ?thesis
    using assms(7) by (simp add: int_divmod_at_values [OF assms(6,7)])
qed

lemma signed_division_witness:
  "\<exists>m' :: nat \<Rightarrow> 8 word list. int_divmod_at native_big False 8 0 1 0 2 ((\<lambda>_. [0])(0 := [0xF9], 1 := [2])) = Inr m' \<and>
     sval 8 (m' 0) = - 3 \<and> sval 8 (m' 2) = - 1"
proof -
  let ?m = "(\<lambda>_. [0])(0 := [0xF9], 1 := [2]) :: nat \<Rightarrow> 8 word list"
  have "wf_bits 8 (?m 0)" "wf_bits 8 (?m 1)" "length (?m 2) = array_size TYPE(8) 8" "sval 8 (?m 1) \<noteq> 0" "array_size TYPE(8) 8 = 1"
    by (simp_all add: wf_bits_def array_size_def sval_def bit_iff_odd)
  then show ?thesis
    using signed_division [of 8 ?m 0 1 2 0 native_big]
    by (auto simp: sval_def bit_iff_odd signed_divide_int_def signed_modulo_int_def signed_wrap_def)
qed

lemma divmod_alias:
  fixes m :: "nat \<Rightarrow> 'a::len word list"
  assumes "wf_bits N (m a)" "wf_bits N (m b)" "length (m r) = array_size TYPE('a) N" "0 < N" "b \<noteq> r"
    "sval N (m a) \<noteq> 0" "sval N (m a) \<noteq> - (2 ^ (N - 1))" "sval N (m b) < 0 \<or> (\<exists>k. \<bar>sval N (m a)\<bar> = 2 ^ k) \<or> array_size TYPE('a) N = 1"
  shows "\<exists>m'. int_divmod_at ops False N a b b r m = Inr m' \<and>
    sval N (m' b) = (if sval N (m b) < 0 then 0 else sgn (sval N (m a))) \<and>
    sval N (m' r) = (if sval N (m b) < 0 then sval N (m a) else 0)"
proof -
  let ?x = "sval N (m a)" and ?y = "sval N (m b)"
  define A where "A = int_abs N (m a)"
  define D where "D = (if ?y < 0 then bits_negate N A else A)"
  note x = sval_alt [OF assms(1,4)] and y = sval_alt [OF assms(2,4)]
  note A = int_abs_val [OF assms(1,4), folded A_def]
  have range: "\<bar>?x\<bar> < 2 ^ (N - 1)" "(2 :: int) ^ N = 2 * 2 ^ (N - 1)" "0 < \<bar>?x\<bar>"
    using x(3,4) assms(6,7) double_half [OF assms(4), where 'b = int] by auto
  have vA: "0 < val A" "2 * val A < 2 ^ N"
  proof -
    show "0 < val A"
      using A(1) range(3) by linarith
    have "int (2 * val A) < int (2 ^ N)"
      using A(1) range(1,2) by simp
    then show "2 * val A < 2 ^ N"
      by (simp only: of_nat_less_iff)
  qed
  have D: "wf_bits N D" "val D = (if ?y < 0 then 2 ^ N - val A else val A)"
    using negate_correct [OF A(2)] A(2) vA by (simp_all add: D_def)
  have "val A < val D \<or> (\<exists>k. val D = 2 ^ k) \<or> array_size TYPE('a) N = 1"
  proof (cases "?y < 0")
    case True
    have "val A < 2 ^ N - val A"
      using vA(2) by linarith
    then show ?thesis
      using True by (simp add: D(2))
  next
    case False
    have "\<exists>k. val A = 2 ^ k" if "\<bar>?x\<bar> = 2 ^ k" for k
      using that unfolding A(1) [symmetric] by (metis of_nat_eq_iff of_nat_numeral of_nat_power)
    then show ?thesis
      using False assms(8) by (auto simp: D(2))
  qed
  moreover have "val D \<noteq> 0"
    using vA D(2) by (simp split: if_splits)
  ultimately obtain q' r' where div: "bits_divmod_out ops False N A D A (m r) = Inr (q', r')"
    "val q' = val A div val D" "val r' = val A mod val D" "length q' = array_size TYPE('a) N" "length r' = array_size TYPE('a) N"
    using divmod_simple [OF A(2) D(1) _ wf_bits_length [OF A(2)] assms(3)] by blast
  have vq: "int (val q') = (if ?y < 0 then 0 else 1)" "int (val r') = (if ?y < 0 then \<bar>?x\<bar> else 0)"
    using vA by (simp_all add: div(2,3) D(2) A(1))
  have "1 < (2 :: int) ^ N"
    using range by linarith
  then have "int (val q') < int (2 ^ N)" "int (val r') < int (2 ^ N)"
    using vq range by (simp_all split: if_splits)
  then have wf: "wf_bits N q'" "wf_bits N r'"
    using div(4,5) by (simp_all only: of_nat_less_iff wf_bits_def)
  have one: "(1 :: int) < 2 ^ N" "(0 :: int) mod 2 ^ N = 0" "(1 :: int) mod 2 ^ N = 1" "\<bar>?x\<bar> mod 2 ^ N = \<bar>?x\<bar>"
    using range by (simp_all add: mod_pos_pos_trivial)
  define s where "s = (?x < 0)"
  have run: "int_divmod_at ops False N a b b r m =
      Inr (let n = m(b := q', r := r'); n = (if s \<noteq> (?y < 0) then n(b := bits_negate N (n b)) else n)
        in if s then n(r := bits_negate N (n r)) else n)"
  proof -
    have m2: "(if s then (m(b := m a))(b := bits_negate N ((m(b := m a)) b)) else m(b := m a)) = m(b := A)"
      by (simp add: s_def A_def int_abs_def x(2))
    show ?thesis
      unfolding int_divmod_at_def x(2) y(2) s_def [symmetric] Let_def [of s] Let_def [of "?y < 0"] Let_def [of "m(b := m a)"] m2
      using div(1) assms(5) by (cases "?y < 0") (simp_all add: D_def Let_def)
  qed
  define q2 r2 where "q2 = (if s \<noteq> (?y < 0) then bits_negate N q' else q')" and "r2 = (if s then bits_negate N r' else r')"
  have run': "int_divmod_at ops False N a b b r m = Inr (m(b := q2, r := r2))"
    unfolding run Let_def q2_def r2_def using assms(5) by (auto simp: fun_upd_twist [of b r])
  have wrap: "signed_wrap N k = k" if "- (2 ^ (N - 1)) \<le> k" "k < 2 ^ (N - 1)" for k
    using that signed_wrap_range(4) [OF assms(4)] by blast
  have "sval N q2 = (if ?y < 0 then 0 else sgn ?x)"
  proof -
    define k where "k = (if ?y < 0 then 0 else 1 :: int)"
    have k: "int (val q') = k mod 2 ^ N"
      using vq(1) one by (simp add: k_def)
    have "sval N q2 = signed_wrap N (if s \<noteq> (?y < 0) then - k else k)"
      using negated_result(1) [OF wf(1) assms(4) k] sval_eq [OF wf(1) assms(4) k] by (simp add: q2_def)
    moreover have "- (2 ^ (N - 1)) \<le> (if s \<noteq> (?y < 0) then - k else k)" "(if s \<noteq> (?y < 0) then - k else k) < 2 ^ (N - 1)"
    proof -
      have "- 1 \<le> (if s \<noteq> (?y < 0) then - k else k)" "(if s \<noteq> (?y < 0) then - k else k) \<le> 1"
        by (simp_all add: k_def)
      then show "- (2 ^ (N - 1)) \<le> (if s \<noteq> (?y < 0) then - k else k)" "(if s \<noteq> (?y < 0) then - k else k) < 2 ^ (N - 1)"
        using range(1,3) by linarith+
    qed
    ultimately have "sval N q2 = (if s \<noteq> (?y < 0) then - k else k)"
      using wrap by simp
    then show ?thesis
      using assms(6) by (simp add: k_def s_def sgn_if)
  qed
  moreover have "sval N r2 = (if ?y < 0 then ?x else 0)"
  proof -
    define k where "k = (if ?y < 0 then \<bar>?x\<bar> else 0)"
    have k: "int (val r') = k mod 2 ^ N"
      using vq(2) one by (simp add: k_def)
    have "sval N r2 = signed_wrap N (if s then - k else k)"
      using negated_result(1) [OF wf(2) assms(4) k] sval_eq [OF wf(2) assms(4) k] by (simp add: r2_def)
    moreover have "0 \<le> k" "k \<le> \<bar>?x\<bar>"
      by (simp_all add: k_def)
    then have "- (2 ^ (N - 1)) \<le> (if s then - k else k)" "(if s then - k else k) < 2 ^ (N - 1)"
      using range(1,3) by (cases s, simp_all only: if_True if_False; linarith)+
    ultimately have "sval N r2 = (if s then - k else k)"
      using wrap by simp
    then show ?thesis
      by (simp add: k_def s_def)
  qed
  ultimately show ?thesis
    using assms(5) by (simp add: run')
qed

text \<open>So \<open>a /= a\<close> is zero for a negative number.\<close>

lemma div_assign_self:
  fixes m :: "nat \<Rightarrow> 'a::len word list"
  assumes "wf_bits N (m a)" "0 < N" "sval N (m a) < 0" "sval N (m a) \<noteq> - (2 ^ (N - 1))"
  shows "\<exists>m'. int_div_assign ops False N a a m = Inr m' \<and> sval N (m' a) = 0"
proof -
  let ?m = "m(Suc a := bits_min N)"
  have same: "?m a = m a"
    by simp
  have "length (?m (Suc a)) = array_size TYPE('a) N"
    using wf_bits_length [OF bits_min_val(2)] by simp
  from divmod_alias [of N ?m a a "Suc a" ops, unfolded same, OF assms(1,1) this assms(2) _ _ assms(4)]
  obtain m' where "int_divmod_at ops False N a a a (Suc a) ?m = Inr m'" "sval N (m' a) = 0"
    using assms(3) by auto
  then show ?thesis
    by (simp add: int_div_assign_def Let_def)
qed

text \<open>C33.  The divisor as out parameter for the quotient, which the comment of \<open>divmod\<close> allows, is
  overwritten by the magnitude of the dividend before it is read: in a release build the quotient is then
  zero for every negative divisor and the sign of the dividend for any other, and the remainder the dividend
  or zero, whatever the divisor was.  The remainder goes to another object, the dividend is neither zero nor
  the least number, and for a divisor that is not negative there is a single word or the magnitude of the
  dividend is a power of two.\<close>

theorem divisor_alias:
  fixes m :: "nat \<Rightarrow> 'a::len word list"
  assumes "wf_bits N (m a)" "wf_bits N (m b)" "length (m r) = array_size TYPE('a) N" "0 < N" "b \<noteq> r"
    "sval N (m a) \<noteq> 0" "sval N (m a) \<noteq> - (2 ^ (N - 1))" "sval N (m b) < 0 \<or> (\<exists>k. \<bar>sval N (m a)\<bar> = 2 ^ k) \<or> array_size TYPE('a) N = 1"
  shows "\<exists>m'. int_divmod_at ops False N a b b r m = Inr m' \<and>
    sval N (m' b) = (if sval N (m b) < 0 then 0 else sgn (sval N (m a))) \<and>
    sval N (m' r) = (if sval N (m b) < 0 then sval N (m a) else 0)"
  by (rule divmod_alias [OF assms])

lemma divisor_alias_witness:
  "\<exists>m' :: nat \<Rightarrow> 8 word list. int_divmod_at native_big False 8 0 0 0 3 (\<lambda>_. [0xFB]) = Inr m' \<and> sval 8 (m' 0) = 0 \<and> sval 8 (m' 3) = - 5"
proof -
  let ?m = "\<lambda>_ :: nat. [0xFB :: 8 word]"
  have size: "array_size TYPE(8) 8 = Suc 0"
    by (simp add: array_size_def)
  have m: "wf_bits 8 (?m 0)" "length (?m 3) = array_size TYPE(8) 8" "sval 8 (?m 0) = - 5"
    by (simp_all add: wf_bits_def size sval_def bit_iff_odd)
  have "(- 5 :: int) \<noteq> 0" "(- 5 :: int) \<noteq> - (2 ^ (8 - 1))" "(- 5 :: int) < 0" "(0 :: nat) < 8" "(0 :: nat) \<noteq> 3"
    by simp_all
  then show ?thesis
    using divisor_alias [of 8 ?m 0 0 3 native_big, unfolded m(3), OF m(1,1,2)] by simp
qed

text \<open>The overflow check of a debug build: it raises for the least number divided by \<open>-1\<close> on a
  small word; on several words it misses that case and raises for the divisor \<open>2 ^ 64 - 1\<close> instead,
  because \<open>-1\<close> is not sign extended; on a single word of 32 bits it is undefined for every negative dividend.\<close>

theorem division_check:
  "int_divmod native_big True 8 [0x80 :: 8 word] [0xFF] = Inl OverflowError \<and>
   int_divmod native_big True 128 [0, 0x8000000000000000 :: 64 word] [0xFFFFFFFFFFFFFFFF, 0xFFFFFFFFFFFFFFFF] =
     Inr ([0, 0x8000000000000000], [0, 0]) \<and>
   int_divmod native_big True 128 [0, 0x8000000000000000 :: 64 word] [0xFFFFFFFFFFFFFFFF, 0] = Inl OverflowError \<and>
   int_divmod native_big True 32 [0xFFFFFFFE :: 32 word] [1] = Inl Undefined"
  by (intro conjI; code_simp)

end
