(* ===== verification/UnsignedInts.thy ===== *)
theory UnsignedInts
  imports BitDiv
begin

text \<open>
  The unsigned integers \<open>UInt<N>\<close>, whose only field is a \<open>Bits<N>\<close>: every operation forwards
  to that field.  A \<open>UInt\<close> is represented by the words of the field.  A variable that is updated
  by the assigning operators is a small machine, which refines arithmetic modulo \<open>2 ^ N\<close>.
\<close>

section \<open>The operations\<close>

definition uint_min :: "nat \<Rightarrow> 'a::len word list" where
  "uint_min N = bits_min N"

definition uint_max :: "nat \<Rightarrow> 'a::len word list" where
  "uint_max N = bits_max N"

text \<open>Swapping two variables: their new values.\<close>

definition uint_swap :: "'a::len word list \<Rightarrow> 'a word list \<Rightarrow> 'a word list \<times> 'a word list" where
  "uint_swap xs ys = (ys, xs)"

definition uint_to_word :: "'a::len word list \<Rightarrow> 'a word" where
  "uint_to_word xs = xs ! 0"

definition uint_to_bool :: "'a::len word list \<Rightarrow> bool" where
  "uint_to_bool xs = bits_to_bool xs"

definition uint_sign :: "'a::len word list \<Rightarrow> int" where
  "uint_sign xs = 1"

definition uint_add ::
  "'a::len word big_ops \<Rightarrow> nat \<Rightarrow> 'a word list \<Rightarrow> 'a word list \<Rightarrow> bool \<times> 'a word list" where
  "uint_add ops N xs ys = bits_add ops N xs ys"

definition uint_add_out ::
  "'a::len word big_ops \<Rightarrow> nat \<Rightarrow> 'a word list \<Rightarrow> 'a word list \<Rightarrow> 'a word list \<Rightarrow> bool \<times> 'a word list" where
  "uint_add_out ops N xs ys out = bits_add_out ops N xs ys out"

definition uint_sub :: "nat \<Rightarrow> 'a::len word list \<Rightarrow> 'a word list \<Rightarrow> bool \<times> 'a word list" where
  "uint_sub N xs ys = bits_sub N xs ys"

definition uint_sub_out ::
  "nat \<Rightarrow> 'a::len word list \<Rightarrow> 'a word list \<Rightarrow> 'a word list \<Rightarrow> bool \<times> 'a word list" where
  "uint_sub_out N xs ys out = bits_sub_out N xs ys out"

definition uint_mul ::
  "'a::len word big_ops \<Rightarrow> nat \<Rightarrow> 'a word list \<Rightarrow> 'a word list \<Rightarrow> bool \<times> 'a word list" where
  "uint_mul ops N xs ys = bits_mul ops N xs ys"

definition uint_mul_out ::
  "'a::len word big_ops \<Rightarrow> nat \<Rightarrow> 'a word list \<Rightarrow> 'a word list \<Rightarrow> 'a word list \<Rightarrow> bool \<times> 'a word list" where
  "uint_mul_out ops N xs ys out = bits_mul_out ops N xs ys out"

definition uint_divmod ::
  "'a::len word big_ops \<Rightarrow> bool \<Rightarrow> nat \<Rightarrow> 'a word list \<Rightarrow> 'a word list \<Rightarrow> ('a word list \<times> 'a word list) res" where
  "uint_divmod ops debug N xs ys = bits_divmod ops debug N xs ys"

definition uint_divmod_rem ::
  "'a::len word big_ops \<Rightarrow> bool \<Rightarrow> nat \<Rightarrow> 'a word list \<Rightarrow> 'a word list \<Rightarrow> 'a word list \<Rightarrow>
   ('a word list \<times> 'a word list) res" where
  "uint_divmod_rem ops debug N xs ys r = bits_divmod_rem ops debug N xs ys r"

definition uint_divmod_out ::
  "'a::len word big_ops \<Rightarrow> bool \<Rightarrow> nat \<Rightarrow> 'a word list \<Rightarrow> 'a word list \<Rightarrow> 'a word list \<Rightarrow> 'a word list \<Rightarrow>
   ('a word list \<times> 'a word list) res" where
  "uint_divmod_out ops debug N xs ys q r = bits_divmod_out ops debug N xs ys q r"

definition uint_compare :: "'a::len word list \<Rightarrow> 'a word list \<Rightarrow> ordering" where
  "uint_compare xs ys = bits_compare xs ys"

definition uint_eq :: "nat \<Rightarrow> 'a::len word list \<Rightarrow> 'a word list \<Rightarrow> bool" where
  "uint_eq N xs ys = bits_eq N xs ys"

definition uint_not :: "nat \<Rightarrow> 'a::len word list \<Rightarrow> 'a word list" where
  "uint_not N xs = bits_not N xs"

definition uint_and :: "nat \<Rightarrow> 'a::len word list \<Rightarrow> 'a word list \<Rightarrow> 'a word list" where
  "uint_and N xs ys = bits_and N xs ys"

definition uint_and_assign :: "nat \<Rightarrow> 'a::len word list \<Rightarrow> 'a word list \<Rightarrow> 'a word list" where
  "uint_and_assign N xs ys = bits_and_assign N xs ys"

definition uint_or :: "nat \<Rightarrow> 'a::len word list \<Rightarrow> 'a word list \<Rightarrow> 'a word list" where
  "uint_or N xs ys = bits_or N xs ys"

definition uint_or_assign :: "nat \<Rightarrow> 'a::len word list \<Rightarrow> 'a word list \<Rightarrow> 'a word list" where
  "uint_or_assign N xs ys = bits_or_assign N xs ys"

definition uint_xor :: "nat \<Rightarrow> 'a::len word list \<Rightarrow> 'a word list \<Rightarrow> 'a word list" where
  "uint_xor N xs ys = bits_xor N xs ys"

definition uint_xor_assign :: "nat \<Rightarrow> 'a::len word list \<Rightarrow> 'a word list \<Rightarrow> 'a word list" where
  "uint_xor_assign N xs ys = bits_xor_assign N xs ys"

definition uint_shl :: "nat \<Rightarrow> 'a::len word list \<Rightarrow> nat \<Rightarrow> 'a word list option" where
  "uint_shl N xs rhs = bits_shl N xs rhs"

definition uint_shl_assign :: "nat \<Rightarrow> 'a::len word list \<Rightarrow> nat \<Rightarrow> 'a word list" where
  "uint_shl_assign N xs rhs = bits_shl_assign N xs rhs"

definition uint_shr :: "nat \<Rightarrow> 'a::len word list \<Rightarrow> nat \<Rightarrow> 'a word list option" where
  "uint_shr N xs rhs = bits_shr N xs rhs"

definition uint_shr_assign :: "nat \<Rightarrow> 'a::len word list \<Rightarrow> nat \<Rightarrow> 'a word list" where
  "uint_shr_assign N xs rhs = bits_shr_assign N xs rhs"

definition uint_inc :: "nat \<Rightarrow> 'a::len word list \<Rightarrow> 'a word list" where
  "uint_inc N xs = bits_inc N xs"

text \<open>The postfix forms: the returned old value and the new state.\<close>

definition uint_post_inc :: "nat \<Rightarrow> 'a::len word list \<Rightarrow> 'a word list \<times> 'a word list" where
  "uint_post_inc N xs = (let copy = xs in (copy, bits_inc N xs))"

definition uint_plus :: "'a::len word big_ops \<Rightarrow> nat \<Rightarrow> 'a word list \<Rightarrow> 'a word list \<Rightarrow> 'a word list" where
  "uint_plus ops N xs ys = bits_plus ops N xs ys"

definition uint_plus_assign :: "'a::len word big_ops \<Rightarrow> nat \<Rightarrow> 'a word list \<Rightarrow> 'a word list \<Rightarrow> 'a word list" where
  "uint_plus_assign ops N xs ys = snd (bits_add_out ops N xs ys xs)"

definition uint_neg :: "nat \<Rightarrow> 'a::len word list \<Rightarrow> 'a word list" where
  "uint_neg N xs = bits_negate N xs"

definition uint_dec :: "nat \<Rightarrow> 'a::len word list \<Rightarrow> 'a word list" where
  "uint_dec N xs = bits_dec N xs"

definition uint_post_dec :: "nat \<Rightarrow> 'a::len word list \<Rightarrow> 'a word list \<times> 'a word list" where
  "uint_post_dec N xs = (let copy = xs in (copy, bits_dec N xs))"

definition uint_minus :: "nat \<Rightarrow> 'a::len word list \<Rightarrow> 'a word list \<Rightarrow> 'a word list" where
  "uint_minus N xs ys = bits_minus N xs ys"

definition uint_minus_assign :: "nat \<Rightarrow> 'a::len word list \<Rightarrow> 'a word list \<Rightarrow> 'a word list" where
  "uint_minus_assign N xs ys = snd (bits_sub_out N xs ys xs)"

definition uint_times :: "'a::len word big_ops \<Rightarrow> nat \<Rightarrow> 'a word list \<Rightarrow> 'a word list \<Rightarrow> 'a word list" where
  "uint_times ops N xs ys = bits_times ops N xs ys"

definition uint_times_assign :: "'a::len word big_ops \<Rightarrow> nat \<Rightarrow> 'a word list \<Rightarrow> 'a word list \<Rightarrow> 'a word list" where
  "uint_times_assign ops N xs ys = snd (bits_mul_out ops N xs ys xs)"

definition uint_div :: "'a::len word big_ops \<Rightarrow> bool \<Rightarrow> nat \<Rightarrow> 'a word list \<Rightarrow> 'a word list \<Rightarrow> 'a word list res" where
  "uint_div ops debug N xs ys = bits_div ops debug N xs ys"

definition uint_div_assign :: "'a::len word big_ops \<Rightarrow> bool \<Rightarrow> nat \<Rightarrow> 'a word list \<Rightarrow> 'a word list \<Rightarrow> 'a word list res" where
  "uint_div_assign ops debug N xs ys = bits_div_assign ops debug N xs ys"

definition uint_mod :: "'a::len word big_ops \<Rightarrow> bool \<Rightarrow> nat \<Rightarrow> 'a word list \<Rightarrow> 'a word list \<Rightarrow> 'a word list res" where
  "uint_mod ops debug N xs ys = bits_mod ops debug N xs ys"

definition uint_mod_assign :: "'a::len word big_ops \<Rightarrow> bool \<Rightarrow> nat \<Rightarrow> 'a word list \<Rightarrow> 'a word list \<Rightarrow> 'a word list res" where
  "uint_mod_assign ops debug N xs ys = bits_mod_assign ops debug N xs ys"

section \<open>A variable and its assigning operators\<close>

text \<open>The statements on one variable, over operands of type \<open>'v\<close>.\<close>

datatype 'v uint_cmd =
    Assign 'v
  | PlusAssign 'v
  | MinusAssign 'v
  | TimesAssign 'v
  | AndAssign 'v
  | OrAssign 'v
  | XorAssign 'v
  | ShlAssign nat
  | ShrAssign nat
  | DivAssign 'v
  | ModAssign 'v
  | Increment
  | Decrement

text \<open>One statement: the new value of the variable, or the error of a division.\<close>

fun uint_exec ::
  "'a::len word big_ops \<Rightarrow> bool \<Rightarrow> nat \<Rightarrow> 'a word list uint_cmd \<Rightarrow> 'a word list \<Rightarrow> 'a word list res" where
  "uint_exec ops debug N (Assign ys) xs = Inr ys"
| "uint_exec ops debug N (PlusAssign ys) xs = Inr (uint_plus_assign ops N xs ys)"
| "uint_exec ops debug N (MinusAssign ys) xs = Inr (uint_minus_assign N xs ys)"
| "uint_exec ops debug N (TimesAssign ys) xs = Inr (uint_times_assign ops N xs ys)"
| "uint_exec ops debug N (AndAssign ys) xs = Inr (uint_and_assign N xs ys)"
| "uint_exec ops debug N (OrAssign ys) xs = Inr (uint_or_assign N xs ys)"
| "uint_exec ops debug N (XorAssign ys) xs = Inr (uint_xor_assign N xs ys)"
| "uint_exec ops debug N (ShlAssign k) xs = Inr (uint_shl_assign N xs k)"
| "uint_exec ops debug N (ShrAssign k) xs = Inr (uint_shr_assign N xs k)"
| "uint_exec ops debug N (DivAssign ys) xs = uint_div_assign ops debug N xs ys"
| "uint_exec ops debug N (ModAssign ys) xs = uint_mod_assign ops debug N xs ys"
| "uint_exec ops debug N Increment xs = Inr (uint_inc N xs)"
| "uint_exec ops debug N Decrement xs = Inr (uint_dec N xs)"

text \<open>A sequence of statements stops at the first error.\<close>

fun uint_run ::
  "'a::len word big_ops \<Rightarrow> bool \<Rightarrow> nat \<Rightarrow> 'a word list uint_cmd list \<Rightarrow> 'a word list \<Rightarrow> 'a word list res" where
  "uint_run ops debug N [] xs = Inr xs"
| "uint_run ops debug N (c # cs) xs = bind_res (uint_exec ops debug N c xs) (uint_run ops debug N cs)"

text \<open>The specification: arithmetic modulo \<open>2 ^ N\<close>.\<close>

fun nat_exec :: "nat \<Rightarrow> nat uint_cmd \<Rightarrow> nat \<Rightarrow> nat" where
  "nat_exec N (Assign w) v = w"
| "nat_exec N (PlusAssign w) v = (v + w) mod 2 ^ N"
| "nat_exec N (MinusAssign w) v = (v + (2 ^ N - w)) mod 2 ^ N"
| "nat_exec N (TimesAssign w) v = (v * w) mod 2 ^ N"
| "nat_exec N (AndAssign w) v = v AND w"
| "nat_exec N (OrAssign w) v = v OR w"
| "nat_exec N (XorAssign w) v = v XOR w"
| "nat_exec N (ShlAssign k) v = (v * 2 ^ k) mod 2 ^ N"
| "nat_exec N (ShrAssign k) v = v div 2 ^ k"
| "nat_exec N (DivAssign w) v = v div w"
| "nat_exec N (ModAssign w) v = v mod w"
| "nat_exec N Increment v = (v + 1) mod 2 ^ N"
| "nat_exec N Decrement v = (v + (2 ^ N - 1)) mod 2 ^ N"

text \<open>The values that variables reach from zero, with other such values as operands.\<close>

inductive uint_reachable :: "'a::len word big_ops \<Rightarrow> bool \<Rightarrow> nat \<Rightarrow> 'a word list \<Rightarrow> bool" for ops debug N where
  uint_start: "uint_reachable ops debug N (uint_min N)"
| uint_next: "uint_reachable ops debug N xs \<Longrightarrow> \<forall>ys \<in> set_uint_cmd c. uint_reachable ops debug N ys \<Longrightarrow>
    uint_exec ops debug N c xs = Inr zs \<Longrightarrow> uint_reachable ops debug N zs"

text \<open>The statements on which the code computes modulo \<open>2 ^ N\<close>.  A decrement needs a full word,
  and a multiplication a single word or a factor that fits one.  A division needs a divisor that is not zero
  and a case without the kernel for long divisors: a smaller variable, a power of two, a single word, or
  a divisor of one word, and then for \<open>/=\<close> a top bit of the variable that is not the first of its word, for
  \<open>%=\<close> a variable that fits a word.\<close>

definition easy_divisor :: "nat \<Rightarrow> 'a::len word list \<Rightarrow> 'a word list \<Rightarrow> bool" where
  "easy_divisor N xs ys \<longleftrightarrow> val xs < val ys \<or> (\<exists>k \<in> {..<N}. val ys = 2 ^ k) \<or> array_size TYPE('a) N = 1"

fun cmd_exact :: "'a::len word big_ops \<Rightarrow> nat \<Rightarrow> 'a word list uint_cmd \<Rightarrow> 'a word list \<Rightarrow> bool" where
  "cmd_exact ops N (TimesAssign ys) xs \<longleftrightarrow>
     array_size TYPE('a) N = 1 \<and> \<not> composite ops \<or> val ys < 2 ^ LENGTH('a)"
| "cmd_exact ops N (DivAssign ys) xs \<longleftrightarrow> val ys \<noteq> 0 \<and> (easy_divisor N xs ys \<or> val ys < 2 ^ LENGTH('a) \<and>
     (case last_one N xs of None \<Rightarrow> True | Some t \<Rightarrow> t mod LENGTH('a) \<noteq> 0))"
| "cmd_exact ops N (ModAssign ys) xs \<longleftrightarrow> val ys \<noteq> 0 \<and> (easy_divisor N xs ys \<or> val ys < 2 ^ LENGTH('a) \<and>
     val xs < 2 ^ LENGTH('a))"
| "cmd_exact ops N Decrement xs \<longleftrightarrow> LENGTH('a) \<le> N"
| "cmd_exact ops N c xs \<longleftrightarrow> True"

text \<open>Every statement of a sequence is one of these, on the value that the variable has when it comes.\<close>

fun run_exact :: "'a::len word big_ops \<Rightarrow> bool \<Rightarrow> nat \<Rightarrow> 'a word list uint_cmd list \<Rightarrow> 'a word list \<Rightarrow> bool" where
  "run_exact ops debug N [] xs \<longleftrightarrow> True"
| "run_exact ops debug N (c # cs) xs \<longleftrightarrow> cmd_exact ops N c xs \<and>
     (case uint_exec ops debug N c xs of Inl e \<Rightarrow> False | Inr zs \<Rightarrow> run_exact ops debug N cs zs)"

section \<open>The machine keeps its padding clear\<close>

lemma length_school_mul: "length (school_mul ops n xs ys) = n * 2"
proof -
  have step: "length (snd (foldl (mul_step ops x ys i) (c, r) js)) = length r" for x i c r js
    by (induction js arbitrary: c r) (simp_all add: mul_step_def Let_def)
  have "length (foldl (mul_row ops n xs ys) r is) = length r" for r "is"
    by (induction "is" arbitrary: r) (simp_all add: mul_row_def Let_def step)
  then show ?thesis
    by (simp add: school_mul_def)
qed

lemma mul_wf:
  fixes xs ys :: "'a::len word list"
  assumes "wf_bits N xs" "wf_bits N ys" "length out = array_size TYPE('a) N"
  shows "wf_bits N (snd (bits_mul_out ops N xs ys out))"
proof (cases "array_size TYPE('a) N = 1 \<and> \<not> composite ops")
  case True
  then show ?thesis
    using native_product [of xs ys out N ops] wf_bits_length [OF assms(1)] wf_bits_length [OF assms(2)] assms(3)
    by (simp add: wf_bits_def)
next
  case False
  show ?thesis
    using school_product [OF length_school_mul refl refl assms(3) False] by (simp add: wf_bits_def)
qed

lemma dec_wf: "wf_bits N xs \<Longrightarrow> wf_bits N (bits_dec N xs)"
proof (cases "N = 0")
  case False
  assume wf: "wf_bits N xs"
  have "(2 :: nat) ^ N \<noteq> 0" "val xs < 2 ^ N"
    using wf by (simp_all add: wf_bits_def)
  then have "(if val xs \<noteq> 0 then val xs - 1 else if N < LENGTH('a) then 2 ^ N - 2 else 2 ^ N - 1) < (2 :: nat) ^ N"
    by auto
  then show ?thesis
    using dec_correct [OF wf] False unfolding wf_bits_def by simp
qed (simp add: bits_dec_def)

lemma div_assign_wf:
  assumes "big_word_div ops" "wf_bits N xs" "wf_bits N ys"
  shows "uint_div_assign ops debug N xs ys = Inr zs \<Longrightarrow> wf_bits N zs"
    "uint_mod_assign ops debug N xs ys = Inr zs \<Longrightarrow> wf_bits N zs"
  using divmod_wf [OF assms wf_bits_length [OF assms(2)] bits_min_val(2)]
    divmod_wf [OF assms wf_bits_length [OF bits_min_val(2)] assms(2)]
  by (force simp: uint_div_assign_def uint_mod_assign_def bits_div_assign_def bits_mod_assign_def bind_res_def
      split: sum.splits)+

lemma uint_exec_wf:
  assumes "big_word_div ops" "wf_bits N xs" "\<forall>ys \<in> set_uint_cmd c. wf_bits N ys" "uint_exec ops debug N c xs = Inr zs"
  shows "wf_bits N zs"
  using assms(2-4) wf_bits_length [OF assms(2)]
  by (cases c)
    (auto simp: uint_plus_assign_def uint_minus_assign_def uint_times_assign_def uint_and_assign_def
      uint_or_assign_def uint_xor_assign_def uint_shl_assign_def uint_shr_assign_def uint_inc_def uint_dec_def
      add_correct(3) sub_correct(3) mul_wf bits_logic_assign bits_logic_wf bits_shl_assign_val(2)
      bits_shr_assign_val(2) inc_correct(2) dec_wf dest: div_assign_wf [OF assms(1)])

section \<open>The machine refines arithmetic modulo a power of two\<close>

lemma one_word:
  assumes "val xs < 2 ^ LENGTH('a)"
  shows "tl xs = replicate (length xs - 1) (0 :: 'a::len word)"
proof (cases xs)
  case (Cons x ws)
  then have "val ws = 0"
    using assms by (cases "val ws") auto
  then show ?thesis
    using val_inject [of ws "replicate (length ws) 0"] Cons by simp
qed simp

lemma div_assign_exact:
  fixes xs ys :: "'a::len word list"
  assumes "big_word_div ops" "wf_bits N xs" "wf_bits N ys" "cmd_exact ops N (DivAssign ys) xs"
  shows "\<exists>zs. uint_div_assign ops debug N xs ys = Inr zs \<and> val zs = val xs div val ys"
proof -
  have tail: "tl (bits_min N :: 'a word list) = replicate (length (bits_min N :: 'a word list) - 1) 0"
    by (simp add: bits_min_def)
  obtain t where "val xs < val ys \<or> (\<exists>k. val ys = 2 ^ k) \<or> array_size TYPE('a) N = 1 \<or>
      val ys < 2 ^ LENGTH('a) \<and> last_one N xs = Some t \<and> t mod LENGTH('a) \<noteq> 0 \<and>
      tl (bits_min N :: 'a word list) = replicate (length (bits_min N :: 'a word list) - 1) 0"
    using assms(4) tail by (cases "last_one N xs") (auto simp: easy_divisor_def last_one_eq [OF assms(2)] split: if_splits)
  from divmod_correct [OF assms(1-3) _ wf_bits_length [OF assms(2)] wf_bits_length [OF bits_min_val(2)] this, of debug]
  show ?thesis
    using assms(4) by (auto simp: uint_div_assign_def bits_div_assign_def bind_res_def)
qed

lemma mod_assign_exact:
  fixes xs ys :: "'a::len word list"
  assumes "big_word_div ops" "wf_bits N xs" "wf_bits N ys" "cmd_exact ops N (ModAssign ys) xs"
  shows "\<exists>zs. uint_mod_assign ops debug N xs ys = Inr zs \<and> val zs = val xs mod val ys"
proof -
  obtain t where "val xs < val ys \<or> (\<exists>k. val ys = 2 ^ k) \<or> array_size TYPE('a) N = 1 \<or>
      val ys < 2 ^ LENGTH('a) \<and> last_one N xs = Some t \<and> t mod LENGTH('a) \<noteq> 0 \<and>
      tl xs = replicate (length xs - 1) 0"
  proof (cases "easy_divisor N xs ys \<or> val xs \<le> 1")
    case True
    then have "val xs < val ys \<or> val ys = 2 ^ 0 \<or> (\<exists>k. val ys = 2 ^ k) \<or> array_size TYPE('a) N = 1"
      using assms(4) unfolding easy_divisor_def by (cases "val ys \<le> 1") auto
    then show ?thesis
      using that by blast
  next
    case False
    then have small: "val xs < 2 ^ LENGTH('a)" "val ys < 2 ^ LENGTH('a)" "1 < val xs"
      using assms(4) by auto
    obtain t where t: "last_one N xs = Some t"
      using small(3) by (simp add: last_one_eq [OF assms(2)])
    note top = last_one_bounds [OF assms(2) t]
    have "t < LENGTH('a)"
      using top(1) small(1) by (meson le_less_trans nat_power_less_imp_less pos2)
    moreover have "t \<noteq> 0"
      using top(2) small(3) by (intro notI) simp
    ultimately show ?thesis
      using that [of t] t small one_word [OF small(1)] by simp
  qed
  from divmod_correct [OF assms(1-3) _ wf_bits_length [OF bits_min_val(2)] wf_bits_length [OF assms(2)] this, of debug]
  show ?thesis
    using assms(4) by (auto simp: uint_mod_assign_def bits_mod_assign_def bind_res_def)
qed

lemma uint_exec_val:
  fixes xs :: "'a::len word list"
  assumes "big_word_div ops" "0 < N" "wf_bits N xs" "\<forall>ys \<in> set_uint_cmd c. wf_bits N ys" "cmd_exact ops N c xs"
  shows "\<exists>zs. uint_exec ops debug N c xs = Inr zs \<and> val zs = nat_exec N (map_uint_cmd val c) (val xs)"
proof (cases c)
  case (TimesAssign ys)
  then show ?thesis
    using mul_correct [OF big_word_div.axioms(1) [OF assms(1)] assms(3) _ wf_bits_length [OF assms(3)], of ys] assms(4,5)
    by (auto simp: uint_times_assign_def)
next
  case (MinusAssign ys)
  have "val ys \<le> 2 ^ N"
    using assms(4) MinusAssign by (simp add: wf_bits_def less_imp_le)
  then have "2 ^ N + val xs - val ys = val xs + (2 ^ N - val ys)"
    by simp
  then show ?thesis
    using sub_correct(1) [OF assms(3) _ wf_bits_length [OF assms(3)], of ys] assms(4) MinusAssign
    by (simp add: uint_minus_assign_def)
next
  case (DivAssign ys)
  then show ?thesis
    using div_assign_exact [OF assms(1,3), of ys debug] assms(4,5) by simp
next
  case (ModAssign ys)
  then show ?thesis
    using mod_assign_exact [OF assms(1,3), of ys debug] assms(4,5) by simp
next
  case Decrement
  have "(2 :: nat) ^ N \<noteq> 0" "val xs < 2 ^ N"
    using assms(3) by (simp_all add: wf_bits_def)
  then have "(val xs + (2 ^ N - 1)) mod 2 ^ N = (if val xs = 0 then 2 ^ N - 1 else val xs - 1)"
    by (cases "val xs") simp_all
  then show ?thesis
    using dec_correct(1) [OF assms(3,2)] assms(5) Decrement by (simp add: uint_dec_def)
qed (use assms big_word_div.axioms(1) [OF assms(1)] wf_bits_length [OF assms(3)] in \<open>simp_all add: uint_plus_assign_def uint_and_assign_def
      uint_or_assign_def uint_xor_assign_def uint_shl_assign_def uint_shr_assign_def uint_inc_def
      add_correct(1) bits_logic_assign bits_logic_val bits_shl_assign_val(1) bits_shr_assign_val(1) inc_correct(1)
      take_bit_eq_mod push_bit_eq_mult drop_bit_eq_div\<close>)

section \<open>Properties\<close>

text \<open>C34.  Every value that unsigned variables reach from zero by assigning operators (\<open>=\<close>, \<open>+=\<close>,
  \<open>-=\<close>, \<open>*=\<close>, \<open>/=\<close>, \<open>%=\<close>, \<open>&=\<close>, \<open>|=\<close>, \<open>^=\<close>, \<open><<=\<close>, \<open>>>=\<close>, \<open>++\<close>, \<open>--\<close>), whatever the
  order and the operands, has its padding bits clear: also the quotients and remainders that are wrong.\<close>

theorem uint_padding_clear:
  assumes "big_word_div ops" "uint_reachable ops debug N xs"
  shows "wf_bits N xs"
  using assms(2)
proof induction
  case uint_start
  show ?case
    by (simp add: uint_min_def)
next
  case (uint_next xs c zs)
  then show ?case
    using uint_exec_wf [OF assms(1), of N xs c debug zs] by auto
qed

lemma uint_padding_clear_witness: "wf_bits 5 (uint_dec 5 (uint_min 5) :: 8 word list)"
proof (rule uint_padding_clear [OF native.big_word_div_axioms])
  show "uint_reachable native_big True 5 (uint_dec 5 (uint_min 5) :: 8 word list)"
    by (rule uint_next [OF uint_start, of Decrement native_big True 5]) simp_all
qed

text \<open>C35.  A sequence of assigning operators on an unsigned variable returns and refines the same sequence of
  operations on natural numbers modulo \<open>2 ^ N\<close>, when \<open>--\<close> comes on numbers of at least a word, \<open>*=\<close> on a
  single word or with a factor that fits one, and \<open>/=\<close> and \<open>%=\<close> with a divisor that is not zero and
  no long division: a larger divisor, a power of two, a single word, or a divisor of one word, where the top bit of
  the variable is not the first of its word (\<open>/=\<close>) or the variable fits a word (\<open>%=\<close>).\<close>

theorem uint_refines:
  fixes xs :: "'a::len word list"
  assumes "big_word_div ops" "0 < N" "wf_bits N xs" "\<forall>c \<in> set cs. \<forall>ys \<in> set_uint_cmd c. wf_bits N ys"
    "run_exact ops debug N cs xs"
  shows "\<exists>zs. uint_run ops debug N cs xs = Inr zs \<and> wf_bits N zs \<and>
    val zs = fold (nat_exec N) (map (map_uint_cmd val) cs) (val xs)"
  using assms(3-5)
proof (induction cs arbitrary: xs)
  case (Cons c cs)
  obtain zs where zs: "uint_exec ops debug N c xs = Inr zs" "val zs = nat_exec N (map_uint_cmd val c) (val xs)"
    using uint_exec_val [OF assms(1,2), of xs c debug] Cons.prems by auto
  have "wf_bits N zs"
    using uint_exec_wf [OF assms(1) _ _ zs(1)] Cons.prems by simp
  then show ?case
    using Cons.IH [of zs] Cons.prems zs by (simp add: bind_res_def)
qed simp

lemma uint_refines_witness:
  "\<exists>zs. uint_run native_big True 12 [PlusAssign [0xFF, 0x0F], TimesAssign [3, 0], ShrAssign 1, DivAssign [3, 0], Increment]
     [2, 0 :: 8 word] = Inr zs \<and> wf_bits 12 zs \<and>
     val zs = fold (nat_exec 12) [PlusAssign 4095, TimesAssign 3, ShrAssign 1, DivAssign 3, Increment] 2"
proof -
  let ?cs = "[PlusAssign [0xFF, 0x0F], TimesAssign [3, 0], ShrAssign 1, DivAssign [3, 0], Increment] :: 8 word list uint_cmd list"
  have "run_exact native_big True 12 ?cs [2, 0]"
    by code_simp
  from uint_refines [OF native.big_word_div_axioms _ _ _ this] show ?thesis
    by (simp add: wf_bits_def array_size_def)
qed

end
