(* ===== verification/IntStrings.thy ===== *)
theory IntStrings
  imports SignedInts BitPrint
begin

text \<open>
  The string conversions of \<open>Int<N>\<close>, a sign in front of the digits that \<open>Bits\<close> parses and prints, and those of \<open>UInt<N>\<close>,
  which are the ones of \<open>Bits\<close>.
\<close>

section \<open>Parsing\<close>

text \<open>The functions that \<open>visit\<close> applies to the set of bits.\<close>

definition take_negative :: "nat \<Rightarrow> 'a::len word list \<Rightarrow> 'a word list res" where
  "take_negative N xs = (
     let r = bits_negate N xs in if int_to_bool r \<and> \<not> msb_is_set N r then Inl OverflowError else Inr r)"

definition take_positive :: "nat \<Rightarrow> 'a::len word list \<Rightarrow> 'a word list res" where
  "take_positive N xs = (if msb_is_set N xs then Inl OverflowError else Inr xs)"

definition int_from_string ::
  "'a::len word big_ops \<Rightarrow> nat \<Rightarrow> string \<Rightarrow> string list \<Rightarrow> string \<Rightarrow> 'a word list res option" where
  "int_from_string ops N negative ks str = (
     if take (length negative) str = negative
     then map_option (\<lambda>r. bind_res r (take_negative N)) (from_string ops N ks (drop (length negative) str))
     else map_option (\<lambda>r. bind_res r (take_positive N)) (from_string ops N ks str))"

text \<open>The overload with a continuation; its check of a negative number also refuses zero.\<close>

definition take_negative_cont :: "nat \<Rightarrow> 'a::len word list \<times> string \<Rightarrow> ('a word list \<times> string) res" where
  "take_negative_cont N p = (
     let r = bits_negate N (fst p) in if \<not> msb_is_set N r then Inl OverflowError else Inr (r, snd p))"

definition take_positive_cont :: "nat \<Rightarrow> 'a::len word list \<times> string \<Rightarrow> ('a word list \<times> string) res" where
  "take_positive_cont N p = (if msb_is_set N (fst p) then Inl OverflowError else Inr p)"

definition int_from_string_cont ::
  "nat \<Rightarrow> 'a::len word big_ops \<Rightarrow> nat \<Rightarrow> string \<Rightarrow> string list \<Rightarrow> string \<Rightarrow> ('a word list \<times> string) res option" where
  "int_from_string_cont fuel ops N negative ks str = (
     if take (length negative) str = negative
     then map_option (\<lambda>r. bind_res r (take_negative_cont N)) (from_string_cont fuel ops N ks (drop (length negative) str))
     else map_option (\<lambda>r. bind_res r (take_positive_cont N)) (from_string_cont fuel ops N ks str))"

definition int_from_binary :: "'a::len word big_ops \<Rightarrow> nat \<Rightarrow> string \<Rightarrow> 'a word list res option" where
  "int_from_binary ops N str = int_from_string ops N ''-'' binary_digits str"

definition int_from_binary_cont :: "nat \<Rightarrow> 'a::len word big_ops \<Rightarrow> nat \<Rightarrow> string \<Rightarrow> ('a word list \<times> string) res option" where
  "int_from_binary_cont fuel ops N str = int_from_string_cont fuel ops N ''-'' binary_digits str"

definition int_from_octal :: "'a::len word big_ops \<Rightarrow> nat \<Rightarrow> string \<Rightarrow> 'a word list res option" where
  "int_from_octal ops N str = int_from_string ops N ''-'' octal_digits str"

definition int_from_octal_cont :: "nat \<Rightarrow> 'a::len word big_ops \<Rightarrow> nat \<Rightarrow> string \<Rightarrow> ('a word list \<times> string) res option" where
  "int_from_octal_cont fuel ops N str = int_from_string_cont fuel ops N ''-'' octal_digits str"

definition int_from_decimal :: "'a::len word big_ops \<Rightarrow> nat \<Rightarrow> string \<Rightarrow> 'a word list res option" where
  "int_from_decimal ops N str = int_from_string ops N ''-'' decimal_digits str"

definition int_from_decimal_cont :: "nat \<Rightarrow> 'a::len word big_ops \<Rightarrow> nat \<Rightarrow> string \<Rightarrow> ('a word list \<times> string) res option" where
  "int_from_decimal_cont fuel ops N str = int_from_string_cont fuel ops N ''-'' decimal_digits str"

definition int_from_hex :: "'a::len word big_ops \<Rightarrow> nat \<Rightarrow> string \<Rightarrow> 'a word list res option" where
  "int_from_hex ops N str = int_from_string ops N ''-'' hex_digits str"

definition int_from_hex_cont :: "nat \<Rightarrow> 'a::len word big_ops \<Rightarrow> nat \<Rightarrow> string \<Rightarrow> ('a word list \<times> string) res option" where
  "int_from_hex_cont fuel ops N str = int_from_string_cont fuel ops N ''-'' hex_digits str"

section \<open>Printing\<close>

text \<open>The sign in front of the digits of the bits, which are not negated.\<close>

definition int_to_string ::
  "'a::len word big_ops \<Rightarrow> bool \<Rightarrow> nat \<Rightarrow> string \<Rightarrow> string list \<Rightarrow> 'a word list \<Rightarrow> string res" where
  "int_to_string ops debug N negative ks xs =
     bind_res (string_parts ops debug N ks xs) (\<lambda>(parts, count).
       Inr ((if msb_is_set N xs then negative else []) @ concat (map ((!) parts) (rev [0..<count]))))"

definition int_to_binary :: "'a::len word big_ops \<Rightarrow> bool \<Rightarrow> nat \<Rightarrow> 'a word list \<Rightarrow> string res" where
  "int_to_binary ops debug N xs = int_to_string ops debug N ''-'' binary_digits xs"

definition int_to_octal :: "'a::len word big_ops \<Rightarrow> bool \<Rightarrow> nat \<Rightarrow> 'a word list \<Rightarrow> string res" where
  "int_to_octal ops debug N xs = int_to_string ops debug N ''-'' octal_digits xs"

definition int_to_decimal :: "'a::len word big_ops \<Rightarrow> bool \<Rightarrow> nat \<Rightarrow> 'a word list \<Rightarrow> string res" where
  "int_to_decimal ops debug N xs = int_to_string ops debug N ''-'' decimal_digits xs"

definition int_to_hex :: "'a::len word big_ops \<Rightarrow> bool \<Rightarrow> nat \<Rightarrow> 'a word list \<Rightarrow> string res" where
  "int_to_hex ops debug N xs = int_to_string ops debug N ''-'' hex_digits xs"

section \<open>Unsigned numbers\<close>

definition uint_from_string :: "'a::len word big_ops \<Rightarrow> nat \<Rightarrow> string list \<Rightarrow> string \<Rightarrow> 'a word list res option" where
  "uint_from_string ops N ks str = from_string ops N ks str"

definition uint_from_string_cont ::
  "nat \<Rightarrow> 'a::len word big_ops \<Rightarrow> nat \<Rightarrow> string list \<Rightarrow> string \<Rightarrow> ('a word list \<times> string) res option" where
  "uint_from_string_cont fuel ops N ks str = from_string_cont fuel ops N ks str"

definition uint_to_string :: "'a::len word big_ops \<Rightarrow> bool \<Rightarrow> nat \<Rightarrow> string list \<Rightarrow> 'a word list \<Rightarrow> string res" where
  "uint_to_string ops debug N ks xs = to_string ops debug N ks xs"

definition uint_from_binary :: "'a::len word big_ops \<Rightarrow> nat \<Rightarrow> string \<Rightarrow> 'a word list res option" where
  "uint_from_binary ops N str = uint_from_string ops N binary_digits str"

definition uint_from_binary_cont :: "nat \<Rightarrow> 'a::len word big_ops \<Rightarrow> nat \<Rightarrow> string \<Rightarrow> ('a word list \<times> string) res option" where
  "uint_from_binary_cont fuel ops N str = uint_from_string_cont fuel ops N binary_digits str"

definition uint_to_binary :: "'a::len word big_ops \<Rightarrow> bool \<Rightarrow> nat \<Rightarrow> 'a word list \<Rightarrow> string res" where
  "uint_to_binary ops debug N xs = uint_to_string ops debug N binary_digits xs"

definition uint_from_octal :: "'a::len word big_ops \<Rightarrow> nat \<Rightarrow> string \<Rightarrow> 'a word list res option" where
  "uint_from_octal ops N str = uint_from_string ops N octal_digits str"

definition uint_from_octal_cont :: "nat \<Rightarrow> 'a::len word big_ops \<Rightarrow> nat \<Rightarrow> string \<Rightarrow> ('a word list \<times> string) res option" where
  "uint_from_octal_cont fuel ops N str = uint_from_string_cont fuel ops N octal_digits str"

definition uint_to_octal :: "'a::len word big_ops \<Rightarrow> bool \<Rightarrow> nat \<Rightarrow> 'a word list \<Rightarrow> string res" where
  "uint_to_octal ops debug N xs = uint_to_string ops debug N octal_digits xs"

definition uint_from_decimal :: "'a::len word big_ops \<Rightarrow> nat \<Rightarrow> string \<Rightarrow> 'a word list res option" where
  "uint_from_decimal ops N str = uint_from_string ops N decimal_digits str"

definition uint_from_decimal_cont :: "nat \<Rightarrow> 'a::len word big_ops \<Rightarrow> nat \<Rightarrow> string \<Rightarrow> ('a word list \<times> string) res option" where
  "uint_from_decimal_cont fuel ops N str = uint_from_string_cont fuel ops N decimal_digits str"

definition uint_to_decimal :: "'a::len word big_ops \<Rightarrow> bool \<Rightarrow> nat \<Rightarrow> 'a word list \<Rightarrow> string res" where
  "uint_to_decimal ops debug N xs = uint_to_string ops debug N decimal_digits xs"

definition uint_from_hex :: "'a::len word big_ops \<Rightarrow> nat \<Rightarrow> string \<Rightarrow> 'a word list res option" where
  "uint_from_hex ops N str = uint_from_string ops N hex_digits str"

definition uint_from_hex_cont :: "nat \<Rightarrow> 'a::len word big_ops \<Rightarrow> nat \<Rightarrow> string \<Rightarrow> ('a word list \<times> string) res option" where
  "uint_from_hex_cont fuel ops N str = uint_from_string_cont fuel ops N hex_digits str"

definition uint_to_hex :: "'a::len word big_ops \<Rightarrow> bool \<Rightarrow> nat \<Rightarrow> 'a word list \<Rightarrow> string res" where
  "uint_to_hex ops debug N xs = uint_to_string ops debug N hex_digits xs"

section \<open>What the sign does\<close>

text \<open>A magnitude becomes the number of that sign, or does not fit.\<close>

lemma top_half:
  assumes "wf_bits N xs" "0 < N"
  shows "msb_is_set N xs \<longleftrightarrow> 2 ^ (N - 1) \<le> val xs" "sval N xs = (if 2 ^ (N - 1) \<le> val xs then int (val xs) - 2 ^ N else int (val xs))"
proof -
  have v: "val xs < 2 ^ N"
    using assms(1) by (simp add: wf_bits_def)
  show "msb_is_set N xs \<longleftrightarrow> 2 ^ (N - 1) \<le> val xs"
    unfolding msb_is_set_eq [OF assms] by (rule top_bit_nat [OF v assms(2)])
  show "sval N xs = (if 2 ^ (N - 1) \<le> val xs then int (val xs) - 2 ^ N else int (val xs))"
    unfolding sval_def top_bit_nat [OF v assms(2)] ..
qed

lemma take_negative_val:
  assumes "wf_bits N xs" "0 < N"
  shows "if 2 ^ (N - 1) < val xs then take_negative N xs = Inl OverflowError
    else \<exists>r. take_negative N xs = Inr r \<and> wf_bits N r \<and> sval N r = - int (val xs)"
proof -
  define h :: nat where "h = 2 ^ (N - 1)"
  define r where "r = bits_negate N xs"
  note neg = negate_correct [OF assms(1), folded r_def]
  have two: "(2 :: nat) ^ N = 2 * h" "(2 :: int) ^ N = 2 * int h" "0 < h"
    using double_half [OF assms(2), where 'b = nat] double_half [OF assms(2), where 'b = int] by (simp_all add: h_def)
  have v: "val xs < 2 * h"
    using assms(1) by (simp add: wf_bits_def two(1))
  then have r: "val r = (if val xs = 0 then 0 else 2 * h - val xs)"
    unfolding neg(1) two(1) by auto
  note top = top_half [OF neg(2) assms(2), folded h_def, unfolded two(2)]
  have "take_negative N xs = (if val r \<noteq> 0 \<and> \<not> h \<le> val r then Inl OverflowError else Inr r)"
    unfolding take_negative_def Let_def r_def [symmetric] top(1) int_to_bool_def bits_to_bool_val ..
  moreover have "val r \<noteq> 0 \<and> \<not> h \<le> val r \<longleftrightarrow> h < val xs"
    using v r by auto
  moreover have "sval N r = - int (val xs)" if "\<not> h < val xs"
    using that v two(3) unfolding top(2) r by auto
  ultimately show ?thesis
    using neg(2) unfolding h_def [symmetric] by simp
qed

lemma take_positive_val:
  assumes "wf_bits N xs" "0 < N"
  shows "if 2 ^ (N - 1) \<le> val xs then take_positive N xs = Inl OverflowError
    else take_positive N xs = Inr xs \<and> sval N xs = int (val xs)"
  by (simp add: take_positive_def top_half [OF assms])

section \<open>What parsing and printing compute\<close>

text \<open>C38.  Over a table of digit strings of one width and a base that fits the set and a word
  (\<open>good_base\<close>): a sign and digits, possibly followed by text that starts with no digit, are an
  overflow when the magnitude does not fit \<open>N\<close> bits, else a value error when some text follows,
  else the signed number if it is in the signed range, and an overflow if not.  The same holds without the
  sign, when the text does not begin with it.\<close>

theorem signed_parse:
  fixes ops :: "'a::len word big_ops"
  assumes "big_word ops" "good_base TYPE('a) N (length ks)" "uniform_keys ks L" "\<forall>d \<in> set ds. d < length ks" "no_digit ks L rest"
  defines "v \<equiv> horner (length ks) 0 ds"
  shows "(let res = int_from_string ops N negative ks (negative @ spell ks ds @ rest)
     in if 2 ^ N \<le> v then res = Some (Inl OverflowError)
       else if rest \<noteq> [] then res = Some (Inl ValueError)
       else if int v \<le> 2 ^ (N - 1) then \<exists>r. res = Some (Inr r) \<and> wf_bits N r \<and> sval N r = - int v
       else res = Some (Inl OverflowError)) \<and>
    (take (length negative) (spell ks ds @ rest) \<noteq> negative \<longrightarrow> (let res = int_from_string ops N negative ks (spell ks ds @ rest)
     in if 2 ^ N \<le> v then res = Some (Inl OverflowError)
       else if rest \<noteq> [] then res = Some (Inl ValueError)
       else if int v < 2 ^ (N - 1) then \<exists>r. res = Some (Inr r) \<and> wf_bits N r \<and> sval N r = int v
       else res = Some (Inl OverflowError)))"
proof -
  note spec = from_string_spec [OF assms(1-5), unfolded parse_spec_def, folded v_def]
  have N: "0 < N"
    using assms(2) by (cases N) (simp_all add: good_base_def)
  have cast: "int v \<le> 2 ^ (N - 1) \<longleftrightarrow> \<not> 2 ^ (N - 1) < v" "int v < 2 ^ (N - 1) \<longleftrightarrow> \<not> 2 ^ (N - 1) \<le> v"
    unfolding not_less not_le by (metis of_nat_le_iff of_nat_numeral of_nat_power) (metis of_nat_less_iff of_nat_numeral of_nat_power)
  have parts: "int_from_string ops N negative ks (negative @ spell ks ds @ rest) =
      map_option (\<lambda>r. bind_res r (take_negative N)) (from_string ops N ks (spell ks ds @ rest))"
    "take (length negative) (spell ks ds @ rest) \<noteq> negative \<Longrightarrow> int_from_string ops N negative ks (spell ks ds @ rest) =
      map_option (\<lambda>r. bind_res r (take_positive N)) (from_string ops N ks (spell ks ds @ rest))"
    by (simp_all add: int_from_string_def)
  consider "2 ^ N \<le> v" | "\<not> 2 ^ N \<le> v" "rest \<noteq> []" | r where "\<not> 2 ^ N \<le> v" "rest = []" "from_string ops N ks (spell ks ds @ rest) = Some (Inr r)" "wf_bits N r" "val r = v"
    using spec by (auto split: if_splits)
  then show ?thesis
  proof cases
    case 3
    then show ?thesis
      using take_negative_val [OF 3(4) N] take_positive_val [OF 3(4) N] parts unfolding Let_def cast by (auto split: if_splits)
  qed (use spec parts in \<open>simp_all add: Let_def\<close>)
qed

lemma hex_keys: "length hex_digits = 16" "hex_digits ! 8 = ''8''" "hex_digits ! 0 = ''0''" "spell hex_digits [8, 0] = ''80''" "no_digit hex_digits n []"
  by (simp_all add: hex_digits_def no_digit_def)

lemma signed_parse_witness:
  "(\<exists>r. int_from_string native_big 8 ''-'' hex_digits ''-80'' = Some (Inr r) \<and> wf_bits 8 r \<and> sval 8 (r :: 8 word list) = - 128) \<and>
   int_from_string native_big 8 ''-'' hex_digits ''80'' = (Some (Inl OverflowError) :: 8 word list res option)"
  using signed_parse [OF native.big_word_axioms, of 8 hex_digits 1 "[8, 0]" "[]" "''-''", where 'a = 8] hex_uniform
  by (simp add: good_base_def hex_keys)

text \<open>A number that is not negative prints as its bits do.\<close>

lemma int_to_string_eq:
  "int_to_string ops debug N negative ks xs =
     bind_res (to_string ops debug N ks xs) (\<lambda>s. Inr ((if msb_is_set N xs then negative else []) @ s))"
  by (cases "string_parts ops debug N ks xs") (auto simp: int_to_string_def to_string_def split: prod.splits)

text \<open>What the parser of digits accepts does not begin with a sign.\<close>

lemma no_sign:
  fixes ops :: "'a::len word big_ops"
  assumes "big_word ops" "good_base TYPE('a) N (length ks)" "uniform_keys ks 1" "''-'' \<notin> set ks" "from_string ops N ks s = Some (Inr xs)"
  shows "take 1 s \<noteq> ''-''"
proof
  assume sign: "take 1 s = ''-''"
  then have "parse_spec N (length ks) 0 [] s (from_string ops N ks s)" "s \<noteq> []"
    using from_string_spec [OF assms(1-3), of "[]" s] assms(4) by (auto simp: no_digit_def)
  then show False
    using assms(5) by (simp add: parse_spec_def split: if_splits)
qed

lemma unsigned_roundtrip:
  fixes ops :: "'a::len word big_ops"
  assumes "big_word ops" "good_base TYPE('a) N (length ks)" "uniform_keys ks 1" "''-'' \<notin> set ks" "wf_bits N xs" "0 \<le> sval N xs"
    "\<exists>s. to_string ops debug N ks xs = Inr s \<and> from_string ops N ks s = Some (Inr xs)"
  shows "\<exists>s. int_to_string ops debug N ''-'' ks xs = Inr s \<and> int_from_string ops N ''-'' ks s = Some (Inr xs)"
proof -
  obtain s where s: "to_string ops debug N ks xs = Inr s" "from_string ops N ks s = Some (Inr xs)"
    using assms(7) by blast
  have N: "0 < N"
    using assms(2) by (cases N) (simp_all add: good_base_def)
  have top: "\<not> msb_is_set N xs"
    using sval_alt(2) [OF assms(5) N] assms(6) by simp
  have "take 1 s \<noteq> ''-''"
    by (rule no_sign [OF assms(1-4) s(2)])
  then have "int_from_string ops N ''-'' ks s = Some (Inr xs)"
    using s(2) top by (simp add: int_from_string_def take_positive_def)
  then show ?thesis
    using s(1) top by (simp add: int_to_string_eq)
qed

text \<open>C39.  For at least 4 bits and words of a multiple of 4 bits above 4, what a number that is not negative
  prints to, in binary, in hexadecimal or, for one word of at most 2048 bits, in decimal, parses back to the
  same number.\<close>

theorem signed_roundtrip:
  fixes xs :: "'a::len word list"
  assumes "big_word ops" "wf_bits N xs" "4 \<le> N" "4 < LENGTH('a)" "4 dvd LENGTH('a)" "0 \<le> sval N xs"
  shows "(\<exists>s. int_to_binary ops debug N xs = Inr s \<and> int_from_binary ops N s = Some (Inr xs)) \<and>
    (\<exists>s. int_to_hex ops debug N xs = Inr s \<and> int_from_hex ops N s = Some (Inr xs)) \<and>
    (array_size TYPE('a) N = 1 \<and> N \<le> 2048 \<longrightarrow> (\<exists>s. int_to_decimal ops debug N xs = Inr s \<and> int_from_decimal ops N s = Some (Inr xs)))"
proof (intro conjI impI)
  have N: "0 < N"
    using assms(3) by linarith
  have pow: "(2 :: nat) ^ 4 \<le> 2 ^ N" "(2 :: nat) ^ 4 < 2 ^ LENGTH('a)"
    using assms(3,4) by (intro power_increasing power_strict_increasing; simp)+
  note trip = unsigned_roundtrip [OF assms(1) _ _ _ assms(2,6)] and power2 = power2_roundtrip [OF assms(1,2)]
  have keys: "uniform_keys binary_digits 1" "length binary_digits = 2 ^ 1" "''-'' \<notin> set binary_digits"
    "uniform_keys decimal_digits 1" "length decimal_digits = 10" "''-'' \<notin> set decimal_digits" "length hex_digits = 2 ^ 4" "''-'' \<notin> set hex_digits"
    by (simp_all add: uniform_keys_def binary_digits_def decimal_digits_def hex_digits_def)
  have base: "good_base TYPE('a) N 2" "good_base TYPE('a) N 10" "good_base TYPE('a) N 16"
    using pow by (simp_all add: good_base_def)
  show "\<exists>s. int_to_binary ops debug N xs = Inr s \<and> int_from_binary ops N s = Some (Inr xs)"
    unfolding int_to_binary_def int_from_binary_def using assms(3-5) keys base
    by (intro trip power2 [of _ 1 1]) simp_all
  show "\<exists>s. int_to_hex ops debug N xs = Inr s \<and> int_from_hex ops N s = Some (Inr xs)"
    unfolding int_to_hex_def int_from_hex_def using assms(3-5) keys base hex_uniform
    by (intro trip power2 [of _ 1 4]) simp_all
  show "\<exists>s. int_to_decimal ops debug N xs = Inr s \<and> int_from_decimal ops N s = Some (Inr xs)" if "array_size TYPE('a) N = 1 \<and> N \<le> 2048"
    unfolding int_to_decimal_def int_from_decimal_def using that assms(3,4) keys base decimal_roundtrip_correct [OF assms(1,2), of debug]
    by (intro trip) (simp_all add: to_decimal_def from_decimal_def)
qed

lemma signed_roundtrip_witness:
  "\<exists>s. int_to_decimal native_big True 64 [1234567890123456789 :: 64 word] = Inr s \<and>
     int_from_decimal native_big 64 s = Some (Inr [1234567890123456789 :: 64 word])"
  using signed_roundtrip [OF native.big_word_axioms, of 64 "[1234567890123456789 :: 64 word]" True]
  by (simp add: wf_bits_def array_size_def sval_def bit_iff_odd)

text \<open>Unsigned numbers go back and forth as sets of bits do.\<close>

lemma uint_roundtrip:
  fixes xs :: "'a::len word list"
  assumes "big_word ops" "wf_bits N xs" "4 \<le> N" "4 < LENGTH('a)" "4 dvd LENGTH('a)"
  shows "\<exists>s. uint_to_hex ops debug N xs = Inr s \<and> uint_from_hex ops N s = Some (Inr xs)"
    "array_size TYPE('a) N = 1 \<Longrightarrow> N \<le> 2048 \<Longrightarrow> \<exists>s. uint_to_decimal ops debug N xs = Inr s \<and> uint_from_decimal ops N s = Some (Inr xs)"
proof -
  have "length hex_digits = 2 ^ 4"
    by (simp add: hex_digits_def)
  then show "\<exists>s. uint_to_hex ops debug N xs = Inr s \<and> uint_from_hex ops N s = Some (Inr xs)"
    unfolding uint_to_hex_def uint_from_hex_def uint_to_string_def uint_from_string_def using assms hex_uniform
    by (intro power2_roundtrip [of _ _ _ _ 1 4]) simp_all
  show "\<exists>s. uint_to_decimal ops debug N xs = Inr s \<and> uint_from_decimal ops N s = Some (Inr xs)" if "array_size TYPE('a) N = 1" "N \<le> 2048"
    using decimal_roundtrip_correct [OF assms(1,2) that(1) assms(3) _ that(2), of debug] assms(4)
    by (simp add: uint_to_decimal_def uint_from_decimal_def uint_to_string_def uint_from_string_def to_decimal_def from_decimal_def)
qed

text \<open>A sign in front of the digits of a negative number, read as a two's complement: only the least number comes back.\<close>

lemma negative_trip:
  fixes ops :: "'a::len word big_ops"
  assumes "0 < N" "wf_bits N xs" "sval N xs < 0"
    "\<exists>s. to_string ops debug N ks xs = Inr s \<and> from_string ops N ks s = Some (Inr xs)"
  shows "\<exists>s. int_to_string ops debug N ''-'' ks xs = Inr (''-'' @ s) \<and> from_string ops N ks s = Some (Inr xs) \<and>
    int_from_string ops N ''-'' ks (''-'' @ s) =
      Some (if sval N xs = - (2 ^ (N - 1)) then Inr xs else Inl OverflowError)"
proof -
  obtain s where s: "to_string ops debug N ks xs = Inr s" "from_string ops N ks s = Some (Inr xs)"
    using assms(4) by blast
  define h :: nat where "h = 2 ^ (N - 1)"
  have two: "(2 :: nat) ^ N = 2 * h" "(2 :: int) ^ N = 2 * int h" "(2 :: int) ^ (N - 1) = int h"
    using double_half [OF assms(1), where 'b = nat] double_half [OF assms(1), where 'b = int] by (simp_all add: h_def)
  note top = top_half [OF assms(2,1), folded h_def, unfolded two]
  have v: "h \<le> val xs" "sval N xs = int (val xs) - 2 * int h"
    using assms(3) unfolding top(2) by (auto split: if_splits)
  have "take_negative N xs = (if sval N xs = - int h then Inr xs else Inl OverflowError)"
  proof (cases "val xs = h")
    case True
    then obtain r where r: "take_negative N xs = Inr r" "wf_bits N r" "sval N r = - int h"
      using take_negative_val [OF assms(2,1), folded h_def] by auto
    have "val r = val xs"
      using top_half(2) [OF r(2) assms(1), folded h_def, unfolded two] r(3) True by (auto split: if_splits)
    then have "r = xs"
      using val_inject [of r xs] wf_bits_length [OF r(2)] wf_bits_length [OF assms(2)] by simp
    then show ?thesis
      using r(1,3) by simp
  next
    case False
    then show ?thesis
      using take_negative_val [OF assms(2,1), folded h_def] v by simp
  qed
  then show ?thesis
    using s top(1) v(1) two(3) by (simp add: int_to_string_eq int_from_string_def)
qed

text \<open>C40.  For at least 4 bits and words of a multiple of 4 bits above 4, every negative number prints, in
  binary, in hexadecimal or, for one word of at most 2048 bits, in decimal, as a sign and the digits of its
  two's complement, not of its absolute value; what is printed does not parse back but overflows, except for
  the least number, which comes back.\<close>

theorem negative_prints_bits:
  fixes xs :: "'a::len word list"
  assumes "big_word ops" "wf_bits N xs" "4 \<le> N" "4 < LENGTH('a)" "4 dvd LENGTH('a)" "sval N xs < 0"
  defines "again \<equiv> if sval N xs = - (2 ^ (N - 1)) then Inr xs else Inl OverflowError"
  shows "(\<exists>s. int_to_binary ops debug N xs = Inr (''-'' @ s) \<and> from_binary ops N s = Some (Inr xs) \<and>
      int_from_binary ops N (''-'' @ s) = Some again) \<and>
    (\<exists>s. int_to_hex ops debug N xs = Inr (''-'' @ s) \<and> from_hex ops N s = Some (Inr xs) \<and>
      int_from_hex ops N (''-'' @ s) = Some again) \<and>
    (array_size TYPE('a) N = 1 \<and> N \<le> 2048 \<longrightarrow>
      (\<exists>s. int_to_decimal ops debug N xs = Inr (''-'' @ s) \<and> from_decimal ops N s = Some (Inr xs) \<and>
        int_from_decimal ops N (''-'' @ s) = Some again))"
proof (intro conjI impI)
  have N: "0 < N"
    using assms(3) by linarith
  have keys: "uniform_keys binary_digits 1" "length binary_digits = 2 ^ 1" "length hex_digits = 2 ^ 4"
    by (simp_all add: uniform_keys_def binary_digits_def hex_digits_def)
  note trip = negative_trip [OF N assms(2,6), folded again_def] and power2 = power2_roundtrip [OF assms(1,2)]
  show "\<exists>s. int_to_binary ops debug N xs = Inr (''-'' @ s) \<and> from_binary ops N s = Some (Inr xs) \<and>
      int_from_binary ops N (''-'' @ s) = Some again"
    unfolding int_to_binary_def int_from_binary_def from_binary_def using assms(3-5) keys
    by (intro trip power2 [of _ 1 1]) simp_all
  show "\<exists>s. int_to_hex ops debug N xs = Inr (''-'' @ s) \<and> from_hex ops N s = Some (Inr xs) \<and>
      int_from_hex ops N (''-'' @ s) = Some again"
    unfolding int_to_hex_def int_from_hex_def from_hex_def using assms(3-5) keys hex_uniform
    by (intro trip power2 [of _ 1 4]) simp_all
  show "\<exists>s. int_to_decimal ops debug N xs = Inr (''-'' @ s) \<and> from_decimal ops N s = Some (Inr xs) \<and>
      int_from_decimal ops N (''-'' @ s) = Some again" if "array_size TYPE('a) N = 1 \<and> N \<le> 2048"
    unfolding int_to_decimal_def int_from_decimal_def from_decimal_def
    using that assms(3,4) decimal_roundtrip_correct [OF assms(1,2), of debug]
    by (intro trip) (simp_all add: to_decimal_def from_decimal_def)
qed

lemma negative_prints_bits_witness:
  "\<exists>s. int_to_decimal native_big True 8 [255 :: 8 word] = Inr (''-'' @ s) \<and> from_decimal native_big 8 s = Some (Inr [255 :: 8 word]) \<and>
     int_from_decimal native_big 8 (''-'' @ s) = (Some (Inl OverflowError) :: 8 word list res option)"
proof -
  have "sval 8 [255 :: 8 word] = - 1"
    by code_simp
  then show ?thesis
    using negative_prints_bits [OF native.big_word_axioms, of 8 "[255 :: 8 word]" True]
    by (simp add: wf_bits_def array_size_def)
qed

text \<open>A zero with a sign, which the plain overload accepts, is an overflow in the one with a continuation.\<close>

lemma signed_zero_refused:
  fixes ops :: "'a::len word big_ops"
  assumes "big_word ops" "good_base TYPE('a) N (length ks)" "uniform_keys ks L" "\<forall>d \<in> set ds. d < length ks" "horner (length ks) 0 ds = 0"
  shows "\<exists>r. int_from_string ops N negative ks (negative @ spell ks ds) = Some (Inr r) \<and> sval N (r :: 'a word list) = 0"
    "int_from_string_cont (length (spell ks ds)) ops N negative ks (negative @ spell ks ds) = Some (Inl OverflowError)"
proof -
  have N: "0 < N"
    using assms(2) by (cases N) (simp_all add: good_base_def)
  have "no_digit ks L []"
    using assms(3) by (auto simp: no_digit_def uniform_keys_def)
  then obtain z where z: "from_string ops N ks (spell ks ds) = Some (Inr z)" "wf_bits N z" "val z = 0"
    using from_string_spec [OF assms(1-4), of "[]"] assms(5) by (auto simp: parse_spec_def)
  have "val (bits_negate N z) = 0" "wf_bits N (bits_negate N z)"
    using negate_correct [OF z(2)] z(3) by simp_all
  then have neg: "\<not> msb_is_set N (bits_negate N z)"
    using top_half(1) [OF \<open>wf_bits N (bits_negate N z)\<close> N] by simp
  show "\<exists>r. int_from_string ops N negative ks (negative @ spell ks ds) = Some (Inr r) \<and> sval N (r :: 'a word list) = 0"
    using take_negative_val [OF z(2) N] z(1,3) by (auto simp: int_from_string_def)
  show "int_from_string_cont (length (spell ks ds)) ops N negative ks (negative @ spell ks ds) = Some (Inl OverflowError)"
    using from_string_cont_same [of ops N ks "spell ks ds"] z(1) neg
    by (auto simp: int_from_string_cont_def take_negative_cont_def)
qed

end
