(* ===== verification/AllocNodes.thy ===== *)
theory AllocNodes
  imports Prelude
begin

unbundle bit_operations_syntax

text \<open>
  The state of a thread's virtual address space (\<open>allocate.h\<close>, \<open>impl::address_space\<close>): the nodes
  that describe regions of pages, the arrays and counters of the header, and the requests that other
  threads leave behind.

  Numbers of 32 bits are natural numbers, with the wrap-around of the unsigned types written out in
  \<open>add32\<close> and \<open>sub32\<close>; the sentinel \<open>NIL\<close> is the greatest of them.  Addresses are relative to
  the start of the public partition: in pages for regions, in bytes for blocks of slabs.
\<close>

section \<open>Numbers\<close>

definition NIL :: nat where
  "NIL = 2 ^ 32 - 1"

definition add32 :: "nat \<Rightarrow> nat \<Rightarrow> nat" where
  "add32 a b = (a + b) mod 2 ^ 32"

definition sub32 :: "nat \<Rightarrow> nat \<Rightarrow> nat" where
  "sub32 a b = (a + (2 ^ 32 - b mod 2 ^ 32)) mod 2 ^ 32"

definition add64 :: "nat \<Rightarrow> nat \<Rightarrow> nat" where
  "add64 a b = (a + b) mod 2 ^ 64"

definition sub64 :: "nat \<Rightarrow> nat \<Rightarrow> nat" where
  "sub64 a b = (a + (2 ^ 64 - b mod 2 ^ 64)) mod 2 ^ 64"

lemma add32_eq: "a + b < 2 ^ 32 \<Longrightarrow> add32 a b = a + b"
  by (simp add: add32_def)

lemma sub32_eq:
  assumes "b \<le> a" "a < 2 ^ 32"
  shows "sub32 a b = a - b"
proof -
  have "b mod 2 ^ 32 = b"
    using assms by simp
  moreover have "a + (2 ^ 32 - b) = 2 ^ 32 + (a - b)"
    using assms by simp
  ultimately show ?thesis
    using assms by (simp only: sub32_def mod_add_self1) simp
qed

lemma add64_eq: "a + b < 2 ^ 64 \<Longrightarrow> add64 a b = a + b"
  by (simp add: add64_def)

lemma sub64_eq:
  assumes "b \<le> a" "a < 2 ^ 64"
  shows "sub64 a b = a - b"
proof -
  have "b mod 2 ^ 64 = b"
    using assms by simp
  moreover have "a + (2 ^ 64 - b) = 2 ^ 64 + (a - b)"
    using assms by simp
  ultimately show ?thesis
    using assms by (simp only: sub64_def mod_add_self1) simp
qed

section \<open>Nodes\<close>

text \<open>A region of pages.  The children link the treap (or, for a slab, the list of partial slabs
  of its size class); \<open>heap_link\<close> is the position in the heap (or the next node of the free list,
  or the number of free blocks of a slab).\<close>

record node =
  offset :: nat
  npages :: nat
  left_child :: nat
  right_child :: nat
  heap_link :: nat

text \<open>The priority of the treap, a hash of the offset.\<close>

definition hash_step :: "nat \<Rightarrow> 32 word \<Rightarrow> 32 word" where
  "hash_step k x = x XOR drop_bit k x"

definition priority :: "node \<Rightarrow> 32 word" where
  "priority n = hash_step 16 (hash_step 15 (hash_step 16 (word_of_nat (offset n)) * 0x7feb352d) * 0x846ca68b)"

definition node_end :: "node \<Rightarrow> nat" where
  "node_end n = add32 (offset n) (npages n)"

definition set_left :: "(nat \<Rightarrow> node) \<Rightarrow> nat \<Rightarrow> nat \<Rightarrow> nat \<Rightarrow> node" where
  "set_left ns i v = ns(i := (ns i)\<lparr>left_child := v\<rparr>)"

definition set_right :: "(nat \<Rightarrow> node) \<Rightarrow> nat \<Rightarrow> nat \<Rightarrow> nat \<Rightarrow> node" where
  "set_right ns i v = ns(i := (ns i)\<lparr>right_child := v\<rparr>)"

definition set_heap :: "(nat \<Rightarrow> node) \<Rightarrow> nat \<Rightarrow> nat \<Rightarrow> nat \<Rightarrow> node" where
  "set_heap ns i v = ns(i := (ns i)\<lparr>heap_link := v\<rparr>)"

definition set_pages :: "(nat \<Rightarrow> node) \<Rightarrow> nat \<Rightarrow> nat \<Rightarrow> nat \<Rightarrow> node" where
  "set_pages ns i v = ns(i := (ns i)\<lparr>npages := v\<rparr>)"

definition set_offset :: "(nat \<Rightarrow> node) \<Rightarrow> nat \<Rightarrow> nat \<Rightarrow> nat \<Rightarrow> node" where
  "set_offset ns i v = ns(i := (ns i)\<lparr>offset := v\<rparr>)"

lemma set_left_simps [simp]:
  "set_left ns i v j = (if j = i then (ns i)\<lparr>left_child := v\<rparr> else ns j)"
  "set_right ns i v j = (if j = i then (ns i)\<lparr>right_child := v\<rparr> else ns j)"
  "set_heap ns i v j = (if j = i then (ns i)\<lparr>heap_link := v\<rparr> else ns j)"
  "set_pages ns i v j = (if j = i then (ns i)\<lparr>npages := v\<rparr> else ns j)"
  "set_offset ns i v j = (if j = i then (ns i)\<lparr>offset := v\<rparr> else ns j)"
  by (simp_all add: set_left_def set_right_def set_heap_def set_pages_def set_offset_def)

section \<open>The address space\<close>

text \<open>The header of an address space and its arrays.  \<open>batch_list\<close> holds the first
  \<open>batch_size\<close> entries of the array of that name.  The memory of slabs is modelled as far as the
  allocator uses it: the id at the end of a slab (by its first page) and the free list before it (by
  the distance from the id).  Requests of other threads are stacks: byte addresses of blocks, and pages with their
  number.  \<open>decommits\<close> records the calls that hand pages back to the system.\<close>

record space =
  nodes :: "nat \<Rightarrow> node"
  heap_array :: "nat \<Rightarrow> nat"
  heap_size :: nat
  treap_root :: nat
  next_node :: nat
  free_list :: nat
  batch_list :: "nat list"
  batch_pages :: nat
  batch_min :: nat
  batch_max :: nat
  total :: nat
  occupied :: nat
  slabs :: "nat \<Rightarrow> nat"
  slab_ids :: "nat \<Rightarrow> nat"
  slab_free :: "nat \<Rightarrow> nat \<Rightarrow> nat"
  remote_slab :: "nat list"
  remote_page :: "(nat \<times> nat) list"
  decommits :: "(nat \<times> nat) list"

text \<open>The constants of a build and the place of the address space: the logarithm of the page size,
  the pages of the public partition and its first page in memory, the capacity of the batch, and
  the length up to which a batch is sorted by insertion.\<close>

record config =
  page_shift :: nat
  pub_pages :: nat
  base_page :: nat
  coalesce_buffer :: nat
  insertion_threshold :: nat

section \<open>The priority is injective\<close>

lemma hash_step_inject:
  assumes "hash_step k x = hash_step k y" "0 < k"
  shows "x = y"
proof (rule bit_eqI)
  fix i
  have eq: "(bit x i \<noteq> bit x (k + i)) \<longleftrightarrow> (bit y i \<noteq> bit y (k + i))" for i
    using arg_cong [OF assms(1), of "\<lambda>w. bit w i"] by (simp add: hash_step_def bit_xor_iff bit_drop_bit_eq)
  show "bit x i \<longleftrightarrow> bit y i"
  proof (induction "32 - i" arbitrary: i rule: less_induct)
    case less
    show ?case
    proof (cases "i < 32")
      case True
      then have "bit x (k + i) \<longleftrightarrow> bit y (k + i)"
        using assms(2) by (intro less) simp
      then show ?thesis
        using eq [of i] by blast
    next
      case False
      then show ?thesis
        using bit_imp_le_length [of x i] bit_imp_le_length [of y i] by auto
    qed
  qed
qed

lemma times_odd_inject:
  fixes x y c d :: "32 word"
  assumes "x * c = y * c" "c * d = 1"
  shows "x = y"
proof -
  have "x * c * d = y * c * d"
    by (simp only: assms(1))
  then show ?thesis
    by (simp add: mult.assoc assms(2))
qed

lemma priority_inject:
  assumes "priority m = priority n" "offset m < 2 ^ 32" "offset n < 2 ^ 32"
  shows "offset m = offset n"
proof -
  have "hash_step 15 (hash_step 16 (word_of_nat (offset m)) * 0x7feb352d) * 0x846ca68b =
      hash_step 15 (hash_step 16 (word_of_nat (offset n)) * 0x7feb352d) * 0x846ca68b"
    using assms(1) unfolding priority_def by (rule hash_step_inject) simp
  then have "hash_step 15 (hash_step 16 (word_of_nat (offset m)) * 0x7feb352d) =
      hash_step 15 (hash_step 16 (word_of_nat (offset n)) * 0x7feb352d)"
    by (rule times_odd_inject [where d = "0x43021123"]) simp
  then have "hash_step 16 (word_of_nat (offset m)) * 0x7feb352d = hash_step 16 (word_of_nat (offset n)) * 0x7feb352d"
    by (rule hash_step_inject) simp
  then have "hash_step 16 (word_of_nat (offset m)) = hash_step 16 (word_of_nat (offset n))"
    by (rule times_odd_inject [where d = "0x1d69e2a5"]) simp
  then have "(word_of_nat (offset m) :: 32 word) = word_of_nat (offset n)"
    by (rule hash_step_inject) simp
  then have "unat (word_of_nat (offset m) :: 32 word) = unat (word_of_nat (offset n) :: 32 word)"
    by simp
  then show ?thesis
    using assms(2,3) by (simp add: unat_of_nat)
qed

end
