(* ===== verification/AllocTreap.thy ===== *)
theory AllocTreap
  imports AllocNodes "HOL-Library.Tree"
begin

text \<open>
  The treap of free regions: a search tree by offset that is a min-heap by priority, kept in the
  \<open>left\<close> and \<open>right\<close> links of the nodes.  The operations walk pointers to links and never
  recurse; a walk round a cycle of links would not end, which is the result \<open>None\<close>.
  The lemmas relate each loop to a function on trees.
\<close>

section \<open>The operations\<close>

text \<open>A pointer to a link: the variable that holds the root, or a child of a node.\<close>

datatype link = RootLink | LeftOf nat | RightOf nat

fun get_link :: "(nat \<Rightarrow> node) \<Rightarrow> nat \<Rightarrow> link \<Rightarrow> nat" where
  "get_link ns r RootLink = r"
| "get_link ns r (LeftOf i) = left_child (ns i)"
| "get_link ns r (RightOf i) = right_child (ns i)"

fun set_link :: "(nat \<Rightarrow> node) \<Rightarrow> nat \<Rightarrow> link \<Rightarrow> nat \<Rightarrow> (nat \<Rightarrow> node) \<times> nat" where
  "set_link ns r RootLink v = (ns, v)"
| "set_link ns r (LeftOf i) v = (set_left ns i v, r)"
| "set_link ns r (RightOf i) v = (set_right ns i v, r)"

text \<open>\<open>treap_split\<close>: the loop threads the nodes below \<open>key\<close> on the right spine of the left part,
  and the others on the left spine of the right part.\<close>

partial_function (option) split_loop ::
  "(nat \<Rightarrow> node) \<Rightarrow> nat \<Rightarrow> nat \<Rightarrow> nat \<Rightarrow> nat \<Rightarrow> nat \<Rightarrow> nat \<Rightarrow> ((nat \<Rightarrow> node) \<times> nat \<times> nat \<times> nat \<times> nat) option"
where
  "split_loop ns key r lo hi lo_tail hi_tail = (
     if r = NIL then Some (ns, lo, hi, lo_tail, hi_tail)
     else if offset (ns r) < key
     then split_loop (if lo_tail = NIL then ns else set_right ns lo_tail r) key (right_child (ns r))
       (if lo_tail = NIL then r else lo) hi r hi_tail
     else split_loop (if hi_tail = NIL then ns else set_left ns hi_tail r) key (left_child (ns r))
       lo (if hi_tail = NIL then r else hi) lo_tail r)"

declare split_loop.simps [code]

definition split_end :: "(nat \<Rightarrow> node) \<times> nat \<times> nat \<times> nat \<times> nat \<Rightarrow> (nat \<Rightarrow> node) \<times> nat \<times> nat" where
  "split_end p = (case p of (ns, lo, hi, lo_tail, hi_tail) \<Rightarrow>
     let ns = (if lo_tail \<noteq> NIL then set_right ns lo_tail NIL else ns);
         ns = (if hi_tail \<noteq> NIL then set_left ns hi_tail NIL else ns)
     in (ns, lo, hi))"

definition treap_split :: "(nat \<Rightarrow> node) \<Rightarrow> nat \<Rightarrow> nat \<Rightarrow> ((nat \<Rightarrow> node) \<times> nat \<times> nat) option" where
  "treap_split ns r key = map_option split_end (split_loop ns key r NIL NIL NIL NIL)"

text \<open>\<open>treap_insert\<close>: descend by key until a node of greater priority, which is split below the new
  node, or a free link.\<close>

partial_function (option) insert_loop ::
  "(nat \<Rightarrow> node) \<Rightarrow> nat \<Rightarrow> nat \<Rightarrow> link \<Rightarrow> ((nat \<Rightarrow> node) \<times> nat) option"
where
  "insert_loop ns r n link = (
     let curr = get_link ns r link
     in if curr = NIL then Some (set_link ns r link n)
        else if priority (ns n) < priority (ns curr)
        then do {
          (ns, lo, hi) \<leftarrow> treap_split ns curr (offset (ns n));
          Some (set_link (set_right (set_left ns n lo) n hi) r link n)
        }
        else insert_loop ns r n (if offset (ns n) < offset (ns curr) then LeftOf curr else RightOf curr))"

declare insert_loop.simps [code]

definition treap_insert :: "(nat \<Rightarrow> node) \<Rightarrow> nat \<Rightarrow> nat \<Rightarrow> ((nat \<Rightarrow> node) \<times> nat) option" where
  "treap_insert ns r n = insert_loop (set_right (set_left ns n NIL) n NIL) r n RootLink"

text \<open>\<open>treap_erase\<close>: find the link to the node of that key, rotate the node down until it has at
  most one child, and splice it out.\<close>

partial_function (option) find_loop :: "(nat \<Rightarrow> node) \<Rightarrow> nat \<Rightarrow> nat \<Rightarrow> link \<Rightarrow> link option option" where
  "find_loop ns r key link = (
     let curr = get_link ns r link
     in if curr = NIL then Some None
        else if offset (ns curr) = key then Some (Some link)
        else find_loop ns r key (if key < offset (ns curr) then LeftOf curr else RightOf curr))"

declare find_loop.simps [code]

partial_function (option) rotate_loop :: "(nat \<Rightarrow> node) \<Rightarrow> nat \<Rightarrow> link \<Rightarrow> ((nat \<Rightarrow> node) \<times> nat) option" where
  "rotate_loop ns r link = (
     let x = get_link ns r link; lo = left_child (ns x); hi = right_child (ns x)
     in if lo = NIL
        then let (ns, r) = set_link ns r link hi in Some (set_right (set_left ns x NIL) x NIL, r)
        else if hi = NIL
        then let (ns, r) = set_link ns r link lo in Some (set_right (set_left ns x NIL) x NIL, r)
        else if priority (ns lo) < priority (ns hi)
        then let ns = set_left ns x (right_child (ns lo));
                 (ns, r) = set_link (set_right ns lo x) r link lo
          in rotate_loop ns r (RightOf lo)
        else let ns = set_right ns x (left_child (ns hi));
                 (ns, r) = set_link (set_left ns hi x) r link hi
          in rotate_loop ns r (LeftOf hi))"

declare rotate_loop.simps [code]

definition treap_erase :: "(nat \<Rightarrow> node) \<Rightarrow> nat \<Rightarrow> nat \<Rightarrow> ((nat \<Rightarrow> node) \<times> nat) option" where
  "treap_erase ns r n = do {
     found \<leftarrow> find_loop ns r (offset (ns n)) RootLink;
     case found of None \<Rightarrow> Some (ns, r) | Some link \<Rightarrow> rotate_loop ns r link
   }"

text \<open>\<open>treap_prev\<close> and \<open>treap_next\<close>: the last region before, and the first at or after, an offset.\<close>

partial_function (option) prev_loop :: "(nat \<Rightarrow> node) \<Rightarrow> nat \<Rightarrow> nat \<Rightarrow> nat \<Rightarrow> nat option" where
  "prev_loop ns r key best = (
     if r = NIL then Some best
     else if offset (ns r) < key then prev_loop ns (right_child (ns r)) key r
     else prev_loop ns (left_child (ns r)) key best)"

declare prev_loop.simps [code]

definition treap_prev :: "(nat \<Rightarrow> node) \<Rightarrow> nat \<Rightarrow> nat \<Rightarrow> nat option" where
  "treap_prev ns r key = prev_loop ns r key NIL"

partial_function (option) next_loop :: "(nat \<Rightarrow> node) \<Rightarrow> nat \<Rightarrow> nat \<Rightarrow> nat \<Rightarrow> nat option" where
  "next_loop ns r key best = (
     if r = NIL then Some best
     else if key \<le> offset (ns r) then next_loop ns (left_child (ns r)) key r
     else next_loop ns (right_child (ns r)) key best)"

declare next_loop.simps [code]

definition treap_next :: "(nat \<Rightarrow> node) \<Rightarrow> nat \<Rightarrow> nat \<Rightarrow> nat option" where
  "treap_next ns r key = next_loop ns r key NIL"

section \<open>Trees\<close>

text \<open>The tree that the links below an index spell out.\<close>

fun treap_at :: "(nat \<Rightarrow> node) \<Rightarrow> nat \<Rightarrow> nat tree \<Rightarrow> bool" where
  "treap_at ns r Leaf \<longleftrightarrow> r = NIL"
| "treap_at ns r (Node l i u) \<longleftrightarrow> r = i \<and> i \<noteq> NIL \<and> treap_at ns (left_child (ns i)) l \<and> treap_at ns (right_child (ns i)) u"

fun split_tree :: "(nat \<Rightarrow> node) \<Rightarrow> nat \<Rightarrow> nat tree \<Rightarrow> nat tree \<times> nat tree" where
  "split_tree ns key Leaf = (Leaf, Leaf)"
| "split_tree ns key (Node l i u) = (
     if offset (ns i) < key then let (a, b) = split_tree ns key u in (Node l i a, b)
     else let (a, b) = split_tree ns key l in (a, Node b i u))"

fun insert_tree :: "(nat \<Rightarrow> node) \<Rightarrow> nat \<Rightarrow> nat tree \<Rightarrow> nat tree" where
  "insert_tree ns n Leaf = Node Leaf n Leaf"
| "insert_tree ns n (Node l i u) = (
     if priority (ns n) < priority (ns i)
     then let (a, b) = split_tree ns (offset (ns n)) (Node l i u) in Node a n b
     else if offset (ns n) < offset (ns i) then Node (insert_tree ns n l) i u
     else Node l i (insert_tree ns n u))"

function merge_tree :: "(nat \<Rightarrow> node) \<Rightarrow> nat tree \<Rightarrow> nat tree \<Rightarrow> nat tree" where
  "merge_tree ns Leaf u = u"
| "merge_tree ns (Node a x b) Leaf = Node a x b"
| "merge_tree ns (Node a x b) (Node c y d) = (
     if priority (ns x) < priority (ns y) then Node a x (merge_tree ns b (Node c y d))
     else Node (merge_tree ns (Node a x b) c) y d)"
  by pat_completeness auto
termination by (relation "measure (\<lambda>(ns, l, u). size l + size u)") simp_all

fun erase_tree :: "(nat \<Rightarrow> node) \<Rightarrow> nat \<Rightarrow> nat tree \<Rightarrow> nat tree" where
  "erase_tree ns key Leaf = Leaf"
| "erase_tree ns key (Node l i u) = (
     if offset (ns i) = key then merge_tree ns l u
     else if key < offset (ns i) then Node (erase_tree ns key l) i u
     else Node l i (erase_tree ns key u))"

section \<open>What the loops leave alone\<close>

definition same_payload :: "(nat \<Rightarrow> node) \<Rightarrow> (nat \<Rightarrow> node) \<Rightarrow> bool" where
  "same_payload ns ns' \<longleftrightarrow> (\<forall>i. offset (ns' i) = offset (ns i) \<and> npages (ns' i) = npages (ns i) \<and> heap_link (ns' i) = heap_link (ns i))"

definition same_outside :: "nat set \<Rightarrow> (nat \<Rightarrow> node) \<Rightarrow> (nat \<Rightarrow> node) \<Rightarrow> bool" where
  "same_outside S ns ns' \<longleftrightarrow> (\<forall>i. i \<notin> S \<longrightarrow> ns' i = ns i)"

lemma same_payload_simps:
  "same_payload ns ns' \<Longrightarrow> offset (ns' i) = offset (ns i)"
  "same_payload ns ns' \<Longrightarrow> npages (ns' i) = npages (ns i)"
  "same_payload ns ns' \<Longrightarrow> heap_link (ns' i) = heap_link (ns i)"
  "same_payload ns ns' \<Longrightarrow> priority (ns' i) = priority (ns i)"
  by (simp_all add: same_payload_def priority_def)

lemma same_payload_refl [simp]: "same_payload ns ns"
  by (simp add: same_payload_def)

lemma same_payload_trans: "same_payload ns ns' \<Longrightarrow> same_payload ns' ns'' \<Longrightarrow> same_payload ns ns''"
  by (simp add: same_payload_def)

lemma same_payload_set [simp]:
  "same_payload ns (set_left ns i v)" "same_payload ns (set_right ns i v)"
  by (simp_all add: same_payload_def)

lemma same_payload_set_link: "same_payload ns (fst (set_link ns r link v))"
  by (cases link) simp_all

lemma same_outsideD: "same_outside S ns ns' \<Longrightarrow> i \<notin> S \<Longrightarrow> ns' i = ns i"
  by (simp add: same_outside_def)

lemma same_outside_refl [simp]: "same_outside S ns ns"
  by (simp add: same_outside_def)

lemma same_outside_trans:
  "same_outside S ns ns' \<Longrightarrow> same_outside T ns' ns'' \<Longrightarrow> S \<subseteq> U \<Longrightarrow> T \<subseteq> U \<Longrightarrow> same_outside U ns ns''"
  unfolding same_outside_def by (metis subsetD)

lemma same_outside_mono: "same_outside S ns ns' \<Longrightarrow> S \<subseteq> U \<Longrightarrow> same_outside U ns ns'"
  unfolding same_outside_def by blast

lemma same_outside_set:
  "i \<in> S \<Longrightarrow> same_outside S ns (set_left ns i v)" "i \<in> S \<Longrightarrow> same_outside S ns (set_right ns i v)"
  by (auto simp: same_outside_def)

lemma treap_at_cong:
  "(\<And>i. i \<in> set_tree t \<Longrightarrow> left_child (ns' i) = left_child (ns i) \<and> right_child (ns' i) = right_child (ns i)) \<Longrightarrow>
    treap_at ns' r t \<longleftrightarrow> treap_at ns r t"
proof (induction t arbitrary: r)
  case (Node l i u)
  have "treap_at ns' x l = treap_at ns x l" "treap_at ns' x u = treap_at ns x u" for x
    using Node by (simp_all add: Node.IH)
  then show ?case
    using Node.prems [of i] by simp
qed simp

lemma treap_at_outside:
  "same_outside S ns ns' \<Longrightarrow> set_tree t \<inter> S = {} \<Longrightarrow> treap_at ns' r t \<longleftrightarrow> treap_at ns r t"
  by (rule treap_at_cong) (auto simp: same_outside_def)

lemma treap_at_NIL: "treap_at ns r t \<Longrightarrow> NIL \<notin> set_tree t"
  by (induction t arbitrary: r) auto

lemma treap_at_root: "treap_at ns r t \<Longrightarrow> r = (case t of Leaf \<Rightarrow> NIL | Node l i u \<Rightarrow> i)"
  by (cases t) simp_all

lemma merge_tree_cong: "same_payload ns ns' \<Longrightarrow> merge_tree ns' l u = merge_tree ns l u"
  by (induction ns l u rule: merge_tree.induct) (simp_all add: same_payload_simps)

lemma tree_fun_cong:
  assumes "same_payload ns ns'"
  shows "split_tree ns' key t = split_tree ns key t" "insert_tree ns' n t = insert_tree ns n t"
    "erase_tree ns' key t = erase_tree ns key t"
proof -
  note same = same_payload_simps [OF assms]
  show split: "split_tree ns' key t = split_tree ns key t" for key t
    by (induction t) (simp_all add: same)
  show "insert_tree ns' n t = insert_tree ns n t"
    by (induction t) (simp_all add: same split)
  show "erase_tree ns' key t = erase_tree ns key t"
    by (induction t) (simp_all add: same merge_tree_cong [OF assms])
qed

section \<open>Splitting\<close>

lemma split_loop_spec:
  assumes "treap_at ns r t" "distinct (inorder t)" "lt \<notin> set_tree t" "ut \<notin> set_tree t" "lt = NIL \<or> lt \<noteq> ut"
    "lt = NIL \<longrightarrow> lo = NIL" "ut = NIL \<longrightarrow> hi = NIL" "split_tree ns key t = (A, B)"
  shows "\<exists>ns' lo' hi'. map_option split_end (split_loop ns key r lo hi lt ut) = Some (ns', lo', hi') \<and>
    same_payload ns ns' \<and> same_outside (set_tree t \<union> ({lt, ut} - {NIL})) ns ns' \<and>
    (if lt = NIL then treap_at ns' lo' A
     else lo' = lo \<and> left_child (ns' lt) = left_child (ns lt) \<and> treap_at ns' (right_child (ns' lt)) A) \<and>
    (if ut = NIL then treap_at ns' hi' B
     else hi' = hi \<and> right_child (ns' ut) = right_child (ns ut) \<and> treap_at ns' (left_child (ns' ut)) B)"
  using assms
proof (induction t arbitrary: ns r lo hi lt ut A B)
  case Leaf
  then show ?case
    by (auto simp: split_loop.simps split_end_def Let_def same_outside_def same_payload_def)
next
  case (Node l i u)
  have r: "r = i" "i \<noteq> NIL" and sub: "treap_at ns (left_child (ns i)) l" "treap_at ns (right_child (ns i)) u"
    using Node.prems(1) by simp_all
  have dist: "distinct (inorder l)" "distinct (inorder u)" "i \<notin> set_tree l" "i \<notin> set_tree u" "set_tree l \<inter> set_tree u = {}"
    using Node.prems(2) by auto
  have tails: "lt \<notin> set_tree l" "lt \<notin> set_tree u" "lt \<noteq> i" "ut \<notin> set_tree l" "ut \<notin> set_tree u" "ut \<noteq> i"
    using Node.prems(3,4) by simp_all
  show ?case
  proof (cases "offset (ns i) < key")
    case True
    define ns1 where "ns1 = (if lt = NIL then ns else set_right ns lt i)"
    have ns1: "same_payload ns ns1" "same_outside ({lt} - {NIL}) ns ns1"
      by (simp_all add: ns1_def same_outside_set)
    obtain A1 where A1: "split_tree ns key u = (A1, B)" "A = Node l i A1"
      using Node.prems(8) True by (auto split: prod.splits)
    have u: "treap_at ns1 (right_child (ns i)) u"
      using treap_at_outside [OF ns1(2), of u] sub(2) tails(2) by blast
    have split: "split_tree ns1 key u = (A1, B)"
      by (simp only: tree_fun_cong(1) [OF ns1(1)] A1(1))
    have "\<exists>ns' lo' hi'. map_option split_end (split_loop ns1 key (right_child (ns i)) (if lt = NIL then i else lo) hi i ut) = Some (ns', lo', hi') \<and>
      same_payload ns1 ns' \<and> same_outside (set_tree u \<union> ({i, ut} - {NIL})) ns1 ns' \<and>
      (if i = NIL then treap_at ns' lo' A1
       else lo' = (if lt = NIL then i else lo) \<and> left_child (ns' i) = left_child (ns1 i) \<and> treap_at ns' (right_child (ns' i)) A1) \<and>
      (if ut = NIL then treap_at ns' hi' B
       else hi' = hi \<and> right_child (ns' ut) = right_child (ns1 ut) \<and> treap_at ns' (left_child (ns' ut)) B)"
      by (rule Node.IH(2) [OF u dist(2,4) tails(5) _ _ Node.prems(7) split]) (use r(2) tails(6) in auto)
    then obtain ns' lo' hi' where ns': "map_option split_end (split_loop ns1 key (right_child (ns i)) (if lt = NIL then i else lo) hi i ut) = Some (ns', lo', hi')"
      "same_payload ns1 ns'" "same_outside (set_tree u \<union> ({i, ut} - {NIL})) ns1 ns'"
      "lo' = (if lt = NIL then i else lo)" "left_child (ns' i) = left_child (ns1 i)" "treap_at ns' (right_child (ns' i)) A1"
      "if ut = NIL then treap_at ns' hi' B
       else hi' = hi \<and> right_child (ns' ut) = right_child (ns1 ut) \<and> treap_at ns' (left_child (ns' ut)) B"
      using r(2) by auto
    have all: "same_outside (set_tree u \<union> ({i, lt, ut} - {NIL})) ns ns'"
      by (rule same_outside_trans [OF ns1(2) ns'(3)]) auto
    have "treap_at ns' (left_child (ns i)) l"
      using treap_at_outside [OF all, of l] sub(1) dist(3,5) tails(1,4) by auto
    moreover have "left_child (ns1 i) = left_child (ns i)" "ns1 ut = ns ut \<or> lt = ut"
      using tails(3) by (auto simp: ns1_def)
    ultimately have A: "treap_at ns' i A"
      using ns'(5,6) r(2) by (simp add: A1(2))
    have lt: "left_child (ns' lt) = left_child (ns lt)" "right_child (ns' lt) = i" if "lt \<noteq> NIL"
      using same_outsideD [OF ns'(3), of lt] that tails(2,3) Node.prems(5) by (simp_all add: ns1_def)
    have step: "split_loop ns key r lo hi lt ut = split_loop ns1 key (right_child (ns i)) (if lt = NIL then i else lo) hi i ut"
      using True r by (subst split_loop.simps) (simp add: ns1_def)
    have ut: "if ut = NIL then treap_at ns' hi' B
       else hi' = hi \<and> right_child (ns' ut) = right_child (ns ut) \<and> treap_at ns' (left_child (ns' ut)) B"
      using ns'(7) Node.prems(5) by (auto simp: ns1_def split: if_splits)
    have "same_outside (set_tree (Node l i u) \<union> ({lt, ut} - {NIL})) ns ns'"
      by (rule same_outside_mono [OF all]) auto
    moreover have "if lt = NIL then treap_at ns' lo' A
       else lo' = lo \<and> left_child (ns' lt) = left_child (ns lt) \<and> treap_at ns' (right_child (ns' lt)) A"
      using ns'(4) A lt by simp
    ultimately show ?thesis
      unfolding step using ns'(1) ut same_payload_trans [OF ns1(1) ns'(2)] by blast
  next
    case False
    define ns1 where "ns1 = (if ut = NIL then ns else set_left ns ut i)"
    have ns1: "same_payload ns ns1" "same_outside ({ut} - {NIL}) ns ns1"
      by (simp_all add: ns1_def same_outside_set)
    obtain B1 where B1: "split_tree ns key l = (A, B1)" "B = Node B1 i u"
      using Node.prems(8) False by (auto split: prod.splits)
    have l: "treap_at ns1 (left_child (ns i)) l"
      using treap_at_outside [OF ns1(2), of l] sub(1) tails(4) by blast
    have split: "split_tree ns1 key l = (A, B1)"
      by (simp only: tree_fun_cong(1) [OF ns1(1)] B1(1))
    have "\<exists>ns' lo' hi'. map_option split_end (split_loop ns1 key (left_child (ns i)) lo (if ut = NIL then i else hi) lt i) = Some (ns', lo', hi') \<and>
      same_payload ns1 ns' \<and> same_outside (set_tree l \<union> ({lt, i} - {NIL})) ns1 ns' \<and>
      (if lt = NIL then treap_at ns' lo' A
       else lo' = lo \<and> left_child (ns' lt) = left_child (ns1 lt) \<and> treap_at ns' (right_child (ns' lt)) A) \<and>
      (if i = NIL then treap_at ns' hi' B1
       else hi' = (if ut = NIL then i else hi) \<and> right_child (ns' i) = right_child (ns1 i) \<and> treap_at ns' (left_child (ns' i)) B1)"
      by (rule Node.IH(1) [OF l dist(1) tails(1) dist(3) _ Node.prems(6) _ split]) (use r(2) tails(3) in auto)
    then obtain ns' lo' hi' where ns': "map_option split_end (split_loop ns1 key (left_child (ns i)) lo (if ut = NIL then i else hi) lt i) = Some (ns', lo', hi')"
      "same_payload ns1 ns'" "same_outside (set_tree l \<union> ({lt, i} - {NIL})) ns1 ns'"
      "hi' = (if ut = NIL then i else hi)" "right_child (ns' i) = right_child (ns1 i)" "treap_at ns' (left_child (ns' i)) B1"
      "if lt = NIL then treap_at ns' lo' A
       else lo' = lo \<and> left_child (ns' lt) = left_child (ns1 lt) \<and> treap_at ns' (right_child (ns' lt)) A"
      using r(2) by auto
    have all: "same_outside (set_tree l \<union> ({i, lt, ut} - {NIL})) ns ns'"
      by (rule same_outside_trans [OF ns1(2) ns'(3)]) auto
    have "treap_at ns' (right_child (ns i)) u"
      using treap_at_outside [OF all, of u] sub(2) dist(4,5) tails(2,5) by auto
    moreover have "right_child (ns1 i) = right_child (ns i)"
      using tails(6) by (auto simp: ns1_def)
    ultimately have B: "treap_at ns' i B"
      using ns'(5,6) r(2) by (simp add: B1(2))
    have ut: "right_child (ns' ut) = right_child (ns ut)" "left_child (ns' ut) = i" if "ut \<noteq> NIL"
      using same_outsideD [OF ns'(3), of ut] that tails(4,6) Node.prems(5) by (auto simp: ns1_def)
    have step: "split_loop ns key r lo hi lt ut = split_loop ns1 key (left_child (ns i)) lo (if ut = NIL then i else hi) lt i"
      using False r by (subst split_loop.simps) (simp add: ns1_def)
    have lt: "if lt = NIL then treap_at ns' lo' A
       else lo' = lo \<and> left_child (ns' lt) = left_child (ns lt) \<and> treap_at ns' (right_child (ns' lt)) A"
      using ns'(7) Node.prems(5) by (auto simp: ns1_def split: if_splits)
    have "same_outside (set_tree (Node l i u) \<union> ({lt, ut} - {NIL})) ns ns'"
      by (rule same_outside_mono [OF all]) auto
    moreover have "if ut = NIL then treap_at ns' hi' B
       else hi' = hi \<and> right_child (ns' ut) = right_child (ns ut) \<and> treap_at ns' (left_child (ns' ut)) B"
      using ns'(4) B ut by simp
    ultimately show ?thesis
      unfolding step using ns'(1) lt same_payload_trans [OF ns1(1) ns'(2)] by blast
  qed
qed

lemma treap_split_spec:
  assumes "treap_at ns r t" "distinct (inorder t)" "split_tree ns key t = (A, B)"
  shows "\<exists>ns' lo hi. treap_split ns r key = Some (ns', lo, hi) \<and> same_payload ns ns' \<and> same_outside (set_tree t) ns ns' \<and>
    treap_at ns' lo A \<and> treap_at ns' hi B"
proof -
  have "NIL \<notin> set_tree t"
    by (rule treap_at_NIL [OF assms(1)])
  from split_loop_spec [OF assms(1,2) this this _ _ _ assms(3), of NIL NIL]
  show ?thesis
    by (simp add: treap_split_def)
qed

section \<open>Sets and orders of nodes\<close>

definition by_offset :: "(nat \<Rightarrow> node) \<Rightarrow> nat tree \<Rightarrow> bool" where
  "by_offset ns t \<longleftrightarrow> sorted_wrt (\<lambda>i j. offset (ns i) < offset (ns j)) (inorder t)"

fun prio_heap :: "(nat \<Rightarrow> node) \<Rightarrow> nat tree \<Rightarrow> bool" where
  "prio_heap ns Leaf \<longleftrightarrow> True"
| "prio_heap ns (Node l i u) \<longleftrightarrow>
     (\<forall>j \<in> set_tree l \<union> set_tree u. priority (ns i) \<le> priority (ns j)) \<and> prio_heap ns l \<and> prio_heap ns u"

lemma by_offset_simps [simp]:
  "by_offset ns Leaf"
  "by_offset ns (Node l i u) \<longleftrightarrow> by_offset ns l \<and> by_offset ns u \<and> (\<forall>j \<in> set_tree l. offset (ns j) < offset (ns i)) \<and>
     (\<forall>j \<in> set_tree u. offset (ns i) < offset (ns j))"
  by (auto simp: by_offset_def sorted_wrt_append dest: less_trans)

lemma by_offset_distinct: "by_offset ns t \<Longrightarrow> distinct (inorder t)"
  by (induction t) (auto dest: less_asym)

lemma by_offset_inject: "by_offset ns t \<Longrightarrow> i \<in> set_tree t \<Longrightarrow> j \<in> set_tree t \<Longrightarrow> offset (ns i) = offset (ns j) \<Longrightarrow> i = j"
  by (induction t) (auto, (metis less_trans less_irrefl)+)

lemma by_offset_cong: "same_payload ns ns' \<Longrightarrow> by_offset ns' t = by_offset ns t"
  by (induction t) (simp_all add: same_payload_simps)

lemma prio_heap_cong: "same_payload ns ns' \<Longrightarrow> prio_heap ns' t = prio_heap ns t"
  by (induction t) (simp_all add: same_payload_simps)

lemma split_tree_set: "split_tree ns key t = (A, B) \<Longrightarrow> set_tree A \<union> set_tree B = set_tree t"
  by (induction t arbitrary: A B) (auto split: if_splits prod.splits)

lemma insert_tree_set: "set_tree (insert_tree ns n t) = insert n (set_tree t)"
  by (induction t) (auto split: prod.splits dest: split_tree_set)

lemma merge_tree_inorder [simp]: "inorder (merge_tree ns l u) = inorder l @ inorder u"
  by (induction ns l u rule: merge_tree.induct) simp_all

lemma merge_tree_set [simp]: "set_tree (merge_tree ns l u) = set_tree l \<union> set_tree u"
  by (induction ns l u rule: merge_tree.induct) auto

lemma split_tree_inorder:
  "by_offset ns t \<Longrightarrow> split_tree ns key t = (A, B) \<Longrightarrow>
    inorder A = filter (\<lambda>i. offset (ns i) < key) (inorder t) \<and> inorder B = filter (\<lambda>i. key \<le> offset (ns i)) (inorder t)"
proof (induction t arbitrary: A B)
  case (Node l i u)
  show ?case
  proof (cases "offset (ns i) < key")
    case True
    have "filter (\<lambda>j. offset (ns j) < key) (inorder l) = inorder l" "filter (\<lambda>j. key \<le> offset (ns j)) (inorder l) = []"
      using Node.prems(1) True by (auto simp: filter_id_conv filter_empty_conv)
    then show ?thesis
      using Node True by (auto split: prod.splits)
  next
    case False
    have "filter (\<lambda>j. offset (ns j) < key) (inorder u) = []" "filter (\<lambda>j. key \<le> offset (ns j)) (inorder u) = inorder u"
      using Node.prems(1) False by (auto simp: filter_id_conv filter_empty_conv)
    then show ?thesis
      using Node False by (auto split: prod.splits)
  qed
qed simp

lemma insert_tree_inorder:
  "by_offset ns t \<Longrightarrow> \<forall>i \<in> set_tree t. offset (ns i) \<noteq> offset (ns n) \<Longrightarrow>
    inorder (insert_tree ns n t) = filter (\<lambda>i. offset (ns i) < offset (ns n)) (inorder t) @ n #
      filter (\<lambda>i. offset (ns n) \<le> offset (ns i)) (inorder t)"
proof (induction t)
  case (Node l i u)
  show ?case
  proof (cases "priority (ns n) < priority (ns i)")
    case True
    obtain A B where AB: "split_tree ns (offset (ns n)) (Node l i u) = (A, B)"
      by fastforce
    from split_tree_inorder [OF Node.prems(1) AB] show ?thesis
      unfolding insert_tree.simps(2) if_P [OF True] AB by simp
  next
    case prio: False
    show ?thesis
    proof (cases "offset (ns n) < offset (ns i)")
      case True
      have "filter (\<lambda>j. offset (ns j) < offset (ns n)) (inorder u) = []" "filter (\<lambda>j. offset (ns n) \<le> offset (ns j)) (inorder u) = inorder u"
        using Node.prems(1) True by (auto simp: filter_id_conv filter_empty_conv)
      then show ?thesis
        using Node prio True by simp
    next
      case False
      then have "offset (ns i) < offset (ns n)"
        using Node.prems(2) by (simp add: le_neq_implies_less)
      then have "filter (\<lambda>j. offset (ns j) < offset (ns n)) (inorder l) = inorder l" "filter (\<lambda>j. offset (ns n) \<le> offset (ns j)) (inorder l) = []"
        using Node.prems(1) by (auto simp: filter_id_conv filter_empty_conv)
      then show ?thesis
        using Node prio False \<open>offset (ns i) < offset (ns n)\<close> by simp
    qed
  qed
qed simp

lemma erase_tree_inorder:
  "by_offset ns t \<Longrightarrow> inorder (erase_tree ns key t) = filter (\<lambda>i. offset (ns i) \<noteq> key) (inorder t)"
proof (induction t)
  case (Node l i u)
  have l: "filter (\<lambda>j. offset (ns j) \<noteq> key) (inorder l) = inorder l" if "offset (ns i) \<le> key"
    using Node.prems that by (auto simp: filter_id_conv)
  have u: "filter (\<lambda>j. offset (ns j) \<noteq> key) (inorder u) = inorder u" if "key \<le> offset (ns i)"
    using Node.prems that by (auto simp: filter_id_conv)
  show ?case
    using Node l u by (cases "key < offset (ns i)") auto
qed simp

lemma by_offset_filter:
  assumes "by_offset ns t" "inorder t' = filter P (inorder t)"
  shows "by_offset ns t'"
  using assms unfolding by_offset_def by (simp add: sorted_wrt_filter)

lemma by_offset_erase_tree: "by_offset ns t \<Longrightarrow> by_offset ns (erase_tree ns key t)"
  by (rule by_offset_filter [OF _ erase_tree_inorder])

lemma by_offset_insert_tree:
  assumes "by_offset ns t" "\<forall>i \<in> set_tree t. offset (ns i) \<noteq> offset (ns n)"
  shows "by_offset ns (insert_tree ns n t)"
proof -
  have "sorted_wrt (\<lambda>i j. offset (ns i) < offset (ns j)) (filter P (inorder t))" for P
    using assms(1) unfolding by_offset_def by (rule sorted_wrt_filter)
  then show ?thesis
    unfolding by_offset_def insert_tree_inorder [OF assms]
    using assms(2) by (auto simp: sorted_wrt_append le_less)
qed

lemma prio_heap_split:
  "prio_heap ns t \<Longrightarrow> split_tree ns key t = (A, B) \<Longrightarrow> prio_heap ns A \<and> prio_heap ns B"
proof (induction t arbitrary: A B)
  case (Node l i u)
  show ?case
  proof (cases "offset (ns i) < key")
    case True
    obtain A1 where A1: "split_tree ns key u = (A1, B)" "A = Node l i A1"
      using Node.prems(2) True by (auto split: prod.splits)
    have "prio_heap ns A1 \<and> prio_heap ns B"
      using Node.prems(1) by (intro Node.IH(2) [OF _ A1(1)]) simp
    then show ?thesis
      using Node.prems(1) split_tree_set [OF A1(1)] by (auto simp: A1(2))
  next
    case False
    obtain B1 where B1: "split_tree ns key l = (A, B1)" "B = Node B1 i u"
      using Node.prems(2) False by (auto split: prod.splits)
    have "prio_heap ns A \<and> prio_heap ns B1"
      using Node.prems(1) by (intro Node.IH(1) [OF _ B1(1)]) simp
    then show ?thesis
      using Node.prems(1) split_tree_set [OF B1(1)] by (auto simp: B1(2))
  qed
qed simp

lemma prio_heap_insert: "prio_heap ns t \<Longrightarrow> prio_heap ns (insert_tree ns n t)"
proof (induction t)
  case (Node l i u)
  show ?case
  proof (cases "priority (ns n) < priority (ns i)")
    case True
    obtain A B where AB: "split_tree ns (offset (ns n)) (Node l i u) = (A, B)"
      by fastforce
    have "priority (ns n) \<le> priority (ns j)" if "j \<in> set_tree A \<union> set_tree B" for j
      using that True Node.prems unfolding split_tree_set [OF AB]
      by (auto intro: order_trans [OF less_imp_le])
    moreover have "insert_tree ns n (Node l i u) = Node A n B"
      unfolding insert_tree.simps(2) if_P [OF True] AB by simp
    ultimately show ?thesis
      using prio_heap_split [OF Node.prems AB] by simp
  next
    case False
    then show ?thesis
      using Node by (auto simp: insert_tree_set not_less)
  qed
qed simp

lemma prio_heap_merge: "prio_heap ns l \<Longrightarrow> prio_heap ns u \<Longrightarrow> prio_heap ns (merge_tree ns l u)"
proof (induction ns l u rule: merge_tree.induct)
  case (3 ns a x b c y d)
  then show ?case
    by (auto simp: not_less intro: order_trans less_imp_le order_trans [OF less_imp_le])
qed simp_all

lemma erase_tree_subset: "set_tree (erase_tree ns key t) \<subseteq> set_tree t"
  by (induction t) auto

lemma prio_heap_erase: "prio_heap ns t \<Longrightarrow> prio_heap ns (erase_tree ns key t)"
proof (induction t)
  case (Node l i u)
  then show ?case
    using erase_tree_subset [of ns key l] erase_tree_subset [of ns key u] by (auto simp: prio_heap_merge)
qed simp

section \<open>Links\<close>

fun link_owner :: "link \<Rightarrow> nat set" where
  "link_owner RootLink = {}"
| "link_owner (LeftOf i) = {i}"
| "link_owner (RightOf i) = {i}"

text \<open>Everything of the owner of a link except that link.\<close>

definition link_frame :: "link \<Rightarrow> (nat \<Rightarrow> node) \<Rightarrow> nat \<Rightarrow> (nat \<Rightarrow> node) \<Rightarrow> nat \<Rightarrow> bool" where
  "link_frame link ns r ns' r' \<longleftrightarrow> (case link of
     RootLink \<Rightarrow> True
   | LeftOf i \<Rightarrow> r' = r \<and> right_child (ns' i) = right_child (ns i)
   | RightOf i \<Rightarrow> r' = r \<and> left_child (ns' i) = left_child (ns i))"

lemma set_link_spec:
  assumes "set_link ns r link v = (ns', r')"
  shows "get_link ns' r' link = v" "same_payload ns ns'" "same_outside (link_owner link) ns ns'" "link_frame link ns r ns' r'"
  using assms by (cases link; auto simp: same_outside_set link_frame_def)+

lemma get_link_outside:
  "same_outside S ns ns' \<Longrightarrow> link_owner link \<inter> S = {} \<Longrightarrow> get_link ns' r link = get_link ns r link"
  by (cases link) (auto simp: same_outside_def)

lemma link_frame_outside:
  "same_outside S ns ns' \<Longrightarrow> link_owner link \<inter> S = {} \<Longrightarrow> link_frame link ns r ns' r"
  by (cases link) (auto simp: same_outside_def link_frame_def)

lemma link_frame_trans:
  "link_frame link ns r ns' r' \<Longrightarrow> link_frame link ns' r' ns'' r'' \<Longrightarrow> link_frame link ns r ns'' r''"
  by (cases link) (simp_all add: link_frame_def)

section \<open>Insertion\<close>

lemma insert_loop_spec:
  assumes "treap_at ns (get_link ns r link) t" "distinct (inorder t)" "n \<notin> set_tree t" "n \<noteq> NIL"
    "link_owner link \<inter> insert n (set_tree t) = {}" "left_child (ns n) = NIL" "right_child (ns n) = NIL"
  shows "\<exists>ns' r'. insert_loop ns r n link = Some (ns', r') \<and> same_payload ns ns' \<and>
    same_outside (insert n (set_tree t) \<union> link_owner link) ns ns' \<and>
    treap_at ns' (get_link ns' r' link) (insert_tree ns n t) \<and> link_frame link ns r ns' r'"
  using assms(1-3,5)
proof (induction t arbitrary: link)
  case Leaf
  obtain ns' r' where set: "set_link ns r link n = (ns', r')"
    by fastforce
  note spec = set_link_spec [OF set]
  have "ns' n = ns n"
    using same_outsideD [OF spec(3)] Leaf.prems(4) by simp
  moreover have "insert_loop ns r n link = Some (ns', r')"
    using Leaf.prems(1) by (simp add: insert_loop.simps Let_def set)
  moreover have "same_outside (insert n (set_tree Leaf) \<union> link_owner link) ns ns'"
    by (rule same_outside_mono [OF spec(3)]) blast
  ultimately show ?case
    using spec assms(4,6,7) by auto
next
  case (Node l i u)
  define curr where "curr = get_link ns r link"
  have curr: "curr = i" "i \<noteq> NIL" and sub: "treap_at ns (left_child (ns i)) l" "treap_at ns (right_child (ns i)) u"
    using Node.prems(1) by (simp_all add: curr_def)
  have n: "n \<noteq> i" "n \<notin> set_tree l" "n \<notin> set_tree u"
    using Node.prems(3) by simp_all
  have dist: "distinct (inorder l)" "distinct (inorder u)" "i \<notin> set_tree l" "i \<notin> set_tree u" "set_tree l \<inter> set_tree u = {}"
    using Node.prems(2) by auto
  show ?case
  proof (cases "priority (ns n) < priority (ns i)")
    case True
    obtain A B where AB: "split_tree ns (offset (ns n)) (Node l i u) = (A, B)"
      by fastforce
    have "treap_at ns curr (Node l i u)"
      using Node.prems(1) by (simp add: curr_def)
    from treap_split_spec [OF this Node.prems(2) AB] obtain ns1 lo hi where
      split: "treap_split ns curr (offset (ns n)) = Some (ns1, lo, hi)" "same_payload ns ns1"
        "same_outside (set_tree (Node l i u)) ns ns1" "treap_at ns1 lo A" "treap_at ns1 hi B"
      by blast
    define ns2 where "ns2 = set_right (set_left ns1 n lo) n hi"
    obtain ns' r' where set: "set_link ns2 r link n = (ns', r')"
      by fastforce
    note spec = set_link_spec [OF set]
    have AB_set: "set_tree A \<union> set_tree B = set_tree (Node l i u)"
      by (rule split_tree_set [OF AB])
    have ns2: "same_outside {n} ns1 ns2" "same_payload ns1 ns2"
      by (simp_all add: ns2_def same_outside_def same_payload_def)
    have out: "same_outside (insert n (link_owner link)) ns1 ns'"
      by (rule same_outside_trans [OF ns2(1) spec(3)]) blast+
    have disj: "set_tree A \<inter> (insert n (link_owner link)) = {}" "set_tree B \<inter> (insert n (link_owner link)) = {}"
      using AB_set Node.prems(3,4) by (auto simp: disjoint_iff)
    have "treap_at ns' lo A" "treap_at ns' hi B"
      using treap_at_outside [OF out disj(1)] treap_at_outside [OF out disj(2)] split(4,5) by simp_all
    moreover have "ns' n = ns2 n"
      using same_outsideD [OF spec(3)] Node.prems(4) by simp
    ultimately have "treap_at ns' n (Node A n B)"
      using assms(4) by (simp add: ns2_def)
    moreover have "insert_tree ns n (Node l i u) = Node A n B"
      unfolding insert_tree.simps(2) if_P [OF True] AB by simp
    moreover have "insert_loop ns r n link = Some (ns', r')"
      using curr True split(1) by (simp add: insert_loop.simps [of ns r n link] curr_def [symmetric] Let_def ns2_def [symmetric] set)
    moreover have "same_payload ns ns'"
      by (rule same_payload_trans [OF split(2) same_payload_trans [OF ns2(2) spec(2)]])
    moreover have "same_outside (insert n (set_tree (Node l i u)) \<union> link_owner link) ns ns'"
      by (rule same_outside_trans [OF split(3) out]) auto
    moreover have "link_frame link ns r ns' r'"
    proof (rule link_frame_trans [OF _ spec(4)])
      have "same_outside (insert n (set_tree (Node l i u))) ns ns2"
        by (rule same_outside_trans [OF split(3) ns2(1)]) auto
      then show "link_frame link ns r ns2 r"
        by (rule link_frame_outside [OF _ Node.prems(4)])
    qed
    ultimately show ?thesis
      using spec(1) by auto
  next
    case prio: False
    have owner: "link_owner link \<inter> set_tree l = {}" "link_owner link \<inter> set_tree u = {}" "i \<notin> link_owner link" "n \<notin> link_owner link"
      using Node.prems(4) by auto
    show ?thesis
    proof (cases "offset (ns n) < offset (ns i)")
      case True
      have "\<exists>ns' r'. insert_loop ns r n (LeftOf i) = Some (ns', r') \<and> same_payload ns ns' \<and>
        same_outside (insert n (set_tree l) \<union> link_owner (LeftOf i)) ns ns' \<and>
        treap_at ns' (get_link ns' r' (LeftOf i)) (insert_tree ns n l) \<and> link_frame (LeftOf i) ns r ns' r'"
        using sub(1) dist(1,3) n by (intro Node.IH(1)) auto
      then obtain ns' r' where IH: "insert_loop ns r n (LeftOf i) = Some (ns', r')" "same_payload ns ns'"
        "same_outside (insert n (set_tree l) \<union> {i}) ns ns'" "treap_at ns' (left_child (ns' i)) (insert_tree ns n l)"
        "r' = r" "right_child (ns' i) = right_child (ns i)"
        by (auto simp: link_frame_def)
      have "treap_at ns' (right_child (ns i)) u"
        using treap_at_outside [OF IH(3), of u] sub(2) dist(4,5) n(3) by auto
      moreover have "get_link ns' r link = i"
        using get_link_outside [OF IH(3), of link r] owner curr by (auto simp: curr_def)
      moreover have "link_frame link ns r ns' r"
        using owner by (intro link_frame_outside [OF IH(3)]) auto
      moreover have "insert_loop ns r n link = insert_loop ns r n (LeftOf i)"
        using curr prio True by (simp add: insert_loop.simps [of ns r n link] curr_def [symmetric] Let_def)
      moreover have "same_outside (insert n (set_tree (Node l i u)) \<union> link_owner link) ns ns'"
        by (rule same_outside_mono [OF IH(3)]) auto
      moreover have "insert_tree ns n (Node l i u) = Node (insert_tree ns n l) i u"
        using prio True by simp
      ultimately show ?thesis
        using IH curr(2) by auto
    next
      case False
      have "\<exists>ns' r'. insert_loop ns r n (RightOf i) = Some (ns', r') \<and> same_payload ns ns' \<and>
        same_outside (insert n (set_tree u) \<union> link_owner (RightOf i)) ns ns' \<and>
        treap_at ns' (get_link ns' r' (RightOf i)) (insert_tree ns n u) \<and> link_frame (RightOf i) ns r ns' r'"
        using sub(2) dist(2,4) n by (intro Node.IH(2)) auto
      then obtain ns' r' where IH: "insert_loop ns r n (RightOf i) = Some (ns', r')" "same_payload ns ns'"
        "same_outside (insert n (set_tree u) \<union> {i}) ns ns'" "treap_at ns' (right_child (ns' i)) (insert_tree ns n u)"
        "r' = r" "left_child (ns' i) = left_child (ns i)"
        by (auto simp: link_frame_def)
      have "treap_at ns' (left_child (ns i)) l"
        using treap_at_outside [OF IH(3), of l] sub(1) dist(3,5) n(2) by auto
      moreover have "get_link ns' r link = i"
        using get_link_outside [OF IH(3), of link r] owner curr by (auto simp: curr_def)
      moreover have "link_frame link ns r ns' r"
        using owner by (intro link_frame_outside [OF IH(3)]) auto
      moreover have "insert_loop ns r n link = insert_loop ns r n (RightOf i)"
        using curr prio False by (simp add: insert_loop.simps [of ns r n link] curr_def [symmetric] Let_def)
      moreover have "same_outside (insert n (set_tree (Node l i u)) \<union> link_owner link) ns ns'"
        by (rule same_outside_mono [OF IH(3)]) auto
      moreover have "insert_tree ns n (Node l i u) = Node l i (insert_tree ns n u)"
        using prio False by simp
      ultimately show ?thesis
        using IH curr(2) by auto
    qed
  qed
qed

lemma treap_insert_spec:
  assumes "treap_at ns r t" "by_offset ns t" "n \<notin> set_tree t" "n \<noteq> NIL"
  shows "\<exists>ns' r'. treap_insert ns r n = Some (ns', r') \<and> same_payload ns ns' \<and>
    same_outside (insert n (set_tree t)) ns ns' \<and> treap_at ns' r' (insert_tree ns n t)"
proof -
  define ns1 where "ns1 = set_right (set_left ns n NIL) n NIL"
  have ns1: "same_payload ns ns1" "same_outside {n} ns ns1"
    by (simp_all add: ns1_def same_payload_def same_outside_def)
  have "treap_at ns1 (get_link ns1 r RootLink) t"
    using treap_at_outside [OF ns1(2), of t] assms(1,3) by simp
  then have "\<exists>ns' r'. insert_loop ns1 r n RootLink = Some (ns', r') \<and> same_payload ns1 ns' \<and>
    same_outside (insert n (set_tree t) \<union> link_owner RootLink) ns1 ns' \<and>
    treap_at ns' (get_link ns' r' RootLink) (insert_tree ns1 n t) \<and> link_frame RootLink ns1 r ns' r'"
    using by_offset_distinct [OF assms(2)] assms(3,4) by (intro insert_loop_spec) (simp_all add: ns1_def)
  then obtain ns' r' where "insert_loop ns1 r n RootLink = Some (ns', r')" "same_payload ns1 ns'"
    "same_outside (insert n (set_tree t)) ns1 ns'" "treap_at ns' r' (insert_tree ns1 n t)"
    by auto
  moreover from this(3) have "same_outside (insert n (set_tree t)) ns ns'"
    by (rule same_outside_trans [OF ns1(2)]) auto
  ultimately show ?thesis
    using same_payload_trans [OF ns1(1)] by (auto simp: treap_insert_def ns1_def [symmetric] tree_fun_cong [OF ns1(1)])
qed

section \<open>Removal\<close>

lemma rotate_loop_spec:
  assumes "treap_at ns (get_link ns r link) (Node l i u)" "distinct (inorder (Node l i u))"
    "link_owner link \<inter> set_tree (Node l i u) = {}"
  shows "\<exists>ns' r'. rotate_loop ns r link = Some (ns', r') \<and> same_payload ns ns' \<and>
    same_outside (set_tree (Node l i u) \<union> link_owner link) ns ns' \<and>
    treap_at ns' (get_link ns' r' link) (merge_tree ns l u) \<and> link_frame link ns r ns' r'"
  using assms
proof (induction "size l + size u" arbitrary: ns r link l u rule: less_induct)
  case less
  have i: "get_link ns r link = i" "i \<noteq> NIL" and sub: "treap_at ns (left_child (ns i)) l" "treap_at ns (right_child (ns i)) u"
    using less.prems(1) by simp_all
  have dist: "distinct (inorder l)" "distinct (inorder u)" "i \<notin> set_tree l" "i \<notin> set_tree u" "set_tree l \<inter> set_tree u = {}"
    using less.prems(2) by auto
  have owner: "i \<notin> link_owner link" "link_owner link \<inter> set_tree l = {}" "link_owner link \<inter> set_tree u = {}"
    using less.prems(3) by auto
  have splice: "\<exists>ns' r'. (let (ns, r) = set_link ns r link v in Some (set_right (set_left ns i NIL) i NIL, r)) = Some (ns', r') \<and>
      same_payload ns ns' \<and> same_outside (set_tree (Node l i u) \<union> link_owner link) ns ns' \<and>
      treap_at ns' (get_link ns' r' link) t \<and> link_frame link ns r ns' r'"
    if v: "treap_at ns v t" "set_tree t \<subseteq> set_tree l \<union> set_tree u" for v t
  proof -
    obtain ns1 r1 where set: "set_link ns r link v = (ns1, r1)"
      by fastforce
    note spec = set_link_spec [OF set]
    define ns2 where "ns2 = set_right (set_left ns1 i NIL) i NIL"
    have ns2: "same_payload ns1 ns2" "same_outside {i} ns1 ns2"
      by (simp_all add: ns2_def same_payload_def same_outside_def)
    have out: "same_outside (insert i (link_owner link)) ns ns2"
      by (rule same_outside_trans [OF spec(3) ns2(2)]) auto
    have "treap_at ns2 v t"
      using treap_at_outside [OF out, of t] v dist(3,4) owner by blast
    moreover have "get_link ns2 r1 link = v"
      using get_link_outside [OF ns2(2), of link r1] owner(1) spec(1) by simp
    moreover have "link_frame link ns r ns2 r1"
      using owner(1) by (intro link_frame_trans [OF spec(4) link_frame_outside [OF ns2(2)]]) simp
    moreover have "same_outside (set_tree (Node l i u) \<union> link_owner link) ns ns2"
      by (rule same_outside_mono [OF out]) auto
    ultimately show ?thesis
      using same_payload_trans [OF spec(2) ns2(1)] by (simp add: set ns2_def)
  qed
  note step = rotate_loop.simps [of ns r link, unfolded i(1) Let_def]
  show ?case
  proof (cases l)
    case Leaf
    then have "rotate_loop ns r link = (let (ns, r) = set_link ns r link (right_child (ns i)) in Some (set_right (set_left ns i NIL) i NIL, r))"
      using sub(1) by (simp add: step Let_def)
    then show ?thesis
      using splice [OF sub(2)] Leaf by simp
  next
    case l: (Node a y b)
    show ?thesis
    proof (cases u)
      case Leaf
      then have "rotate_loop ns r link = (let (ns, r) = set_link ns r link (left_child (ns i)) in Some (set_right (set_left ns i NIL) i NIL, r))"
        using sub l by (simp add: step Let_def)
      then show ?thesis
        using splice [OF sub(1)] l Leaf by simp
    next
      case u: (Node c z d)
      have y: "left_child (ns i) = y" "y \<noteq> NIL" "treap_at ns (left_child (ns y)) a" "treap_at ns (right_child (ns y)) b"
        using sub(1) l by simp_all
      have z: "right_child (ns i) = z" "z \<noteq> NIL" "treap_at ns (left_child (ns z)) c" "treap_at ns (right_child (ns z)) d"
        using sub(2) u by simp_all
      have neq: "y \<noteq> i" "z \<noteq> i" "y \<notin> link_owner link" "z \<notin> link_owner link" "y \<notin> set_tree a" "y \<notin> set_tree b"
        "y \<notin> set_tree u" "z \<notin> set_tree c" "z \<notin> set_tree d" "z \<notin> set_tree l" "i \<notin> set_tree a" "i \<notin> set_tree b" "i \<notin> set_tree c" "i \<notin> set_tree d"
        using dist owner by (auto simp: l u)
      show ?thesis
      proof (cases "priority (ns y) < priority (ns z)")
        case True
        define ns1 where "ns1 = set_right (set_left ns i (right_child (ns y))) y i"
        obtain ns2 r2 where set: "set_link ns1 r link y = (ns2, r2)"
          by fastforce
        note spec = set_link_spec [OF set]
        have ns1: "same_payload ns ns1" "same_outside {i, y} ns ns1"
          by (auto simp: ns1_def same_payload_def same_outside_def)
        have out: "same_outside ({i, y} \<union> link_owner link) ns ns2"
          by (rule same_outside_trans [OF ns1(2) spec(3)]) auto
        have at: "ns2 i = ns1 i" "ns2 y = ns1 y"
          using same_outsideD [OF spec(3)] owner(1) neq(3) by simp_all
        have "treap_at ns2 (right_child (ns y)) b"
          using treap_at_outside [OF out, of b] y(4) neq owner(2) by (auto simp: l)
        moreover have "treap_at ns2 (right_child (ns i)) u"
          using treap_at_outside [OF out, of u] sub(2) dist(4) neq(7) owner(3) by auto
        ultimately have tree: "treap_at ns2 (get_link ns2 r2 (RightOf y)) (Node b i u)"
          using at neq(1) i(2) by (simp add: ns1_def)
        have "size b + size u < size l + size u" "distinct (inorder (Node b i u))" "link_owner (RightOf y) \<inter> set_tree (Node b i u) = {}"
          using less.prems(2) neq(1,6,7) by (simp_all add: l)
        from less.hyps [OF this(1) tree this(2,3)] obtain ns' r' where
          IH: "rotate_loop ns2 r2 (RightOf y) = Some (ns', r')" "same_payload ns2 ns'"
            "same_outside (set_tree (Node b i u) \<union> {y}) ns2 ns'" "treap_at ns' (right_child (ns' y)) (merge_tree ns2 b u)"
            "left_child (ns' y) = left_child (ns2 y)" "r' = r2"
          by (auto simp: link_frame_def)
        have payload2: "same_payload ns ns2"
          by (rule same_payload_trans [OF ns1(1) spec(2)])
        have disj: "link_owner link \<inter> (set_tree (Node b i u) \<union> {y}) = {}"
          using less.prems(3) by (auto simp: l)
        have all: "same_outside (set_tree (Node b i u) \<union> {y} \<union> link_owner link) ns ns'"
          by (rule same_outside_trans [OF out IH(3)]) auto
        have "set_tree a \<inter> (set_tree (Node b i u) \<union> {y} \<union> link_owner link) = {}"
          using less.prems(2,3) neq(5) by (auto simp: l)
        then have "treap_at ns' (left_child (ns y)) a"
          using treap_at_outside [OF all] y(3) by simp
        moreover have "left_child (ns' y) = left_child (ns y)"
          using IH(5) at(2) neq(1) by (simp add: ns1_def)
        ultimately have "treap_at ns' y (Node a y (merge_tree ns b u))"
          using IH(4) y(2) by (simp add: merge_tree_cong [OF payload2])
        moreover have "get_link ns' r' link = y"
          using get_link_outside [OF IH(3) disj, of r2] spec(1) IH(6) by simp
        moreover have "link_frame link ns r ns' r'"
        proof (rule link_frame_trans [OF link_frame_trans])
          show "link_frame link ns r ns1 r"
            using owner(1) neq(3) by (intro link_frame_outside [OF ns1(2)]) auto
          show "link_frame link ns1 r ns2 r2"
            by (rule spec(4))
          show "link_frame link ns2 r2 ns' r'"
            unfolding IH(6) by (rule link_frame_outside [OF IH(3) disj])
        qed
        moreover have "rotate_loop ns r link = Some (ns', r')"
          using i(2) y(1,2) z(1,2) True IH(1) by (simp add: step Let_def ns1_def [symmetric] set)
        moreover have "same_outside (set_tree (Node l i u) \<union> link_owner link) ns ns'"
          by (rule same_outside_mono [OF all]) (auto simp: l)
        ultimately show ?thesis
          using same_payload_trans [OF payload2 IH(2)] True by (simp add: l u)
      next
        case False
        define ns1 where "ns1 = set_left (set_right ns i (left_child (ns z))) z i"
        obtain ns2 r2 where set: "set_link ns1 r link z = (ns2, r2)"
          by fastforce
        note spec = set_link_spec [OF set]
        have ns1: "same_payload ns ns1" "same_outside {i, z} ns ns1"
          by (auto simp: ns1_def same_payload_def same_outside_def)
        have out: "same_outside ({i, z} \<union> link_owner link) ns ns2"
          by (rule same_outside_trans [OF ns1(2) spec(3)]) auto
        have at: "ns2 i = ns1 i" "ns2 z = ns1 z"
          using same_outsideD [OF spec(3)] owner(1) neq(4) by simp_all
        have "treap_at ns2 (left_child (ns z)) c"
          using treap_at_outside [OF out, of c] z(3) neq owner(3) by (auto simp: u)
        moreover have "treap_at ns2 (left_child (ns i)) l"
          using treap_at_outside [OF out, of l] sub(1) dist(3) neq(10) owner(2) by auto
        ultimately have tree: "treap_at ns2 (get_link ns2 r2 (LeftOf z)) (Node l i c)"
          using at neq(2) i(2) by (simp add: ns1_def)
        have "size l + size c < size l + size u" "distinct (inorder (Node l i c))" "link_owner (LeftOf z) \<inter> set_tree (Node l i c) = {}"
          using less.prems(2) neq(2,8,10) by (auto simp: u)
        from less.hyps [OF this(1) tree this(2,3)] obtain ns' r' where
          IH: "rotate_loop ns2 r2 (LeftOf z) = Some (ns', r')" "same_payload ns2 ns'"
            "same_outside (set_tree (Node l i c) \<union> {z}) ns2 ns'" "treap_at ns' (left_child (ns' z)) (merge_tree ns2 l c)"
            "right_child (ns' z) = right_child (ns2 z)" "r' = r2"
          by (auto simp: link_frame_def)
        have payload2: "same_payload ns ns2"
          by (rule same_payload_trans [OF ns1(1) spec(2)])
        have disj: "link_owner link \<inter> (set_tree (Node l i c) \<union> {z}) = {}"
          using less.prems(3) by (auto simp: u)
        have all: "same_outside (set_tree (Node l i c) \<union> {z} \<union> link_owner link) ns ns'"
          by (rule same_outside_trans [OF out IH(3)]) auto
        have "set_tree d \<inter> (set_tree (Node l i c) \<union> {z} \<union> link_owner link) = {}"
          using less.prems(2,3) neq(9) by (auto simp: u)
        then have "treap_at ns' (right_child (ns z)) d"
          using treap_at_outside [OF all] z(4) by simp
        moreover have "right_child (ns' z) = right_child (ns z)"
          using IH(5) at(2) neq(2) by (simp add: ns1_def)
        ultimately have "treap_at ns' z (Node (merge_tree ns l c) z d)"
          using IH(4) z(2) by (simp add: merge_tree_cong [OF payload2])
        moreover have "get_link ns' r' link = z"
          using get_link_outside [OF IH(3) disj, of r2] spec(1) IH(6) by simp
        moreover have "link_frame link ns r ns' r'"
        proof (rule link_frame_trans [OF link_frame_trans])
          show "link_frame link ns r ns1 r"
            using owner(1) neq(4) by (intro link_frame_outside [OF ns1(2)]) auto
          show "link_frame link ns1 r ns2 r2"
            by (rule spec(4))
          show "link_frame link ns2 r2 ns' r'"
            unfolding IH(6) by (rule link_frame_outside [OF IH(3) disj])
        qed
        moreover have "rotate_loop ns r link = Some (ns', r')"
          using i(2) y(1,2) z(1,2) False IH(1) by (simp add: step Let_def ns1_def [symmetric] set)
        moreover have "same_outside (set_tree (Node l i u) \<union> link_owner link) ns ns'"
          by (rule same_outside_mono [OF all]) (auto simp: u)
        ultimately show ?thesis
          using same_payload_trans [OF payload2 IH(2)] False by (simp add: l u)
      qed
    qed
  qed
qed

text \<open>The search for the key and the rotations below the link that it finds.\<close>

definition erase_from :: "(nat \<Rightarrow> node) \<Rightarrow> nat \<Rightarrow> nat \<Rightarrow> link \<Rightarrow> ((nat \<Rightarrow> node) \<times> nat) option" where
  "erase_from ns r key link = Option.bind (find_loop ns r key link)
     (\<lambda>found. case found of None \<Rightarrow> Some (ns, r) | Some link \<Rightarrow> rotate_loop ns r link)"

lemma erase_from_spec:
  assumes "treap_at ns (get_link ns r link) t" "distinct (inorder t)" "link_owner link \<inter> set_tree t = {}"
  shows "\<exists>ns' r'. erase_from ns r key link = Some (ns', r') \<and> same_payload ns ns' \<and>
    same_outside (set_tree t \<union> link_owner link) ns ns' \<and>
    treap_at ns' (get_link ns' r' link) (erase_tree ns key t) \<and> link_frame link ns r ns' r'"
  using assms
proof (induction t arbitrary: link)
  case Leaf
  then show ?case
    by (cases link) (simp_all add: erase_from_def find_loop.simps Let_def link_frame_def)
next
  case (Node l i u)
  have i: "get_link ns r link = i" "i \<noteq> NIL" and sub: "treap_at ns (left_child (ns i)) l" "treap_at ns (right_child (ns i)) u"
    using Node.prems(1) by simp_all
  have dist: "distinct (inorder l)" "distinct (inorder u)" "i \<notin> set_tree l" "i \<notin> set_tree u" "set_tree l \<inter> set_tree u = {}"
    using Node.prems(2) by auto
  have owner: "i \<notin> link_owner link" "link_owner link \<inter> set_tree l = {}" "link_owner link \<inter> set_tree u = {}"
    using Node.prems(3) by auto
  note step = erase_from_def find_loop.simps [of ns r key link, unfolded i(1) Let_def]
  consider (found) "offset (ns i) = key" | (left) "key < offset (ns i)" | (right) "offset (ns i) < key"
    by linarith
  then show ?case
  proof cases
    case found
    then have "erase_from ns r key link = rotate_loop ns r link"
      using i(2) by (simp add: step)
    then show ?thesis
      using rotate_loop_spec [OF Node.prems] found by simp
  next
    case left
    have "\<exists>ns' r'. erase_from ns r key (LeftOf i) = Some (ns', r') \<and> same_payload ns ns' \<and>
      same_outside (set_tree l \<union> link_owner (LeftOf i)) ns ns' \<and>
      treap_at ns' (get_link ns' r' (LeftOf i)) (erase_tree ns key l) \<and> link_frame (LeftOf i) ns r ns' r'"
      using sub(1) dist(1,3) by (intro Node.IH(1)) simp_all
    then obtain ns' where IH: "erase_from ns r key (LeftOf i) = Some (ns', r)" "same_payload ns ns'"
      "same_outside (set_tree l \<union> {i}) ns ns'" "treap_at ns' (left_child (ns' i)) (erase_tree ns key l)"
      "right_child (ns' i) = right_child (ns i)"
      by (auto simp: link_frame_def)
    have disj: "link_owner link \<inter> (set_tree l \<union> {i}) = {}"
      using owner by auto
    have "treap_at ns' (right_child (ns i)) u"
      using treap_at_outside [OF IH(3), of u] sub(2) dist(4,5) by auto
    moreover have "erase_from ns r key link = Some (ns', r)"
      using left i(2) IH(1) by (simp add: step)
    moreover have "same_outside (set_tree (Node l i u) \<union> link_owner link) ns ns'"
      by (rule same_outside_mono [OF IH(3)]) auto
    ultimately show ?thesis
      using IH left i get_link_outside [OF IH(3) disj] link_frame_outside [OF IH(3) disj] by simp
  next
    case right
    have "\<exists>ns' r'. erase_from ns r key (RightOf i) = Some (ns', r') \<and> same_payload ns ns' \<and>
      same_outside (set_tree u \<union> link_owner (RightOf i)) ns ns' \<and>
      treap_at ns' (get_link ns' r' (RightOf i)) (erase_tree ns key u) \<and> link_frame (RightOf i) ns r ns' r'"
      using sub(2) dist(2,4) by (intro Node.IH(2)) simp_all
    then obtain ns' where IH: "erase_from ns r key (RightOf i) = Some (ns', r)" "same_payload ns ns'"
      "same_outside (set_tree u \<union> {i}) ns ns'" "treap_at ns' (right_child (ns' i)) (erase_tree ns key u)"
      "left_child (ns' i) = left_child (ns i)"
      by (auto simp: link_frame_def)
    have disj: "link_owner link \<inter> (set_tree u \<union> {i}) = {}"
      using owner by auto
    have "treap_at ns' (left_child (ns i)) l"
      using treap_at_outside [OF IH(3), of l] sub(1) dist(3,5) by auto
    moreover have "erase_from ns r key link = Some (ns', r)"
      using right i(2) IH(1) by (simp add: step)
    moreover have "same_outside (set_tree (Node l i u) \<union> link_owner link) ns ns'"
      by (rule same_outside_mono [OF IH(3)]) auto
    ultimately show ?thesis
      using IH right i get_link_outside [OF IH(3) disj] link_frame_outside [OF IH(3) disj] by simp
  qed
qed

lemma treap_erase_spec:
  assumes "treap_at ns r t" "by_offset ns t"
  shows "\<exists>ns' r'. treap_erase ns r n = Some (ns', r') \<and> same_payload ns ns' \<and>
    same_outside (set_tree t) ns ns' \<and> treap_at ns' r' (erase_tree ns (offset (ns n)) t)"
proof -
  have "treap_erase ns r n = erase_from ns r (offset (ns n)) RootLink"
    by (simp only: treap_erase_def erase_from_def)
  then show ?thesis
    using erase_from_spec [of ns r RootLink t "offset (ns n)"] assms(1) by_offset_distinct [OF assms(2)] by auto
qed

section \<open>Neighbours\<close>

lemma prev_loop_spec:
  assumes "treap_at ns r t" "by_offset ns t"
  shows "prev_loop ns r key best = Some (last (best # filter (\<lambda>i. offset (ns i) < key) (inorder t)))"
  using assms
proof (induction t arbitrary: r best)
  case Leaf
  then show ?case
    by (simp add: prev_loop.simps)
next
  case (Node l i u)
  show ?case
  proof (cases "offset (ns i) < key")
    case True
    then show ?thesis
      using Node by (subst prev_loop.simps) simp
  next
    case False
    then have "filter (\<lambda>j. offset (ns j) < key) (inorder u) = []"
      using Node.prems(2) by (auto simp: filter_empty_conv)
    then show ?thesis
      using Node False by (subst prev_loop.simps) simp
  qed
qed

lemma next_loop_spec:
  assumes "treap_at ns r t" "by_offset ns t"
  shows "next_loop ns r key best = Some (hd (filter (\<lambda>i. key \<le> offset (ns i)) (inorder t) @ [best]))"
  using assms
proof (induction t arbitrary: r best)
  case Leaf
  then show ?case
    by (simp add: next_loop.simps)
next
  case (Node l i u)
  show ?case
  proof (cases "key \<le> offset (ns i)")
    case True
    then show ?thesis
      using Node by (subst next_loop.simps) (simp add: hd_append)
  next
    case False
    then have "filter (\<lambda>j. key \<le> offset (ns j)) (inorder l) = []"
      using Node.prems(2) by (auto simp: filter_empty_conv)
    then show ?thesis
      using Node False by (subst next_loop.simps) simp
  qed
qed

lemma treap_prev_spec:
  assumes "treap_at ns r t" "by_offset ns t"
  shows "\<exists>p. treap_prev ns r key = Some p \<and>
    (if p = NIL then \<forall>i \<in> set_tree t. key \<le> offset (ns i)
     else p \<in> set_tree t \<and> offset (ns p) < key \<and> (\<forall>i \<in> set_tree t. offset (ns i) < key \<longrightarrow> offset (ns i) \<le> offset (ns p)))"
proof (cases "filter (\<lambda>i. offset (ns i) < key) (inorder t)" rule: rev_cases)
  case Nil
  then show ?thesis
    using prev_loop_spec [OF assms, of key NIL] by (auto simp: treap_prev_def filter_empty_conv not_less)
next
  case (snoc xs p)
  have "p \<in> set (filter (\<lambda>i. offset (ns i) < key) (inorder t))"
    by (simp add: snoc)
  then have p: "p \<in> set_tree t" "offset (ns p) < key"
    by simp_all
  have "sorted_wrt (\<lambda>i j. offset (ns i) < offset (ns j)) (xs @ [p])"
    using assms(2) unfolding by_offset_def snoc [symmetric] by (rule sorted_wrt_filter)
  then have "offset (ns i) \<le> offset (ns p)" if "i \<in> set (xs @ [p])" for i
    using that by (auto simp: sorted_wrt_append)
  then have "offset (ns i) \<le> offset (ns p)" if "i \<in> set_tree t" "offset (ns i) < key" for i
    using that unfolding snoc [symmetric] by simp
  then show ?thesis
    using p treap_at_NIL [OF assms(1)] prev_loop_spec [OF assms, of key NIL]
    by (auto simp: treap_prev_def snoc)
qed

lemma treap_next_spec:
  assumes "treap_at ns r t" "by_offset ns t"
  shows "\<exists>p. treap_next ns r key = Some p \<and>
    (if p = NIL then \<forall>i \<in> set_tree t. offset (ns i) < key
     else p \<in> set_tree t \<and> key \<le> offset (ns p) \<and> (\<forall>i \<in> set_tree t. key \<le> offset (ns i) \<longrightarrow> offset (ns p) \<le> offset (ns i)))"
proof (cases "filter (\<lambda>i. key \<le> offset (ns i)) (inorder t)")
  case Nil
  then show ?thesis
    using next_loop_spec [OF assms, of key NIL] by (auto simp: treap_next_def filter_empty_conv not_le)
next
  case (Cons p xs)
  have "p \<in> set (filter (\<lambda>i. key \<le> offset (ns i)) (inorder t))"
    by (simp add: Cons)
  then have p: "p \<in> set_tree t" "key \<le> offset (ns p)"
    by simp_all
  have "sorted_wrt (\<lambda>i j. offset (ns i) < offset (ns j)) (p # xs)"
    using assms(2) unfolding by_offset_def Cons [symmetric] by (rule sorted_wrt_filter)
  then have "offset (ns p) \<le> offset (ns i)" if "i \<in> set (p # xs)" for i
    using that by (auto simp: less_imp_le)
  then have "offset (ns p) \<le> offset (ns i)" if "i \<in> set_tree t" "key \<le> offset (ns i)" for i
    using that unfolding Cons [symmetric] by simp
  then show ?thesis
    using p treap_at_NIL [OF assms(1)] next_loop_spec [OF assms, of key NIL]
    by (auto simp: treap_next_def Cons)
qed

section \<open>What the treap operations keep\<close>

definition is_treap :: "(nat \<Rightarrow> node) \<Rightarrow> nat \<Rightarrow> nat tree \<Rightarrow> bool" where
  "is_treap ns r t \<longleftrightarrow> treap_at ns r t \<and> by_offset ns t \<and> prio_heap ns t"

text \<open>Two edits of a treap whose node has a new offset, and the removal of a node.\<close>

lemma treap_insert_correct:
  assumes "is_treap ns r t" "n \<notin> set_tree t" "n \<noteq> NIL" "\<forall>i \<in> set_tree t. offset (ns i) \<noteq> offset (ns n)"
  shows "\<exists>ns' r' t'. treap_insert ns r n = Some (ns', r') \<and> is_treap ns' r' t' \<and> set_tree t' = insert n (set_tree t) \<and>
    same_payload ns ns' \<and> same_outside (insert n (set_tree t)) ns ns'"
proof -
  obtain ns' r' where ns': "treap_insert ns r n = Some (ns', r')" "same_payload ns ns'"
    "same_outside (insert n (set_tree t)) ns ns'" "treap_at ns' r' (insert_tree ns n t)"
    using treap_insert_spec [of ns r t n] assms(1-3) by (auto simp: is_treap_def)
  have "is_treap ns' r' (insert_tree ns n t)"
    using ns'(4) assms(1,4) by (simp add: is_treap_def by_offset_cong [OF ns'(2)] prio_heap_cong [OF ns'(2)]
        by_offset_insert_tree prio_heap_insert)
  then show ?thesis
    using ns'(1-3) insert_tree_set [of ns n t] by blast
qed

lemma treap_erase_correct:
  assumes "is_treap ns r t" "n \<in> set_tree t"
  shows "\<exists>ns' r' t'. treap_erase ns r n = Some (ns', r') \<and> is_treap ns' r' t' \<and> set_tree t' = set_tree t - {n} \<and>
    same_payload ns ns' \<and> same_outside (set_tree t) ns ns'"
proof -
  let ?t = "erase_tree ns (offset (ns n)) t"
  obtain ns' r' where ns': "treap_erase ns r n = Some (ns', r')" "same_payload ns ns'"
    "same_outside (set_tree t) ns ns'" "treap_at ns' r' ?t"
    using treap_erase_spec [of ns r t n] assms(1) by (auto simp: is_treap_def)
  have order: "by_offset ns t"
    using assms(1) by (simp add: is_treap_def)
  have "set_tree ?t = {i \<in> set_tree t. offset (ns i) \<noteq> offset (ns n)}"
    using arg_cong [OF erase_tree_inorder [OF order, of "offset (ns n)"], of set] by simp
  then have "set_tree ?t = set_tree t - {n}"
    using by_offset_inject [OF order _ assms(2)] by auto
  moreover have "is_treap ns' r' ?t"
    using ns'(4) assms(1) by (simp add: is_treap_def by_offset_cong [OF ns'(2)] prio_heap_cong [OF ns'(2)]
        by_offset_erase_tree prio_heap_erase)
  ultimately show ?thesis
    using ns'(1-3) by blast
qed

text \<open>C11.  Insertion and removal in the treap of free regions return, and keep it a search tree by
  offset and a min-heap by priority whose nodes are the old ones with the node added or removed;
  nothing of a node but its child links changes.\<close>

theorem treap_edits:
  assumes "is_treap ns r t" "n \<noteq> NIL" "\<forall>i \<in> set_tree t. i \<noteq> n \<longrightarrow> offset (ns i) \<noteq> offset (ns n)"
  shows "if n \<notin> set_tree t
    then \<exists>ns' r' t'. treap_insert ns r n = Some (ns', r') \<and> is_treap ns' r' t' \<and> set_tree t' = insert n (set_tree t) \<and> same_payload ns ns'
    else \<exists>ns' r' t'. treap_erase ns r n = Some (ns', r') \<and> is_treap ns' r' t' \<and> set_tree t' = set_tree t - {n} \<and> same_payload ns ns'"
proof (cases "n \<in> set_tree t")
  case True
  then show ?thesis
    using treap_erase_correct [OF assms(1) True] by simp blast
next
  case False
  then have "\<forall>i \<in> set_tree t. offset (ns i) \<noteq> offset (ns n)"
    using assms(3) by auto
  then show ?thesis
    using treap_insert_correct [OF assms(1) False assms(2)] False by simp blast
qed

definition sample_nodes :: "nat \<Rightarrow> node" where
  "sample_nodes i = \<lparr>offset = 10 * i, npages = 5, left_child = NIL, right_child = NIL, heap_link = i\<rparr>"

lemma treap_edits_witness:
  "\<exists>ns' r' t'. treap_insert sample_nodes 0 1 = Some (ns', r') \<and> is_treap ns' r' t' \<and> set_tree t' = {0, 1} \<and> same_payload sample_nodes ns'"
proof -
  have "is_treap sample_nodes 0 (Node Leaf 0 Leaf)"
    by (simp add: is_treap_def sample_nodes_def NIL_def)
  from treap_edits [OF this, of 1] show ?thesis
    by (simp add: sample_nodes_def NIL_def insert_commute)
qed

text \<open>The neighbours of an offset in the treap are the last free region before it and the first
  one at or after it, and \<open>NIL\<close> when there is none.\<close>

theorem treap_neighbours:
  assumes "is_treap ns r t"
  shows "(\<exists>p. treap_prev ns r key = Some p \<and>
      (if p = NIL then \<forall>i \<in> set_tree t. key \<le> offset (ns i)
       else p \<in> set_tree t \<and> offset (ns p) < key \<and> (\<forall>i \<in> set_tree t. offset (ns i) < key \<longrightarrow> offset (ns i) \<le> offset (ns p)))) \<and>
    (\<exists>p. treap_next ns r key = Some p \<and>
      (if p = NIL then \<forall>i \<in> set_tree t. offset (ns i) < key
       else p \<in> set_tree t \<and> key \<le> offset (ns p) \<and> (\<forall>i \<in> set_tree t. key \<le> offset (ns i) \<longrightarrow> offset (ns p) \<le> offset (ns i))))"
  using treap_prev_spec [of ns r t key] treap_next_spec [of ns r t key] assms by (simp add: is_treap_def)

lemma treap_neighbours_witness:
  "\<exists>p. treap_prev sample_nodes 3 35 = Some p \<and> p = 3"
proof -
  have "is_treap sample_nodes 3 (Node Leaf 3 Leaf)"
    by (simp add: is_treap_def sample_nodes_def NIL_def)
  from treap_neighbours [OF this, of 35] show ?thesis
    by (auto simp: sample_nodes_def split: if_splits)
qed

text \<open>Regions at different offsets have different priorities, as the loops assume: the hash is
  injective on 32 bits.\<close>

theorem priority_distinct:
  assumes "offset m < 2 ^ 32" "offset n < 2 ^ 32"
  shows "priority m = priority n \<longleftrightarrow> offset m = offset n"
  using priority_inject [OF _ assms] by (auto simp: priority_def)

lemma priority_distinct_witness: "priority (sample_nodes 1) \<noteq> priority (sample_nodes 2)"
  using priority_distinct [of "sample_nodes 1" "sample_nodes 2"] by (simp add: sample_nodes_def)

end
