(* ===== verification/AllocHeap.thy ===== *)
theory AllocHeap
  imports AllocNodes
begin

text \<open>
  The max-heap of free regions by size: an array of node ids whose nodes know their positions.
  A position never exceeds the number of regions, so that \<open>2 * pos + 2\<close> does not wrap in 32 bits.
\<close>

section \<open>The operations\<close>

abbreviation key_at :: "space \<Rightarrow> nat \<Rightarrow> nat" where
  "key_at s p \<equiv> npages (nodes s (heap_array s p))"

definition heap_swap :: "nat \<Rightarrow> nat \<Rightarrow> space \<Rightarrow> space" where
  "heap_swap lhs rhs s = (
     let a = heap_array s lhs; b = heap_array s rhs
     in s\<lparr>heap_array := (heap_array s)(lhs := b, rhs := a), nodes := set_heap (set_heap (nodes s) a rhs) b lhs\<rparr>)"

lemma heap_swap_simps [simp]:
  "heap_size (heap_swap l r s) = heap_size s"
  "npages (nodes (heap_swap l r s) i) = npages (nodes s i)"
  by (simp_all add: heap_swap_def Let_def)

lemma heap_swap_key:
  "key_at (heap_swap l r s) p = (if p = r then key_at s l else if p = l then key_at s r else key_at s p)"
  by (simp add: heap_swap_def Let_def)

text \<open>The larger of a position and its children.\<close>

definition best_child :: "space \<Rightarrow> nat \<Rightarrow> nat" where
  "best_child s pos = (
     let left = pos * 2 + 1; right = left + 1;
         best = (if left < heap_size s \<and> key_at s pos < key_at s left then left else pos)
     in if right < heap_size s \<and> key_at s best < key_at s right then right else best)"

lemma best_child_bounds: "best_child s pos \<noteq> pos \<Longrightarrow> pos < best_child s pos \<and> best_child s pos < heap_size s"
  by (auto simp: best_child_def Let_def split: if_splits)

function heapify_down :: "nat \<Rightarrow> space \<Rightarrow> nat \<times> space" where
  "heapify_down pos s = (
     let best = best_child s pos
     in if best = pos then (pos, s) else heapify_down best (heap_swap pos best s))"
  by pat_completeness auto
termination
  by (relation "measure (\<lambda>(pos, s). heap_size s - pos)") (use best_child_bounds in \<open>fastforce+\<close>)

declare heapify_down.simps [simp del]

fun heapify_up :: "nat \<Rightarrow> space \<Rightarrow> nat \<times> space" where
  "heapify_up pos s = (
     if 0 < pos
     then let parent = (pos - 1) div 2
       in if key_at s parent < key_at s pos then heapify_up parent (heap_swap pos parent s) else (pos, s)
     else (pos, s))"

declare heapify_up.simps [simp del]

definition heap_insert :: "nat \<Rightarrow> space \<Rightarrow> space" where
  "heap_insert n s = (
     let s = s\<lparr>heap_array := (heap_array s)(heap_size s := n), nodes := set_heap (nodes s) n (heap_size s)\<rparr>;
         s = snd (heapify_up (heap_size s) s)
     in s\<lparr>heap_size := heap_size s + 1\<rparr>)"

definition heap_erase :: "nat \<Rightarrow> space \<Rightarrow> space" where
  "heap_erase n s = (
     let pos = heap_link (nodes s n); l = heap_array s (heap_size s - 1);
         s = s\<lparr>heap_array := (heap_array s)(pos := l), nodes := set_heap (nodes s) l pos, heap_size := heap_size s - 1\<rparr>;
         s = s\<lparr>nodes := set_heap (nodes s) n NIL\<rparr>
     in if pos < heap_size s then snd (heapify_up pos (snd (heapify_down pos s))) else s)"

definition heap_fix :: "nat \<Rightarrow> space \<Rightarrow> space" where
  "heap_fix n s = (let pos = heap_link (nodes s n) in snd (heapify_up pos (snd (heapify_down pos s))))"

section \<open>The links between nodes and positions\<close>

definition heap_ids :: "space \<Rightarrow> nat set" where
  "heap_ids s = heap_array s ` {..<heap_size s}"

definition linked_to :: "nat \<Rightarrow> space \<Rightarrow> bool" where
  "linked_to n s \<longleftrightarrow> (\<forall>p < n. heap_link (nodes s (heap_array s p)) = p)"

abbreviation heap_linked :: "space \<Rightarrow> bool" where
  "heap_linked s \<equiv> linked_to (heap_size s) s"

text \<open>A rearrangement of the first \<open>n\<close> positions: only heap links of their nodes change.\<close>

definition rearranged :: "nat \<Rightarrow> space \<Rightarrow> space \<Rightarrow> bool" where
  "rearranged n s s' \<longleftrightarrow> (\<forall>N A. s'\<lparr>nodes := N, heap_array := A\<rparr> = s\<lparr>nodes := N, heap_array := A\<rparr>) \<and>
     (\<forall>i. (nodes s' i)\<lparr>heap_link := 0\<rparr> = (nodes s i)\<lparr>heap_link := 0\<rparr>) \<and>
     (\<forall>i. i \<notin> heap_array s ` {..<n} \<longrightarrow> nodes s' i = nodes s i) \<and>
     heap_array s' ` {..<n} = heap_array s ` {..<n} \<and> linked_to n s'"

lemma linked_inject: "linked_to n s \<Longrightarrow> p < n \<Longrightarrow> q < n \<Longrightarrow> heap_array s p = heap_array s q \<Longrightarrow> p = q"
  unfolding linked_to_def by metis

lemma rearranged_refl: "linked_to n s \<Longrightarrow> rearranged n s s"
  by (simp add: rearranged_def)

lemma rearranged_trans: "rearranged n s s' \<Longrightarrow> rearranged n s' s'' \<Longrightarrow> rearranged n s s''"
  by (simp add: rearranged_def)

lemma rearranged_swap:
  assumes "linked_to n s" "l < n" "r < n" "l \<noteq> r"
  shows "rearranged n s (heap_swap l r s)"
proof -
  define a b where "a = heap_array s l" and "b = heap_array s r"
  have neq: "a \<noteq> b"
    using linked_inject [OF assms(1-3)] assms(4) by (auto simp: a_def b_def)
  have arr: "heap_array (heap_swap l r s) p = (if p = r then a else if p = l then b else heap_array s p)" for p
    by (simp add: heap_swap_def Let_def a_def b_def)
  have nod: "nodes (heap_swap l r s) i = (nodes s i)\<lparr>heap_link := (if i = b then l else if i = a then r else heap_link (nodes s i))\<rparr>" for i
    using neq by (simp add: heap_swap_def Let_def a_def b_def)
  have "heap_array (heap_swap l r s) ` {..<n} = heap_array s ` {..<n}"
  proof -
    have "heap_array (heap_swap l r s) ` {..<n} \<subseteq> heap_array s ` {..<n}"
      using assms(2,3) by (auto simp: arr a_def b_def)
    moreover have "heap_array s p \<in> heap_array (heap_swap l r s) ` {..<n}" if "p < n" for p
    proof -
      have "heap_array s p = heap_array (heap_swap l r s) (if p = l then r else if p = r then l else p)"
        using assms(4) by (simp add: arr a_def b_def)
      then show ?thesis
        by (rule image_eqI) (use that assms(2,3) in auto)
    qed
    ultimately show ?thesis by blast
  qed
  moreover have "linked_to n (heap_swap l r s)"
    unfolding linked_to_def
  proof (intro allI impI)
    fix p assume p: "p < n"
    show "heap_link (nodes (heap_swap l r s) (heap_array (heap_swap l r s) p)) = p"
      using p neq assms(1) linked_inject [OF assms(1) p assms(2)] linked_inject [OF assms(1) p assms(3)] assms(4)
      by (auto simp: arr nod linked_to_def a_def b_def)
  qed
  moreover have "nodes (heap_swap l r s) i = nodes s i" if "i \<notin> heap_array s ` {..<n}" for i
    using that assms(2,3) by (auto simp: nod a_def b_def)
  moreover have "(heap_swap l r s)\<lparr>nodes := N, heap_array := A\<rparr> = s\<lparr>nodes := N, heap_array := A\<rparr>" for N A
    by (simp add: heap_swap_def Let_def)
  ultimately show ?thesis
    by (simp add: rearranged_def nod)
qed

lemma rearranged_linked: "rearranged n s s' \<Longrightarrow> linked_to n s'"
  by (simp add: rearranged_def)

lemma heapify_down_rearranged:
  "linked_to (heap_size s) s \<Longrightarrow> pos < heap_size s \<Longrightarrow> rearranged (heap_size s) s (snd (heapify_down pos s))"
proof (induction pos s rule: heapify_down.induct)
  case (1 pos s)
  show ?case
  proof (cases "best_child s pos = pos")
    case True
    then show ?thesis
      using 1 by (subst heapify_down.simps) (simp add: rearranged_refl)
  next
    case False
    note best = best_child_bounds [OF False]
    have swap: "rearranged (heap_size s) s (heap_swap pos (best_child s pos) s)"
      using 1(2,3) best by (intro rearranged_swap) auto
    then show ?thesis
      using 1(1) [OF refl False] best rearranged_linked [OF swap] False
      by (subst heapify_down.simps) (auto simp: Let_def intro: rearranged_trans)
  qed
qed

lemma heapify_up_rearranged:
  "linked_to n s \<Longrightarrow> pos < n \<Longrightarrow> rearranged n s (snd (heapify_up pos s))"
proof (induction pos s rule: heapify_up.induct)
  case (1 pos s)
  show ?case
  proof (cases "0 < pos \<and> key_at s ((pos - 1) div 2) < key_at s pos")
    case False
    then show ?thesis
      using 1(2) by (subst heapify_up.simps) (auto simp: rearranged_refl Let_def)
  next
    case True
    then have par: "(pos - 1) div 2 < n" "pos \<noteq> (pos - 1) div 2"
      using 1(3) by auto
    have swap: "rearranged n s (heap_swap pos ((pos - 1) div 2) s)"
      using 1(2,3) par by (intro rearranged_swap) auto
    then have "rearranged n (heap_swap pos ((pos - 1) div 2) s) (snd (heapify_up ((pos - 1) div 2) (heap_swap pos ((pos - 1) div 2) s)))"
      using True rearranged_linked [OF swap] par(1) by (intro 1(1)) auto
    then show ?thesis
      using True swap by (subst heapify_up.simps) (auto simp: Let_def intro: rearranged_trans)
  qed
qed

section \<open>The order of the heap\<close>

definition ordered_to :: "nat \<Rightarrow> space \<Rightarrow> bool" where
  "ordered_to n s \<longleftrightarrow> (\<forall>p. 0 < p \<and> p < n \<longrightarrow> key_at s p \<le> key_at s ((p - 1) div 2))"

abbreviation heap_ordered :: "space \<Rightarrow> bool" where
  "heap_ordered s \<equiv> ordered_to (heap_size s) s"

lemma parent_less: "0 < p \<Longrightarrow> (p - 1) div 2 < (p :: nat)"
  by linarith

lemma child_cases: "0 < q \<Longrightarrow> (q - 1) div 2 = p \<longleftrightarrow> q = p * 2 + 1 \<or> q = p * 2 + 1 + (1 :: nat)"
  by linarith

lemma best_child_spec:
  "best_child s pos = pos \<Longrightarrow> 0 < q \<Longrightarrow> q < heap_size s \<Longrightarrow> (q - 1) div 2 = pos \<Longrightarrow> key_at s q \<le> key_at s pos"
  "best_child s pos \<noteq> pos \<Longrightarrow> (best_child s pos - 1) div 2 = pos"
  "best_child s pos \<noteq> pos \<Longrightarrow> key_at s pos < key_at s (best_child s pos)"
  "best_child s pos \<noteq> pos \<Longrightarrow> 0 < q \<Longrightarrow> q < heap_size s \<Longrightarrow> (q - 1) div 2 = pos \<Longrightarrow>
    key_at s q \<le> key_at s (best_child s pos)"
  unfolding child_cases by (auto simp: best_child_def Let_def child_cases split: if_splits)

text \<open>Sifting up mends an order broken only between a position and its parent.\<close>

lemma heapify_up_ordered:
  assumes "pos < n" "\<And>q. 0 < q \<Longrightarrow> q < n \<Longrightarrow> q \<noteq> pos \<Longrightarrow> key_at s q \<le> key_at s ((q - 1) div 2)"
    "\<And>q. 0 < q \<Longrightarrow> q < n \<Longrightarrow> (q - 1) div 2 = pos \<Longrightarrow> 0 < pos \<Longrightarrow> key_at s q \<le> key_at s ((pos - 1) div 2)"
  shows "ordered_to n (snd (heapify_up pos s))"
  using assms
proof (induction pos s rule: heapify_up.induct)
  case (1 pos s)
  show ?case
  proof (cases "0 < pos \<and> key_at s ((pos - 1) div 2) < key_at s pos")
    case False
    then have "ordered_to n s"
      unfolding ordered_to_def using 1(3) by (metis not_less)
    moreover have "heapify_up pos s = (pos, s)"
      using False by (subst heapify_up.simps) (auto simp: Let_def)
    ultimately show ?thesis by simp
  next
    case True
    define par where "par = (pos - 1) div 2"
    have par: "par < pos" "key_at s par < key_at s pos"
      using True parent_less by (auto simp: par_def)
    have parent: "(pos - Suc 0) div 2 = par"
      by (simp add: par_def)
    define s1 where "s1 = heap_swap pos par s"
    have key: "key_at s1 q = (if q = par then key_at s pos else if q = pos then key_at s par else key_at s q)" for q
      unfolding s1_def by (rule heap_swap_key)
    have "ordered_to n (snd (heapify_up par s1))"
      unfolding par_def s1_def
    proof (rule 1(1))
      fix q assume q: "0 < q" "q < n" "q \<noteq> (pos - 1) div 2"
      have "(q - 1) div 2 < q"
        by (rule parent_less [OF q(1)])
      show "key_at (heap_swap pos ((pos - 1) div 2) s) q \<le> key_at (heap_swap pos ((pos - 1) div 2) s) ((q - 1) div 2)"
        unfolding par_def [symmetric] s1_def [symmetric]
      proof (cases "q = pos")
        case True
        then show "key_at s1 q \<le> key_at s1 ((q - 1) div 2)"
          using par by (simp add: key parent)
      next
        case other: False
        consider (child) "(q - 1) div 2 = pos" | (sibling) "(q - 1) div 2 = par" | (far) "(q - 1) div 2 \<noteq> pos" "(q - 1) div 2 \<noteq> par"
          by blast
        then show "key_at s1 q \<le> key_at s1 ((q - 1) div 2)"
        proof cases
          case child
          then show ?thesis
            using 1(4) [OF q(1,2)] True other q(3) par by (simp add: key parent)
        next
          case sibling
          then show ?thesis
            using 1(3) [OF q(1,2) other] par other q(3) by (simp add: key parent)
        next
          case far
          then show ?thesis
            using 1(3) [OF q(1,2) other] other q(3) by (simp add: key parent)
        qed
      qed
    next
      fix q assume q: "0 < q" "q < n" "(q - 1) div 2 = (pos - 1) div 2" "0 < (pos - 1) div 2"
      have "(par - 1) div 2 < par" "key_at s par \<le> key_at s ((par - 1) div 2)" "q \<noteq> par"
        using q 1(3) [of par] par(1) 1(2) parent_less [of par] parent_less [OF q(1)] by (auto simp: par_def)
      moreover have "key_at s q \<le> key_at s par" if "q \<noteq> pos"
        using 1(3) [OF q(1,2) that] q(3) by (simp add: par_def)
      ultimately show "key_at (heap_swap pos ((pos - 1) div 2) s) q \<le>
          key_at (heap_swap pos ((pos - 1) div 2) s) (((pos - 1) div 2 - 1) div 2)"
        unfolding par_def [symmetric] s1_def [symmetric] using par(1) by (auto simp: key)
    qed (use True 1(2) parent_less [of pos] in auto)
    moreover have "heapify_up pos s = heapify_up par s1"
      using True by (subst heapify_up.simps) (simp add: Let_def par_def s1_def)
    ultimately show ?thesis by simp
  qed
qed

lemma heapify_up_stays: "ordered_to n s \<Longrightarrow> pos < n \<Longrightarrow> heapify_up pos s = (pos, s)"
  by (subst heapify_up.simps) (auto simp: ordered_to_def Let_def not_less)

text \<open>Sifting down mends an order broken only between a position and its children.\<close>

lemma heapify_down_ordered:
  assumes "pos < heap_size s" "\<And>q. 0 < q \<Longrightarrow> q < heap_size s \<Longrightarrow> (q - 1) div 2 \<noteq> pos \<Longrightarrow> key_at s q \<le> key_at s ((q - 1) div 2)"
    "\<And>q. 0 < q \<Longrightarrow> q < heap_size s \<Longrightarrow> (q - 1) div 2 = pos \<Longrightarrow> 0 < pos \<Longrightarrow> key_at s q \<le> key_at s ((pos - 1) div 2)"
  shows "ordered_to (heap_size s) (snd (heapify_down pos s))"
  using assms
proof (induction pos s rule: heapify_down.induct)
  case (1 pos s)
  note best = best_child_spec [of s pos]
  show ?case
  proof (cases "best_child s pos = pos")
    case True
    then have "ordered_to (heap_size s) s"
      unfolding ordered_to_def using 1(3) best(1) by metis
    then show ?thesis
      using True by (subst heapify_down.simps) simp
  next
    case False
    define b where "b = best_child s pos"
    have b: "pos < b" "b < heap_size s" "(b - 1) div 2 = pos" "key_at s pos < key_at s b"
      using best(2,3) [OF False] best_child_bounds [OF False] by (simp_all add: b_def)
    define s1 where "s1 = heap_swap pos b s"
    have key: "key_at s1 q = (if q = b then key_at s pos else if q = pos then key_at s b else key_at s q)" for q
      unfolding s1_def by (rule heap_swap_key)
    have size: "heap_size s1 = heap_size s"
      by (simp add: s1_def)
    have "ordered_to (heap_size s1) (snd (heapify_down b s1))"
      unfolding b_def s1_def
    proof (rule 1(1) [OF refl False])
      fix q assume "0 < q" "q < heap_size (heap_swap pos (best_child s pos) s)" "(q - 1) div 2 \<noteq> best_child s pos"
      then have q: "0 < q" "q < heap_size s" "(q - 1) div 2 \<noteq> b"
        by (simp_all add: b_def)
      have less: "(q - 1) div 2 < q"
        by (rule parent_less [OF q(1)])
      show "key_at (heap_swap pos (best_child s pos) s) q \<le> key_at (heap_swap pos (best_child s pos) s) ((q - 1) div 2)"
        unfolding b_def [symmetric] s1_def [symmetric]
      proof (cases "(q - 1) div 2 = pos")
        case True
        then show "key_at s1 q \<le> key_at s1 ((q - 1) div 2)"
          using best(4) [OF False q(1,2)] b less by (auto simp: key b_def [symmetric])
      next
        case far: False
        show "key_at s1 q \<le> key_at s1 ((q - 1) div 2)"
        proof (cases "q = pos")
          case True
          then show ?thesis
            using 1(4) [of b] b less far q by (simp add: key)
        next
          case other: False
          then have "q \<noteq> b"
            using far b(3) by auto
          then show ?thesis
            using 1(3) [OF q(1,2) far] far other q(3) by (simp add: key)
        qed
      qed
    next
      fix q assume "0 < q" "q < heap_size (heap_swap pos (best_child s pos) s)" "(q - 1) div 2 = best_child s pos"
      then have q: "0 < q" "q < heap_size s" "(q - 1) div 2 = b"
        by (simp_all add: b_def)
      have "b < q"
        using parent_less [OF q(1)] q(3) by simp
      then show "key_at (heap_swap pos (best_child s pos) s) q \<le> key_at (heap_swap pos (best_child s pos) s) ((best_child s pos - 1) div 2)"
        unfolding b_def [symmetric] s1_def [symmetric] using 1(3) [OF q(1,2)] q(3) b by (simp add: key)
    qed (use b in \<open>simp add: b_def\<close>)
    moreover have "heapify_down pos s = heapify_down b s1"
      using False by (subst heapify_down.simps) (simp add: Let_def b_def s1_def)
    ultimately show ?thesis
      by (simp add: size)
  qed
qed

text \<open>Sifting down and then up mends an order broken anywhere round one position.\<close>

lemma sift_ordered:
  assumes "pos < heap_size s"
    "\<And>q. 0 < q \<Longrightarrow> q < heap_size s \<Longrightarrow> q \<noteq> pos \<Longrightarrow> (q - 1) div 2 \<noteq> pos \<Longrightarrow> key_at s q \<le> key_at s ((q - 1) div 2)"
    "\<And>q. 0 < q \<Longrightarrow> q < heap_size s \<Longrightarrow> (q - 1) div 2 = pos \<Longrightarrow> 0 < pos \<Longrightarrow> key_at s q \<le> key_at s ((pos - 1) div 2)"
  shows "ordered_to (heap_size s) (snd (heapify_up pos (snd (heapify_down pos s))))"
proof (cases "best_child s pos = pos")
  case True
  then have "heapify_down pos s = (pos, s)"
    by (subst heapify_down.simps) simp
  moreover have "ordered_to (heap_size s) (snd (heapify_up pos s))"
    using assms best_child_spec(1) [OF True] by (intro heapify_up_ordered) metis+
  ultimately show ?thesis by simp
next
  case False
  define b where "b = best_child s pos"
  note best = best_child_spec [of s pos]
  have b: "pos < b" "b < heap_size s" "(b - 1) div 2 = pos" "key_at s pos < key_at s b"
    using best(2,3) [OF False] best_child_bounds [OF False] by (simp_all add: b_def)
  define s1 where "s1 = heap_swap pos b s"
  have key: "key_at s1 q = (if q = b then key_at s pos else if q = pos then key_at s b else key_at s q)" for q
    unfolding s1_def by (rule heap_swap_key)
  have size: "heap_size s1 = heap_size s"
    by (simp add: s1_def)
  have "ordered_to (heap_size s1) (snd (heapify_down b s1))"
  proof (rule heapify_down_ordered)
    fix q assume q: "0 < q" "q < heap_size s1" "(q - 1) div 2 \<noteq> b"
    have less: "(q - 1) div 2 < q"
      by (rule parent_less [OF q(1)])
    show "key_at s1 q \<le> key_at s1 ((q - 1) div 2)"
    proof (cases "(q - 1) div 2 = pos")
      case True
      then show ?thesis
        using best(4) [OF False q(1)] q(2) b less by (auto simp: key size b_def [symmetric])
    next
      case far: False
      show ?thesis
      proof (cases "q = pos")
        case True
        then show ?thesis
          using assms(3) [of b] b less far q by (simp add: key)
      next
        case other: False
        then have "q \<noteq> b"
          using far b(3) by auto
        then show ?thesis
          using assms(2) [OF q(1) _ other far] far other q by (simp add: key size)
      qed
    qed
  next
    fix q assume q: "0 < q" "q < heap_size s1" "(q - 1) div 2 = b"
    have "b < q"
      using parent_less [OF q(1)] q(3) by simp
    then show "key_at s1 q \<le> key_at s1 ((b - 1) div 2)"
      using assms(2) [OF q(1)] q(2,3) b by (simp add: key size)
  qed (use b size in simp)
  moreover have "heapify_down pos s = heapify_down b s1"
    using False by (subst heapify_down.simps) (simp add: Let_def b_def s1_def)
  ultimately have "ordered_to (heap_size s) (snd (heapify_down pos s))"
    by (simp add: size)
  then show ?thesis
    using heapify_up_stays [OF _ assms(1)] by simp
qed

section \<open>Insertion, removal and repair\<close>

text \<open>Only the heap and the heap links of some nodes change.\<close>

definition heap_only :: "nat set \<Rightarrow> space \<Rightarrow> space \<Rightarrow> bool" where
  "heap_only S s s' \<longleftrightarrow>
     (\<forall>N A k. s'\<lparr>nodes := N, heap_array := A, heap_size := k\<rparr> = s\<lparr>nodes := N, heap_array := A, heap_size := k\<rparr>) \<and>
     (\<forall>i. (nodes s' i)\<lparr>heap_link := 0\<rparr> = (nodes s i)\<lparr>heap_link := 0\<rparr>) \<and> (\<forall>i. i \<notin> S \<longrightarrow> nodes s' i = nodes s i)"

lemma heap_only_trans: "heap_only S s s' \<Longrightarrow> heap_only S s' s'' \<Longrightarrow> heap_only S s s''"
  by (simp add: heap_only_def)

lemma heap_only_payload:
  assumes "heap_only S s s'"
  shows "offset (nodes s' i) = offset (nodes s i)" "npages (nodes s' i) = npages (nodes s i)"
    "left_child (nodes s' i) = left_child (nodes s i)" "right_child (nodes s' i) = right_child (nodes s i)"
proof -
  have "(nodes s' i)\<lparr>heap_link := 0\<rparr> = (nodes s i)\<lparr>heap_link := 0\<rparr>"
    using assms by (simp add: heap_only_def)
  from arg_cong [OF this, of offset] arg_cong [OF this, of npages] arg_cong [OF this, of left_child] arg_cong [OF this, of right_child]
  show "offset (nodes s' i) = offset (nodes s i)" "npages (nodes s' i) = npages (nodes s i)"
    "left_child (nodes s' i) = left_child (nodes s i)" "right_child (nodes s' i) = right_child (nodes s i)"
    by simp_all
qed

lemma heap_only_rest:
  assumes "heap_only S s s'"
  shows "treap_root s' = treap_root s" "next_node s' = next_node s" "free_list s' = free_list s"
    "batch_list s' = batch_list s" "batch_pages s' = batch_pages s" "batch_min s' = batch_min s" "batch_max s' = batch_max s"
    "total s' = total s" "occupied s' = occupied s" "slabs s' = slabs s" "slab_ids s' = slab_ids s"
    "slab_free s' = slab_free s" "remote_slab s' = remote_slab s" "remote_page s' = remote_page s" "decommits s' = decommits s"
proof -
  have eq: "s'\<lparr>nodes := nodes s, heap_array := heap_array s, heap_size := 0\<rparr> = s\<lparr>nodes := nodes s, heap_array := heap_array s, heap_size := 0\<rparr>"
    using assms by (simp add: heap_only_def)
  show "treap_root s' = treap_root s" using arg_cong [OF eq, of treap_root] by simp
  show "next_node s' = next_node s" using arg_cong [OF eq, of next_node] by simp
  show "free_list s' = free_list s" using arg_cong [OF eq, of free_list] by simp
  show "batch_list s' = batch_list s" using arg_cong [OF eq, of batch_list] by simp
  show "batch_pages s' = batch_pages s" using arg_cong [OF eq, of batch_pages] by simp
  show "batch_min s' = batch_min s" using arg_cong [OF eq, of batch_min] by simp
  show "batch_max s' = batch_max s" using arg_cong [OF eq, of batch_max] by simp
  show "total s' = total s" using arg_cong [OF eq, of total] by simp
  show "occupied s' = occupied s" using arg_cong [OF eq, of occupied] by simp
  show "slabs s' = slabs s" using arg_cong [OF eq, of slabs] by simp
  show "slab_ids s' = slab_ids s" using arg_cong [OF eq, of slab_ids] by simp
  show "slab_free s' = slab_free s" using arg_cong [OF eq, of slab_free] by simp
  show "remote_slab s' = remote_slab s" using arg_cong [OF eq, of remote_slab] by simp
  show "remote_page s' = remote_page s" using arg_cong [OF eq, of remote_page] by simp
  show "decommits s' = decommits s" using arg_cong [OF eq, of decommits] by simp
qed

lemma rearranged_heap_only:
  assumes "rearranged n s s'" "heap_array s ` {..<n} \<subseteq> S"
  shows "heap_only S s s'"
  unfolding heap_only_def
proof (intro conjI allI impI)
  fix N A k
  have "s'\<lparr>nodes := N, heap_array := A\<rparr> = s\<lparr>nodes := N, heap_array := A\<rparr>"
    using assms(1) by (simp add: rearranged_def)
  from arg_cong [OF this, of "\<lambda>s. s\<lparr>heap_size := k\<rparr>"]
  show "s'\<lparr>nodes := N, heap_array := A, heap_size := k\<rparr> = s\<lparr>nodes := N, heap_array := A, heap_size := k\<rparr>"
    by simp
next
  fix i show "(nodes s' i)\<lparr>heap_link := 0\<rparr> = (nodes s i)\<lparr>heap_link := 0\<rparr>"
    using assms(1) by (simp add: rearranged_def)
next
  fix i assume "i \<notin> S"
  then have "i \<notin> heap_array s ` {..<n}"
    using assms(2) by blast
  then show "nodes s' i = nodes s i"
    using assms(1) by (simp add: rearranged_def)
qed

lemma rearranged_size: "rearranged n s s' \<Longrightarrow> heap_size s' = heap_size s"
proof -
  assume "rearranged n s s'"
  then have "s'\<lparr>nodes := nodes s, heap_array := heap_array s\<rparr> = s\<lparr>nodes := nodes s, heap_array := heap_array s\<rparr>"
    by (simp add: rearranged_def)
  from arg_cong [OF this, of heap_size] show ?thesis by simp
qed

lemma heap_insert_linked:
  assumes "heap_linked s" "n \<notin> heap_ids s"
  shows "heap_linked (heap_insert n s) \<and> heap_size (heap_insert n s) = heap_size s + 1 \<and>
    heap_ids (heap_insert n s) = insert n (heap_ids s) \<and> heap_only (insert n (heap_ids s)) s (heap_insert n s)"
proof -
  let ?k = "heap_size s"
  define s1 where "s1 = s\<lparr>heap_array := (heap_array s)(?k := n), nodes := set_heap (nodes s) n ?k\<rparr>"
  define s2 where "s2 = snd (heapify_up ?k s1)"
  have ids: "heap_array s1 ` {..<Suc ?k} = insert n (heap_ids s)"
    by (auto simp: s1_def heap_ids_def lessThan_Suc image_iff)
  have linked: "linked_to (Suc ?k) s1"
    using assms by (auto simp: linked_to_def s1_def heap_ids_def less_Suc_eq)
  have s2: "rearranged (Suc ?k) s1 s2"
    unfolding s2_def by (rule heapify_up_rearranged [OF linked]) simp
  have size: "heap_size s2 = ?k"
    using rearranged_size [OF s2] by (simp add: s1_def)
  have "heap_size s1 = ?k"
    by (simp add: s1_def)
  then have res: "heap_insert n s = s2\<lparr>heap_size := Suc ?k\<rparr>"
    by (simp add: heap_insert_def Let_def s1_def [symmetric] s2_def [symmetric] size)
  have "heap_only (insert n (heap_ids s)) s s1"
    by (simp add: heap_only_def s1_def)
  moreover have "heap_only (insert n (heap_ids s)) s1 s2"
    by (rule rearranged_heap_only [OF s2]) (simp add: ids)
  moreover have "heap_only (insert n (heap_ids s)) s2 (s2\<lparr>heap_size := Suc ?k\<rparr>)"
    by (simp add: heap_only_def)
  ultimately have "heap_only (insert n (heap_ids s)) s (heap_insert n s)"
    unfolding res by (blast intro: heap_only_trans)
  then show ?thesis
    using s2 ids by (auto simp: res rearranged_def linked_to_def heap_ids_def)
qed

lemma heap_erase_linked:
  assumes "heap_linked s" "n \<in> heap_ids s"
  shows "heap_linked (heap_erase n s) \<and> heap_size (heap_erase n s) = heap_size s - 1 \<and>
    heap_ids (heap_erase n s) = heap_ids s - {n} \<and> heap_only (heap_ids s) s (heap_erase n s)"
proof -
  let ?k = "heap_size s - 1"
  define pos l where "pos = heap_link (nodes s n)" and "l = heap_array s ?k"
  obtain p where p: "p < heap_size s" "heap_array s p = n"
    using assms(2) by (auto simp: heap_ids_def)
  then have pos: "pos < heap_size s" "heap_array s pos = n"
    using assms(1) by (auto simp: linked_to_def pos_def)
  then have k: "?k < heap_size s"
    by linarith
  have inj: "q = r" if "q < heap_size s" "r < heap_size s" "heap_array s q = heap_array s r" for q r
    by (rule linked_inject [OF assms(1) that])
  define s1 where "s1 = s\<lparr>heap_array := (heap_array s)(pos := l), heap_size := ?k, nodes := set_heap (set_heap (nodes s) l pos) n NIL\<rparr>"
  have ids: "heap_array s1 ` {..<?k} = heap_ids s - {n}"
  proof
    show "heap_array s1 ` {..<?k} \<subseteq> heap_ids s - {n}"
    proof
      fix i assume "i \<in> heap_array s1 ` {..<?k}"
      then obtain q where q: "q < ?k" "i = heap_array s1 q"
        by blast
      define q' where "q' = (if q = pos then ?k else q)"
      have "i = heap_array s q'" "q' < heap_size s" "q' \<noteq> pos"
        using q k by (auto simp: s1_def l_def q'_def)
      then show "i \<in> heap_ids s - {n}"
        using inj [of q' pos] pos by (auto simp: heap_ids_def)
    qed
    show "heap_ids s - {n} \<subseteq> heap_array s1 ` {..<?k}"
    proof
      fix i assume "i \<in> heap_ids s - {n}"
      then obtain q where q: "q < heap_size s" "heap_array s q = i" "q \<noteq> pos"
        using pos by (auto simp: heap_ids_def)
      have "i = heap_array s1 (if q = ?k then pos else q)"
        using q by (auto simp: s1_def l_def)
      moreover have "(if q = ?k then pos else q) < ?k"
        using q pos by auto
      ultimately show "i \<in> heap_array s1 ` {..<?k}"
        by blast
    qed
  qed
  have linked: "linked_to ?k s1"
    unfolding linked_to_def
  proof (intro allI impI)
    fix q assume q: "q < ?k"
    have qs: "q < heap_size s"
      using q by simp
    have "heap_array s q \<noteq> l" "q \<noteq> pos \<Longrightarrow> heap_array s q \<noteq> n" "q = pos \<Longrightarrow> l \<noteq> n"
      using q inj [OF qs k] inj [OF qs pos(1)] inj [OF pos(1) k] pos(2) by (auto simp: l_def)
    then show "heap_link (nodes s1 (heap_array s1 q)) = q"
      using q assms(1) by (auto simp: s1_def linked_to_def)
  qed
  have l: "l \<in> heap_ids s"
    using k by (auto simp: l_def heap_ids_def)
  have only: "heap_only (heap_ids s) s s1"
    using l assms(2) by (auto simp: heap_only_def s1_def)
  have step: "heap_erase n s = (if pos < ?k then snd (heapify_up pos (snd (heapify_down pos s1))) else s1)"
    by (simp add: heap_erase_def Let_def pos_def [symmetric] l_def s1_def)
  have size: "heap_size s1 = ?k"
    by (simp add: s1_def)
  show ?thesis
  proof (cases "pos < ?k")
    case True
    have down: "rearranged ?k s1 (snd (heapify_down pos s1))"
      using heapify_down_rearranged [of s1 pos] linked True by (simp add: size)
    have up: "rearranged ?k s1 (heap_erase n s)"
      using rearranged_trans [OF down heapify_up_rearranged [OF rearranged_linked [OF down] True]] True by (simp add: step)
    have "heap_only (heap_ids s) s (heap_erase n s)"
      using only rearranged_heap_only [OF up, of "heap_ids s"] ids by (auto intro: heap_only_trans)
    then show ?thesis
      using up rearranged_size [OF up] ids by (auto simp: size rearranged_def heap_ids_def)
  next
    case False
    then show ?thesis
      using only ids linked by (simp add: step size heap_ids_def)
  qed
qed

lemma heap_fix_linked:
  assumes "heap_linked s" "n \<in> heap_ids s"
  shows "heap_linked (heap_fix n s) \<and> heap_size (heap_fix n s) = heap_size s \<and> heap_ids (heap_fix n s) = heap_ids s \<and>
    heap_only (heap_ids s) s (heap_fix n s)"
proof -
  define pos where "pos = heap_link (nodes s n)"
  have pos: "pos < heap_size s"
    using assms by (auto simp: heap_ids_def linked_to_def pos_def)
  have down: "rearranged (heap_size s) s (snd (heapify_down pos s))"
    by (rule heapify_down_rearranged [OF assms(1) pos])
  have up: "rearranged (heap_size s) s (heap_fix n s)"
    using rearranged_trans [OF down heapify_up_rearranged [OF rearranged_linked [OF down] pos]]
    by (simp add: heap_fix_def Let_def pos_def)
  show ?thesis
    using up rearranged_size [OF up] rearranged_heap_only [OF up, of "heap_ids s"] by (auto simp: rearranged_def heap_ids_def)
qed

text \<open>The order: \<open>heap_fix\<close> mends it after the size of one node has changed, and removal and insertion keep it.\<close>

definition ordered_but :: "nat \<Rightarrow> space \<Rightarrow> bool" where
  "ordered_but pos s \<longleftrightarrow> (\<forall>q. 0 < q \<and> q < heap_size s \<and> q \<noteq> pos \<and> (q - 1) div 2 \<noteq> pos \<longrightarrow> key_at s q \<le> key_at s ((q - 1) div 2)) \<and>
     (\<forall>q. 0 < q \<and> q < heap_size s \<and> (q - 1) div 2 = pos \<and> 0 < pos \<longrightarrow> key_at s q \<le> key_at s ((pos - 1) div 2))"

lemma sift_ordered_but:
  "pos < heap_size s \<Longrightarrow> ordered_but pos s \<Longrightarrow> ordered_to (heap_size s) (snd (heapify_up pos (snd (heapify_down pos s))))"
  by (rule sift_ordered) (auto simp: ordered_but_def)

lemma ordered_grandparent:
  "ordered_to n s \<Longrightarrow> 0 < q \<Longrightarrow> q < n \<Longrightarrow> (q - 1) div 2 = pos \<Longrightarrow> 0 < pos \<Longrightarrow> key_at s q \<le> key_at s ((pos - 1) div 2)"
  unfolding ordered_to_def using parent_less [of q] by (metis le_trans less_trans)

lemma heap_fix_ordered:
  assumes "heap_linked s" "n \<in> heap_ids s" "heap_ordered (s\<lparr>nodes := (nodes s)(n := (nodes s n)\<lparr>npages := k\<rparr>)\<rparr>)"
  shows "heap_ordered (heap_fix n s)"
proof -
  define pos where "pos = heap_link (nodes s n)"
  have pos: "pos < heap_size s" "heap_array s pos = n"
    using assms(1,2) by (auto simp: heap_ids_def linked_to_def pos_def)
  define s0 where "s0 = s\<lparr>nodes := (nodes s)(n := (nodes s n)\<lparr>npages := k\<rparr>)\<rparr>"
  have order: "ordered_to (heap_size s) s0"
    using assms(3) by (simp add: s0_def)
  have key: "key_at s q = key_at s0 q" if "q < heap_size s" "q \<noteq> pos" for q
    using that linked_inject [OF assms(1) that(1) pos(1)] pos(2) by (auto simp: s0_def)
  have "ordered_but pos s"
    unfolding ordered_but_def
  proof (intro conjI allI impI)
    fix q assume q: "0 < q \<and> q < heap_size s \<and> q \<noteq> pos \<and> (q - 1) div 2 \<noteq> pos"
    then have "(q - 1) div 2 < heap_size s"
      using parent_less [of q] by linarith
    then show "key_at s q \<le> key_at s ((q - 1) div 2)"
      using q order key by (simp add: ordered_to_def)
  next
    fix q assume q: "0 < q \<and> q < heap_size s \<and> (q - 1) div 2 = pos \<and> 0 < pos"
    then have "q \<noteq> pos" "(pos - 1) div 2 < pos"
      using parent_less [of q] parent_less [of pos] by auto
    then show "key_at s q \<le> key_at s ((pos - 1) div 2)"
      using ordered_grandparent [OF order, of q pos] q key [of q] key [of "(pos - 1) div 2"] pos(1) by simp
  qed
  then show ?thesis
    using sift_ordered_but [OF pos(1)] heap_fix_linked [OF assms(1,2)] by (simp add: heap_fix_def Let_def pos_def)
qed

lemma heap_insert_ordered:
  assumes "heap_linked s" "n \<notin> heap_ids s" "heap_ordered s"
  shows "heap_ordered (heap_insert n s)"
proof -
  let ?k = "heap_size s"
  define s1 where "s1 = s\<lparr>heap_array := (heap_array s)(?k := n), nodes := set_heap (nodes s) n ?k\<rparr>"
  have key: "key_at s1 q = key_at s q" if "q < ?k" for q
    using that by (simp add: s1_def)
  have "ordered_to (Suc ?k) (snd (heapify_up ?k s1))"
  proof (rule heapify_up_ordered)
    fix q assume q: "0 < q" "q < Suc ?k" "q \<noteq> ?k"
    then have "(q - 1) div 2 < ?k"
      by linarith
    then show "key_at s1 q \<le> key_at s1 ((q - 1) div 2)"
      using q assms(3) key by (simp add: ordered_to_def)
  next
    fix q assume "0 < q" "q < Suc ?k" "(q - 1) div 2 = ?k"
    then show "key_at s1 q \<le> key_at s1 ((?k - 1) div 2)"
      using parent_less [of q] by linarith
  qed simp
  moreover have "linked_to (Suc ?k) s1"
    using assms(1,2) by (auto simp: linked_to_def s1_def heap_ids_def less_Suc_eq)
  then have "heap_size (snd (heapify_up ?k s1)) = ?k"
    using rearranged_size [OF heapify_up_rearranged [of "Suc ?k" s1 ?k]] by (simp add: s1_def)
  moreover have "heap_size s1 = ?k"
    by (simp add: s1_def)
  ultimately show ?thesis
    by (simp add: heap_insert_def Let_def s1_def [symmetric] ordered_to_def)
qed

lemma heap_erase_ordered:
  assumes "heap_linked s" "n \<in> heap_ids s" "heap_ordered s"
  shows "heap_ordered (heap_erase n s)"
proof -
  let ?k = "heap_size s - 1"
  define pos l where "pos = heap_link (nodes s n)" and "l = heap_array s ?k"
  have pos: "pos < heap_size s" "heap_array s pos = n"
    using assms(1,2) by (auto simp: heap_ids_def linked_to_def pos_def)
  define s1 where "s1 = s\<lparr>heap_array := (heap_array s)(pos := l), heap_size := ?k, nodes := set_heap (set_heap (nodes s) l pos) n NIL\<rparr>"
  have size: "heap_size s1 = ?k"
    by (simp add: s1_def)
  have key: "key_at s1 q = key_at s q" if "q \<noteq> pos" for q
    using that by (simp add: s1_def)
  have step: "heap_erase n s = (if pos < ?k then snd (heapify_up pos (snd (heapify_down pos s1))) else s1)"
    by (simp add: heap_erase_def Let_def pos_def [symmetric] l_def s1_def)
  note erased = heap_erase_linked [OF assms(1,2)]
  show ?thesis
  proof (cases "pos < ?k")
    case True
    have "ordered_but pos s1"
      unfolding ordered_but_def size
    proof (intro conjI allI impI)
      fix q assume q: "0 < q \<and> q < ?k \<and> q \<noteq> pos \<and> (q - 1) div 2 \<noteq> pos"
      then have "q < heap_size s"
        by linarith
      then have "key_at s q \<le> key_at s ((q - 1) div 2)"
        using assms(3) q unfolding ordered_to_def by blast
      then show "key_at s1 q \<le> key_at s1 ((q - 1) div 2)"
        using q key by simp
    next
      fix q assume q: "0 < q \<and> q < ?k \<and> (q - 1) div 2 = pos \<and> 0 < pos"
      then have neq: "q \<noteq> pos" "(pos - 1) div 2 < pos"
        using parent_less [of q] parent_less [of pos] by auto
      have "q < heap_size s"
        using q by linarith
      then have "key_at s q \<le> key_at s ((pos - 1) div 2)"
        using ordered_grandparent [OF assms(3), of q pos] q by blast
      then show "key_at s1 q \<le> key_at s1 ((pos - 1) div 2)"
        using neq key by simp
    qed
    from sift_ordered_but [OF _ this] show ?thesis
      using True erased by (simp add: step size)
  next
    case False
    then have "pos = ?k"
      using pos(1) by linarith
    have "key_at s1 q \<le> key_at s1 ((q - 1) div 2)" if "0 < q" "q < ?k" for q
      using that assms(3) parent_less [OF that(1)] key \<open>pos = ?k\<close> by (simp add: ordered_to_def)
    then show ?thesis
      using False by (simp add: step size ordered_to_def)
  qed
qed

section \<open>What the heap operations keep\<close>

lemma heap_descend: "ordered_to n s \<Longrightarrow> p < n \<Longrightarrow> key_at s p \<le> key_at s 0"
proof (induction p rule: less_induct)
  case (less p)
  show ?case
  proof (cases "p = 0")
    case False
    then have "(p - 1) div 2 < p" "key_at s p \<le> key_at s ((p - 1) div 2)"
      using less.prems parent_less [of p] by (simp_all add: ordered_to_def)
    then show ?thesis
      using less.IH [of "(p - 1) div 2"] less.prems by linarith
  qed simp
qed

text \<open>C12.  Insertion into and removal from the heap of free regions keep the links between nodes and
  positions and the order by size, so that the first position holds a largest region; nothing else
  of the address space changes.\<close>

theorem heap_edits:
  assumes "heap_linked s" "heap_ordered s"
  shows "if n \<notin> heap_ids s
    then heap_linked (heap_insert n s) \<and> heap_ordered (heap_insert n s) \<and> heap_ids (heap_insert n s) = insert n (heap_ids s) \<and>
      heap_only (insert n (heap_ids s)) s (heap_insert n s) \<and> (\<forall>i \<in> insert n (heap_ids s). npages (nodes s i) \<le> key_at (heap_insert n s) 0)
    else heap_linked (heap_erase n s) \<and> heap_ordered (heap_erase n s) \<and> heap_ids (heap_erase n s) = heap_ids s - {n} \<and>
      heap_only (heap_ids s) s (heap_erase n s) \<and> (\<forall>i \<in> heap_ids s - {n}. npages (nodes s i) \<le> key_at (heap_erase n s) 0)"
proof -
  have top: "\<forall>i \<in> heap_ids s'. npages (nodes s i) \<le> key_at s' 0" if "heap_ordered s'" "heap_only S s s'" for s' S
  proof
    fix i assume "i \<in> heap_ids s'"
    then have "npages (nodes s' i) \<le> key_at s' 0"
      using heap_descend [OF that(1)] by (auto simp: heap_ids_def)
    moreover have "npages (nodes s' i) = npages (nodes s i)"
      by (rule heap_only_payload(2) [OF that(2)])
    ultimately show "npages (nodes s i) \<le> key_at s' 0" by simp
  qed
  show ?thesis
  proof (cases "n \<in> heap_ids s")
    case True
    note erased = heap_erase_linked [OF assms(1) True] heap_erase_ordered [OF assms(1) True assms(2)]
    have "heap_linked (heap_erase n s) \<and> heap_ids (heap_erase n s) = heap_ids s - {n} \<and> heap_only (heap_ids s) s (heap_erase n s) \<and>
      heap_ordered (heap_erase n s)"
      using erased by blast
    moreover have "\<forall>i \<in> heap_ids (heap_erase n s). npages (nodes s i) \<le> key_at (heap_erase n s) 0"
      by (rule top) (use erased in blast)+
    ultimately show ?thesis
      using True by (simp only: simp_thms if_True if_False)
  next
    case False
    note inserted = heap_insert_linked [OF assms(1) False] heap_insert_ordered [OF assms(1) False assms(2)]
    have "heap_linked (heap_insert n s) \<and> heap_ids (heap_insert n s) = insert n (heap_ids s) \<and>
      heap_only (insert n (heap_ids s)) s (heap_insert n s) \<and> heap_ordered (heap_insert n s)"
      using inserted by blast
    moreover have "\<forall>i \<in> heap_ids (heap_insert n s). npages (nodes s i) \<le> key_at (heap_insert n s) 0"
      by (rule top) (use inserted in blast)+
    ultimately show ?thesis
      using False by (simp only: simp_thms if_True if_False)
  qed
qed

definition sample_space :: space where
  "sample_space = \<lparr>nodes = (\<lambda>i. \<lparr>offset = 100 * i, npages = 50 - 10 * i, left_child = NIL, right_child = NIL, heap_link = i\<rparr>),
     heap_array = (\<lambda>p. p), heap_size = 3, treap_root = NIL, next_node = 5, free_list = NIL, batch_list = [], batch_pages = 0,
     batch_min = NIL, batch_max = NIL, total = 0, occupied = 0, slabs = (\<lambda>_. NIL), slab_ids = (\<lambda>_. NIL),
     slab_free = (\<lambda>_ _. 0), remote_slab = [], remote_page = [], decommits = []\<rparr>"

lemma heap_edits_witness:
  "heap_linked sample_space \<and> heap_ordered sample_space \<and> 4 \<notin> heap_ids sample_space \<and>
   heap_ids (heap_insert 4 sample_space) = {0, 1, 2, 4} \<and> heap_ordered (heap_insert 4 sample_space)"
proof -
  have linked: "heap_linked sample_space" "4 \<notin> heap_ids sample_space" and ids: "heap_ids sample_space = {0, 1, 2}"
    by (auto simp: sample_space_def linked_to_def heap_ids_def)
  have "q = 1 \<or> q = 2" if "0 < q" "q < 3" for q :: nat
    using that by linarith
  then have ordered: "heap_ordered sample_space"
    by (auto simp: sample_space_def ordered_to_def)
  show ?thesis
    using heap_edits [OF linked(1) ordered, of 4] linked ordered by (auto simp: ids)
qed

end
