(* ===== verification/AllocSort.thy ===== *)
theory AllocSort
  imports AllocNodes "HOL-Library.Multiset"
begin

text \<open>
  The sort of the batch of freed regions by offset: insertion sort for short batches, and for the others
  a radix sort by bytes whose scatter counts the digits of the next pass.  Both are stable sorts.
  A count never exceeds the length of the batch, a number of 32 bits, so that no count wraps.
\<close>

section \<open>Insertion sort\<close>

text \<open>The inner loop moves greater elements one position up; it returns the free position.\<close>

fun shift_loop :: "(nat \<Rightarrow> node) \<Rightarrow> nat \<Rightarrow> nat \<Rightarrow> nat list \<Rightarrow> nat \<times> nat list" where
  "shift_loop ns tmp 0 xs = (0, xs)"
| "shift_loop ns tmp (Suc j) xs = (
     if offset (ns tmp) < offset (ns (xs ! j)) then shift_loop ns tmp j (xs[Suc j := xs ! j]) else (Suc j, xs))"

definition insertion_step :: "(nat \<Rightarrow> node) \<Rightarrow> nat \<Rightarrow> nat list \<Rightarrow> nat list" where
  "insertion_step ns i xs = (
     if offset (ns (xs ! i)) < offset (ns (xs ! (i - 1)))
     then let tmp = xs ! i; (j, xs) = shift_loop ns tmp (i - 1) (xs[i := xs ! (i - 1)]) in xs[j := tmp]
     else xs)"

definition insertion_sort :: "(nat \<Rightarrow> node) \<Rightarrow> nat list \<Rightarrow> nat list" where
  "insertion_sort ns xs = fold (insertion_step ns) [1..<length xs] xs"

section \<open>Radix sort\<close>

abbreviation digit :: "(nat \<Rightarrow> node) \<Rightarrow> nat \<Rightarrow> nat \<Rightarrow> nat" where
  "digit ns shift i \<equiv> offset (ns i) div 2 ^ shift mod 256"

definition bump :: "nat \<Rightarrow> nat list \<Rightarrow> nat list" where
  "bump d counts = counts[d := counts ! d + 1]"

text \<open>The first count, the prefix starts, and a pass that scatters by one digit while it counts the next.\<close>

definition count_digits :: "(nat \<Rightarrow> node) \<Rightarrow> nat list \<Rightarrow> nat list" where
  "count_digits ns xs = fold (\<lambda>i. bump (digit ns 0 i)) xs (replicate 256 0)"

definition prefix_sums :: "nat list \<Rightarrow> nat list" where
  "prefix_sums counts = snd (fold (\<lambda>i (prefix, starts). (prefix + counts ! i, starts @ [prefix])) [0..<256] (0, []))"

definition scatter_step :: "(nat \<Rightarrow> node) \<Rightarrow> nat \<Rightarrow> nat \<Rightarrow> nat list \<times> nat list \<times> nat list \<Rightarrow> nat list \<times> nat list \<times> nat list" where
  "scatter_step ns shift i p = (case p of (dest, starts, counts) \<Rightarrow>
     let d = digit ns shift i in (dest[starts ! d := i], bump d starts, bump (digit ns (shift + 8) i) counts))"

definition radix_pass :: "(nat \<Rightarrow> node) \<Rightarrow> nat \<Rightarrow> nat list \<times> nat list \<times> nat list \<Rightarrow> nat list \<times> nat list \<times> nat list" where
  "radix_pass ns shift p = (case p of (src, dest, starts) \<Rightarrow>
     let (dest, _, counts) = fold (scatter_step ns shift) src (dest, starts, replicate 256 0)
     in (dest, src, prefix_sums counts))"

definition last_step :: "(nat \<Rightarrow> node) \<Rightarrow> nat \<Rightarrow> nat list \<times> nat list \<Rightarrow> nat list \<times> nat list" where
  "last_step ns i p = (case p of (dest, starts) \<Rightarrow> let d = digit ns 24 i in (dest[starts ! d := i], bump d starts))"

text \<open>The batch and the scratch array of the sort swap roles in each pass.\<close>

definition radix_sort :: "nat \<Rightarrow> (nat \<Rightarrow> node) \<Rightarrow> nat list \<Rightarrow> nat list \<Rightarrow> nat list" where
  "radix_sort threshold ns scratch xs = (
     if length xs < 2 then xs
     else if length xs \<le> threshold then insertion_sort ns xs
     else let (src, dest, starts) = fold (radix_pass ns) [0, 8, 16] (xs, scratch, prefix_sums (count_digits ns xs))
       in fst (fold (last_step ns) src (dest, starts)))"

section \<open>Insertion sort is a stable sort\<close>

fun insert_after :: "('a \<Rightarrow> nat) \<Rightarrow> 'a \<Rightarrow> 'a list \<Rightarrow> 'a list" where
  "insert_after f x [] = [x]"
| "insert_after f x (y # ys) = (if f x < f y then x # y # ys else y # insert_after f x ys)"

lemma insert_after_mset: "mset (insert_after f x ys) = add_mset x (mset ys)"
  by (induction ys) auto

lemma insert_after_set [simp]: "set (insert_after f x ys) = insert x (set ys)"
  by (induction ys) auto

lemma insert_after_sorted: "sorted (map f ys) \<Longrightarrow> sorted (map f (insert_after f x ys))"
  by (induction ys) auto

lemma insert_after_filter:
  "sorted (map f ys) \<Longrightarrow> filter (\<lambda>z. f z = k) (insert_after f x ys) = filter (\<lambda>z. f z = k) ys @ filter (\<lambda>z. f z = k) [x]"
proof (induction ys)
  case (Cons y ys)
  have "filter (\<lambda>z. f z = f x) ys = []" if "f x < f y"
    using that Cons.prems by (auto simp: filter_empty_conv)
  then show ?case
    using Cons by auto
qed simp

lemma sort_key_snoc: "sort_key f (xs @ [x]) = insert_after f x (sort_key f xs)" for f :: "'a \<Rightarrow> nat"
proof (rule properties_for_sort_key)
  show "mset (insert_after f x (sort_key f xs)) = mset (xs @ [x])"
    by (simp add: insert_after_mset)
  show "sorted (map f (insert_after f x (sort_key f xs)))"
    by (simp add: insert_after_sorted)
  show "filter (\<lambda>y. f k = f y) (insert_after f x (sort_key f xs)) = filter (\<lambda>y. f k = f y) (xs @ [x])" for k
    using insert_after_filter [of f "sort_key f xs" "f k" x] sort_key_stable [of f "f k" xs]
    by (simp add: eq_commute [of "f k"])
qed

lemma insert_after_snoc:
  "sorted (map f (ys @ [y])) \<Longrightarrow> insert_after f x (ys @ [y]) = (if f x < f y then insert_after f x ys @ [y] else ys @ [y, x])"
  by (induction ys) (auto simp: sorted_append)

lemma shift_loop_spec:
  "sorted (map (\<lambda>i. offset (ns i)) P) \<Longrightarrow> shift_loop ns tmp (length P) (P @ h # rest) = (j, xs) \<Longrightarrow>
    xs[j := tmp] = insert_after (\<lambda>i. offset (ns i)) tmp P @ rest"
proof (induction P arbitrary: h rest j xs rule: rev_induct)
  case (snoc y P)
  show ?case
  proof (cases "offset (ns tmp) < offset (ns y)")
    case True
    then have "shift_loop ns tmp (length P) (P @ y # (y # rest)) = (j, xs)"
      using snoc.prems(2) by (simp add: nth_append list_update_append)
    then have "xs[j := tmp] = insert_after (\<lambda>i. offset (ns i)) tmp P @ y # rest"
      using snoc.prems(1) by (intro snoc.IH) (simp add: sorted_append)
    then show ?thesis
      using True snoc.prems(1) by (simp add: insert_after_snoc)
  next
    case False
    then have "j = Suc (length P)" "xs = (P @ [y]) @ h # rest"
      using snoc.prems(2) by (auto simp: nth_append)
    then show ?thesis
      using False snoc.prems(1) by (simp add: insert_after_snoc list_update_append)
  qed
qed simp

lemma insertion_step_spec:
  assumes "0 < i" "i < length xs" "take i xs = sort_key (\<lambda>i. offset (ns i)) ys"
  shows "insertion_step ns i xs = sort_key (\<lambda>i. offset (ns i)) (ys @ [xs ! i]) @ drop (Suc i) xs"
proof -
  let ?f = "\<lambda>i. offset (ns i)"
  obtain P y where P: "take i xs = P @ [y]"
    using assms(1,2) by (cases "take i xs" rule: rev_cases) auto
  have len: "i = Suc (length P)"
    using arg_cong [OF P, of length] assms(2) by simp
  have xs: "xs = P @ y # xs ! i # drop (Suc i) xs"
    using id_take_nth_drop [OF assms(2)] P by simp
  have "sorted (map ?f (sort_key ?f ys))"
    by simp
  then have sorted: "sorted (map ?f (P @ [y]))"
    by (simp only: assms(3) [symmetric] P)
  have target: "sort_key ?f (ys @ [xs ! i]) = insert_after ?f (xs ! i) (P @ [y])"
    by (simp only: sort_key_snoc assms(3) [symmetric] P)
  have y: "xs ! (i - 1) = y"
    using arg_cong [OF xs, of "\<lambda>l. l ! (i - 1)"] len by (simp add: nth_append)
  show ?thesis
  proof (cases "offset (ns (xs ! i)) < offset (ns y)")
    case True
    obtain j zs where loop: "shift_loop ns (xs ! i) (length P) (P @ y # (y # drop (Suc i) xs)) = (j, zs)"
      by force
    have "xs[i := y] = P @ y # y # drop (Suc i) xs"
      by (subst xs) (simp add: len list_update_append)
    then have "insertion_step ns i xs = zs[j := xs ! i]"
      using True y loop len by (simp add: insertion_step_def Let_def)
    also have "\<dots> = insert_after ?f (xs ! i) P @ y # drop (Suc i) xs"
      using sorted by (intro shift_loop_spec [OF _ loop]) (simp add: sorted_append)
    finally show ?thesis
      using True sorted by (simp add: target insert_after_snoc)
  next
    case False
    then show ?thesis
      using sorted y xs by (simp add: insertion_step_def target insert_after_snoc)
  qed
qed

lemma insertion_sort_eq: "insertion_sort ns xs = sort_key (\<lambda>i. offset (ns i)) xs"
proof (cases xs)
  case (Cons x zs)
  let ?f = "\<lambda>i. offset (ns i)"
  have "fold (insertion_step ns) [1..<Suc n] xs = sort_key ?f (take (Suc n) xs) @ drop (Suc n) xs" if "n < length xs" for n
    using that
  proof (induction n)
    case 0
    then show ?case by (simp add: Cons)
  next
    case (Suc n)
    define ys where "ys = fold (insertion_step ns) [1..<Suc n] xs"
    have ys: "ys = sort_key ?f (take (Suc n) xs) @ drop (Suc n) xs"
      unfolding ys_def using Suc by simp
    have "fold (insertion_step ns) [1..<Suc (Suc n)] xs = insertion_step ns (Suc n) ys"
      by (simp add: ys_def)
    also have "\<dots> = sort_key ?f (take (Suc n) xs @ [ys ! Suc n]) @ drop (Suc (Suc n)) ys"
      by (rule insertion_step_spec) (use Suc.prems in \<open>auto simp: ys\<close>)
    finally have step: "fold (insertion_step ns) [1..<Suc (Suc n)] xs = sort_key ?f (take (Suc n) xs @ [ys ! Suc n]) @ drop (Suc (Suc n)) ys" .
    have "ys ! Suc n = xs ! Suc n" "drop (Suc (Suc n)) ys = drop (Suc (Suc n)) xs"
      using Suc.prems by (auto simp: ys nth_append)
    with step show ?case
      using Suc.prems by (simp add: take_Suc_conv_app_nth [of "Suc n" xs])
  qed
  from this [of "length xs - 1"] show ?thesis
    by (simp add: insertion_sort_def Cons)
qed (simp add: insertion_sort_def)

section \<open>A pass of the radix sort is a stable sort by its digit\<close>

definition digit_count :: "('a \<Rightarrow> nat) \<Rightarrow> 'a list \<Rightarrow> nat \<Rightarrow> nat" where
  "digit_count f xs d = length (filter (\<lambda>x. f x = d) xs)"

definition starts_of :: "('a \<Rightarrow> nat) \<Rightarrow> 'a list \<Rightarrow> nat list" where
  "starts_of f xs = map (\<lambda>d. \<Sum>e < d. digit_count f xs e) [0..<256]"

lemma digit_count_simps [simp]:
  "digit_count f [] d = 0"
  "digit_count f (xs @ [x]) d = digit_count f xs d + (if f x = d then 1 else 0)"
  by (simp_all add: digit_count_def)

lemma bump_map: "d < n \<Longrightarrow> bump d (map g [0..<n]) = map (\<lambda>e. g e + (if e = d then 1 else 0)) [0..<n]"
  by (rule nth_equalityI) (auto simp: bump_def nth_list_update)

lemma count_fold:
  "(\<And>x. f x < 256) \<Longrightarrow> fold (\<lambda>x. bump (f x)) xs (replicate 256 0) = map (digit_count f xs) [0..<256]"
proof (induction xs rule: rev_induct)
  case Nil
  then show ?case
    by (simp add: map_replicate_const comp_def)
next
  case (snoc x xs)
  then show ?case
    by (simp add: bump_map eq_commute [of "f x"])
qed

lemma prefix_sums_map: "prefix_sums (map g [0..<256]) = map (\<lambda>d. \<Sum>e < d. g e) [0..<256]"
proof -
  have "fold (\<lambda>i (prefix, starts). (prefix + map g [0..<256] ! i, starts @ [prefix])) [0..<n] (0, []) =
      (\<Sum>e < n. g e, map (\<lambda>d. \<Sum>e < d. g e) [0..<n])" if "n \<le> 256" for n
    using that by (induction n) (simp_all del: upt_Suc add: upt_Suc_append)
  from this [of 256] show ?thesis
    by (simp only: prefix_sums_def order_refl snd_conv)
qed

text \<open>The scatter alone: the elements go to their bins in order.\<close>

definition place :: "('a \<Rightarrow> nat) \<Rightarrow> 'a \<Rightarrow> 'a list \<times> nat list \<Rightarrow> 'a list \<times> nat list" where
  "place f x p = (case p of (dest, starts) \<Rightarrow> (dest[starts ! f x := x], bump (f x) starts))"

lemma digit_count_total: "(\<And>x. f x < 256) \<Longrightarrow> (\<Sum>d < 256. digit_count f xs d) = length xs"
proof (induction xs rule: rev_induct)
  case (snoc x xs)
  then show ?case
    by (simp add: sum.distrib)
qed simp

lemma digit_count_mono: "digit_count f (take k xs) d \<le> digit_count f xs d"
proof -
  have "digit_count f xs d = digit_count f (take k xs) d + digit_count f (drop k xs) d"
    by (simp only: digit_count_def length_append [symmetric] filter_append [symmetric] append_take_drop_id)
  then show ?thesis by simp
qed

definition bin_start :: "('a \<Rightarrow> nat) \<Rightarrow> 'a list \<Rightarrow> nat \<Rightarrow> nat" where
  "bin_start f xs d = (\<Sum>e < d. digit_count f xs e)"

lemma bin_start_Suc: "bin_start f xs (Suc d) = bin_start f xs d + digit_count f xs d"
  by (simp add: bin_start_def)

lemma bin_start_mono: "d \<le> e \<Longrightarrow> bin_start f xs d \<le> bin_start f xs e"
  unfolding bin_start_def by (rule sum_mono2) auto

lemma place_spec:
  assumes "\<And>x. f x < 256" "length dest = length xs"
    "k \<le> length xs" "fold (place f) (take k xs) (dest, starts_of f xs) = (dest', starts')"
  shows "length dest' = length xs \<and> starts' = map (\<lambda>d. bin_start f xs d + digit_count f (take k xs) d) [0..<256] \<and>
    (\<forall>d < 256. \<forall>i < digit_count f (take k xs) d. dest' ! (bin_start f xs d + i) = filter (\<lambda>x. f x = d) (take k xs) ! i)"
  using assms(3,4)
proof (induction k arbitrary: dest' starts')
  case 0
  then show ?case
    using assms(2) by (simp add: starts_of_def bin_start_def [abs_def])
next
  case (Suc k)
  define x where "x = xs ! k"
  obtain D S where DS: "fold (place f) (take k xs) (dest, starts_of f xs) = (D, S)"
    by force
  have k: "k < length xs"
    using Suc.prems(1) by simp
  have tk: "take (Suc k) xs = take k xs @ [x]"
    using k by (simp add: x_def take_Suc_conv_app_nth)
  have IH: "length D = length xs" "S = map (\<lambda>d. bin_start f xs d + digit_count f (take k xs) d) [0..<256]"
    "\<And>d i. d < 256 \<Longrightarrow> i < digit_count f (take k xs) d \<Longrightarrow> D ! (bin_start f xs d + i) = filter (\<lambda>x. f x = d) (take k xs) ! i"
    using Suc.IH [OF _ DS] k by auto
  have S: "S ! f x = bin_start f xs (f x) + digit_count f (take k xs) (f x)"
    using assms(1) by (simp add: IH(2))
  have "place f x (D, S) = (dest', starts')"
    using Suc.prems(2) by (simp add: tk DS)
  then have res: "dest' = D[S ! f x := x]" "starts' = bump (f x) S"
    by (simp_all add: place_def)
  have starts: "starts' = map (\<lambda>d. bin_start f xs d + digit_count f (take (Suc k) xs) d) [0..<256]"
    using assms(1) by (simp add: res(2) IH(2) bump_map tk eq_commute [of "f x"])
  have room: "digit_count f (take k xs) (f x) < digit_count f xs (f x)"
    using digit_count_mono [of f "Suc k" xs "f x"] by (simp add: tk)
  have "S ! f x < bin_start f xs (Suc (f x))"
    using room by (simp add: S bin_start_Suc)
  also have "\<dots> \<le> bin_start f xs 256"
    using assms(1) [of x] by (intro bin_start_mono) simp
  also have "\<dots> = length xs"
    using digit_count_total [of f xs] assms(1) by (simp add: bin_start_def)
  finally have inside: "S ! f x < length D"
    by (simp add: IH(1))
  have "dest' ! (bin_start f xs d + i) = filter (\<lambda>x. f x = d) (take (Suc k) xs) ! i"
    if di: "d < 256" "i < digit_count f (take (Suc k) xs) d" for d i
  proof (cases "d = f x \<and> i = digit_count f (take k xs) d")
    case True
    then show ?thesis
      using inside S by (simp add: res(1) tk nth_append digit_count_def)
  next
    case False
    then have i: "i < digit_count f (take k xs) d"
      using di(2) by (auto simp: tk split: if_splits)
    have "bin_start f xs d + i \<noteq> S ! f x"
    proof (cases "d = f x")
      case True
      then show ?thesis
        using i by (simp add: S)
    next
      case False
      have lt: "i < digit_count f xs d"
        using i digit_count_mono [of f k xs d] by linarith
      show ?thesis
      proof (cases "d < f x")
        case True
        then show ?thesis
          using lt bin_start_mono [of "Suc d" "f x" f xs] by (simp add: S bin_start_Suc)
      next
        case above: False
        then show ?thesis
          using False room bin_start_mono [of "Suc (f x)" d f xs] by (simp add: S bin_start_Suc)
      qed
    qed
    then show ?thesis
      using IH(3) [OF di(1) i] i by (simp add: res(1) tk nth_append digit_count_def)
  qed
  then show ?case
    using IH(1) starts res(1) by simp
qed

lemma concat_slices:
  "mono g \<Longrightarrow> g 0 = 0 \<Longrightarrow> concat (map (\<lambda>d. map h [g d..<g (Suc d)]) [0..<n]) = map h [0..<g n]" for g :: "nat \<Rightarrow> nat"
proof (induction n)
  case (Suc n)
  then have "[0..<g (Suc n)] = [0..<g n] @ [g n..<g (Suc n)]"
    using upt_add_eq_append [of 0 "g n" "g (Suc n) - g n"] monoD [OF Suc.prems(1), of n "Suc n"] by simp
  then show ?case
    using Suc by simp
qed simp

lemma bins_sort_key:
  assumes "\<And>x. f x < n"
  shows "concat (map (\<lambda>d. filter (\<lambda>x. f x = d) xs) [0..<n]) = sort_key f xs"
proof (rule properties_for_sort_key [symmetric])
  let ?ys = "\<lambda>n. concat (map (\<lambda>d. filter (\<lambda>x. f x = d) xs) [0..<n])"
  have pick: "filter (\<lambda>x. f x = k) (?ys n) = (if k < n then filter (\<lambda>x. f x = k) xs else [])" for k n
    by (induction n) (auto simp: filter_empty_conv less_Suc_eq intro!: filter_cong)
  show "filter (\<lambda>y. f k = f y) (?ys n) = filter (\<lambda>y. f k = f y) xs" for k
    using pick [of "f k" n] assms by (simp add: eq_commute [of "f k"])
  have "mset (?ys m) = filter_mset (\<lambda>x. f x < m) (mset xs)" for m
  proof (induction m)
    case (Suc m)
    have "filter_mset (\<lambda>x. f x < Suc m) (mset xs) = filter_mset (\<lambda>x. f x < m) (mset xs) + filter_mset (\<lambda>x. f x = m) (mset xs)"
      by (rule multiset_eqI) (auto simp: less_Suc_eq)
    then show ?case
      using Suc by simp
  qed simp
  then show "mset (?ys n) = mset xs"
    using assms by (simp add: filter_mset_True)
  show "sorted (map f (?ys n))"
    by (induction n) (auto simp: sorted_append sorted_wrt_map intro: sorted_wrt_mono_rel [OF _ sorted_wrt_true])
qed


lemma place_sorts:
  assumes "\<And>x. f x < 256" "length dest = length xs"
  shows "fst (fold (place f) xs (dest, starts_of f xs)) = sort_key f xs"
proof -
  obtain D S where DS: "fold (place f) xs (dest, starts_of f xs) = (D, S)"
    by force
  note spec = place_spec [of f dest xs "length xs" D S, simplified, OF assms DS]
  have slice: "map ((!) D) [bin_start f xs d..<bin_start f xs (Suc d)] = filter (\<lambda>x. f x = d) xs" if "d < 256" for d
    using spec that by (intro nth_equalityI) (auto simp: bin_start_Suc digit_count_def)
  have "mono (bin_start f xs)"
    by (intro monoI bin_start_mono)
  then have "concat (map (\<lambda>d. map ((!) D) [bin_start f xs d..<bin_start f xs (Suc d)]) [0..<256]) = map ((!) D) [0..<bin_start f xs 256]"
    by (rule concat_slices) (simp add: bin_start_def)
  also have "map ((!) D) [0..<bin_start f xs 256] = D"
    using digit_count_total [of f xs] assms(1) spec by (simp add: bin_start_def) (metis map_nth)
  also have "map (\<lambda>d. map ((!) D) [bin_start f xs d..<bin_start f xs (Suc d)]) [0..<256] = map (\<lambda>d. filter (\<lambda>x. f x = d) xs) [0..<256]"
    using slice by (intro map_cong) auto
  finally show ?thesis
    using bins_sort_key [of f 256 xs] assms(1) by (simp add: DS)
qed

lemma starts_of_sort_key [simp]: "starts_of f (sort_key g xs) = starts_of f xs"
proof -
  have "digit_count f (sort_key g xs) = digit_count f xs"
    by (rule ext) (simp add: digit_count_def size_mset [symmetric] del: size_mset)
  then show ?thesis
    by (simp add: starts_of_def)
qed

lemma scatter_fold:
  "fold (scatter_step ns shift) xs (dest, starts, counts) =
    (fst (fold (place (digit ns shift)) xs (dest, starts)), snd (fold (place (digit ns shift)) xs (dest, starts)),
     fold (\<lambda>i. bump (digit ns (shift + 8) i)) xs counts)"
  by (induction xs arbitrary: dest starts counts) (simp_all add: scatter_step_def place_def Let_def split: prod.splits)

lemma prefix_sums_count:
  "prefix_sums (fold (\<lambda>i. bump (digit ns shift i)) xs (replicate 256 0)) = starts_of (digit ns shift) xs"
  using count_fold [of "digit ns shift" xs] by (simp add: prefix_sums_map starts_of_def)

lemma radix_pass_spec:
  assumes "length dest = length xs"
  shows "radix_pass ns shift (xs, dest, starts_of (digit ns shift) xs) =
    (sort_key (digit ns shift) xs, xs, starts_of (digit ns (shift + 8)) (sort_key (digit ns shift) xs))"
  using place_sorts [of "digit ns shift" dest xs] assms
  by (simp add: radix_pass_def scatter_fold prefix_sums_count del: starts_of_sort_key) simp

lemma last_step_place: "last_step ns = place (digit ns 24)"
  by (intro ext) (simp add: last_step_def place_def Let_def split: prod.splits)

section \<open>The passes together\<close>

lemma sorted_lex:
  "sorted (map g ys) \<Longrightarrow> (\<And>c. sorted (map h (filter (\<lambda>x. g x = c) ys))) \<Longrightarrow>
    sorted_wrt (\<lambda>x y. g x < g y \<or> g x = g y \<and> h x \<le> h y) ys" for g h :: "'a \<Rightarrow> nat"
proof (induction ys)
  case (Cons y ys)
  have "sorted (map h (filter (\<lambda>x. g x = c) ys))" for c
    using Cons.prems(2) [of c] by (auto split: if_splits)
  moreover have "g y < g z \<or> g y = g z \<and> h y \<le> h z" if "z \<in> set ys" for z
    using Cons.prems(1) Cons.prems(2) [of "g y"] that by auto
  ultimately show ?case
    using Cons by simp
qed simp

lemma sort_key_digits:
  fixes f :: "'a \<Rightarrow> nat"
  assumes "0 < m" "0 < k"
  shows "sort_key (\<lambda>x. f x div m mod k) (sort_key (\<lambda>x. f x mod m) xs) = sort_key (\<lambda>x. f x mod (m * k)) xs"
proof (rule properties_for_sort_key [symmetric])
  define g h where "g = (\<lambda>x. f x div m mod k)" and "h = (\<lambda>x. f x mod m)"
  have F: "f x mod (m * k) = m * g x + h x" and h: "h x < m" for x
    using assms by (simp_all add: g_def h_def mod_mult2_eq)
  have F_eq: "f x mod (m * k) = f y mod (m * k) \<longleftrightarrow> g x = g y \<and> h x = h y" for x y
  proof
    assume "f x mod (m * k) = f y mod (m * k)"
    then have eq: "m * g x + h x = m * g y + h y"
      by (simp add: F)
    from arg_cong [OF eq, of "\<lambda>n. n div m"] arg_cong [OF eq, of "\<lambda>n. n mod m"] show "g x = g y \<and> h x = h y"
      using h assms by simp
  qed (simp add: F)
  let ?ys = "sort_key g (sort_key h xs)"
  show "mset (sort_key (\<lambda>x. f x div m mod k) (sort_key (\<lambda>x. f x mod m) xs)) = mset xs"
    by simp
  have pick: "filter P (filter (\<lambda>x. g x = c) ?ys) = filter P (filter (\<lambda>x. g x = c) (sort_key h xs))" for P c
    by (simp only: sort_key_stable)
  have "filter (\<lambda>y. f z mod (m * k) = f y mod (m * k)) ?ys = filter (\<lambda>y. f z mod (m * k) = f y mod (m * k)) xs" for z
  proof -
    have "filter (\<lambda>y. h y = h z) (filter (\<lambda>y. g y = g z) ?ys) = filter (\<lambda>y. g y = g z) (filter (\<lambda>y. h y = h z) (sort_key h xs))"
      unfolding pick by (simp only: filter_filter conj_commute)
    also have "\<dots> = filter (\<lambda>y. g y = g z) (filter (\<lambda>y. h y = h z) xs)"
      by (simp only: sort_key_stable)
    finally show ?thesis
      by (simp only: filter_filter F_eq conj_commute eq_commute [of "h z"] eq_commute [of "g z"])
  qed
  then show "filter (\<lambda>y. f z mod (m * k) = f y mod (m * k)) (sort_key (\<lambda>x. f x div m mod k) (sort_key (\<lambda>x. f x mod m) xs)) =
      filter (\<lambda>y. f z mod (m * k) = f y mod (m * k)) xs" for z
    by (simp add: g_def h_def)
  have "sorted (map h (filter (\<lambda>x. g x = c) ?ys))" for c
    by (simp only: sort_key_stable) (rule sorted_filter, simp)
  then have "sorted_wrt (\<lambda>x y. g x < g y \<or> g x = g y \<and> h x \<le> h y) ?ys"
    by (intro sorted_lex) simp_all
  moreover have "f x mod (m * k) \<le> f y mod (m * k)" if "g x < g y \<or> g x = g y \<and> h x \<le> h y" for x y
  proof (cases "g x < g y")
    case True
    then have "m * Suc (g x) \<le> m * g y"
      by (intro mult_le_mono2) simp
    then show ?thesis
      using h [of x] by (simp add: F)
  qed (use that in \<open>simp add: F\<close>)
  ultimately show "sorted (map (\<lambda>x. f x mod (m * k)) (sort_key (\<lambda>x. f x div m mod k) (sort_key (\<lambda>x. f x mod m) xs)))"
    unfolding sorted_wrt_map g_def [symmetric] h_def [symmetric] by (rule sorted_wrt_mono_rel [rotated])
qed

lemma sort_key_cong_on:
  fixes f g :: "'a \<Rightarrow> nat"
  assumes "\<And>x. x \<in> set xs \<Longrightarrow> f x = g x"
  shows "sort_key f xs = sort_key g xs"
  using assms
proof (induction xs rule: rev_induct)
  case (snoc x xs)
  have "insert_after f x ys = insert_after g x ys" if "set ys \<subseteq> set xs" for ys
    using that snoc.prems by (induction ys) auto
  then show ?case
    using snoc by (simp add: sort_key_snoc)
qed simp

lemma radix_sort_correct:
  assumes "length scratch = length xs" "\<forall>i \<in> set xs. offset (ns i) < 2 ^ 32"
  shows "radix_sort threshold ns scratch xs = sort_key (\<lambda>i. offset (ns i)) xs"
proof -
  let ?f = "\<lambda>i. offset (ns i)"
  consider (tiny) "length xs < 2" | (short) "2 \<le> length xs" "length xs \<le> threshold" | (long) "2 \<le> length xs" "threshold < length xs"
    by linarith
  then show ?thesis
  proof cases
    case tiny
    then have "xs = [] \<or> (\<exists>x. xs = [x])"
      by (cases xs rule: remdups_adj.cases) auto
    then show ?thesis
      by (auto simp: radix_sort_def)
  next
    case short
    then show ?thesis
      by (simp add: radix_sort_def insertion_sort_eq)
  next
    case long
    define y0 where "y0 = sort_key (digit ns 0) xs"
    define y1 where "y1 = sort_key (digit ns 8) y0"
    define y2 where "y2 = sort_key (digit ns 16) y1"
    have first: "prefix_sums (count_digits ns xs) = starts_of (digit ns 0) xs"
      by (simp only: count_digits_def prefix_sums_count)
    have len: "length y0 = length xs" "length y1 = length xs"
      by (simp_all add: y0_def y1_def)
    have p0: "radix_pass ns 0 (xs, scratch, starts_of (digit ns 0) xs) = (y0, xs, starts_of (digit ns 8) y0)"
      using radix_pass_spec [of scratch xs ns 0] assms(1) unfolding y0_def by (simp only: add_0)
    have p1: "radix_pass ns 8 (y0, xs, starts_of (digit ns 8) y0) = (y1, y0, starts_of (digit ns 16) y1)"
      using radix_pass_spec [of xs y0 ns 8] len unfolding y1_def by (simp only: add_num_simps numeral_plus_numeral semiring_norm)
    have p2: "radix_pass ns 16 (y1, y0, starts_of (digit ns 16) y1) = (y2, y1, starts_of (digit ns 24) y2)"
      using radix_pass_spec [of y0 y1 ns 16] len unfolding y2_def by (simp only: numeral_plus_numeral semiring_norm)
    have "fold (radix_pass ns) [0, 8, 16] (xs, scratch, prefix_sums (count_digits ns xs)) = (y2, y1, starts_of (digit ns 24) y2)"
      by (simp only: fold_simps comp_apply first p0 p1 p2 id_apply)
    then have "radix_sort threshold ns scratch xs = fst (fold (last_step ns) y2 (y1, starts_of (digit ns 24) y2))"
      using long by (simp add: radix_sort_def)
    also have "\<dots> = sort_key (digit ns 24) y2"
      unfolding last_step_place by (rule place_sorts) (simp_all add: y2_def len)
    also have "\<dots> = sort_key (\<lambda>i. ?f i mod 2 ^ 32) xs"
    proof -
      have "y0 = sort_key (\<lambda>i. ?f i mod 2 ^ 8) xs"
        by (simp add: y0_def)
      then have "y1 = sort_key (\<lambda>i. ?f i mod 2 ^ 16) xs"
        using sort_key_digits [of "2 ^ 8" 256 ?f xs] by (simp add: y1_def)
      then have "y2 = sort_key (\<lambda>i. ?f i mod 2 ^ 24) xs"
        using sort_key_digits [of "2 ^ 16" 256 ?f xs] by (simp add: y2_def)
      then show ?thesis
        using sort_key_digits [of "2 ^ 24" 256 ?f xs] by simp
    qed
    also have "\<dots> = sort_key ?f xs"
      using assms(2) by (intro sort_key_cong_on) simp
    finally show ?thesis .
  qed
qed

text \<open>C13.  The sort of the batch returns the stable sort by offset, for every threshold between the two
  algorithms and whatever the scratch array held.\<close>

theorem batch_sort:
  assumes "length scratch = length xs" "\<forall>i \<in> set xs. offset (ns i) < 2 ^ 32"
  shows "radix_sort threshold ns scratch xs = sort_key (\<lambda>i. offset (ns i)) xs"
  by (rule radix_sort_correct [OF assms])

lemma batch_sort_witness:
  "radix_sort 1 (\<lambda>i. \<lparr>offset = (700 - 300 * i) * 2 ^ 20, npages = 1, left_child = NIL, right_child = NIL, heap_link = NIL\<rparr>)
    [0, 0, 0] [0, 1, 2] = [2, 1, 0]"
  by (subst batch_sort) simp_all

end
