(* ===== verification/AllocStore.thy ===== *)
theory AllocStore
  imports AllocTreap AllocHeap AllocSort
begin

text \<open>
  The store of an address space: its nodes with their free list, and the invariant that ties treap, heap,
  free list and batch to disjoint regions of pages.  The lemmas say what each step of the page
  allocator does to that invariant.  The model follows the build for Unix without debug assertions,
  where node storage and pages need no commit.
\<close>

section \<open>Nodes\<close>

definition get_node :: "space \<Rightarrow> nat \<times> space" where
  "get_node s = (
     if free_list s \<noteq> NIL
     then (free_list s, s\<lparr>free_list := heap_link (nodes s (free_list s))\<rparr>)
     else (next_node s, s\<lparr>next_node := add32 (next_node s) 1\<rparr>))"

definition put_node :: "nat \<Rightarrow> space \<Rightarrow> space" where
  "put_node i s = s\<lparr>nodes := set_heap (nodes s) i (free_list s), free_list := i\<rparr>"

text \<open>The assignments of the treap's root.\<close>

definition tree_insert :: "nat \<Rightarrow> space \<Rightarrow> space option" where
  "tree_insert i s = map_option (\<lambda>(ns, r). s\<lparr>nodes := ns, treap_root := r\<rparr>) (treap_insert (nodes s) (treap_root s) i)"

definition tree_erase :: "nat \<Rightarrow> space \<Rightarrow> space option" where
  "tree_erase i s = map_option (\<lambda>(ns, r). s\<lparr>nodes := ns, treap_root := r\<rparr>) (treap_erase (nodes s) (treap_root s) i)"

text \<open>\<open>nodes[i].size += nodes[j].size\<close>\<close>

definition absorb :: "nat \<Rightarrow> nat \<Rightarrow> space \<Rightarrow> space" where
  "absorb i j s = s\<lparr>nodes := set_pages (nodes s) i (add32 (npages (nodes s i)) (npages (nodes s j)))\<rparr>"

section \<open>The roles of nodes\<close>

text \<open>Every node below the high-water mark is unused (in the free list) or describes a region: a free
  one in the treap and heap, a freed one in the batch, one that an operation holds, or a slab of
  32 pages; a spare node is in use but describes nothing any more.\<close>

datatype role = Absent | Unused | Spare | InTree | Batched | InHand | Slabbed

abbreviation with_role :: "role \<Rightarrow> (nat \<Rightarrow> role) \<Rightarrow> nat set" where
  "with_role r role \<equiv> {i. role i = r}"

definition live :: "(nat \<Rightarrow> role) \<Rightarrow> nat set" where
  "live role = {i. role i \<notin> {Absent, Unused, Spare}}"

definition extent :: "(nat \<Rightarrow> role) \<Rightarrow> (nat \<Rightarrow> node) \<Rightarrow> nat \<Rightarrow> nat" where
  "extent role ns i = (if role i = Slabbed then 32 else npages (ns i))"

definition region :: "(nat \<Rightarrow> role) \<Rightarrow> (nat \<Rightarrow> node) \<Rightarrow> nat \<Rightarrow> nat set" where
  "region role ns i = {offset (ns i)..<offset (ns i) + extent role ns i}"

definition apart :: "nat \<Rightarrow> nat \<Rightarrow> nat \<Rightarrow> nat \<Rightarrow> bool" where
  "apart a m b n \<longleftrightarrow> a + m \<le> b \<or> b + n \<le> a"

definition tiled :: "nat \<Rightarrow> (nat \<Rightarrow> role) \<Rightarrow> (nat \<Rightarrow> node) \<Rightarrow> bool" where
  "tiled pub role ns \<longleftrightarrow>
     (\<forall>i \<in> live role. 0 < extent role ns i \<and> offset (ns i) + extent role ns i \<le> pub) \<and>
     (\<forall>i \<in> live role. \<forall>j \<in> live role. i \<noteq> j \<longrightarrow> apart (offset (ns i)) (extent role ns i) (offset (ns j)) (extent role ns j))"

definition covered :: "role set \<Rightarrow> (nat \<Rightarrow> role) \<Rightarrow> (nat \<Rightarrow> node) \<Rightarrow> nat set" where
  "covered R role ns = (\<Union>i \<in> {i. role i \<in> R}. region role ns i)"

fun free_chain :: "(nat \<Rightarrow> node) \<Rightarrow> nat \<Rightarrow> nat list \<Rightarrow> bool" where
  "free_chain ns r [] \<longleftrightarrow> r = NIL"
| "free_chain ns r (i # is) \<longleftrightarrow> r = i \<and> i \<noteq> NIL \<and> free_chain ns (heap_link (ns i)) is"

text \<open>The links of the store: the treap of the nodes \<open>T\<close>, the heap of the nodes \<open>H\<close> and the free list of
  the nodes \<open>U\<close>.  The invariant of the store adds the roles, for a batch \<open>B\<close>.\<close>

definition wired :: "nat set \<Rightarrow> nat set \<Rightarrow> nat set \<Rightarrow> space \<Rightarrow> bool" where
  "wired T H U s \<longleftrightarrow>
     (\<exists>t. is_treap (nodes s) (treap_root s) t \<and> set_tree t = T) \<and> heap_linked s \<and> heap_ids s = H \<and>
     (\<exists>fl. free_chain (nodes s) (free_list s) fl \<and> distinct fl \<and> set fl = U)"

definition store :: "nat \<Rightarrow> (nat \<Rightarrow> role) \<Rightarrow> nat list \<Rightarrow> space \<Rightarrow> bool" where
  "store pub role B s \<longleftrightarrow>
     pub < NIL \<and> wired (with_role InTree role) (with_role InTree role) (with_role Unused role) s \<and>
     tiled pub role (nodes s) \<and> distinct B \<and> set B = with_role Batched role \<and>
     {i. role i \<noteq> Absent} = {..<next_node s} \<and> next_node s \<le> pub"

lemma role_sets [simp]:
  "{i. (role(j := r)) i = r'} = (if r = r' then insert j (with_role r' role) else with_role r' role - {j})"
  "{i. (role(j := r)) i \<noteq> r'} = (if r = r' then {i. role i \<noteq> r'} - {j} else insert j {i. role i \<noteq> r'})"
  by auto

lemma live_update [simp]:
  "live (role(j := r)) = (if r \<in> {Absent, Unused, Spare} then live role - {j} else insert j (live role))"
  by (auto simp: live_def)

lemma apart_disjoint: "apart a m b n \<Longrightarrow> {a..<a + m} \<inter> {b..<b + n} = {}"
  by (auto simp: apart_def)

lemma apart_sym: "apart a m b n \<Longrightarrow> apart b n a m"
  by (auto simp: apart_def)

lemma tiled_bound: "tiled pub role ns \<Longrightarrow> i \<in> live role \<Longrightarrow> 0 < extent role ns i \<and> offset (ns i) + extent role ns i \<le> pub"
  by (simp add: tiled_def)

lemma tiled_apart: "tiled pub role ns \<Longrightarrow> i \<in> live role \<Longrightarrow> j \<in> live role \<Longrightarrow> i \<noteq> j \<Longrightarrow>
    apart (offset (ns i)) (extent role ns i) (offset (ns j)) (extent role ns j)"
  by (simp add: tiled_def)

lemma tiled_offset: "tiled pub role ns \<Longrightarrow> i \<in> live role \<Longrightarrow> j \<in> live role \<Longrightarrow> i \<noteq> j \<Longrightarrow> offset (ns i) \<noteq> offset (ns j)"
  using tiled_apart [of pub role ns i j] tiled_bound [of pub role ns i] tiled_bound [of pub role ns j] by (auto simp: apart_def)

lemma tiled_cong:
  assumes "\<And>i. offset (ns' i) = offset (ns i)" "\<And>i. npages (ns' i) = npages (ns i)"
  shows "tiled pub role ns' \<longleftrightarrow> tiled pub role ns" "covered R role ns' = covered R role ns"
    "region role ns' i = region role ns i" "extent role ns' i = extent role ns i"
proof -
  have "extent role ns' = extent role ns"
    using assms by (intro ext) (simp add: extent_def)
  then show "tiled pub role ns' \<longleftrightarrow> tiled pub role ns" "covered R role ns' = covered R role ns"
    "region role ns' i = region role ns i" "extent role ns' i = extent role ns i"
    using assms by (simp_all add: tiled_def covered_def region_def)
qed

lemma tiled_cong_live:
  assumes "\<And>i. i \<in> live role \<Longrightarrow> offset (ns' i) = offset (ns i) \<and> npages (ns' i) = npages (ns i)"
  shows "tiled pub role ns' \<longleftrightarrow> tiled pub role ns"
  using assms by (simp add: tiled_def extent_def)

lemma tiled_card:
  assumes "tiled pub role ns" "finite (live role)"
  shows "card (live role) \<le> pub" "(\<Sum>i \<in> live role. extent role ns i) \<le> pub"
proof -
  have disj: "region role ns i \<inter> region role ns j = {}" if "i \<in> live role" "j \<in> live role" "i \<noteq> j" for i j
    unfolding region_def by (rule apart_disjoint [OF tiled_apart [OF assms(1) that]])
  have "(\<Sum>i \<in> live role. extent role ns i) = (\<Sum>i \<in> live role. card (region role ns i))"
    by (simp add: region_def)
  also have "\<dots> = card (\<Union>i \<in> live role. region role ns i)"
    using assms(2) disj by (intro card_UN_disjoint [symmetric]) (simp_all add: region_def)
  also have "\<dots> \<le> card {..<pub}"
    using tiled_bound [OF assms(1)] by (intro card_mono) (fastforce simp: region_def)+
  finally show sum: "(\<Sum>i \<in> live role. extent role ns i) \<le> pub"
    by simp
  have "card (live role) = (\<Sum>i \<in> live role. 1)"
    by simp
  also have "\<dots> \<le> (\<Sum>i \<in> live role. extent role ns i)"
    using tiled_bound [OF assms(1)] by (intro sum_mono) (simp add: Suc_leI)
  finally show "card (live role) \<le> pub"
    using sum by simp
qed

lemma free_chain_cong:
  "(\<And>i. i \<in> set fl \<Longrightarrow> heap_link (ns' i) = heap_link (ns i)) \<Longrightarrow> free_chain ns' r fl = free_chain ns r fl"
  by (induction fl arbitrary: r) auto

lemma is_treap_cong:
  assumes "\<And>i. i \<in> set_tree t \<Longrightarrow> left_child (ns' i) = left_child (ns i) \<and> right_child (ns' i) = right_child (ns i) \<and> offset (ns' i) = offset (ns i)"
  shows "is_treap ns' r t = is_treap ns r t"
proof -
  have "prio_heap ns' u = prio_heap ns u" if "set_tree u \<subseteq> set_tree t" for u
    using that
  proof (induction u)
    case (Node l i v)
    have pr: "priority (ns' j) = priority (ns j)" if "j \<in> insert i (set_tree l \<union> set_tree v)" for j
      using assms [of j] that Node.prems by (auto simp: priority_def)
    have "(\<forall>j \<in> set_tree l \<union> set_tree v. priority (ns' i) \<le> priority (ns' j)) \<longleftrightarrow>
        (\<forall>j \<in> set_tree l \<union> set_tree v. priority (ns i) \<le> priority (ns j))"
      by (intro ball_cong) (simp_all add: pr)
    then show ?case
      using Node by simp
  qed simp
  moreover have "by_offset ns' t = by_offset ns t"
    unfolding by_offset_def
  proof
    show "sorted_wrt (\<lambda>i j. offset (ns i) < offset (ns j)) (inorder t)" if "sorted_wrt (\<lambda>i j. offset (ns' i) < offset (ns' j)) (inorder t)"
      by (rule sorted_wrt_mono_rel [OF _ that]) (simp add: assms)
    show "sorted_wrt (\<lambda>i j. offset (ns' i) < offset (ns' j)) (inorder t)" if "sorted_wrt (\<lambda>i j. offset (ns i) < offset (ns j)) (inorder t)"
      by (rule sorted_wrt_mono_rel [OF _ that]) (simp add: assms)
  qed
  moreover have "treap_at ns' r t = treap_at ns r t"
    by (rule treap_at_cong) (simp add: assms)
  ultimately show ?thesis
    by (simp add: is_treap_def)
qed

lemma heap_linked_cong:
  assumes "heap_array s' = heap_array s" "heap_size s' = heap_size s"
    "\<And>i. i \<in> heap_ids s \<Longrightarrow> heap_link (nodes s' i) = heap_link (nodes s i)"
  shows "heap_linked s' = heap_linked s" "heap_ids s' = heap_ids s"
  using assms by (auto simp: linked_to_def heap_ids_def)

lemma store_live:
  assumes "store pub role B s"
  shows "finite (live role)" "i \<in> live role \<Longrightarrow> i < next_node s" "i \<in> live role \<Longrightarrow> i \<noteq> NIL"
proof -
  have dom: "{i. role i \<noteq> Absent} = {..<next_node s}" "next_node s \<le> pub" "pub < NIL"
    using assms by (simp_all add: store_def)
  have sub: "live role \<subseteq> {..<next_node s}"
    unfolding dom(1) [symmetric] by (auto simp: live_def)
  then show "finite (live role)"
    by (rule finite_subset) simp
  show "i < next_node s" if "i \<in> live role"
    using sub that by auto
  then show "i \<noteq> NIL" if "i \<in> live role"
    using dom(2,3) that by fastforce
qed

lemma NIL_less: "NIL < 2 ^ 32"
  by (simp add: NIL_def)

lemma store_end:
  assumes "store pub role B s" "i \<in> live role" "role i \<noteq> Slabbed"
  shows "node_end (nodes s i) = offset (nodes s i) + npages (nodes s i)" "offset (nodes s i) + npages (nodes s i) \<le> pub"
    "0 < npages (nodes s i)" "pub < NIL"
proof -
  have tiled: "tiled pub role (nodes s)" and pub: "pub < NIL"
    using assms(1) by (simp_all add: store_def)
  show "offset (nodes s i) + npages (nodes s i) \<le> pub" "0 < npages (nodes s i)" "pub < NIL"
    using tiled_bound [OF tiled assms(2)] assms(3) pub by (simp_all add: extent_def)
  then show "node_end (nodes s i) = offset (nodes s i) + npages (nodes s i)"
    using NIL_less by (simp add: node_end_def add32_eq)
qed

section \<open>Steps on the links\<close>

text \<open>What the operations on treap and heap leave alone.\<close>

definition kept :: "nat set \<Rightarrow> space \<Rightarrow> space \<Rightarrow> bool" where
  "kept S s s' \<longleftrightarrow>
     (\<forall>i. offset (nodes s' i) = offset (nodes s i) \<and> npages (nodes s' i) = npages (nodes s i)) \<and>
     (\<forall>i. i \<notin> S \<longrightarrow> nodes s' i = nodes s i) \<and>
     (\<forall>N A k r. s'\<lparr>nodes := N, heap_array := A, heap_size := k, treap_root := r\<rparr> =
       s\<lparr>nodes := N, heap_array := A, heap_size := k, treap_root := r\<rparr>)"

lemma kept_trans: "kept S s s' \<Longrightarrow> kept S' s' s'' \<Longrightarrow> S \<subseteq> Q \<Longrightarrow> S' \<subseteq> Q \<Longrightarrow> kept Q s s''"
  unfolding kept_def by (metis subsetD)

lemma kept_mono: "kept S s s' \<Longrightarrow> S \<subseteq> Q \<Longrightarrow> kept Q s s'"
  unfolding kept_def by blast

lemma kept_payload: "kept S s s' \<Longrightarrow> offset (nodes s' i) = offset (nodes s i)" "kept S s s' \<Longrightarrow> npages (nodes s' i) = npages (nodes s i)"
  "kept S s s' \<Longrightarrow> i \<notin> S \<Longrightarrow> nodes s' i = nodes s i"
  by (simp_all add: kept_def)

lemma kept_rest:
  assumes "kept S s s'"
  shows "next_node s' = next_node s" "free_list s' = free_list s"
    "batch_list s' = batch_list s" "batch_pages s' = batch_pages s" "batch_min s' = batch_min s" "batch_max s' = batch_max s"
    "total s' = total s" "occupied s' = occupied s" "slabs s' = slabs s" "slab_ids s' = slab_ids s"
    "slab_free s' = slab_free s" "remote_slab s' = remote_slab s" "remote_page s' = remote_page s" "decommits s' = decommits s"
proof -
  let ?b = "\<lambda>s. s\<lparr>nodes := nodes s, heap_array := heap_array s, heap_size := 0, treap_root := 0\<rparr>"
  have "s'\<lparr>nodes := nodes s, heap_array := heap_array s, heap_size := 0, treap_root := 0\<rparr> = ?b s"
    using assms unfolding kept_def by blast
  note eq = arg_cong [OF this]
  show "next_node s' = next_node s" using eq [of next_node] by simp
  show "free_list s' = free_list s" using eq [of free_list] by simp
  show "batch_list s' = batch_list s" using eq [of batch_list] by simp
  show "batch_pages s' = batch_pages s" using eq [of batch_pages] by simp
  show "batch_min s' = batch_min s" using eq [of batch_min] by simp
  show "batch_max s' = batch_max s" using eq [of batch_max] by simp
  show "total s' = total s" using eq [of total] by simp
  show "occupied s' = occupied s" using eq [of occupied] by simp
  show "slabs s' = slabs s" using eq [of slabs] by simp
  show "slab_ids s' = slab_ids s" using eq [of slab_ids] by simp
  show "slab_free s' = slab_free s" using eq [of slab_free] by simp
  show "remote_slab s' = remote_slab s" using eq [of remote_slab] by simp
  show "remote_page s' = remote_page s" using eq [of remote_page] by simp
  show "decommits s' = decommits s" using eq [of decommits] by simp
qed

lemma heap_only_kept: "heap_only S s s' \<Longrightarrow> kept S s s'"
proof -
  assume only: "heap_only S s s'"
  have "s'\<lparr>nodes := N, heap_array := A, heap_size := k, treap_root := r\<rparr> = s\<lparr>nodes := N, heap_array := A, heap_size := k, treap_root := r\<rparr>" for N A k r
  proof -
    have "s'\<lparr>nodes := N, heap_array := A, heap_size := k\<rparr> = s\<lparr>nodes := N, heap_array := A, heap_size := k\<rparr>"
      using only by (simp add: heap_only_def)
    from arg_cong [OF this, of "\<lambda>s. s\<lparr>treap_root := r\<rparr>"] show ?thesis by simp
  qed
  then show "kept S s s'"
    using heap_only_payload [OF only] only unfolding kept_def heap_only_def by blast
qed

lemma heap_tree_cong:
  assumes "heap_only S s s'"
  shows "is_treap (nodes s') r t = is_treap (nodes s) r t"
  by (rule is_treap_cong) (simp add: heap_only_payload [OF assms])

lemma free_chain_outside:
  assumes "\<And>i. i \<in> set fl \<Longrightarrow> nodes s' i = nodes s i"
  shows "free_chain (nodes s') r fl = free_chain (nodes s) r fl"
  by (rule free_chain_cong) (simp add: assms)

lemma wired_heap_insert:
  assumes "wired T H U s" "i \<notin> H" "insert i H \<inter> U = {}"
  shows "wired T (insert i H) U (heap_insert i s)" "kept (insert i H) s (heap_insert i s)"
proof -
  have "heap_linked s" "i \<notin> heap_ids s"
    using assms by (auto simp: wired_def)
  note ins = heap_insert_linked [OF this]
  have H: "heap_ids s = H"
    using assms(1) by (simp add: wired_def)
  have only: "heap_only (insert i H) s (heap_insert i s)"
    using ins H by simp
  then show kept: "kept (insert i H) s (heap_insert i s)"
    by (rule heap_only_kept)
  have "free_chain (nodes (heap_insert i s)) r fl = free_chain (nodes s) r fl" if "set fl = U" for r fl
    by (rule free_chain_outside) (use kept_payload(3) [OF kept] assms(3) that in blast)
  moreover have "heap_linked (heap_insert i s)"
    using ins by blast
  moreover have "heap_ids (heap_insert i s) = insert i H"
    using ins H by blast
  ultimately show "wired T (insert i H) U (heap_insert i s)"
    using assms(1) heap_only_rest(1) [OF only] kept_rest(2) [OF kept] unfolding wired_def heap_tree_cong [OF only] by metis
qed

lemma wired_heap_erase:
  assumes "wired T H U s" "i \<in> H" "H \<inter> U = {}"
  shows "wired T (H - {i}) U (heap_erase i s)" "kept H s (heap_erase i s)"
proof -
  have "heap_linked s" "i \<in> heap_ids s"
    using assms by (auto simp: wired_def)
  note del = heap_erase_linked [OF this]
  have H: "heap_ids s = H"
    using assms(1) by (simp add: wired_def)
  have only: "heap_only H s (heap_erase i s)"
    using del H by blast
  then show kept: "kept H s (heap_erase i s)"
    by (rule heap_only_kept)
  have "free_chain (nodes (heap_erase i s)) r fl = free_chain (nodes s) r fl" if "set fl = U" for r fl
    by (rule free_chain_outside) (use kept_payload(3) [OF kept] assms(3) that in blast)
  moreover have "heap_linked (heap_erase i s)"
    using del by blast
  moreover have "heap_ids (heap_erase i s) = H - {i}"
    using del H by blast
  ultimately show "wired T (H - {i}) U (heap_erase i s)"
    using assms(1) heap_only_rest(1) [OF only] kept_rest(2) [OF kept] unfolding wired_def heap_tree_cong [OF only] by metis
qed

lemma wired_heap_fix:
  assumes "wired T H U s" "i \<in> H" "H \<inter> U = {}"
  shows "wired T H U (heap_fix i s)" "kept H s (heap_fix i s)"
proof -
  have "heap_linked s" "i \<in> heap_ids s"
    using assms by (auto simp: wired_def)
  note mend = heap_fix_linked [OF this]
  have H: "heap_ids s = H"
    using assms(1) by (simp add: wired_def)
  have only: "heap_only H s (heap_fix i s)"
    using mend H by blast
  then show kept: "kept H s (heap_fix i s)"
    by (rule heap_only_kept)
  have "free_chain (nodes (heap_fix i s)) r fl = free_chain (nodes s) r fl" if "set fl = U" for r fl
    by (rule free_chain_outside) (use kept_payload(3) [OF kept] assms(3) that in blast)
  moreover have "heap_linked (heap_fix i s)"
    using mend by blast
  moreover have "heap_ids (heap_fix i s) = H"
    using mend H by blast
  ultimately show "wired T H U (heap_fix i s)"
    using assms(1) heap_only_rest(1) [OF only] kept_rest(2) [OF kept] unfolding wired_def heap_tree_cong [OF only] by metis
qed

lemma tree_kept:
  assumes "same_payload (nodes s) ns" "same_outside S (nodes s) ns"
  shows "kept S s (s\<lparr>nodes := ns, treap_root := r\<rparr>)"
  using assms by (simp add: kept_def same_payload_def same_outside_def)

lemma wired_tree:
  assumes "wired T H U s" "is_treap ns r t" "same_payload (nodes s) ns"
  shows "wired (set_tree t) H U (s\<lparr>nodes := ns, treap_root := r\<rparr>)"
proof -
  let ?s = "s\<lparr>nodes := ns, treap_root := r\<rparr>"
  have link: "heap_link (ns i) = heap_link (nodes s i)" for i
    using assms(3) by (simp add: same_payload_def)
  have "heap_linked ?s = heap_linked s" "heap_ids ?s = heap_ids s"
    by (rule heap_linked_cong; simp add: link)+
  moreover have "free_chain ns q fl = free_chain (nodes s) q fl" for q fl
    by (rule free_chain_cong) (rule link)
  ultimately show ?thesis
    using assms(1,2) by (auto simp: wired_def)
qed

lemma wired_tree_insert:
  assumes "wired T H U s" "i \<notin> T" "i \<noteq> NIL" "\<forall>j \<in> T. offset (nodes s j) \<noteq> offset (nodes s i)"
  shows "\<exists>s'. tree_insert i s = Some s' \<and> wired (insert i T) H U s' \<and> kept (insert i T) s s'"
proof -
  obtain t where t: "is_treap (nodes s) (treap_root s) t" "set_tree t = T"
    using assms(1) by (auto simp: wired_def)
  have "\<exists>ns' r' t'. treap_insert (nodes s) (treap_root s) i = Some (ns', r') \<and> is_treap ns' r' t' \<and>
      set_tree t' = insert i (set_tree t) \<and> same_payload (nodes s) ns' \<and> same_outside (insert i (set_tree t)) (nodes s) ns'"
    by (rule treap_insert_correct [OF t(1)]) (use assms t(2) in auto)
  then obtain ns' r' t' where ins: "treap_insert (nodes s) (treap_root s) i = Some (ns', r')" "is_treap ns' r' t'"
    "set_tree t' = insert i T" "same_payload (nodes s) ns'" "same_outside (insert i T) (nodes s) ns'"
    using t(2) by auto
  show ?thesis
    using ins(1) wired_tree [OF assms(1) ins(2,4)] tree_kept [OF ins(4,5)] by (simp add: tree_insert_def ins(3))
qed

lemma wired_tree_erase:
  assumes "wired T H U s" "i \<in> T"
  shows "\<exists>s'. tree_erase i s = Some s' \<and> wired (T - {i}) H U s' \<and> kept T s s'"
proof -
  obtain t where t: "is_treap (nodes s) (treap_root s) t" "set_tree t = T"
    using assms(1) by (auto simp: wired_def)
  obtain ns' r' t' where del: "treap_erase (nodes s) (treap_root s) i = Some (ns', r')" "is_treap ns' r' t'"
    "set_tree t' = T - {i}" "same_payload (nodes s) ns'" "same_outside T (nodes s) ns'"
    using treap_erase_correct [OF t(1), of i] assms(2) t(2) by auto
  show ?thesis
    using del(1) wired_tree [OF assms(1) del(2,4)] tree_kept [OF del(4,5)] by (simp add: tree_erase_def del(3))
qed

text \<open>Updates of a node that keep its links.\<close>

lemma wired_nodes:
  assumes "wired T H U s" "\<And>i. i \<in> T \<Longrightarrow> left_child (ns i) = left_child (nodes s i) \<and> right_child (ns i) = right_child (nodes s i) \<and> offset (ns i) = offset (nodes s i)"
    "\<And>i. i \<in> H \<union> U \<Longrightarrow> heap_link (ns i) = heap_link (nodes s i)"
  shows "wired T H U (s\<lparr>nodes := ns\<rparr>)"
proof -
  obtain t where t: "is_treap (nodes s) (treap_root s) t" "set_tree t = T"
    using assms(1) by (auto simp: wired_def)
  obtain fl where fl: "free_chain (nodes s) (free_list s) fl" "distinct fl" "set fl = U"
    using assms(1) by (auto simp: wired_def)
  have H: "heap_ids s = H" "heap_linked s"
    using assms(1) by (simp_all add: wired_def)
  have "is_treap ns (treap_root s) t"
    using is_treap_cong [of t ns "nodes s"] t assms(2) by auto
  moreover have "free_chain ns (free_list s) fl"
    using free_chain_cong [of fl ns "nodes s"] fl assms(3) by auto
  moreover have "heap_linked (s\<lparr>nodes := ns\<rparr>) = heap_linked s" "heap_ids (s\<lparr>nodes := ns\<rparr>) = heap_ids s"
    by (rule heap_linked_cong; use H assms(3) in auto)+
  ultimately show ?thesis
    using t(2) fl(2,3) H by (auto simp: wired_def)
qed

lemma wired_absorb: "wired T H U s \<Longrightarrow> wired T H U (absorb i j s)"
  unfolding absorb_def by (rule wired_nodes) simp_all

lemma wired_put_node:
  assumes "wired T H U s" "i \<notin> H" "i \<notin> U" "i \<noteq> NIL"
  shows "wired T H (insert i U) (put_node i s)"
proof -
  obtain t where t: "is_treap (nodes s) (treap_root s) t" "set_tree t = T"
    using assms(1) by (auto simp: wired_def)
  obtain fl where fl: "free_chain (nodes s) (free_list s) fl" "distinct fl" "set fl = U"
    using assms(1) by (auto simp: wired_def)
  have H: "heap_ids s = H" "heap_linked s"
    using assms(1) by (simp_all add: wired_def)
  have "is_treap (nodes (put_node i s)) (treap_root s) t"
    using is_treap_cong [of t "nodes (put_node i s)" "nodes s" "treap_root s"] t(1) by (simp add: put_node_def)
  moreover have "free_chain (nodes (put_node i s)) (free_list s) fl = free_chain (nodes s) (free_list s) fl"
    by (rule free_chain_cong) (use fl(3) assms(3) in \<open>auto simp: put_node_def\<close>)
  then have "free_chain (nodes (put_node i s)) i (i # fl)"
    using fl(1) assms(4) by (simp add: put_node_def)
  moreover have "heap_linked (put_node i s) = heap_linked s" "heap_ids (put_node i s) = heap_ids s"
    by (rule heap_linked_cong; use H assms(2) in \<open>auto simp: put_node_def\<close>)+
  moreover have "treap_root (put_node i s) = treap_root s" "free_list (put_node i s) = i"
    by (simp_all add: put_node_def)
  ultimately show ?thesis
    using t(2) fl(2,3) H assms(3) unfolding wired_def by (metis distinct.simps(2) list.simps(15))
qed

lemma wired_get_node:
  assumes "wired T H U s" "get_node s = (i, s')"
  shows "if U = {} then i = next_node s \<and> s' = s\<lparr>next_node := add32 (next_node s) 1\<rparr>
    else i \<in> U \<and> wired T H (U - {i}) s' \<and> s' = s\<lparr>free_list := heap_link (nodes s i)\<rparr>"
proof -
  obtain fl where fl: "free_chain (nodes s) (free_list s) fl" "distinct fl" "set fl = U"
    using assms(1) by (auto simp: wired_def)
  show ?thesis
  proof (cases fl)
    case Nil
    then show ?thesis
      using fl assms(2) by (auto simp: get_node_def)
  next
    case (Cons j gl)
    then have res: "i = j" "s' = s\<lparr>free_list := heap_link (nodes s j)\<rparr>"
      using fl(1) assms(2) by (auto simp: get_node_def)
    have rest: "free_chain (nodes s) (heap_link (nodes s j)) gl" "distinct gl" "set gl = U - {j}" "j \<in> U"
      using fl Cons by auto
    have "heap_linked s' = heap_linked s" "heap_ids s' = heap_ids s"
      by (rule heap_linked_cong; simp add: res)+
    then have "wired T H (U - {j}) s'"
      using assms(1) rest by (auto simp: wired_def res)
    then show ?thesis
      using rest(4) res by auto
  qed
qed

lemma wired_next_node: "wired T H U (s\<lparr>next_node := n\<rparr>) = wired T H U s"
proof -
  have "heap_linked (s\<lparr>next_node := n\<rparr>) = heap_linked s" "heap_ids (s\<lparr>next_node := n\<rparr>) = heap_ids s"
    by (rule heap_linked_cong; simp)+
  then show ?thesis
    by (simp add: wired_def)
qed

section \<open>Steps on the store\<close>

lemma wired_fields [simp]:
  "wired T H U (s\<lparr>total := x\<rparr>) = wired T H U s" "wired T H U (s\<lparr>occupied := x\<rparr>) = wired T H U s"
  "wired T H U (s\<lparr>decommits := d\<rparr>) = wired T H U s" "wired T H U (s\<lparr>batch_list := b\<rparr>) = wired T H U s"
  "wired T H U (s\<lparr>batch_pages := x\<rparr>) = wired T H U s" "wired T H U (s\<lparr>batch_min := x\<rparr>) = wired T H U s"
  "wired T H U (s\<lparr>batch_max := x\<rparr>) = wired T H U s" "wired T H U (s\<lparr>slabs := f\<rparr>) = wired T H U s"
  "wired T H U (s\<lparr>slab_ids := f\<rparr>) = wired T H U s" "wired T H U (s\<lparr>slab_free := g\<rparr>) = wired T H U s"
  "wired T H U (s\<lparr>remote_slab := b\<rparr>) = wired T H U s" "wired T H U (s\<lparr>remote_page := p\<rparr>) = wired T H U s"
  by (simp_all add: wired_def linked_to_def heap_ids_def)

lemma store_fields [simp]:
  "store pub role B (s\<lparr>total := x\<rparr>) = store pub role B s" "store pub role B (s\<lparr>occupied := x\<rparr>) = store pub role B s"
  "store pub role B (s\<lparr>decommits := d\<rparr>) = store pub role B s" "store pub role B (s\<lparr>batch_list := b\<rparr>) = store pub role B s"
  "store pub role B (s\<lparr>batch_pages := x\<rparr>) = store pub role B s" "store pub role B (s\<lparr>batch_min := x\<rparr>) = store pub role B s"
  "store pub role B (s\<lparr>batch_max := x\<rparr>) = store pub role B s" "store pub role B (s\<lparr>slabs := f\<rparr>) = store pub role B s"
  "store pub role B (s\<lparr>slab_ids := f\<rparr>) = store pub role B s" "store pub role B (s\<lparr>slab_free := g\<rparr>) = store pub role B s"
  "store pub role B (s\<lparr>remote_slab := b\<rparr>) = store pub role B s" "store pub role B (s\<lparr>remote_page := p\<rparr>) = store pub role B s"
  by (simp_all add: store_def)

lemma storeD:
  assumes "store pub role B s"
  shows "pub < NIL" "wired (with_role InTree role) (with_role InTree role) (with_role Unused role) s"
    "tiled pub role (nodes s)" "distinct B" "set B = with_role Batched role"
    "{i. role i \<noteq> Absent} = {..<next_node s}" "next_node s \<le> pub"
  using assms by (simp_all add: store_def)

lemma live_roles: "role i = InTree \<Longrightarrow> i \<in> live role" "role i = InHand \<Longrightarrow> i \<in> live role" "role i = Batched \<Longrightarrow> i \<in> live role"
  "role i = Slabbed \<Longrightarrow> i \<in> live role"
  by (simp_all add: live_def)

lemma tiled_role:
  assumes "i \<in> live role" "role i \<noteq> Slabbed" "r \<notin> {Absent, Unused, Spare, Slabbed}"
  shows "tiled pub (role(i := r)) ns = tiled pub role ns"
proof -
  have "extent (role(i := r)) ns = extent role ns" "live (role(i := r)) = live role"
    using assms by (auto simp: extent_def)
  then show ?thesis
    by (simp add: tiled_def)
qed

lemma store_take_batched:
  assumes "store pub role (j # B) s"
  shows "role j = Batched" "store pub (role(j := InHand)) B s"
proof -
  show j: "role j = Batched"
    using storeD(5) [OF assms] by auto
  define role' where "role' = role(j := InHand)"
  have "with_role InTree role' = with_role InTree role" "with_role Unused role' = with_role Unused role"
    "with_role Batched role' = set B" "{k. role' k \<noteq> Absent} = {k. role k \<noteq> Absent}"
    using j storeD(4,5) [OF assms] by (auto simp: role'_def)
  moreover have "tiled pub role' (nodes s) = tiled pub role (nodes s)"
    unfolding role'_def using j live_roles(3) [of role j, OF j] by (simp add: tiled_role)
  ultimately have "store pub role' B s"
    using storeD [OF assms] by (simp add: store_def)
  then show "store pub (role(j := InHand)) B s"
    by (simp add: role'_def)
qed

lemma store_push_batched:
  assumes "store pub role B s" "role j = InHand"
  shows "store pub (role(j := Batched)) (B @ [j]) s"
proof -
  define role' where "role' = role(j := Batched)"
  have "with_role InTree role' = with_role InTree role" "with_role Unused role' = with_role Unused role"
    "with_role Batched role' = insert j (with_role Batched role)" "{k. role' k \<noteq> Absent} = {k. role k \<noteq> Absent}" "j \<notin> set B"
    using assms(2) storeD(5) [OF assms(1)] by (auto simp: role'_def)
  moreover have "tiled pub role' (nodes s) = tiled pub role (nodes s)"
    unfolding role'_def using assms(2) live_roles(2) [of role j, OF assms(2)] by (simp add: tiled_role)
  ultimately have "store pub role' (B @ [j]) s"
    using storeD [OF assms(1)] by (simp add: store_def)
  then show ?thesis
    by (simp add: role'_def)
qed

lemma merge_regions:
  assumes "tiled pub role ns" "i \<in> live role" "j \<in> live role" "i \<noteq> j" "role i \<noteq> Slabbed" "role j \<noteq> Slabbed"
    "offset (ns i) + npages (ns i) = offset (ns j)"
    "\<And>k. offset (ns' k) = offset (ns k)" "\<And>k. npages (ns' k) = (if k = i then npages (ns i) + npages (ns j) else npages (ns k))"
  shows "tiled pub (role(j := Unused)) ns'"
    "region (role(j := Unused)) ns' i = region role ns i \<union> region role ns j"
    "k \<in> live role \<Longrightarrow> k \<noteq> i \<Longrightarrow> k \<noteq> j \<Longrightarrow> region (role(j := Unused)) ns' k = region role ns k"
    "{Absent, Unused, Spare} \<inter> R = {} \<Longrightarrow> role i \<in> R \<longleftrightarrow> role j \<in> R \<Longrightarrow> covered R (role(j := Unused)) ns' = covered R role ns"
proof -
  let ?role = "role(j := Unused)"
  have ext: "extent ?role ns' k = (if k = i then npages (ns i) + npages (ns j) else extent role ns k)" if "k \<noteq> j" for k
    using that assms(4,5,9) by (simp add: extent_def)
  have ext_i: "extent role ns i = npages (ns i)" "extent role ns j = npages (ns j)"
    using assms(5,6) by (simp_all add: extent_def)
  show "tiled pub ?role ns'"
    unfolding tiled_def
  proof (intro conjI ballI impI)
    fix k assume "k \<in> live ?role"
    then have k: "k \<in> live role" "k \<noteq> j"
      by simp_all
    then show "0 < extent ?role ns' k" "offset (ns' k) + extent ?role ns' k \<le> pub"
      using tiled_bound [OF assms(1) k(1)] tiled_bound [OF assms(1,3)] tiled_bound [OF assms(1,2)] assms(7)
      by (auto simp: ext assms(8) ext_i)
  next
    fix k l assume "k \<in> live ?role" "l \<in> live ?role" and neq: "k \<noteq> l"
    then have kl: "k \<in> live role" "k \<noteq> j" "l \<in> live role" "l \<noteq> j"
      by simp_all
    have widen: "apart (offset (ns i)) (npages (ns i) + npages (ns j)) (offset (ns m)) (extent role ns m)" if m: "m \<in> live role" "m \<noteq> i" "m \<noteq> j" for m
      using tiled_apart [OF assms(1,2) m(1)] tiled_apart [OF assms(1,3) m(1)] tiled_bound [OF assms(1) m(1)] m(2,3) assms(7)
      by (auto simp: apart_def ext_i)
    show "apart (offset (ns' k)) (extent ?role ns' k) (offset (ns' l)) (extent ?role ns' l)"
      using tiled_apart [OF assms(1) kl(1,3) neq] widen [OF kl(3)] apart_sym [OF widen [OF kl(1)]] neq kl(2,4)
      by (auto simp: ext assms(8))
  qed
  show same_i: "region ?role ns' i = region role ns i \<union> region role ns j"
    using assms(4,7) by (auto simp: region_def ext assms(8) ext_i)
  show same: "region ?role ns' k = region role ns k" if "k \<in> live role" "k \<noteq> i" "k \<noteq> j" for k
    using that by (simp add: region_def ext assms(8))
  show "covered R ?role ns' = covered R role ns" if R: "{Absent, Unused, Spare} \<inter> R = {}" "role i \<in> R \<longleftrightarrow> role j \<in> R"
  proof -
    have lives: "k \<in> live role" if "role k \<in> R" for k
      using that R by (auto simp: live_def)
    have sets: "{k. ?role k \<in> R} = {k. role k \<in> R} - {j}"
      using R(1) by auto
    show ?thesis
    proof (cases "role i \<in> R")
      case True
      then have "{k. role k \<in> R} = insert i (insert j ({k. role k \<in> R} - {i, j}))" "{k. role k \<in> R} - {j} = insert i ({k. role k \<in> R} - {i, j})"
        using R(2) assms(4) by auto
      then show ?thesis
        unfolding covered_def sets using same lives by (auto simp: same_i)
    next
      case False
      then have "i \<notin> {k. role k \<in> R}" "j \<notin> {k. role k \<in> R}"
        using R(2) by auto
      then show ?thesis
        unfolding covered_def sets using same lives by (intro SUP_cong) auto
    qed
  qed
qed

lemma absorb_pages:
  assumes "store pub role B s" "i \<in> live role" "j \<in> live role" "i \<noteq> j" "role i \<noteq> Slabbed" "role j \<noteq> Slabbed"
    "node_end (nodes s i) = offset (nodes s j)"
  shows "offset (nodes s i) + npages (nodes s i) = offset (nodes s j)"
    "npages (nodes (absorb i j s) k) = (if k = i then npages (nodes s i) + npages (nodes s j) else npages (nodes s k))"
    "offset (nodes (absorb i j s) k) = offset (nodes s k)"
    "k \<noteq> i \<Longrightarrow> nodes (absorb i j s) k = nodes s k"
proof -
  note i = store_end [OF assms(1,2,5)]
  note j = store_end [OF assms(1,3,6)]
  show eq: "offset (nodes s i) + npages (nodes s i) = offset (nodes s j)"
    using assms(7) i by simp
  then show "npages (nodes (absorb i j s) k) = (if k = i then npages (nodes s i) + npages (nodes s j) else npages (nodes s k))"
    using j NIL_less by (simp add: absorb_def add32_eq)
  show "offset (nodes (absorb i j s) k) = offset (nodes s k)" "k \<noteq> i \<Longrightarrow> nodes (absorb i j s) k = nodes s k"
    by (simp_all add: absorb_def)
qed

text \<open>What the steps of \<open>coalesce\<close> keep: the slabs, the pages that are free or freed, and all that does not
  belong to the page store.\<close>

abbreviation paged :: "role set" where
  "paged \<equiv> {InTree, Batched, InHand}"

definition user_part :: "space \<Rightarrow> nat \<times> (nat \<Rightarrow> nat) \<times> (nat \<Rightarrow> nat) \<times> (nat \<Rightarrow> nat \<Rightarrow> nat) \<times> nat list \<times> (nat \<times> nat) list" where
  "user_part s = (occupied s, slabs s, slab_ids s, slab_free s, remote_slab s, remote_page s)"

definition steady :: "(nat \<Rightarrow> role) \<Rightarrow> space \<Rightarrow> (nat \<Rightarrow> role) \<Rightarrow> space \<Rightarrow> bool" where
  "steady role s role' s' \<longleftrightarrow>
     (\<forall>k. role' k = Slabbed \<longleftrightarrow> role k = Slabbed) \<and> (\<forall>k. role' k = Spare \<longleftrightarrow> role k = Spare) \<and>
     (\<forall>k. role k = Slabbed \<longrightarrow> nodes s' k = nodes s k) \<and>
     covered paged role' (nodes s') = covered paged role (nodes s) \<and> user_part s' = user_part s \<and> batch_list s' = batch_list s"

lemma steady_refl [simp]: "steady role s role s"
  by (simp add: steady_def)

lemma steady_trans: "steady role s role' s' \<Longrightarrow> steady role' s' role'' s'' \<Longrightarrow> steady role s role'' s''"
  by (simp add: steady_def)

lemma user_part_simps [simp]:
  "user_part (s\<lparr>nodes := ns\<rparr>) = user_part s" "user_part (put_node j s) = user_part s" "user_part (absorb i j s) = user_part s"
  "user_part (s\<lparr>total := x\<rparr>) = user_part s" "user_part (s\<lparr>decommits := d\<rparr>) = user_part s" "user_part (s\<lparr>batch_list := b\<rparr>) = user_part s"
  by (simp_all add: user_part_def put_node_def absorb_def)

lemma kept_user_part: "kept S s s' \<Longrightarrow> user_part s' = user_part s"
  by (simp add: user_part_def kept_rest)

lemma put_node_simps [simp]:
  "nodes (put_node j s) i = (if i = j then (nodes s j)\<lparr>heap_link := free_list s\<rparr> else nodes s i)"
  "batch_list (put_node j s) = batch_list s" "decommits (put_node j s) = decommits s" "next_node (put_node j s) = next_node s"
  "decommits (absorb i j s) = decommits s" "batch_list (absorb i j s) = batch_list s" "next_node (absorb i j s) = next_node s"
  by (simp_all add: put_node_def absorb_def)

text \<open>A region absorbs one that is held, or one that is free.\<close>

lemma absorb_held:
  assumes "store pub role B s" "role j = InHand" "i \<in> live role" "i \<noteq> j" "role i \<in> {InHand, InTree}"
    "node_end (nodes s i) = offset (nodes s j)"
  defines "s' \<equiv> put_node j (absorb i j s)" and "role' \<equiv> role(j := Unused)"
  shows "store pub role' B s'" "steady role s role' s'" "decommits s' = decommits s"
    "region role' (nodes s') i = region role (nodes s) i \<union> region role (nodes s) j"
    "covered {Batched} role' (nodes s') = covered {Batched} role (nodes s)"
proof -
  have roles: "role i \<noteq> Slabbed" "role j \<noteq> Slabbed" "role i \<noteq> Batched" "role j \<noteq> Batched" "role i \<in> paged" "role j \<in> paged" "j \<in> live role"
    using assms(2,5) live_roles(2) [of role j, OF assms(2)] by auto
  note pages = absorb_pages [OF assms(1,3) roles(7) assms(4) roles(1,2) assms(6)]
  have payload: "offset (nodes s' k) = offset (nodes s k)" "npages (nodes s' k) = (if k = i then npages (nodes s i) + npages (nodes s j) else npages (nodes s k))" for k
    using pages(2-4) assms(4) by (auto simp: s'_def)
  note merged = merge_regions [where ns' = "nodes s'", OF storeD(3) [OF assms(1)] assms(3) roles(7) assms(4) roles(1,2) pages(1) payload, folded role'_def]
  note D = storeD [OF assms(1)]
  have "wired (with_role InTree role) (with_role InTree role) (insert j (with_role Unused role)) s'"
    unfolding s'_def using assms(2) store_live(3) [OF assms(1) roles(7)] by (intro wired_put_node wired_absorb D(2)) auto
  moreover have "with_role InTree role' = with_role InTree role" "with_role Unused role' = insert j (with_role Unused role)"
    "with_role Batched role' = with_role Batched role" "{k. role' k \<noteq> Absent} = {k. role k \<noteq> Absent}"
    using assms(2) by (auto simp: role'_def)
  moreover have "next_node s' = next_node s"
    by (simp add: s'_def)
  ultimately show "store pub role' B s'"
    using D merged(1) by (simp add: store_def)
  show "steady role s role' s'"
    unfolding steady_def
  proof (intro conjI allI impI)
    show "role' k = Slabbed \<longleftrightarrow> role k = Slabbed" "role' k = Spare \<longleftrightarrow> role k = Spare" for k
      using assms(2) by (simp_all add: role'_def)
    show "nodes s' k = nodes s k" if "role k = Slabbed" for k
      using that roles(1,2) pages(4) [of k] by (auto simp: s'_def)
    show "covered paged role' (nodes s') = covered paged role (nodes s)"
      by (rule merged(4)) (use roles in simp_all)
  qed (simp_all add: s'_def)
  show "region role' (nodes s') i = region role (nodes s) i \<union> region role (nodes s) j"
    by (rule merged(2))
  show "covered {Batched} role' (nodes s') = covered {Batched} role (nodes s)"
    by (rule merged(4)) (use roles in simp_all)
qed (simp add: s'_def)

lemma absorb_free:
  assumes "store pub role B s" "role j = InTree" "i \<in> live role" "i \<noteq> j" "role i \<in> {InHand, InTree}"
    "node_end (nodes s i) = offset (nodes s j)"
  defines "role' \<equiv> role(j := Unused)"
  shows "\<exists>s1. tree_erase j (heap_erase j (absorb i j s)) = Some s1 \<and> store pub role' B (put_node j s1) \<and>
    steady role s role' (put_node j s1) \<and> decommits s1 = decommits s \<and>
    region role' (nodes (put_node j s1)) i = region role (nodes s) i \<union> region role (nodes s) j \<and>
    covered {Batched} role' (nodes (put_node j s1)) = covered {Batched} role (nodes s)"
proof -
  have roles: "role i \<noteq> Slabbed" "role j \<noteq> Slabbed" "role i \<noteq> Batched" "role j \<noteq> Batched" "role i \<in> paged" "role j \<in> paged" "j \<in> live role"
    using assms(2,5) live_roles(1) [of role j, OF assms(2)] by auto
  note pages = absorb_pages [OF assms(1,3) roles(7) assms(4) roles(1,2) assms(6)]
  note D = storeD [OF assms(1)]
  let ?T = "with_role InTree role" and ?U = "with_role Unused role"
  have "?T \<inter> ?U = {}" "j \<in> ?T"
    using assms(2) by auto
  note erased = wired_heap_erase [OF wired_absorb [OF D(2)] this(2,1), of i j]
  note wired1 = erased(1) and kept1 = erased(2)
  obtain s1 where s1: "tree_erase j (heap_erase j (absorb i j s)) = Some s1" "wired (?T - {j}) (?T - {j}) ?U s1"
    "kept ?T (heap_erase j (absorb i j s)) s1"
    using wired_tree_erase [OF wired1 \<open>j \<in> ?T\<close>] by blast
  have kept: "kept ?T (absorb i j s) s1"
    by (rule kept_trans [OF kept1 s1(3)]) auto
  define s' where "s' = put_node j s1"
  have payload: "offset (nodes s' k) = offset (nodes s k)" "npages (nodes s' k) = (if k = i then npages (nodes s i) + npages (nodes s j) else npages (nodes s k))" for k
    using pages(2-4) kept_payload(1,2) [OF kept] assms(4) by (auto simp: s'_def)
  note merged = merge_regions [where ns' = "nodes s'", OF storeD(3) [OF assms(1)] assms(3) roles(7) assms(4) roles(1,2) pages(1) payload, folded role'_def]
  have "wired (?T - {j}) (?T - {j}) (insert j ?U) s'"
    unfolding s'_def using assms(2) store_live(3) [OF assms(1) roles(7)] by (intro wired_put_node s1(2)) auto
  moreover have "with_role InTree role' = ?T - {j}" "with_role Unused role' = insert j ?U"
    "with_role Batched role' = with_role Batched role" "{k. role' k \<noteq> Absent} = {k. role k \<noteq> Absent}"
    using assms(2) by (auto simp: role'_def)
  moreover have "next_node s' = next_node s"
    using kept_rest(1) [OF kept] by (simp add: s'_def)
  ultimately have store: "store pub role' B s'"
    using D merged(1) by (simp add: store_def)
  have "steady role s role' s'"
    unfolding steady_def
  proof (intro conjI allI impI)
    show "role' k = Slabbed \<longleftrightarrow> role k = Slabbed" "role' k = Spare \<longleftrightarrow> role k = Spare" for k
      using assms(2) by (simp_all add: role'_def)
    show "nodes s' k = nodes s k" if "role k = Slabbed" for k
    proof -
      have "k \<noteq> j" "k \<noteq> i" "k \<notin> ?T"
        using that roles(1,2) by auto
      then show ?thesis
        using kept_payload(3) [OF kept, of k] pages(4) [of k] by (simp add: s'_def)
    qed
    show "covered paged role' (nodes s') = covered paged role (nodes s)"
      by (rule merged(4)) (use roles in simp_all)
    show "user_part s' = user_part s" "batch_list s' = batch_list s"
      using kept_user_part [OF kept] kept_rest(3) [OF kept] by (simp_all add: s'_def)
  qed
  moreover have "covered {Batched} role' (nodes s') = covered {Batched} role (nodes s)"
    by (rule merged(4)) (use roles in simp_all)
  moreover have "decommits s1 = decommits s"
    using kept_rest(14) [OF kept] by simp
  ultimately show ?thesis
    using s1(1) store merged(2) unfolding s'_def by blast
qed

text \<open>A held region becomes a free one; a free region changes its place in the heap.\<close>

lemma covered_role:
  assumes "role i \<noteq> Slabbed" "r \<noteq> Slabbed"
  shows "region (role(i := r)) ns k = region role ns k"
    "role i \<in> R \<Longrightarrow> r \<in> R \<Longrightarrow> covered R (role(i := r)) ns = covered R role ns"
    "role i \<in> R \<Longrightarrow> r \<notin> R \<Longrightarrow> covered R role ns = covered R (role(i := r)) ns \<union> region role ns i"
proof -
  have region: "region (role(i := r)) ns k = region role ns k" for k
    using assms by (simp add: region_def extent_def)
  then show "region (role(i := r)) ns k = region role ns k" .
  show "covered R (role(i := r)) ns = covered R role ns" if "role i \<in> R" "r \<in> R"
    unfolding covered_def region using that by (intro SUP_cong) auto
  show "covered R role ns = covered R (role(i := r)) ns \<union> region role ns i" if "role i \<in> R" "r \<notin> R"
    unfolding covered_def region using that by (auto split: if_splits)
qed

lemma steady_role: "role i \<in> paged \<Longrightarrow> r \<in> paged \<Longrightarrow> steady role s (role(i := r)) s"
  using covered_role(2) [of role i r paged "nodes s"] by (auto simp: steady_def)

lemma kept_steady:
  assumes "kept S s s'" "\<And>k. role k = Slabbed \<Longrightarrow> k \<notin> S"
  shows "steady role s role s'"
  using kept_payload [OF assms(1)] assms(2) kept_user_part [OF assms(1)] kept_rest(3) [OF assms(1)] tiled_cong(2) [of "nodes s'" "nodes s"]
  unfolding steady_def by metis

lemma kept_tiled:
  assumes "kept S s s'"
  shows "tiled pub role (nodes s') = tiled pub role (nodes s)" "covered R role (nodes s') = covered R role (nodes s)"
    "region role (nodes s') i = region role (nodes s) i"
  using kept_payload(1,2) [OF assms] by (simp_all only: tiled_cong [of "nodes s'" "nodes s"])

lemma store_insert:
  assumes "store pub role B s" "role i = InHand"
  defines "role' \<equiv> role(i := InTree)"
  shows "\<exists>s1. tree_insert i s = Some s1 \<and> store pub role' B (heap_insert i s1) \<and> steady role s role' (heap_insert i s1) \<and>
    kept (with_role InTree role') s (heap_insert i s1)"
proof -
  note D = storeD [OF assms(1)]
  let ?T = "with_role InTree role" and ?U = "with_role Unused role"
  have T: "with_role InTree role' = insert i ?T" and sets: "with_role Unused role' = ?U" "with_role Batched role' = with_role Batched role"
    "{k. role' k \<noteq> Absent} = {k. role k \<noteq> Absent}"
    using assms(2) by (auto simp: role'_def)
  have live: "i \<in> live role"
    by (rule live_roles(2) [of role i, OF assms(2)])
  have "\<forall>j \<in> ?T. offset (nodes s j) \<noteq> offset (nodes s i)"
    using tiled_offset [OF D(3) _ live] assms(2) live_roles(1) by fastforce
  moreover have "i \<notin> ?T" "i \<noteq> NIL"
    using assms(2) store_live(3) [OF assms(1) live] by simp_all
  ultimately obtain s1 where s1: "tree_insert i s = Some s1" "wired (insert i ?T) ?T ?U s1" "kept (insert i ?T) s s1"
    using wired_tree_insert [OF D(2)] by blast
  have "i \<notin> ?T" "insert i ?T \<inter> ?U = {}"
    using assms(2) by auto
  note s2 = wired_heap_insert [OF s1(2) this]
  have kept: "kept (insert i ?T) s (heap_insert i s1)"
    by (rule kept_trans [OF s1(3) s2(2)]) simp_all
  have "tiled pub role' (nodes s)"
    unfolding role'_def using D(3) assms(2) live by (subst tiled_role) simp_all
  then have "store pub role' B (heap_insert i s1)"
    using D s2(1) kept_rest(1) [OF kept] by (simp add: store_def T sets kept_tiled [OF kept])
  moreover have "steady role s role' (heap_insert i s1)"
  proof (rule steady_trans)
    show "steady role s role (heap_insert i s1)"
      by (rule kept_steady [OF kept]) (use assms(2) in auto)
    show "steady role (heap_insert i s1) role' (heap_insert i s1)"
      unfolding role'_def by (rule steady_role) (simp_all add: assms(2))
  qed
  ultimately show ?thesis
    using s1(1) kept T by auto
qed

lemma store_heap_fix:
  assumes "store pub role B s" "role i = InTree"
  shows "store pub role B (heap_fix i s)" "steady role s role (heap_fix i s)" "kept (with_role InTree role) s (heap_fix i s)"
proof -
  note D = storeD [OF assms(1)]
  have "i \<in> with_role InTree role" "with_role InTree role \<inter> with_role Unused role = {}"
    using assms(2) by auto
  note mend = wired_heap_fix [OF D(2) this]
  show "kept (with_role InTree role) s (heap_fix i s)"
    by (rule mend(2))
  show "store pub role B (heap_fix i s)"
    using D mend(1) kept_rest(1) [OF mend(2)] by (simp add: store_def kept_tiled [OF mend(2)])
  show "steady role s role (heap_fix i s)"
    by (rule kept_steady [OF mend(2)]) auto
qed

end
