(* ===== verification/AllocCoalesce.thy ===== *)
theory AllocCoalesce
  imports AllocStore
begin

text \<open>
  The batch of freed regions is sorted and joined with the free regions; \<open>decommits\<close> records the calls
  that hand its pages back to the system.  \<open>None\<close> is a loop that does not end or an access outside the batch.
\<close>

section \<open>The operations\<close>

text \<open>\<open>cascade\<close>: a run absorbs the next region of the batch or the free region at its end.\<close>

definition cascade :: "nat \<Rightarrow> nat \<Rightarrow> space \<Rightarrow> (bool \<times> nat \<times> space) option" where
  "cascade run i s = (
     let stop = node_end (nodes s run)
     in if i < length (batch_list s) \<and> stop = offset (nodes s (batch_list s ! i))
        then let j = batch_list s ! i in Some (True, i + 1, put_node j (absorb run j s))
        else do {
          j \<leftarrow> treap_next (nodes s) (treap_root s) stop;
          if j \<noteq> NIL \<and> stop = offset (nodes s j)
          then do {
            s \<leftarrow> tree_erase j (heap_erase j (absorb run j s));
            Some (True, i, put_node j s)
          }
          else Some (False, i, s)
        })"

partial_function (option) cascade_loop :: "nat \<Rightarrow> nat \<Rightarrow> space \<Rightarrow> (nat \<times> space) option" where
  "cascade_loop run i s = do {
     (more, i, s) \<leftarrow> cascade run i s;
     if more then cascade_loop run i s else Some (i, s)
   }"

declare cascade_loop.simps [code]

text \<open>An iteration of the loop of \<open>coalesce\<close>: the next region of the batch joins the free region before
  it, or starts a run of its own; the run grows, goes back to the system and into the free regions.\<close>

definition decommit :: "nat \<Rightarrow> space \<Rightarrow> space" where
  "decommit run s = s\<lparr>decommits := decommits s @ [(offset (nodes s run), npages (nodes s run))],
     total := sub32 (total s) (npages (nodes s run))\<rparr>"

definition start_run :: "nat \<Rightarrow> space \<Rightarrow> (nat \<times> bool \<times> space) option" where
  "start_run run s = do {
     n \<leftarrow> treap_prev (nodes s) (treap_root s) (offset (nodes s run));
     if n \<noteq> NIL \<and> node_end (nodes s n) = offset (nodes s run)
     then Some (n, False, put_node run (absorb n run s))
     else Some (run, True, s)
   }"

definition coalesce_run :: "nat \<Rightarrow> space \<Rightarrow> (nat \<times> space) option" where
  "coalesce_run i s = (
     if i < length (batch_list s)
     then do {
       (run, fresh, s) \<leftarrow> start_run (batch_list s ! i) s;
       (i, s) \<leftarrow> cascade_loop run (i + 1) s;
       let s = decommit run s;
       s \<leftarrow> (if fresh then map_option (heap_insert run) (tree_insert run s) else Some (heap_fix run s));
       Some (i, s)
     }
     else None)"

partial_function (option) coalesce_loop :: "nat \<Rightarrow> space \<Rightarrow> space option" where
  "coalesce_loop i s = do {
     (i, s) \<leftarrow> coalesce_run i s;
     if i < length (batch_list s) then coalesce_loop i s else Some s
   }"

declare coalesce_loop.simps [code]

definition sort_batch :: "config \<Rightarrow> space \<Rightarrow> space" where
  "sort_batch cfg s = s\<lparr>batch_list := radix_sort (insertion_threshold cfg) (nodes s)
     (replicate (length (batch_list s)) NIL) (batch_list s)\<rparr>"

definition reset_batch :: "space \<Rightarrow> space" where
  "reset_batch s = s\<lparr>batch_list := [], batch_pages := 0, batch_min := NIL, batch_max := NIL\<rparr>"

definition coalesce :: "config \<Rightarrow> space \<Rightarrow> space option" where
  "coalesce cfg s = map_option reset_batch (coalesce_loop 0 (sort_batch cfg s))"

section \<open>What coalescing does\<close>

lemma treap_neighbour:
  assumes "store pub role B s"
  shows "\<exists>p. treap_next (nodes s) (treap_root s) key = Some p \<and> (p \<noteq> NIL \<longrightarrow> role p = InTree \<and> key \<le> offset (nodes s p))"
    "\<exists>p. treap_prev (nodes s) (treap_root s) key = Some p \<and> (p \<noteq> NIL \<longrightarrow> role p = InTree \<and> offset (nodes s p) < key)"
proof -
  obtain t where t: "treap_at (nodes s) (treap_root s) t" "by_offset (nodes s) t" "set_tree t = with_role InTree role"
    using storeD(2) [OF assms] by (auto simp: wired_def is_treap_def)
  show "\<exists>p. treap_next (nodes s) (treap_root s) key = Some p \<and> (p \<noteq> NIL \<longrightarrow> role p = InTree \<and> key \<le> offset (nodes s p))"
    using treap_next_spec [OF t(1,2), of key] t(3) by (auto split: if_splits)
  show "\<exists>p. treap_prev (nodes s) (treap_root s) key = Some p \<and> (p \<noteq> NIL \<longrightarrow> role p = InTree \<and> offset (nodes s p) < key)"
    using treap_prev_spec [OF t(1,2), of key] t(3) by (auto split: if_splits)
qed

text \<open>The state of a run: its pages and those still in the batch are never lost.\<close>

definition run_step :: "nat \<Rightarrow> nat \<Rightarrow> (nat \<Rightarrow> role) \<Rightarrow> space \<Rightarrow> (nat \<Rightarrow> role) \<Rightarrow> nat \<Rightarrow> space \<Rightarrow> bool" where
  "run_step pub run role s role' i' s' \<longleftrightarrow>
     store pub role' (drop i' (batch_list s')) s' \<and> steady role s role' s' \<and> decommits s' = decommits s \<and>
     role' run = role run \<and> with_role InHand role' = with_role InHand role \<and>
     region role (nodes s) run \<union> covered {Batched} role (nodes s) \<subseteq> region role' (nodes s') run \<union> covered {Batched} role' (nodes s')"

lemma run_step_trans: "run_step pub run role s role' i' s' \<Longrightarrow> run_step pub run role' s' role'' i'' s'' \<Longrightarrow> run_step pub run role s role'' i'' s''"
  unfolding run_step_def by (auto intro: steady_trans)

lemma live_drop:
  assumes "finite (live role)" "j \<in> live role"
  shows "card (live (role(j := Unused))) < card (live role)"
proof -
  have "live (role(j := Unused)) = live role - {j}"
    by simp
  then show ?thesis
    using card_Diff1_less [OF assms] by (simp only:)
qed

lemma node_end_neq: "store pub role B s \<Longrightarrow> i \<in> live role \<Longrightarrow> role i \<noteq> Slabbed \<Longrightarrow> node_end (nodes s i) \<noteq> offset (nodes s i)"
  using store_end by fastforce

lemma cascade_spec:
  assumes "store pub role (drop i (batch_list s)) s" "run \<in> live role" "role run \<in> {InHand, InTree}"
  shows "\<exists>more i' s' role'. cascade run i s = Some (more, i', s') \<and> i \<le> i' \<and> run_step pub run role s role' i' s' \<and>
    (more \<longrightarrow> card (live role') < card (live role))"
proof -
  define stop where "stop = node_end (nodes s run)"
  have run: "role run \<noteq> Slabbed"
    using assms(3) by auto
  note neq = node_end_neq [OF assms(1,2) run]
  note finite = store_live(1) [OF assms(1)]
  consider (batch) "i < length (batch_list s)" "stop = offset (nodes s (batch_list s ! i))"
    | (free) "\<not> (i < length (batch_list s) \<and> stop = offset (nodes s (batch_list s ! i)))"
    by blast
  then show ?thesis
  proof cases
    case batch
    define j where "j = batch_list s ! i"
    have "drop i (batch_list s) = j # drop (i + 1) (batch_list s)"
      using batch(1) by (simp add: j_def Cons_nth_drop_Suc)
    note taken = store_take_batched [OF assms(1) [unfolded this]]
    define role1 role2 s1 where "role1 = role(j := InHand)" and "role2 = role(j := Unused)" and "s1 = put_node j (absorb run j s)"
    have j: "run \<noteq> j" "j \<in> live role"
      using taken(1) assms(3) live_roles(3) by auto
    have held: "role1 j = InHand" "run \<in> live role1" "role1 run \<in> {InHand, InTree}" "node_end (nodes s run) = offset (nodes s j)"
      using assms(2,3) j(1) batch(2) by (auto simp: stop_def j_def role1_def)
    have role2: "role1(j := Unused) = role2"
      by (simp add: role1_def role2_def)
    note absorbed = absorb_held [OF taken(2) [folded role1_def] held(1,2) j(1) held(3,4), folded s1_def, unfolded role2]
    have "steady role s role1 s"
      unfolding role1_def using taken(1) by (intro steady_role) simp_all
    then have steady: "steady role s role2 s1"
      using absorbed(2) by (rule steady_trans)
    have cover: "covered {Batched} role (nodes s) = covered {Batched} role1 (nodes s) \<union> region role (nodes s) j"
      "region role1 (nodes s) k = region role (nodes s) k" for k
      unfolding role1_def using covered_role [of role j InHand] taken(1) by simp_all
    have "region role (nodes s) run \<union> covered {Batched} role (nodes s) \<subseteq> region role2 (nodes s1) run \<union> covered {Batched} role2 (nodes s1)"
      unfolding absorbed(4,5) cover by blast
    moreover have "with_role InHand role2 = with_role InHand role" "role2 run = role run" "batch_list s1 = batch_list s"
      using taken(1) j(1) by (auto simp: role2_def s1_def)
    ultimately have "run_step pub run role s role2 (i + 1) s1"
      using absorbed(1,3) steady by (simp add: run_step_def)
    moreover have "cascade run i s = Some (True, i + 1, s1)"
      using batch by (simp add: cascade_def Let_def stop_def j_def s1_def)
    ultimately show ?thesis
      using live_drop [OF finite j(2)] by (intro exI [of _ True] exI [of _ "i + 1"] exI [of _ s1] exI [of _ role2]) (simp add: role2_def)
  next
    case free
    obtain j where j: "treap_next (nodes s) (treap_root s) stop = Some j" "j \<noteq> NIL \<longrightarrow> role j = InTree"
      using treap_neighbour(1) [OF assms(1)] by blast
    show ?thesis
    proof (cases "j \<noteq> NIL \<and> stop = offset (nodes s j)")
      case True
      then have "run \<noteq> j" "role j = InTree" and at: "node_end (nodes s run) = offset (nodes s j)"
        using neq j(2) by (auto simp: stop_def)
      note inTree = this
      obtain s1 where s1: "tree_erase j (heap_erase j (absorb run j s)) = Some s1"
        "store pub (role(j := Unused)) (drop i (batch_list s)) (put_node j s1)"
        "steady role s (role(j := Unused)) (put_node j s1)" "decommits s1 = decommits s"
        "region (role(j := Unused)) (nodes (put_node j s1)) run = region role (nodes s) run \<union> region role (nodes s) j"
        "covered {Batched} (role(j := Unused)) (nodes (put_node j s1)) = covered {Batched} role (nodes s)"
        using absorb_free [OF assms(1) inTree(2) assms(2) inTree(1) assms(3) at] by blast
      have "with_role InHand (role(j := Unused)) = with_role InHand role"
        using inTree(2) by auto
      moreover have "batch_list s1 = batch_list s"
        using s1(3) by (simp add: steady_def)
      ultimately have "run_step pub run role s (role(j := Unused)) i (put_node j s1)"
        using s1(2-6) inTree(1) unfolding run_step_def by (auto simp del: put_node_simps(1))
      moreover have "cascade run i s = Some (True, i, put_node j s1)"
        using free True j(1) s1(1) by (simp add: cascade_def Let_def stop_def [symmetric])
      ultimately show ?thesis
        using live_drop [OF finite live_roles(1) [of role j, OF inTree(2)]]
        by (intro exI [of _ True] exI [of _ i] exI [of _ "put_node j s1"] exI [of _ "role(j := Unused)"]) simp
    next
      case False
      then have "cascade run i s = Some (False, i, s)"
        using free j(1) by (auto simp: cascade_def Let_def stop_def [symmetric])
      moreover have "run_step pub run role s role i s"
        using assms(1) by (simp add: run_step_def)
      ultimately show ?thesis
        by blast
    qed
  qed
qed

lemma cascade_loop_spec:
  assumes "store pub role (drop i (batch_list s)) s" "run \<in> live role" "role run \<in> {InHand, InTree}"
  shows "\<exists>i' s' role'. cascade_loop run i s = Some (i', s') \<and> i \<le> i' \<and> run_step pub run role s role' i' s'"
  using assms
proof (induction "card (live role)" arbitrary: role i s rule: less_induct)
  case less
  obtain more i1 s1 role1 where step: "cascade run i s = Some (more, i1, s1)" "i \<le> i1" "run_step pub run role s role1 i1 s1"
    "more \<longrightarrow> card (live role1) < card (live role)"
    using cascade_spec [OF less.prems] by blast
  show ?case
  proof (cases more)
    case True
    have "store pub role1 (drop i1 (batch_list s1)) s1" "role1 run = role run"
      using step(3) by (simp_all add: run_step_def)
    then obtain i2 s2 role2 where "cascade_loop run i1 s1 = Some (i2, s2)" "i1 \<le> i2" "run_step pub run role1 s1 role2 i2 s2"
      using less.hyps [of role1 i1 s1] step(4) True less.prems(3) live_roles(1,2) [of role1 run] by auto
    then show ?thesis
      using step(1,2) True run_step_trans [OF step(3)] by (subst cascade_loop.simps) (auto intro: order_trans)
  next
    case False
    then show ?thesis
      using step by (subst cascade_loop.simps) auto
  qed
qed

definition dec_pages :: "(nat \<times> nat) list \<Rightarrow> nat set" where
  "dec_pages D = (\<Union>(off, n) \<in> set D. {off..<off + n})"

lemma dec_pages_simps [simp]:
  "dec_pages [] = {}" "dec_pages (D @ E) = dec_pages D \<union> dec_pages E" "dec_pages [(off, n)] = {off..<off + n}"
  by (auto simp: dec_pages_def)

lemma region_covered: "role i \<in> R \<Longrightarrow> region role ns i \<subseteq> covered R role ns"
  by (auto simp: covered_def)

lemma start_run_spec:
  assumes "store pub role (j # B) s" "with_role InHand role = {}"
  shows "\<exists>run fresh s' role'. start_run j s = Some (run, fresh, s') \<and> store pub role' B s' \<and> steady role s role' s' \<and>
    decommits s' = decommits s \<and> role' run = (if fresh then InHand else InTree) \<and>
    with_role InHand role' = (if fresh then {run} else {}) \<and>
    covered {Batched} role (nodes s) \<subseteq> region role' (nodes s') run \<union> covered {Batched} role' (nodes s')"
proof -
  note taken = store_take_batched [OF assms(1)]
  define role1 where "role1 = role(j := InHand)"
  have role1: "role1 j = InHand" "with_role InHand role1 = {j}" "steady role s role1 s"
    using assms(2) taken(1) steady_role [of role j InHand s] by (auto simp: role1_def)
  have cover: "covered {Batched} role (nodes s) = covered {Batched} role1 (nodes s) \<union> region role (nodes s) j"
    "region role1 (nodes s) k = region role (nodes s) k" for k
    unfolding role1_def using covered_role [of role j InHand] taken(1) by simp_all
  obtain n where n: "treap_prev (nodes s) (treap_root s) (offset (nodes s j)) = Some n"
    "n \<noteq> NIL \<longrightarrow> role n = InTree \<and> offset (nodes s n) < offset (nodes s j)"
    using treap_neighbour(2) [OF assms(1)] by blast
  show ?thesis
  proof (cases "n \<noteq> NIL \<and> node_end (nodes s n) = offset (nodes s j)")
    case True
    then have inTree: "role n = InTree" "n \<noteq> j"
      using n(2) taken(1) by auto
    define role2 s1 where "role2 = role1(j := Unused)" and "s1 = put_node j (absorb n j s)"
    have held: "n \<in> live role1" "role1 n \<in> {InHand, InTree}" "node_end (nodes s n) = offset (nodes s j)"
      using inTree True live_roles(1) [of role1 n] by (auto simp: role1_def)
    note absorbed = absorb_held [OF taken(2) [folded role1_def] role1(1) held(1) inTree(2) held(2,3), folded s1_def role2_def]
    have "covered {Batched} role (nodes s) \<subseteq> region role2 (nodes s1) n \<union> covered {Batched} role2 (nodes s1)"
      unfolding absorbed(4,5) cover by blast
    moreover have "with_role InHand role2 = with_role InHand role1 - {j}"
      by (auto simp: role2_def)
    then have "with_role InHand role2 = {}"
      by (simp only: role1(2)) simp
    moreover have "role2 n = InTree"
      using inTree by (simp add: role2_def role1_def)
    moreover have "start_run j s = Some (n, False, s1)"
      using n(1) True by (simp add: start_run_def s1_def)
    ultimately show ?thesis
      using absorbed(1,3) steady_trans [OF role1(3) absorbed(2)]
      by (intro exI [of _ n] exI [of _ False] exI [of _ s1] exI [of _ role2]) (simp only: simp_thms if_False)
  next
    case False
    then have "start_run j s = Some (j, True, s)"
      using n(1) by (auto simp: start_run_def)
    moreover have "covered {Batched} role (nodes s) \<subseteq> region role1 (nodes s) j \<union> covered {Batched} role1 (nodes s)"
      unfolding cover by blast
    ultimately show ?thesis
      using taken(2) role1 unfolding role1_def [symmetric]
      by (intro exI [of _ j] exI [of _ True] exI [of _ s] exI [of _ role1]) simp
  qed
qed

text \<open>A whole iteration, and the loop.\<close>

definition coalesced :: "nat \<Rightarrow> (nat \<Rightarrow> role) \<Rightarrow> space \<Rightarrow> (nat \<Rightarrow> role) \<Rightarrow> nat \<Rightarrow> space \<Rightarrow> bool" where
  "coalesced pub role s role' i' s' \<longleftrightarrow>
     store pub role' (drop i' (batch_list s')) s' \<and> steady role s role' s' \<and> with_role InHand role' = {} \<and>
     (\<exists>D. decommits s' = decommits s @ D \<and> dec_pages D \<subseteq> covered paged role (nodes s) \<and>
       covered {Batched} role (nodes s) \<subseteq> dec_pages D \<union> covered {Batched} role' (nodes s'))"

lemma coalescedD:
  assumes "coalesced pub role s role' i' s'"
  shows "store pub role' (drop i' (batch_list s')) s'" "steady role s role' s'" "with_role InHand role' = {}" "batch_list s' = batch_list s"
  using assms unfolding coalesced_def steady_def by blast+

lemma coalesced_trans:
  assumes "coalesced pub role s role' i' s'" "coalesced pub role' s' role'' i'' s''"
  shows "coalesced pub role s role'' i'' s''"
proof -
  obtain D where D: "decommits s' = decommits s @ D" "dec_pages D \<subseteq> covered paged role (nodes s)"
    "covered {Batched} role (nodes s) \<subseteq> dec_pages D \<union> covered {Batched} role' (nodes s')"
    using assms(1) by (auto simp: coalesced_def)
  obtain E where E: "decommits s'' = decommits s' @ E" "dec_pages E \<subseteq> covered paged role' (nodes s')"
    "covered {Batched} role' (nodes s') \<subseteq> dec_pages E \<union> covered {Batched} role'' (nodes s'')"
    using assms(2) by (auto simp: coalesced_def)
  have steady: "steady role s role' s'" "steady role' s' role'' s''"
    using assms by (simp_all add: coalesced_def)
  have "covered paged role' (nodes s') = covered paged role (nodes s)"
    using steady(1) by (simp add: steady_def)
  then have "decommits s'' = decommits s @ (D @ E) \<and> dec_pages (D @ E) \<subseteq> covered paged role (nodes s) \<and>
      covered {Batched} role (nodes s) \<subseteq> dec_pages (D @ E) \<union> covered {Batched} role'' (nodes s'')"
    using D E by auto
  then show ?thesis
    using assms(2) steady_trans [OF steady] unfolding coalesced_def by blast
qed

lemma covered_run_end:
  assumes "role run = InHand"
  shows "covered {Batched} (role(run := InTree)) ns = covered {Batched} role ns"
  using assms unfolding covered_def by (intro SUP_cong) (auto simp: region_def extent_def)

lemma coalesce_run_spec:
  assumes "store pub role (drop i (batch_list s)) s" "with_role InHand role = {}" "i < length (batch_list s)"
  shows "\<exists>i' s' role'. coalesce_run i s = Some (i', s') \<and> i < i' \<and> coalesced pub role s role' i' s'"
proof -
  define j where "j = batch_list s ! i"
  have "drop i (batch_list s) = j # drop (i + 1) (batch_list s)"
    using assms(3) by (simp add: j_def Cons_nth_drop_Suc)
  from start_run_spec [OF assms(1) [unfolded this] assms(2)] obtain run fresh s1 role1 where
    start: "start_run j s = Some (run, fresh, s1)" "store pub role1 (drop (i + 1) (batch_list s)) s1" "steady role s role1 s1"
      "decommits s1 = decommits s" "role1 run = (if fresh then InHand else InTree)" "with_role InHand role1 = (if fresh then {run} else {})"
      "covered {Batched} role (nodes s) \<subseteq> region role1 (nodes s1) run \<union> covered {Batched} role1 (nodes s1)"
    by blast
  have "batch_list s1 = batch_list s"
    using start(3) by (simp add: steady_def)
  then have "store pub role1 (drop (i + 1) (batch_list s1)) s1" "run \<in> live role1" "role1 run \<in> {InHand, InTree}"
    using start(2,5) by (simp_all add: live_def)
  from cascade_loop_spec [OF this] obtain i2 s2 role2 where
    loop: "cascade_loop run (i + 1) s1 = Some (i2, s2)" "i + 1 \<le> i2" "run_step pub run role1 s1 role2 i2 s2"
    by blast
  have step: "store pub role2 (drop i2 (batch_list s2)) s2" "steady role1 s1 role2 s2" "decommits s2 = decommits s1"
    "role2 run = role1 run" "with_role InHand role2 = with_role InHand role1"
    "covered {Batched} role (nodes s) \<subseteq> region role2 (nodes s2) run \<union> covered {Batched} role2 (nodes s2)"
    using loop(3) start(7) unfolding run_step_def by blast+
  define s3 where "s3 = decommit run s2"
  have s3: "nodes s3 = nodes s2" "batch_list s3 = batch_list s2" "store pub role2 (drop i2 (batch_list s3)) s3" "steady role2 s2 role2 s3"
    using step(1) by (simp_all add: s3_def decommit_def steady_def)
  have steady: "steady role s role2 s3"
    by (rule steady_trans [OF start(3) steady_trans [OF step(2) s3(4)]])
  have region: "region role2 (nodes s2) run = {offset (nodes s2 run)..<offset (nodes s2 run) + npages (nodes s2 run)}"
    using step(4) start(5) by (simp add: region_def extent_def)
  have dec: "decommits s3 = decommits s @ [(offset (nodes s2 run), npages (nodes s2 run))]"
    using start(4) step(3) by (simp add: s3_def decommit_def)
  have "region role2 (nodes s2) run \<subseteq> covered paged role2 (nodes s3)"
    using region_covered [of role2 run paged] step(4) start(5) by (simp add: s3(1))
  then have inside: "region role2 (nodes s2) run \<subseteq> covered paged role (nodes s)"
    using steady by (simp add: steady_def)
  have finish: "coalesced pub role s role3 i2 s4"
    if "store pub role3 (drop i2 (batch_list s4)) s4" "steady role2 s3 role3 s4" "with_role InHand role3 = {}"
      "decommits s4 = decommits s3" "covered {Batched} role3 (nodes s4) = covered {Batched} role2 (nodes s3)" for role3 s4
    using that inside step(6) steady_trans [OF steady that(2)] dec unfolding coalesced_def by (simp add: region s3(1))
  show ?thesis
  proof (cases fresh)
    case True
    then have hand: "role2 run = InHand" "with_role InHand role2 = {run}"
      using start(5,6) step(4,5) by simp_all
    define role3 where "role3 = role2(run := InTree)"
    from store_insert [OF s3(3) hand(1)] obtain s4 where s4: "tree_insert run s3 = Some s4"
      "store pub role3 (drop i2 (batch_list s3)) (heap_insert run s4)" "steady role2 s3 role3 (heap_insert run s4)"
      "kept (with_role InTree role3) s3 (heap_insert run s4)"
      unfolding role3_def by blast
    have "with_role InHand role3 = {}"
      using hand(2) by (auto simp: role3_def)
    moreover have "covered {Batched} role3 (nodes (heap_insert run s4)) = covered {Batched} role2 (nodes s3)"
      unfolding kept_tiled [OF s4(4)] role3_def by (rule covered_run_end [of role2 run, OF hand(1)])
    ultimately have "coalesced pub role s role3 i2 (heap_insert run s4)"
      using s4 kept_rest(14,3) [OF s4(4)] by (intro finish) simp_all
    moreover have "coalesce_run i s = Some (i2, heap_insert run s4)"
      using assms(3) start(1) loop(1) s4(1) True by (simp add: coalesce_run_def Let_def j_def s3_def)
    ultimately show ?thesis
      using loop(2) by (intro exI [of _ i2] exI [of _ "heap_insert run s4"] exI [of _ role3]) simp
  next
    case False
    then have tree: "role2 run = InTree" "with_role InHand role2 = {}"
      using start(5,6) step(4,5) by simp_all
    note mend = store_heap_fix [OF s3(3) tree(1)]
    have "coalesced pub role s role2 i2 (heap_fix run s3)"
      using mend tree(2) kept_rest(14,3) [OF mend(3)] kept_tiled [OF mend(3)] by (intro finish) simp_all
    moreover have "coalesce_run i s = Some (i2, heap_fix run s3)"
      using assms(3) start(1) loop(1) False by (simp add: coalesce_run_def Let_def j_def s3_def)
    ultimately show ?thesis
      using loop(2) by (intro exI [of _ i2] exI [of _ "heap_fix run s3"] exI [of _ role2]) simp
  qed
qed

lemma coalesce_loop_spec:
  assumes "store pub role (drop i (batch_list s)) s" "with_role InHand role = {}" "i < length (batch_list s)"
  shows "\<exists>s' role'. coalesce_loop i s = Some s' \<and> coalesced pub role s role' (length (batch_list s)) s'"
  using assms
proof (induction "length (batch_list s) - i" arbitrary: role i s rule: less_induct)
  case less
  obtain i1 s1 role1 where step: "coalesce_run i s = Some (i1, s1)" "i < i1" "coalesced pub role s role1 i1 s1"
    using coalesce_run_spec [OF less.prems] by blast
  note same = coalescedD(4,1,3) [OF step(3)]
  show ?case
  proof (cases "i1 < length (batch_list s1)")
    case True
    then have "length (batch_list s1) - i1 < length (batch_list s) - i"
      using step(2) same(1) less.prems(3) by simp
    from less.hyps [OF this same(2,3) True] obtain s2 role2 where
      "coalesce_loop i1 s1 = Some s2" "coalesced pub role1 s1 role2 (length (batch_list s1)) s2"
      by blast
    then show ?thesis
      using step(1) True coalesced_trans [OF step(3)] same(1) by (subst coalesce_loop.simps) auto
  next
    case False
    then have "drop i1 (batch_list s1) = drop (length (batch_list s)) (batch_list s1)"
      using same(1) by simp
    then have "coalesced pub role s role1 (length (batch_list s)) s1"
      using step(3) by (simp add: coalesced_def)
    then show ?thesis
      using step(1) False by (subst coalesce_loop.simps) auto
  qed
qed

lemma store_permute: "store pub role B s \<Longrightarrow> mset B' = mset B \<Longrightarrow> store pub role B' s"
  unfolding store_def using mset_eq_imp_distinct_iff [of B' B] mset_eq_setD [of B' B] by simp

lemma sort_batch_store:
  assumes "store pub role (batch_list s) s"
  shows "store pub role (batch_list (sort_batch cfg s)) (sort_batch cfg s)" "length (batch_list (sort_batch cfg s)) = length (batch_list s)"
    "nodes (sort_batch cfg s) = nodes s" "user_part (sort_batch cfg s) = user_part s" "decommits (sort_batch cfg s) = decommits s"
proof -
  have "\<forall>i \<in> set (batch_list s). offset (nodes s i) < 2 ^ 32"
  proof
    fix i assume "i \<in> set (batch_list s)"
    then have "role i = Batched"
      using storeD(5) [OF assms] by auto
    then show "offset (nodes s i) < 2 ^ 32"
      using store_end(2-4) [OF assms live_roles(3) [of role i]] NIL_less by fastforce
  qed
  then have sorted: "batch_list (sort_batch cfg s) = sort_key (\<lambda>i. offset (nodes s i)) (batch_list s)"
    unfolding sort_batch_def by (simp add: radix_sort_correct)
  have "store pub role (sort_key (\<lambda>i. offset (nodes s i)) (batch_list s)) s"
    by (rule store_permute [OF assms]) simp
  then show "store pub role (batch_list (sort_batch cfg s)) (sort_batch cfg s)"
    unfolding sorted by (simp add: sort_batch_def)
  show "length (batch_list (sort_batch cfg s)) = length (batch_list s)"
    by (simp add: sorted)
qed (simp_all add: sort_batch_def user_part_def)

lemma reset_batch_fields:
  "nodes (reset_batch s) = nodes s" "user_part (reset_batch s) = user_part s" "batch_list (reset_batch s) = []"
  "batch_pages (reset_batch s) = 0" "decommits (reset_batch s) = decommits s" "store pub role B (reset_batch s) = store pub role B s"
  by (simp_all add: reset_batch_def user_part_def)

lemma covered_none: "with_role r role = {} \<Longrightarrow> covered {r} role ns = {}" "covered (R \<union> R') role ns = covered R role ns \<union> covered R' role ns"
  by (auto simp: covered_def)

lemma paged_split: "covered paged role ns = covered {InTree} role ns \<union> covered {Batched} role ns \<union> covered {InHand} role ns"
  by (auto simp: covered_def)

lemma coalesce_correct:
  assumes "store pub role (batch_list s) s" "with_role InHand role = {}" "batch_list s \<noteq> []"
  shows "\<exists>s' role' D. coalesce cfg s = Some s' \<and> store pub role' [] s' \<and> batch_list s' = [] \<and> batch_pages s' = 0 \<and>
    with_role InHand role' = {} \<and> user_part s' = user_part s \<and>
    covered {InTree} role' (nodes s') = covered {InTree} role (nodes s) \<union> covered {Batched} role (nodes s) \<and>
    (\<forall>k. role' k = Slabbed \<longleftrightarrow> role k = Slabbed) \<and> (\<forall>k. role k = Slabbed \<longrightarrow> nodes s' k = nodes s k) \<and>
    with_role Spare role' = with_role Spare role \<and> decommits s' = decommits s @ D \<and> covered {Batched} role (nodes s) \<subseteq> dec_pages D \<and> dec_pages D \<subseteq> covered {InTree} role' (nodes s')"
proof -
  note sorted = sort_batch_store [OF assms(1), of cfg]
  obtain s1 role1 where loop: "coalesce_loop 0 (sort_batch cfg s) = Some s1" "coalesced pub role (sort_batch cfg s) role1 (length (batch_list s)) s1"
    using coalesce_loop_spec [of pub role 0 "sort_batch cfg s"] sorted(1,2) assms(2,3) by auto
  note steady = coalescedD(2) [OF loop(2)] and hand = coalescedD(3) [OF loop(2)]
  have store: "store pub role1 [] s1"
    using coalescedD(1) [OF loop(2)] coalescedD(4) [OF loop(2)] sorted(2) by simp
  obtain D where D: "decommits s1 = decommits s @ D" "dec_pages D \<subseteq> covered paged role (nodes s)"
    "covered {Batched} role (nodes s) \<subseteq> dec_pages D \<union> covered {Batched} role1 (nodes s1)"
    using loop(2) sorted(3,5) by (auto simp: coalesced_def)
  have "with_role Batched role1 = {}"
    using storeD(5) [OF store] by simp
  note none = covered_none(1) [OF this] covered_none(1) [OF hand] covered_none(1) [OF assms(2)]
  have "covered paged role1 (nodes s1) = covered paged role (nodes s)"
    using steady sorted(3) by (simp add: steady_def)
  then have cover: "covered {InTree} role1 (nodes s1) = covered {InTree} role (nodes s) \<union> covered {Batched} role (nodes s)"
    unfolding paged_split none by simp
  have "coalesce cfg s = Some (reset_batch s1)"
    by (simp add: coalesce_def loop(1))
  moreover have "dec_pages D \<subseteq> covered {InTree} role1 (nodes s1)" "covered {Batched} role (nodes s) \<subseteq> dec_pages D"
    using D(2,3) unfolding cover paged_split none by simp_all
  ultimately show ?thesis
    using store hand steady sorted(3,4) cover D(1)
    by (intro exI [of _ "reset_batch s1"] exI [of _ role1] exI [of _ D]) (simp add: reset_batch_fields steady_def)
qed

end
