(* ===== verification/AllocOrder.thy ===== *)
theory AllocOrder
  imports AllocCoalesce
begin

text \<open>
  The order of the size heap through a coalescing.  A free region that grows stays where it is in the heap until
  its run is complete; the removal of another free region in the meantime sifts in a heap that is out of order.
  As long as no run joins two free regions the order is kept.
\<close>

definition spans :: "(nat \<Rightarrow> node) \<Rightarrow> nat set \<Rightarrow> nat set" where
  "spans ns K = (\<Union>k \<in> K. {offset (ns k)..<offset (ns k) + npages (ns k)})"

abbreviation waiting :: "nat \<Rightarrow> space \<Rightarrow> nat set" where
  "waiting i s \<equiv> set (drop i (batch_list s))"

text \<open>No two free regions have nothing but waiting regions of the batch between them.\<close>

definition unbridged :: "nat \<Rightarrow> space \<Rightarrow> bool" where
  "unbridged i s \<longleftrightarrow> (\<forall>a \<in> heap_ids s. \<forall>b \<in> heap_ids s. offset (nodes s a) < offset (nodes s b) \<longrightarrow>
     \<not> {offset (nodes s a) + npages (nodes s a)..<offset (nodes s b)} \<subseteq> spans (nodes s) (waiting i s))"

definition sorted_from :: "nat \<Rightarrow> space \<Rightarrow> bool" where
  "sorted_from i s \<longleftrightarrow> sorted (map (\<lambda>k. offset (nodes s k)) (drop i (batch_list s)))"

text \<open>The order of the heap with another size for one node.\<close>

definition ordered_with :: "nat \<Rightarrow> nat \<Rightarrow> space \<Rightarrow> bool" where
  "ordered_with n k s \<longleftrightarrow> heap_ordered (s\<lparr>nodes := set_pages (nodes s) n k\<rparr>)"

definition calm :: "nat \<Rightarrow> space \<Rightarrow> nat \<Rightarrow> space \<Rightarrow> bool" where
  "calm i s i' s' \<longleftrightarrow> i \<le> i' \<and> batch_list s' = batch_list s \<and> heap_ids s' \<subseteq> heap_ids s \<and>
     (\<forall>k \<in> heap_ids s' \<union> waiting i' s'. offset (nodes s' k) = offset (nodes s k) \<and> npages (nodes s' k) = npages (nodes s k))"

lemma waiting_mono: "i \<le> i' \<Longrightarrow> batch_list s' = batch_list s \<Longrightarrow> waiting i' s' \<subseteq> waiting i s"
  by (simp add: set_drop_subset_set_drop)

lemma spans_mono: "K \<subseteq> L \<Longrightarrow> spans ns K \<subseteq> spans ns L"
  by (auto simp: spans_def)

lemma spans_cong: "(\<And>k. k \<in> K \<Longrightarrow> offset (ns' k) = offset (ns k) \<and> npages (ns' k) = npages (ns k)) \<Longrightarrow> spans ns' K = spans ns K"
  by (simp add: spans_def)

lemma calm_refl [simp]: "calm i s i s"
  by (simp add: calm_def)

lemma calm_trans:
  assumes "calm i s i' s'" "calm i' s' i'' s''"
  shows "calm i s i'' s''"
proof -
  have "heap_ids s'' \<union> waiting i'' s'' \<subseteq> heap_ids s' \<union> waiting i' s'"
    using assms(2) waiting_mono [of i' i'' s'' s'] by (auto simp: calm_def)
  then show ?thesis
    using assms unfolding calm_def by (metis le_trans subset_trans subsetD)
qed

lemma calm_unbridged:
  assumes "calm i s i' s'" "unbridged i s"
  shows "unbridged i' s'"
  unfolding unbridged_def
proof (intro ballI impI notI)
  fix a b assume ab: "a \<in> heap_ids s'" "b \<in> heap_ids s'" "offset (nodes s' a) < offset (nodes s' b)"
    "{offset (nodes s' a) + npages (nodes s' a)..<offset (nodes s' b)} \<subseteq> spans (nodes s') (waiting i' s')"
  have same: "offset (nodes s' k) = offset (nodes s k) \<and> npages (nodes s' k) = npages (nodes s k)" if "k \<in> heap_ids s' \<union> waiting i' s'" for k
    using assms(1) that unfolding calm_def by blast
  have "spans (nodes s') (waiting i' s') = spans (nodes s) (waiting i' s')"
    by (rule spans_cong) (use same in blast)
  also have "\<dots> \<subseteq> spans (nodes s) (waiting i s)"
    using assms(1) waiting_mono by (intro spans_mono) (simp add: calm_def)
  finally have "{offset (nodes s a) + npages (nodes s a)..<offset (nodes s b)} \<subseteq> spans (nodes s) (waiting i s)"
    using ab(4) same [of a] same [of b] ab(1,2) by simp
  moreover have "a \<in> heap_ids s" "b \<in> heap_ids s" "offset (nodes s a) < offset (nodes s b)"
    using ab(1-3) assms(1) same [of a] same [of b] by (auto simp: calm_def)
  ultimately show False
    using assms(2) unfolding unbridged_def by blast
qed

lemma sorted_from_later:
  assumes "sorted_from i s" "i \<le> i'" "batch_list s' = batch_list s" "\<And>k. k \<in> waiting i' s' \<Longrightarrow> offset (nodes s' k) = offset (nodes s k)"
  shows "sorted_from i' s'"
proof -
  have "drop i' (batch_list s') = drop (i' - i) (drop i (batch_list s))"
    using assms(2,3) by simp
  then have "map (\<lambda>k. offset (nodes s k)) (drop i' (batch_list s')) = drop (i' - i) (map (\<lambda>k. offset (nodes s k)) (drop i (batch_list s)))"
    by (simp add: drop_map)
  moreover have "map (\<lambda>k. offset (nodes s' k)) (drop i' (batch_list s')) = map (\<lambda>k. offset (nodes s k)) (drop i' (batch_list s'))"
    by (rule map_cong) (simp_all add: assms(4))
  ultimately show ?thesis
    using assms(1) sorted_wrt_drop unfolding sorted_from_def by metis
qed

lemma calm_sorted: "calm i s i' s' \<Longrightarrow> sorted_from i s \<Longrightarrow> sorted_from i' s'"
  by (rule sorted_from_later) (auto simp: calm_def)

section \<open>Facts of the store\<close>

lemma store_ids:
  assumes "store pub role B s"
  shows "heap_ids s = with_role InTree role" "heap_linked s" "distinct B" "set B = with_role Batched role"
  using storeD(2,4,5) [OF assms] by (simp_all add: wired_def)

lemma store_neighbours:
  assumes "store pub role B s"
  shows "\<exists>p. treap_next (nodes s) (treap_root s) key = Some p \<and> (p = NIL \<longrightarrow> (\<forall>b \<in> heap_ids s. offset (nodes s b) < key)) \<and>
      (p \<noteq> NIL \<longrightarrow> p \<in> heap_ids s \<and> key \<le> offset (nodes s p) \<and> (\<forall>b \<in> heap_ids s. key \<le> offset (nodes s b) \<longrightarrow> offset (nodes s p) \<le> offset (nodes s b)))"
    "\<exists>p. treap_prev (nodes s) (treap_root s) key = Some p \<and> (p = NIL \<longrightarrow> (\<forall>b \<in> heap_ids s. key \<le> offset (nodes s b))) \<and>
      (p \<noteq> NIL \<longrightarrow> p \<in> heap_ids s \<and> offset (nodes s p) < key \<and> (\<forall>b \<in> heap_ids s. offset (nodes s b) < key \<longrightarrow> offset (nodes s b) \<le> offset (nodes s p)))"
proof -
  obtain t where t: "treap_at (nodes s) (treap_root s) t" "by_offset (nodes s) t" "set_tree t = with_role InTree role"
    using storeD(2) [OF assms] by (auto simp: wired_def is_treap_def)
  note t = t(1,2) t(3) [folded store_ids(1) [OF assms]]
  obtain p where p: "treap_next (nodes s) (treap_root s) key = Some p"
    "if p = NIL then \<forall>i \<in> heap_ids s. offset (nodes s i) < key
     else p \<in> heap_ids s \<and> key \<le> offset (nodes s p) \<and> (\<forall>i \<in> heap_ids s. key \<le> offset (nodes s i) \<longrightarrow> offset (nodes s p) \<le> offset (nodes s i))"
    using treap_next_spec [OF t(1,2), of key] unfolding t(3) by (elim exE conjE) (rule that)
  then show "\<exists>p. treap_next (nodes s) (treap_root s) key = Some p \<and> (p = NIL \<longrightarrow> (\<forall>b \<in> heap_ids s. offset (nodes s b) < key)) \<and>
      (p \<noteq> NIL \<longrightarrow> p \<in> heap_ids s \<and> key \<le> offset (nodes s p) \<and> (\<forall>b \<in> heap_ids s. key \<le> offset (nodes s b) \<longrightarrow> offset (nodes s p) \<le> offset (nodes s b)))"
    by (intro exI [of _ p]) (cases "p = NIL"; simp)
  obtain q where q: "treap_prev (nodes s) (treap_root s) key = Some q"
    "if q = NIL then \<forall>i \<in> heap_ids s. key \<le> offset (nodes s i)
     else q \<in> heap_ids s \<and> offset (nodes s q) < key \<and> (\<forall>i \<in> heap_ids s. offset (nodes s i) < key \<longrightarrow> offset (nodes s i) \<le> offset (nodes s q))"
    using treap_prev_spec [OF t(1,2), of key] unfolding t(3) by (elim exE conjE) (rule that)
  then show "\<exists>p. treap_prev (nodes s) (treap_root s) key = Some p \<and> (p = NIL \<longrightarrow> (\<forall>b \<in> heap_ids s. key \<le> offset (nodes s b))) \<and>
      (p \<noteq> NIL \<longrightarrow> p \<in> heap_ids s \<and> offset (nodes s p) < key \<and> (\<forall>b \<in> heap_ids s. offset (nodes s b) < key \<longrightarrow> offset (nodes s b) \<le> offset (nodes s p)))"
    by (intro exI [of _ q]) (cases "q = NIL"; simp)
qed

lemma ordered_cong:
  assumes "heap_array s' = heap_array s" "heap_size s' = heap_size s" "\<And>k. k \<in> heap_ids s \<Longrightarrow> npages (nodes s' k) = npages (nodes s k)"
  shows "heap_ordered s' = heap_ordered s"
proof -
  have key: "key_at s' p = key_at s p" if "p < heap_size s" for p
    using assms(1,3) that by (simp add: heap_ids_def)
  have "key_at s' p \<le> key_at s' ((p - 1) div 2) \<longleftrightarrow> key_at s p \<le> key_at s ((p - 1) div 2)" if "0 < p" "p < heap_size s" for p
    using key [OF that(2)] key [of "(p - 1) div 2"] parent_less [OF that(1)] that(2) by simp
  then show ?thesis
    unfolding ordered_to_def assms(2) by blast
qed

lemma ordered_with_self: "ordered_with n (npages (nodes s n)) s = heap_ordered s"
  unfolding ordered_with_def by (rule ordered_cong) auto

lemma tree_erase_heap: "tree_erase i s = Some s' \<Longrightarrow> heap_array s' = heap_array s \<and> heap_size s' = heap_size s"
  by (auto simp: tree_erase_def)

lemma tree_insert_heap: "tree_insert i s = Some s' \<Longrightarrow> heap_array s' = heap_array s \<and> heap_size s' = heap_size s"
  by (auto simp: tree_insert_def)

lemma put_absorb_heap:
  "heap_array (put_node j (absorb i j s)) = heap_array s" "heap_size (put_node j (absorb i j s)) = heap_size s"
  "heap_ids (put_node j (absorb i j s)) = heap_ids s" "batch_list (put_node j (absorb i j s)) = batch_list s"
  "offset (nodes (put_node j (absorb i j s)) k) = offset (nodes s k)" "k \<noteq> i \<Longrightarrow> npages (nodes (put_node j (absorb i j s)) k) = npages (nodes s k)"
  by (simp_all add: put_node_def absorb_def heap_ids_def)

section \<open>The steps of a run\<close>

text \<open>A waiting region joins a region that is held or free.\<close>

lemma absorb_waiting:
  assumes "store pub role (j # drop i' (batch_list s)) s" "drop i (batch_list s) = j # drop i' (batch_list s)"
    "run \<in> live role" "role run \<in> {InHand, InTree}" "node_end (nodes s run) = offset (nodes s j)"
  defines "s' \<equiv> put_node j (absorb run j s)"
  shows "role run = InHand \<Longrightarrow> heap_ordered s' = heap_ordered s" "role run = InHand \<Longrightarrow> i \<le> i' \<Longrightarrow> calm i s i' s'"
    "ordered_with run k s' = ordered_with run k s" "unbridged i s \<Longrightarrow> unbridged i' s'"
    "i \<le> i' \<Longrightarrow> sorted_from i s \<Longrightarrow> sorted_from i' s'"
proof -
  note ids = store_ids [OF assms(1)]
  have roles: "role j = Batched" "run \<noteq> j" "role run \<noteq> Batched"
    using store_take_batched(1) [OF assms(1)] assms(4) by auto
  note heap = put_absorb_heap [where j = j and i = run and s = s, folded s'_def]
  have away: "k \<noteq> run" if "k \<in> waiting i' s" for k
    using that ids(4) roles(3) by auto
  have held: "k \<noteq> run" if "role run = InHand" "k \<in> heap_ids s" for k
    using that ids(1) by auto
  show "heap_ordered s' = heap_ordered s" if "role run = InHand"
    by (rule ordered_cong) (simp_all add: heap held [OF that])
  show "calm i s i' s'" if "role run = InHand" "i \<le> i'"
    unfolding calm_def using that held away by (auto simp: heap)
  show "ordered_with run k s' = ordered_with run k s"
    unfolding ordered_with_def by (rule ordered_cong) (use heap in auto)
  show "sorted_from i' s'" if "i \<le> i'" "sorted_from i s"
    by (rule sorted_from_later [OF that(2,1)]) (simp_all add: heap)
  show "unbridged i' s'" if un: "unbridged i s"
    unfolding unbridged_def
  proof (intro ballI impI notI)
    fix a b assume "a \<in> heap_ids s'" "b \<in> heap_ids s'" "offset (nodes s' a) < offset (nodes s' b)"
      and sub: "{offset (nodes s' a) + npages (nodes s' a)..<offset (nodes s' b)} \<subseteq> spans (nodes s') (waiting i' s')"
    then have ab: "a \<in> heap_ids s" "b \<in> heap_ids s" "offset (nodes s a) < offset (nodes s b)"
      by (simp_all add: heap)
    have rest: "spans (nodes s') (waiting i' s') = spans (nodes s) (waiting i' s)"
      unfolding heap(4) by (rule spans_cong) (use heap away in auto)
    have all: "spans (nodes s) (waiting i s) = {offset (nodes s j)..<offset (nodes s j) + npages (nodes s j)} \<union> spans (nodes s) (waiting i' s)"
      unfolding assms(2) by (simp add: spans_def)
    have "{offset (nodes s a) + npages (nodes s a)..<offset (nodes s b)} \<subseteq> spans (nodes s) (waiting i s)"
    proof (cases "a = run")
      case True
      note pages = absorb_pages(1,2) [OF assms(1,3) live_roles(3) [of role j, OF roles(1)] roles(2) _ _ assms(5)]
      have "role run \<noteq> Slabbed" "role j \<noteq> Slabbed"
        using assms(4) roles(1) by auto
      note pages = pages [OF this]
      have "npages (nodes s' run) = npages (nodes s run) + npages (nodes s j)"
        using pages(2) [of run] roles(2) by (simp add: s'_def)
      then have "{offset (nodes s j) + npages (nodes s j)..<offset (nodes s b)} \<subseteq> spans (nodes s) (waiting i' s)"
        using sub pages(1) unfolding True rest by (simp add: heap add.assoc [symmetric])
      moreover have "{offset (nodes s j)..<offset (nodes s b)} \<subseteq>
          {offset (nodes s j)..<offset (nodes s j) + npages (nodes s j)} \<union> {offset (nodes s j) + npages (nodes s j)..<offset (nodes s b)}"
        by auto
      ultimately show ?thesis
        unfolding True all pages(1) by blast
    next
      case False
      then show ?thesis
        using sub unfolding rest all by (simp add: heap) blast
    qed
    then show False
      using un ab unfolding unbridged_def by blast
  qed
qed

text \<open>A held region joins the free region behind it.\<close>

lemma absorb_free_order:
  assumes "store pub role B s" "role j = InTree" "role run = InHand" "heap_ordered s"
    "tree_erase j (heap_erase j (absorb run j s)) = Some s1"
  shows "heap_ordered (put_node j s1)" "heap_ids (put_node j s1) = heap_ids s - {j}" "batch_list (put_node j s1) = batch_list s"
    "offset (nodes (put_node j s1) k) = offset (nodes s k)" "k \<noteq> run \<Longrightarrow> npages (nodes (put_node j s1) k) = npages (nodes s k)"
proof -
  let ?T = "with_role InTree role" and ?U = "with_role Unused role" and ?a = "absorb run j s"
  have T: "?T \<inter> ?U = {}" "j \<in> ?T" "run \<notin> ?T"
    using assms(2,3) by auto
  note D = storeD [OF assms(1)]
  note ids = store_ids [OF assms(1)]
  note wired_a = wired_absorb [OF D(2), of run j]
  note erased = wired_heap_erase [OF wired_a T(2,1)]
  obtain s2 where s2: "tree_erase j (heap_erase j ?a) = Some s2" "kept ?T (heap_erase j ?a) s2" "wired (?T - {j}) (?T - {j}) ?U s2"
    using wired_tree_erase [OF erased(1) T(2)] by blast
  then have s1: "kept ?T (heap_erase j ?a) s1" "wired (?T - {j}) (?T - {j}) ?U s1"
    using assms(5) by simp_all
  have kept: "kept ?T ?a s1"
    by (rule kept_trans [OF erased(2) s1(1)]) auto
  have "heap_ordered ?a = heap_ordered s"
    by (rule ordered_cong) (use ids(1) T(3) in \<open>auto simp: absorb_def\<close>)
  moreover have "heap_linked ?a" "heap_ids ?a = ?T"
    using wired_a by (simp_all add: wired_def)
  ultimately have "heap_ordered (heap_erase j ?a)"
    using assms(4) T(2) by (intro heap_erase_ordered) simp_all
  moreover have "heap_ordered (put_node j s1) = heap_ordered (heap_erase j ?a)"
    using tree_erase_heap [OF assms(5)] kept_payload(2) [OF s1(1)] by (intro ordered_cong) (auto simp: put_node_def)
  ultimately show "heap_ordered (put_node j s1)"
    by simp
  have "heap_ids (put_node j s1) = heap_ids s1"
    by (simp add: put_node_def heap_ids_def)
  then show "heap_ids (put_node j s1) = heap_ids s - {j}"
    using s1(2) ids(1) by (simp add: wired_def)
  show "batch_list (put_node j s1) = batch_list s"
    using kept_rest(3) [OF kept] by simp
  show "offset (nodes (put_node j s1) k) = offset (nodes s k)"
    by (simp add: kept_payload(1) [OF kept] absorb_def)
  show "npages (nodes (put_node j s1) k) = npages (nodes s k)" if "k \<noteq> run"
    using that by (simp add: kept_payload(2) [OF kept] absorb_def)
qed

definition ended :: "nat \<Rightarrow> nat \<Rightarrow> space \<Rightarrow> bool" where
  "ended run i s \<longleftrightarrow> (i < length (batch_list s) \<longrightarrow> node_end (nodes s run) \<noteq> offset (nodes s (batch_list s ! i))) \<and>
     (\<forall>b \<in> heap_ids s. offset (nodes s b) \<noteq> node_end (nodes s run))"

lemma cascade_cases:
  assumes "store pub role (drop i (batch_list s)) s" "run \<in> live role" "role run \<in> {InHand, InTree}" "cascade run i s = Some (again, i', s')"
  obtains (batch) j where "drop i (batch_list s) = j # drop (i + 1) (batch_list s)" "node_end (nodes s run) = offset (nodes s j)"
      "again" "i' = i + 1" "s' = put_node j (absorb run j s)"
    | (free) j s1 where "role j = InTree" "node_end (nodes s run) = offset (nodes s j)" "j \<noteq> run" "again" "i' = i"
      "tree_erase j (heap_erase j (absorb run j s)) = Some s1" "s' = put_node j s1"
    | (stop) "\<not> again" "i' = i" "s' = s" "ended run i s"
proof -
  let ?stop = "node_end (nodes s run)"
  have "role run \<noteq> Slabbed"
    using assms(3) by auto
  note neq = node_end_neq [OF assms(1,2) this]
  note ids = store_ids [OF assms(1)]
  obtain p where p: "treap_next (nodes s) (treap_root s) ?stop = Some p" "p = NIL \<longrightarrow> (\<forall>b \<in> heap_ids s. offset (nodes s b) < ?stop)"
    "p \<noteq> NIL \<longrightarrow> p \<in> heap_ids s \<and> ?stop \<le> offset (nodes s p) \<and> (\<forall>b \<in> heap_ids s. ?stop \<le> offset (nodes s b) \<longrightarrow> offset (nodes s p) \<le> offset (nodes s b))"
    using store_neighbours(1) [OF assms(1), of ?stop] by blast
  show thesis
  proof (cases "i < length (batch_list s) \<and> ?stop = offset (nodes s (batch_list s ! i))")
    case True
    then have "cascade run i s = Some (True, i + 1, put_node (batch_list s ! i) (absorb run (batch_list s ! i) s))"
      by (simp add: cascade_def Let_def)
    then show thesis
      using True assms(4) by (intro batch [of "batch_list s ! i"]) (auto simp: Cons_nth_drop_Suc)
  next
    case waits: False
    show thesis
    proof (cases "p \<noteq> NIL \<and> ?stop = offset (nodes s p)")
      case True
      then have "cascade run i s = do { s1 \<leftarrow> tree_erase p (heap_erase p (absorb run p s)); Some (True, i, put_node p s1) }"
        using waits p(1) by (auto simp: cascade_def Let_def)
      then obtain s1 where "tree_erase p (heap_erase p (absorb run p s)) = Some s1" "again" "i' = i" "s' = put_node p s1"
        using assms(4) by (auto split: bind_splits)
      then show thesis
        using True p(3) ids(1) neq by (intro free [of p s1]) auto
    next
      case False
      then have "cascade run i s = Some (False, i, s)"
        using waits p(1) by (auto simp: cascade_def Let_def)
      moreover have "offset (nodes s b) \<noteq> ?stop" if b: "b \<in> heap_ids s" for b
      proof
        assume at: "offset (nodes s b) = ?stop"
        then have "p \<noteq> NIL"
          using p(2) b by auto
        then show False
          using p(3) False b at by force
      qed
      ultimately show thesis
        using assms(4) waits by (intro stop) (auto simp: ended_def)
    qed
  qed
qed

lemma cascade_hand:
  assumes "store pub role (drop i (batch_list s)) s" "run \<in> live role" "role run = InHand" "cascade run i s = Some (again, i', s')" "heap_ordered s"
  shows "heap_ordered s' \<and> calm i s i' s' \<and> offset (nodes s' run) = offset (nodes s run) \<and> (\<not> again \<longrightarrow> ended run i' s')"
proof -
  have "role run \<in> {InHand, InTree}"
    using assms(3) by simp
  note held = this
  from assms(1,2) held assms(4) show ?thesis
  proof (cases rule: cascade_cases)
    case (batch j)
    note step = absorb_waiting [OF assms(1) [unfolded batch(1)] batch(1) assms(2) held batch(2), folded batch(5)]
    show ?thesis
      using step(1,2) [OF assms(3)] assms(5) batch(3,4) put_absorb_heap(5) [where j = j and i = run and s = s and k = run, folded batch(5)] by simp
  next
    case (free j s1)
    note ids = store_ids [OF assms(1)]
    note step = absorb_free_order [OF assms(1) free(1) assms(3,5) free(6), folded free(7)]
    have "k \<noteq> run" if "k \<in> heap_ids s' \<union> waiting i s'" for k
      using that step(2,3) ids(1,4) assms(3) by auto
    then have "calm i s i' s'"
      unfolding calm_def free(5) using step(2-5) by blast
    then show ?thesis
      using step(1,4) free(4) by simp
  next
    case stop
    then show ?thesis
      using assms(5) by simp
  qed
qed

lemma cascade_tree:
  assumes "store pub role (drop i (batch_list s)) s" "role run = InTree" "cascade run i s = Some (again, i', s')"
    "unbridged i s" "ordered_with run k s" "sorted_from i s"
  shows "unbridged i' s' \<and> ordered_with run k s' \<and> sorted_from i' s'"
proof -
  have held: "role run \<in> {InHand, InTree}" "run \<in> live role"
    using assms(2) live_roles(1) [of role run] by simp_all
  from assms(1) held(2,1) assms(3) show ?thesis
  proof (cases rule: cascade_cases)
    case (batch j)
    note step = absorb_waiting [OF assms(1) [unfolded batch(1)] batch(1) held(2,1) batch(2), folded batch(5)]
    show ?thesis
      using step(3-5) assms(4-6) batch(4) by simp
  next
    case (free j s1)
    have "role run \<noteq> Slabbed"
      using assms(2) by simp
    note stop = store_end(1,3) [OF assms(1) held(2) this]
    have "run \<in> heap_ids s" "j \<in> heap_ids s" "offset (nodes s run) < offset (nodes s j)"
      "{offset (nodes s run) + npages (nodes s run)..<offset (nodes s j)} = {}"
      using store_ids(1) [OF assms(1)] assms(2) free(1,2) stop by simp_all
    then show ?thesis
      using assms(4) unfolding unbridged_def by (metis empty_subsetI)
  next
    case stop
    then show ?thesis
      using assms(4-6) by simp
  qed
qed

lemma cascade_loop_step:
  assumes "cascade_loop run i s = Some (i', s')"
  obtains (turn) i1 s1 where "cascade run i s = Some (True, i1, s1)" "cascade_loop run i1 s1 = Some (i', s')"
    | (stop) "cascade run i s = Some (False, i', s')"
proof (cases "cascade run i s")
  case None
  then show thesis
    using assms by (simp add: cascade_loop.simps [of run i])
next
  case (Some x)
  obtain again i1 s1 where x: "x = (again, i1, s1)"
    by (cases x)
  show thesis
  proof (cases again)
    case True
    then show thesis
      using assms Some x by (intro turn [of i1 s1]) (simp_all add: cascade_loop.simps [of run i])
  next
    case False
    then show thesis
      using assms Some x by (intro stop) (simp add: cascade_loop.simps [of run i])
  qed
qed

lemma cascade_store:
  assumes "store pub role (drop i (batch_list s)) s" "run \<in> live role" "role run \<in> {InHand, InTree}" "cascade run i s = Some (True, i1, s1)"
  shows "\<exists>role1. store pub role1 (drop i1 (batch_list s1)) s1 \<and> run \<in> live role1 \<and> role1 run = role run \<and> card (live role1) < card (live role)"
  using cascade_spec [OF assms(1-3)] assms(2-4) live_roles(1,2) unfolding run_step_def by fastforce

lemma loop_hand:
  assumes "store pub role (drop i (batch_list s)) s" "run \<in> live role" "role run = InHand" "cascade_loop run i s = Some (i', s')" "heap_ordered s"
  shows "heap_ordered s' \<and> calm i s i' s' \<and> offset (nodes s' run) = offset (nodes s run) \<and> ended run i' s'"
  using assms
proof (induction "card (live role)" arbitrary: role i s rule: less_induct)
  case less
  from less.prems(4) show ?case
  proof (cases rule: cascade_loop_step)
    case (turn i1 s1)
    note one = cascade_hand [OF less.prems(1-3) turn(1) less.prems(5)]
    have "role run \<in> {InHand, InTree}"
      using less.prems(3) by simp
    from cascade_store [OF less.prems(1,2) this turn(1)] obtain role1 where r: "store pub role1 (drop i1 (batch_list s1)) s1"
      "run \<in> live role1" "role1 run = InHand" "card (live role1) < card (live role)"
      using less.prems(3) by auto
    have "heap_ordered s1"
      using one by simp
    from less.hyps [OF r(4,1,2,3) turn(2) this] one show ?thesis
      using calm_trans by auto
  next
    case stop
    show ?thesis
      using cascade_hand [OF less.prems(1-3) stop less.prems(5)] by simp
  qed
qed

lemma loop_tree:
  assumes "store pub role (drop i (batch_list s)) s" "role run = InTree" "cascade_loop run i s = Some (i', s')"
    "unbridged i s" "ordered_with run k s" "sorted_from i s"
  shows "unbridged i' s' \<and> ordered_with run k s' \<and> sorted_from i' s'"
  using assms
proof (induction "card (live role)" arbitrary: role i s rule: less_induct)
  case less
  from less.prems(3) show ?case
  proof (cases rule: cascade_loop_step)
    case (turn i1 s1)
    note one = cascade_tree [OF less.prems(1,2) turn(1) less.prems(4-6)]
    have "role run \<in> {InHand, InTree}" "run \<in> live role"
      using less.prems(2) live_roles(1) [of role run] by simp_all
    from cascade_store [OF less.prems(1) this(2,1) turn(1)] obtain role1 where r: "store pub role1 (drop i1 (batch_list s1)) s1"
      "role1 run = InTree" "card (live role1) < card (live role)"
      using less.prems(2) by auto
    from less.hyps [OF r(3,1,2) turn(2)] one show ?thesis
      by blast
  next
    case stop
    show ?thesis
      using cascade_tree [OF less.prems(1,2) stop less.prems(4-6)] by simp
  qed
qed

section \<open>A whole run\<close>

lemma start_run_cases:
  assumes "store pub role (j # B) s" "start_run j s = Some (run, fresh, s')"
  obtains (fresh) "fresh" "run = j" "s' = s" "\<And>a. a \<in> heap_ids s \<Longrightarrow> node_end (nodes s a) \<noteq> offset (nodes s j)"
    | (joined) "\<not> fresh" "role run = InTree" "node_end (nodes s run) = offset (nodes s j)" "s' = put_node j (absorb run j s)"
proof -
  obtain p where p: "treap_prev (nodes s) (treap_root s) (offset (nodes s j)) = Some p" "p = NIL \<longrightarrow> (\<forall>b \<in> heap_ids s. offset (nodes s j) \<le> offset (nodes s b))"
    "p \<noteq> NIL \<longrightarrow> p \<in> heap_ids s \<and> offset (nodes s p) < offset (nodes s j) \<and>
      (\<forall>b \<in> heap_ids s. offset (nodes s b) < offset (nodes s j) \<longrightarrow> offset (nodes s b) \<le> offset (nodes s p))"
    using store_neighbours(2) [OF assms(1)] by blast
  note ids = store_ids(1) [OF assms(1)]
  show thesis
  proof (cases "p \<noteq> NIL \<and> node_end (nodes s p) = offset (nodes s j)")
    case True
    then have "start_run j s = Some (p, False, put_node j (absorb p j s))"
      using p(1) by (simp add: start_run_def)
    then show thesis
      using assms(2) True p(3) ids by (intro joined) auto
  next
    case False
    then have "start_run j s = Some (j, True, s)"
      using p(1) by (auto simp: start_run_def)
    moreover have "node_end (nodes s a) \<noteq> offset (nodes s j)" if a: "a \<in> heap_ids s" for a
    proof
      assume at: "node_end (nodes s a) = offset (nodes s j)"
      have tree: "role k = InTree \<and> k \<in> live role \<and> role k \<noteq> Slabbed" if "k \<in> heap_ids s" for k
        using that ids by (auto simp: live_def)
      have ends: "node_end (nodes s k) = offset (nodes s k) + npages (nodes s k)" "0 < npages (nodes s k)" if "k \<in> heap_ids s" for k
        using store_end(1,3) [OF assms(1), of k] tree [OF that] by simp_all
      have low: "offset (nodes s a) < offset (nodes s j)"
        using ends [OF a] at by simp
      then have "p \<noteq> NIL"
        using p(2) a by auto
      then have pp: "p \<in> heap_ids s" "offset (nodes s p) < offset (nodes s j)" "offset (nodes s a) \<le> offset (nodes s p)" "a \<noteq> p"
        using p(3) a low False at by auto
      have "apart (offset (nodes s a)) (npages (nodes s a)) (offset (nodes s p)) (npages (nodes s p))"
        using tiled_apart [OF storeD(3) [OF assms(1)], of a p] tree [OF a] tree [OF pp(1)] pp(4) by (simp add: extent_def)
      then show False
        using ends [OF a] ends [OF pp(1)] at pp(2,3) by (auto simp: apart_def)
    qed
    ultimately show thesis
      using assms(2) by (intro fresh) auto
  qed
qed

lemma unbridged_cong:
  assumes "heap_ids s' = heap_ids s" "batch_list s' = batch_list s" "\<And>k. offset (nodes s' k) = offset (nodes s k) \<and> npages (nodes s' k) = npages (nodes s k)"
  shows "unbridged i s' = unbridged i s" "sorted_from i s' = sorted_from i s"
  using assms by (simp_all add: unbridged_def sorted_from_def spans_def)

text \<open>A new free region bridges nothing: what waits lies behind the end of its run, and not at it.\<close>

lemma new_unbridged:
  assumes "store pub role (drop i (batch_list s)) s" "role run = InHand" "ended run i s" "unbridged i s" "sorted_from i s"
    "\<And>k. k \<in> waiting i s \<Longrightarrow> offset (nodes s run) < offset (nodes s k)" "\<And>a. a \<in> heap_ids s \<Longrightarrow> node_end (nodes s a) \<noteq> offset (nodes s run)"
    "heap_ids s' = insert run (heap_ids s)" "batch_list s' = batch_list s" "\<And>k. offset (nodes s' k) = offset (nodes s k) \<and> npages (nodes s' k) = npages (nodes s k)"
  shows "unbridged i s'"
proof -
  note ids = store_ids [OF assms(1)]
  let ?o = "\<lambda>k. offset (nodes s k)" and ?n = "\<lambda>k. npages (nodes s k)"
  have live: "k \<in> live role \<and> role k \<noteq> Slabbed" if "k = run \<or> k \<in> heap_ids s \<or> k \<in> waiting i s" for k
    using that ids(1,4) assms(2) by (auto simp: live_def)
  have ends: "node_end (nodes s k) = ?o k + ?n k" if "k = run \<or> k \<in> heap_ids s \<or> k \<in> waiting i s" for k
    using store_end(1) [OF assms(1), of k] live [OF that] by simp
  have apart: "?o run + ?n run \<le> ?o k \<or> ?o k + ?n k \<le> ?o run" if "k \<in> heap_ids s \<or> k \<in> waiting i s" for k
  proof -
    have "k \<noteq> run"
      using that ids(1,4) assms(2) by auto
    then show ?thesis
      using tiled_apart [OF storeD(3) [OF assms(1)], of run k] live [of run] live [of k] that by (simp add: extent_def apart_def)
  qed
  have after: False if b: "b \<in> heap_ids s" "?o run < ?o b" "{?o run + ?n run..<?o b} \<subseteq> spans (nodes s) (waiting i s)" for b
  proof -
    have "?o b \<noteq> ?o run + ?n run"
      using assms(3) b(1) ends [of run] by (auto simp: ended_def)
    then have "?o run + ?n run < ?o b"
      using apart [of b] b(1,2) by auto
    then have "?o run + ?n run \<in> spans (nodes s) (waiting i s)"
      using b(3) by auto
    then obtain k where k: "k \<in> waiting i s" "?o k \<le> ?o run + ?n run" "?o run + ?n run < ?o k + ?n k"
      by (auto simp: spans_def)
    then have "i < length (batch_list s)"
      by (cases "i < length (batch_list s)") auto
    then have split: "drop i (batch_list s) = (batch_list s ! i) # drop (i + 1) (batch_list s)"
      by (simp add: Cons_nth_drop_Suc)
    define h where "h = batch_list s ! i"
    have "h \<in> waiting i s"
      unfolding split h_def by simp
    moreover have "?o h \<le> ?o k"
      using assms(5) k(1) unfolding sorted_from_def split h_def by auto
    ultimately have "?o h = ?o run + ?n run"
      using apart [of h] assms(6) [of h] k(2) by auto
    then show False
      using assms(3) \<open>i < length (batch_list s)\<close> ends [of run] by (simp add: ended_def h_def)
  qed
  have before: False if a: "a \<in> heap_ids s" "?o a < ?o run" "{?o a + ?n a..<?o run} \<subseteq> spans (nodes s) (waiting i s)" for a
  proof -
    have "?o a + ?n a < ?o run"
      using assms(7) [OF a(1)] ends [of a] apart [of a] a(1,2) by auto
    then have "?o run - 1 \<in> spans (nodes s) (waiting i s)"
      using a(3) by (auto simp: subset_iff)
    then obtain k where k: "k \<in> waiting i s" "?o k \<le> ?o run - 1"
      by (auto simp: spans_def)
    then show False
      using assms(6) [OF k(1)] by linarith
  qed
  have spans: "spans (nodes s') (waiting i s') = spans (nodes s) (waiting i s)"
    unfolding assms(9) by (rule spans_cong) (rule assms(10))
  have same: "offset (nodes s' k) = ?o k" "npages (nodes s' k) = ?n k" for k
    using assms(10) by simp_all
  show ?thesis
    unfolding unbridged_def assms(8) spans same
  proof (intro ballI impI notI)
    fix a b assume ab: "a \<in> insert run (heap_ids s)" "b \<in> insert run (heap_ids s)" "?o a < ?o b" "{?o a + ?n a..<?o b} \<subseteq> spans (nodes s) (waiting i s)"
    then consider "a = run" "b \<in> heap_ids s" | "b = run" "a \<in> heap_ids s" | "a \<in> heap_ids s" "b \<in> heap_ids s"
      by auto
    then show False
    proof cases
      case 1
      then show ?thesis
        using after ab(3,4) by simp
    next
      case 2
      then show ?thesis
        using before ab(3,4) by simp
    next
      case 3
      then show ?thesis
        using assms(4) ab(3,4) unfolding unbridged_def by blast
    qed
  qed
qed

lemma store_tree_insert:
  assumes "store pub role B s" "role i = InHand" "tree_insert i s = Some s'"
  shows "wired (insert i (with_role InTree role)) (with_role InTree role) (with_role Unused role) s' \<and> kept (insert i (with_role InTree role)) s s'"
proof -
  note D = storeD [OF assms(1)]
  have live: "i \<in> live role"
    by (rule live_roles(2) [of role i, OF assms(2)])
  have "\<forall>j \<in> with_role InTree role. offset (nodes s j) \<noteq> offset (nodes s i)"
    using tiled_offset [OF D(3) _ live] assms(2) live_roles(1) by fastforce
  moreover have "i \<notin> with_role InTree role" "i \<noteq> NIL"
    using assms(2) store_live(3) [OF assms(1) live] by simp_all
  ultimately show ?thesis
    using wired_tree_insert [OF D(2), of i] assms(3) by auto
qed

lemma run_hand:
  assumes "store pub role (drop i (batch_list s)) s" "i < length (batch_list s)" "heap_ordered s" "unbridged i s" "sorted_from i s"
    "run = batch_list s ! i" "\<And>a. a \<in> heap_ids s \<Longrightarrow> node_end (nodes s a) \<noteq> offset (nodes s run)"
    "cascade_loop run (i + 1) s = Some (i', s2)" "tree_insert run (decommit run s2) = Some s4"
    "store pub role2 (drop i' (batch_list s2)) s2" "role2 run = InHand"
  shows "heap_ordered (heap_insert run s4) \<and> unbridged i' (heap_insert run s4) \<and> sorted_from i' (heap_insert run s4)"
proof -
  have split: "drop i (batch_list s) = run # drop (i + 1) (batch_list s)"
    using assms(2,6) by (simp add: Cons_nth_drop_Suc)
  note taken = store_take_batched [OF assms(1) [unfolded split]]
  define role1 where "role1 = role(run := InHand)"
  have st1: "store pub role1 (drop (i + 1) (batch_list s)) s" "run \<in> live role1" "role1 run = InHand"
    using taken(2) by (simp_all add: role1_def live_def)
  have early: "calm i s (i + 1) s"
    using waiting_mono [of i "i + 1" s s] by (auto simp: calm_def)
  note loop = loop_hand [OF st1 assms(8,3)]
  have calm: "calm i s i' s2"
    using calm_trans [OF early] loop by blast
  have facts: "unbridged i' s2" "sorted_from i' s2" "ended run i' s2" "heap_ordered s2" "offset (nodes s2 run) = offset (nodes s run)"
    using calm_unbridged [OF calm assms(4)] calm_sorted [OF calm assms(5)] loop by blast+
  have calm1: "calm (i + 1) s i' s2"
    using loop by blast
  have same: "offset (nodes s2 k) = offset (nodes s k) \<and> npages (nodes s2 k) = npages (nodes s k)" if "k \<in> heap_ids s2 \<union> waiting i' s2" for k
    using calm1 that unfolding calm_def by blast
  note ids2 = store_ids [OF assms(10)]
  have behind: "offset (nodes s2 run) < offset (nodes s2 k)" if k: "k \<in> waiting i' s2" for k
  proof -
    have "waiting i' s2 \<subseteq> waiting (i + 1) s"
      using calm1 waiting_mono by (simp add: calm_def)
    then have "offset (nodes s run) \<le> offset (nodes s k)"
      using assms(5) k unfolding sorted_from_def split by auto
    moreover have "offset (nodes s2 run) \<noteq> offset (nodes s2 k)"
    proof -
      have "role2 k = Batched"
        using k ids2(4) by auto
      moreover have "k \<noteq> run"
        using calculation assms(11) by auto
      ultimately show ?thesis
        using tiled_offset [OF storeD(3) [OF assms(10)], of run k] assms(11) by (auto simp: live_def)
    qed
    ultimately show ?thesis
      using facts(5) same [of k] k by simp
  qed
  have apart: "node_end (nodes s2 a) \<noteq> offset (nodes s2 run)" if "a \<in> heap_ids s2" for a
  proof -
    have "a \<in> heap_ids s"
      using that calm1 by (auto simp: calm_def)
    then show ?thesis
      using assms(7) [of a] same [of a] that facts(5) by (simp add: node_end_def)
  qed
  define s3 where "s3 = decommit run s2"
  have s3: "nodes s3 = nodes s2" "batch_list s3 = batch_list s2" "heap_array s3 = heap_array s2" "heap_size s3 = heap_size s2"
    "store pub role2 (drop i' (batch_list s2)) s3"
    using assms(10) by (simp_all add: s3_def decommit_def)
  obtain s1 where s1: "tree_insert run s3 = Some s1" "kept (with_role InTree (role2(run := InTree))) s3 (heap_insert run s1)"
    using store_insert [OF s3(5) assms(11)] by blast
  have "s1 = s4"
    using s1(1) assms(9) by (simp add: s3_def)
  note kept = s1(2) [unfolded this]
  have heap4: "heap_array s4 = heap_array s2" "heap_size s4 = heap_size s2"
    using tree_insert_heap [OF assms(9)] by (simp_all add: decommit_def)
  have wired: "wired (insert run (with_role InTree role2)) (with_role InTree role2) (with_role Unused role2) s4"
    and kept4: "kept (insert run (with_role InTree role2)) s3 s4"
    using store_tree_insert [OF s3(5) assms(11) assms(9) [folded s3_def]] by simp_all
  have pay4: "npages (nodes s4 k) = npages (nodes s2 k)" for k
    using kept_payload(2) [OF kept4] s3(1) by simp
  have ids4: "heap_ids s4 = heap_ids s2" "heap_linked s4"
    using wired ids2(1) by (simp_all add: wired_def)
  have ordered4: "heap_ordered s4"
    using ordered_cong [of s4 s2] heap4 pay4 facts(4) by simp
  have new: "run \<notin> heap_ids s4"
    using ids4(1) ids2(1) assms(11) by simp
  have "heap_ordered (heap_insert run s4)"
    by (rule heap_insert_ordered [OF ids4(2) new ordered4])
  moreover have "heap_ids (heap_insert run s4) = insert run (heap_ids s2)"
    using heap_insert_linked [OF ids4(2) new] ids4(1) by simp
  moreover have pay: "offset (nodes (heap_insert run s4) k) = offset (nodes s2 k) \<and> npages (nodes (heap_insert run s4) k) = npages (nodes s2 k)" for k
    using kept_payload(1,2) [OF kept] s3(1) by simp
  moreover have list: "batch_list (heap_insert run s4) = batch_list s2"
    using kept_rest(3) [OF kept] s3(2) by simp
  moreover have "sorted_from i' (heap_insert run s4)"
    using facts(2) pay unfolding sorted_from_def list by simp
  ultimately show ?thesis
    using new_unbridged [OF assms(10,11) facts(3,1,2) behind apart] by blast
qed

lemma run_tree:
  assumes "store pub role (drop i (batch_list s)) s" "i < length (batch_list s)" "heap_ordered s" "unbridged i s" "sorted_from i s"
    "role run = InTree" "node_end (nodes s run) = offset (nodes s (batch_list s ! i))" "s1 = put_node (batch_list s ! i) (absorb run (batch_list s ! i) s)"
    "cascade_loop run (i + 1) s1 = Some (i', s2)" "store pub role1 (drop (i + 1) (batch_list s1)) s1" "role1 run = InTree"
    "store pub role2 (drop i' (batch_list s2)) s2" "role2 run = InTree"
  shows "heap_ordered (heap_fix run (decommit run s2)) \<and> unbridged i' (heap_fix run (decommit run s2)) \<and> sorted_from i' (heap_fix run (decommit run s2))"
proof -
  define j where "j = batch_list s ! i"
  have split: "drop i (batch_list s) = j # drop (i + 1) (batch_list s)"
    using assms(2) by (simp add: j_def Cons_nth_drop_Suc)
  have held: "role run \<in> {InHand, InTree}" "run \<in> live role"
    using assms(6) live_roles(1) [of role run] by simp_all
  note joined = absorb_waiting [OF assms(1) [unfolded split] split held(2,1) assms(7) [folded j_def], folded assms(8) [folded j_def]]
  have "ordered_with run (npages (nodes s run)) s1"
    unfolding joined(3) ordered_with_self by (rule assms(3))
  moreover have "unbridged (i + 1) s1" "sorted_from (i + 1) s1"
    using joined(4,5) assms(4,5) by simp_all
  ultimately have loop: "unbridged i' s2" "ordered_with run (npages (nodes s run)) s2" "sorted_from i' s2"
    using loop_tree [OF assms(10,11,9)] by blast+
  define s3 where "s3 = decommit run s2"
  have s3: "nodes s3 = nodes s2" "batch_list s3 = batch_list s2" "heap_array s3 = heap_array s2" "heap_size s3 = heap_size s2"
    by (simp_all add: s3_def decommit_def)
  have ids3: "heap_ids s3 = heap_ids s2" "heap_linked s3 = heap_linked s2"
    using heap_linked_cong [of s3 s2] s3 by simp_all
  have "ordered_with run (npages (nodes s run)) s3 = ordered_with run (npages (nodes s run)) s2"
    unfolding ordered_with_def by (rule ordered_cong) (simp_all add: s3)
  then have "heap_ordered (s3\<lparr>nodes := (nodes s3)(run := (nodes s3 run)\<lparr>npages := npages (nodes s run)\<rparr>)\<rparr>)"
    using loop(2) by (simp add: ordered_with_def set_pages_def)
  moreover have member: "heap_linked s3" "run \<in> heap_ids s3"
    using store_ids [OF assms(12)] assms(13) by (simp_all add: ids3)
  ultimately have "heap_ordered (heap_fix run s3)"
    by (intro heap_fix_ordered)
  moreover have mend: "heap_ids (heap_fix run s3) = heap_ids s3" "heap_only (heap_ids s3) s3 (heap_fix run s3)"
    using heap_fix_linked [OF member] by blast+
  moreover have "unbridged i' (heap_fix run s3) = unbridged i' s2" "sorted_from i' (heap_fix run s3) = sorted_from i' s2"
    using unbridged_cong [of "heap_fix run s3" s2] mend(1) heap_only_payload(1,2) [OF mend(2)] heap_only_rest(4) [OF mend(2)] by (simp_all add: ids3 s3)
  ultimately show ?thesis
    using loop unfolding s3_def by blast
qed

lemma sort_batch_sorted:
  assumes "store pub role (batch_list s) s"
  shows "sorted (map (\<lambda>k. offset (nodes (sort_batch cfg s) k)) (batch_list (sort_batch cfg s)))"
proof -
  have "\<forall>i \<in> set (batch_list s). offset (nodes s i) < 2 ^ 32"
  proof
    fix i assume "i \<in> set (batch_list s)"
    then have "role i = Batched"
      using storeD(5) [OF assms] by auto
    then show "offset (nodes s i) < 2 ^ 32"
      using store_end(2-4) [OF assms live_roles(3) [of role i]] NIL_less by fastforce
  qed
  then have "batch_list (sort_batch cfg s) = sort_key (\<lambda>i. offset (nodes s i)) (batch_list s)"
    unfolding sort_batch_def by (simp add: radix_sort_correct)
  then show ?thesis
    using sort_batch_store(3) [OF assms] by simp
qed

lemma coalesce_run_order:
  assumes "store pub role (drop i (batch_list s)) s" "with_role InHand role = {}" "i < length (batch_list s)" "coalesce_run i s = Some (i', s')"
    "heap_ordered s" "unbridged i s" "sorted_from i s"
  shows "heap_ordered s' \<and> unbridged i' s' \<and> sorted_from i' s'"
proof -
  define j where "j = batch_list s ! i"
  have split: "drop i (batch_list s) = j # drop (i + 1) (batch_list s)"
    using assms(3) by (simp add: j_def Cons_nth_drop_Suc)
  note st = assms(1) [unfolded split]
  obtain run fresh s1 role1 where start: "start_run j s = Some (run, fresh, s1)" "store pub role1 (drop (i + 1) (batch_list s)) s1"
    "steady role s role1 s1" "role1 run = (if fresh then InHand else InTree)"
    using start_run_spec [OF st assms(2)] by blast
  have list: "batch_list s1 = batch_list s"
    using start(3) by (simp add: steady_def)
  then have st1: "store pub role1 (drop (i + 1) (batch_list s1)) s1" "run \<in> live role1" "role1 run \<in> {InHand, InTree}"
    using start(2,4) by (simp_all add: live_def)
  obtain i2 s2 role2 where loop: "cascade_loop run (i + 1) s1 = Some (i2, s2)" "run_step pub run role1 s1 role2 i2 s2"
    using cascade_loop_spec [OF st1] by blast
  then have st2: "store pub role2 (drop i2 (batch_list s2)) s2" "role2 run = role1 run"
    by (simp_all add: run_step_def)
  from st start(1) show ?thesis
  proof (cases rule: start_run_cases)
    case fresh
    have step: "coalesce_run i s = map_option (Pair i2) (map_option (heap_insert run) (tree_insert run (decommit run s2)))"
      unfolding coalesce_run_def using assms(3) start(1) loop(1) fresh(1) by (simp add: j_def Let_def map_option_case split: option.split)
    then obtain s4 where s4: "tree_insert run (decommit run s2) = Some s4" "i' = i2" "s' = heap_insert run s4"
      using assms(4) by (cases "tree_insert run (decommit run s2)") auto
    have "role2 run = InHand"
      using st2(2) start(4) fresh(1) by simp
    from run_hand [OF assms(1,3,5-7) _ _ loop(1) [unfolded fresh(3)] s4(1) st2(1) this] fresh(2,4) show ?thesis
      by (simp add: j_def s4(2,3))
  next
    case joined
    have "coalesce_run i s = Some (i2, heap_fix run (decommit run s2))"
      unfolding coalesce_run_def using assms(3) start(1) loop(1) joined(1) by (simp add: j_def Let_def)
    then have res: "i' = i2" "s' = heap_fix run (decommit run s2)"
      using assms(4) by simp_all
    have "role1 run = InTree" "role2 run = InTree"
      using st2(2) start(4) joined(1) by simp_all
    from run_tree [OF assms(1,3,5-7) joined(2) _ _ loop(1) st1(1) this(1) st2(1) this(2)] joined(3,4) show ?thesis
      by (simp add: j_def res)
  qed
qed

lemma coalesce_loop_order:
  assumes "store pub role (drop i (batch_list s)) s" "with_role InHand role = {}" "i < length (batch_list s)" "coalesce_loop i s = Some s'"
    "heap_ordered s" "unbridged i s" "sorted_from i s"
  shows "heap_ordered s'"
  using assms
proof (induction "length (batch_list s) - i" arbitrary: role i s rule: less_induct)
  case less
  obtain i1 s1 role1 where step: "coalesce_run i s = Some (i1, s1)" "i < i1" "coalesced pub role s role1 i1 s1"
    using coalesce_run_spec [OF less.prems(1-3)] by blast
  note same = coalescedD(4,1,3) [OF step(3)]
  have ordered: "heap_ordered s1" "unbridged i1 s1" "sorted_from i1 s1"
    using coalesce_run_order [OF less.prems(1-3) step(1) less.prems(5-7)] by simp_all
  have eq: "coalesce_loop i s = (if i1 < length (batch_list s1) then coalesce_loop i1 s1 else Some s1)"
    by (subst coalesce_loop.simps) (simp add: step(1))
  show ?case
  proof (cases "i1 < length (batch_list s1)")
    case True
    then have "length (batch_list s1) - i1 < length (batch_list s) - i"
      using step(2) same(1) less.prems(3) by simp
    from less.hyps [OF this same(2,3) True _ ordered] show ?thesis
      using less.prems(4) True eq by simp
  next
    case False
    then show ?thesis
      using less.prems(4) eq ordered(1) by simp
  qed
qed

text \<open>Coalescing keeps the order of the heap, unless it joins two free regions.\<close>

lemma coalesce_order:
  assumes "store pub role (batch_list s) s" "with_role InHand role = {}" "batch_list s \<noteq> []" "coalesce cfg s = Some s'" "heap_ordered s" "unbridged 0 s"
  shows "heap_ordered s'"
proof -
  note sorted = sort_batch_store [OF assms(1), of cfg]
  define t where "t = sort_batch cfg s"
  obtain u where u: "coalesce_loop 0 t = Some u" "s' = reset_batch u"
    using assms(4) by (auto simp: coalesce_def t_def)
  have fields: "heap_array t = heap_array s" "heap_size t = heap_size s" "nodes t = nodes s"
    by (simp_all add: t_def sort_batch_def)
  then have ids: "heap_ids t = heap_ids s"
    by (simp add: heap_ids_def)
  have "heap_ordered t = heap_ordered s"
    by (rule ordered_cong) (simp_all add: fields)
  moreover have "set (batch_list t) = set (batch_list s)"
    using storeD(5) [OF sorted(1)] storeD(5) [OF assms(1)] by (simp add: t_def)
  then have "unbridged 0 t"
    using assms(6) unfolding unbridged_def by (simp add: ids fields)
  moreover have "sorted_from 0 t"
    using sort_batch_sorted [OF assms(1)] by (simp add: sorted_from_def t_def)
  ultimately have "heap_ordered u"
    using coalesce_loop_order [of pub role 0 t u] sorted(1,2) assms(2,3,5) u(1) by (simp add: t_def)
  then show ?thesis
    by (simp add: u(2) reset_batch_def ordered_to_def)
qed

text \<open>Joining two free regions can lose the order: region 7 of 5 pages has grown to 200 and absorbs region 3, whose removal
  puts the last region of the heap, with 60 pages, below one of 10 pages; restoring the place of region 7 does not mend it.\<close>

definition grown_space :: "nat \<Rightarrow> space" where
  "grown_space k = sample_space\<lparr>heap_size := 12,
     nodes := (\<lambda>i. \<lparr>offset = 1000 * i, npages = (if i = 7 then k else [100, 10, 90, 9, 8, 80, 70, 0, 4, 3, 2, 60] ! i),
       left_child = NIL, right_child = NIL, heap_link = i\<rparr>)\<rparr>"

lemma joining_loses_order:
  "list_all (\<lambda>p. key_at (grown_space 5) p \<le> key_at (grown_space 5) ((p - 1) div 2)) [1..<12]"
  "\<exists>s. s = heap_fix 7 (heap_erase 3 (grown_space 200)) \<and> \<not> key_at s 7 \<le> key_at s 3"
proof -
  show "list_all (\<lambda>p. key_at (grown_space 5) p \<le> key_at (grown_space 5) ((p - 1) div 2)) [1..<12]"
    by (simp add: grown_space_def sample_space_def upt_rec)
  show "\<exists>s. s = heap_fix 7 (heap_erase 3 (grown_space 200)) \<and> \<not> key_at s 7 \<le> key_at s 3"
    by (simp add: grown_space_def sample_space_def heap_erase_def heap_fix_def Let_def heapify_down.simps heapify_up.simps best_child_def heap_swap_def)
qed

end
