(* ===== verification/AllocPages.thy ===== *)
theory AllocPages
  imports AllocOrder
begin

text \<open>
  The page allocator: freed pages join the batch, and allocations are cut from the middle of the largest
  free region that fits or from the front of the region that follows an allocation.
\<close>

section \<open>Releasing pages\<close>

definition fresh_node :: "nat \<Rightarrow> nat \<Rightarrow> node" where
  "fresh_node off pages = \<lparr>offset = off, npages = pages, left_child = NIL, right_child = NIL, heap_link = NIL\<rparr>"

definition page_deallocate :: "config \<Rightarrow> nat \<Rightarrow> nat \<Rightarrow> space \<Rightarrow> space option" where
  "page_deallocate cfg off pages s = (
     let (i, s) = get_node s;
         s = s\<lparr>nodes := (nodes s)(i := fresh_node off pages), occupied := sub64 (occupied s) (pages * 2 ^ page_shift cfg)\<rparr>
     in if length (batch_list s) < coalesce_buffer cfg
        then Some (s\<lparr>batch_list := batch_list s @ [i], batch_pages := add32 (batch_pages s) pages,
          batch_min := (if batch_min s = NIL \<or> off < batch_min s then off else batch_min s),
          batch_max := (if batch_max s = NIL \<or> batch_max s < off then off else batch_max s)\<rparr>)
        else None)"

section \<open>Searching and dividing free regions\<close>

definition mask_down :: "nat \<Rightarrow> nat \<Rightarrow> nat" where
  "mask_down al x = unat (word_of_nat x AND NOT (word_of_nat al - 1 :: 64 word))"

text \<open>The part of \<open>page_bisect\<close> that places an allocation in a region: the distance from its start,
  or nothing.  The sums are of 64 bits, the end of the region of 32, and the result is cut to 32.\<close>

definition place_in :: "node \<Rightarrow> nat \<Rightarrow> nat \<Rightarrow> nat \<Rightarrow> nat option" where
  "place_in n pages al base_mod = (
     let half = (npages n - pages) div 2
     in if al \<le> 1 then Some half
        else let tmp = sub64 (mask_down al (add64 (add64 base_mod (offset n)) half)) base_mod;
                 tmp = (if tmp < offset n then add64 tmp al else tmp)
          in if tmp < offset n \<or> node_end n < add64 tmp pages then None
             else Some (sub32 (tmp mod 2 ^ 32) (offset n)))"

function page_bisect :: "nat \<Rightarrow> nat \<Rightarrow> nat \<Rightarrow> nat \<Rightarrow> space \<Rightarrow> nat \<times> nat" where
  "page_bisect pos pages al base_mod s = (
     if heap_size s \<le> pos then (NIL, 0)
     else let i = heap_array s pos
       in if npages (nodes s i) < pages then (NIL, 0)
          else case place_in (nodes s i) pages al base_mod of
              Some d \<Rightarrow> (i, d)
            | None \<Rightarrow>
                let r1 = page_bisect (pos * 2 + 1) pages al base_mod s; r2 = page_bisect (pos * 2 + 1 + 1) pages al base_mod s
                in if fst r2 = NIL \<or> (fst r1 \<noteq> NIL \<and> npages (nodes s (fst r2)) \<le> npages (nodes s (fst r1))) then r1 else r2)"
  by pat_completeness auto
termination
  by (relation "measure (\<lambda>(pos, pages, al, base_mod, s). heap_size s - pos)") auto

declare page_bisect.simps [simp del]

text \<open>The part of \<open>page_allocate\<close> after the search: the region gives up its middle.\<close>

definition page_take :: "config \<Rightarrow> nat \<Rightarrow> nat \<Rightarrow> nat \<Rightarrow> space \<Rightarrow> (nat \<times> space) option" where
  "page_take cfg pages i before s = (
     let after = sub32 (sub32 (npages (nodes s i)) pages) before;
         off = add32 (offset (nodes s i)) before
     in do {
       s \<leftarrow> (if before \<noteq> 0
         then let s = heap_fix i (s\<lparr>nodes := set_pages (nodes s) i before\<rparr>)
           in if after \<noteq> 0
              then let (c, s) = get_node s; s = s\<lparr>nodes := (nodes s)(c := fresh_node (add32 off pages) after)\<rparr>
                in map_option (heap_insert c) (tree_insert c s)
              else Some s
         else if after \<noteq> 0
         then do {
           s \<leftarrow> tree_erase i s;
           s \<leftarrow> tree_insert i (s\<lparr>nodes := set_pages (set_offset (nodes s) i (add32 off pages)) i after\<rparr>);
           Some (heap_fix i s)
         }
         else map_option (put_node i) (tree_erase i (heap_erase i s)));
       Some (off, s\<lparr>total := add32 (total s) pages, occupied := add64 (occupied s) (pages * 2 ^ page_shift cfg)\<rparr>)
     })"

text \<open>The part of \<open>page_reserve\<close> that finds the free region at an offset and takes its first pages.\<close>

definition page_extend :: "config \<Rightarrow> nat \<Rightarrow> nat \<Rightarrow> space \<Rightarrow> (bool \<times> space) option" where
  "page_extend cfg off pages s = do {
     i \<leftarrow> treap_next (nodes s) (treap_root s) off;
     if i \<noteq> NIL \<and> offset (nodes s i) = off \<and> pages \<le> npages (nodes s i)
     then do {
       s \<leftarrow> tree_erase i s;
       let s = s\<lparr>nodes := set_pages (nodes s) i (npages (nodes s i) - pages)\<rparr>;
       s \<leftarrow> (if npages (nodes s i) = 0 then Some (put_node i (heap_erase i s))
         else map_option (heap_fix i) (tree_insert i (s\<lparr>nodes := set_offset (nodes s) i (add32 (offset (nodes s i)) pages)\<rparr>)));
       Some (True, s\<lparr>total := add32 (total s) pages, occupied := add64 (occupied s) (pages * 2 ^ page_shift cfg)\<rparr>)
     }
     else Some (False, s)
   }"

section \<open>New nodes\<close>

lemma live_cards:
  assumes "store pub role B s"
  shows "next_node s = card (live role) + card (with_role Unused role) + card (with_role Spare role)"
proof -
  have dom: "{i. role i \<noteq> Absent} = {..<next_node s}"
    by (rule storeD(6) [OF assms])
  have split: "{i. role i \<noteq> Absent} = (live role \<union> with_role Unused role) \<union> with_role Spare role"
    by (auto simp: live_def)
  have fin: "finite (live role)" "finite (with_role Unused role)" "finite (with_role Spare role)"
    by (rule finite_subset [OF _ finite_lessThan [of "next_node s", folded dom]]; force simp: live_def)+
  have "next_node s = card {i. role i \<noteq> Absent}"
    by (simp only: dom card_lessThan)
  also have "\<dots> = card (live role \<union> with_role Unused role) + card (with_role Spare role)"
    unfolding split by (rule card_Un_disjoint) (use fin in \<open>auto simp: live_def\<close>)
  also have "card (live role \<union> with_role Unused role) = card (live role) + card (with_role Unused role)"
    by (rule card_Un_disjoint) (use fin in \<open>auto simp: live_def\<close>)
  finally show ?thesis .
qed

lemma tiled_add:
  assumes "tiled pub role ns" "i \<notin> live role" "0 < e" "offset n + e \<le> pub" "e = (if r = Slabbed then 32 else npages n)"
    "\<And>j. j \<in> live role \<Longrightarrow> apart (offset n) e (offset (ns j)) (extent role ns j)"
  shows "tiled pub (role(i := r)) (ns(i := n))"
proof -
  let ?role = "role(i := r)" and ?ns = "ns(i := n)"
  have ext: "extent ?role ?ns j = (if j = i then e else extent role ns j)" for j
    using assms(5) by (simp add: extent_def)
  have "live ?role \<subseteq> insert i (live role)"
    by auto
  then show ?thesis
    using assms(1-4,6) apart_sym [OF assms(6)] unfolding tiled_def ext by (auto simp: subset_iff)
qed

text \<open>A node for new pages: there is always one, since a region takes a page at least.\<close>

lemma get_node_store:
  assumes "store pub role B s" "get_node s = (i, s1)" "r \<in> {InHand, Slabbed}" "e = (if r = Slabbed then 32 else npages n)"
    "0 < e" "offset n + e \<le> pub" "\<And>j. j \<in> live role \<Longrightarrow> apart (offset n) e (offset (nodes s j)) (extent role (nodes s) j)"
    "card (with_role Spare role) < e"
  shows "i \<notin> live role" "role i \<noteq> Spare" "i < pub" "store pub (role(i := r)) B (s1\<lparr>nodes := (nodes s1)(i := n)\<rparr>)" "nodes s1 = nodes s"
proof -
  note D = storeD [OF assms(1)]
  let ?T = "with_role InTree role" and ?U = "with_role Unused role"
  define role' where "role' = role(i := r)"
  define s2 where "s2 = s1\<lparr>nodes := (nodes s1)(i := n)\<rparr>"
  have fresh: "i = next_node s \<and> s1 = s\<lparr>next_node := add32 (next_node s) 1\<rparr>" if "?U = {}"
    using wired_get_node [OF D(2) assms(2)] that by (simp only: if_True)
  have again: "role i = Unused \<and> wired ?T ?T (?U - {i}) s1 \<and> s1 = s\<lparr>free_list := heap_link (nodes s i)\<rparr>" if "?U \<noteq> {}"
    using wired_get_node [OF D(2) assms(2)] unfolding if_not_P [OF that] mem_Collect_eq .
  then have reused: "role i = Unused" "wired ?T ?T (?U - {i}) s1" "s1 = s\<lparr>free_list := heap_link (nodes s i)\<rparr>" if "?U \<noteq> {}"
    using that by blast+
  have fin: "finite (live role)"
    by (rule store_live(1) [OF assms(1)])
  have i: "role i \<notin> {Spare, InTree, Batched, InHand, Slabbed}"
  proof (cases "?U = {}")
    case True
    then have "i \<notin> {i. role i \<noteq> Absent}"
      using fresh by (simp add: D(6))
    then show ?thesis by auto
  next
    case False
    then show ?thesis
      using reused(1) by simp
  qed
  then show live: "i \<notin> live role"
    by (cases "role i") (simp_all add: live_def)
  show "role i \<noteq> Spare"
    using i by auto
  have tiled: "tiled pub role' ((nodes s)(i := n))"
    unfolding role'_def by (rule tiled_add [OF D(3) live assms(5,6,4,7)])
  show nodes: "nodes s1 = nodes s"
    using fresh reused(3) by (cases "?U = {}") simp_all
  have room: "card (live role) + card (with_role Spare role) < pub"
  proof -
    have fin': "finite (live role')"
      by (rule finite_subset [of _ "insert i (live role)"]) (use fin in \<open>auto simp: role'_def live_def\<close>)
    have live': "live role' = insert i (live role)"
      using assms(3) by (auto simp: role'_def)
    have "card (live role) + e \<le> (\<Sum>k \<in> live role'. extent role' ((nodes s)(i := n)) k)"
    proof -
      have "(\<Sum>k \<in> live role. 1) \<le> (\<Sum>k \<in> live role. extent role' ((nodes s)(i := n)) k)"
      proof (rule sum_mono)
        fix k assume "k \<in> live role"
        then have "k \<in> live role'"
          by (simp add: live')
        then show "1 \<le> extent role' ((nodes s)(i := n)) k"
          using tiled_bound [OF tiled] by (simp add: Suc_leI)
      qed
      moreover have "extent role' ((nodes s)(i := n)) i = e"
        using assms(4) by (simp add: extent_def role'_def)
      ultimately show ?thesis
        using fin live by (simp add: live')
    qed
    also have "\<dots> \<le> pub"
      by (rule tiled_card(2) [OF tiled fin'])
    finally show ?thesis
      using assms(8) by linarith
  qed
  have dom: "{k. role' k \<noteq> Absent} = insert i {k. role k \<noteq> Absent}"
    using assms(3) by (auto simp: role'_def)
  have wired: "wired ?T ?T (?U - {i}) s1" and bound: "{k. role' k \<noteq> Absent} = {..<next_node s1}" "next_node s1 \<le> pub" and "i < pub"
  proof -
    have "wired ?T ?T (?U - {i}) s1 \<and> {k. role' k \<noteq> Absent} = {..<next_node s1} \<and> next_node s1 \<le> pub \<and> i < pub"
    proof (cases "?U = {}")
      case True
      then have "next_node s < pub"
        using room live_cards [OF assms(1)] by simp
      then have "add32 (next_node s) 1 = Suc (next_node s)"
        using D(1) NIL_less by (simp add: add32_eq)
      then show ?thesis
        using fresh [OF True] True D(2) \<open>next_node s < pub\<close> by (simp add: wired_next_node dom D(6) lessThan_Suc)
    next
      case False
      have "i \<in> {k. role k \<noteq> Absent}" "next_node s1 = next_node s"
        using reused [OF False] by simp_all
      moreover from this(1) have "insert i {k. role k \<noteq> Absent} = {k. role k \<noteq> Absent}"
        by (rule insert_absorb)
      moreover have "i < next_node s"
        using \<open>i \<in> {k. role k \<noteq> Absent}\<close> unfolding D(6) by simp
      ultimately show ?thesis
        using reused(2) [OF False] D(6,7) unfolding dom by (simp only: simp_thms order_refl)
    qed
    then show "wired ?T ?T (?U - {i}) s1" "{k. role' k \<noteq> Absent} = {..<next_node s1}" "next_node s1 \<le> pub" "i < pub"
      by simp_all
  qed
  then show "i < pub" by simp
  have "wired ?T ?T (?U - {i}) s2"
    unfolding s2_def using i by (intro wired_nodes [OF wired]) auto
  moreover have "with_role InTree role' = ?T" "with_role Unused role' = ?U - {i}" "with_role Batched role' = with_role Batched role"
    using i assms(3) by (auto simp: role'_def)
  ultimately have "store pub role' B s2"
    using D(1,4,5) tiled bound nodes by (simp add: store_def s2_def)
  then show "store pub (role(i := r)) B (s1\<lparr>nodes := (nodes s1)(i := n)\<rparr>)"
    by (simp add: role'_def s2_def)
qed

lemma get_node_rest:
  assumes "get_node s = (i, s1)"
  shows "s1\<lparr>free_list := a, next_node := b\<rparr> = s\<lparr>free_list := a, next_node := b\<rparr>"
  using assms by (auto simp: get_node_def split: if_splits)

text \<open>A spare node goes to the free list.\<close>

lemma put_spare_store:
  assumes "store pub role B s" "role i = Spare"
  shows "store pub (role(i := Unused)) B (put_node i s)"
proof -
  note D = storeD [OF assms(1)]
  define role' where "role' = role(i := Unused)"
  have sets: "with_role InTree role' = with_role InTree role" "with_role Unused role' = insert i (with_role Unused role)"
    "with_role Batched role' = with_role Batched role" "{k. role' k \<noteq> Absent} = {k. role k \<noteq> Absent}" "live role' = live role"
    using assms(2) by (auto simp: role'_def live_def)
  have "i \<in> {k. role k \<noteq> Absent}"
    using assms(2) by simp
  then have "i < NIL"
    using D(1,6,7) by simp
  then have "wired (with_role InTree role) (with_role InTree role) (insert i (with_role Unused role)) (put_node i s)"
    using assms(2) by (intro wired_put_node D(2)) auto
  moreover have "extent role' (nodes (put_node i s)) k = extent role (nodes s) k" if "k \<in> live role" for k
    using that assms(2) by (auto simp: extent_def role'_def live_def)
  moreover have "offset (nodes (put_node i s) k) = offset (nodes s k)" for k
    by simp
  ultimately have "store pub role' B (put_node i s)"
    using D by (simp add: store_def sets tiled_def del: put_node_simps(1))
  then show ?thesis
    by (simp add: role'_def)
qed


section \<open>Releasing pages\<close>

text \<open>Pages that no node covers, as the claims about allocation see them.\<close>

definition uncovered :: "(nat \<Rightarrow> role) \<Rightarrow> (nat \<Rightarrow> node) \<Rightarrow> nat \<Rightarrow> nat \<Rightarrow> bool" where
  "uncovered role ns off n \<longleftrightarrow> (\<forall>j \<in> live role. apart off n (offset (ns j)) (extent role ns j))"

text \<open>What allocation and release leave alone: everything but nodes, treap, heap, free list and the counters.\<close>

definition other_part :: "space \<Rightarrow> (nat \<Rightarrow> nat) \<times> (nat \<Rightarrow> nat) \<times> (nat \<Rightarrow> nat \<Rightarrow> nat) \<times> nat list \<times> (nat \<times> nat) list \<times> (nat \<times> nat) list" where
  "other_part s = (slabs s, slab_ids s, slab_free s, remote_slab s, remote_page s, decommits s)"

lemma fresh_node_simps [simp]: "offset (fresh_node off n) = off" "npages (fresh_node off n) = n"
  by (simp_all add: fresh_node_def)

lemma page_deallocate_correct:
  assumes "store pub role (batch_list s) s" "length (batch_list s) < coalesce_buffer cfg" "0 < n" "off + n \<le> pub"
    "uncovered role (nodes s) off n" "with_role Spare role = {} \<or> 1 < n \<and> card (with_role Spare role) = 1"
  shows "\<exists>i s'. page_deallocate cfg off n s = Some s' \<and> i \<notin> live role \<and> role i \<noteq> Spare \<and>
    store pub (role(i := Batched)) (batch_list s') s' \<and> batch_list s' = batch_list s @ [i] \<and>
    nodes s' = (nodes s)(i := fresh_node off n) \<and> batch_pages s' = add32 (batch_pages s) n \<and>
    occupied s' = sub64 (occupied s) (n * 2 ^ page_shift cfg) \<and> other_part s' = other_part s"
proof -
  obtain i s1 where got: "get_node s = (i, s1)"
    by force
  let ?n = "fresh_node off n"
  have "InHand \<in> {InHand, Slabbed}" "n = (if InHand = Slabbed then 32 else npages ?n)" "0 < n" "offset ?n + n \<le> pub"
    "\<And>j. j \<in> live role \<Longrightarrow> apart (offset ?n) n (offset (nodes s j)) (extent role (nodes s) j)" "card (with_role Spare role) < n"
    using assms(3-6) by (auto simp: uncovered_def)
  note new = get_node_store [OF assms(1) got this]
  have rest: "batch_list s1 = batch_list s" "other_part s1 = other_part s" "occupied s1 = occupied s" "batch_pages s1 = batch_pages s"
    using got by (auto simp: get_node_def other_part_def split: if_splits)
  have "store pub (role(i := Batched)) (batch_list s @ [i]) (s1\<lparr>nodes := (nodes s1)(i := ?n)\<rparr>)"
    using store_push_batched [OF new(4), of i] by simp
  then show ?thesis
    using new(1,2,5) rest assms(2) by (intro exI [of _ i]) (simp add: page_deallocate_def got Let_def other_part_def)
qed

section \<open>Cutting free regions\<close>

text \<open>What giving pages \<open>P\<close> away does: they leave the free regions, and all else stays.\<close>

definition gives :: "nat set \<Rightarrow> (nat \<Rightarrow> role) \<Rightarrow> space \<Rightarrow> (nat \<Rightarrow> role) \<Rightarrow> space \<Rightarrow> bool" where
  "gives P role s role' s' \<longleftrightarrow>
     P \<subseteq> covered {InTree} role (nodes s) \<and> covered {InTree} role' (nodes s') = covered {InTree} role (nodes s) - P \<and>
     (\<forall>k r. r \<in> {Batched, InHand, Slabbed, Spare} \<longrightarrow> (role' k = r \<longleftrightarrow> role k = r)) \<and>
     (\<forall>k. role k \<in> {Batched, InHand, Slabbed, Spare} \<longrightarrow> nodes s' k = nodes s k) \<and>
     batch_list s' = batch_list s \<and> batch_pages s' = batch_pages s \<and> batch_min s' = batch_min s \<and> batch_max s' = batch_max s \<and>
     other_part s' = other_part s"

lemma tiled_shrink:
  assumes "tiled pub role ns" "i \<in> live role" "role i \<noteq> Slabbed" "offset (ns i) \<le> a" "0 < n" "a + n \<le> offset (ns i) + npages (ns i)"
    "offset (ns' i) = a" "npages (ns' i) = n" "\<And>j. j \<noteq> i \<Longrightarrow> offset (ns' j) = offset (ns j) \<and> npages (ns' j) = npages (ns j)"
  shows "tiled pub role ns'"
proof -
  have ext: "extent role ns' j = (if j = i then n else extent role ns j)" for j
    using assms(3,8,9) by (simp add: extent_def)
  have off: "offset (ns' j) = (if j = i then a else offset (ns j))" for j
    using assms(7,9) by simp
  have exti: "extent role ns i = npages (ns i)"
    using assms(3) by (simp add: extent_def)
  have narrow: "apart a n (offset (ns j)) (extent role ns j)" if "j \<in> live role" "j \<noteq> i" for j
    using tiled_apart [OF assms(1,2) that(1)] that(2) assms(4,6) by (auto simp: apart_def exti)
  show ?thesis
    unfolding tiled_def ext off
    using tiled_bound [OF assms(1)] tiled_bound [OF assms(1,2)] tiled_apart [OF assms(1)] narrow apart_sym [OF narrow] assms(5,6)
    by (auto simp: exti)
qed

lemma covered_others:
  assumes "tiled pub role ns" "role i = InTree" "\<And>j. j \<noteq> i \<Longrightarrow> role j = InTree \<Longrightarrow> offset (ns' j) = offset (ns j) \<and> npages (ns' j) = npages (ns j)"
  shows "\<exists>C. C \<inter> {offset (ns i)..<offset (ns i) + npages (ns i)} = {} \<and>
    covered {InTree} role ns = C \<union> {offset (ns i)..<offset (ns i) + npages (ns i)} \<and>
    covered {InTree} role ns' = C \<union> {offset (ns' i)..<offset (ns' i) + npages (ns' i)} \<and> covered {InTree} (role(i := Unused)) ns' = C"
proof -
  define C where "C = (\<Union>j \<in> with_role InTree role - {i}. region role ns j)"
  have region: "region role ms j = {offset (ms j)..<offset (ms j) + npages (ms j)}" if "role j = InTree" for ms j
    using that by (simp add: region_def extent_def)
  have sets: "{j. role j \<in> {InTree}} = insert i (with_role InTree role - {i})" "{j. (role(i := Unused)) j \<in> {InTree}} = with_role InTree role - {i}"
    using assms(2) by auto
  have same: "region role ns' j = region role ns j" "region (role(i := Unused)) ns' j = region role ns j" if "j \<in> with_role InTree role - {i}" for j
    using that assms(3) by (auto simp: region_def extent_def)
  have "region role ns j \<inter> region role ns i = {}" if "j \<in> with_role InTree role - {i}" for j
    unfolding region_def by (rule apart_disjoint, rule tiled_apart [OF assms(1)]) (use that assms(2) in \<open>auto simp: live_def\<close>)
  then have "C \<inter> region role ns i = {}"
    by (auto simp: C_def)
  moreover have "covered {InTree} role ns = C \<union> region role ns i" "covered {InTree} role ns' = C \<union> region role ns' i"
    "covered {InTree} (role(i := Unused)) ns' = C"
    unfolding covered_def sets C_def using same by auto
  ultimately show ?thesis
    unfolding region [OF assms(2)] by blast
qed

lemma store_shrink:
  assumes "store pub role B s" "role i = InTree" "0 < k" "k \<le> npages (nodes s i)"
  shows "store pub role B (s\<lparr>nodes := set_pages (nodes s) i k\<rparr>)"
proof -
  have "wired (with_role InTree role) (with_role InTree role) (with_role Unused role) (s\<lparr>nodes := set_pages (nodes s) i k\<rparr>)"
    by (rule wired_nodes [OF storeD(2) [OF assms(1)]]) simp_all
  moreover have "tiled pub role (set_pages (nodes s) i k)"
    by (rule tiled_shrink [OF storeD(3) [OF assms(1)], of i "offset (nodes s i)" k]) (use assms live_roles(1) [of role i] in auto)
  ultimately show ?thesis
    using storeD [OF assms(1)] by (simp add: store_def)
qed

text \<open>The front of a free region is cut off: its node moves in the treap and in the heap.\<close>

lemma store_cut_front:
  assumes "store pub role B s" "role i = InTree" "0 < k" "k < npages (nodes s i)"
  defines "move \<equiv> (\<lambda>s. s\<lparr>nodes := set_pages (set_offset (nodes s) i (offset (nodes s i) + k)) i (npages (nodes s i) - k)\<rparr>)"
  shows "\<exists>s1 s2. tree_erase i s = Some s1 \<and> kept (with_role InTree role) s s1 \<and> tree_insert i (move s1) = Some s2 \<and>
    store pub role B (heap_fix i s2) \<and> kept (with_role InTree role) (move s1) (heap_fix i s2)"
proof -
  note D = storeD [OF assms(1)]
  let ?T = "with_role InTree role" and ?U = "with_role Unused role"
  have live: "i \<in> live role" and i: "i \<in> ?T"
    using assms(2) live_roles(1) [of role i] by simp_all
  obtain s1 where s1: "tree_erase i s = Some s1" "wired (?T - {i}) ?T ?U s1" "kept ?T s s1"
    using wired_tree_erase [OF D(2) i] by blast
  note same = kept_payload(1,2) [OF s1(3)]
  have wired: "wired (?T - {i}) ?T ?U (move s1)"
    unfolding move_def by (rule wired_nodes [OF s1(2)]) auto
  have tiled: "tiled pub role (nodes (move s1))"
    by (rule tiled_shrink [OF D(3) live, of "offset (nodes s i) + k" "npages (nodes s i) - k"])
      (use assms(2-4) same in \<open>auto simp: move_def\<close>)
  have "\<forall>j \<in> ?T - {i}. offset (nodes (move s1) j) \<noteq> offset (nodes (move s1) i)"
    using tiled_offset [OF tiled _ live] live_roles(1) by fastforce
  then obtain s2 where s2: "tree_insert i (move s1) = Some s2" "wired (insert i (?T - {i})) ?T ?U s2" "kept (insert i (?T - {i})) (move s1) s2"
    using wired_tree_insert [OF wired] store_live(3) [OF assms(1) live] by blast
  have T: "insert i (?T - {i}) = ?T"
    using i by auto
  have "?T \<inter> ?U = {}"
    by auto
  note s3 = wired_heap_fix [OF s2(2) [unfolded T] i this]
  have kept: "kept ?T (move s1) (heap_fix i s2)"
    by (rule kept_trans [OF s2(3) [unfolded T] s3(2)]) simp_all
  have "next_node (heap_fix i s2) = next_node s"
    using kept_rest(1) [OF kept] kept_rest(1) [OF s1(3)] by (simp add: move_def)
  then have "store pub role B (heap_fix i s2)"
    using D s3(1) tiled by (simp add: store_def kept_tiled [OF kept])
  then show ?thesis
    using s1(1,3) s2(1) kept by blast
qed

lemma store_drop:
  assumes "store pub role B s" "role i = InTree"
  shows "\<exists>s1. tree_erase i (heap_erase i s) = Some s1 \<and> store pub (role(i := Unused)) B (put_node i s1) \<and> kept (with_role InTree role) s s1"
    "\<exists>s1. tree_erase i s = Some s1 \<and> kept (with_role InTree role) s s1 \<and>
      (let s2 = s1\<lparr>nodes := set_pages (nodes s1) i k\<rparr> in
        store pub (role(i := Unused)) B (put_node i (heap_erase i s2)) \<and> kept (with_role InTree role) s2 (heap_erase i s2))"
proof -
  note D = storeD [OF assms(1)]
  let ?T = "with_role InTree role" and ?U = "with_role Unused role"
  define role' where "role' = role(i := Unused)"
  have i: "i \<in> ?T" "?T \<inter> ?U = {}" "i \<noteq> NIL" "i \<in> live role"
    using assms(2) live_roles(1) [of role i] store_live(3) [OF assms(1)] by auto
  have sets: "with_role InTree role' = ?T - {i}" "with_role Unused role' = insert i ?U" "with_role Batched role' = with_role Batched role"
    "{k. role' k \<noteq> Absent} = {k. role k \<noteq> Absent}" "live role' = live role - {i}"
    using assms(2) by (auto simp: role'_def live_def)
  have final: "store pub (role(i := Unused)) B (put_node i s')"
    if wired: "wired (?T - {i}) (?T - {i}) ?U s'" and same: "\<And>j. j \<noteq> i \<Longrightarrow> offset (nodes s' j) = offset (nodes s j) \<and> npages (nodes s' j) = npages (nodes s j)"
      "next_node s' = next_node s" for s'
  proof -
    have "wired (?T - {i}) (?T - {i}) (insert i ?U) (put_node i s')"
      using assms(2) i(3) by (intro wired_put_node wired) auto
    moreover have "extent role' (nodes (put_node i s')) j = extent role (nodes s) j" "offset (nodes (put_node i s') j) = offset (nodes s j)" if "j \<noteq> i" for j
      using that same(1) by (auto simp: extent_def role'_def)
    then have "tiled pub role' (nodes (put_node i s'))"
      using D(3) unfolding tiled_def sets by (simp del: put_node_simps(1))
    ultimately have "store pub role' B (put_node i s')"
      using D(1,4-7) same(2) by (simp add: store_def sets del: put_node_simps(1))
    then show ?thesis
      by (simp add: role'_def)
  qed
  show "\<exists>s1. tree_erase i (heap_erase i s) = Some s1 \<and> store pub (role(i := Unused)) B (put_node i s1) \<and> kept ?T s s1"
  proof -
    note h = wired_heap_erase [OF D(2) i(1,2)]
    obtain s1 where s1: "tree_erase i (heap_erase i s) = Some s1" "wired (?T - {i}) (?T - {i}) ?U s1" "kept ?T (heap_erase i s) s1"
      using wired_tree_erase [OF h(1) i(1)] by blast
    have kept: "kept ?T s s1"
      by (rule kept_trans [OF h(2) s1(3)]) simp_all
    have "store pub (role(i := Unused)) B (put_node i s1)"
      by (rule final [OF s1(2)]) (simp_all add: kept_payload(1,2) [OF kept] kept_rest(1) [OF kept])
    then show ?thesis
      using s1(1) kept by blast
  qed
  show "\<exists>s1. tree_erase i s = Some s1 \<and> kept ?T s s1 \<and>
      (let s2 = s1\<lparr>nodes := set_pages (nodes s1) i k\<rparr> in
        store pub (role(i := Unused)) B (put_node i (heap_erase i s2)) \<and> kept ?T s2 (heap_erase i s2))"
  proof -
    obtain s1 where s1: "tree_erase i s = Some s1" "wired (?T - {i}) ?T ?U s1" "kept ?T s s1"
      using wired_tree_erase [OF D(2) i(1)] by blast
    define s2 where "s2 = s1\<lparr>nodes := set_pages (nodes s1) i k\<rparr>"
    have "wired (?T - {i}) ?T ?U s2"
      unfolding s2_def by (rule wired_nodes [OF s1(2)]) auto
    note h = wired_heap_erase [OF this i(1,2)]
    have "store pub (role(i := Unused)) B (put_node i (heap_erase i s2))"
    proof (rule final [OF h(1)])
      show "offset (nodes (heap_erase i s2) j) = offset (nodes s j) \<and> npages (nodes (heap_erase i s2) j) = npages (nodes s j)" if "j \<noteq> i" for j
        unfolding kept_payload(1,2) [OF h(2)] using that by (simp add: s2_def kept_payload(1,2) [OF s1(3)])
      show "next_node (heap_erase i s2) = next_node s"
        unfolding kept_rest(1) [OF h(2)] by (simp add: s2_def kept_rest(1) [OF s1(3)])
    qed
    then show ?thesis
      using s1(1,3) h(2) by (auto simp: s2_def Let_def)
  qed
qed


lemma covered_add:
  assumes "role c \<noteq> InTree"
  shows "covered {InTree} (role(c := InTree)) (ns(c := n)) = covered {InTree} role ns \<union> {offset n..<offset n + npages n}"
proof -
  have sets: "{j. (role(c := InTree)) j \<in> {InTree}} = insert c {j. role j \<in> {InTree}}"
    by auto
  have "region (role(c := InTree)) (ns(c := n)) j = region role ns j" if "role j = InTree" for j
    using that assms by (auto simp: region_def extent_def)
  then show ?thesis
    unfolding covered_def sets by (simp add: region_def extent_def) blast
qed

lemma kept_other_part:
  assumes "kept S s s'"
  shows "other_part s' = other_part s" "batch_list s' = batch_list s" "batch_pages s' = batch_pages s" "batch_min s' = batch_min s"
    "batch_max s' = batch_max s" "occupied s' = occupied s" "total s' = total s"
  using kept_rest [OF assms] by (simp_all add: other_part_def)

lemma get_node_part:
  assumes "get_node s = (i, s1)"
  shows "other_part s1 = other_part s" "batch_list s1 = batch_list s" "batch_pages s1 = batch_pages s" "batch_min s1 = batch_min s"
    "batch_max s1 = batch_max s" "occupied s1 = occupied s" "total s1 = total s"
  using assms by (auto simp: get_node_def other_part_def split: if_splits)

lemma other_part_simps [simp]:
  "other_part (s\<lparr>nodes := ns\<rparr>) = other_part s" "other_part (s\<lparr>total := x\<rparr>) = other_part s" "other_part (s\<lparr>occupied := x\<rparr>) = other_part s"
  "other_part (put_node i s) = other_part s" "batch_pages (put_node i s) = batch_pages s" "batch_min (put_node i s) = batch_min s"
  "batch_max (put_node i s) = batch_max s" "occupied (put_node i s) = occupied s" "total (put_node i s) = total s"
  by (simp_all add: other_part_def put_node_def)

lemma give_front:
  assumes "C \<inter> {a..<a + n} = {}" "k \<le> (n :: nat)"
  shows "(C \<union> {a..<a + n}) - {a..<a + k} = C \<union> {a + k..<a + n}"
  using assms by auto

lemma give_middle:
  assumes "C \<inter> {a..<a + n} = {}" "d + k \<le> (n :: nat)"
  shows "(C \<union> {a..<a + n}) - {a + d..<a + d + k} = C \<union> {a..<a + d} \<union> {a + d + k..<a + n}"
  using assms by auto

lemma gives_cut:
  assumes "store pub role B s" "role i = InTree" "0 < k" "k < npages (nodes s i)"
    "nodes s1 = set_pages (set_offset (nodes s) i (offset (nodes s i) + k)) i (npages (nodes s i) - k)"
  shows "{offset (nodes s i)..<offset (nodes s i) + k} \<subseteq> covered {InTree} role (nodes s)"
    "covered {InTree} role (nodes s1) = covered {InTree} role (nodes s) - {offset (nodes s i)..<offset (nodes s i) + k}"
proof -
  obtain C where C: "C \<inter> {offset (nodes s i)..<offset (nodes s i) + npages (nodes s i)} = {}"
    "covered {InTree} role (nodes s) = C \<union> {offset (nodes s i)..<offset (nodes s i) + npages (nodes s i)}"
    "covered {InTree} role (nodes s1) = C \<union> {offset (nodes s1 i)..<offset (nodes s1 i) + npages (nodes s1 i)}"
    using covered_others [OF storeD(3) [OF assms(1)] assms(2), of "nodes s1"] assms(5) by auto
  have "offset (nodes s1 i) = offset (nodes s i) + k" "offset (nodes s1 i) + npages (nodes s1 i) = offset (nodes s i) + npages (nodes s i)"
    using assms(4,5) by simp_all
  then have "covered {InTree} role (nodes s1) = C \<union> {offset (nodes s i) + k..<offset (nodes s i) + npages (nodes s i)}"
    unfolding C(3) by (simp only:)
  also have "\<dots> = covered {InTree} role (nodes s) - {offset (nodes s i)..<offset (nodes s i) + k}"
    unfolding C(2) using assms(4) by (intro give_front [OF C(1), symmetric]) simp
  finally show "covered {InTree} role (nodes s1) = covered {InTree} role (nodes s) - {offset (nodes s i)..<offset (nodes s i) + k}" .
  show "{offset (nodes s i)..<offset (nodes s i) + k} \<subseteq> covered {InTree} role (nodes s)"
    using C(2) assms(4) by auto
qed

lemma page_take_correct:
  assumes "store pub role (batch_list s) s" "role i = InTree" "0 < pages" "before + pages \<le> npages (nodes s i)" "with_role Spare role = {}"
  defines "off \<equiv> offset (nodes s i) + before"
  shows "\<exists>role' s'. page_take cfg pages i before s = Some (off, s') \<and> store pub role' (batch_list s') s' \<and> gives {off..<off + pages} role s role' s' \<and>
    occupied s' = add64 (occupied s) (pages * 2 ^ page_shift cfg)"
proof -
  note D = storeD [OF assms(1)]
  let ?T = "with_role InTree role" and ?n = "npages (nodes s i)" and ?o = "offset (nodes s i)"
  define after where "after = ?n - pages - before"
  have live: "i \<in> live role"
    by (rule live_roles(1) [of role i, OF assms(2)])
  note bound = store_end [OF assms(1) live]
  have size: "?o + ?n \<le> pub" "pub < 2 ^ 32"
    using bound(2) D(1) NIL_less assms(2) by auto
  have sub: "sub32 (sub32 ?n pages) before = after" and off: "add32 ?o before = off" and stop: "add32 off pages = off + pages"
    using size assms(4) by (simp_all add: sub32_eq add32_eq after_def off_def)
  have whole: "?n = before + pages + after"
    using assms(4) by (simp add: after_def)
  obtain C where C: "C \<inter> {?o..<?o + ?n} = {}" "covered {InTree} role (nodes s) = C \<union> {?o..<?o + ?n}"
    using covered_others [OF D(3) assms(2), of "nodes s"] by auto
  have inside: "{off..<off + pages} \<subseteq> covered {InTree} role (nodes s)"
    using C(2) assms(4) by (auto simp: off_def)
  have remove: "covered {InTree} role (nodes s) - {off..<off + pages} = C \<union> {?o..<?o + before} \<union> {off + pages..<?o + ?n}"
    using give_middle [OF C(1) assms(4)] C(2) by (simp add: off_def add.assoc)
  have finish: "\<exists>role' s'. page_take cfg pages i before s = Some (off, s') \<and> store pub role' (batch_list s') s' \<and> gives {off..<off + pages} role s role' s' \<and>
      occupied s' = add64 (occupied s) (pages * 2 ^ page_shift cfg)"
    if "page_take cfg pages i before s = Some (off, s1\<lparr>total := add32 (total s1) pages, occupied := add64 (occupied s1) (pages * 2 ^ page_shift cfg)\<rparr>)"
      "store pub role1 (batch_list s) s1" "covered {InTree} role1 (nodes s1) = C \<union> {?o..<?o + before} \<union> {off + pages..<?o + ?n}"
      "\<And>k r. r \<in> {Batched, InHand, Slabbed, Spare} \<Longrightarrow> role1 k = r \<longleftrightarrow> role k = r"
      "\<And>k. role k \<in> {Batched, InHand, Slabbed, Spare} \<Longrightarrow> nodes s1 k = nodes s k"
      "batch_list s1 = batch_list s" "batch_pages s1 = batch_pages s" "batch_min s1 = batch_min s" "batch_max s1 = batch_max s"
      "other_part s1 = other_part s" "occupied s1 = occupied s" for role1 s1
    using that inside
    by (intro exI [of _ role1] exI [of _ "s1\<lparr>total := add32 (total s1) pages, occupied := add64 (occupied s1) (pages * 2 ^ page_shift cfg)\<rparr>"])
      (simp add: gives_def remove)
  show ?thesis
  proof (cases "before = 0")
    case False
    define s1 where "s1 = s\<lparr>nodes := set_pages (nodes s) i before\<rparr>"
    have "store pub role (batch_list s) s1"
      unfolding s1_def using False assms(2,4) by (intro store_shrink [OF assms(1)]) simp_all
    note s2 = store_heap_fix [OF this assms(2)]
    define s2 where "s2 = heap_fix i s1"
    note s2 = s2 [folded s2_def]
    have pay: "offset (nodes s2 j) = offset (nodes s j)" "npages (nodes s2 j) = (if j = i then before else npages (nodes s j))" for j
      using kept_payload(1,2) [OF s2(3)] by (simp_all add: s1_def)
    have same: "nodes s2 j = nodes s j" if "role j \<noteq> InTree" for j
      using kept_payload(3) [OF s2(3), of j] that assms(2) by (auto simp: s1_def)
    have cover: "covered {InTree} role (nodes s2) = C \<union> {?o..<?o + before}"
    proof -
      obtain C' where "C' \<inter> {?o..<?o + ?n} = {}" "covered {InTree} role (nodes s) = C' \<union> {?o..<?o + ?n}"
          "covered {InTree} role (nodes s2) = C' \<union> {?o..<?o + before}"
        using covered_others [OF D(3) assms(2), of "nodes s2"] pay by auto
      then show ?thesis
        using C by blast
    qed
    note rest = kept_other_part [OF s2(3)]
    show ?thesis
    proof (cases "after = 0")
      case True
      then have cut: "page_take cfg pages i before s = Some (off, s2\<lparr>total := add32 (total s2) pages, occupied := add64 (occupied s2) (pages * 2 ^ page_shift cfg)\<rparr>)"
        using False by (simp add: page_take_def Let_def sub off s2_def s1_def)
      show ?thesis
        by (rule finish [OF cut s2(1)]) (use same rest cover True whole in \<open>auto simp: s1_def off_def\<close>)
    next
      case after: False
      obtain c s3 where got: "get_node s2 = (c, s3)"
        by force
      let ?c = "fresh_node (off + pages) after"
      have gap: "apart (offset ?c) after (offset (nodes s2 j)) (extent role (nodes s2) j)" if "j \<in> live role" for j
        using tiled_apart [OF D(3) live that] tiled_bound [OF D(3) that] assms(2) whole
        by (cases "j = i") (auto simp: apart_def pay extent_def off_def)
      have "InHand \<in> {InHand, Slabbed}" "after = (if InHand = Slabbed then 32 else npages ?c)" "0 < after" "offset ?c + after \<le> pub"
        using after size whole by (simp_all add: off_def)
      note new = get_node_store [OF s2(1) got this gap]
      have spare: "card (with_role Spare role) < after"
        using after assms(5) by simp
      note new = new [OF _ spare, simplified]
      define s4 where "s4 = s3\<lparr>nodes := (nodes s3)(c := ?c)\<rparr>"
      define role1 where "role1 = role(c := InTree)"
      have hand: "(role(c := InHand)) c = InHand"
        by simp
      obtain s5 where s5: "tree_insert c s4 = Some s5" "store pub role1 (batch_list s) (heap_insert c s5)" "kept (with_role InTree role1) s4 (heap_insert c s5)"
        using store_insert [OF new(4) [folded s4_def] hand, unfolded fun_upd_upd] unfolding role1_def by blast
      have roles: "role c \<notin> {Batched, InHand, Slabbed, Spare, InTree}"
        using new(1,2) by (auto simp: live_def)
      have "covered {InTree} role1 (nodes (heap_insert c s5)) = covered {InTree} role1 ((nodes s2)(c := ?c))"
        unfolding kept_tiled [OF s5(3)] by (simp add: s4_def new(5))
      then have cover': "covered {InTree} role1 (nodes (heap_insert c s5)) = C \<union> {?o..<?o + before} \<union> {off + pages..<?o + ?n}"
        using covered_add [of role c "nodes s2" ?c] roles cover whole by (simp add: role1_def off_def add.assoc)
      have same': "nodes (heap_insert c s5) k = nodes s k" if "role k \<in> {Batched, InHand, Slabbed, Spare}" for k
      proof -
        have "k \<noteq> c" "k \<notin> with_role InTree role1"
          using that roles by (auto simp: role1_def)
        then show ?thesis
          using kept_payload(3) [OF s5(3), of k] same [of k] that by (auto simp: s4_def new(5))
      qed
      note rest' = kept_other_part [OF s5(3)]
      note rest'' = get_node_part [OF got]
      have cut: "page_take cfg pages i before s = Some (off, (heap_insert c s5)\<lparr>total := add32 (total (heap_insert c s5)) pages,
          occupied := add64 (occupied (heap_insert c s5)) (pages * 2 ^ page_shift cfg)\<rparr>)"
        using False after s5(1) got by (simp add: page_take_def Let_def sub off stop s4_def s2_def s1_def)
      show ?thesis
        by (rule finish [OF cut s5(2) cover' _ same']) (use roles rest rest' rest'' in \<open>auto simp: role1_def s4_def s1_def\<close>)
    qed
  next
    case before: True
    then have "off = ?o"
      by (simp add: off_def)
    show ?thesis
    proof (cases "after = 0")
      case False
      then have "pages < ?n" "after = ?n - pages"
        using whole before by simp_all
      obtain s1 s2 where cut: "tree_erase i s = Some s1" "kept ?T s s1"
        "tree_insert i (s1\<lparr>nodes := set_pages (set_offset (nodes s1) i (offset (nodes s1 i) + pages)) i (npages (nodes s1 i) - pages)\<rparr>) = Some s2"
        "store pub role (batch_list s) (heap_fix i s2)"
        "kept ?T (s1\<lparr>nodes := set_pages (set_offset (nodes s1) i (offset (nodes s1 i) + pages)) i (npages (nodes s1 i) - pages)\<rparr>) (heap_fix i s2)"
        using store_cut_front [OF assms(1,2,3) \<open>pages < ?n\<close>] by blast
      note pay = kept_payload(1,2) [OF cut(2)]
      have "covered {InTree} role (nodes (heap_fix i s2)) = covered {InTree} role (set_pages (set_offset (nodes s) i (?o + pages)) i (?n - pages))"
        unfolding kept_tiled [OF cut(5)] by (rule tiled_cong) (simp_all add: pay)
      also have "\<dots> = covered {InTree} role (nodes s) - {?o..<?o + pages}"
        using gives_cut(2) [OF assms(1,2,3) \<open>pages < ?n\<close>, of "s\<lparr>nodes := set_pages (set_offset (nodes s) i (?o + pages)) i (?n - pages)\<rparr>"] by simp
      finally have cover: "covered {InTree} role (nodes (heap_fix i s2)) = C \<union> {?o..<?o + before} \<union> {off + pages..<?o + ?n}"
        using remove before by (simp add: off_def)
      have same: "nodes (heap_fix i s2) k = nodes s k" if "role k \<in> {Batched, InHand, Slabbed, Spare}" for k
        using kept_payload(3) [OF cut(5), of k] kept_payload(3) [OF cut(2), of k] that assms(2) by auto
      note rest = kept_other_part [OF cut(2)] kept_other_part [OF cut(5)]
      have take: "page_take cfg pages i before s = Some (off, (heap_fix i s2)\<lparr>total := add32 (total (heap_fix i s2)) pages,
          occupied := add64 (occupied (heap_fix i s2)) (pages * 2 ^ page_shift cfg)\<rparr>)"
        using False before cut(1,3) pay \<open>off = ?o\<close> \<open>after = ?n - pages\<close>
        by (simp add: page_take_def Let_def sub [unfolded before] off [unfolded before] stop [unfolded \<open>off = ?o\<close>])
      show ?thesis
        by (rule finish [OF take cut(4) cover _ same]) (use rest in auto)
    next
      case True
      obtain s1 where drop: "tree_erase i (heap_erase i s) = Some s1" "store pub (role(i := Unused)) (batch_list s) (put_node i s1)" "kept ?T s s1"
        using store_drop(1) [OF assms(1,2)] by blast
      have "covered {InTree} (role(i := Unused)) (nodes (put_node i s1)) = C"
      proof -
        have "offset (nodes (put_node i s1) j) = offset (nodes s j) \<and> npages (nodes (put_node i s1) j) = npages (nodes s j)" for j
          by (simp add: kept_payload [OF drop(3)])
        then obtain C' where "C' \<inter> {?o..<?o + ?n} = {}" "covered {InTree} role (nodes s) = C' \<union> {?o..<?o + ?n}"
            "covered {InTree} (role(i := Unused)) (nodes (put_node i s1)) = C'"
          using covered_others [OF D(3) assms(2), of "nodes (put_node i s1)"] by blast
        then show ?thesis
          using C by blast
      qed
      then have cover: "covered {InTree} (role(i := Unused)) (nodes (put_node i s1)) = C \<union> {?o..<?o + before} \<union> {off + pages..<?o + ?n}"
        using before True whole by (simp add: off_def)
      have same: "nodes (put_node i s1) k = nodes s k" if "role k \<in> {Batched, InHand, Slabbed, Spare}" for k
        using kept_payload(3) [OF drop(3), of k] that assms(2) by auto
      note rest = kept_other_part [OF drop(3)]
      have cut: "page_take cfg pages i before s = Some (off, (put_node i s1)\<lparr>total := add32 (total (put_node i s1)) pages,
          occupied := add64 (occupied (put_node i s1)) (pages * 2 ^ page_shift cfg)\<rparr>)"
        using True before drop(1) by (simp add: page_take_def Let_def sub [unfolded before] off [unfolded before])
      show ?thesis
        by (rule finish [OF cut drop(2) cover _ same]) (use rest assms(2) in auto)
    qed
  qed
qed


lemma page_extend_correct:
  assumes "store pub role (batch_list s) s" "0 < pages"
  shows "\<exists>took role' s'. page_extend cfg off pages s = Some (took, s') \<and>
    (if took then store pub role' (batch_list s') s' \<and> gives {off..<off + pages} role s role' s' \<and>
       occupied s' = add64 (occupied s) (pages * 2 ^ page_shift cfg)
     else s' = s \<and> (\<forall>i. role i = InTree \<longrightarrow> offset (nodes s i) = off \<longrightarrow> npages (nodes s i) < pages))"
proof -
  note D = storeD [OF assms(1)]
  let ?T = "with_role InTree role"
  obtain t where t: "treap_at (nodes s) (treap_root s) t" "by_offset (nodes s) t" "set_tree t = ?T"
    using D(2) by (auto simp: wired_def is_treap_def)
  obtain i where i: "treap_next (nodes s) (treap_root s) off = Some i"
    "if i = NIL then \<forall>j \<in> set_tree t. offset (nodes s j) < off
     else i \<in> set_tree t \<and> off \<le> offset (nodes s i) \<and> (\<forall>j \<in> set_tree t. off \<le> offset (nodes s j) \<longrightarrow> offset (nodes s i) \<le> offset (nodes s j))"
    using treap_next_spec [OF t(1,2), of off] by blast
  show ?thesis
  proof (cases "i \<noteq> NIL \<and> offset (nodes s i) = off \<and> pages \<le> npages (nodes s i)")
    case False
    then have "page_extend cfg off pages s = Some (False, s)"
      using i(1) by (auto simp: page_extend_def)
    moreover have "npages (nodes s j) < pages" if j: "role j = InTree" "offset (nodes s j) = off" for j
    proof -
      have "i \<noteq> NIL" "i \<in> set_tree t" "offset (nodes s i) = off"
        using i(2) j t(3) by (auto split: if_splits intro!: antisym)
      moreover from this have "j = i"
        using by_offset_inject [OF t(2)] j t(3) by auto
      ultimately show ?thesis
        using False by auto
    qed
    ultimately show ?thesis
      by (intro exI [of _ False] exI [of _ role] exI [of _ s]) simp
  next
    case True
    then have inTree: "role i = InTree" and off: "offset (nodes s i) = off"
      using i(2) t(3) by auto
    have live: "i \<in> live role" and size: "off + npages (nodes s i) < 2 ^ 32"
      using live_roles(1) [of role i] store_end(2) [OF assms(1), of i] inTree D(1) NIL_less off by auto
    have guard: "i \<noteq> NIL" "pages \<le> npages (nodes s i)"
      using True by simp_all
    have finish: ?thesis
      if "page_extend cfg off pages s = Some (True, s1\<lparr>total := add32 (total s1) pages, occupied := add64 (occupied s1) (pages * 2 ^ page_shift cfg)\<rparr>)"
        "store pub role1 (batch_list s) s1" "{off..<off + pages} \<subseteq> covered {InTree} role (nodes s)"
        "covered {InTree} role1 (nodes s1) = covered {InTree} role (nodes s) - {off..<off + pages}"
        "\<And>k r. r \<in> {Batched, InHand, Slabbed, Spare} \<Longrightarrow> role1 k = r \<longleftrightarrow> role k = r"
        "\<And>k. role k \<in> {Batched, InHand, Slabbed, Spare} \<Longrightarrow> nodes s1 k = nodes s k"
        "batch_list s1 = batch_list s" "batch_pages s1 = batch_pages s" "batch_min s1 = batch_min s" "batch_max s1 = batch_max s"
        "other_part s1 = other_part s" "occupied s1 = occupied s" for role1 s1
      using that
      by (intro exI [of _ True] exI [of _ role1] exI [of _ "s1\<lparr>total := add32 (total s1) pages, occupied := add64 (occupied s1) (pages * 2 ^ page_shift cfg)\<rparr>"])
        (simp add: gives_def)
    show ?thesis
    proof (cases "pages = npages (nodes s i)")
      case all: True
      define s2 where "s2 = (\<lambda>s1 :: space. s1\<lparr>nodes := set_pages (nodes s1) i 0\<rparr>)"
      obtain s1 where s1: "tree_erase i s = Some s1" "kept ?T s s1"
        "store pub (role(i := Unused)) (batch_list s) (put_node i (heap_erase i (s2 s1)))" "kept ?T (s2 s1) (heap_erase i (s2 s1))"
        using store_drop(2) [OF assms(1) inTree, of 0] by (auto simp: Let_def s2_def)
      let ?s = "put_node i (heap_erase i (s2 s1))"
      have pay: "offset (nodes ?s j) = offset (nodes s j)" "j \<noteq> i \<Longrightarrow> npages (nodes ?s j) = npages (nodes s j)" for j
        using kept_payload(1,2) [OF s1(2)] kept_payload(1,2) [OF s1(4)] by (simp_all add: s2_def)
      obtain C where C: "C \<inter> {off..<off + npages (nodes s i)} = {}" "covered {InTree} role (nodes s) = C \<union> {off..<off + npages (nodes s i)}"
        "covered {InTree} (role(i := Unused)) (nodes ?s) = C"
        using covered_others [OF D(3) inTree, of "nodes ?s"] pay unfolding off by blast
      have cover: "{off..<off + pages} \<subseteq> covered {InTree} role (nodes s)"
        "covered {InTree} (role(i := Unused)) (nodes ?s) = covered {InTree} role (nodes s) - {off..<off + pages}"
        using C all by auto
      have same: "nodes ?s k = nodes s k" if "role k \<in> {Batched, InHand, Slabbed, Spare}" for k
        using kept_payload(3) [OF s1(4), of k] kept_payload(3) [OF s1(2), of k] that inTree by (auto simp: s2_def)
      have "npages (nodes s1 i) = pages"
        using kept_payload(2) [OF s1(2)] all by simp
      then have took: "page_extend cfg off pages s = Some (True, ?s\<lparr>total := add32 (total ?s) pages, occupied := add64 (occupied ?s) (pages * 2 ^ page_shift cfg)\<rparr>)"
        using i(1) guard(1) off all s1(1) by (simp add: page_extend_def Let_def s2_def)
      show ?thesis
        by (rule finish [OF took s1(3) cover _ same])
          (use inTree kept_other_part [OF s1(2)] kept_other_part [OF s1(4)] in \<open>auto simp: s2_def\<close>)
    next
      case False
      then have less: "pages < npages (nodes s i)"
        using guard(2) by simp
      define s2 where "s2 = (\<lambda>s1 :: space. s1\<lparr>nodes := set_pages (set_offset (nodes s1) i (offset (nodes s1 i) + pages)) i (npages (nodes s1 i) - pages)\<rparr>)"
      obtain s1 s3 where cut: "tree_erase i s = Some s1" "kept ?T s s1" "tree_insert i (s2 s1) = Some s3"
        "store pub role (batch_list s) (heap_fix i s3)" "kept ?T (s2 s1) (heap_fix i s3)"
        using store_cut_front [OF assms(1) inTree assms(2) less] unfolding s2_def by blast
      note pay = kept_payload(1,2) [OF cut(2)]
      have shape: "nodes (s\<lparr>nodes := nodes (s2 s)\<rparr>) = set_pages (set_offset (nodes s) i (offset (nodes s i) + pages)) i (npages (nodes s i) - pages)"
        by (simp add: s2_def)
      note gone = gives_cut [OF assms(1) inTree assms(2) less shape, unfolded off]
      have "covered {InTree} role (nodes (heap_fix i s3)) = covered {InTree} role (nodes (s\<lparr>nodes := nodes (s2 s)\<rparr>))"
        unfolding kept_tiled [OF cut(5)] by (rule tiled_cong) (simp_all add: pay s2_def)
      then have cover: "covered {InTree} role (nodes (heap_fix i s3)) = covered {InTree} role (nodes s) - {off..<off + pages}"
        by (simp only: gone(2))
      have same: "nodes (heap_fix i s3) k = nodes s k" if "role k \<in> {Batched, InHand, Slabbed, Spare}" for k
        using kept_payload(3) [OF cut(5), of k] kept_payload(3) [OF cut(2), of k] that inTree by (auto simp: s2_def)
      have "add32 off pages = off + pages"
        using size less by (simp add: add32_eq)
      moreover have "s1\<lparr>nodes := set_offset (set_pages (nodes s1) i (npages (nodes s i) - pages)) i (off + pages)\<rparr> = s2 s1"
        unfolding s2_def pay off by (rule arg_cong [of _ _ "\<lambda>ns. s1\<lparr>nodes := ns\<rparr>"]) (auto simp: fun_eq_iff)
      ultimately have took: "page_extend cfg off pages s = Some (True, (heap_fix i s3)\<lparr>total := add32 (total (heap_fix i s3)) pages,
          occupied := add64 (occupied (heap_fix i s3)) (pages * 2 ^ page_shift cfg)\<rparr>)"
        using i(1) guard off less cut(1,3) pay by (simp add: page_extend_def Let_def)
      show ?thesis
        by (rule finish [OF took cut(4) gone(1) cover _ same])
          (use kept_other_part [OF cut(2)] kept_other_part [OF cut(5)] in \<open>auto simp: s2_def\<close>)
    qed
  qed
qed

section \<open>Finding a free region\<close>

lemma mask_down_eq:
  assumes "k < 64" "x < 2 ^ 64"
  shows "mask_down (2 ^ k) x = x - x mod 2 ^ k"
proof -
  let ?w = "word_of_nat x :: 64 word"
  have "?w AND NOT (word_of_nat (2 ^ k) - 1) = push_bit k (drop_bit k ?w)"
  proof (rule bit_word_eqI)
    fix n assume "n < LENGTH(64)"
    moreover have "word_of_nat (2 ^ k) - 1 = (mask k :: 64 word)"
      by (simp add: mask_eq_exp_minus_1)
    ultimately show "bit (?w AND NOT (word_of_nat (2 ^ k) - 1)) n \<longleftrightarrow> bit (push_bit k (drop_bit k ?w)) n"
      by (auto simp: bit_simps)
  qed
  moreover have "push_bit k (drop_bit k ?w) = ?w - take_bit k ?w"
    using bits_ident [of k ?w] by (simp add: eq_diff_eq)
  moreover have "unat (?w - take_bit k ?w) = unat ?w - unat (take_bit k ?w)"
    by (rule unat_sub) (simp add: word_le_nat_alt unsigned_take_bit_eq take_bit_nat_less_eq_self)
  moreover have x: "unat ?w = x"
    using assms(2) by (simp add: unat_of_nat)
  moreover have "unat (take_bit k ?w) = x mod 2 ^ k"
    unfolding unsigned_take_bit_eq x by (rule take_bit_eq_mod)
  ultimately show ?thesis
    by (simp only: mask_down_def)
qed

text \<open>The difference of the search wraps for a region when the address in its middle, rounded down, lies before
  the start of the partition.  It never does when the partition starts on the alignment.\<close>

definition wraps :: "nat \<Rightarrow> nat \<Rightarrow> nat \<Rightarrow> node \<Rightarrow> bool" where
  "wraps pages al base_mod n \<longleftrightarrow> 1 < al \<and> 0 < base_mod \<and> base_mod + offset n + (npages n - pages) div 2 < al"

definition placeable :: "nat \<Rightarrow> nat \<Rightarrow> nat \<Rightarrow> node \<Rightarrow> bool" where
  "placeable pages al base_mod n \<longleftrightarrow> al \<le> 1 \<or>
     (\<exists>k < 63. al = 2 ^ k) \<and> base_mod < al \<and> (base_mod = 0 \<or> al \<le> base_mod + offset n + (npages n - pages) div 2)"

lemma placeable_iff:
  "placeable pages al base_mod n \<longleftrightarrow> (al \<le> 1 \<or> (\<exists>k < 63. al = 2 ^ k) \<and> base_mod < al) \<and> \<not> wraps pages al base_mod n"
  by (auto simp: placeable_def wraps_def not_less)

lemma place_in_spec:
  assumes "placeable pages al base_mod n" "pages \<le> npages n" "offset n + npages n < 2 ^ 32"
  shows "case place_in n pages al base_mod of
      Some d \<Rightarrow> d + pages \<le> npages n \<and> (1 < al \<longrightarrow> al dvd base_mod + offset n + d)
    | None \<Rightarrow> 1 < al \<and> (\<forall>d. d + pages \<le> npages n \<longrightarrow> \<not> al dvd base_mod + offset n + d)"
proof (cases "al \<le> 1")
  case True
  then show ?thesis
    using assms(2) by (simp add: place_in_def)
next
  case False
  define half where "half = (npages n - pages) div 2"
  define x where "x = base_mod + offset n + half"
  define M where "M = x - x mod al"
  obtain k where k: "k < 63" "al = 2 ^ k" "base_mod < al" "base_mod = 0 \<or> al \<le> x"
    using assms(1) False by (auto simp: placeable_def x_def half_def)
  have half: "half + pages \<le> npages n"
    using assms(2) by (simp add: half_def)
  have "al \<le> 2 ^ 62"
    using k(1) unfolding k(2) by (intro power_increasing) simp_all
  then have small: "al \<le> 4611686018427387904" "offset n + npages n < 4294967296"
    using assms(3) by simp_all
  then have bound: "x < 18446744073709551616" "x + al < 18446744073709551616"
    using k(3) half unfolding x_def by linarith+
  have M: "M \<le> x" "x < M + al" "al dvd M"
  proof -
    have "x mod al < al"
      using False by simp
    then show "M \<le> x" "x < M + al"
      by (simp_all add: M_def)
    show "al dvd M"
      by (simp add: M_def dvd_minus_mod)
  qed
  have above: "base_mod \<le> M"
  proof (cases "base_mod = 0")
    case False
    then have "1 \<le> x div al"
      using k(4) \<open>\<not> al \<le> 1\<close> by (simp add: Suc_leI div_greater_zero_iff)
    then have "al \<le> x div al * al"
      using mult_le_mono1 [of 1 "x div al" al] by simp
    then have "al \<le> M"
      by (simp add: M_def minus_mod_eq_div_mult)
    then show ?thesis
      using k(3) by simp
  qed simp
  have total_sum: "add64 (add64 base_mod (offset n)) half = x"
    using bound by (simp add: add64_eq x_def)
  have masked: "mask_down al x = M"
    using mask_down_eq [of k x] bound k by (simp add: M_def)
  have minus: "sub64 M base_mod = M - base_mod"
    using above M(1) bound by (simp add: sub64_eq)
  have stop: "node_end n = offset n + npages n"
    using assms(3) by (simp add: node_end_def add32_eq)
  define tmp where "tmp = (if M - base_mod < offset n then M - base_mod + al else M - base_mod)"
  have add: "M - base_mod < offset n \<longrightarrow> add64 (M - base_mod) al = M - base_mod + al"
    using M(1) bound by (simp add: add64_eq)
  have tmp: "offset n \<le> tmp" "al dvd base_mod + tmp" "tmp + pages < 18446744073709551616"
    using M above k(3) small half bound by (auto simp: tmp_def x_def)
  have step: "place_in n pages al base_mod = (if offset n + npages n < tmp + pages then None else Some (sub32 (tmp mod 2 ^ 32) (offset n)))"
  proof -
    have "add64 tmp pages = tmp + pages"
      using tmp(3) by (simp add: add64_eq)
    then show ?thesis
      using False tmp(1) add unfolding place_in_def Let_def half_def [symmetric] total_sum masked minus stop tmp_def
      by (cases "M - base_mod < offset n") simp_all
  qed
  show ?thesis
  proof (cases "offset n + npages n < tmp + pages")
    case True
    have "\<not> al dvd base_mod + offset n + d" if d: "d + pages \<le> npages n" for d
    proof
      assume dvd: "al dvd base_mod + offset n + d"
      have low: "M - base_mod < offset n" "tmp = M - base_mod + al"
        using True M(1) half above by (auto simp: tmp_def x_def split: if_splits)
      then have "M < base_mod + offset n + d"
        by linarith
      moreover have "al dvd base_mod + offset n + d - M"
        using dvd M(3) by simp
      ultimately have "al \<le> base_mod + offset n + d - M"
        by (intro dvd_imp_le) simp_all
      then show False
        using True d low above by linarith
    qed
    then show ?thesis
      using True False by (simp add: step)
  next
    case fits: False
    then have "tmp < 2 ^ 32"
      using assms(3) by linarith
    then have "sub32 (tmp mod 2 ^ 32) (offset n) = tmp - offset n"
      using tmp(1) by (simp add: sub32_eq)
    then show ?thesis
      using fits tmp(1,2) by (simp add: step)
  qed
qed


definition fits :: "nat \<Rightarrow> nat \<Rightarrow> nat \<Rightarrow> node \<Rightarrow> nat \<Rightarrow> bool" where
  "fits pages al base_mod n d \<longleftrightarrow> d + pages \<le> npages n \<and> (1 < al \<longrightarrow> al dvd base_mod + offset n + d)"

text \<open>The positions of the heap below a position.\<close>

fun below :: "nat \<Rightarrow> nat \<Rightarrow> bool" where
  "below p q \<longleftrightarrow> (if p < q then below p ((q - 1) div 2) else q = p)"

declare below.simps [simp del]

lemma below_step: "below p q \<longleftrightarrow> q = p \<or> (p < q \<and> below p ((q - 1) div 2))"
  by (subst below.simps) auto

lemma below_le: "below p q \<Longrightarrow> p \<le> q"
  by (subst (asm) below_step) auto

lemma below_root: "below 0 q"
proof (induction q rule: less_induct)
  case (less q)
  then show ?case
    using parent_less [of q] by (subst below_step) auto
qed

lemma below_children: "below p q \<Longrightarrow> q = p \<or> below (p * 2 + 1) q \<or> below (p * 2 + 1 + 1) q"
proof (induction q rule: less_induct)
  case (less q)
  show ?case
  proof (cases "q = p")
    case False
    then have q: "p < q" "below p ((q - 1) div 2)"
      using less.prems below_step [of p q] by auto
    consider "(q - 1) div 2 = p" | "below (p * 2 + 1) ((q - 1) div 2)" | "below (p * 2 + 1 + 1) ((q - 1) div 2)"
      using less.IH [OF parent_less q(2)] q(1) by linarith
    then show ?thesis
    proof cases
      case 1
      then have "q = p * 2 + 1 \<or> q = p * 2 + 1 + 1"
        using q(1) child_cases [of q p] by simp
      then show ?thesis
        using below_step by blast
    next
      case 2
      then show ?thesis
        using below_le [OF 2] parent_less [of q] q(1) below_step [of "p * 2 + 1" q] by (metis le_less_trans less_trans not_gr_zero not_less_zero)
    next
      case 3
      then show ?thesis
        using below_le [OF 3] parent_less [of q] q(1) below_step [of "p * 2 + 1 + 1" q] by (metis le_less_trans less_trans not_gr_zero not_less_zero)
    qed
  qed simp
qed

lemma below_key: "ordered_to n s \<Longrightarrow> below p q \<Longrightarrow> q < n \<Longrightarrow> key_at s q \<le> key_at s p"
proof (induction q rule: less_induct)
  case (less q)
  show ?case
  proof (cases "q = p")
    case False
    then have q: "p < q" "below p ((q - 1) div 2)"
      using less.prems(2) below_step [of p q] by auto
    then have "(q - 1) div 2 < q"
      by (intro parent_less) simp
    then have "key_at s ((q - 1) div 2) \<le> key_at s p"
      using less.IH less.prems q(2) by simp
    moreover have "key_at s q \<le> key_at s ((q - 1) div 2)"
      using less.prems(1,3) q(1) by (simp add: ordered_to_def)
    ultimately show ?thesis by simp
  qed simp
qed

text \<open>The search finds a region that fits; when the heap is ordered, it finds one if there is one.\<close>

lemma page_bisect_spec:
  assumes "\<forall>p < heap_size s. heap_array s p \<noteq> NIL \<and> offset (nodes s (heap_array s p)) + key_at s p < 2 ^ 32 \<and>
    (pages \<le> key_at s p \<longrightarrow> placeable pages al base_mod (nodes s (heap_array s p)))"
  shows "case page_bisect pos pages al base_mod s of (i, d) \<Rightarrow>
    if i = NIL then heap_ordered s \<longrightarrow> (\<forall>q < heap_size s. below pos q \<longrightarrow> (\<forall>d. \<not> fits pages al base_mod (nodes s (heap_array s q)) d))
    else i \<in> heap_ids s \<and> fits pages al base_mod (nodes s i) d"
  using assms
proof (induction pos pages al base_mod s rule: page_bisect.induct)
  case (1 pos pages al base_mod s)
  show ?case
  proof (cases "heap_size s \<le> pos")
    case True
    have "\<not> below pos q" if "q < heap_size s" for q
      using below_le [of pos q] that True by linarith
    then show ?thesis
      using True by (subst page_bisect.simps) simp
  next
    case False
    define i where "i = heap_array s pos"
    have i: "i \<noteq> NIL" "i \<in> heap_ids s" "offset (nodes s i) + npages (nodes s i) < 2 ^ 32"
      using 1(3) False by (auto simp: i_def heap_ids_def)
    show ?thesis
    proof (cases "npages (nodes s i) < pages")
      case True
      have "\<not> fits pages al base_mod (nodes s (heap_array s q)) d" if "heap_ordered s" "q < heap_size s" "below pos q" for q d
        using below_key [OF that(1,3,2)] True by (auto simp: fits_def i_def)
      then show ?thesis
        using False True by (subst page_bisect.simps) (simp add: i_def)
    next
      case wide: False
      then have spec: "case place_in (nodes s i) pages al base_mod of
          Some d \<Rightarrow> fits pages al base_mod (nodes s i) d | None \<Rightarrow> \<forall>d. \<not> fits pages al base_mod (nodes s i) d"
        using place_in_spec [of pages al base_mod "nodes s i"] i(3) 1(3) False by (auto simp: i_def fits_def split: option.splits)
      show ?thesis
      proof (cases "place_in (nodes s i) pages al base_mod")
        case (Some d)
        then have "page_bisect pos pages al base_mod s = (i, d)"
          using False wide by (subst page_bisect.simps) (simp add: i_def)
        then show ?thesis
          using spec Some i by simp
      next
        case None
        define r1 r2 where "r1 = page_bisect (pos * 2 + 1) pages al base_mod s" and "r2 = page_bisect (pos * 2 + 1 + 1) pages al base_mod s"
        have "page_bisect pos pages al base_mod s =
            (if fst r2 = NIL \<or> (fst r1 \<noteq> NIL \<and> npages (nodes s (fst r2)) \<le> npages (nodes s (fst r1))) then r1 else r2)"
          unfolding r1_def r2_def using False wide None by (subst page_bisect.simps) (simp only: i_def Let_def if_False option.case)
        moreover have "case r1 of (i, d) \<Rightarrow>
            if i = NIL then heap_ordered s \<longrightarrow> (\<forall>q < heap_size s. below (pos * 2 + 1) q \<longrightarrow> (\<forall>d. \<not> fits pages al base_mod (nodes s (heap_array s q)) d))
            else i \<in> heap_ids s \<and> fits pages al base_mod (nodes s i) d"
          unfolding r1_def by (rule 1(1)) (use False wide None 1(3) in \<open>simp_all add: i_def\<close>)
        moreover have "case r2 of (i, d) \<Rightarrow>
            if i = NIL then heap_ordered s \<longrightarrow> (\<forall>q < heap_size s. below (pos * 2 + 1 + 1) q \<longrightarrow> (\<forall>d. \<not> fits pages al base_mod (nodes s (heap_array s q)) d))
            else i \<in> heap_ids s \<and> fits pages al base_mod (nodes s i) d"
          unfolding r2_def by (rule 1(2)) (use False wide None 1(3) in \<open>simp_all add: i_def\<close>)
        moreover have "\<forall>d. \<not> fits pages al base_mod (nodes s (heap_array s pos)) d"
          using spec None by (simp add: i_def)
        ultimately show ?thesis
          using below_children [of pos] by (auto split: prod.splits if_splits) blast
      qed
    qed
  qed
qed

lemma store_heap:
  assumes "store pub role B s" "p < heap_size s"
  shows "heap_array s p \<noteq> NIL" "offset (nodes s (heap_array s p)) + key_at s p < 2 ^ 32" "role (heap_array s p) = InTree"
proof -
  have "heap_array s p \<in> heap_ids s"
    using assms(2) by (simp add: heap_ids_def)
  then show inTree: "role (heap_array s p) = InTree"
    using storeD(2) [OF assms(1)] by (auto simp: wired_def)
  note live = live_roles(1) [of role "heap_array s p", OF inTree]
  show "heap_array s p \<noteq> NIL"
    by (rule store_live(3) [OF assms(1) live])
  show "offset (nodes s (heap_array s p)) + key_at s p < 2 ^ 32"
    using store_end(2,4) [OF assms(1) live] inTree NIL_less by simp
qed

lemma bisect_spec:
  assumes "store pub role B s" "\<forall>i. role i = InTree \<longrightarrow> pages \<le> npages (nodes s i) \<longrightarrow> placeable pages al base_mod (nodes s i)"
  shows "case page_bisect 0 pages al base_mod s of (i, d) \<Rightarrow>
    if i = NIL then heap_ordered s \<longrightarrow> (\<forall>j d. role j = InTree \<longrightarrow> \<not> fits pages al base_mod (nodes s j) d)
    else role i = InTree \<and> fits pages al base_mod (nodes s i) d"
proof -
  have ids: "heap_ids s = with_role InTree role"
    using storeD(2) [OF assms(1)] by (simp add: wired_def)
  have "\<exists>q < heap_size s. heap_array s q = j" if "role j = InTree" for j
  proof -
    have "j \<in> heap_ids s"
      using that by (simp add: ids)
    then show ?thesis
      by (auto simp: heap_ids_def)
  qed
  then show ?thesis
    using page_bisect_spec [of s pages al base_mod 0] store_heap [OF assms(1)] assms(2) below_root ids
    by (auto split: prod.splits if_splits) metis
qed

text \<open>C14.  A search from the root of the heap for a place on an alignment that is a power of two returns a free region
  and a place in it where the request fits, aligned as required, provided that no region of enough pages makes the
  difference of the search wrap; it returns nothing only when no free region fits, as long as the heap is in order.\<close>

theorem bisect_finds:
  assumes "store pub role B s" "al \<le> 1 \<or> (\<exists>k < 63. al = 2 ^ k) \<and> base_mod < al"
    "\<forall>i. role i = InTree \<longrightarrow> pages \<le> npages (nodes s i) \<longrightarrow> \<not> wraps pages al base_mod (nodes s i)"
  shows "case page_bisect 0 pages al base_mod s of (i, d) \<Rightarrow>
    if i = NIL then heap_ordered s \<longrightarrow> (\<forall>j d. role j = InTree \<longrightarrow> \<not> fits pages al base_mod (nodes s j) d)
    else role i = InTree \<and> fits pages al base_mod (nodes s i) d"
  by (rule bisect_spec [OF assms(1)]) (use assms(2,3) in \<open>auto simp: placeable_iff\<close>)

text \<open>The other case: the rounded address is the one before the partition, and the distance to it wraps.\<close>

lemma place_wraps:
  assumes "wraps pages al base_mod n" "\<exists>k < 63. al = 2 ^ k" "pages \<le> npages n" "offset n + npages n < 2 ^ 32"
  shows "place_in n pages al base_mod = (if base_mod \<le> pages then Some (sub32 (2 ^ 32 - base_mod) (offset n)) else None)"
proof -
  obtain k where k: "k < 63" "al = 2 ^ k"
    using assms(2) by blast
  define x where "x = base_mod + offset n + (npages n - pages) div 2"
  have w: "1 < al" "0 < base_mod" "x < al"
    using assms(1) by (simp_all add: wraps_def x_def)
  have "al \<le> 2 ^ 62"
    unfolding k(2) using k(1) by (intro power_increasing) simp_all
  then have al: "al \<le> 4611686018427387904"
    by simp
  have small: "offset n + npages n < 4294967296" "base_mod \<le> x"
    using assms(4) by (simp_all add: x_def)
  have sum: "add64 (add64 base_mod (offset n)) ((npages n - pages) div 2) = x"
    using w(3) al by (simp add: add64_eq x_def)
  have "x mod al = x"
    using w(3) by simp
  then have down: "mask_down al x = 0"
    using mask_down_eq [of k x] k w(3) al by simp
  have diff: "sub64 0 base_mod = 18446744073709551616 - base_mod"
    using w(2,3) small(2) al by (simp add: sub64_def)
  have far: "\<not> 18446744073709551616 - base_mod < offset n"
    using w(3) al small by linarith
  have stop: "node_end n = offset n + npages n"
    using assms(4) by (simp add: node_end_def add32_eq)
  have total: "add64 (18446744073709551616 - base_mod) pages =
      (if base_mod \<le> pages then pages - base_mod else 18446744073709551616 - base_mod + pages)"
  proof (cases "base_mod \<le> pages")
    case True
    have "pages < 4294967296"
      using assms(3) small(1) by linarith
    have "18446744073709551616 - base_mod + pages = 18446744073709551616 + (pages - base_mod)"
      using True w(3) al small(2) by linarith
    then have "add64 (18446744073709551616 - base_mod) pages = (18446744073709551616 + (pages - base_mod)) mod 18446744073709551616"
      by (simp only: add64_def) simp
    then show ?thesis
      using True \<open>pages < 4294967296\<close> by (simp only: mod_add_self1) simp
  next
    case False
    moreover have "base_mod \<le> 4611686018427387904"
      using w(3) al small(2) by linarith
    ultimately have "18446744073709551616 - base_mod + pages < 18446744073709551616"
      by linarith
    then show ?thesis
      using False by (simp add: add64_def)
  qed
  have low: "(18446744073709551616 - base_mod) mod 4294967296 = (4294967296 - base_mod) mod 4294967296"
    if "base_mod \<le> pages"
  proof -
    have "base_mod < 4294967296"
      using that assms(3) small(1) by linarith
    then have "18446744073709551616 - base_mod = 4294967295 * 4294967296 + (4294967296 - base_mod)"
      by linarith
    then show ?thesis
      by (metis mod_mult_self3)
  qed
  show ?thesis
  proof (cases "base_mod \<le> pages")
    case True
    then have "\<not> offset n + npages n < pages - base_mod" "4294967296 - base_mod < 4294967296"
      using assms(3) w(2) by linarith+
    then show ?thesis
      using True w(1) far unfolding place_in_def sum Let_def down diff stop by (simp add: low total)
  next
    case False
    then have "offset n + npages n < 18446744073709551616 - base_mod + pages"
      using w(3) al small by linarith
    then show ?thesis
      using False w(1) far unfolding place_in_def sum Let_def down diff stop by (simp add: total)
  qed
qed

text \<open>When the largest free region holds a request of at least as many pages as the partition starts off its
  alignment, but the rounded address of its middle lies before the partition, the search returns that region with a place
  outside of it: as far before the start of the partition as the partition is off the alignment, modulo 32 bits.\<close>

theorem search_wraps:
  assumes "0 < heap_size s" "\<exists>k < 63. al = 2 ^ k" "offset (nodes s (heap_array s 0)) + key_at s 0 < 2 ^ 32"
    "base_mod \<le> pages" "pages \<le> key_at s 0" "wraps pages al base_mod (nodes s (heap_array s 0))"
  shows "\<exists>d. page_bisect 0 pages al base_mod s = (heap_array s 0, d) \<and> add32 (offset (nodes s (heap_array s 0))) d = 2 ^ 32 - base_mod \<and>
    2 ^ 32 \<le> 2 ^ 32 - base_mod + pages"
proof -
  let ?n = "nodes s (heap_array s 0)"
  define d where "d = sub32 (2 ^ 32 - base_mod) (offset ?n)"
  have "place_in ?n pages al base_mod = Some d"
    using place_wraps [OF assms(6,2,5,3)] assms(4) by (simp add: d_def)
  then have found: "page_bisect 0 pages al base_mod s = (heap_array s 0, d)"
    using assms(1,5) by (subst page_bisect.simps) (simp add: Let_def)
  have bounds: "0 < base_mod" "base_mod < 4294967296" "offset ?n < 4294967296"
    using assms(3-6) by (simp_all add: wraps_def)
  have "d = (8589934592 - (base_mod + offset ?n)) mod 4294967296"
  proof -
    have "4294967296 - base_mod + (4294967296 - offset ?n) = 8589934592 - (base_mod + offset ?n)"
      using bounds by linarith
    then show ?thesis
      using bounds by (simp add: d_def sub32_def)
  qed
  then have "add32 (offset ?n) d = (offset ?n + (8589934592 - (base_mod + offset ?n))) mod 4294967296"
    by (simp add: add32_def mod_add_right_eq)
  also have "offset ?n + (8589934592 - (base_mod + offset ?n)) = 4294967296 + (4294967296 - base_mod)"
    using bounds by linarith
  finally have "add32 (offset ?n) d = 4294967296 - base_mod"
    using bounds by (simp only: mod_add_self1) simp
  then show ?thesis
    using found assms(4) bounds by simp
qed

lemma search_wraps_witness:
  "\<exists>s d. heap_ids s = {0} \<and> nodes s 0 = \<lparr>offset = 0, npages = 40, left_child = NIL, right_child = NIL, heap_link = 0\<rparr> \<and>
    page_bisect 0 32 32 1 s = (0, d) \<and> add32 0 d = 2 ^ 32 - 1"
proof -
  let ?n = "\<lparr>offset = 0, npages = 40, left_child = NIL, right_child = NIL, heap_link = 0\<rparr>"
  define s where "s = sample_space\<lparr>nodes := (\<lambda>_. ?n), heap_array := (\<lambda>_. 0), heap_size := 1\<rparr>"
  have "\<exists>k < 63. (32 :: nat) = 2 ^ k"
    by (rule exI [of _ 5]) simp
  moreover have "wraps 32 32 1 ?n"
    by (simp add: wraps_def)
  ultimately obtain d where "page_bisect 0 32 32 1 s = (0, d)" "add32 0 d = 2 ^ 32 - 1"
    using search_wraps [of s 32 1 32] by (auto simp: s_def)
  then show ?thesis
    by (intro exI [of _ s] exI [of _ d]) (auto simp: s_def heap_ids_def)
qed

section \<open>A new address space\<close>

definition empty_space :: space where
  "empty_space = \<lparr>nodes = (\<lambda>_. \<lparr>offset = 0, npages = 0, left_child = 0, right_child = 0, heap_link = 0\<rparr>),
     heap_array = (\<lambda>_. 0), heap_size = 0, treap_root = NIL, next_node = 0, free_list = NIL, batch_list = [], batch_pages = 0,
     batch_min = NIL, batch_max = NIL, total = 0, occupied = 0, slabs = (\<lambda>_. NIL), slab_ids = (\<lambda>_. 0),
     slab_free = (\<lambda>_ _. 0), remote_slab = [], remote_page = [], decommits = []\<rparr>"

text \<open>The constructor: one free region, the whole public partition.\<close>

definition init_space :: "config \<Rightarrow> space" where
  "init_space cfg = (
     let (i, s) = get_node empty_space
     in s\<lparr>nodes := (nodes s)(i := \<lparr>offset = 0, npages = pub_pages cfg, left_child = NIL, right_child = NIL, heap_link = 0\<rparr>),
       heap_array := (heap_array s)(i := 0), heap_size := 1, treap_root := i\<rparr>)"

definition init_role :: "nat \<Rightarrow> role" where
  "init_role i = (if i = 0 then InTree else Absent)"

lemma init_role_sets [simp]:
  "with_role r init_role = (if r = InTree then {0} else if r = Absent then - {0} else {})" "{i. init_role i \<noteq> Absent} = {0}" "live init_role = {0}"
  by (auto simp: init_role_def live_def)

lemma init_space_eq:
  "init_space cfg = empty_space\<lparr>nodes := (nodes empty_space)(0 := \<lparr>offset = 0, npages = pub_pages cfg, left_child = NIL, right_child = NIL, heap_link = 0\<rparr>),
     heap_size := 1, treap_root := 0, next_node := 1\<rparr>"
  by (simp add: init_space_def get_node_def empty_space_def add32_def fun_upd_idem)

lemma init_store:
  assumes "0 < pub_pages cfg" "pub_pages cfg < NIL"
  shows "store (pub_pages cfg) init_role (batch_list (init_space cfg)) (init_space cfg)"
proof -
  have "is_treap (nodes (init_space cfg)) 0 (Node Leaf 0 Leaf)"
    by (simp add: is_treap_def init_space_eq NIL_def)
  moreover have "heap_linked (init_space cfg)" "heap_ids (init_space cfg) = {0}"
    by (auto simp: init_space_eq linked_to_def heap_ids_def empty_space_def)
  ultimately have "wired {0} {0} {} (init_space cfg)"
    unfolding wired_def by (auto simp: init_space_eq empty_space_def intro: exI [of _ "Node Leaf 0 Leaf"] exI [of _ "[]"])
  moreover have "batch_list (init_space cfg) = []" "next_node (init_space cfg) = 1" "offset (nodes (init_space cfg) 0) = 0"
    "extent init_role (nodes (init_space cfg)) 0 = pub_pages cfg"
    by (simp_all add: init_space_eq empty_space_def extent_def init_role_def)
  ultimately show ?thesis
    using assms by (simp add: store_def tiled_def lessThan_Suc)
qed

definition small_config :: config where
  "small_config = \<lparr>page_shift = 12, pub_pages = 1000, base_page = 2 ^ 20, coalesce_buffer = 64, insertion_threshold = 8\<rparr>"

lemma bisect_finds_witness:
  "fst (page_bisect 0 10 4 0 (init_space small_config)) \<in> {0, NIL}"
proof -
  have init: "store 1000 init_role (batch_list (init_space small_config)) (init_space small_config)"
    using init_store [of small_config] by (simp add: small_config_def NIL_def)
  have "\<exists>k < 63. (4 :: nat) = 2 ^ k"
    by (rule exI [of _ 2]) simp
  then have "(4 :: nat) \<le> 1 \<or> (\<exists>k < 63. (4 :: nat) = 2 ^ k) \<and> (0 :: nat) < 4"
    by simp
  moreover have "\<forall>i. init_role i = InTree \<longrightarrow> 10 \<le> npages (nodes (init_space small_config) i) \<longrightarrow> \<not> wraps 10 4 0 (nodes (init_space small_config) i)"
    by (simp add: wraps_def)
  ultimately have "case page_bisect 0 10 4 0 (init_space small_config) of (i, d) \<Rightarrow>
      if i = NIL then heap_ordered (init_space small_config) \<longrightarrow> (\<forall>j d. init_role j = InTree \<longrightarrow> \<not> fits 10 4 0 (nodes (init_space small_config) j) d)
      else init_role i = InTree \<and> fits 10 4 0 (nodes (init_space small_config) i) d"
    by (rule bisect_finds [OF init])
  then show ?thesis
    by (auto simp: init_role_def split: prod.splits if_splits)
qed

text \<open>C10.  On a batch that is not empty, coalescing returns.  The pages of the free regions afterwards are those before and
  those of the batch, in a search treap, a heap whose nodes know their positions and a free list; a heap that was ordered by
  size is ordered again, provided that no two free regions had nothing but freed pages between them; the batch is empty,
  slabs and the counter of bytes are left alone; every page of the batch is decommitted, and nothing but free pages are.\<close>

theorem coalesce_frees:
  assumes "store pub role (batch_list s) s" "with_role InHand role = {}" "batch_list s \<noteq> []"
  shows "\<exists>s' role' D. coalesce cfg s = Some s' \<and> store pub role' [] s' \<and> batch_list s' = [] \<and> batch_pages s' = 0 \<and>
    (heap_ordered s \<and> unbridged 0 s \<longrightarrow> heap_ordered s') \<and>
    covered {InTree} role' (nodes s') = covered {InTree} role (nodes s) \<union> covered {Batched} role (nodes s) \<and>
    user_part s' = user_part s \<and> (\<forall>k. (role' k = Slabbed \<longleftrightarrow> role k = Slabbed) \<and> (role k = Slabbed \<longrightarrow> nodes s' k = nodes s k)) \<and>
    decommits s' = decommits s @ D \<and> covered {Batched} role (nodes s) \<subseteq> dec_pages D \<and> dec_pages D \<subseteq> covered {InTree} role' (nodes s')"
  using coalesce_correct [OF assms, of cfg] coalesce_order [OF assms, of cfg] by blast

lemma coalesce_frees_witness:
  "\<exists>s s' role'. batch_list s \<noteq> [] \<and> coalesce small_config s = Some s' \<and> batch_list s' = [] \<and> store 1000 role' [] s' \<and> heap_ordered s'"
proof -
  let ?role = "\<lambda>_. Absent"
  have "wired {} {} {} empty_space"
    unfolding wired_def by (auto simp: empty_space_def heap_ids_def linked_to_def is_treap_def NIL_def intro: exI [of _ Leaf] exI [of _ "[]"])
  then have "store 1000 ?role (batch_list empty_space) empty_space"
    by (simp add: store_def tiled_def empty_space_def NIL_def live_def)
  moreover have "length (batch_list empty_space) < coalesce_buffer small_config" "uncovered ?role (nodes empty_space) 0 10"
    by (simp_all add: empty_space_def small_config_def uncovered_def live_def)
  ultimately obtain i s where s: "store 1000 (?role(i := Batched)) (batch_list s) s" "batch_list s = batch_list empty_space @ [i]"
    using page_deallocate_correct [of 1000 ?role empty_space small_config 10 0] by auto
  then have "with_role InHand (?role(i := Batched)) = {}" "batch_list s \<noteq> []"
    by auto
  note held = this
  have "heap_ids s = {}"
    using store_ids(1) [OF s(1)] by simp
  then have "heap_ordered s \<and> unbridged 0 s"
    by (auto simp: unbridged_def heap_ids_def ordered_to_def)
  then show ?thesis
    using coalesce_frees [OF s(1) held, of small_config] held(2) by blast
qed

end
