(* ===== verification/AllocSlabs.thy ===== *)
theory AllocSlabs
  imports AllocPages
begin

text \<open>
  Slabs: runs of 32 pages that hold blocks of one size class, with the ids of the free blocks and the id of
  the slab's node at their end; and the requests of other threads, which wait on two stacks until the
  owner drains them.  Addresses are bytes from the start of the public partition.
\<close>

section \<open>Size classes\<close>

text \<open>The next size: 1.25 times the last one, rounded up to a multiple of a pointer's 8 bytes.\<close>

definition next_class :: "nat \<Rightarrow> nat" where
  "next_class n = (n * 5 div 32 + (if n * 5 mod 32 \<noteq> 0 then 1 else 0)) * 8"

lemma next_class_grows:
  assumes "0 < n"
  shows "n < next_class n"
proof -
  define q r where "q = n * 5 div 32" and "r = n * 5 mod 32"
  have "n * 5 = 32 * q + r" "r < 32"
    by (simp_all add: q_def r_def)
  moreover have "next_class n = (q + (if r \<noteq> 0 then 1 else 0)) * 8"
    by (simp only: next_class_def q_def r_def)
  ultimately show ?thesis
    using assms by (cases "r = 0") auto
qed

text \<open>The loop that counts the classes; sizes are positive.\<close>

function slabs_loop :: "nat \<Rightarrow> nat \<Rightarrow> nat \<Rightarrow> nat \<Rightarrow> nat \<times> nat" where
  "slabs_loop page n p i = (if 0 < n \<and> n < page * 2 then slabs_loop page (next_class n) n (i + 1) else (p, i))"
  by pat_completeness auto
termination
  by (relation "measure (\<lambda>(page, n, p, i). page * 2 - n)") (use next_class_grows in \<open>auto intro: diff_less_mono2\<close>)

declare slabs_loop.simps [simp del]

definition slab_max :: "config \<Rightarrow> nat" where
  "slab_max cfg = fst (slabs_loop (2 ^ page_shift cfg) 8 8 0)"

definition slab_count :: "config \<Rightarrow> nat" where
  "slab_count cfg = snd (slabs_loop (2 ^ page_shift cfg) 8 8 0)"

definition slab_bytes :: "config \<Rightarrow> nat" where
  "slab_bytes cfg = 32 * 2 ^ page_shift cfg"

definition slab_offset :: "config \<Rightarrow> nat" where
  "slab_offset cfg = slab_bytes cfg - 4"

text \<open>The bytes of a block's id, the size of a class and the number of its blocks.\<close>

definition id_width :: "config \<Rightarrow> nat" where
  "id_width cfg = (if slab_offset cfg div (8 + 1) \<le> 255 then 1 else if slab_offset cfg div (8 + 2) \<le> 65535 then 2 else 4)"

definition slab_class_size :: "nat \<Rightarrow> nat" where
  "slab_class_size c = (next_class ^^ c) 8"

definition slab_blocks :: "config \<Rightarrow> nat \<Rightarrow> nat" where
  "slab_blocks cfg c = slab_offset cfg div (slab_class_size c + id_width cfg) mod 2 ^ (8 * id_width cfg)"

text \<open>\<open>slab_class\<close>: a binary search for the first class of at least that size, then a search for the
  first whose size has the alignment.\<close>

function class_search :: "nat \<Rightarrow> nat \<Rightarrow> nat \<Rightarrow> nat" where
  "class_search bytes lo hi = (
     if lo < hi
     then let mid = (hi + lo) div 2
       in if slab_class_size mid < bytes then class_search bytes (mid + 1) hi else class_search bytes lo mid
     else lo)"
  by pat_completeness auto
termination by (relation "measure (\<lambda>(bytes, lo, hi). hi - lo)") auto

declare class_search.simps [simp del]

function align_search :: "nat \<Rightarrow> nat \<Rightarrow> nat \<Rightarrow> nat" where
  "align_search n al lo = (if lo < n \<and> slab_class_size lo AND al \<noteq> 0 then align_search n al (lo + 1) else lo)"
  by pat_completeness auto
termination by (relation "measure (\<lambda>(n, al, lo). n - lo)") auto

declare align_search.simps [simp del]

definition slab_class :: "config \<Rightarrow> nat \<Rightarrow> nat \<Rightarrow> nat" where
  "slab_class cfg bytes alignment = align_search (slab_count cfg) (sub64 alignment 1) (class_search bytes 0 (slab_count cfg))"

section \<open>Blocks\<close>

text \<open>The first page of a slab in memory, and the slab at an address: its start is found by a mask.\<close>

definition slab_page :: "config \<Rightarrow> nat \<Rightarrow> space \<Rightarrow> nat" where
  "slab_page cfg i s = base_page cfg + offset (nodes s i)"

definition slab_at :: "config \<Rightarrow> nat \<Rightarrow> space \<Rightarrow> nat" where
  "slab_at cfg p s = slab_ids s (mask_down (slab_bytes cfg) (base_page cfg * 2 ^ page_shift cfg + p) div 2 ^ page_shift cfg)"

definition slab_push :: "config \<Rightarrow> nat \<Rightarrow> nat \<Rightarrow> space \<Rightarrow> space" where
  "slab_push cfg i block s = (
     let k = add32 (heap_link (nodes s i)) 1
     in s\<lparr>nodes := set_heap (nodes s) i k,
       slab_free := (slab_free s)(slab_page cfg i s := (slab_free s (slab_page cfg i s))(k := block mod 2 ^ (8 * id_width cfg)))\<rparr>)"

definition slab_pop :: "config \<Rightarrow> nat \<Rightarrow> space \<Rightarrow> nat \<times> space" where
  "slab_pop cfg i s = (
     let k = heap_link (nodes s i)
     in (slab_free s (slab_page cfg i s) k, s\<lparr>nodes := set_heap (nodes s) i (sub32 k 1)\<rparr>))"

definition slab_data :: "config \<Rightarrow> nat \<Rightarrow> nat \<Rightarrow> space \<Rightarrow> nat" where
  "slab_data cfg i block s = offset (nodes s i) * 2 ^ page_shift cfg + block * slab_class_size (npages (nodes s i))"

definition slab_block :: "config \<Rightarrow> nat \<Rightarrow> nat \<Rightarrow> space \<Rightarrow> nat" where
  "slab_block cfg i p s = (sub64 p (slab_data cfg i 0 s) div slab_class_size (npages (nodes s i))) mod 2 ^ (8 * id_width cfg)"

text \<open>Links of the list of partial slabs, where \<open>NIL\<close> is no slab.\<close>

definition link_left :: "nat \<Rightarrow> nat \<Rightarrow> space \<Rightarrow> space" where
  "link_left i v s = (if i = NIL then s else s\<lparr>nodes := set_left (nodes s) i v\<rparr>)"

definition link_right :: "nat \<Rightarrow> nat \<Rightarrow> space \<Rightarrow> space" where
  "link_right i v s = (if i = NIL then s else s\<lparr>nodes := set_right (nodes s) i v\<rparr>)"

definition set_slab_head :: "nat \<Rightarrow> nat \<Rightarrow> space \<Rightarrow> space" where
  "set_slab_head c v s = s\<lparr>slabs := (slabs s)(c := v)\<rparr>"

text \<open>A slab leaves the list of its class.\<close>

definition slab_unlink :: "nat \<Rightarrow> space \<Rightarrow> space" where
  "slab_unlink i s = (
     let l = left_child (nodes s i); r = right_child (nodes s i);
         s = (if l \<noteq> NIL then link_right l r s else set_slab_head (npages (nodes s i)) r s)
     in link_left i NIL (link_right i NIL (link_left r l s)))"

section \<open>Freeing blocks\<close>

text \<open>The index of the block goes through 16 bits, whatever the width of the ids.\<close>

definition slab_deallocate :: "config \<Rightarrow> nat \<Rightarrow> space \<Rightarrow> space option" where
  "slab_deallocate cfg p s = (
     let i = slab_at cfg p s; c = npages (nodes s i); bytes = slab_class_size c;
         block = slab_block cfg i p s mod 2 ^ 16;
         s = slab_push cfg i block s;
         s = s\<lparr>occupied := sub64 (occupied s) bytes\<rparr>
     in if heap_link (nodes s i) = 1
        then let r = slabs s c
          in Some (set_slab_head c i (link_left i NIL (link_left r i (link_right i r s))))
        else if heap_link (nodes s i) = slab_blocks cfg c \<and> (left_child (nodes s i) \<noteq> NIL \<or> right_child (nodes s i) \<noteq> NIL)
        then let s = slab_unlink i s;
                 s = s\<lparr>occupied := add64 (occupied s) (slab_bytes cfg)\<rparr>
          in map_option (put_node i) (page_deallocate cfg (offset (nodes s i)) 32 s)
        else Some s)"

section \<open>Requests of other threads\<close>

text \<open>A request is pushed when the owner lives; when it does not, or ends in between, only the count of
  bytes in use changes.\<close>

definition free_slab :: "config \<Rightarrow> bool \<Rightarrow> bool \<Rightarrow> nat \<Rightarrow> space \<Rightarrow> space" where
  "free_slab cfg owned still p s = (
     let bytes = (\<lambda>p. slab_class_size (npages (nodes s (slab_at cfg p s))))
     in if \<not> owned then s\<lparr>occupied := sub64 (occupied s) (bytes p)\<rparr>
        else if still then s\<lparr>remote_slab := p # remote_slab s\<rparr>
        else s\<lparr>remote_slab := [], occupied := fold (\<lambda>q n. sub64 n (bytes q)) (p # remote_slab s) (occupied s)\<rparr>)"

definition free_page :: "config \<Rightarrow> bool \<Rightarrow> bool \<Rightarrow> nat \<Rightarrow> nat \<Rightarrow> space \<Rightarrow> space" where
  "free_page cfg owned still p pages s = (
     if \<not> owned then s\<lparr>occupied := sub64 (occupied s) (pages * 2 ^ page_shift cfg)\<rparr>
     else if still then s\<lparr>remote_page := (p, pages) # remote_page s\<rparr>
     else s\<lparr>remote_page := [],
       occupied := fold (\<lambda>(_, n) k. sub64 k (n * 2 ^ page_shift cfg)) ((p, pages) # remote_page s) (occupied s)\<rparr>)"

text \<open>\<open>drain_remote\<close>: each request is carried out, and the batch coalesced when it is full.\<close>

definition coalesce_full :: "config \<Rightarrow> space \<Rightarrow> space option" where
  "coalesce_full cfg s = (if coalesce_buffer cfg \<le> length (batch_list s) then coalesce cfg s else Some s)"

fun drain_slabs :: "config \<Rightarrow> nat list \<Rightarrow> space \<Rightarrow> space option" where
  "drain_slabs cfg [] s = Some s"
| "drain_slabs cfg (p # ps) s = do {
     s \<leftarrow> slab_deallocate cfg p s;
     s \<leftarrow> coalesce_full cfg s;
     drain_slabs cfg ps s
   }"

fun drain_pages :: "config \<Rightarrow> (nat \<times> nat) list \<Rightarrow> space \<Rightarrow> space option" where
  "drain_pages cfg [] s = Some s"
| "drain_pages cfg ((p, n) # ps) s = do {
     s \<leftarrow> page_deallocate cfg (p div 2 ^ page_shift cfg mod 2 ^ 32) n s;
     s \<leftarrow> coalesce_full cfg s;
     drain_pages cfg ps s
   }"

definition drain_remote :: "config \<Rightarrow> space \<Rightarrow> space option" where
  "drain_remote cfg s = do {
     s \<leftarrow> drain_slabs cfg (remote_slab s) (s\<lparr>remote_slab := []\<rparr>);
     drain_pages cfg (remote_page s) (s\<lparr>remote_page := []\<rparr>)
   }"

section \<open>The layout of a slab\<close>

definition config_ok :: "config \<Rightarrow> bool" where
  "config_ok cfg \<longleftrightarrow> 3 \<le> page_shift cfg \<and> page_shift cfg \<le> 14 \<and> 0 < pub_pages cfg \<and> pub_pages cfg < NIL \<and>
     (base_page cfg + pub_pages cfg) * 2 ^ page_shift cfg < 2 ^ 64 \<and> 0 < coalesce_buffer cfg"

lemma slab_class_Suc: "slab_class_size (Suc c) = next_class (slab_class_size c)"
  by (simp add: slab_class_size_def)

lemma slab_class_pos: "8 \<le> slab_class_size c"
proof (induction c)
  case (Suc c)
  then show ?case
    using next_class_grows [of "slab_class_size c"] by (simp add: slab_class_Suc)
qed (simp add: slab_class_size_def)

lemma slab_class_mono: "c < d \<Longrightarrow> slab_class_size c < slab_class_size d"
proof (induction d)
  case (Suc d)
  have "slab_class_size d < slab_class_size (Suc d)"
    using next_class_grows [of "slab_class_size d"] slab_class_pos [of d] by (simp add: slab_class_Suc)
  then show ?case
    using Suc by (cases "c = d") auto
qed simp

lemma slabs_loop_spec:
  assumes "slabs_loop page (slab_class_size i) p i = (q, k)"
  shows "i \<le> k \<and> (\<forall>c. i \<le> c \<and> c < k \<longrightarrow> slab_class_size c < page * 2) \<and> page * 2 \<le> slab_class_size k \<and>
    q = (if k = i then p else slab_class_size (k - 1))"
  using assms
proof (induction "page * 2 - slab_class_size i" arbitrary: i p rule: less_induct)
  case less
  show ?case
  proof (cases "slab_class_size i < page * 2")
    case True
    then have "slabs_loop page (slab_class_size (Suc i)) (slab_class_size i) (Suc i) = (q, k)"
      using less.prems slab_class_pos [of i] by (subst (asm) slabs_loop.simps) (simp add: slab_class_Suc)
    moreover have "page * 2 - slab_class_size (Suc i) < page * 2 - slab_class_size i"
      using True slab_class_mono [of i "Suc i"] by simp
    ultimately have IH: "Suc i \<le> k \<and> (\<forall>c. Suc i \<le> c \<and> c < k \<longrightarrow> slab_class_size c < page * 2) \<and> page * 2 \<le> slab_class_size k \<and>
        q = (if k = Suc i then slab_class_size i else slab_class_size (k - 1))"
      using less.hyps by blast
    moreover have "slab_class_size c < page * 2" if "i \<le> c" "c < k" for c
      using IH True that by (cases "c = i") auto
    ultimately show ?thesis
      by auto
  next
    case False
    then show ?thesis
      using less.prems by (subst (asm) slabs_loop.simps) auto
  qed
qed

lemma slab_count_spec:
  "c < slab_count cfg \<Longrightarrow> slab_class_size c < 2 ^ page_shift cfg * 2"
  "3 \<le> page_shift cfg \<Longrightarrow> 0 < slab_count cfg \<and> slab_max cfg = slab_class_size (slab_count cfg - 1)"
proof -
  obtain q k where loop: "slabs_loop (2 ^ page_shift cfg) (slab_class_size 0) 8 0 = (q, k)"
    by force
  then have eq: "slab_count cfg = k" "slab_max cfg = q"
    by (simp_all add: slab_count_def slab_max_def slab_class_size_def)
  note spec = slabs_loop_spec [OF loop]
  show "slab_class_size c < 2 ^ page_shift cfg * 2" if "c < slab_count cfg"
    using spec that eq by simp
  show "0 < slab_count cfg \<and> slab_max cfg = slab_class_size (slab_count cfg - 1)" if "3 \<le> page_shift cfg"
  proof -
    have "(2 :: nat) ^ 3 \<le> 2 ^ page_shift cfg"
      using that by (intro power_increasing) simp_all
    then have "slab_class_size 0 < 2 ^ page_shift cfg * 2"
      by (simp add: slab_class_size_def)
    then have "k \<noteq> 0"
      using spec by (intro notI) simp
    then show ?thesis
      using spec eq by simp
  qed
qed

lemma page_bounds:
  assumes "config_ok cfg"
  shows "8 \<le> (2 :: nat) ^ page_shift cfg" "(2 :: nat) ^ page_shift cfg \<le> 16384"
proof -
  have "(2 :: nat) ^ 3 \<le> 2 ^ page_shift cfg" "(2 :: nat) ^ page_shift cfg \<le> 2 ^ 14"
    using assms unfolding config_ok_def by (intro power_increasing; simp)+
  then show "8 \<le> (2 :: nat) ^ page_shift cfg" "(2 :: nat) ^ page_shift cfg \<le> 16384"
    by simp_all
qed

lemma slab_blocks_spec:
  assumes "config_ok cfg" "c < slab_count cfg"
  shows "slab_blocks cfg c = slab_offset cfg div (slab_class_size c + id_width cfg)" "0 < slab_blocks cfg c"
    "slab_blocks cfg c < 2 ^ (8 * id_width cfg)" "slab_blocks cfg c < 2 ^ 16"
    "slab_blocks cfg c * (slab_class_size c + id_width cfg) \<le> slab_offset cfg"
proof -
  let ?p = "2 ^ page_shift cfg :: nat" and ?w = "id_width cfg" and ?n = "slab_class_size c"
  define b where "b = slab_offset cfg div (?n + ?w)"
  have off: "slab_offset cfg = 32 * ?p - 4" "252 \<le> slab_offset cfg" "slab_offset cfg \<le> 524284"
    using page_bounds [OF assms(1)] by (simp_all add: slab_offset_def slab_bytes_def)
  have w: "1 \<le> ?w" "?w \<le> 4"
    by (simp_all add: id_width_def)
  have low: "b \<le> slab_offset cfg div (8 + ?w)"
    unfolding b_def using slab_class_pos [of c] by (intro div_le_mono2) simp_all
  have wide: "?w \<noteq> 4"
    using off(3) by (simp add: id_width_def)
  have "slab_offset cfg div (8 + ?w) < 2 ^ (8 * ?w) \<and> slab_offset cfg div (8 + ?w) < 2 ^ 16"
    using wide by (auto simp: id_width_def split: if_splits)
  then show less: "slab_blocks cfg c < 2 ^ (8 * ?w)" "slab_blocks cfg c < 2 ^ 16" and eq: "slab_blocks cfg c = slab_offset cfg div (?n + ?w)"
    using low by (simp_all add: slab_blocks_def b_def [symmetric])
  have "?n + ?w \<le> slab_offset cfg"
    using slab_count_spec(1) [OF assms(2)] off w page_bounds [OF assms(1)] by linarith
  then show "0 < slab_blocks cfg c"
    using w(1) by (simp add: eq div_greater_zero_iff)
  show "slab_blocks cfg c * (?n + ?w) \<le> slab_offset cfg"
    by (simp add: eq)
qed

text \<open>A block ends before the ids of the free blocks, and they end before the id of the slab.\<close>

lemma slab_layout:
  assumes "config_ok cfg" "c < slab_count cfg" "b < slab_blocks cfg c"
  shows "b * slab_class_size c + slab_class_size c \<le> slab_offset cfg - slab_blocks cfg c * id_width cfg"
    "slab_blocks cfg c * id_width cfg \<le> slab_offset cfg" "slab_offset cfg + 4 = slab_bytes cfg"
proof -
  have "Suc b * slab_class_size c \<le> slab_blocks cfg c * slab_class_size c"
    using assms(3) by (intro mult_le_mono1) simp
  then show "b * slab_class_size c + slab_class_size c \<le> slab_offset cfg - slab_blocks cfg c * id_width cfg"
    "slab_blocks cfg c * id_width cfg \<le> slab_offset cfg"
    using slab_blocks_spec(5) [OF assms(1,2)] by (simp_all add: distrib_left)
  show "slab_offset cfg + 4 = slab_bytes cfg"
    using page_bounds [OF assms(1)] by (simp add: slab_offset_def slab_bytes_def)
qed

section \<open>The invariant of the slabs\<close>

definition free_ids :: "config \<Rightarrow> nat \<Rightarrow> space \<Rightarrow> nat set" where
  "free_ids cfg i s = slab_free s (slab_page cfg i s) ` {1..heap_link (nodes s i)}"

definition slab_ok :: "config \<Rightarrow> (nat \<Rightarrow> role) \<Rightarrow> nat \<Rightarrow> space \<Rightarrow> bool" where
  "slab_ok cfg role i s \<longleftrightarrow>
     npages (nodes s i) < slab_count cfg \<and> 32 dvd slab_page cfg i s \<and> slab_ids s (slab_page cfg i s) = i \<and>
     heap_link (nodes s i) \<le> slab_blocks cfg (npages (nodes s i)) \<and>
     inj_on (slab_free s (slab_page cfg i s)) {1..heap_link (nodes s i)} \<and> free_ids cfg i s \<subseteq> {..<slab_blocks cfg (npages (nodes s i))}"

text \<open>The lists of partial slabs, link by link.  A slab of a list need not be reachable from the head of
  its class: the allocation of a slab overwrites the head that a request has just set.\<close>

definition slab_linked :: "(nat \<Rightarrow> role) \<Rightarrow> nat \<Rightarrow> space \<Rightarrow> bool" where
  "slab_linked role i s \<longleftrightarrow>
     (left_child (nodes s i) \<noteq> NIL \<longrightarrow> role (left_child (nodes s i)) = Slabbed \<and> right_child (nodes s (left_child (nodes s i))) = i \<and>
        npages (nodes s (left_child (nodes s i))) = npages (nodes s i)) \<and>
     (right_child (nodes s i) \<noteq> NIL \<longrightarrow> role (right_child (nodes s i)) = Slabbed \<and> left_child (nodes s (right_child (nodes s i))) = i \<and>
        npages (nodes s (right_child (nodes s i))) = npages (nodes s i)) \<and>
     (heap_link (nodes s i) = 0 \<longrightarrow> left_child (nodes s i) = NIL \<and> right_child (nodes s i) = NIL \<and> slabs s (npages (nodes s i)) \<noteq> i)"

definition heads_ok :: "(nat \<Rightarrow> role) \<Rightarrow> space \<Rightarrow> bool" where
  "heads_ok role s \<longleftrightarrow> (\<forall>c. slabs s c \<noteq> NIL \<longrightarrow>
     role (slabs s c) = Slabbed \<and> npages (nodes s (slabs s c)) = c \<and> left_child (nodes s (slabs s c)) = NIL)"

definition slabs_ok :: "config \<Rightarrow> (nat \<Rightarrow> role) \<Rightarrow> space \<Rightarrow> bool" where
  "slabs_ok cfg role s \<longleftrightarrow> (\<forall>i. role i = Slabbed \<longrightarrow> slab_ok cfg role i s \<and> slab_linked role i s) \<and> heads_ok role s"

text \<open>The blocks in use, by address and size, and the pages that no node covers.\<close>

definition held_blocks :: "config \<Rightarrow> (nat \<Rightarrow> role) \<Rightarrow> space \<Rightarrow> (nat \<times> nat) set" where
  "held_blocks cfg role s = {(slab_data cfg i b s, slab_class_size (npages (nodes s i))) | i b.
     role i = Slabbed \<and> b < slab_blocks cfg (npages (nodes s i)) \<and> b \<notin> free_ids cfg i s}"

definition held_pages :: "nat \<Rightarrow> (nat \<Rightarrow> role) \<Rightarrow> space \<Rightarrow> nat set" where
  "held_pages pub role s = {..<pub} - covered {InTree, Batched, InHand, Slabbed} role (nodes s)"

text \<open>The counter of bytes in use, which the end of a thread waits for, is the size of all of these.\<close>

definition accounted :: "config \<Rightarrow> (nat \<Rightarrow> role) \<Rightarrow> space \<Rightarrow> bool" where
  "accounted cfg role s \<longleftrightarrow>
     occupied s = ((\<Sum>x \<in> held_blocks cfg role s. snd x) + card (held_pages (pub_pages cfg) role s) * 2 ^ page_shift cfg) mod 2 ^ 64"

definition sound :: "config \<Rightarrow> (nat \<Rightarrow> role) \<Rightarrow> space \<Rightarrow> bool" where
  "sound cfg role s \<longleftrightarrow>
     store (pub_pages cfg) role (batch_list s) s \<and> with_role InHand role = {} \<and> with_role Spare role = {} \<and> slabs_ok cfg role s \<and>
     length (batch_list s) < coalesce_buffer cfg \<and> batch_pages s = (\<Sum>i \<in> set (batch_list s). npages (nodes s i)) \<and> accounted cfg role s"

section \<open>Looking up a block\<close>

lemma slab_lookup:
  assumes "config_ok cfg" "store (pub_pages cfg) role B s" "role i = Slabbed" "slab_ok cfg role i s" "b < slab_blocks cfg (npages (nodes s i))"
  shows "slab_at cfg (slab_data cfg i b s) s = i" "slab_block cfg i (slab_data cfg i b s) s = b" "b < 2 ^ 16"
    "slab_data cfg i b s + slab_class_size (npages (nodes s i)) \<le> (offset (nodes s i) + 32) * 2 ^ page_shift cfg"
    "offset (nodes s i) * 2 ^ page_shift cfg \<le> slab_data cfg i b s"
proof -
  let ?p = "2 ^ page_shift cfg :: nat" and ?c = "npages (nodes s i)" and ?o = "offset (nodes s i)"
  have c: "?c < slab_count cfg" "32 dvd base_page cfg + ?o" "slab_ids s (base_page cfg + ?o) = i"
    using assms(4) by (simp_all add: slab_ok_def slab_page_def)
  note layout = slab_layout [OF assms(1) c(1) assms(5)]
  have inside: "b * slab_class_size ?c + slab_class_size ?c \<le> 32 * ?p"
    using layout by (simp add: slab_bytes_def)
  then show "slab_data cfg i b s + slab_class_size ?c \<le> (?o + 32) * ?p" "?o * ?p \<le> slab_data cfg i b s"
    by (simp_all add: slab_data_def distrib_right)
  show "b < 2 ^ 16"
    using slab_blocks_spec(4) [OF assms(1) c(1)] assms(5) by linarith
  have pub: "?o + 32 \<le> pub_pages cfg"
    using tiled_bound [OF storeD(3) [OF assms(2)] live_roles(4) [of role i, OF assms(3)]] assms(3) by (simp add: extent_def)
  define A where "A = base_page cfg * ?p + slab_data cfg i b s"
  have A: "A = (base_page cfg + ?o) * ?p + b * slab_class_size ?c"
    by (simp add: A_def slab_data_def distrib_right)
  have "A \<le> (base_page cfg + ?o + 32) * ?p"
    using inside by (simp add: A distrib_right)
  also have "\<dots> \<le> (base_page cfg + pub_pages cfg) * ?p"
    using pub by (intro mult_le_mono1) simp
  also have "\<dots> < 2 ^ 64"
    using assms(1) by (simp add: config_ok_def)
  finally have top: "A < 2 ^ 64" .
  have bytes: "slab_bytes cfg = 2 ^ (page_shift cfg + 5)"
    by (simp add: slab_bytes_def power_add)
  have small: "b * slab_class_size ?c < slab_bytes cfg"
    using inside slab_class_pos [of ?c] by (simp add: slab_bytes_def)
  have "slab_bytes cfg dvd (base_page cfg + ?o) * ?p"
    using c(2) by (simp add: slab_bytes_def)
  then have "A mod slab_bytes cfg = b * slab_class_size ?c"
    using small by (auto simp: A elim!: dvdE)
  then have "mask_down (slab_bytes cfg) A = (base_page cfg + ?o) * ?p"
    using mask_down_eq [of "page_shift cfg + 5" A] top assms(1) by (simp add: bytes [symmetric] A config_ok_def)
  then show "slab_at cfg (slab_data cfg i b s) s = i"
    using c(3) by (simp add: slab_at_def A_def [symmetric])
  have "slab_data cfg i b s < 2 ^ 64"
    using top by (simp add: A_def)
  then have "sub64 (slab_data cfg i b s) (slab_data cfg i 0 s) = b * slab_class_size ?c"
    by (simp add: sub64_eq slab_data_def)
  moreover have "b < 2 ^ (8 * id_width cfg)"
    using slab_blocks_spec(3) [OF assms(1) c(1)] assms(5) by linarith
  ultimately show "slab_block cfg i (slab_data cfg i b s) s = b"
    using slab_class_pos [of ?c] by (simp add: slab_block_def)
qed


section \<open>Pages come and go\<close>

definition pre_sound :: "config \<Rightarrow> (nat \<Rightarrow> role) \<Rightarrow> space \<Rightarrow> bool" where
  "pre_sound cfg role s \<longleftrightarrow>
     store (pub_pages cfg) role (batch_list s) s \<and> with_role InHand role = {} \<and> with_role Spare role = {} \<and> slabs_ok cfg role s \<and>
     batch_pages s = (\<Sum>i \<in> set (batch_list s). npages (nodes s i)) \<and> accounted cfg role s"

lemma sound_pre: "sound cfg role s \<longleftrightarrow> pre_sound cfg role s \<and> length (batch_list s) < coalesce_buffer cfg"
  by (auto simp: sound_def pre_sound_def)

text \<open>What users see does not change.\<close>

definition same_user :: "config \<Rightarrow> (nat \<Rightarrow> role) \<Rightarrow> space \<Rightarrow> (nat \<Rightarrow> role) \<Rightarrow> space \<Rightarrow> bool" where
  "same_user cfg role s role' s' \<longleftrightarrow>
     held_blocks cfg role' s' = held_blocks cfg role s \<and> held_pages (pub_pages cfg) role' s' = held_pages (pub_pages cfg) role s \<and>
     remote_slab s' = remote_slab s \<and> remote_page s' = remote_page s"

lemma same_user_accounted: "same_user cfg role s role' s' \<Longrightarrow> occupied s' = occupied s \<Longrightarrow> accounted cfg role s \<Longrightarrow> accounted cfg role' s'"
  by (simp add: same_user_def accounted_def)

lemma finite_held_blocks:
  assumes "store pub role B s"
  shows "finite (held_blocks cfg role s)"
proof -
  have "finite (with_role Slabbed role)"
    by (rule finite_subset [OF _ store_live(1) [OF assms]]) (auto simp: live_def)
  then have "finite (SIGMA i : with_role Slabbed role. {..<slab_blocks cfg (npages (nodes s i))})"
    by (rule finite_SigmaI) simp
  moreover have "held_blocks cfg role s \<subseteq> (\<lambda>(i, b). (slab_data cfg i b s, slab_class_size (npages (nodes s i)))) `
      (SIGMA i : with_role Slabbed role. {..<slab_blocks cfg (npages (nodes s i))})"
    unfolding held_blocks_def by force
  ultimately show ?thesis
    using finite_subset by blast
qed

lemma sub64_mod: "sub64 ((y + n) mod 2 ^ 64) n = y mod 2 ^ 64"
proof -
  define M :: nat where "M = 2 ^ 64"
  have "0 < M"
    by (simp add: M_def)
  then have "n mod M < M"
    by simp
  then have "y + n + (M - n mod M) = y + (n div M + 1) * M"
    using div_mult_mod_eq [of n M] by (simp only: distrib_right)
  then have "(y + n + (M - n mod M)) mod M = y mod M"
    by (simp only: mod_mult_self1)
  then show ?thesis
    unfolding sub64_def M_def [symmetric] by (simp only: mod_add_left_eq)
qed

lemma add64_mod: "add64 (x mod 2 ^ 64) n = (x + n) mod 2 ^ 64"
  unfolding add64_def by (simp only: mod_add_left_eq)

lemma accounted_free_pages:
  assumes "accounted cfg role s" "held_blocks cfg role' s' = held_blocks cfg role s" "P \<subseteq> held_pages (pub_pages cfg) role s"
    "held_pages (pub_pages cfg) role' s' = held_pages (pub_pages cfg) role s - P" "occupied s' = sub64 (occupied s) (card P * 2 ^ page_shift cfg)"
  shows "accounted cfg role' s'"
proof -
  have fin: "finite (held_pages (pub_pages cfg) role s)"
    by (simp add: held_pages_def)
  then have "card P \<le> card (held_pages (pub_pages cfg) role s)"
    using assms(3) by (simp add: card_mono)
  moreover have "card (held_pages (pub_pages cfg) role' s') = card (held_pages (pub_pages cfg) role s) - card P"
    using assms(3,4) fin by (simp add: card_Diff_subset finite_subset)
  ultimately have "card (held_pages (pub_pages cfg) role s) = card (held_pages (pub_pages cfg) role' s') + card P"
    by simp
  then have "(\<Sum>x \<in> held_blocks cfg role s. snd x) + card (held_pages (pub_pages cfg) role s) * 2 ^ page_shift cfg =
      (\<Sum>x \<in> held_blocks cfg role' s'. snd x) + card (held_pages (pub_pages cfg) role' s') * 2 ^ page_shift cfg + card P * 2 ^ page_shift cfg"
    by (simp add: assms(2) distrib_right)
  then show ?thesis
    using assms(1) unfolding accounted_def assms(5) by (simp only: sub64_mod)
qed

lemma accounted_free_block:
  assumes "accounted cfg role s" "finite (held_blocks cfg role s)" "(p, n) \<in> held_blocks cfg role s"
    "held_blocks cfg role' s' = held_blocks cfg role s - {(p, n)}" "held_pages (pub_pages cfg) role' s' = held_pages (pub_pages cfg) role s"
    "occupied s' = sub64 (occupied s) n"
  shows "accounted cfg role' s'"
proof -
  have "(\<Sum>x \<in> held_blocks cfg role s. snd x) = n + (\<Sum>x \<in> held_blocks cfg role' s'. snd x)"
    using assms(2,3) by (simp add: assms(4) sum.remove)
  then have "(\<Sum>x \<in> held_blocks cfg role s. snd x) + card (held_pages (pub_pages cfg) role s) * 2 ^ page_shift cfg =
      (\<Sum>x \<in> held_blocks cfg role' s'. snd x) + card (held_pages (pub_pages cfg) role' s') * 2 ^ page_shift cfg + n"
    by (simp add: assms(5))
  then show ?thesis
    using assms(1) unfolding accounted_def assms(6) by (simp only: sub64_mod)
qed

lemma slabs_same:
  assumes "\<forall>k. role' k = Slabbed \<longleftrightarrow> role k = Slabbed" "\<forall>k. role k = Slabbed \<longrightarrow> nodes s' k = nodes s k"
    "slabs s' = slabs s" "slab_ids s' = slab_ids s" "slab_free s' = slab_free s"
  shows "slabs_ok cfg role s \<Longrightarrow> slabs_ok cfg role' s'" "held_blocks cfg role' s' = held_blocks cfg role s"
    "covered {Slabbed} role' (nodes s') = covered {Slabbed} role (nodes s)"
proof -
  have ids: "free_ids cfg i s' = free_ids cfg i s" "slab_page cfg i s' = slab_page cfg i s" "slab_data cfg i b s' = slab_data cfg i b s"
    if "role i = Slabbed" for i b
    using assms(2) that assms(5) by (simp_all add: free_ids_def slab_page_def slab_data_def)
  show "held_blocks cfg role' s' = held_blocks cfg role s"
    using assms(1,2) ids unfolding held_blocks_def by (intro Collect_cong) (metis (no_types, lifting))
  show "covered {Slabbed} role' (nodes s') = covered {Slabbed} role (nodes s)"
    using assms(1,2) unfolding covered_def by (intro SUP_cong) (auto simp: region_def extent_def)
  assume ok: "slabs_ok cfg role s"
  have "slab_ok cfg role' i s'" if "role i = Slabbed" for i
    using ok that assms(2,4,5) ids [OF that] by (simp add: slabs_ok_def slab_ok_def)
  moreover have "slab_linked role' i s'" if "role i = Slabbed" for i
  proof -
    have linked: "slab_linked role i s"
      using ok that by (simp add: slabs_ok_def)
    have "nodes s' (left_child (nodes s i)) = nodes s (left_child (nodes s i))" if "left_child (nodes s i) \<noteq> NIL"
      using linked that assms(2) by (simp add: slab_linked_def)
    moreover have "nodes s' (right_child (nodes s i)) = nodes s (right_child (nodes s i))" if "right_child (nodes s i) \<noteq> NIL"
      using linked that assms(2) by (simp add: slab_linked_def)
    ultimately show ?thesis
      using linked assms(1-3) \<open>role i = Slabbed\<close> by (simp add: slab_linked_def)
  qed
  moreover have "heads_ok role' s'"
    using ok assms(1-3) unfolding slabs_ok_def heads_ok_def by metis
  ultimately show "slabs_ok cfg role' s'"
    using assms(1) by (simp add: slabs_ok_def)
qed

lemma covered_all: "covered {InTree, Batched, InHand, Slabbed} role ns =
    covered {InTree} role ns \<union> covered {Batched} role ns \<union> covered {InHand} role ns \<union> covered {Slabbed} role ns"
  by (auto simp: covered_def)

lemma coalesce_sound:
  assumes "pre_sound cfg role s" "batch_list s \<noteq> []" "0 < coalesce_buffer cfg"
  shows "\<exists>s' role'. coalesce cfg s = Some s' \<and> sound cfg role' s' \<and> same_user cfg role s role' s' \<and> batch_list s' = [] \<and>
    occupied s' = occupied s \<and> covered {InTree} role' (nodes s') = covered {InTree} role (nodes s) \<union> covered {Batched} role (nodes s)"
proof -
  have pre: "store (pub_pages cfg) role (batch_list s) s" "with_role InHand role = {}" "with_role Spare role = {}" "slabs_ok cfg role s" "accounted cfg role s"
    using assms(1) by (simp_all add: pre_sound_def)
  obtain s' role' D where c: "coalesce cfg s = Some s'" "store (pub_pages cfg) role' [] s'" "batch_list s' = []" "batch_pages s' = 0"
    "with_role InHand role' = {}" "user_part s' = user_part s"
    "covered {InTree} role' (nodes s') = covered {InTree} role (nodes s) \<union> covered {Batched} role (nodes s)"
    "\<forall>k. role' k = Slabbed \<longleftrightarrow> role k = Slabbed" "\<forall>k. role k = Slabbed \<longrightarrow> nodes s' k = nodes s k"
    "with_role Spare role' = with_role Spare role"
    using coalesce_correct [OF pre(1,2) assms(2)] by blast
  have user: "slabs s' = slabs s" "slab_ids s' = slab_ids s" "slab_free s' = slab_free s" "remote_slab s' = remote_slab s"
    "remote_page s' = remote_page s" "occupied s' = occupied s"
    using c(6) by (simp_all add: user_part_def)
  note same = slabs_same [OF c(8,9) user(1-3)]
  note slabs = same(1) [OF pre(4)] same(2,3)
  have "with_role Batched role' = {}"
    using storeD(5) [OF c(2)] by simp
  note none = covered_none(1) [OF this] covered_none(1) [OF c(5)] covered_none(1) [OF pre(2)]
  have "held_pages (pub_pages cfg) role' s' = held_pages (pub_pages cfg) role s"
    unfolding held_pages_def covered_all none slabs(3) c(7) by simp
  then have same: "same_user cfg role s role' s'"
    using slabs user by (simp add: same_user_def)
  note same_user_accounted [OF this user(6) pre(5)]
  then show ?thesis
    using c slabs(1) user(6) assms(3) pre(3) same by (auto simp: sound_def)
qed

lemma coalesce_full_sound:
  assumes "pre_sound cfg role s" "length (batch_list s) \<le> coalesce_buffer cfg" "0 < coalesce_buffer cfg"
  shows "\<exists>s' role'. coalesce_full cfg s = Some s' \<and> sound cfg role' s' \<and> same_user cfg role s role' s'"
proof (cases "length (batch_list s) = coalesce_buffer cfg")
  case True
  then have "batch_list s \<noteq> []"
    using assms(3) by auto
  then show ?thesis
    using coalesce_sound [OF assms(1) _ assms(3)] True unfolding coalesce_full_def by auto
next
  case False
  then have "coalesce_full cfg s = Some s" "sound cfg role s"
    using assms by (simp_all add: coalesce_full_def sound_pre)
  then show ?thesis
    by (auto simp: same_user_def)
qed

lemma apart_disjoint_iff: "0 < m \<Longrightarrow> 0 < n \<Longrightarrow> {a..<a + m} \<inter> {b..<b + n} = {} \<Longrightarrow> apart a m b n"
proof (rule ccontr)
  assume m: "0 < m" "0 < n" and disj: "{a..<a + m} \<inter> {b..<b + n} = {}" and "\<not> apart a m b n"
  then have "max a b \<in> {a..<a + m} \<inter> {b..<b + n}"
    by (auto simp: apart_def)
  then show False
    using disj by blast
qed

lemma live_covered: "live role = {k. role k \<in> {InTree, Batched, InHand, Slabbed}}"
proof -
  have "role k \<notin> {Absent, Unused, Spare} \<longleftrightarrow> role k \<in> {InTree, Batched, InHand, Slabbed}" for k
    by (cases "role k") simp_all
  then show ?thesis
    by (simp add: live_def)
qed

lemma held_uncovered:
  assumes "tiled pub role (nodes s)" "{off..<off + n} \<subseteq> held_pages pub role s" "0 < n"
  shows "uncovered role (nodes s) off n" "off + n \<le> pub"
proof -
  have "region role (nodes s) j \<inter> {off..<off + n} = {}" if "j \<in> live role" for j
    using assms(2) that by (auto simp: held_pages_def covered_def live_covered)
  then show "uncovered role (nodes s) off n"
    unfolding uncovered_def using assms(3) tiled_bound [OF assms(1)]
    by (intro ballI apart_disjoint_iff) (auto simp: region_def)
  have "off + n - 1 \<in> {..<pub}"
    using assms(2,3) by (auto simp: held_pages_def subset_iff)
  then show "off + n \<le> pub"
    using assms(3) by simp
qed

lemma sum_batched:
  assumes "store pub role B s"
  shows "(\<Sum>i \<in> set B. npages (nodes s i)) \<le> pub"
proof -
  have fin: "finite (live role)" and tiled: "tiled pub role (nodes s)"
    using store_live(1) [OF assms] storeD(3) [OF assms] by simp_all
  have "(\<Sum>i \<in> set B. npages (nodes s i)) = (\<Sum>i \<in> set B. extent role (nodes s) i)"
    using storeD(5) [OF assms] by (intro sum.cong) (auto simp: extent_def)
  also have "\<dots> \<le> (\<Sum>i \<in> live role. extent role (nodes s) i)"
    using storeD(5) [OF assms] fin by (intro sum_mono2) (auto simp: live_def)
  also have "\<dots> \<le> pub"
    by (rule tiled_card(2) [OF tiled fin])
  finally show ?thesis .
qed

lemma covered_insert:
  assumes "role i = Absent \<or> role i = Unused" "r \<notin> {Absent, Unused}" "R \<inter> {Absent, Unused} = {}"
  shows "covered R (role(i := r)) (ns(i := n)) = covered R role ns \<union> (if r \<in> R then {offset n..<offset n + (if r = Slabbed then 32 else npages n)} else {})"
proof -
  have "{j. (role(i := r)) j \<in> R} = {j. role j \<in> R} \<union> (if r \<in> R then {i} else {})"
    using assms(1,3) by auto
  moreover have "region (role(i := r)) (ns(i := n)) j = region role ns j" if "j \<noteq> i" for j
    using that by (simp add: region_def extent_def)
  moreover have "region (role(i := r)) (ns(i := n)) i = {offset n..<offset n + (if r = Slabbed then 32 else npages n)}"
    by (simp add: region_def extent_def)
  moreover have "j \<noteq> i" if "role j \<in> R" for j
    using that assms(1,3) by auto
  ultimately show ?thesis
    unfolding covered_def by (auto split: if_splits)
qed

lemma batch_sum:
  assumes "store pub role (batch_list s') s'" "batch_list s' = batch_list s @ [i]" "nodes s' = (nodes s)(i := fresh_node off n)"
    "batch_pages s' = add32 (batch_pages s) n" "batch_pages s = (\<Sum>j \<in> set (batch_list s). npages (nodes s j))"
  shows "batch_pages s' = (\<Sum>j \<in> set (batch_list s'). npages (nodes s' j))"
proof -
  have i: "i \<notin> set (batch_list s)"
    using storeD(4) [OF assms(1)] by (simp add: assms(2))
  then have "(\<Sum>j \<in> set (batch_list s'). npages (nodes s' j)) = n + (\<Sum>j \<in> set (batch_list s). npages (nodes s' j))"
    by (simp add: assms(2,3))
  also have "(\<Sum>j \<in> set (batch_list s). npages (nodes s' j)) = batch_pages s"
    unfolding assms(5) using i by (intro sum.cong) (auto simp: assms(3))
  finally have sum: "(\<Sum>j \<in> set (batch_list s'). npages (nodes s' j)) = n + batch_pages s" .
  then have "n + batch_pages s < 2 ^ 32"
    using sum_batched [OF assms(1)] storeD(1) [OF assms(1)] NIL_less by simp
  then show ?thesis
    using sum by (simp add: assms(4) add32_eq add.commute)
qed

lemma page_deallocate_sound:
  assumes "sound cfg role s" "0 < n" "{off..<off + n} \<subseteq> held_pages (pub_pages cfg) role s"
  shows "\<exists>s' role'. page_deallocate cfg off n s = Some s' \<and> pre_sound cfg role' s' \<and> length (batch_list s') \<le> coalesce_buffer cfg \<and>
    held_blocks cfg role' s' = held_blocks cfg role s \<and> held_pages (pub_pages cfg) role' s' = held_pages (pub_pages cfg) role s - {off..<off + n} \<and>
    remote_slab s' = remote_slab s \<and> remote_page s' = remote_page s \<and> batch_list s' \<noteq> [] \<and>
    occupied s' = sub64 (occupied s) (n * 2 ^ page_shift cfg)"
proof -
  have pre: "store (pub_pages cfg) role (batch_list s) s" "with_role InHand role = {}" "with_role Spare role = {}" "slabs_ok cfg role s"
    "length (batch_list s) < coalesce_buffer cfg" "batch_pages s = (\<Sum>i \<in> set (batch_list s). npages (nodes s i))"
    and accounted: "accounted cfg role s"
    using assms(1) by (simp_all add: sound_def)
  note room = held_uncovered [OF storeD(3) [OF pre(1)] assms(3,2)]
  obtain i s' where d: "page_deallocate cfg off n s = Some s'" "i \<notin> live role" "role i \<noteq> Spare"
    "store (pub_pages cfg) (role(i := Batched)) (batch_list s') s'" "batch_list s' = batch_list s @ [i]"
    "nodes s' = (nodes s)(i := fresh_node off n)" "batch_pages s' = add32 (batch_pages s) n"
    "occupied s' = sub64 (occupied s) (n * 2 ^ page_shift cfg)" "other_part s' = other_part s"
    using page_deallocate_correct [OF pre(1,5) assms(2) room(2,1)] pre(3) by blast
  have i: "role i = Absent \<or> role i = Unused"
    using d(2,3) by (auto simp: live_def)
  have other: "slabs s' = slabs s" "slab_ids s' = slab_ids s" "slab_free s' = slab_free s" "remote_slab s' = remote_slab s" "remote_page s' = remote_page s"
    using d(9) by (simp_all add: other_part_def)
  have "\<forall>k. (role(i := Batched)) k = Slabbed \<longleftrightarrow> role k = Slabbed" "\<forall>k. role k = Slabbed \<longrightarrow> nodes s' k = nodes s k"
    using i d(6) by auto
  note same = slabs_same(1,2) [OF this other(1-3), of cfg]
  have "slabs_ok cfg (role(i := Batched)) s'" and blocks: "held_blocks cfg (role(i := Batched)) s' = held_blocks cfg role s"
    using same(1) [OF pre(4)] same(2) by blast+
  moreover have "batch_pages s' = (\<Sum>j \<in> set (batch_list s'). npages (nodes s' j))"
    by (rule batch_sum [OF d(4-7) pre(6)])
  moreover have "with_role InHand (role(i := Batched)) = {}" "with_role Spare (role(i := Batched)) = {}"
    using pre(2,3) by auto
  moreover have pages: "held_pages (pub_pages cfg) (role(i := Batched)) s' = held_pages (pub_pages cfg) role s - {off..<off + n}"
    unfolding held_pages_def d(6) by (subst covered_insert) (use i in auto)
  moreover have "accounted cfg (role(i := Batched)) s'"
    by (rule accounted_free_pages [OF accounted blocks assms(3) pages]) (simp add: d(8))
  ultimately have "pre_sound cfg (role(i := Batched)) s'"
    using d(4) by (simp add: pre_sound_def)
  with pages show ?thesis
    using d(1,5,8) other(4,5) blocks pre(5) by (intro exI [of _ s'] exI [of _ "role(i := Batched)"]) simp
qed


section \<open>Blocks come back\<close>

text \<open>Nodes of slabs belong to no list of the page store.\<close>

lemma store_slab_nodes:
  assumes "store pub role B s" "\<And>k. role k \<noteq> Slabbed \<Longrightarrow> ns k = nodes s k" "\<And>k. offset (ns k) = offset (nodes s k)"
  shows "store pub role B (s\<lparr>nodes := ns\<rparr>)"
proof -
  note D = storeD [OF assms(1)]
  have "wired (with_role InTree role) (with_role InTree role) (with_role Unused role) (s\<lparr>nodes := ns\<rparr>)"
    by (rule wired_nodes [OF D(2)]) (auto simp: assms(2))
  moreover have "extent role ns = extent role (nodes s)"
    using assms(2) by (intro ext) (auto simp: extent_def)
  then have "tiled pub role ns"
    using D(3) by (simp add: tiled_def assms(3))
  ultimately show ?thesis
    using D by (simp add: store_def)
qed

lemma covered_slab_nodes:
  assumes "\<And>k. role k \<noteq> Slabbed \<Longrightarrow> ns k = ms k" "\<And>k. offset (ns k) = offset (ms k)"
  shows "covered R role ns = covered R role ms"
proof -
  have "region role ns k = region role ms k" for k
    using assms by (auto simp: region_def extent_def)
  then show ?thesis
    by (simp add: covered_def)
qed

lemma store_retire:
  assumes "store pub role B s" "role i = Slabbed" "with_role Spare role = {}"
  shows "store pub (role(i := Spare)) B s" "uncovered (role(i := Spare)) (nodes s) (offset (nodes s i)) 32"
    "offset (nodes s i) + 32 \<le> pub" "with_role Spare (role(i := Spare)) = {i}"
    "Slabbed \<in> R \<Longrightarrow> Spare \<notin> R \<Longrightarrow> covered R role ns = covered R (role(i := Spare)) ns \<union> {offset (ns i)..<offset (ns i) + 32}"
proof -
  note D = storeD [OF assms(1)]
  define role' where "role' = role(i := Spare)"
  have live: "i \<in> live role"
    by (rule live_roles(4) [of role i, OF assms(2)])
  have sets: "with_role InTree role' = with_role InTree role" "with_role Unused role' = with_role Unused role"
    "with_role Batched role' = with_role Batched role" "{k. role' k \<noteq> Absent} = {k. role k \<noteq> Absent}" "live role' = live role - {i}"
    using assms(2) by (auto simp: role'_def live_def)
  have ext: "extent role' ns k = extent role ns k" if "k \<noteq> i" for ns k
    using that by (simp add: extent_def role'_def)
  have "tiled pub role' (nodes s)"
    using D(3) unfolding tiled_def sets by (simp add: ext)
  then have "store pub role' B s"
    using D by (simp add: store_def sets)
  then show "store pub (role(i := Spare)) B s"
    by (simp add: role'_def)
  show "offset (nodes s i) + 32 \<le> pub"
    using tiled_bound [OF D(3) live] assms(2) by (simp add: extent_def)
  have "uncovered role' (nodes s) (offset (nodes s i)) 32"
    unfolding uncovered_def sets
  proof
    fix j assume j: "j \<in> live role - {i}"
    then have "apart (offset (nodes s i)) (extent role (nodes s) i) (offset (nodes s j)) (extent role (nodes s) j)"
      by (intro tiled_apart [OF D(3) live]) auto
    then show "apart (offset (nodes s i)) 32 (offset (nodes s j)) (extent role' (nodes s) j)"
      using j assms(2) by (simp add: ext) (simp add: extent_def)
  qed
  then show "uncovered (role(i := Spare)) (nodes s) (offset (nodes s i)) 32"
    by (simp add: role'_def)
  show "with_role Spare (role(i := Spare)) = {i}"
    using assms(3) by auto
  show "covered R role ns = covered R (role(i := Spare)) ns \<union> {offset (ns i)..<offset (ns i) + 32}" if R: "Slabbed \<in> R" "Spare \<notin> R"
  proof -
    have "{k. role k \<in> R} = insert i {k. role' k \<in> R}"
      using R assms(2) by (auto simp: role'_def)
    moreover have "region role' ns k = region role ns k" if "role' k \<in> R" for k
    proof -
      have "k \<noteq> i"
        using that R(2) by (auto simp: role'_def)
      then show ?thesis
        by (simp add: region_def ext)
    qed
    moreover have "region role ns i = {offset (ns i)..<offset (ns i) + 32}"
      using assms(2) by (simp add: region_def extent_def)
    ultimately have "covered R role ns = covered R role' ns \<union> {offset (ns i)..<offset (ns i) + 32}"
      unfolding covered_def by auto
    then show ?thesis
      by (simp add: role'_def)
  qed
qed

text \<open>A free block joins the ids of its slab.\<close>

lemma slab_push_fields [simp]:
  "slabs (slab_push cfg i b s) = slabs s" "slab_ids (slab_push cfg i b s) = slab_ids s" "batch_list (slab_push cfg i b s) = batch_list s"
  "batch_pages (slab_push cfg i b s) = batch_pages s" "remote_slab (slab_push cfg i b s) = remote_slab s"
  "remote_page (slab_push cfg i b s) = remote_page s" "occupied (slab_push cfg i b s) = occupied s" "decommits (slab_push cfg i b s) = decommits s"
  by (simp_all add: slab_push_def Let_def)

lemma slab_push_nodes:
  "nodes (slab_push cfg i b s) k = (if k = i then (nodes s i)\<lparr>heap_link := add32 (heap_link (nodes s i)) 1\<rparr> else nodes s k)"
  by (simp add: slab_push_def Let_def)

lemma slab_page_inject:
  assumes "slab_ok cfg role i s" "slab_ok cfg role j s" "slab_page cfg i s = slab_page cfg j s"
  shows "i = j"
  using assms by (metis slab_ok_def)

lemma free_ids_room:
  assumes "slab_ok cfg role i s" "b < slab_blocks cfg (npages (nodes s i))" "b \<notin> free_ids cfg i s"
  shows "heap_link (nodes s i) < slab_blocks cfg (npages (nodes s i))"
proof -
  have "heap_link (nodes s i) = card (free_ids cfg i s)"
    using assms(1) card_image [of "slab_free s (slab_page cfg i s)" "{1..heap_link (nodes s i)}"]
    by (simp add: slab_ok_def free_ids_def)
  also have "\<dots> < card {..<slab_blocks cfg (npages (nodes s i))}"
    using assms by (intro psubset_card_mono) (auto simp: slab_ok_def)
  finally show ?thesis by simp
qed

lemma slab_push_ok:
  assumes "config_ok cfg" "slab_ok cfg role i s" "b < slab_blocks cfg (npages (nodes s i))" "b \<notin> free_ids cfg i s"
  defines "s' \<equiv> slab_push cfg i b s"
  shows "heap_link (nodes s' i) = Suc (heap_link (nodes s i))" "slab_ok cfg role i s'" "free_ids cfg i s' = insert b (free_ids cfg i s)"
    "slab_ok cfg role j s \<Longrightarrow> j \<noteq> i \<Longrightarrow> slab_ok cfg role j s' \<and> free_ids cfg j s' = free_ids cfg j s"
proof -
  let ?k = "heap_link (nodes s i)" and ?n = "slab_blocks cfg (npages (nodes s i))" and ?g = "slab_page cfg i s"
  have c: "npages (nodes s i) < slab_count cfg"
    using assms(2) by (simp add: slab_ok_def)
  note room = free_ids_room [OF assms(2-4)]
  have small: "?k + 1 < 2 ^ 32"
    using room slab_blocks_spec(4) [OF assms(1) c] by simp
  then have k: "add32 ?k 1 = Suc ?k"
    by (simp add: add32_eq)
  then show heap: "heap_link (nodes s' i) = Suc ?k"
    by (simp add: s'_def slab_push_nodes)
  have page: "slab_page cfg k s' = slab_page cfg k s" for k
    by (simp add: slab_page_def s'_def slab_push_nodes)
  have b: "b mod 2 ^ (8 * id_width cfg) = b"
    using slab_blocks_spec(3) [OF assms(1) c] assms(3) by simp
  have free: "slab_free s' = (slab_free s)(?g := (slab_free s ?g)(Suc ?k := b))"
    by (simp add: s'_def slab_push_def Let_def k [simplified] b)
  have interval: "{1..Suc ?k} = insert (Suc ?k) {1..?k}"
    by auto
  have image: "(slab_free s ?g)(Suc ?k := b) ` {1..?k} = slab_free s ?g ` {1..?k}"
    by (intro image_cong) auto
  show ids: "free_ids cfg i s' = insert b (free_ids cfg i s)"
    unfolding free_ids_def page heap interval free fun_upd_same image_insert image by (rule refl)
  have old: "inj_on (slab_free s ?g) {1..?k}" "free_ids cfg i s \<subseteq> {..<?n}"
    using assms(2) by (simp_all add: slab_ok_def)
  have "inj_on ((slab_free s ?g)(Suc ?k := b)) {1..?k}"
    using old(1) by (rule inj_on_cong [THEN iffD1, rotated]) auto
  then have "inj_on ((slab_free s ?g)(Suc ?k := b)) {1..Suc ?k}"
    unfolding interval inj_on_insert using assms(4) image by (simp only: fun_upd_same free_ids_def) auto
  moreover have same: "npages (nodes s' k) = npages (nodes s k)" "slab_ids s' = slab_ids s" for k
    by (simp_all add: s'_def slab_push_nodes)
  ultimately show "slab_ok cfg role i s'"
    using assms(2,3) room old(2) ids heap same unfolding slab_ok_def page by (simp add: free)
  show "slab_ok cfg role j s' \<and> free_ids cfg j s' = free_ids cfg j s" if j: "slab_ok cfg role j s" "j \<noteq> i"
  proof -
    have "slab_page cfg j s \<noteq> ?g"
      using slab_page_inject [OF j(1) assms(2)] j(2) by blast
    then show ?thesis
      using j by (simp add: slab_ok_def free_ids_def page free) (simp add: s'_def slab_push_nodes)
  qed
qed


text \<open>A slab leaves its list, and a slab that was full becomes the head of its class.\<close>

lemma slab_unlink_eq:
  assumes "i \<noteq> NIL"
  defines "l \<equiv> (\<lambda>s. left_child (nodes s i))" and "r \<equiv> (\<lambda>s. right_child (nodes s i))"
  shows "nodes (slab_unlink i s) j = (nodes s j)\<lparr>
      left_child := (if j = i then NIL else if r s \<noteq> NIL \<and> j = r s then l s else left_child (nodes s j)),
      right_child := (if j = i then NIL else if l s \<noteq> NIL \<and> j = l s then r s else right_child (nodes s j))\<rparr>"
    "slabs (slab_unlink i s) = (if l s = NIL then (slabs s)(npages (nodes s i) := r s) else slabs s)"
    "slab_unlink i s = s\<lparr>nodes := nodes (slab_unlink i s), slabs := slabs (slab_unlink i s)\<rparr>"
  using assms(1) by (simp_all add: slab_unlink_def Let_def link_left_def link_right_def set_slab_head_def l_def r_def)

lemma unlink_linked:
  assumes "\<And>j. role j = Slabbed \<Longrightarrow> slab_linked role j s" "heads_ok role s" "role i = Slabbed" "role NIL \<noteq> Slabbed"
  defines "s' \<equiv> slab_unlink i s"
  shows "j \<noteq> i \<Longrightarrow> role j = Slabbed \<Longrightarrow> slab_linked (role(i := x)) j s'" "heads_ok (role(i := x)) s'" "slabs s' c \<noteq> i"
proof -
  define l r where "l = left_child (nodes s i)" and "r = right_child (nodes s i)"
  have i: "i \<noteq> NIL"
    using assms(3,4) by auto
  note eq = slab_unlink_eq [OF i, of s, folded s'_def l_def r_def]
  have left_ok: "left_child (nodes s j) \<noteq> NIL \<Longrightarrow> role (left_child (nodes s j)) = Slabbed \<and> right_child (nodes s (left_child (nodes s j))) = j \<and>
      npages (nodes s (left_child (nodes s j))) = npages (nodes s j)"
    and right_ok: "right_child (nodes s j) \<noteq> NIL \<Longrightarrow> role (right_child (nodes s j)) = Slabbed \<and> left_child (nodes s (right_child (nodes s j))) = j \<and>
      npages (nodes s (right_child (nodes s j))) = npages (nodes s j)"
    and full: "heap_link (nodes s j) = 0 \<Longrightarrow> left_child (nodes s j) = NIL \<and> right_child (nodes s j) = NIL \<and> slabs s (npages (nodes s j)) \<noteq> j"
    if "role j = Slabbed" for j
    using assms(1) [OF that] by (auto simp: slab_linked_def)
  have head: "role (slabs s c) = Slabbed" "npages (nodes s (slabs s c)) = c" "left_child (nodes s (slabs s c)) = NIL" if "slabs s c \<noteq> NIL" for c
    using assms(2) that by (auto simp: heads_ok_def)
  note li = left_ok [OF assms(3), folded l_def] and ri = right_ok [OF assms(3), folded r_def]
  have same: "npages (nodes s' j) = npages (nodes s j)" "heap_link (nodes s' j) = heap_link (nodes s j)" for j
    by (simp_all add: eq(1))
  have left': "left_child (nodes s' j) = (if r \<noteq> NIL \<and> j = r then l else left_child (nodes s j))"
    and right': "right_child (nodes s' j) = (if l \<noteq> NIL \<and> j = l then r else right_child (nodes s j))" if "j \<noteq> i" for j
    using that by (simp_all add: eq(1))
  have ne: "j \<noteq> NIL" if "role j = Slabbed" for j
    using that assms(4) by auto
  have self: "l = i \<longleftrightarrow> r = i"
    using li ri i by (auto simp: l_def r_def)
  show "slab_linked (role(i := x)) j s'" if j: "j \<noteq> i" "role j = Slabbed" for j
  proof -
    let ?l = "left_child (nodes s' j)" and ?r = "right_child (nodes s' j)"
    have L: "(role(i := x)) ?l = Slabbed \<and> right_child (nodes s' ?l) = j \<and> npages (nodes s' ?l) = npages (nodes s' j)" if "?l \<noteq> NIL"
    proof (cases "r \<noteq> NIL \<and> j = r")
      case True
      then have "?l = l" "l \<noteq> NIL" "l \<noteq> i"
        using left' [OF j(1)] that self j(1) by auto
      then show ?thesis
        using li ri True right' [of l] by (simp add: same)
    next
      case False
      have l: "?l = left_child (nodes s j)"
        unfolding left' [OF j(1)] if_not_P [OF False] by (rule refl)
      have l2: "left_child (nodes s j) \<noteq> NIL"
        using that unfolding l .
      note ok = left_ok [OF j(2) l2]
      have "left_child (nodes s j) \<noteq> i"
      proof
        assume "left_child (nodes s j) = i"
        then have "r = j"
          using ok by (simp add: r_def)
        then show False
          using False ne [OF j(2)] by blast
      qed
      moreover from this have "right_child (nodes s' (left_child (nodes s j))) = j"
        using ok right' [of "left_child (nodes s j)"] li j(1) by (auto split: if_splits)
      ultimately show ?thesis
        using ok l by (simp add: same)
    qed
    have R: "(role(i := x)) ?r = Slabbed \<and> left_child (nodes s' ?r) = j \<and> npages (nodes s' ?r) = npages (nodes s' j)" if "?r \<noteq> NIL"
    proof (cases "l \<noteq> NIL \<and> j = l")
      case True
      then have "?r = r" "r \<noteq> NIL" "r \<noteq> i"
        using right' [OF j(1)] that self j(1) by auto
      then show ?thesis
        using li ri True left' [of r] by (simp add: same)
    next
      case False
      have r: "?r = right_child (nodes s j)"
        unfolding right' [OF j(1)] if_not_P [OF False] by (rule refl)
      have r2: "right_child (nodes s j) \<noteq> NIL"
        using that unfolding r .
      note ok = right_ok [OF j(2) r2]
      have "right_child (nodes s j) \<noteq> i"
      proof
        assume "right_child (nodes s j) = i"
        then have "l = j"
          using ok by (simp add: l_def)
        then show False
          using False ne [OF j(2)] by blast
      qed
      moreover from this have "left_child (nodes s' (right_child (nodes s j))) = j"
        using ok left' [of "right_child (nodes s j)"] ri j(1) by (auto split: if_splits)
      ultimately show ?thesis
        using ok r by (simp add: same)
    qed
    have "?l = NIL \<and> ?r = NIL \<and> slabs s' (npages (nodes s' j)) \<noteq> j" if "heap_link (nodes s' j) = 0"
    proof -
      have z: "left_child (nodes s j) = NIL" "right_child (nodes s j) = NIL" "slabs s (npages (nodes s j)) \<noteq> j"
        using full [OF j(2)] that by (simp_all add: same)
      then have "r \<noteq> NIL \<Longrightarrow> j \<noteq> r" "l \<noteq> NIL \<Longrightarrow> j \<noteq> l"
        using ri li i by auto
      moreover have "j \<noteq> NIL"
        using assms(4) j(2) by auto
      ultimately show ?thesis
        using z left' [OF j(1)] right' [OF j(1)] by (auto simp: eq(2) same)
    qed
    then show ?thesis
      using L R by (simp add: slab_linked_def)
  qed
  have heads: "slabs s' c \<noteq> i \<and> (slabs s' c \<noteq> NIL \<longrightarrow> role (slabs s' c) = Slabbed \<and> npages (nodes s' (slabs s' c)) = c \<and> left_child (nodes s' (slabs s' c)) = NIL)" for c
  proof (cases "l = NIL \<and> c = npages (nodes s i)")
    case True
    then have "slabs s' c = r" "r \<noteq> i"
      using self i by (auto simp: eq(2))
    then show ?thesis
      using True ri left' [of r] by (auto simp: same)
  next
    case False
    then have h: "slabs s' c = slabs s c"
      by (auto simp: eq(2))
    have "slabs s c \<noteq> i"
    proof
      assume "slabs s c = i"
      then show False
        using head [of c] i False by (simp add: l_def)
    qed
    moreover have "slabs s c \<noteq> r" if "slabs s c \<noteq> NIL"
      using head(3) [OF that] ri i that by auto
    ultimately show ?thesis
      using head [of c] left' [of "slabs s c"] by (auto simp: h same)
  qed
  then show "heads_ok (role(i := x)) s'" "slabs s' c \<noteq> i"
    by (simp_all add: heads_ok_def)
qed

definition slab_relist :: "nat \<Rightarrow> nat \<Rightarrow> space \<Rightarrow> space" where
  "slab_relist c i s = set_slab_head c i (link_left i NIL (link_left (slabs s c) i (link_right i (slabs s c) s)))"

lemma slab_relist_eq:
  assumes "i \<noteq> NIL"
  shows "nodes (slab_relist c i s) j = (nodes s j)\<lparr>
      left_child := (if j = i then NIL else if slabs s c \<noteq> NIL \<and> j = slabs s c then i else left_child (nodes s j)),
      right_child := (if j = i then slabs s c else right_child (nodes s j))\<rparr>"
    "slabs (slab_relist c i s) = (slabs s)(c := i)"
    "slab_relist c i s = s\<lparr>nodes := nodes (slab_relist c i s), slabs := slabs (slab_relist c i s)\<rparr>"
  using assms by (simp_all add: slab_relist_def link_left_def link_right_def set_slab_head_def)

lemma relist_linked:
  assumes "\<And>j. role j = Slabbed \<Longrightarrow> j \<noteq> i \<Longrightarrow> slab_linked role j s" "heads_ok role s" "role i = Slabbed" "role NIL \<noteq> Slabbed"
    "left_child (nodes s i) = NIL" "right_child (nodes s i) = NIL" "heap_link (nodes s i) \<noteq> 0" "slabs s (npages (nodes s i)) \<noteq> i"
  defines "s' \<equiv> slab_relist (npages (nodes s i)) i s"
  shows "role j = Slabbed \<Longrightarrow> slab_linked role j s'" "heads_ok role s'"
proof -
  define c where "c = npages (nodes s i)"
  define r where "r = slabs s c"
  have i: "i \<noteq> NIL"
    using assms(3,4) by auto
  note eq = slab_relist_eq [OF i, of c s, folded s'_def [folded c_def] r_def]
  have same: "npages (nodes s' j) = npages (nodes s j)" "heap_link (nodes s' j) = heap_link (nodes s j)" for j
    by (simp_all add: eq(1))
  have head: "role (slabs s d) = Slabbed" "npages (nodes s (slabs s d)) = d" "left_child (nodes s (slabs s d)) = NIL" if "slabs s d \<noteq> NIL" for d
    using assms(2) that by (auto simp: heads_ok_def)
  have r: "r \<noteq> i" "r \<noteq> NIL \<Longrightarrow> role r = Slabbed \<and> npages (nodes s r) = c \<and> left_child (nodes s r) = NIL"
    using assms(8) head [of c] by (simp_all add: r_def c_def)
  have ne: "j \<noteq> NIL" if "role j = Slabbed" for j
    using that assms(4) by auto
  show "slab_linked role j s'" if j: "role j = Slabbed" for j
  proof (cases "j = i")
    case True
    then show ?thesis
      using r assms(7) i by (auto simp: slab_linked_def eq(1) same c_def)
  next
    case False
    note ok = assms(1) [OF j False]
    have jn: "j \<noteq> NIL"
      by (rule ne [OF j])
    have lj: "left_child (nodes s j) \<noteq> NIL \<Longrightarrow> role (left_child (nodes s j)) = Slabbed \<and> right_child (nodes s (left_child (nodes s j))) = j \<and>
        npages (nodes s (left_child (nodes s j))) = npages (nodes s j)"
      and rj: "right_child (nodes s j) \<noteq> NIL \<Longrightarrow> role (right_child (nodes s j)) = Slabbed \<and> left_child (nodes s (right_child (nodes s j))) = j \<and>
        npages (nodes s (right_child (nodes s j))) = npages (nodes s j)"
      and full: "heap_link (nodes s j) = 0 \<Longrightarrow> left_child (nodes s j) = NIL \<and> right_child (nodes s j) = NIL \<and> slabs s (npages (nodes s j)) \<noteq> j"
      using ok by (simp_all add: slab_linked_def)
    have away: "left_child (nodes s j) \<noteq> i" "right_child (nodes s j) \<noteq> i"
      using lj rj assms(5,6) jn i by auto
    have right': "right_child (nodes s' k) = right_child (nodes s k)" if "k \<noteq> i" for k
      using that by (simp add: eq(1))
    have left': "left_child (nodes s' k) = (if r \<noteq> NIL \<and> k = r then i else left_child (nodes s k))" if "k \<noteq> i" for k
      using that by (simp add: eq(1))
    have "left_child (nodes s' j) \<noteq> NIL \<longrightarrow> role (left_child (nodes s' j)) = Slabbed \<and> right_child (nodes s' (left_child (nodes s' j))) = j \<and>
        npages (nodes s (left_child (nodes s' j))) = npages (nodes s j)"
    proof (cases "r \<noteq> NIL \<and> j = r")
      case True
      then have "left_child (nodes s' j) = i"
        unfolding left' [OF False] by (rule if_P)
      moreover have "right_child (nodes s' i) = j"
        using True by (simp add: eq(1))
      moreover have "npages (nodes s j) = c"
        using r(2) True by blast
      ultimately show ?thesis
        using assms(3) by (simp add: c_def)
    next
      case False
      have e: "left_child (nodes s' j) = left_child (nodes s j)"
        unfolding left' [OF \<open>j \<noteq> i\<close>] if_not_P [OF False] by (rule refl)
      show ?thesis
        unfolding e right' [OF away(1)] by (rule impI, rule lj)
    qed
    moreover have "right_child (nodes s' j) \<noteq> NIL \<longrightarrow> role (right_child (nodes s' j)) = Slabbed \<and> left_child (nodes s' (right_child (nodes s' j))) = j \<and>
        npages (nodes s (right_child (nodes s' j))) = npages (nodes s j)"
    proof
      assume a: "right_child (nodes s' j) \<noteq> NIL"
      note rj' = rj [OF a [unfolded right' [OF False]]]
      have "\<not> (r \<noteq> NIL \<and> right_child (nodes s j) = r)"
        using rj' r(2) jn by auto
      then have "left_child (nodes s' (right_child (nodes s j))) = left_child (nodes s (right_child (nodes s j)))"
        unfolding left' [OF away(2)] by (rule if_not_P)
      then show "role (right_child (nodes s' j)) = Slabbed \<and> left_child (nodes s' (right_child (nodes s' j))) = j \<and>
          npages (nodes s (right_child (nodes s' j))) = npages (nodes s j)"
        unfolding right' [OF False] using rj' by simp
    qed
    moreover have "heap_link (nodes s j) = 0 \<longrightarrow> left_child (nodes s' j) = NIL \<and> right_child (nodes s' j) = NIL \<and> slabs s' (npages (nodes s j)) \<noteq> j"
    proof
      assume a: "heap_link (nodes s j) = 0"
      note f = full [OF a]
      have "\<not> (r \<noteq> NIL \<and> j = r)"
        using f r(2) by (auto simp: r_def)
      then have "left_child (nodes s' j) = left_child (nodes s j)"
        unfolding left' [OF False] by (rule if_not_P)
      then show "left_child (nodes s' j) = NIL \<and> right_child (nodes s' j) = NIL \<and> slabs s' (npages (nodes s j)) \<noteq> j"
        using f right' [OF False] False by (simp add: eq(2))
    qed
    ultimately show ?thesis
      unfolding slab_linked_def same by blast
  qed
  show "heads_ok role s'"
    unfolding heads_ok_def
  proof (intro allI impI)
    fix d assume d: "slabs s' d \<noteq> NIL"
    show "role (slabs s' d) = Slabbed \<and> npages (nodes s' (slabs s' d)) = d \<and> left_child (nodes s' (slabs s' d)) = NIL"
    proof (cases "d = c")
      case True
      then have h: "slabs s' d = i"
        by (simp add: eq(2))
      have "npages (nodes s' i) = d"
        unfolding same True c_def by (rule refl)
      moreover have "left_child (nodes s' i) = NIL"
        by (simp add: eq(1))
      ultimately show ?thesis
        unfolding h using assms(3) by blast
    next
      case False
      then have h: "slabs s' d = slabs s d" "slabs s d \<noteq> NIL"
        using d by (simp_all add: eq(2))
      then have "slabs s d \<noteq> r \<or> r = NIL"
        using head(2) [of d] r(2) False by auto
      moreover have "slabs s d \<noteq> i"
        using head(2) [OF h(2)] False by (auto simp: c_def)
      ultimately have "left_child (nodes s' (slabs s d)) = left_child (nodes s (slabs s d))"
        by (auto simp: eq(1))
      then show ?thesis
        using head [OF h(2)] unfolding h(1) same by simp
    qed
  qed
qed

section \<open>Large pages\<close>

text \<open>C17.  With pages of 64 KiB a slab of the smallest class has more blocks than 16 bits count, and the release of its
  block 65536 does what the release of its block 0 does.\<close>

theorem large_page_truncates:
  assumes "page_shift cfg = 16" "npages (nodes s i) = 0" "slab_data cfg i 65536 s < 2 ^ 64"
    "slab_at cfg (slab_data cfg i 65536 s) s = i" "slab_at cfg (slab_data cfg i 0 s) s = i"
  shows "65536 < slab_blocks cfg 0 \<and> slab_data cfg i 65536 s \<noteq> slab_data cfg i 0 s \<and>
    slab_deallocate cfg (slab_data cfg i 65536 s) s = slab_deallocate cfg (slab_data cfg i 0 s) s"
proof -
  have width: "id_width cfg = 4" "slab_class_size 0 = 8"
    using assms(1) by (simp_all add: id_width_def slab_offset_def slab_bytes_def slab_class_size_def)
  have data: "slab_data cfg i 65536 s = slab_data cfg i 0 s + 8 * 65536"
    by (simp add: slab_data_def assms(2) width(2))
  then have diff: "sub64 (slab_data cfg i 65536 s) (slab_data cfg i 0 s) = 8 * 65536" "sub64 (slab_data cfg i 0 s) (slab_data cfg i 0 s) = 0"
    using assms(3) by (simp_all add: sub64_eq)
  have block: "slab_block cfg i (slab_data cfg i 65536 s) s mod 2 ^ 16 = slab_block cfg i (slab_data cfg i 0 s) s mod 2 ^ 16"
    unfolding slab_block_def diff assms(2) width by simp
  have "slab_blocks cfg 0 = 174762"
    using assms(1) by (simp add: slab_blocks_def width slab_offset_def slab_bytes_def)
  moreover have "slab_deallocate cfg (slab_data cfg i 65536 s) s = slab_deallocate cfg (slab_data cfg i 0 s) s"
    by (simp only: slab_deallocate_def assms(4,5) Let_def block)
  ultimately show ?thesis
    using data by simp
qed

lemma large_page_truncates_witness:
  "slab_deallocate \<lparr>page_shift = 16, pub_pages = 1000, base_page = 32, coalesce_buffer = 64, insertion_threshold = 8\<rparr> 524288
     (empty_space\<lparr>slab_ids := (\<lambda>_. 0)\<rparr>) =
   slab_deallocate \<lparr>page_shift = 16, pub_pages = 1000, base_page = 32, coalesce_buffer = 64, insertion_threshold = 8\<rparr> 0
     (empty_space\<lparr>slab_ids := (\<lambda>_. 0)\<rparr>)"
  using large_page_truncates [of "\<lparr>page_shift = 16, pub_pages = 1000, base_page = 32, coalesce_buffer = 64, insertion_threshold = 8\<rparr>"
      "empty_space\<lparr>slab_ids := (\<lambda>_. 0)\<rparr>" 0]
  by (simp add: empty_space_def slab_at_def slab_data_def slab_class_size_def)

end
