(* ===== verification/AllocFree.thy ===== *)
theory AllocFree
  imports AllocSlabs
begin

text \<open>
  Freed blocks and the requests of other threads: freeing a block takes exactly that block out of use, keeps the
  invariant of the address space, and hands the slab back when it is empty and not alone.
\<close>

section \<open>What a change of slab nodes leaves alone\<close>

definition relinked :: "(nat \<Rightarrow> role) \<Rightarrow> space \<Rightarrow> space \<Rightarrow> bool" where
  "relinked role s s' \<longleftrightarrow>
     (\<forall>k. role k \<noteq> Slabbed \<longrightarrow> nodes s' k = nodes s k) \<and>
     (\<forall>k. offset (nodes s' k) = offset (nodes s k) \<and> npages (nodes s' k) = npages (nodes s k) \<and> heap_link (nodes s' k) = heap_link (nodes s k)) \<and>
     s' = s\<lparr>nodes := nodes s', slabs := slabs s'\<rparr>"

lemma relinked_user:
  assumes "relinked role s s'"
  shows "slab_ok cfg role' i s' = slab_ok cfg role' i s" "held_blocks cfg role' s' = held_blocks cfg role' s"
    "free_ids cfg i s' = free_ids cfg i s" "covered R role (nodes s') = covered R role (nodes s)"
    "store pub role B s \<Longrightarrow> store pub role B s'"
    "batch_list s' = batch_list s" "batch_pages s' = batch_pages s" "remote_slab s' = remote_slab s" "remote_page s' = remote_page s"
    "occupied s' = occupied s" "slab_ids s' = slab_ids s" "slab_free s' = slab_free s"
proof -
  note eq = assms [unfolded relinked_def]
  have nodes: "\<And>k. role k \<noteq> Slabbed \<Longrightarrow> nodes s' k = nodes s k" "\<And>k. offset (nodes s' k) = offset (nodes s k)"
    "\<And>k. npages (nodes s' k) = npages (nodes s k)" "\<And>k. heap_link (nodes s' k) = heap_link (nodes s k)"
    using eq by blast+
  have s': "s' = s\<lparr>nodes := nodes s', slabs := slabs s'\<rparr>"
    using eq by blast
  have "batch_list (s\<lparr>nodes := nodes s', slabs := slabs s'\<rparr>) = batch_list s" "batch_pages (s\<lparr>nodes := nodes s', slabs := slabs s'\<rparr>) = batch_pages s"
    "remote_slab (s\<lparr>nodes := nodes s', slabs := slabs s'\<rparr>) = remote_slab s" "remote_page (s\<lparr>nodes := nodes s', slabs := slabs s'\<rparr>) = remote_page s"
    "occupied (s\<lparr>nodes := nodes s', slabs := slabs s'\<rparr>) = occupied s" "slab_ids (s\<lparr>nodes := nodes s', slabs := slabs s'\<rparr>) = slab_ids s"
    "slab_free (s\<lparr>nodes := nodes s', slabs := slabs s'\<rparr>) = slab_free s"
    by simp_all
  then show rest: "batch_list s' = batch_list s" "batch_pages s' = batch_pages s" "remote_slab s' = remote_slab s" "remote_page s' = remote_page s"
    "occupied s' = occupied s" "slab_ids s' = slab_ids s" "slab_free s' = slab_free s"
    unfolding s' [symmetric] by simp_all
  have page: "slab_page cfg k s' = slab_page cfg k s" "slab_data cfg k b s' = slab_data cfg k b s" for k b
    by (simp_all add: slab_page_def slab_data_def nodes)
  show ids: "free_ids cfg i s' = free_ids cfg i s" for i
    by (simp add: free_ids_def page nodes rest)
  show "slab_ok cfg role' i s' = slab_ok cfg role' i s"
    unfolding slab_ok_def ids page nodes rest by (rule refl)
  show "held_blocks cfg role' s' = held_blocks cfg role' s"
    unfolding held_blocks_def ids page nodes by (rule refl)
  show "covered R role (nodes s') = covered R role (nodes s)"
    by (rule covered_slab_nodes) (simp_all add: nodes)
  show "store pub role B s'" if "store pub role B s"
  proof -
    have "store pub role B (s\<lparr>nodes := nodes s'\<rparr>)"
      by (rule store_slab_nodes [OF that]) (simp_all add: nodes)
    then have "store pub role B (s\<lparr>nodes := nodes s', slabs := slabs s'\<rparr>)"
      by (simp only: store_fields)
    then show ?thesis
      unfolding s' [symmetric] .
  qed
qed

lemma relinked_slabs_ok:
  assumes "relinked role s s'" "\<And>i. role i = Slabbed \<Longrightarrow> slab_ok cfg role i s" "\<And>i. role i = Slabbed \<Longrightarrow> slab_linked role i s'" "heads_ok role s'"
  shows "slabs_ok cfg role s'"
  unfolding slabs_ok_def using assms(2-4) relinked_user(1) [OF assms(1)] by blast

lemma store_NIL:
  assumes "store pub role B s"
  shows "role NIL \<noteq> Slabbed"
proof
  assume "role NIL = Slabbed"
  then have "NIL \<in> {i. role i \<noteq> Absent}"
    by simp
  then have "NIL < next_node s"
    unfolding storeD(6) [OF assms] by (rule lessThan_iff [THEN iffD1])
  then show False
    using storeD(1,7) [OF assms] by simp
qed

section \<open>Pushing a block\<close>

lemma block_inject:
  assumes "config_ok cfg" "store (pub_pages cfg) role B s" "\<And>i. role i = Slabbed \<Longrightarrow> slab_ok cfg role i s"
    "role i = Slabbed" "b < slab_blocks cfg (npages (nodes s i))" "role j = Slabbed" "c < slab_blocks cfg (npages (nodes s j))"
    "slab_data cfg i b s = slab_data cfg j c s"
  shows "i = j" "b = c"
proof -
  note a = slab_lookup(1,2) [OF assms(1,2,4) assms(3) [OF assms(4)] assms(5)]
  note b = slab_lookup(1,2) [OF assms(1,2,6) assms(3) [OF assms(6)] assms(7)]
  show i: "i = j"
    using a(1) b(1) unfolding assms(8) by simp
  have "b = slab_block cfg i (slab_data cfg i b s) s"
    by (rule a(2) [symmetric])
  also have "\<dots> = slab_block cfg j (slab_data cfg j c s) s"
    by (subst assms(8), subst i, rule refl)
  also have "\<dots> = c"
    by (rule b(2))
  finally show "b = c" .
qed

lemma held_blocks_push:
  assumes "config_ok cfg" "store (pub_pages cfg) role B s" "\<And>i. role i = Slabbed \<Longrightarrow> slab_ok cfg role i s"
    "role i = Slabbed" "b < slab_blocks cfg (npages (nodes s i))" "b \<notin> free_ids cfg i s"
  shows "held_blocks cfg role (slab_push cfg i b s) = held_blocks cfg role s - {(slab_data cfg i b s, slab_class_size (npages (nodes s i)))}"
proof -
  let ?s = "slab_push cfg i b s"
  have same: "npages (nodes ?s j) = npages (nodes s j)" "slab_data cfg j c ?s = slab_data cfg j c s" for j c
    by (simp_all add: slab_push_nodes slab_data_def)
  note push = slab_push_ok [OF assms(1) assms(3) [OF assms(4)] assms(5,6)]
  have ids: "free_ids cfg j ?s = (if j = i then insert b (free_ids cfg i s) else free_ids cfg j s)" if "role j = Slabbed" for j
    using push(3) push(4) [OF assms(3) [OF that]] by simp
  have "(role j = Slabbed \<and> c < slab_blocks cfg (npages (nodes ?s j)) \<and> c \<notin> free_ids cfg j ?s) \<longleftrightarrow>
      (role j = Slabbed \<and> c < slab_blocks cfg (npages (nodes s j)) \<and> c \<notin> free_ids cfg j s) \<and> (j, c) \<noteq> (i, b)" for j c
    using ids [of j] by (cases "j = i") (auto simp: same)
  then have "held_blocks cfg role ?s = {(slab_data cfg j c s, slab_class_size (npages (nodes s j))) | j c.
      (role j = Slabbed \<and> c < slab_blocks cfg (npages (nodes s j)) \<and> c \<notin> free_ids cfg j s) \<and> (j, c) \<noteq> (i, b)}"
    unfolding held_blocks_def same by simp
  also have "\<dots> = held_blocks cfg role s - {(slab_data cfg i b s, slab_class_size (npages (nodes s i)))}"
    unfolding held_blocks_def using block_inject [OF assms(1-3) _ _ assms(4,5)] by auto
  finally show ?thesis .
qed

lemma push_linked:
  assumes "slab_linked role j s" "j \<noteq> i"
  shows "slab_linked role j (slab_push cfg i b s)"
proof -
  have "left_child (nodes (slab_push cfg i b s) k) = left_child (nodes s k)" "right_child (nodes (slab_push cfg i b s) k) = right_child (nodes s k)"
    "npages (nodes (slab_push cfg i b s) k) = npages (nodes s k)" for k
    by (simp_all add: slab_push_nodes)
  moreover have "heap_link (nodes (slab_push cfg i b s) j) = heap_link (nodes s j)"
    using assms(2) by (simp add: slab_push_nodes)
  ultimately show ?thesis
    using assms(1) by (simp add: slab_linked_def)
qed

text \<open>The state after the push, before the slab changes its list.\<close>

lemma pushed_block:
  assumes "config_ok cfg" "sound cfg role s" "role i = Slabbed" "b < slab_blocks cfg (npages (nodes s i))" "b \<notin> free_ids cfg i s"
  defines "s' \<equiv> (slab_push cfg i b s)\<lparr>occupied := sub64 (occupied s) (slab_class_size (npages (nodes s i)))\<rparr>"
  shows "store (pub_pages cfg) role (batch_list s') s'" "\<And>j. role j = Slabbed \<Longrightarrow> slab_ok cfg role j s'"
    "\<And>j. role j = Slabbed \<Longrightarrow> j \<noteq> i \<Longrightarrow> slab_linked role j s'" "heads_ok role s'" "heap_link (nodes s' i) = Suc (heap_link (nodes s i))"
    "held_blocks cfg role s' = held_blocks cfg role s - {(slab_data cfg i b s, slab_class_size (npages (nodes s i)))}"
    "held_pages (pub_pages cfg) role s' = held_pages (pub_pages cfg) role s" "batch_list s' = batch_list s" "batch_pages s' = batch_pages s"
    "remote_slab s' = remote_slab s" "remote_page s' = remote_page s" "slabs s' = slabs s" "accounted cfg role s'"
    "\<And>k. npages (nodes s' k) = npages (nodes s k) \<and> left_child (nodes s' k) = left_child (nodes s k) \<and> right_child (nodes s' k) = right_child (nodes s k)"
proof -
  have S: "store (pub_pages cfg) role (batch_list s) s" "\<And>j. role j = Slabbed \<Longrightarrow> slab_ok cfg role j s" "\<And>j. role j = Slabbed \<Longrightarrow> slab_linked role j s"
    "heads_ok role s" "accounted cfg role s"
    using assms(2) by (simp_all add: sound_def slabs_ok_def)
  let ?s = "slab_push cfg i b s"
  have nodes: "nodes s' = nodes ?s" "slab_free s' = slab_free ?s" "slab_ids s' = slab_ids ?s"
    by (simp_all add: s'_def)
  show rest: "batch_list s' = batch_list s" "batch_pages s' = batch_pages s" "remote_slab s' = remote_slab s" "remote_page s' = remote_page s" "slabs s' = slabs s"
    by (simp_all add: s'_def)
  show same: "npages (nodes s' k) = npages (nodes s k) \<and> left_child (nodes s' k) = left_child (nodes s k) \<and> right_child (nodes s' k) = right_child (nodes s k)" for k
    by (simp add: nodes slab_push_nodes)
  have other: "nodes ?s k = nodes s k" if "role k \<noteq> Slabbed" for k
    using that assms(3) by (auto simp: slab_push_nodes)
  have offs: "offset (nodes ?s k) = offset (nodes s k)" for k
    by (simp add: slab_push_nodes)
  have "store (pub_pages cfg) role (batch_list s) (s\<lparr>nodes := nodes ?s\<rparr>)"
    by (rule store_slab_nodes [OF S(1) other offs])
  then have "store (pub_pages cfg) role (batch_list s) (s\<lparr>nodes := nodes ?s, slab_free := slab_free ?s, occupied := occupied s'\<rparr>)"
    by (simp only: store_fields)
  moreover have "s\<lparr>nodes := nodes ?s, slab_free := slab_free ?s, occupied := occupied s'\<rparr> = s'"
    by (simp add: s'_def slab_push_def Let_def)
  ultimately show "store (pub_pages cfg) role (batch_list s') s'"
    unfolding rest by simp
  note push = slab_push_ok [OF assms(1) S(2) [OF assms(3)] assms(4,5)]
  show "heap_link (nodes s' i) = Suc (heap_link (nodes s i))"
    unfolding nodes by (rule push(1))
  have cong: "slab_ok cfg role j s' = slab_ok cfg role j ?s" "slab_linked role j s' = slab_linked role j ?s" "free_ids cfg j s' = free_ids cfg j ?s" for j
    by (simp_all add: slab_ok_def free_ids_def slab_page_def slab_linked_def nodes s'_def)
  show "slab_ok cfg role j s'" if "role j = Slabbed" for j
    unfolding cong using push(2) push(4) [OF S(2) [OF that]] by (cases "j = i") auto
  show "slab_linked role j s'" if "role j = Slabbed" "j \<noteq> i" for j
    unfolding cong by (rule push_linked [OF S(3) [OF that(1)] that(2)])
  show "heads_ok role s'"
    using S(4) by (simp add: heads_ok_def rest same)
  have blocks: "held_blocks cfg role s' = held_blocks cfg role ?s"
    unfolding held_blocks_def cong by (simp add: nodes slab_data_def)
  then show less: "held_blocks cfg role s' = held_blocks cfg role s - {(slab_data cfg i b s, slab_class_size (npages (nodes s i)))}"
    using held_blocks_push [OF assms(1) S(1,2) assms(3-5)] by simp
  show pages: "held_pages (pub_pages cfg) role s' = held_pages (pub_pages cfg) role s"
    unfolding held_pages_def nodes using covered_slab_nodes [of role "nodes ?s" "nodes s", OF other offs] by simp
  have held: "(slab_data cfg i b s, slab_class_size (npages (nodes s i))) \<in> held_blocks cfg role s"
    using assms(3-5) by (auto simp: held_blocks_def)
  show "accounted cfg role s'"
    by (rule accounted_free_block [OF S(5) finite_held_blocks [OF S(1)] held less pages]) (simp add: s'_def)
qed

text \<open>What a request to free a block asks for.\<close>

definition freed :: "config \<Rightarrow> (nat \<times> nat) set \<Rightarrow> nat set \<Rightarrow> (nat \<Rightarrow> role) \<Rightarrow> space \<Rightarrow> (nat \<Rightarrow> role) \<Rightarrow> space \<Rightarrow> bool" where
  "freed cfg Q P role s role' s' \<longleftrightarrow>
     held_blocks cfg role' s' = held_blocks cfg role s - Q \<and>
     held_pages (pub_pages cfg) role' s' = held_pages (pub_pages cfg) role s - P \<and> remote_slab s' = remote_slab s \<and> remote_page s' = remote_page s"

lemma relist_sound:
  assumes "store (pub_pages cfg) role (batch_list s) s" "\<And>j. role j = Slabbed \<Longrightarrow> slab_ok cfg role j s"
    "\<And>j. role j = Slabbed \<Longrightarrow> j \<noteq> i \<Longrightarrow> slab_linked role j s" "heads_ok role s" "role i = Slabbed"
    "left_child (nodes s i) = NIL" "right_child (nodes s i) = NIL" "heap_link (nodes s i) \<noteq> 0" "slabs s (npages (nodes s i)) \<noteq> i"
  shows "slabs_ok cfg role (slab_relist (npages (nodes s i)) i s)" "relinked role s (slab_relist (npages (nodes s i)) i s)"
proof -
  have none: "role NIL \<noteq> Slabbed"
    by (rule store_NIL [OF assms(1)])
  then have i: "i \<noteq> NIL"
    using assms(5) by auto
  define c where "c = npages (nodes s i)"
  note eq = slab_relist_eq [OF i, of c s]
  have head: "slabs s c \<noteq> NIL \<Longrightarrow> role (slabs s c) = Slabbed"
    using assms(4) by (simp add: heads_ok_def)
  have "nodes (slab_relist c i s) k = nodes s k" if "role k \<noteq> Slabbed" for k
  proof -
    have "k \<noteq> i" "\<not> (slabs s c \<noteq> NIL \<and> k = slabs s c)"
      using that assms(5) head by auto
    then show ?thesis
      by (auto simp: eq(1))
  qed
  moreover have "offset (nodes (slab_relist c i s) k) = offset (nodes s k) \<and> npages (nodes (slab_relist c i s) k) = npages (nodes s k) \<and>
      heap_link (nodes (slab_relist c i s) k) = heap_link (nodes s k)" for k
    by (simp add: eq(1))
  ultimately have re: "relinked role s (slab_relist c i s)"
    unfolding relinked_def using eq(3) by blast
  then show "relinked role s (slab_relist (npages (nodes s i)) i s)"
    by (simp add: c_def)
  note linked = relist_linked [OF assms(3,4,5) none assms(6-9), folded c_def]
  have "slabs_ok cfg role (slab_relist c i s)"
    by (rule relinked_slabs_ok [OF re assms(2) linked])
  then show "slabs_ok cfg role (slab_relist (npages (nodes s i)) i s)"
    by (simp add: c_def)
qed

text \<open>An empty slab goes back to the batch of freed pages, and its node to the free list.\<close>

lemma retire_sound:
  assumes "store (pub_pages cfg) role (batch_list s) s" "\<And>j. role j = Slabbed \<Longrightarrow> slab_ok cfg role j s" "\<And>j. role j = Slabbed \<Longrightarrow> slab_linked role j s"
    "heads_ok role s" "role i = Slabbed" "heap_link (nodes s i) = slab_blocks cfg (npages (nodes s i))"
    "with_role InHand role = {}" "with_role Spare role = {}" "length (batch_list s) < coalesce_buffer cfg"
    "batch_pages s = (\<Sum>j \<in> set (batch_list s). npages (nodes s j))" "accounted cfg role s"
  defines "t \<equiv> slab_unlink i s"
  shows "\<exists>s' role'. map_option (put_node i) (page_deallocate cfg (offset (nodes t i)) 32 (t\<lparr>occupied := add64 (occupied t) (slab_bytes cfg)\<rparr>)) = Some s' \<and>
    pre_sound cfg role' s' \<and> length (batch_list s') \<le> coalesce_buffer cfg \<and> freed cfg {} {} role s role' s'"
proof -
  have none: "role NIL \<noteq> Slabbed"
    by (rule store_NIL [OF assms(1)])
  then have i: "i \<noteq> NIL"
    using assms(5) by auto
  note eq = slab_unlink_eq [OF i, of s, folded t_def]
  note linked = unlink_linked [OF assms(3,4,5) none, folded t_def]
  have "nodes t k = nodes s k" if "role k \<noteq> Slabbed" for k
  proof -
    have "left_child (nodes s i) \<noteq> NIL \<Longrightarrow> role (left_child (nodes s i)) = Slabbed" "right_child (nodes s i) \<noteq> NIL \<Longrightarrow> role (right_child (nodes s i)) = Slabbed"
      using assms(3) [OF assms(5)] by (simp_all add: slab_linked_def)
    then have "k \<noteq> i" "\<not> (right_child (nodes s i) \<noteq> NIL \<and> k = right_child (nodes s i))" "\<not> (left_child (nodes s i) \<noteq> NIL \<and> k = left_child (nodes s i))"
      using that assms(5) by auto
    then show ?thesis
      unfolding eq(1) by (simp only: if_False simp_thms) simp
  qed
  moreover have "offset (nodes t k) = offset (nodes s k) \<and> npages (nodes t k) = npages (nodes s k) \<and> heap_link (nodes t k) = heap_link (nodes s k)" for k
    by (simp add: eq(1))
  ultimately have re: "relinked role s t"
    unfolding relinked_def using eq(3) by blast
  note user = relinked_user [OF re]
  let ?off = "offset (nodes s i)" and ?t = "t\<lparr>occupied := add64 (occupied t) (slab_bytes cfg)\<rparr>"
  define role1 where "role1 = role(i := Spare)"
  have off: "offset (nodes t i) = ?off"
    by (simp add: eq(1))
  have "store (pub_pages cfg) role (batch_list s) ?t"
    using user(5) [OF assms(1)] by (simp only: store_fields)
  note R = store_retire [OF this assms(5,8), folded role1_def, simplified, unfolded off]
  have "length (batch_list ?t) < coalesce_buffer cfg" "store (pub_pages cfg) role1 (batch_list ?t) ?t" "uncovered role1 (nodes ?t) ?off 32"
    using R(1,2) assms(9) by (simp_all add: user(6))
  moreover have "with_role Spare role1 = {} \<or> 1 < (32 :: nat) \<and> card (with_role Spare role1) = 1"
    using R(4) by simp
  ultimately obtain k s5 where d: "page_deallocate cfg ?off 32 ?t = Some s5" "k \<notin> live role1" "role1 k \<noteq> Spare"
    "store (pub_pages cfg) (role1(k := Batched)) (batch_list s5) s5" "batch_list s5 = batch_list ?t @ [k]"
    "nodes s5 = (nodes ?t)(k := fresh_node ?off 32)" "batch_pages s5 = add32 (batch_pages ?t) 32"
    "occupied s5 = sub64 (occupied ?t) (32 * 2 ^ page_shift cfg)" "other_part s5 = other_part ?t"
    using page_deallocate_correct [of "pub_pages cfg" role1 ?t cfg 32 ?off] R(3) by auto
  have k: "role k = Absent \<or> role k = Unused" "k \<noteq> i"
    using d(2,3) by (auto simp: live_def role1_def split: if_splits)
  define role2 where "role2 = role1(k := Batched)"
  define role' where "role' = role2(i := Unused)"
  define s' where "s' = put_node i s5"
  have "role2 i = Spare"
    using k(2) by (simp add: role2_def role1_def)
  then have store': "store (pub_pages cfg) role' (batch_list s') s'"
    using put_spare_store [OF d(4) [folded role2_def]] by (simp add: role'_def s'_def)
  have other: "slabs s' = slabs t" "slab_ids s' = slab_ids t" "slab_free s' = slab_free t" "remote_slab s' = remote_slab t" "remote_page s' = remote_page t"
    using d(9) by (simp_all add: other_part_def s'_def put_node_def)
  have slabbed: "\<forall>j. role' j = Slabbed \<longleftrightarrow> role1 j = Slabbed" "\<forall>j. role1 j = Slabbed \<longrightarrow> nodes s' j = nodes t j"
    using k by (auto simp: role'_def role2_def role1_def s'_def d(6))
  have ok1: "slab_ok cfg role1 j t" if "role1 j = Slabbed" for j
  proof -
    have "role j = Slabbed"
      using that by (auto simp: role1_def split: if_splits)
    then have "slab_ok cfg role1 j s"
      using assms(2) [of j] by (simp add: slab_ok_def)
    then show ?thesis
      by (simp add: user(1))
  qed
  have "slabs_ok cfg role1 t"
    unfolding slabs_ok_def using ok1 linked(1,2) [where x = Spare, folded role1_def] by (auto simp: role1_def split: if_splits)
  note slabs' = slabs_same(1) [OF slabbed other(1-3) this] slabs_same(2) [OF slabbed other(1-3)]
  have "free_ids cfg i s = {..<slab_blocks cfg (npages (nodes s i))}"
  proof (rule card_subset_eq)
    show "free_ids cfg i s \<subseteq> {..<slab_blocks cfg (npages (nodes s i))}"
      using assms(2) [OF assms(5)] by (simp add: slab_ok_def)
    show "card (free_ids cfg i s) = card {..<slab_blocks cfg (npages (nodes s i))}"
      using assms(2) [OF assms(5)] card_image [of "slab_free s (slab_page cfg i s)" "{1..heap_link (nodes s i)}"]
      by (simp add: slab_ok_def free_ids_def assms(6))
  qed simp
  then have "(role1 j = Slabbed \<and> c < slab_blocks cfg (npages (nodes s j)) \<and> c \<notin> free_ids cfg j s) \<longleftrightarrow>
      (role j = Slabbed \<and> c < slab_blocks cfg (npages (nodes s j)) \<and> c \<notin> free_ids cfg j s)" for j c
    by (auto simp: role1_def)
  then have "held_blocks cfg role1 s = held_blocks cfg role s"
    unfolding held_blocks_def by simp
  then have blocks: "held_blocks cfg role' s' = held_blocks cfg role s"
    by (simp add: slabs'(2) user(2))
  let ?R = "{InTree, Batched, InHand, Slabbed}"
  have pages: "held_pages (pub_pages cfg) role' s' = held_pages (pub_pages cfg) role s"
  proof -
    have "covered ?R role' (nodes s') = covered ?R role2 (nodes s')"
    proof -
      have "{j. role' j \<in> ?R} = {j. role2 j \<in> ?R}"
        using \<open>role2 i = Spare\<close> by (auto simp: role'_def)
      moreover have "region role' (nodes s') j = region role2 (nodes s') j" for j
        using \<open>role2 i = Spare\<close> by (simp add: region_def extent_def role'_def)
      ultimately show ?thesis
        by (simp add: covered_def)
    qed
    also have "\<dots> = covered ?R role2 (nodes s5)"
      by (rule tiled_cong(2)) (simp_all add: s'_def)
    also have "\<dots> = covered ?R role1 (nodes t) \<union> {?off..<?off + 32}"
      unfolding role2_def d(6) by (subst covered_insert) (use k d(2,3) in \<open>auto simp: live_def role1_def\<close>)
    also have "\<dots> = covered ?R role (nodes t)"
      using R(5) [of ?R "nodes t"] by (simp add: off)
    also have "\<dots> = covered ?R role (nodes s)"
      by (rule user(4))
    finally show ?thesis
      by (simp add: held_pages_def)
  qed
  have occ: "occupied s' = occupied s"
  proof -
    obtain y where "occupied s = y mod 2 ^ 64"
      using assms(11) by (auto simp: accounted_def)
    then have "sub64 (add64 (occupied s) (slab_bytes cfg)) (slab_bytes cfg) = occupied s"
      by (simp only: add64_mod sub64_mod)
    then show ?thesis
      by (simp add: s'_def d(8) user(10) slab_bytes_def)
  qed
  have "same_user cfg role s role' s'"
    using blocks pages other(4,5) by (simp add: same_user_def user(8,9))
  note acc = same_user_accounted [OF this occ assms(11)]
  have "batch_pages s5 = (\<Sum>j \<in> set (batch_list s5). npages (nodes s5 j))"
  proof (rule batch_sum [OF d(4) d(5-7)])
    have "npages (nodes t j) = npages (nodes s j)" for j
      by (simp add: eq(1))
    then show "batch_pages ?t = (\<Sum>j \<in> set (batch_list ?t). npages (nodes ?t j))"
      using assms(10) by (simp add: user(6,7))
  qed
  moreover have "npages (nodes s' j) = npages (nodes s5 j)" for j
    by (simp add: s'_def)
  ultimately have "batch_pages s' = (\<Sum>j \<in> set (batch_list s'). npages (nodes s' j))"
    by (simp add: s'_def del: put_node_simps(1))
  moreover have "with_role InHand role' = {}" "with_role Spare role' = {}"
    using assms(7,8) k by (auto simp: role'_def role2_def role1_def)
  ultimately have "pre_sound cfg role' s'"
    using store' slabs'(1) acc by (simp add: pre_sound_def)
  moreover have "length (batch_list s') \<le> coalesce_buffer cfg"
    using assms(9) d(5) by (simp add: s'_def user(6))
  moreover have "freed cfg {} {} role s role' s'"
    using blocks pages other(4,5) by (simp add: freed_def user(8,9))
  ultimately show ?thesis
    using d(1) by (auto simp: s'_def off)
qed

lemma freed_trans:
  assumes "freed cfg Q P role s role' s'" "freed cfg Q' P' role' s' role'' s''"
  shows "freed cfg (Q \<union> Q') (P \<union> P') role s role'' s''"
  using assms by (auto simp: freed_def)

lemma same_user_freed: "same_user cfg role s role' s' \<longleftrightarrow> freed cfg {} {} role s role' s'"
  by (simp add: same_user_def freed_def)

lemma slab_deallocate_eq:
  assumes "slab_at cfg p s = i" "slab_block cfg i p s mod 2 ^ 16 = b" "c = npages (nodes s i)"
    "t = (slab_push cfg i b s)\<lparr>occupied := sub64 (occupied s) (slab_class_size c)\<rparr>"
  shows "slab_deallocate cfg p s = (
    if heap_link (nodes t i) = 1 then Some (slab_relist c i t)
    else if heap_link (nodes t i) = slab_blocks cfg c \<and> (left_child (nodes t i) \<noteq> NIL \<or> right_child (nodes t i) \<noteq> NIL)
    then map_option (put_node i) (page_deallocate cfg (offset (nodes (slab_unlink i t) i)) 32
      ((slab_unlink i t)\<lparr>occupied := add64 (occupied (slab_unlink i t)) (slab_bytes cfg)\<rparr>))
    else Some t)"
proof -
  have "nodes (u\<lparr>occupied := x\<rparr>) = nodes u" for u :: space and x
    by simp
  then show ?thesis
    unfolding slab_deallocate_def Let_def assms(1-3) assms(4) [unfolded assms(3)] slab_push_fields slab_relist_def by (simp only:)
qed

theorem slab_deallocate_sound:
  assumes "config_ok cfg" "sound cfg role s" "(p, n) \<in> held_blocks cfg role s"
  shows "\<exists>s' role'. slab_deallocate cfg p s = Some s' \<and> pre_sound cfg role' s' \<and> length (batch_list s') \<le> coalesce_buffer cfg \<and>
    freed cfg {(p, n)} {} role s role' s'"
proof -
  have S: "store (pub_pages cfg) role (batch_list s) s" "\<And>j. role j = Slabbed \<Longrightarrow> slab_ok cfg role j s" "\<And>j. role j = Slabbed \<Longrightarrow> slab_linked role j s"
    "with_role InHand role = {}" "with_role Spare role = {}" "length (batch_list s) < coalesce_buffer cfg"
    "batch_pages s = (\<Sum>j \<in> set (batch_list s). npages (nodes s j))"
    using assms(2) by (simp_all add: sound_def slabs_ok_def)
  obtain i b where b: "role i = Slabbed" "b < slab_blocks cfg (npages (nodes s i))" "b \<notin> free_ids cfg i s"
    "p = slab_data cfg i b s" "n = slab_class_size (npages (nodes s i))"
    using assms(3) by (auto simp: held_blocks_def)
  note look = slab_lookup(1-3) [OF assms(1) S(1) b(1) S(2) [OF b(1)] b(2), folded b(4)]
  define c where "c = npages (nodes s i)"
  define t where "t = (slab_push cfg i b s)\<lparr>occupied := sub64 (occupied s) (slab_class_size c)\<rparr>"
  have block: "slab_block cfg i p s mod 2 ^ 16 = b"
    using look(3) by (simp only: look(2) mod_less)
  note eq = slab_deallocate_eq [OF look(1) block c_def t_def]
  note P = pushed_block [OF assms(1,2) b(1-3), folded c_def, folded t_def, folded b(4)]
  have held: "freed cfg {(p, n)} {} role s role t"
    using P(6,7,10,11) by (simp add: freed_def b(5) c_def)
  have sum: "batch_pages t = (\<Sum>j \<in> set (batch_list t). npages (nodes t j))"
    using S(7) by (simp add: P(8,9,14))
  have len: "length (batch_list t) < coalesce_buffer cfg"
    using S(6) by (simp add: P(8))
  have pre: "pre_sound cfg role u" "length (batch_list u) \<le> coalesce_buffer cfg" "freed cfg {(p, n)} {} role s role u"
    if u: "relinked role t u" "slabs_ok cfg role u" for u
  proof -
    note user = relinked_user [OF u(1)]
    have "npages (nodes u j) = npages (nodes t j)" for j
      using u(1) by (simp add: relinked_def)
    then have "batch_pages u = (\<Sum>j \<in> set (batch_list u). npages (nodes u j))"
      using sum by (simp add: user(6,7))
    moreover have "accounted cfg role u"
      using P(13) by (simp add: accounted_def held_pages_def user(2,4,10))
    moreover have "store (pub_pages cfg) role (batch_list u) u"
      using user(5) [OF P(1)] by (simp add: user(6))
    ultimately show "pre_sound cfg role u"
      using u(2) S(4,5) by (simp add: pre_sound_def)
    show "length (batch_list u) \<le> coalesce_buffer cfg"
      using len by (simp add: user(6))
    show "freed cfg {(p, n)} {} role s role u"
      using held by (simp add: freed_def held_pages_def user(2,4,8,9))
  qed
  have pages: "npages (nodes t i) = c"
    by (simp add: P(14) c_def)
  show ?thesis
  proof (cases "heap_link (nodes t i) = 1")
    case True
    then have "left_child (nodes s i) = NIL \<and> right_child (nodes s i) = NIL \<and> slabs s (npages (nodes s i)) \<noteq> i"
      using S(3) [OF b(1)] P(5) by (simp add: slab_linked_def)
    then have "left_child (nodes t i) = NIL" "right_child (nodes t i) = NIL" "slabs t (npages (nodes t i)) \<noteq> i" "heap_link (nodes t i) \<noteq> 0"
      using True by (simp_all add: P(12,14))
    note re = relist_sound [OF P(1-4) b(1) this(1,2,4,3), unfolded pages]
    have "slab_deallocate cfg p s = Some (slab_relist c i t)"
      unfolding eq using True by (rule if_P)
    then show ?thesis
      using pre [OF re(2,1)] by blast
  next
    case False
    have linked: "slab_linked role j t" if "role j = Slabbed" for j
    proof (cases "j = i")
      case True
      have "slab_linked role i s" "heap_link (nodes t i) \<noteq> 0"
        using S(3) [OF b(1)] P(5) by simp_all
      then show ?thesis
        unfolding True by (simp add: slab_linked_def P(12,14))
    qed (use P(3) that in blast)
    show ?thesis
    proof (cases "heap_link (nodes t i) = slab_blocks cfg c \<and> (left_child (nodes t i) \<noteq> NIL \<or> right_child (nodes t i) \<noteq> NIL)")
      case True
      obtain s' role' where r: "map_option (put_node i) (page_deallocate cfg (offset (nodes (slab_unlink i t) i)) 32
          ((slab_unlink i t)\<lparr>occupied := add64 (occupied (slab_unlink i t)) (slab_bytes cfg)\<rparr>)) = Some s'"
        "pre_sound cfg role' s'" "length (batch_list s') \<le> coalesce_buffer cfg" "freed cfg {} {} role t role' s'"
        using retire_sound [OF P(1,2) linked P(4) b(1) _ S(4,5) len sum P(13)] True pages by auto
      have "slab_deallocate cfg p s = Some s'"
        unfolding eq if_not_P [OF False] if_P [OF True] by (rule r(1))
      then show ?thesis
        using r(2,3) freed_trans [OF held r(4)] by auto
    next
      case keep: False
      have "relinked role t t"
        by (simp add: relinked_def)
      moreover have "slabs_ok cfg role t"
        unfolding slabs_ok_def using P(2,4) linked by blast
      moreover have "slab_deallocate cfg p s = Some t"
        unfolding eq if_not_P [OF False] if_not_P [OF keep] by (rule refl)
      ultimately show ?thesis
        using pre by blast
    qed
  qed
qed

section \<open>Draining requests\<close>

text \<open>Requests to free pages in order, each of pages that no earlier one gave up.\<close>

definition run_of :: "config \<Rightarrow> nat \<times> nat \<Rightarrow> nat set" where
  "run_of cfg r = {fst r div 2 ^ page_shift cfg..<fst r div 2 ^ page_shift cfg + snd r}"

fun runs_ok :: "config \<Rightarrow> nat set \<Rightarrow> (nat \<times> nat) list \<Rightarrow> bool" where
  "runs_ok cfg P [] \<longleftrightarrow> True"
| "runs_ok cfg P (r # rs) \<longleftrightarrow> 0 < snd r \<and> run_of cfg r \<subseteq> P \<and> runs_ok cfg (P - run_of cfg r) rs"

definition run_pages :: "config \<Rightarrow> (nat \<times> nat) list \<Rightarrow> nat set" where
  "run_pages cfg rs = (\<Union>r \<in> set rs. run_of cfg r)"

lemma run_pages_simps [simp]: "run_pages cfg [] = {}" "run_pages cfg (r # rs) = run_of cfg r \<union> run_pages cfg rs"
  by (simp_all add: run_pages_def)

lemma runs_ok_pages: "runs_ok cfg P rs \<Longrightarrow> run_pages cfg rs \<subseteq> P"
  by (induction rs arbitrary: P) auto

lemma runs_ok_mono: "runs_ok cfg P rs \<Longrightarrow> P \<subseteq> Q \<Longrightarrow> runs_ok cfg Q rs"
proof (induction rs arbitrary: P Q)
  case (Cons r rs)
  then have "P - run_of cfg r \<subseteq> Q - run_of cfg r"
    by auto
  then show ?case
    using Cons by auto
qed simp

definition with_slabs :: "nat list \<Rightarrow> (nat \<times> nat) set \<Rightarrow> (nat \<times> nat) set" where
  "with_slabs ps H = {x \<in> H. fst x \<in> set ps}"

lemma sound_blocks_unique:
  assumes "config_ok cfg" "sound cfg role s" "(p, n) \<in> held_blocks cfg role s" "(p, m) \<in> held_blocks cfg role s"
  shows "n = m"
proof -
  have S: "store (pub_pages cfg) role (batch_list s) s" "\<And>j. role j = Slabbed \<Longrightarrow> slab_ok cfg role j s"
    using assms(2) by (simp_all add: sound_def slabs_ok_def)
  obtain i b where i: "role i = Slabbed" "b < slab_blocks cfg (npages (nodes s i))" "p = slab_data cfg i b s" "n = slab_class_size (npages (nodes s i))"
    using assms(3) by (auto simp: held_blocks_def)
  obtain j c where j: "role j = Slabbed" "c < slab_blocks cfg (npages (nodes s j))" "p = slab_data cfg j c s" "m = slab_class_size (npages (nodes s j))"
    using assms(4) by (auto simp: held_blocks_def)
  have "i = j"
    using block_inject(1) [OF assms(1) S(1,2) i(1,2) j(1,2)] i(3) j(3) by simp
  then show ?thesis
    by (simp add: i(4) j(4))
qed

lemma drain_slabs_sound:
  assumes "config_ok cfg" "sound cfg role s" "distinct ps" "set ps \<subseteq> fst ` held_blocks cfg role s"
  shows "\<exists>s' role'. drain_slabs cfg ps s = Some s' \<and> sound cfg role' s' \<and>
    freed cfg (with_slabs ps (held_blocks cfg role s)) {} role s role' s'"
  using assms(2-4)
proof (induction ps arbitrary: role s)
  case Nil
  then show ?case
    by (auto simp: freed_def with_slabs_def)
next
  case (Cons p ps)
  obtain n where n: "(p, n) \<in> held_blocks cfg role s"
    using Cons.prems(3) by auto
  obtain s1 role1 where s1: "slab_deallocate cfg p s = Some s1" "pre_sound cfg role1 s1" "length (batch_list s1) \<le> coalesce_buffer cfg"
    "freed cfg {(p, n)} {} role s role1 s1"
    using slab_deallocate_sound [OF assms(1) Cons.prems(1) n] by blast
  have "0 < coalesce_buffer cfg"
    using assms(1) by (simp add: config_ok_def)
  then obtain s2 role2 where s2: "coalesce_full cfg s1 = Some s2" "sound cfg role2 s2" "same_user cfg role1 s1 role2 s2"
    using coalesce_full_sound [OF s1(2,3)] by blast
  have two: "freed cfg {(p, n)} {} role s role2 s2"
    using freed_trans [OF s1(4) s2(3) [unfolded same_user_freed]] by simp
  then have held: "held_blocks cfg role2 s2 = held_blocks cfg role s - {(p, n)}"
    by (simp add: freed_def)
  have "q \<in> fst ` held_blocks cfg role2 s2" if q: "q \<in> set ps" for q
  proof -
    have "q \<in> fst ` held_blocks cfg role s" "q \<noteq> p"
      using q Cons.prems(2,3) by auto
    then show ?thesis
      by (force simp: held)
  qed
  then obtain s3 role3 where s3: "drain_slabs cfg ps s2 = Some s3" "sound cfg role3 s3"
    "freed cfg (with_slabs ps (held_blocks cfg role2 s2)) {} role2 s2 role3 s3"
    using Cons.IH [OF s2(2)] Cons.prems(2) by auto
  have "{(p, n)} \<union> with_slabs ps (held_blocks cfg role2 s2) = with_slabs (p # ps) (held_blocks cfg role s)"
  proof (rule set_eqI)
    fix x :: "nat \<times> nat"
    obtain q m where x: "x = (q, m)"
      by force
    have one: "m = n" if "(p, m) \<in> held_blocks cfg role s"
      by (rule sound_blocks_unique [OF assms(1) Cons.prems(1) that n])
    have "p \<notin> set ps"
      using Cons.prems(2) by simp
    then show "x \<in> {(p, n)} \<union> with_slabs ps (held_blocks cfg role2 s2) \<longleftrightarrow> x \<in> with_slabs (p # ps) (held_blocks cfg role s)"
      unfolding x with_slabs_def held using n one by (cases "q = p") auto
  qed
  then have "freed cfg (with_slabs (p # ps) (held_blocks cfg role s)) {} role s role3 s3"
    using freed_trans [OF two s3(3)] by simp
  then show ?case
    using s1(1) s2(1) s3(1,2) by auto
qed

lemma drain_pages_sound:
  assumes "config_ok cfg" "sound cfg role s" "runs_ok cfg (held_pages (pub_pages cfg) role s) rs"
  shows "\<exists>s' role'. drain_pages cfg rs s = Some s' \<and> sound cfg role' s' \<and> freed cfg {} (run_pages cfg rs) role s role' s'"
  using assms(2,3)
proof (induction rs arbitrary: role s)
  case Nil
  then show ?case
    by (auto simp: freed_def)
next
  case (Cons r rs)
  obtain p n where r: "r = (p, n)"
    by force
  let ?off = "p div 2 ^ page_shift cfg"
  have run: "0 < n" "{?off..<?off + n} \<subseteq> held_pages (pub_pages cfg) role s" "run_of cfg r = {?off..<?off + n}"
    using Cons.prems(2) by (simp_all add: r run_of_def)
  then have "?off \<in> {..<pub_pages cfg}"
    by (auto simp: held_pages_def)
  moreover have "pub_pages cfg < 2 ^ 32"
    using assms(1) NIL_less by (simp add: config_ok_def)
  ultimately have off: "?off mod 2 ^ 32 = ?off"
    by simp
  obtain s1 role1 where s1: "page_deallocate cfg ?off n s = Some s1" "pre_sound cfg role1 s1" "length (batch_list s1) \<le> coalesce_buffer cfg"
    "freed cfg {} (run_of cfg r) role s role1 s1"
    using page_deallocate_sound [OF Cons.prems(1) run(1,2)] run(3) by (auto simp: freed_def)
  have "0 < coalesce_buffer cfg"
    using assms(1) by (simp add: config_ok_def)
  then obtain s2 role2 where s2: "coalesce_full cfg s1 = Some s2" "sound cfg role2 s2" "same_user cfg role1 s1 role2 s2"
    using coalesce_full_sound [OF s1(2,3)] by blast
  have two: "freed cfg {} (run_of cfg r) role s role2 s2"
    using freed_trans [OF s1(4) s2(3) [unfolded same_user_freed]] by simp
  then have "runs_ok cfg (held_pages (pub_pages cfg) role2 s2) rs"
    using Cons.prems(2) by (simp add: freed_def)
  then obtain s3 role3 where s3: "drain_pages cfg rs s2 = Some s3" "sound cfg role3 s3" "freed cfg {} (run_pages cfg rs) role2 s2 role3 s3"
    using Cons.IH [OF s2(2)] by blast
  have "freed cfg {} (run_pages cfg (r # rs)) role s role3 s3"
    using freed_trans [OF two s3(3)] by simp
  moreover have "drain_pages cfg (r # rs) s = Some s3"
    unfolding r drain_pages.simps off s1(1) using s2(1) s3(1) by simp
  ultimately show ?case
    using s3(2) by blast
qed

section \<open>What users hold\<close>

text \<open>The abstract state of an address space: the blocks and pages that users hold.  Requests of other threads count at
  once, whenever they are carried out.\<close>

definition user_blocks :: "config \<Rightarrow> (nat \<Rightarrow> role) \<Rightarrow> space \<Rightarrow> (nat \<times> nat) set" where
  "user_blocks cfg role s = held_blocks cfg role s - with_slabs (remote_slab s) (held_blocks cfg role s)"

definition user_pages :: "config \<Rightarrow> (nat \<Rightarrow> role) \<Rightarrow> space \<Rightarrow> nat set" where
  "user_pages cfg role s = held_pages (pub_pages cfg) role s - run_pages cfg (remote_page s)"

definition valid :: "config \<Rightarrow> (nat \<Rightarrow> role) \<Rightarrow> space \<Rightarrow> bool" where
  "valid cfg role s \<longleftrightarrow> sound cfg role s \<and> distinct (remote_slab s) \<and> set (remote_slab s) \<subseteq> fst ` held_blocks cfg role s \<and>
     runs_ok cfg (held_pages (pub_pages cfg) role s) (remote_page s)"

lemma remote_fields [simp]:
  "held_blocks cfg role (s\<lparr>remote_slab := x\<rparr>) = held_blocks cfg role s" "held_blocks cfg role (s\<lparr>remote_page := y\<rparr>) = held_blocks cfg role s"
  "held_pages pub role (s\<lparr>remote_slab := x\<rparr>) = held_pages pub role s" "held_pages pub role (s\<lparr>remote_page := y\<rparr>) = held_pages pub role s"
  "sound cfg role (s\<lparr>remote_slab := x\<rparr>) = sound cfg role s" "sound cfg role (s\<lparr>remote_page := y\<rparr>) = sound cfg role s"
proof -
  show *: "held_blocks cfg role (s\<lparr>remote_slab := x\<rparr>) = held_blocks cfg role s" "held_blocks cfg role (s\<lparr>remote_page := y\<rparr>) = held_blocks cfg role s"
    "held_pages pub role (s\<lparr>remote_slab := x\<rparr>) = held_pages pub role s" "held_pages pub role (s\<lparr>remote_page := y\<rparr>) = held_pages pub role s" for pub
    by (simp_all add: held_blocks_def held_pages_def free_ids_def slab_page_def slab_data_def)
  show "sound cfg role (s\<lparr>remote_slab := x\<rparr>) = sound cfg role s" "sound cfg role (s\<lparr>remote_page := y\<rparr>) = sound cfg role s"
    unfolding sound_def accounted_def *
    by (simp_all add: slabs_ok_def slab_ok_def slab_linked_def heads_ok_def free_ids_def slab_page_def)
qed

lemma drain_remote_valid:
  assumes "config_ok cfg" "valid cfg role s"
  shows "\<exists>s' role'. drain_remote cfg s = Some s' \<and> valid cfg role' s' \<and> remote_slab s' = [] \<and> remote_page s' = [] \<and>
    user_blocks cfg role' s' = user_blocks cfg role s \<and> user_pages cfg role' s' = user_pages cfg role s"
proof -
  have V: "sound cfg role s" "distinct (remote_slab s)" "set (remote_slab s) \<subseteq> fst ` held_blocks cfg role s"
    "runs_ok cfg (held_pages (pub_pages cfg) role s) (remote_page s)"
    using assms(2) by (simp_all add: valid_def)
  obtain s1 role1 where s1: "drain_slabs cfg (remote_slab s) (s\<lparr>remote_slab := []\<rparr>) = Some s1" "sound cfg role1 s1"
    "freed cfg (with_slabs (remote_slab s) (held_blocks cfg role s)) {} role (s\<lparr>remote_slab := []\<rparr>) role1 s1"
    using drain_slabs_sound [OF assms(1), of role "s\<lparr>remote_slab := []\<rparr>" "remote_slab s"] V(1-3) by auto
  have f1: "held_pages (pub_pages cfg) role1 s1 = held_pages (pub_pages cfg) role s" "remote_page s1 = remote_page s" "remote_slab s1 = []"
    "held_blocks cfg role1 s1 = user_blocks cfg role s"
    using s1(3) by (simp_all add: freed_def user_blocks_def)
  obtain s2 role2 where s2: "drain_pages cfg (remote_page s) (s1\<lparr>remote_page := []\<rparr>) = Some s2" "sound cfg role2 s2"
    "freed cfg {} (run_pages cfg (remote_page s)) role1 (s1\<lparr>remote_page := []\<rparr>) role2 s2"
    using drain_pages_sound [OF assms(1), of role1 "s1\<lparr>remote_page := []\<rparr>" "remote_page s"] s1(2) V(4) f1(1) by auto
  have f2: "held_blocks cfg role2 s2 = user_blocks cfg role s" "held_pages (pub_pages cfg) role2 s2 = user_pages cfg role s"
    "remote_slab s2 = []" "remote_page s2 = []"
    using s2(3) f1 by (simp_all add: freed_def user_pages_def)
  have "drain_remote cfg s = Some s2"
    using s1(1) s2(1) f1(2) by (simp add: drain_remote_def)
  moreover have "valid cfg role2 s2"
    using s2(2) f2 by (simp add: valid_def)
  moreover have "user_blocks cfg role2 s2 = user_blocks cfg role s" "user_pages cfg role2 s2 = user_pages cfg role s"
    by (simp_all add: user_blocks_def [of cfg role2] user_pages_def [of cfg role2] f2 with_slabs_def)
  ultimately show ?thesis
    using f2(3,4) by blast
qed

end
