(* ===== verification/AllocRequests.thy ===== *)
theory AllocRequests
  imports AllocFree
begin

text \<open>
  The requests of an address space and of the thread's handle: allocation of pages, of blocks and in general,
  release, growth in place, and the tag that marks the addresses of blocks.
\<close>

section \<open>Pages\<close>

text \<open>The place of the partition below an alignment, in pages.\<close>

definition page_phase :: "config \<Rightarrow> nat \<Rightarrow> nat" where
  "page_phase cfg alignment = (base_page cfg * 2 ^ page_shift cfg AND sub64 alignment 1) div 2 ^ page_shift cfg"

partial_function (option) page_allocate :: "config \<Rightarrow> nat \<Rightarrow> nat \<Rightarrow> space \<Rightarrow> (nat res \<times> space) option" where
  "page_allocate cfg pages alignment s = (
     let r = page_bisect 0 pages (alignment div 2 ^ page_shift cfg) (page_phase cfg alignment) s
     in if fst r = NIL
        then do {
          s \<leftarrow> drain_remote cfg s;
          if batch_list s \<noteq> [] then do { s \<leftarrow> coalesce cfg s; page_allocate cfg pages alignment s }
          else Some (Inl MemoryError, s)
        }
        else do { t \<leftarrow> page_take cfg pages (fst r) (snd r) s; Some (Inr (fst t), snd t) })"

partial_function (option) page_reserve :: "config \<Rightarrow> nat \<Rightarrow> nat \<Rightarrow> space \<Rightarrow> (nat \<times> space) option" where
  "page_reserve cfg off pages s = do {
     t \<leftarrow> page_extend cfg off pages s;
     if fst t then Some (pages * 2 ^ page_shift cfg, snd t)
     else do {
       s \<leftarrow> drain_remote cfg (snd t);
       if batch_list s \<noteq> [] \<and> batch_min s \<le> off \<and> off \<le> batch_max s
       then do { s \<leftarrow> coalesce cfg s; page_reserve cfg off pages s }
       else Some (0, s)
     }
   }"

declare page_allocate.simps [code] page_reserve.simps [code]

section \<open>Blocks\<close>

text \<open>A new slab: its ids are laid out so that blocks are handed out in increasing order, and its node becomes
  the head of its class, whatever was there.\<close>

definition full_ids :: "nat \<Rightarrow> (nat \<Rightarrow> nat) \<Rightarrow> nat \<Rightarrow> nat" where
  "full_ids k f j = (if 1 \<le> j \<and> j \<le> k then k - j else f j)"

definition init_slab :: "config \<Rightarrow> nat \<Rightarrow> nat \<Rightarrow> space \<Rightarrow> nat \<times> space" where
  "init_slab cfg c off s = (
     let s = s\<lparr>occupied := sub64 (occupied s) (slab_bytes cfg)\<rparr>;
         (i, s) = get_node s; g = base_page cfg + off; k = slab_blocks cfg c;
         s = s\<lparr>nodes := (nodes s)(i := \<lparr>offset = off, npages = c, left_child = NIL, right_child = NIL, heap_link = k\<rparr>),
           slab_ids := (slab_ids s)(g := i), slab_free := (slab_free s)(g := full_ids k (slab_free s g))\<rparr>
     in (i, set_slab_head c i s))"

definition new_slab :: "config \<Rightarrow> nat \<Rightarrow> space \<Rightarrow> (nat res \<times> space) option" where
  "new_slab cfg c s = do {
     s \<leftarrow> drain_remote cfg s;
     s \<leftarrow> (if coalesce_buffer cfg \<le> batch_pages s then coalesce cfg s else Some s);
     t \<leftarrow> page_allocate cfg 32 (slab_bytes cfg) s;
     case fst t of
       Inl e \<Rightarrow> Some (Inl e, snd t)
     | Inr off \<Rightarrow> let (i, s) = init_slab cfg c off (snd t) in Some (Inr i, s)
   }"

text \<open>One block is taken; a slab that gives its last one leaves the list.\<close>

definition slab_take :: "config \<Rightarrow> nat \<Rightarrow> nat \<Rightarrow> space \<Rightarrow> nat \<times> space" where
  "slab_take cfg c i s = (
     let s = (if heap_link (nodes s i) = 1
           then let r = right_child (nodes s i)
             in link_left i NIL (link_right i NIL (set_slab_head c r (link_left r (left_child (nodes s i)) s)))
           else s);
         s = s\<lparr>occupied := add64 (occupied s) (slab_class_size c)\<rparr>;
         (b, s) = slab_pop cfg i s
     in (slab_data cfg i b s, s))"

definition slab_allocate :: "config \<Rightarrow> nat \<Rightarrow> space \<Rightarrow> (nat res \<times> space) option" where
  "slab_allocate cfg c s = do {
     t \<leftarrow> (if slabs s c = NIL then new_slab cfg c s else Some (Inr (slabs s c), s));
     case fst t of
       Inl e \<Rightarrow> Some (Inl e, snd t)
     | Inr i \<Rightarrow> let (p, s) = slab_take cfg c i (snd t) in Some (Inr p, s)
   }"

section \<open>The handle of the thread\<close>

text \<open>Addresses are even, so their lowest bit can mark blocks.\<close>

definition is_slab :: "nat \<Rightarrow> bool" where
  "is_slab p \<longleftrightarrow> p AND 1 \<noteq> 0"

definition set_slab :: "nat \<Rightarrow> nat" where
  "set_slab p = p OR 1"

definition clear_slab :: "nat \<Rightarrow> nat" where
  "clear_slab p = unat (word_of_nat p AND NOT (1 :: 64 word))"

definition pages_of :: "config \<Rightarrow> nat \<Rightarrow> nat" where
  "pages_of cfg bytes = bytes div 2 ^ page_shift cfg + (if bytes mod 2 ^ page_shift cfg \<noteq> 0 then 1 else 0)"

text \<open>The result is the address and the size that was really allocated.\<close>

definition allocate :: "config \<Rightarrow> nat \<Rightarrow> nat \<Rightarrow> space \<Rightarrow> ((nat \<times> nat) res \<times> space) option" where
  "allocate cfg bytes alignment s = (
     if bytes \<le> slab_max cfg \<and> alignment \<le> 8 \<and> slab_class cfg bytes alignment < slab_count cfg
     then let c = slab_class cfg bytes alignment
       in map_option (apfst (map_sum id (\<lambda>p. (set_slab p, slab_class_size c)))) (slab_allocate cfg c s)
     else let pages = pages_of cfg bytes mod 2 ^ 32
       in map_option (apfst (map_sum id (\<lambda>off. (off * 2 ^ page_shift cfg, pages * 2 ^ page_shift cfg))))
            (page_allocate cfg pages alignment s))"

text \<open>A release returns the size that was really released.\<close>

definition deallocate :: "config \<Rightarrow> nat \<Rightarrow> nat \<Rightarrow> space \<Rightarrow> (nat \<times> space) option" where
  "deallocate cfg p bytes s = do {
     s \<leftarrow> drain_remote cfg s;
     t \<leftarrow> (if is_slab p
       then map_option (Pair (slab_class_size (npages (nodes s (slab_at cfg (clear_slab p) s))))) (slab_deallocate cfg (clear_slab p) s)
       else map_option (Pair (pages_of cfg bytes * 2 ^ page_shift cfg mod 2 ^ 64))
         (page_deallocate cfg (clear_slab p div 2 ^ page_shift cfg mod 2 ^ 32) (pages_of cfg bytes mod 2 ^ 32) s));
     s \<leftarrow> (if coalesce_buffer cfg \<le> batch_pages (snd t) then coalesce cfg (snd t) else Some (snd t));
     Some (fst t, s)
   }"

definition reserve :: "config \<Rightarrow> nat \<Rightarrow> nat \<Rightarrow> space \<Rightarrow> (nat \<times> space) option" where
  "reserve cfg p bytes s = page_reserve cfg (p div 2 ^ page_shift cfg mod 2 ^ 32) (pages_of cfg bytes mod 2 ^ 32) s"

section \<open>Taking pages\<close>

lemma covered_apart:
  assumes "tiled pub role ns" "R \<inter> Q = {}" "R \<inter> {Absent, Unused, Spare} = {}" "Q \<inter> {Absent, Unused, Spare} = {}"
  shows "covered R role ns \<inter> covered Q role ns = {}"
proof -
  have "region role ns i \<inter> region role ns j = {}" if "role i \<in> R" "role j \<in> Q" for i j
  proof -
    have "i \<in> live role" "j \<in> live role" "i \<noteq> j"
      using that assms(2-4) by (auto simp: live_def)
    then have "apart (offset (ns i)) (extent role ns i) (offset (ns j)) (extent role ns j)"
      using tiled_apart [OF assms(1)] by blast
    then show ?thesis
      unfolding region_def by (rule apart_disjoint)
  qed
  then show ?thesis
    unfolding covered_def by blast
qed

lemma covered_bound:
  assumes "tiled pub role ns" "R \<inter> {Absent, Unused, Spare} = {}"
  shows "covered R role ns \<subseteq> {..<pub}"
proof
  fix x assume "x \<in> covered R role ns"
  then obtain i where i: "role i \<in> R" "x \<in> region role ns i"
    by (auto simp: covered_def)
  then have "i \<in> live role"
    using assms(2) by (auto simp: live_def)
  then show "x \<in> {..<pub}"
    using tiled_bound [OF assms(1)] i(2) by (fastforce simp: region_def)
qed

text \<open>What taking pages does to an invariant state.\<close>

definition took :: "config \<Rightarrow> nat set \<Rightarrow> (nat \<Rightarrow> role) \<Rightarrow> space \<Rightarrow> (nat \<Rightarrow> role) \<Rightarrow> space \<Rightarrow> bool" where
  "took cfg P role s role' s' \<longleftrightarrow>
     P \<subseteq> {..<pub_pages cfg} \<and> P \<inter> held_pages (pub_pages cfg) role s = {} \<and> held_blocks cfg role' s' = held_blocks cfg role s \<and>
     held_pages (pub_pages cfg) role' s' = held_pages (pub_pages cfg) role s \<union> P \<and> remote_slab s' = remote_slab s \<and> remote_page s' = remote_page s \<and>
     P \<inter> covered {Slabbed} role' (nodes s') = {} \<and> slabs s' = slabs s \<and> covered {Slabbed} role' (nodes s') = covered {Slabbed} role (nodes s)"

lemma accounted_take_pages:
  assumes "accounted cfg role s" "held_blocks cfg role' s' = held_blocks cfg role s" "P \<inter> held_pages (pub_pages cfg) role s = {}"
    "held_pages (pub_pages cfg) role' s' = held_pages (pub_pages cfg) role s \<union> P" "finite P" "occupied s' = add64 (occupied s) (card P * 2 ^ page_shift cfg)"
  shows "accounted cfg role' s'"
proof -
  have "card (held_pages (pub_pages cfg) role' s') = card (held_pages (pub_pages cfg) role s) + card P"
    unfolding assms(4) using assms(3,5) by (intro card_Un_disjoint) (auto simp: held_pages_def)
  then have "(\<Sum>x \<in> held_blocks cfg role' s'. snd x) + card (held_pages (pub_pages cfg) role' s') * 2 ^ page_shift cfg =
      (\<Sum>x \<in> held_blocks cfg role s. snd x) + card (held_pages (pub_pages cfg) role s) * 2 ^ page_shift cfg + card P * 2 ^ page_shift cfg"
    by (simp add: assms(2) distrib_right)
  then show ?thesis
    using assms(1) unfolding accounted_def assms(6) by (simp only: add64_mod)
qed

lemma gives_sound:
  assumes "sound cfg role s" "store (pub_pages cfg) role' (batch_list s') s'" "gives P role s role' s'"
    "occupied s' = add64 (occupied s) (card P * 2 ^ page_shift cfg)"
  shows "sound cfg role' s'" "took cfg P role s role' s'"
proof -
  have S: "store (pub_pages cfg) role (batch_list s) s" "with_role InHand role = {}" "with_role Spare role = {}" "slabs_ok cfg role s"
    "length (batch_list s) < coalesce_buffer cfg" "batch_pages s = (\<Sum>i \<in> set (batch_list s). npages (nodes s i))" "accounted cfg role s"
    using assms(1) by (simp_all add: sound_def)
  have G: "P \<subseteq> covered {InTree} role (nodes s)" "covered {InTree} role' (nodes s') = covered {InTree} role (nodes s) - P"
    "\<And>k r. r \<in> {Batched, InHand, Slabbed, Spare} \<Longrightarrow> role' k = r \<longleftrightarrow> role k = r"
    "\<And>k. role k \<in> {Batched, InHand, Slabbed, Spare} \<Longrightarrow> nodes s' k = nodes s k"
    "batch_list s' = batch_list s" "batch_pages s' = batch_pages s" "other_part s' = other_part s"
    using assms(3) unfolding gives_def by blast+
  have other: "slabs s' = slabs s" "slab_ids s' = slab_ids s" "slab_free s' = slab_free s" "remote_slab s' = remote_slab s" "remote_page s' = remote_page s"
    using G(7) by (simp_all add: other_part_def)
  have slabbed: "\<forall>k. role' k = Slabbed \<longleftrightarrow> role k = Slabbed" "\<forall>k. role k = Slabbed \<longrightarrow> nodes s' k = nodes s k"
    using G(3,4) by simp_all
  note same = slabs_same [OF slabbed other(1-3)]
  note same = same(1) [OF S(4)] same(2,3)
  note tiled = storeD(3) [OF S(1)]
  have batched: "covered {Batched} role' (nodes s') = covered {Batched} role (nodes s)" "covered {InHand} role' (nodes s') = covered {InHand} role (nodes s)"
    using G(3,4) unfolding covered_def by (intro SUP_cong; auto simp: region_def extent_def)+
  have apart: "covered {InTree} role (nodes s) \<inter> covered {Batched, InHand, Slabbed} role (nodes s) = {}"
    by (rule covered_apart [OF tiled]) simp_all
  have split: "covered {Batched, InHand, Slabbed} role ns = covered {Batched} role ns \<union> covered {InHand} role ns \<union> covered {Slabbed} role ns" for role ns
    by (auto simp: covered_def)
  have inside: "P \<subseteq> {..<pub_pages cfg}"
    using G(1) covered_bound [OF tiled, of "{InTree}"] by (intro order_trans [OF G(1)]) simp
  have apart': "P \<inter> held_pages (pub_pages cfg) role s = {}"
    using G(1) by (auto simp: held_pages_def covered_all)
  have pages: "held_pages (pub_pages cfg) role' s' = held_pages (pub_pages cfg) role s \<union> P"
    unfolding held_pages_def covered_all G(2) batched same(3) using G(1) apart inside unfolding split by blast
  have fin: "finite P"
    using inside finite_subset by blast
  have acc: "accounted cfg role' s'"
    by (rule accounted_take_pages [OF S(7) same(2) apart' pages fin assms(4)])
  have "with_role InHand role' = {}" "with_role Spare role' = {}"
    using S(2,3) G(3) by auto
  moreover have "(\<Sum>i \<in> set (batch_list s). npages (nodes s' i)) = (\<Sum>i \<in> set (batch_list s). npages (nodes s i))"
    using G(4) storeD(5) [OF S(1)] by (intro sum.cong) auto
  ultimately show "sound cfg role' s'"
    using assms(2) S(5,6) same(1) acc by (simp add: sound_def G(5,6))
  show "took cfg P role s role' s'"
    unfolding took_def using inside apart' pages same(2,3) other apart G(1) unfolding split by blast
qed

section \<open>Allocating pages\<close>

definition power_of_two :: "nat \<Rightarrow> bool" where
  "power_of_two al \<longleftrightarrow> (\<exists>k < 64. al = 2 ^ k)"

lemma and_low:
  assumes "power_of_two al"
  shows "x AND sub64 al 1 = x mod al"
proof -
  obtain k where k: "k < 64" "al = 2 ^ k"
    using assms by (auto simp: power_of_two_def)
  have "(2 :: nat) ^ k < 2 ^ 64"
    using k(1) by (intro power_strict_increasing) simp_all
  then have "sub64 al 1 = 2 ^ k - 1"
    by (simp add: sub64_eq k(2))
  then show ?thesis
    by (simp add: k(2) take_bit_eq_mod [symmetric] take_bit_eq_mask mask_eq_exp_minus_1)
qed

text \<open>No difference wraps in a search of this state: a condition of the state, as long as the partition does not start
  on the alignment.  It is checked in the states that the searches of a request run in.\<close>

definition search_ok :: "config \<Rightarrow> nat \<Rightarrow> nat \<Rightarrow> space \<Rightarrow> bool" where
  "search_ok cfg pages al s \<longleftrightarrow> (\<forall>q < heap_size s. pages \<le> key_at s q \<longrightarrow>
     \<not> wraps pages (al div 2 ^ page_shift cfg) (page_phase cfg al) (nodes s (heap_array s q)))"

definition second_search :: "config \<Rightarrow> space \<Rightarrow> space option" where
  "second_search cfg s = do { s \<leftarrow> drain_remote cfg s; if batch_list s \<noteq> [] then coalesce cfg s else Some s }"

definition page_searches_ok :: "config \<Rightarrow> nat \<Rightarrow> nat \<Rightarrow> space \<Rightarrow> bool" where
  "page_searches_ok cfg pages al s \<longleftrightarrow> search_ok cfg pages al s \<and>
     (fst (page_bisect 0 pages (al div 2 ^ page_shift cfg) (page_phase cfg al) s) = NIL \<longrightarrow>
       (case second_search cfg s of None \<Rightarrow> True | Some s' \<Rightarrow> search_ok cfg pages al s'))"

definition slab_searches_ok :: "config \<Rightarrow> nat \<Rightarrow> space \<Rightarrow> bool" where
  "slab_searches_ok cfg c s \<longleftrightarrow> slabs s c \<noteq> NIL \<or>
     (case do { s \<leftarrow> drain_remote cfg s; if coalesce_buffer cfg \<le> batch_pages s then coalesce cfg s else Some s } of
        None \<Rightarrow> True | Some s' \<Rightarrow> page_searches_ok cfg 32 (slab_bytes cfg) s')"

definition searches_ok :: "config \<Rightarrow> nat \<Rightarrow> nat \<Rightarrow> space \<Rightarrow> bool" where
  "searches_ok cfg bytes al s \<longleftrightarrow> (
     if bytes \<le> slab_max cfg \<and> al \<le> 8 \<and> slab_class cfg bytes al < slab_count cfg
     then slab_searches_ok cfg (slab_class cfg bytes al) s
     else page_searches_ok cfg (pages_of cfg bytes mod 2 ^ 32) al s)"

text \<open>Alignments up to a page, and those the partition starts on, always pass.\<close>

lemma search_ok_start:
  "al div 2 ^ page_shift cfg \<le> 1 \<or> page_phase cfg al = 0 \<Longrightarrow> page_searches_ok cfg pages al s"
  by (auto simp: page_searches_ok_def search_ok_def wraps_def split: option.split)

lemma aligned_phase:
  assumes "config_ok cfg" "power_of_two al"
  shows "al div 2 ^ page_shift cfg \<le> 1 \<or> (\<exists>k < 63. al div 2 ^ page_shift cfg = 2 ^ k) \<and> page_phase cfg al < al div 2 ^ page_shift cfg"
    "(1 < al div 2 ^ page_shift cfg \<Longrightarrow> al div 2 ^ page_shift cfg dvd page_phase cfg al + off) \<Longrightarrow> al dvd (base_page cfg + off) * 2 ^ page_shift cfg"
proof -
  let ?p = "2 ^ page_shift cfg :: nat" and ?b = "base_page cfg"
  obtain k where k: "k < 64" "al = 2 ^ k"
    using assms(2) by (auto simp: power_of_two_def)
  have low: "page_phase cfg al = (?b * ?p mod al) div ?p"
    unfolding page_phase_def and_low [OF assms(2)] by (rule refl)
  consider (page) "k \<le> page_shift cfg" | (above) "page_shift cfg < k"
    by linarith
  then have "(al div ?p \<le> 1 \<or> (\<exists>k < 63. al div ?p = 2 ^ k) \<and> page_phase cfg al < al div ?p) \<and>
      ((1 < al div ?p \<longrightarrow> al div ?p dvd page_phase cfg al + off) \<longrightarrow> al dvd (?b + off) * ?p)"
  proof cases
    case page
    then have "al \<le> ?p" "al dvd ?p"
      unfolding k(2) by (auto intro: power_increasing le_imp_power_dvd)
    then have "al div ?p \<le> 1"
      using div_le_mono [of al ?p ?p] by simp
    then show ?thesis
      using \<open>al dvd ?p\<close> by simp
  next
    case above
    define q where "q = (2 :: nat) ^ (k - page_shift cfg)"
    have al: "al = q * ?p"
      unfolding k(2) q_def power_add [symmetric] using above by simp
    have q: "al div ?p = q" "0 < q"
      by (simp_all add: al q_def)
    have phase: "page_phase cfg al = ?b mod q"
      using low by (simp add: al)
    have "3 \<le> page_shift cfg"
      using assms(1) by (simp add: config_ok_def)
    then have "k - page_shift cfg < 63"
      using k(1) by linarith
    then have pow: "\<exists>k < 63. q = 2 ^ k"
      unfolding q_def by blast
    have "(2 :: nat) ^ 1 \<le> q"
      unfolding q_def using above by (intro power_increasing) simp_all
    then have big: "1 < q"
      by simp
    have "al dvd (?b + off) * ?p" if "q dvd ?b mod q + off"
    proof -
      have "(?b + off) mod q = 0"
        using that by (simp add: mod_add_left_eq flip: mod_eq_0_iff_dvd)
      then have "q * ?p dvd (?b + off) * ?p"
        by (intro mult_dvd_mono) auto
      then show ?thesis
        by (simp add: al)
    qed
    then show ?thesis
      unfolding q(1) phase using pow q(2) big by simp
  qed
  then show "al div ?p \<le> 1 \<or> (\<exists>k < 63. al div ?p = 2 ^ k) \<and> page_phase cfg al < al div ?p"
    "(1 < al div ?p \<Longrightarrow> al div ?p dvd page_phase cfg al + off) \<Longrightarrow> al dvd (?b + off) * ?p"
    by blast+
qed

lemma search_placeable:
  assumes "config_ok cfg" "power_of_two al" "store (pub_pages cfg) role B s" "search_ok cfg pages al s"
  shows "\<forall>i. role i = InTree \<longrightarrow> pages \<le> npages (nodes s i) \<longrightarrow>
    placeable pages (al div 2 ^ page_shift cfg) (page_phase cfg al) (nodes s i)"
proof (intro allI impI)
  fix i assume i: "role i = InTree" "pages \<le> npages (nodes s i)"
  have "heap_ids s = with_role InTree role"
    using storeD(2) [OF assms(3)] by (simp add: wired_def)
  then have "i \<in> heap_ids s"
    using i(1) by simp
  then obtain q where "q < heap_size s" "heap_array s q = i"
    by (auto simp: heap_ids_def)
  then show "placeable pages (al div 2 ^ page_shift cfg) (page_phase cfg al) (nodes s i)"
    using assms(4) i(2) aligned_phase(1) [OF assms(1,2)] unfolding placeable_iff search_ok_def by blast
qed

lemma page_allocate_hit:
  assumes "config_ok cfg" "sound cfg role s" "power_of_two al" "0 < pages" "search_ok cfg pages al s"
    "fst (page_bisect 0 pages (al div 2 ^ page_shift cfg) (page_phase cfg al) s) \<noteq> NIL"
  shows "\<exists>off s' role'. page_allocate cfg pages al s = Some (Inr off, s') \<and> sound cfg role' s' \<and> took cfg {off..<off + pages} role s role' s' \<and>
    al dvd (base_page cfg + off) * 2 ^ page_shift cfg"
proof -
  have S: "store (pub_pages cfg) role (batch_list s) s" "with_role Spare role = {}"
    using assms(2) by (simp_all add: sound_def)
  obtain i d where r: "page_bisect 0 pages (al div 2 ^ page_shift cfg) (page_phase cfg al) s = (i, d)"
    by force
  then have i: "i \<noteq> NIL"
    using assms(6) by simp
  have "case page_bisect 0 pages (al div 2 ^ page_shift cfg) (page_phase cfg al) s of (i, d) \<Rightarrow>
      if i = NIL then heap_ordered s \<longrightarrow> (\<forall>j d. role j = InTree \<longrightarrow> \<not> fits pages (al div 2 ^ page_shift cfg) (page_phase cfg al) (nodes s j) d)
      else role i = InTree \<and> fits pages (al div 2 ^ page_shift cfg) (page_phase cfg al) (nodes s i) d"
    by (rule bisect_spec [OF S(1) search_placeable [OF assms(1,3) S(1) assms(5)]])
  then have found: "role i = InTree" "fits pages (al div 2 ^ page_shift cfg) (page_phase cfg al) (nodes s i) d"
    using r i by simp_all
  then have "d + pages \<le> npages (nodes s i)"
    by (simp add: fits_def)
  then obtain role' s' where t: "page_take cfg pages i d s = Some (offset (nodes s i) + d, s')" "store (pub_pages cfg) role' (batch_list s') s'"
    "gives {offset (nodes s i) + d..<offset (nodes s i) + d + pages} role s role' s'" "occupied s' = add64 (occupied s) (pages * 2 ^ page_shift cfg)"
    using page_take_correct [OF S(1) found(1) assms(4) _ S(2)] by blast
  note given = gives_sound [OF assms(2) t(2,3)]
  have "al dvd (base_page cfg + (offset (nodes s i) + d)) * 2 ^ page_shift cfg"
    using found(2) by (intro aligned_phase(2) [OF assms(1,3)]) (simp add: fits_def add.assoc)
  moreover have "page_allocate cfg pages al s = Some (Inr (offset (nodes s i) + d), s')"
    using i by (subst page_allocate.simps) (simp add: r Let_def t(1))
  ultimately show ?thesis
    using given t(4) by auto
qed

text \<open>The outcome of an allocation of pages, as users see it.\<close>

definition page_result :: "config \<Rightarrow> nat \<Rightarrow> nat \<Rightarrow> (nat \<Rightarrow> role) \<Rightarrow> space \<Rightarrow> nat res \<Rightarrow> (nat \<Rightarrow> role) \<Rightarrow> space \<Rightarrow> bool" where
  "page_result cfg pages al role s r role' s' \<longleftrightarrow>
     valid cfg role' s' \<and> user_blocks cfg role' s' = user_blocks cfg role s \<and>
     (case r of
        Inl e \<Rightarrow> e = MemoryError \<and> user_pages cfg role' s' = user_pages cfg role s \<and> batch_list s' = [] \<and> remote_slab s' = [] \<and> remote_page s' = []
      | Inr off \<Rightarrow> al dvd (base_page cfg + off) * 2 ^ page_shift cfg \<and> {off..<off + pages} \<subseteq> {..<pub_pages cfg} \<and>
          {off..<off + pages} \<inter> user_pages cfg role s = {} \<and> user_pages cfg role' s' = user_pages cfg role s \<union> {off..<off + pages} \<and>
          {off..<off + pages} \<subseteq> held_pages (pub_pages cfg) role' s' \<and> {off..<off + pages} \<inter> run_pages cfg (remote_page s') = {})"

lemma took_valid:
  assumes "valid cfg role s" "sound cfg role' s'" "took cfg P role s role' s'"
  shows "valid cfg role' s'" "user_blocks cfg role' s' = user_blocks cfg role s" "user_pages cfg role' s' = user_pages cfg role s \<union> P"
    "P \<inter> user_pages cfg role s = {}" "P \<inter> run_pages cfg (remote_page s') = {}"
proof -
  have V: "distinct (remote_slab s)" "set (remote_slab s) \<subseteq> fst ` held_blocks cfg role s" "runs_ok cfg (held_pages (pub_pages cfg) role s) (remote_page s)"
    using assms(1) by (simp_all add: valid_def)
  have T: "P \<inter> held_pages (pub_pages cfg) role s = {}" "held_blocks cfg role' s' = held_blocks cfg role s"
    "held_pages (pub_pages cfg) role' s' = held_pages (pub_pages cfg) role s \<union> P" "remote_slab s' = remote_slab s" "remote_page s' = remote_page s"
    using assms(3) by (simp_all add: took_def)
  have "runs_ok cfg (held_pages (pub_pages cfg) role' s') (remote_page s')"
    using runs_ok_mono [OF V(3)] by (simp add: T(3,5))
  then show "valid cfg role' s'"
    using assms(2) V by (simp add: valid_def T(2,4))
  show "user_blocks cfg role' s' = user_blocks cfg role s"
    by (simp add: user_blocks_def T(2,4))
  have runs: "run_pages cfg (remote_page s) \<subseteq> held_pages (pub_pages cfg) role s"
    by (rule runs_ok_pages [OF V(3)])
  then show "user_pages cfg role' s' = user_pages cfg role s \<union> P" "P \<inter> user_pages cfg role s = {}" "P \<inter> run_pages cfg (remote_page s') = {}"
    using T(1) by (auto simp: user_pages_def T(3,5))
qed

lemma took_result:
  assumes "valid cfg role s" "sound cfg role' s'" "took cfg {off..<off + pages} role s role' s'" "al dvd (base_page cfg + off) * 2 ^ page_shift cfg"
  shows "page_result cfg pages al role s (Inr off) role' s'"
  using took_valid [OF assms(1-3)] assms(3,4) by (simp add: page_result_def took_def)

text \<open>With nothing to drain or to coalesce, the second attempt decides.\<close>

lemma page_allocate_clean:
  assumes "config_ok cfg" "valid cfg role s" "power_of_two al" "0 < pages" "batch_list s = []" "remote_slab s = []" "remote_page s = []"
    "search_ok cfg pages al s"
  shows "\<exists>r s' role'. page_allocate cfg pages al s = Some (r, s') \<and> page_result cfg pages al role s r role' s'"
proof (cases "fst (page_bisect 0 pages (al div 2 ^ page_shift cfg) (page_phase cfg al) s) = NIL")
  case True
  have "s\<lparr>remote_slab := []\<rparr> = s" "s\<lparr>remote_page := []\<rparr> = s"
    using assms(6,7) by simp_all
  then have "drain_remote cfg s = Some s"
    by (simp add: drain_remote_def assms(6,7))
  then have "page_allocate cfg pages al s = Some (Inl MemoryError, s)"
    using True by (subst page_allocate.simps) (simp add: Let_def assms(5))
  then show ?thesis
    using assms(2,5-7) by (auto simp: page_result_def)
next
  case False
  have "sound cfg role s"
    using assms(2) by (simp add: valid_def)
  then show ?thesis
    using page_allocate_hit [OF assms(1) _ assms(3,4,8) False] took_result [OF assms(2)] by meson
qed

lemma same_user_valid:
  assumes "valid cfg role s" "sound cfg role' s'" "same_user cfg role s role' s'"
  shows "valid cfg role' s'" "user_blocks cfg role' s' = user_blocks cfg role s" "user_pages cfg role' s' = user_pages cfg role s"
  using assms by (simp_all add: valid_def same_user_def user_blocks_def user_pages_def)

lemma page_result_trans:
  assumes "page_result cfg pages al role s r role' s'" "user_blocks cfg role s = user_blocks cfg role0 s0" "user_pages cfg role s = user_pages cfg role0 s0"
  shows "page_result cfg pages al role0 s0 r role' s'"
  using assms unfolding page_result_def by (simp split: sum.splits)

lemma page_allocate_correct:
  assumes "config_ok cfg" "valid cfg role s" "power_of_two al" "0 < pages" "page_searches_ok cfg pages al s"
  shows "\<exists>r s' role'. page_allocate cfg pages al s = Some (r, s') \<and> page_result cfg pages al role s r role' s'"
proof (cases "fst (page_bisect 0 pages (al div 2 ^ page_shift cfg) (page_phase cfg al) s) = NIL")
  case True
  obtain s1 role1 where s1: "drain_remote cfg s = Some s1" "valid cfg role1 s1" "remote_slab s1 = []" "remote_page s1 = []"
    "user_blocks cfg role1 s1 = user_blocks cfg role s" "user_pages cfg role1 s1 = user_pages cfg role s"
    using drain_remote_valid [OF assms(1,2)] by blast
  show ?thesis
  proof (cases "batch_list s1 = []")
    case empty: True
    then have "page_allocate cfg pages al s = Some (Inl MemoryError, s1)"
      using True by (subst page_allocate.simps) (simp add: Let_def s1(1))
    moreover have "page_result cfg pages al role s (Inl MemoryError) role1 s1"
      using s1 empty by (simp add: page_result_def)
    ultimately show ?thesis by blast
  next
    case False
    have "pre_sound cfg role1 s1" "0 < coalesce_buffer cfg"
      using s1(2) assms(1) by (simp_all add: valid_def sound_pre config_ok_def)
    then obtain s2 role2 where s2: "coalesce cfg s1 = Some s2" "sound cfg role2 s2" "same_user cfg role1 s1 role2 s2" "batch_list s2 = []"
      using coalesce_sound [OF _ False] by blast
    note v2 = same_user_valid [OF s1(2) s2(2,3)]
    have "remote_slab s2 = []" "remote_page s2 = []"
      using s2(3) s1(3,4) by (simp_all add: same_user_def)
    moreover have "search_ok cfg pages al s2"
      using assms(5) True False by (simp add: page_searches_ok_def second_search_def s1(1) s2(1))
    ultimately have "\<exists>r s' role'. page_allocate cfg pages al s2 = Some (r, s') \<and> page_result cfg pages al role2 s2 r role' s'"
      by (rule page_allocate_clean [OF assms(1) v2(1) assms(3,4) s2(4)])
    then
    obtain r s' role' where s': "page_allocate cfg pages al s2 = Some (r, s')" "page_result cfg pages al role2 s2 r role' s'"
      by blast
    have "page_allocate cfg pages al s = Some (r, s')"
      using True False s'(1) by (subst page_allocate.simps) (simp add: Let_def s1(1) s2(1))
    then show ?thesis
      using page_result_trans [OF s'(2)] v2(2,3) s1(5,6) by auto
  qed
next
  case False
  have "sound cfg role s"
    using assms(2) by (simp add: valid_def)
  then show ?thesis
    using page_allocate_hit [OF assms(1) _ assms(3,4) _ False] took_result [OF assms(2)] assms(5) unfolding page_searches_ok_def by meson
qed

section \<open>Allocating blocks\<close>

lemma full_ids_spec:
  "inj_on (full_ids k f) {1..k}" "full_ids k f ` {1..k} = {..<k}"
proof -
  have eq: "full_ids k f j = k - j" if "j \<in> {1..k}" for j
    using that by (simp add: full_ids_def)
  show "inj_on (full_ids k f) {1..k}"
    by (rule inj_onI) (auto simp: eq)
  have "x \<in> full_ids k f ` {1..k}" if "x < k" for x
  proof (rule image_eqI)
    have "1 \<le> k - x"
      using that by linarith
    then show "x = full_ids k f (k - x)" "k - x \<in> {1..k}"
      using that by (simp_all add: full_ids_def)
  qed
  then show "full_ids k f ` {1..k} = {..<k}"
    by (auto simp: eq)
qed

lemma init_slab_sound:
  assumes "config_ok cfg" "sound cfg role s" "c < slab_count cfg" "{off..<off + 32} \<subseteq> held_pages (pub_pages cfg) role s" "32 dvd base_page cfg + off"
  shows "\<exists>i s' role'. init_slab cfg c off s = (i, s') \<and> sound cfg role' s' \<and> freed cfg {} {off..<off + 32} role s role' s' \<and> slabs s' c = i \<and> i \<noteq> NIL"
proof -
  have S: "store (pub_pages cfg) role (batch_list s) s" "with_role InHand role = {}" "with_role Spare role = {}"
    "length (batch_list s) < coalesce_buffer cfg" "batch_pages s = (\<Sum>i \<in> set (batch_list s). npages (nodes s i))" "accounted cfg role s"
    "\<And>j. role j = Slabbed \<Longrightarrow> slab_ok cfg role j s" "\<And>j. role j = Slabbed \<Longrightarrow> slab_linked role j s" "heads_ok role s"
    using assms(2) by (simp_all add: sound_def slabs_ok_def)
  have room: "uncovered role (nodes s) off 32" "off + 32 \<le> pub_pages cfg"
    using held_uncovered [OF storeD(3) [OF S(1)] assms(4)] by simp_all
  define s0 where "s0 = s\<lparr>occupied := sub64 (occupied s) (slab_bytes cfg)\<rparr>"
  obtain i s1 where got: "get_node s0 = (i, s1)"
    by force
  define k where "k = slab_blocks cfg c"
  define g where "g = base_page cfg + off"
  define N where "N = \<lparr>offset = off, npages = c, left_child = NIL, right_child = NIL, heap_link = k\<rparr>"
  have store0: "store (pub_pages cfg) role (batch_list s) s0"
    using S(1) by (simp add: s0_def)
  have gap: "apart (offset N) 32 (offset (nodes s0 j)) (extent role (nodes s0) j)" if "j \<in> live role" for j
    using room(1) that by (simp add: uncovered_def N_def s0_def)
  have "(32 :: nat) = (if Slabbed = Slabbed then 32 else npages N)" "offset N + 32 \<le> pub_pages cfg" "card (with_role Spare role) < 32"
    using room(2) S(3) by (simp_all add: N_def)
  note new = get_node_store [OF store0 got _ this(1) _ this(2) gap this(3), simplified]
  have i: "i \<notin> live role" "role i \<noteq> Spare" "i < pub_pages cfg" "nodes s1 = nodes s"
    using new(1-3,5) by (simp_all add: s0_def)
  then have roles: "role i = Absent \<or> role i = Unused"
    by (auto simp: live_def)
  define role' where "role' = role(i := Slabbed)"
  define s' where "s' = set_slab_head c i (s1\<lparr>nodes := (nodes s1)(i := N), slab_ids := (slab_ids s1)(g := i),
    slab_free := (slab_free s1)(g := full_ids k (slab_free s1 g))\<rparr>)"
  have eq: "init_slab cfg c off s = (i, s')"
    by (simp add: init_slab_def s0_def [symmetric] got Let_def s'_def g_def k_def N_def)
  have rest1: "other_part s1 = other_part s" "batch_list s1 = batch_list s" "batch_pages s1 = batch_pages s" "occupied s1 = sub64 (occupied s) (slab_bytes cfg)"
    using get_node_part [OF got] by (auto simp: s0_def)
  then have old: "slab_ids s1 = slab_ids s" "slab_free s1 = slab_free s" "slabs s1 = slabs s" "remote_slab s1 = remote_slab s" "remote_page s1 = remote_page s"
    by (simp_all add: other_part_def)
  have fields: "nodes s' = (nodes s)(i := N)" "slab_ids s' = (slab_ids s)(g := i)" "slab_free s' = (slab_free s)(g := full_ids k (slab_free s g))"
    "slabs s' = (slabs s)(c := i)" "batch_list s' = batch_list s" "batch_pages s' = batch_pages s" "occupied s' = sub64 (occupied s) (slab_bytes cfg)"
    "remote_slab s' = remote_slab s" "remote_page s' = remote_page s"
    by (simp_all add: s'_def set_slab_head_def old rest1 i(4))
  have "store (pub_pages cfg) role' (batch_list s) s'"
    using new(4) by (simp add: s'_def set_slab_head_def role'_def)
  then have store': "store (pub_pages cfg) role' (batch_list s') s'"
    by (simp add: fields)
  have page_i: "slab_page cfg i s' = g"
    by (simp add: slab_page_def fields N_def g_def)
  have ids_i: "free_ids cfg i s' = {..<k}"
    unfolding free_ids_def page_i using full_ids_spec(2) [of k "slab_free s g"] by (simp add: fields N_def)
  have ok_i: "slab_ok cfg role' i s'"
    unfolding slab_ok_def ids_i page_i using assms(3,5) full_ids_spec(1) [of k "slab_free s g"] by (simp add: fields N_def g_def k_def)
  have other: "slab_ok cfg role' j s'" "free_ids cfg j s' = free_ids cfg j s" "j \<noteq> i" "slab_data cfg j b s' = slab_data cfg j b s"
    if j: "role j = Slabbed" for j b
  proof -
    show ji: "j \<noteq> i"
      using j roles by auto
    have "apart off 32 (offset (nodes s j)) 32"
      using room(1) live_roles(4) [of role j, OF j] j by (auto simp: uncovered_def extent_def)
    then have page: "slab_page cfg j s \<noteq> g" "slab_page cfg j s' = slab_page cfg j s"
      using ji by (auto simp: apart_def slab_page_def g_def fields)
    then show ids: "free_ids cfg j s' = free_ids cfg j s"
      using ji by (simp add: free_ids_def fields)
    show "slab_ok cfg role' j s'"
      using S(7) [OF j] page ji unfolding slab_ok_def ids by (simp add: fields)
    show "slab_data cfg j b s' = slab_data cfg j b s"
      using ji by (simp add: slab_data_def fields)
  qed
  have kpos: "0 < k"
    unfolding k_def by (rule slab_blocks_spec(2) [OF assms(1,3)])
  have linked: "slab_linked role' j s'" if "role' j = Slabbed" for j
  proof (cases "j = i")
    case True
    then show ?thesis
      using kpos by (simp add: slab_linked_def fields N_def)
  next
    case False
    then have j: "role j = Slabbed"
      using that by (simp add: role'_def)
    note old = S(8) [OF j, unfolded slab_linked_def]
    have "left_child (nodes s j) \<noteq> NIL \<Longrightarrow> left_child (nodes s j) \<noteq> i" "right_child (nodes s j) \<noteq> NIL \<Longrightarrow> right_child (nodes s j) \<noteq> i"
      using old other(3) by blast+
    then show ?thesis
      using old False unfolding slab_linked_def by (auto simp: fields role'_def)
  qed
  have heads: "heads_ok role' s'"
    unfolding heads_ok_def
  proof (intro allI impI)
    fix d assume d: "slabs s' d \<noteq> NIL"
    show "role' (slabs s' d) = Slabbed \<and> npages (nodes s' (slabs s' d)) = d \<and> left_child (nodes s' (slabs s' d)) = NIL"
    proof (cases "d = c")
      case True
      then show ?thesis
        by (simp add: fields role'_def N_def)
    next
      case False
      then have "slabs s' d = slabs s d" "slabs s d \<noteq> NIL"
        using d by (simp_all add: fields)
      then show ?thesis
        using S(9) other(3) [of "slabs s d"] by (simp add: heads_ok_def role'_def fields)
    qed
  qed
  have "slabs_ok cfg role' s'"
    unfolding slabs_ok_def using linked heads ok_i other(1) by (auto simp: role'_def)
  moreover have blocks: "held_blocks cfg role' s' = held_blocks cfg role s"
  proof -
    have free: "\<not> (b < slab_blocks cfg (npages (nodes s' i)) \<and> b \<notin> free_ids cfg i s')" for b
      by (simp add: ids_i fields N_def k_def)
    have "(role' j = Slabbed \<and> b < slab_blocks cfg (npages (nodes s' j)) \<and> b \<notin> free_ids cfg j s') \<longleftrightarrow>
        (role j = Slabbed \<and> b < slab_blocks cfg (npages (nodes s j)) \<and> b \<notin> free_ids cfg j s)" for j b
    proof (cases "j = i")
      case True
      then show ?thesis
        using free roles by auto
    next
      case False
      then show ?thesis
        using other(2) [of j] by (auto simp: role'_def fields)
    qed
    moreover have "(slab_data cfg j b s', slab_class_size (npages (nodes s' j))) = (slab_data cfg j b s, slab_class_size (npages (nodes s j)))"
      if "role j = Slabbed" for j b
      using other(3,4) [OF that] by (simp add: fields)
    ultimately show ?thesis
      unfolding held_blocks_def by (intro Collect_cong) metis
  qed
  moreover have pages: "held_pages (pub_pages cfg) role' s' = held_pages (pub_pages cfg) role s - {off..<off + 32}"
    unfolding held_pages_def fields role'_def by (subst covered_insert) (use roles in \<open>auto simp: N_def\<close>)
  moreover have "accounted cfg role' s'"
    by (rule accounted_free_pages [OF S(6) blocks assms(4) pages]) (simp add: fields slab_bytes_def)
  moreover have "(\<Sum>j \<in> set (batch_list s). npages (nodes s' j)) = (\<Sum>j \<in> set (batch_list s). npages (nodes s j))"
    using storeD(5) [OF S(1)] roles by (intro sum.cong) (auto simp: fields)
  moreover have "with_role InHand role' = {}" "with_role Spare role' = {}"
    using S(2,3) by (auto simp: role'_def)
  ultimately have "sound cfg role' s'"
    using store' S(4,5) by (simp add: sound_def fields)
  moreover have "freed cfg {} {off..<off + 32} role s role' s'"
    using blocks pages by (simp add: freed_def fields)
  moreover have "slabs s' c = i" "i \<noteq> NIL"
    using i(3) storeD(1) [OF S(1)] by (simp_all add: fields)
  ultimately show ?thesis
    using eq by blast
qed

text \<open>Giving the last block takes a slab off its list as reclaiming it does.\<close>

lemma take_unlink:
  assumes "left_child (nodes s i) = NIL" "npages (nodes s i) = c" "i \<noteq> NIL"
  shows "link_left i NIL (link_right i NIL (set_slab_head c (right_child (nodes s i)) (link_left (right_child (nodes s i)) (left_child (nodes s i)) s))) = slab_unlink i s"
  using assms by (simp add: slab_unlink_def Let_def link_left_def link_right_def set_slab_head_def)

lemma sub_one: "0 < k \<Longrightarrow> k < 2 ^ 32 \<Longrightarrow> sub32 k 1 = k - 1"
  by (simp add: sub32_eq)

lemma accounted_add_block:
  assumes "accounted cfg role s" "finite (held_blocks cfg role s)" "(p, n) \<notin> held_blocks cfg role s"
    "held_blocks cfg role' s' = insert (p, n) (held_blocks cfg role s)" "held_pages (pub_pages cfg) role' s' = held_pages (pub_pages cfg) role s"
    "occupied s' = add64 (occupied s) n"
  shows "accounted cfg role' s'"
proof -
  have "(\<Sum>x \<in> held_blocks cfg role' s'. snd x) + card (held_pages (pub_pages cfg) role' s') * 2 ^ page_shift cfg =
      (\<Sum>x \<in> held_blocks cfg role s. snd x) + card (held_pages (pub_pages cfg) role s) * 2 ^ page_shift cfg + n"
    using assms(2,3) by (simp add: assms(4,5))
  then show ?thesis
    using assms(1) unfolding accounted_def assms(6) by (simp only: add64_mod)
qed

lemma pop_ids:
  assumes "inj_on f {1..k}" "0 < (k :: nat)"
  shows "f ` {1..k - 1} = f ` {1..k} - {f k}" "inj_on f {1..k - 1}" "f k \<in> f ` {1..k}"
proof -
  have split: "{1..k} = insert k {1..k - 1}" "k \<notin> {1..k - 1}"
    using assms(2) by auto
  show "inj_on f {1..k - 1}"
    using assms(1) by (rule inj_on_subset) auto
  have "f k \<notin> f ` {1..k - 1}"
    using assms(1) split by (simp add: inj_on_insert)
  then show "f ` {1..k - 1} = f ` {1..k} - {f k}"
    unfolding split(1) by auto
  show "f k \<in> f ` {1..k}"
    using assms(2) by simp
qed

lemma slab_take_sound:
  assumes "config_ok cfg" "sound cfg role s" "slabs s c = i" "i \<noteq> NIL"
  shows "\<exists>p s'. slab_take cfg c i s = (p, s') \<and> sound cfg role s' \<and> (p, slab_class_size c) \<notin> held_blocks cfg role s \<and>
    held_blocks cfg role s' = insert (p, slab_class_size c) (held_blocks cfg role s) \<and>
    held_pages (pub_pages cfg) role s' = held_pages (pub_pages cfg) role s \<and> remote_slab s' = remote_slab s \<and> remote_page s' = remote_page s"
proof -
  have S: "store (pub_pages cfg) role (batch_list s) s" "with_role InHand role = {}" "with_role Spare role = {}"
    "length (batch_list s) < coalesce_buffer cfg" "batch_pages s = (\<Sum>i \<in> set (batch_list s). npages (nodes s i))" "accounted cfg role s"
    "\<And>j. role j = Slabbed \<Longrightarrow> slab_ok cfg role j s" "\<And>j. role j = Slabbed \<Longrightarrow> slab_linked role j s" "heads_ok role s"
    using assms(2) by (simp_all add: sound_def slabs_ok_def)
  have i: "role i = Slabbed" "npages (nodes s i) = c" "left_child (nodes s i) = NIL"
    using S(9) assms(3,4) by (auto simp: heads_ok_def)
  define k where "k = heap_link (nodes s i)"
  define f where "f = slab_free s (slab_page cfg i s)"
  have ok: "c < slab_count cfg" "k \<le> slab_blocks cfg c" "inj_on f {1..k}" "free_ids cfg i s = f ` {1..k}" "f ` {1..k} \<subseteq> {..<slab_blocks cfg c}"
    using S(7) [OF i(1)] by (simp_all add: slab_ok_def free_ids_def k_def f_def i(2))
  have k: "0 < k"
    using S(8) [OF i(1)] assms(3) i(2) by (auto simp: slab_linked_def k_def)
  have "slab_blocks cfg c < 2 ^ 16"
    by (rule slab_blocks_spec(4) [OF assms(1) ok(1)])
  then have "k < 2 ^ 32"
    using ok(2) by simp
  note sub = sub_one [OF k this]
  define t where "t = (if k = 1 then slab_unlink i s else s)"
  have re: "relinked role s t"
  proof (cases "k = 1")
    case True
    note eq = slab_unlink_eq [OF assms(4), of s]
    have "right_child (nodes s i) \<noteq> NIL \<Longrightarrow> role (right_child (nodes s i)) = Slabbed"
      using S(8) [OF i(1)] by (simp add: slab_linked_def)
    then have "nodes (slab_unlink i s) j = nodes s j" if "role j \<noteq> Slabbed" for j
      using that i(1,3) by (auto simp: eq(1))
    moreover have "offset (nodes (slab_unlink i s) j) = offset (nodes s j) \<and> npages (nodes (slab_unlink i s) j) = npages (nodes s j) \<and>
        heap_link (nodes (slab_unlink i s) j) = heap_link (nodes s j)" for j
      by (simp add: eq(1))
    ultimately show ?thesis
      unfolding relinked_def t_def if_P [OF True] using eq(3) by blast
  next
    case False
    then show ?thesis
      by (simp add: relinked_def t_def)
  qed
  note user = relinked_user [OF re]
  have pay: "offset (nodes t j) = offset (nodes s j)" "npages (nodes t j) = npages (nodes s j)" "heap_link (nodes t j) = heap_link (nodes s j)" for j
    using re by (simp_all add: relinked_def)
  define u where "u = t\<lparr>occupied := add64 (occupied t) (slab_class_size c)\<rparr>"
  define s' where "s' = u\<lparr>nodes := set_heap (nodes u) i (k - 1)\<rparr>"
  have page: "slab_page cfg j t = slab_page cfg j s" "slab_page cfg j u = slab_page cfg j s" "slab_page cfg j s' = slab_page cfg j s" for j
    by (simp_all add: slab_page_def u_def s'_def pay)
  have pop: "slab_pop cfg i u = (f k, s')"
    by (simp add: slab_pop_def s'_def u_def pay k_def [symmetric] sub [unfolded One_nat_def] f_def user(12) slab_page_def)
  have data: "slab_data cfg j b s' = slab_data cfg j b s" for j b
    by (simp add: slab_data_def s'_def u_def pay)
  have take: "slab_take cfg c i s = (slab_data cfg i (f k) s, s')"
    unfolding slab_take_def Let_def k_def [symmetric] take_unlink [OF i(3,2) assms(4)] t_def [symmetric] u_def [symmetric] pop by (simp add: data)
  have fields: "slab_ids s' = slab_ids s" "slab_free s' = slab_free s" "slabs s' = slabs t" "batch_list s' = batch_list s" "batch_pages s' = batch_pages s"
    "remote_slab s' = remote_slab s" "remote_page s' = remote_page s" "occupied s' = add64 (occupied s) (slab_class_size c)"
    "npages (nodes s' j) = npages (nodes s j)" "offset (nodes s' j) = offset (nodes s j)" "left_child (nodes s' j) = left_child (nodes t j)"
    "right_child (nodes s' j) = right_child (nodes t j)" "heap_link (nodes s' j) = (if j = i then k - 1 else heap_link (nodes s j))" for j
    by (simp_all add: s'_def u_def user(6-12) pay)
  have others: "nodes s' j = nodes t j" if "role j \<noteq> Slabbed" for j
    using that i(1) by (auto simp: s'_def u_def)
  have "store (pub_pages cfg) role (batch_list s) (t\<lparr>nodes := nodes s'\<rparr>)"
    by (rule store_slab_nodes [OF user(5) [OF S(1)]]) (use others in \<open>simp_all add: fields pay\<close>)
  then have kept: "store (pub_pages cfg) role (batch_list s) (t\<lparr>nodes := nodes s', occupied := occupied s'\<rparr>)"
    by (simp only: store_fields)
  have same: "t\<lparr>nodes := nodes s', occupied := occupied s'\<rparr> = s'"
    by (simp add: s'_def u_def)
  have store': "store (pub_pages cfg) role (batch_list s') s'"
    using kept unfolding same fields(4) .
  note ids = pop_ids [OF ok(3) k]
  have free: "free_ids cfg j s' = (if j = i then free_ids cfg i s - {f k} else free_ids cfg j s)" for j
    using ids(1) by (simp add: free_ids_def page fields ok(4) f_def [symmetric]) (simp add: k_def f_def)
  have oks: "slab_ok cfg role j s'" if j: "role j = Slabbed" for j
  proof (cases "j = i")
    case True
    have "k - 1 \<le> slab_blocks cfg c" "free_ids cfg i s' \<subseteq> {..<slab_blocks cfg c}"
      using ok(2,4,5) by (auto simp: free)
    then show ?thesis
      using S(7) [OF i(1)] ids(2) unfolding True slab_ok_def page by (simp add: fields i(2) f_def)
  next
    case False
    then have "free_ids cfg j s' = free_ids cfg j s"
      by (simp add: free)
    then show ?thesis
      using S(7) [OF j] False unfolding slab_ok_def page by (simp add: fields)
  qed
  have none: "role NIL \<noteq> Slabbed"
    by (rule store_NIL [OF S(1)])
  have role_id: "role(i := Slabbed) = role"
    using i(1) by (simp add: fun_upd_idem)
  have unlinked: "j \<noteq> i \<Longrightarrow> role j = Slabbed \<Longrightarrow> slab_linked role j (slab_unlink i s)" "heads_ok role (slab_unlink i s)"
    "slabs (slab_unlink i s) d \<noteq> i" for j d
    using unlink_linked(1,2) [OF _ S(9) i(1) none, where x = Slabbed, unfolded role_id] unlink_linked(3) [OF _ S(9) i(1) none] S(8) by blast+
  have linked_t: "slab_linked role j t" if "role j = Slabbed" "j \<noteq> i" for j
    using unlinked(1) [OF that(2,1)] S(8) [OF that(1)] by (simp add: t_def)
  have heads_t: "heads_ok role t"
    using unlinked(2) S(9) by (simp add: t_def)
  have linked: "slab_linked role j s'" if j: "role j = Slabbed" for j
  proof (cases "j = i")
    case False
    then show ?thesis
      using linked_t [OF j False] by (simp add: slab_linked_def fields pay)
  next
    case True
    show ?thesis
    proof (cases "k = 1")
      case one: True
      have "left_child (nodes t i) = NIL" "right_child (nodes t i) = NIL" "slabs t c \<noteq> i"
        using unlinked(3) [of c] one by (simp_all add: t_def slab_unlink_eq(1) [OF assms(4)])
      then show ?thesis
        by (simp add: True slab_linked_def fields i(2))
    next
      case False
      then have "t = s" "k - 1 \<noteq> 0"
        using k by (simp_all add: t_def)
      then show ?thesis
        using S(8) [OF i(1)] by (simp add: True slab_linked_def fields)
    qed
  qed
  have "heads_ok role s'"
    using heads_t by (simp add: heads_ok_def fields pay)
  then have "slabs_ok cfg role s'"
    unfolding slabs_ok_def using oks linked by blast
  moreover have fresh: "f k \<in> free_ids cfg i s" "f k < slab_blocks cfg c"
    using ids(3) ok(4,5) by auto
  define n where "n = slab_class_size c"
  have new: "(slab_data cfg i (f k) s, n) \<notin> held_blocks cfg role s"
  proof
    assume "(slab_data cfg i (f k) s, n) \<in> held_blocks cfg role s"
    then obtain j b where j: "role j = Slabbed" "b < slab_blocks cfg (npages (nodes s j))" "b \<notin> free_ids cfg j s" "slab_data cfg i (f k) s = slab_data cfg j b s"
      by (auto simp: held_blocks_def)
    have "f k < slab_blocks cfg (npages (nodes s i))"
      using fresh(2) by (simp add: i(2))
    from block_inject [OF assms(1) S(1,7) i(1) this j(1,2,4)] show False
      using j(3) fresh(1) by simp
  qed
  have blocks: "held_blocks cfg role s' = insert (slab_data cfg i (f k) s, n) (held_blocks cfg role s)"
  proof -
    have iff: "(role j = Slabbed \<and> b < slab_blocks cfg (npages (nodes s j)) \<and> b \<notin> free_ids cfg j s') \<longleftrightarrow>
        (j = i \<and> b = f k) \<or> (role j = Slabbed \<and> b < slab_blocks cfg (npages (nodes s j)) \<and> b \<notin> free_ids cfg j s)" for j b
      using fresh i(1,2) by (auto simp: free)
    show ?thesis
      unfolding held_blocks_def fields data iff n_def using i(2) by auto
  qed
  have pages: "held_pages (pub_pages cfg) role s' = held_pages (pub_pages cfg) role s"
  proof -
    have "covered R role (nodes s') = covered R role (nodes s)" for R
      using covered_slab_nodes [of role "nodes s'" "nodes t"] others user(4) by (simp add: fields pay)
    then show ?thesis
      by (simp add: held_pages_def)
  qed
  have "accounted cfg role s'"
    by (rule accounted_add_block [OF S(6) finite_held_blocks [OF S(1)] new blocks pages]) (simp add: fields n_def)
  ultimately have "sound cfg role s'"
    using store' S(2-5) by (simp add: sound_def fields)
  then show ?thesis
    using take new blocks pages by (auto simp: fields n_def)
qed

section \<open>Requests keep the address space valid\<close>

lemma runs_ok_diff: "runs_ok cfg P rs \<Longrightarrow> Q \<inter> run_pages cfg rs = {} \<Longrightarrow> runs_ok cfg (P - Q) rs"
proof (induction rs arbitrary: P)
  case (Cons r rs)
  have "P - Q - run_of cfg r = P - run_of cfg r - Q"
    by blast
  then show ?case
    using Cons by auto
qed simp

text \<open>Coalescing at the threshold restores the room of the batch.\<close>

lemma threshold_sound:
  assumes "pre_sound cfg role s" "length (batch_list s) \<le> coalesce_buffer cfg" "0 < coalesce_buffer cfg"
  shows "\<exists>s' role'. (if coalesce_buffer cfg \<le> batch_pages s then coalesce cfg s else Some s) = Some s' \<and> sound cfg role' s' \<and> same_user cfg role s role' s'"
proof -
  have S: "store (pub_pages cfg) role (batch_list s) s" "batch_pages s = (\<Sum>i \<in> set (batch_list s). npages (nodes s i))"
    using assms(1) by (simp_all add: pre_sound_def)
  have pos: "1 \<le> npages (nodes s i)" if "i \<in> set (batch_list s)" for i
  proof -
    have "role i = Batched"
      using that storeD(5) [OF S(1)] by simp
    then show ?thesis
      using tiled_bound [OF storeD(3) [OF S(1)] live_roles(3) [of role i]] by (simp add: extent_def)
  qed
  have "length (batch_list s) = (\<Sum>i \<in> set (batch_list s). 1)"
    using storeD(4) [OF S(1)] by (simp add: distinct_card)
  also have "\<dots> \<le> batch_pages s"
    unfolding S(2) by (rule sum_mono) (rule pos)
  finally have len: "length (batch_list s) \<le> batch_pages s" .
  show ?thesis
  proof (cases "coalesce_buffer cfg \<le> batch_pages s")
    case True
    then have "batch_list s \<noteq> []"
      using assms(3) S(2) by auto
    then show ?thesis
      using coalesce_sound [OF assms(1) _ assms(3)] True by auto
  next
    case False
    then have "sound cfg role s"
      using len assms(1) by (simp add: sound_pre)
    then show ?thesis
      using False by (auto simp: same_user_def)
  qed
qed

lemma threshold_valid:
  assumes "valid cfg role s" "0 < coalesce_buffer cfg"
  shows "\<exists>s' role'. (if coalesce_buffer cfg \<le> batch_pages s then coalesce cfg s else Some s) = Some s' \<and> valid cfg role' s' \<and>
    user_blocks cfg role' s' = user_blocks cfg role s \<and> user_pages cfg role' s' = user_pages cfg role s"
proof -
  have "pre_sound cfg role s" "length (batch_list s) \<le> coalesce_buffer cfg"
    using assms(1) by (simp_all add: valid_def sound_pre)
  then obtain s' role' where "(if coalesce_buffer cfg \<le> batch_pages s then coalesce cfg s else Some s) = Some s'" "sound cfg role' s'" "same_user cfg role s role' s'"
    using threshold_sound [OF _ _ assms(2)] by blast
  then show ?thesis
    using same_user_valid [OF assms(1)] by blast
qed

lemma slab_aligned:
  assumes "config_ok cfg"
  shows "power_of_two (slab_bytes cfg)" "slab_bytes cfg dvd (base_page cfg + off) * 2 ^ page_shift cfg \<Longrightarrow> 32 dvd base_page cfg + off"
proof -
  have "slab_bytes cfg = 2 ^ (page_shift cfg + 5)" "page_shift cfg + 5 < 64"
    using assms(1) by (simp_all add: slab_bytes_def power_add config_ok_def)
  then show "power_of_two (slab_bytes cfg)"
    unfolding power_of_two_def by blast
  show "32 dvd base_page cfg + off" if "slab_bytes cfg dvd (base_page cfg + off) * 2 ^ page_shift cfg"
    using that by (simp add: slab_bytes_def)
qed

lemma new_slab_valid:
  assumes "config_ok cfg" "valid cfg role s" "c < slab_count cfg" "slab_searches_ok cfg c s" "slabs s c = NIL"
  shows "\<exists>r s' role'. new_slab cfg c s = Some (r, s') \<and> valid cfg role' s' \<and> user_blocks cfg role' s' = user_blocks cfg role s \<and>
    user_pages cfg role' s' = user_pages cfg role s \<and> (case r of Inl e \<Rightarrow> e = MemoryError | Inr i \<Rightarrow> slabs s' c = i \<and> i \<noteq> NIL)"
proof -
  have buffer: "0 < coalesce_buffer cfg"
    using assms(1) by (simp add: config_ok_def)
  obtain s1 role1 where s1: "drain_remote cfg s = Some s1" "valid cfg role1 s1" "user_blocks cfg role1 s1 = user_blocks cfg role s"
    "user_pages cfg role1 s1 = user_pages cfg role s"
    using drain_remote_valid [OF assms(1,2)] by blast
  obtain s2 role2 where s2: "(if coalesce_buffer cfg \<le> batch_pages s1 then coalesce cfg s1 else Some s1) = Some s2" "valid cfg role2 s2"
    "user_blocks cfg role2 s2 = user_blocks cfg role1 s1" "user_pages cfg role2 s2 = user_pages cfg role1 s1"
    using threshold_valid [OF s1(2) buffer] by blast
  have "0 < (32 :: nat)" "page_searches_ok cfg 32 (slab_bytes cfg) s2"
    using assms(4,5) by (simp_all add: slab_searches_ok_def s1(1) s2(1))
  then obtain r s3 role3 where s3: "page_allocate cfg 32 (slab_bytes cfg) s2 = Some (r, s3)" "page_result cfg 32 (slab_bytes cfg) role2 s2 r role3 s3"
    using page_allocate_correct [OF assms(1) s2(2) slab_aligned(1) [OF assms(1)]] by blast
  have eq: "new_slab cfg c s = (case r of Inl e \<Rightarrow> Some (Inl e, s3) | Inr off \<Rightarrow> let (i, s) = init_slab cfg c off s3 in Some (Inr i, s))"
    unfolding new_slab_def s1(1) bind.bind_lunit s2(1) s3(1) fst_conv snd_conv by (rule refl)
  show ?thesis
  proof (cases r)
    case (Inl e)
    then show ?thesis
      using eq s3(2) s1(3,4) s2(3,4) by (auto simp: page_result_def)
  next
    case (Inr off)
    let ?P = "{off..<off + 32}"
    have P: "valid cfg role3 s3" "user_blocks cfg role3 s3 = user_blocks cfg role2 s2" "slab_bytes cfg dvd (base_page cfg + off) * 2 ^ page_shift cfg"
      "?P \<inter> user_pages cfg role2 s2 = {}" "user_pages cfg role3 s3 = user_pages cfg role2 s2 \<union> ?P"
      "?P \<subseteq> held_pages (pub_pages cfg) role3 s3" "?P \<inter> run_pages cfg (remote_page s3) = {}"
      using s3(2) by (simp_all add: page_result_def Inr)
    have V: "sound cfg role3 s3" "distinct (remote_slab s3)" "set (remote_slab s3) \<subseteq> fst ` held_blocks cfg role3 s3"
      "runs_ok cfg (held_pages (pub_pages cfg) role3 s3) (remote_page s3)"
      using P(1) by (simp_all add: valid_def)
    obtain i s4 role4 where s4: "init_slab cfg c off s3 = (i, s4)" "sound cfg role4 s4" "freed cfg {} ?P role3 s3 role4 s4" "slabs s4 c = i" "i \<noteq> NIL"
      using init_slab_sound [OF assms(1) V(1) assms(3) P(6) slab_aligned(2) [OF assms(1) P(3)]] by blast
    have F: "held_blocks cfg role4 s4 = held_blocks cfg role3 s3" "held_pages (pub_pages cfg) role4 s4 = held_pages (pub_pages cfg) role3 s3 - ?P"
      "remote_slab s4 = remote_slab s3" "remote_page s4 = remote_page s3"
      using s4(3) by (simp_all add: freed_def)
    have "runs_ok cfg (held_pages (pub_pages cfg) role4 s4) (remote_page s4)"
      unfolding F(2,4) by (rule runs_ok_diff [OF V(4) P(7)])
    then have "valid cfg role4 s4"
      using s4(2) V(2,3) by (simp add: valid_def F(1,3))
    moreover have "user_blocks cfg role4 s4 = user_blocks cfg role3 s3"
      by (simp add: user_blocks_def F(1,3))
    moreover have "user_pages cfg role4 s4 = user_pages cfg role3 s3 - ?P"
      by (auto simp: user_pages_def F(2,4))
    then have "user_pages cfg role4 s4 = user_pages cfg role2 s2"
      using P(4,5) by blast
    moreover have "new_slab cfg c s = Some (Inr i, s4)"
      unfolding eq Inr by (simp add: s4(1))
    ultimately show ?thesis
      using s4(4,5) P(2) s1(3,4) s2(3,4) by auto
  qed
qed

definition block_result :: "config \<Rightarrow> nat \<Rightarrow> (nat \<Rightarrow> role) \<Rightarrow> space \<Rightarrow> nat res \<Rightarrow> (nat \<Rightarrow> role) \<Rightarrow> space \<Rightarrow> bool" where
  "block_result cfg n role s r role' s' \<longleftrightarrow>
     valid cfg role' s' \<and> user_pages cfg role' s' = user_pages cfg role s \<and>
     (case r of
        Inl e \<Rightarrow> e = MemoryError \<and> user_blocks cfg role' s' = user_blocks cfg role s
      | Inr p \<Rightarrow> (p, n) \<notin> user_blocks cfg role s \<and> user_blocks cfg role' s' = insert (p, n) (user_blocks cfg role s))"

lemma slab_take_valid:
  assumes "config_ok cfg" "valid cfg role s" "slabs s c = i" "i \<noteq> NIL"
  shows "\<exists>p s'. slab_take cfg c i s = (p, s') \<and> block_result cfg (slab_class_size c) role s (Inr p) role s'"
proof -
  let ?n = "slab_class_size c"
  have V: "sound cfg role s" "distinct (remote_slab s)" "set (remote_slab s) \<subseteq> fst ` held_blocks cfg role s"
    "runs_ok cfg (held_pages (pub_pages cfg) role s) (remote_page s)"
    using assms(2) by (simp_all add: valid_def)
  obtain p s' where t: "slab_take cfg c i s = (p, s')" "sound cfg role s'" "(p, ?n) \<notin> held_blocks cfg role s"
    "held_blocks cfg role s' = insert (p, ?n) (held_blocks cfg role s)" "held_pages (pub_pages cfg) role s' = held_pages (pub_pages cfg) role s"
    "remote_slab s' = remote_slab s" "remote_page s' = remote_page s"
    using slab_take_sound [OF assms(1) V(1) assms(3,4)] by blast
  have "p \<notin> set (remote_slab s)"
  proof
    assume "p \<in> set (remote_slab s)"
    then obtain m where m: "(p, m) \<in> held_blocks cfg role s"
      using V(3) by force
    then have "m = ?n"
      using sound_blocks_unique [OF assms(1) t(2), of p m ?n] by (simp add: t(4))
    then show False
      using m t(3) by simp
  qed
  then have "with_slabs (remote_slab s') (held_blocks cfg role s') = with_slabs (remote_slab s) (held_blocks cfg role s)"
    by (auto simp: with_slabs_def t(4,6))
  moreover have "(p, ?n) \<notin> with_slabs (remote_slab s) (held_blocks cfg role s)"
    using t(3) by (simp add: with_slabs_def)
  ultimately have "user_blocks cfg role s' = insert (p, ?n) (user_blocks cfg role s)"
    by (auto simp: user_blocks_def t(4))
  moreover have "(p, ?n) \<notin> user_blocks cfg role s"
    using t(3) by (simp add: user_blocks_def)
  moreover have "valid cfg role s'"
    using V t by (auto simp: valid_def)
  moreover have "user_pages cfg role s' = user_pages cfg role s"
    by (simp add: user_pages_def t(5,7))
  ultimately show ?thesis
    using t(1) by (simp add: block_result_def)
qed

lemma slab_allocate_correct:
  assumes "config_ok cfg" "valid cfg role s" "c < slab_count cfg" "slab_searches_ok cfg c s"
  shows "\<exists>r s' role'. slab_allocate cfg c s = Some (r, s') \<and> block_result cfg (slab_class_size c) role s r role' s'"
proof -
  obtain r s1 role1 where s1: "(if slabs s c = NIL then new_slab cfg c s else Some (Inr (slabs s c), s)) = Some (r, s1)" "valid cfg role1 s1"
    "user_blocks cfg role1 s1 = user_blocks cfg role s" "user_pages cfg role1 s1 = user_pages cfg role s"
    "case r of Inl e \<Rightarrow> e = MemoryError | Inr i \<Rightarrow> slabs s1 c = i \<and> i \<noteq> NIL"
    using new_slab_valid [OF assms] assms(2) by (cases "slabs s c = NIL") auto
  have eq: "slab_allocate cfg c s = (case r of Inl e \<Rightarrow> Some (Inl e, s1) | Inr i \<Rightarrow> let (p, s) = slab_take cfg c i s1 in Some (Inr p, s))"
    unfolding slab_allocate_def s1(1) bind.bind_lunit fst_conv snd_conv by (rule refl)
  show ?thesis
  proof (cases r)
    case (Inl e)
    then show ?thesis
      using eq s1(2-5) by (auto simp: block_result_def)
  next
    case (Inr i)
    then have "slabs s1 c = i" "i \<noteq> NIL"
      using s1(5) by simp_all
    from slab_take_valid [OF assms(1) s1(2) this] obtain p s' where
      t: "slab_take cfg c i s1 = (p, s')" "block_result cfg (slab_class_size c) role1 s1 (Inr p) role1 s'"
      by blast
    have "slab_allocate cfg c s = Some (Inr p, s')"
      unfolding eq Inr by (simp add: t(1))
    moreover have "block_result cfg (slab_class_size c) role s (Inr p) role1 s'"
      using t(2) by (simp add: block_result_def s1(3,4))
    ultimately show ?thesis
      by blast
  qed
qed

end
