(* ===== verification/AllocSpace.thy ===== *)
theory AllocSpace
  imports AllocRequests
begin

text \<open>
  What the address space promises its users: blocks and pages in use never overlap, every request returns and
  changes what is in use exactly as asked, and all of this holds in every state that requests can reach.
\<close>

section \<open>Size classes\<close>

lemma class_search_spec:
  "lo \<le> hi \<Longrightarrow> (\<forall>c < lo. slab_class_size c < bytes) \<Longrightarrow> (\<forall>c. hi \<le> c \<and> c < n \<longrightarrow> bytes \<le> slab_class_size c) \<Longrightarrow>
    lo \<le> class_search bytes lo hi \<and> class_search bytes lo hi \<le> hi \<and> (\<forall>c < class_search bytes lo hi. slab_class_size c < bytes) \<and>
    (\<forall>c. class_search bytes lo hi \<le> c \<and> c < n \<longrightarrow> bytes \<le> slab_class_size c)"
proof (induction bytes lo hi rule: class_search.induct)
  case (1 bytes lo hi)
  show ?case
  proof (cases "lo < hi")
    case True
    define mid where "mid = (hi + lo) div 2"
    have mid: "lo \<le> mid" "mid < hi"
      using True by (simp_all add: mid_def)
    have mono: "slab_class_size c \<le> slab_class_size d" if "c \<le> d" for c d
      using slab_class_mono [of c d] that by (cases "c = d") auto
    show ?thesis
    proof (cases "slab_class_size mid < bytes")
      case low: True
      then have eq: "class_search bytes lo hi = class_search bytes (mid + 1) hi"
        using True by (subst class_search.simps) (simp add: Let_def mid_def [symmetric])
      have "slab_class_size c < bytes" if "c < mid + 1" for c
      proof -
        have "slab_class_size c \<le> slab_class_size mid"
          by (rule mono) (use that in simp)
        then show ?thesis
          using low by simp
      qed
      then have below: "\<forall>c < mid + 1. slab_class_size c < bytes"
        by blast
      have "mid + 1 \<le> hi"
        using mid(2) by simp
      note found = "1.IH"(1) [OF True mid_def low this below "1.prems"(3)]
      then have "lo \<le> class_search bytes (mid + 1) hi"
        using mid(1) by linarith
      then show ?thesis
        unfolding eq using found by blast
    next
      case high: False
      then have eq: "class_search bytes lo hi = class_search bytes lo mid"
        using True by (subst class_search.simps) (simp add: Let_def mid_def [symmetric])
      have "bytes \<le> slab_class_size c" if "mid \<le> c" for c
        using mono [OF that] high by simp
      then have above: "\<forall>c. mid \<le> c \<and> c < n \<longrightarrow> bytes \<le> slab_class_size c"
        by blast
      note found = "1.IH"(2) [OF True mid_def high mid(1) "1.prems"(2) above]
      then have "class_search bytes lo mid \<le> hi"
        using mid(2) by linarith
      then show ?thesis
        unfolding eq using found by blast
    qed
  next
    case False
    then have "lo = hi"
      using "1.prems"(1) by simp
    moreover have "class_search bytes lo hi = lo"
      using False by (subst class_search.simps) simp
    ultimately show ?thesis
      using "1.prems" by simp
  qed
qed

lemma align_search_spec: "lo \<le> align_search n al lo" "align_search n al lo < n \<Longrightarrow> slab_class_size (align_search n al lo) AND al = 0"
proof (induction n al lo rule: align_search.induct)
  case (1 n al lo)
  { case 1
    then show ?case
      using "1.IH"(1) by (subst align_search.simps) auto
  next
    case 2
    then show ?case
      using "1.IH"(2) by (subst (asm) align_search.simps, subst align_search.simps) (auto split: if_splits)
  }
qed

text \<open>The class of a request holds it, and its size is a multiple of the alignment.\<close>

lemma slab_class_spec:
  assumes "slab_class cfg bytes al < slab_count cfg"
  shows "bytes \<le> slab_class_size (slab_class cfg bytes al)" "slab_class_size (slab_class cfg bytes al) AND sub64 al 1 = 0"
proof -
  let ?n = "slab_count cfg"
  have "\<forall>c. class_search bytes 0 ?n \<le> c \<and> c < ?n \<longrightarrow> bytes \<le> slab_class_size c"
    using class_search_spec [of 0 ?n bytes ?n] by simp
  moreover have "class_search bytes 0 ?n \<le> slab_class cfg bytes al"
    unfolding slab_class_def by (rule align_search_spec(1))
  ultimately show "bytes \<le> slab_class_size (slab_class cfg bytes al)"
    using assms by blast
  show "slab_class_size (slab_class cfg bytes al) AND sub64 al 1 = 0"
    unfolding slab_class_def by (rule align_search_spec(2)) (use assms in \<open>simp add: slab_class_def\<close>)
qed

lemma slab_class_dvd: "8 dvd slab_class_size c"
proof (cases c)
  case (Suc d)
  then show ?thesis
    by (simp add: slab_class_Suc next_class_def)
qed (simp add: slab_class_size_def)

lemma block_size_aligned:
  assumes "power_of_two al" "al \<le> 8"
  shows "al dvd 8"
proof -
  obtain k where k: "al = 2 ^ k"
    using assms(1) by (auto simp: power_of_two_def)
  then have "(2 :: nat) ^ k \<le> 2 ^ 3"
    using assms(2) by simp
  then have "k \<le> 3"
    using power_increasing_iff [of "2 :: nat" k 3] by simp
  then have "(2 :: nat) ^ k dvd 2 ^ 3"
    by (rule le_imp_power_dvd)
  then show ?thesis
    by (simp add: k)
qed

text \<open>Every small request has a class.\<close>

lemma slab_class_found:
  assumes "config_ok cfg" "power_of_two al" "al \<le> 8" "bytes \<le> slab_max cfg"
  shows "slab_class cfg bytes al < slab_count cfg"
proof -
  let ?n = "slab_count cfg" and ?r = "class_search bytes 0 (slab_count cfg)"
  have count: "0 < ?n" "slab_max cfg = slab_class_size (?n - 1)"
    using slab_count_spec(2) [of cfg] assms(1) by (simp_all add: config_ok_def)
  have found: "?r \<le> ?n" "\<forall>c < ?r. slab_class_size c < bytes"
    using class_search_spec [of 0 ?n bytes ?n] by simp_all
  have "?r \<noteq> ?n"
  proof
    assume "?r = ?n"
    then have "slab_class_size (?n - 1) < bytes"
      using found(2) count(1) by simp
    then show False
      using assms(4) count(2) by simp
  qed
  then have r: "?r < ?n"
    using found(1) by simp
  have "slab_class_size ?r mod al = 0"
    using slab_class_dvd [of ?r] block_size_aligned [OF assms(2,3)] by (meson dvd_trans mod_eq_0_iff_dvd)
  then have "slab_class_size ?r AND sub64 al 1 = 0"
    using and_low [OF assms(2)] by simp
  then have "align_search ?n (sub64 al 1) ?r = ?r"
    by (subst align_search.simps) simp
  then show ?thesis
    using r by (simp add: slab_class_def)
qed

lemma slab_data_dvd:
  assumes "config_ok cfg"
  shows "8 dvd slab_data cfg i b s"
proof -
  have "(2 :: nat) ^ 3 dvd 2 ^ page_shift cfg"
    using assms by (intro le_imp_power_dvd) (simp add: config_ok_def)
  then have "8 dvd offset (nodes s i) * 2 ^ page_shift cfg"
    by (intro dvd_mult) simp
  then show ?thesis
    unfolding slab_data_def by (rule dvd_add) (rule dvd_mult [OF slab_class_dvd])
qed

section \<open>The tag\<close>

lemma even_tag:
  assumes "8 dvd p" "p < 2 ^ 64"
  shows "is_slab (set_slab p)" "clear_slab (set_slab p) = p" "\<not> is_slab p" "clear_slab p = p"
proof -
  have even: "even p"
    using assms(1) by (meson dvd_trans even_numeral dvd_def) 
  have p1: "set_slab p = p + 1"
    using even by (simp add: set_slab_def or_one_eq [where 'a = nat, unfolded One_nat_def])
  have "(p + 1) mod 2 = 1" "p mod 2 = 0"
    using even by presburger+
  then show "is_slab (set_slab p)" "\<not> is_slab p"
    by (simp_all add: is_slab_def p1 and_one_eq)
  have clear: "clear_slab q = q - q mod 2" if "q < 2 ^ 64" for q
    using mask_down_eq [of 1 q] that by (simp add: clear_slab_def mask_down_def)
  show "clear_slab p = p"
    using clear [OF assms(2)] even by simp
  have "p + 1 < 2 ^ 64"
    using assms by (elim dvdE) auto
  then show "clear_slab (set_slab p) = p"
    using clear [of "p + 1"] even by (simp add: p1) presburger
qed

section \<open>Blocks and pages in use do not overlap\<close>

definition bytes_of :: "nat \<times> nat \<Rightarrow> nat set" where
  "bytes_of x = {fst x..<fst x + snd x}"

definition page_bytes :: "config \<Rightarrow> nat \<Rightarrow> nat set" where
  "page_bytes cfg k = {k * 2 ^ page_shift cfg..<(k + 1) * 2 ^ page_shift cfg}"

lemma held_apart:
  assumes "config_ok cfg" "sound cfg role s"
  shows "x \<in> held_blocks cfg role s \<Longrightarrow> y \<in> held_blocks cfg role s \<Longrightarrow> x \<noteq> y \<Longrightarrow> bytes_of x \<inter> bytes_of y = {}"
    "x \<in> held_blocks cfg role s \<Longrightarrow> k \<in> held_pages (pub_pages cfg) role s \<Longrightarrow> bytes_of x \<inter> page_bytes cfg k = {}"
    "x \<in> held_blocks cfg role s \<Longrightarrow> fst x + snd x \<le> pub_pages cfg * 2 ^ page_shift cfg"
proof -
  let ?p = "2 ^ page_shift cfg :: nat"
  have S: "store (pub_pages cfg) role (batch_list s) s" "\<And>j. role j = Slabbed \<Longrightarrow> slab_ok cfg role j s"
    using assms(2) by (simp_all add: sound_def slabs_ok_def)
  note tiled = storeD(3) [OF S(1)]
  have parts: "\<exists>i b. role i = Slabbed \<and> b < slab_blocks cfg (npages (nodes s i)) \<and> fst x = slab_data cfg i b s \<and> snd x = slab_class_size (npages (nodes s i))"
    if x: "x \<in> held_blocks cfg role s" for x
  proof -
    obtain i b where "x = (slab_data cfg i b s, slab_class_size (npages (nodes s i)))" "role i = Slabbed" "b < slab_blocks cfg (npages (nodes s i))"
      using x by (auto simp: held_blocks_def)
    then show ?thesis
      by (intro exI [of _ i] exI [of _ b]) simp
  qed
  have inside: "offset (nodes s i) * ?p \<le> slab_data cfg i b s" "slab_data cfg i b s + slab_class_size (npages (nodes s i)) \<le> (offset (nodes s i) + 32) * ?p"
    if "role i = Slabbed" "b < slab_blocks cfg (npages (nodes s i))" for i b
    using slab_lookup(4,5) [OF assms(1) S(1) that(1) S(2) [OF that(1)] that(2)] by simp_all
  show "bytes_of x \<inter> bytes_of y = {}" if x: "x \<in> held_blocks cfg role s" and y: "y \<in> held_blocks cfg role s" and ne: "x \<noteq> y"
  proof -
    obtain i b where i: "role i = Slabbed" "b < slab_blocks cfg (npages (nodes s i))" "fst x = slab_data cfg i b s" "snd x = slab_class_size (npages (nodes s i))"
      using parts [OF x] by blast
    obtain j c where j: "role j = Slabbed" "c < slab_blocks cfg (npages (nodes s j))" "fst y = slab_data cfg j c s" "snd y = slab_class_size (npages (nodes s j))"
      using parts [OF y] by blast
    show ?thesis
    proof (cases "i = j")
      case True
      then have "b \<noteq> c"
        using ne i(3,4) j(3,4) by (auto simp: prod_eq_iff)
      then have "b * slab_class_size (npages (nodes s i)) + slab_class_size (npages (nodes s i)) \<le> c * slab_class_size (npages (nodes s i)) \<or>
          c * slab_class_size (npages (nodes s i)) + slab_class_size (npages (nodes s i)) \<le> b * slab_class_size (npages (nodes s i))"
        using mult_le_mono1 [of "Suc b" c "slab_class_size (npages (nodes s i))"] mult_le_mono1 [of "Suc c" b "slab_class_size (npages (nodes s i))"]
        by (cases "b < c") simp_all
      then have "fst x + snd x \<le> fst y \<or> fst y + snd y \<le> fst x"
        unfolding i(3,4) j(3,4) True [symmetric] slab_data_def by linarith
      then show ?thesis
        by (auto simp: bytes_of_def)
    next
      case False
      then have "apart (offset (nodes s i)) 32 (offset (nodes s j)) 32"
        using tiled_apart [OF tiled live_roles(4) [of role i, OF i(1)] live_roles(4) [of role j, OF j(1)]] i(1) j(1) by (simp add: extent_def)
      then have "(offset (nodes s i) + 32) * ?p \<le> offset (nodes s j) * ?p \<or> (offset (nodes s j) + 32) * ?p \<le> offset (nodes s i) * ?p"
        unfolding apart_def by (meson mult_le_mono1)
      then have "fst x + snd x \<le> fst y \<or> fst y + snd y \<le> fst x"
        using inside [OF i(1,2)] inside [OF j(1,2)] unfolding i(3,4) j(3,4) by linarith
      then show ?thesis
        by (auto simp: bytes_of_def)
    qed
  qed
  show "bytes_of x \<inter> page_bytes cfg k = {}" if x: "x \<in> held_blocks cfg role s" and k: "k \<in> held_pages (pub_pages cfg) role s"
  proof -
    obtain i b where i: "role i = Slabbed" "b < slab_blocks cfg (npages (nodes s i))" "fst x = slab_data cfg i b s" "snd x = slab_class_size (npages (nodes s i))"
      using parts [OF x] by blast
    have "k \<notin> region role (nodes s) i"
      using k i(1) by (auto simp: held_pages_def covered_def)
    then have "k + 1 \<le> offset (nodes s i) \<or> offset (nodes s i) + 32 \<le> k"
      using i(1) by (auto simp: region_def extent_def)
    then have "(k + 1) * ?p \<le> offset (nodes s i) * ?p \<or> (offset (nodes s i) + 32) * ?p \<le> k * ?p"
      by (meson mult_le_mono1)
    then have "(k + 1) * ?p \<le> fst x \<or> fst x + snd x \<le> k * ?p"
      using inside [OF i(1,2)] unfolding i(3,4) by linarith
    then show ?thesis
      by (auto simp: bytes_of_def page_bytes_def)
  qed
  show "fst x + snd x \<le> pub_pages cfg * ?p" if x: "x \<in> held_blocks cfg role s"
  proof -
    obtain i b where i: "role i = Slabbed" "b < slab_blocks cfg (npages (nodes s i))" "fst x = slab_data cfg i b s" "snd x = slab_class_size (npages (nodes s i))"
      using parts [OF x] by blast
    have "offset (nodes s i) + 32 \<le> pub_pages cfg"
      using tiled_bound [OF tiled live_roles(4) [of role i, OF i(1)]] i(1) by (simp add: extent_def)
    then have "(offset (nodes s i) + 32) * ?p \<le> pub_pages cfg * ?p"
      by (rule mult_le_mono1)
    then show ?thesis
      using inside(2) [OF i(1,2)] unfolding i(3,4) by linarith
  qed
qed

section \<open>The contract\<close>

text \<open>The address space holds blocks \<open>B\<close>, by address and size, and pages \<open>P\<close> for its users.\<close>

definition holds :: "config \<Rightarrow> space \<Rightarrow> (nat \<times> nat) set \<Rightarrow> nat set \<Rightarrow> bool" where
  "holds cfg s B P \<longleftrightarrow> (\<exists>role. valid cfg role s \<and> user_blocks cfg role s = B \<and> user_pages cfg role s = P)"

lemma holdsI: "valid cfg role s \<Longrightarrow> user_blocks cfg role s = B \<Longrightarrow> user_pages cfg role s = P \<Longrightarrow> holds cfg s B P"
  by (auto simp: holds_def)

lemma holds_apart:
  assumes "config_ok cfg" "holds cfg s B P"
  shows "x \<in> B \<Longrightarrow> y \<in> B \<Longrightarrow> x \<noteq> y \<Longrightarrow> bytes_of x \<inter> bytes_of y = {}" "x \<in> B \<Longrightarrow> k \<in> P \<Longrightarrow> bytes_of x \<inter> page_bytes cfg k = {}"
    "x \<in> B \<Longrightarrow> fst x + snd x \<le> pub_pages cfg * 2 ^ page_shift cfg" "P \<subseteq> {..<pub_pages cfg}" "x \<in> B \<Longrightarrow> 8 dvd fst x \<and> 8 \<le> snd x"
proof -
  obtain role where r: "valid cfg role s" "user_blocks cfg role s = B" "user_pages cfg role s = P"
    using assms(2) by (auto simp: holds_def)
  have sound: "sound cfg role s" and ok: "config_ok cfg"
    using r(1) assms(1) by (simp_all add: valid_def)
  have sub: "B \<subseteq> held_blocks cfg role s" "P \<subseteq> held_pages (pub_pages cfg) role s"
    using r(2,3) by (auto simp: user_blocks_def user_pages_def)
  note apart = held_apart [OF ok sound]
  show "x \<in> B \<Longrightarrow> y \<in> B \<Longrightarrow> x \<noteq> y \<Longrightarrow> bytes_of x \<inter> bytes_of y = {}"
    using apart(1) sub(1) by blast
  show "x \<in> B \<Longrightarrow> k \<in> P \<Longrightarrow> bytes_of x \<inter> page_bytes cfg k = {}"
    using apart(2) sub by blast
  show "x \<in> B \<Longrightarrow> fst x + snd x \<le> pub_pages cfg * 2 ^ page_shift cfg"
    using apart(3) sub(1) by blast
  show "P \<subseteq> {..<pub_pages cfg}"
    using sub(2) by (auto simp: held_pages_def)
  show "x \<in> B \<Longrightarrow> 8 dvd fst x \<and> 8 \<le> snd x"
    using sub(1) slab_data_dvd [OF ok] slab_class_pos by (fastforce simp: held_blocks_def)
qed

lemma init_holds:
  assumes "config_ok cfg"
  shows "holds cfg (init_space cfg) {} {}"
proof -
  have ok: "0 < pub_pages cfg" "pub_pages cfg < NIL" "0 < coalesce_buffer cfg"
    using assms by (simp_all add: config_ok_def)
  note store = init_store [OF ok(1,2)]
  have none: "init_role i \<noteq> Slabbed" for i
    by (simp add: init_role_def)
  then have slabs: "slabs_ok cfg init_role (init_space cfg)" "held_blocks cfg init_role (init_space cfg) = {}"
    by (simp_all add: slabs_ok_def heads_ok_def held_blocks_def init_space_eq empty_space_def)
  have "covered {InTree, Batched, InHand, Slabbed} init_role (nodes (init_space cfg)) = {..<pub_pages cfg}"
    by (auto simp: covered_def region_def extent_def init_role_def init_space_eq split: if_splits)
  then have pages: "held_pages (pub_pages cfg) init_role (init_space cfg) = {}"
    by (simp add: held_pages_def)
  have fields: "batch_list (init_space cfg) = []" "batch_pages (init_space cfg) = 0" "occupied (init_space cfg) = 0"
    "remote_slab (init_space cfg) = []" "remote_page (init_space cfg) = []"
    by (simp_all add: init_space_eq empty_space_def)
  have "sound cfg init_role (init_space cfg)"
    using store slabs pages ok(3) by (simp add: sound_def fields accounted_def)
  then have "valid cfg init_role (init_space cfg)"
    by (simp add: valid_def fields)
  then show ?thesis
    by (rule holdsI) (simp_all add: user_blocks_def user_pages_def slabs pages with_slabs_def)
qed

section \<open>Requests meet the contract\<close>

definition request_ok :: "config \<Rightarrow> nat \<Rightarrow> nat \<Rightarrow> bool" where
  "request_ok cfg bytes alignment \<longleftrightarrow> power_of_two alignment \<and> 0 < bytes \<and> pages_of cfg bytes < 2 ^ 32"

definition run_at :: "config \<Rightarrow> nat \<Rightarrow> nat \<Rightarrow> nat set" where
  "run_at cfg p n = {p div 2 ^ page_shift cfg..<p div 2 ^ page_shift cfg + n div 2 ^ page_shift cfg}"

lemma pages_of_spec:
  "0 < bytes \<Longrightarrow> 0 < pages_of cfg bytes" "bytes \<le> pages_of cfg bytes * 2 ^ page_shift cfg"
proof -
  define q where "q = (2 :: nat) ^ page_shift cfg"
  have q: "0 < q"
    by (simp add: q_def)
  have eq: "bytes = bytes div q * q + bytes mod q" "bytes mod q < q"
    using q by simp_all
  have pages: "pages_of cfg bytes = bytes div q + (if bytes mod q \<noteq> 0 then 1 else 0)"
    by (simp add: pages_of_def q_def)
  show "0 < bytes \<Longrightarrow> 0 < pages_of cfg bytes"
    using eq(1) unfolding pages by (cases "bytes mod q = 0") auto
  show "bytes \<le> pages_of cfg bytes * 2 ^ page_shift cfg"
  proof (cases "bytes mod q = 0")
    case True
    then show ?thesis
      unfolding pages q_def [symmetric] using eq(1) by simp
  next
    case False
    have "bytes \<le> bytes div q * q + q"
      using eq by linarith
    then show ?thesis
      unfolding pages q_def [symmetric] using False by (simp add: distrib_right)
  qed
qed

lemma allocate_correct:
  assumes "config_ok cfg" "holds cfg s B P" "request_ok cfg bytes al" "searches_ok cfg bytes al s"
  shows "\<exists>r s'. allocate cfg bytes al s = Some (r, s') \<and>
    (case r of
       Inl e \<Rightarrow> e = MemoryError \<and> holds cfg s' B P
     | Inr (p, n) \<Rightarrow> bytes \<le> n \<and> al dvd base_page cfg * 2 ^ page_shift cfg + clear_slab p \<and>
         (if is_slab p then (clear_slab p, n) \<notin> B \<and> holds cfg s' (insert (clear_slab p, n) B) P
          else clear_slab p = p \<and> 2 ^ page_shift cfg dvd p \<and> 2 ^ page_shift cfg dvd n \<and> run_at cfg p n \<inter> P = {} \<and> holds cfg s' B (P \<union> run_at cfg p n)))"
proof -
  let ?p = "2 ^ page_shift cfg :: nat"
  note ok = assms(1)
  have req: "power_of_two al" "0 < bytes" "pages_of cfg bytes < 2 ^ 32"
    using assms(3) by (simp_all add: request_ok_def)
  obtain role where r: "valid cfg role s" "user_blocks cfg role s = B" "user_pages cfg role s = P"
    using assms(2) by (auto simp: holds_def)
  have page8: "8 dvd ?p"
  proof -
    have "(2 :: nat) ^ 3 dvd ?p"
      using ok by (intro le_imp_power_dvd) (simp add: config_ok_def)
    then show ?thesis by simp
  qed
  have top: "pub_pages cfg * ?p < 2 ^ 64"
  proof -
    have "pub_pages cfg * ?p \<le> (base_page cfg + pub_pages cfg) * ?p"
      by (rule mult_le_mono1) simp
    moreover have "(base_page cfg + pub_pages cfg) * ?p < 2 ^ 64"
      using ok by (simp add: config_ok_def)
    ultimately show ?thesis
      by (rule le_less_trans)
  qed
  show ?thesis
  proof (cases "bytes \<le> slab_max cfg \<and> al \<le> 8 \<and> slab_class cfg bytes al < slab_count cfg")
    case True
    define c where "c = slab_class cfg bytes al"
    have c: "c < slab_count cfg" "al \<le> 8" "bytes \<le> slab_class_size c"
      using True slab_class_spec(1) [of cfg bytes al] by (simp_all add: c_def)
    obtain t s' role' where t: "slab_allocate cfg c s = Some (t, s')" "block_result cfg (slab_class_size c) role s t role' s'"
      using slab_allocate_correct [OF ok r(1) c(1)] assms(4) True by (auto simp: searches_ok_def c_def)
    have eq: "allocate cfg bytes al s = Some (map_sum id (\<lambda>p. (set_slab p, slab_class_size c)) t, s')"
      unfolding allocate_def if_P [OF True [folded c_def]] Let_def c_def [symmetric] t(1) by simp
    show ?thesis
    proof (cases t)
      case (Inl e)
      have "e = MemoryError" "holds cfg s' B P"
        using t(2) r(2,3) by (auto simp: block_result_def Inl intro: holdsI)
      then show ?thesis
        using eq Inl by auto
    next
      case (Inr q)
      have v: "valid cfg role' s'" "user_pages cfg role' s' = P" "(q, slab_class_size c) \<notin> B" "user_blocks cfg role' s' = insert (q, slab_class_size c) B"
        using t(2) r(2,3) by (simp_all add: block_result_def Inr)
      have holds: "holds cfg s' (insert (q, slab_class_size c) B) P"
        by (rule holdsI [OF v(1,4,2)])
      have "8 dvd q \<and> 8 \<le> slab_class_size c" "q + slab_class_size c \<le> pub_pages cfg * ?p"
        using holds_apart(3,5) [OF assms(1) holds, of "(q, slab_class_size c)"] by simp_all
      then have q: "8 dvd q" "q < 2 ^ 64"
        using top by linarith+
      note tag = even_tag [OF q]
      have "al dvd base_page cfg * ?p + q"
        using block_size_aligned [OF req(1) c(2)] q(1) page8 by (meson dvd_add dvd_mult dvd_trans)
      then show ?thesis
        using eq Inr tag(1,2) holds v(3) c(3) by simp
    qed
  next
    case False
    define n where "n = pages_of cfg bytes"
    have n: "n mod 2 ^ 32 = n" "0 < n" "bytes \<le> n * ?p"
      using req pages_of_spec by (simp_all add: n_def)
    obtain t s' role' where t: "page_allocate cfg n al s = Some (t, s')" "page_result cfg n al role s t role' s'"
      using page_allocate_correct [OF ok r(1) req(1) n(2)] assms(4) False n(1) by (auto simp: searches_ok_def n_def)
    have eq: "allocate cfg bytes al s = Some (map_sum id (\<lambda>off. (off * ?p, n * ?p)) t, s')"
      unfolding allocate_def if_not_P [OF False] Let_def n_def [symmetric] n(1) t(1) by simp
    show ?thesis
    proof (cases t)
      case (Inl e)
      have "e = MemoryError" "holds cfg s' B P"
        using t(2) r(2,3) by (auto simp: page_result_def Inl intro: holdsI)
      then show ?thesis
        using eq Inl by auto
    next
      case (Inr off)
      have v: "valid cfg role' s'" "user_blocks cfg role' s' = B" "al dvd (base_page cfg + off) * ?p" "{off..<off + n} \<subseteq> {..<pub_pages cfg}"
        "{off..<off + n} \<inter> P = {}" "user_pages cfg role' s' = P \<union> {off..<off + n}"
        using t(2) r(2,3) by (simp_all add: page_result_def Inr)
      have run: "run_at cfg (off * ?p) (n * ?p) = {off..<off + n}"
        by (simp add: run_at_def)
      have "off < pub_pages cfg"
        using v(4) n(2) by (auto simp: subset_iff)
      then have "off * ?p < 2 ^ 64"
        using top mult_le_mono1 [of off "pub_pages cfg" ?p] by linarith
      moreover have "8 dvd off * ?p"
        using page8 by simp
      ultimately have tag: "\<not> is_slab (off * ?p)" "clear_slab (off * ?p) = off * ?p"
        using even_tag(3,4) by blast+
      have "al dvd base_page cfg * ?p + off * ?p"
        using v(3) by (simp add: distrib_right)
      moreover have "holds cfg s' B (P \<union> {off..<off + n})"
        by (rule holdsI [OF v(1,2,6)])
      ultimately show ?thesis
        using eq Inr tag run v(5) n(3) by simp
    qed
  qed
qed

lemma page_address:
  assumes "config_ok cfg" "off < pub_pages cfg \<or> off = pub_pages cfg"
  shows "off * 2 ^ page_shift cfg < 2 ^ 64" "8 dvd off * 2 ^ page_shift cfg" "off mod 2 ^ 32 = off"
    "off * 2 ^ page_shift cfg div 2 ^ page_shift cfg = off"
proof -
  let ?p = "2 ^ page_shift cfg :: nat"
  have "off * ?p \<le> (base_page cfg + pub_pages cfg) * ?p"
    using assms(2) by (intro mult_le_mono1) auto
  moreover have "(base_page cfg + pub_pages cfg) * ?p < 2 ^ 64"
    using assms(1) by (simp add: config_ok_def)
  ultimately show "off * ?p < 2 ^ 64"
    by (rule le_less_trans)
  have "(2 :: nat) ^ 3 dvd ?p"
    using assms(1) by (intro le_imp_power_dvd) (simp add: config_ok_def)
  then show "8 dvd off * ?p"
    by (intro dvd_mult) simp
  have "pub_pages cfg < 2 ^ 32"
    using assms(1) NIL_less by (simp add: config_ok_def)
  then show "off mod 2 ^ 32 = off"
    using assms(2) by auto
  show "off * ?p div ?p = off"
    by simp
qed

text \<open>A local release ends with the batch below its threshold.\<close>

lemma release_finish:
  assumes "config_ok cfg" "pre_sound cfg role s" "length (batch_list s) \<le> coalesce_buffer cfg" "remote_slab s = []" "remote_page s = []"
    "held_blocks cfg role s = B" "held_pages (pub_pages cfg) role s = P"
  shows "\<exists>s'. (if coalesce_buffer cfg \<le> batch_pages s then coalesce cfg s else Some s) = Some s' \<and> holds cfg s' B P"
proof -
  have "0 < coalesce_buffer cfg"
    using assms(1) by (simp add: config_ok_def)
  then obtain s' role' where s': "(if coalesce_buffer cfg \<le> batch_pages s then coalesce cfg s else Some s) = Some s'" "sound cfg role' s'"
    "same_user cfg role s role' s'"
    using threshold_sound [OF assms(2,3)] by blast
  have fields: "held_blocks cfg role' s' = B" "held_pages (pub_pages cfg) role' s' = P" "remote_slab s' = []" "remote_page s' = []"
    using s'(3) assms(4-7) by (simp_all add: same_user_def)
  have "holds cfg s' B P"
    using s'(2) fields by (intro holdsI [of cfg role']) (simp_all add: valid_def user_blocks_def user_pages_def with_slabs_def)
  then show ?thesis
    using s'(1) by blast
qed

lemma drained:
  assumes "config_ok cfg" "holds cfg s B P"
  shows "\<exists>s' role. drain_remote cfg s = Some s' \<and> sound cfg role s' \<and> remote_slab s' = [] \<and> remote_page s' = [] \<and>
    held_blocks cfg role s' = B \<and> held_pages (pub_pages cfg) role s' = P"
proof -
  obtain role where r: "valid cfg role s" "user_blocks cfg role s = B" "user_pages cfg role s = P"
    using assms(2) by (auto simp: holds_def)
  obtain s' role' where s': "drain_remote cfg s = Some s'" "valid cfg role' s'" "remote_slab s' = []" "remote_page s' = []"
    "user_blocks cfg role' s' = B" "user_pages cfg role' s' = P"
    using drain_remote_valid [OF assms(1) r(1)] r(2,3) by blast
  have "held_blocks cfg role' s' = B" "held_pages (pub_pages cfg) role' s' = P"
    using s'(3-6) by (simp_all add: user_blocks_def user_pages_def with_slabs_def)
  then show ?thesis
    using s'(1-4) by (auto simp: valid_def)
qed

lemma map_option_bind_pair: "Option.bind x (\<lambda>s. Some (a, s)) = map_option (Pair a) x"
  by (cases x) simp_all

lemma held_size:
  assumes "config_ok cfg" "sound cfg role s" "(q, n) \<in> held_blocks cfg role s"
  shows "slab_class_size (npages (nodes s (slab_at cfg q s))) = n"
proof -
  obtain i b where b: "role i = Slabbed" "b < slab_blocks cfg (npages (nodes s i))" "q = slab_data cfg i b s" "n = slab_class_size (npages (nodes s i))"
    using assms(3) by (auto simp: held_blocks_def)
  have S: "store (pub_pages cfg) role (batch_list s) s" "slab_ok cfg role i s"
    using assms(2) b(1) by (simp_all add: sound_def slabs_ok_def)
  show ?thesis
    using slab_lookup(1) [OF assms(1) S(1) b(1) S(2) b(2)] b(3,4) by simp
qed

lemma deallocate_block:
  assumes "config_ok cfg" "holds cfg s B P" "(q, n) \<in> B"
  shows "\<exists>s'. deallocate cfg (set_slab q) bytes s = Some (n, s') \<and> holds cfg s' (B - {(q, n)}) P"
proof -
  note ok = assms(1)
  obtain s1 role where s1: "drain_remote cfg s = Some s1" "sound cfg role s1" "remote_slab s1 = []" "remote_page s1 = []"
    "held_blocks cfg role s1 = B" "held_pages (pub_pages cfg) role s1 = P"
    using drained [OF ok assms(2)] by blast
  have "q + n \<le> pub_pages cfg * 2 ^ page_shift cfg" "8 dvd q" "8 \<le> n"
    using holds_apart(3,5) [OF assms(1,2,3)] by simp_all
  then have "8 dvd q" "q < 2 ^ 64"
    using page_address(1) [OF ok, of "pub_pages cfg"] by simp_all
  note tag = even_tag(1,2) [OF this]
  obtain s2 role2 where s2: "slab_deallocate cfg q s1 = Some s2" "pre_sound cfg role2 s2" "length (batch_list s2) \<le> coalesce_buffer cfg"
    "freed cfg {(q, n)} {} role s1 role2 s2"
    using slab_deallocate_sound [OF ok s1(2), of q n] assms(3) s1(5) by blast
  have f: "held_blocks cfg role2 s2 = B - {(q, n)}" "held_pages (pub_pages cfg) role2 s2 = P" "remote_slab s2 = []" "remote_page s2 = []"
    using s2(4) s1(3-6) by (simp_all add: freed_def)
  have size: "slab_class_size (npages (nodes s1 (slab_at cfg q s1))) = n"
    using held_size [OF ok s1(2)] assms(3) s1(5) by simp
  have "deallocate cfg (set_slab q) bytes s = map_option (Pair n) (if coalesce_buffer cfg \<le> batch_pages s2 then coalesce cfg s2 else Some s2)"
    unfolding deallocate_def s1(1) bind.bind_lunit if_P [OF tag(1)] tag(2) s2(1) size by (simp add: map_option_bind_pair)
  then show ?thesis
    using release_finish [OF ok s2(2,3) f(3,4,1,2)] by auto
qed

lemma deallocate_pages:
  assumes "config_ok cfg" "holds cfg s B P" "0 < bytes" "{off..<off + pages_of cfg bytes} \<subseteq> P"
  shows "\<exists>s'. deallocate cfg (off * 2 ^ page_shift cfg) bytes s = Some (pages_of cfg bytes * 2 ^ page_shift cfg, s') \<and>
    holds cfg s' B (P - {off..<off + pages_of cfg bytes})"
proof -
  let ?n = "pages_of cfg bytes"
  note ok = assms(1)
  obtain s1 role where s1: "drain_remote cfg s = Some s1" "sound cfg role s1" "remote_slab s1 = []" "remote_page s1 = []"
    "held_blocks cfg role s1 = B" "held_pages (pub_pages cfg) role s1 = P"
    using drained [OF ok assms(2)] by blast
  have n: "0 < ?n"
    by (rule pages_of_spec(1) [OF assms(3)])
  have "P \<subseteq> {..<pub_pages cfg}"
    by (rule holds_apart(4) [OF assms(1,2)])
  then have sub: "{off..<off + ?n} \<subseteq> {..<pub_pages cfg}"
    using assms(4) by blast
  then have off: "off < pub_pages cfg"
    using n by (auto simp: subset_iff)
  have "off + ?n - 1 \<in> {off..<off + ?n}"
    using n by simp
  then have stop: "off + ?n - 1 < pub_pages cfg"
    using sub by blast
  moreover have "pub_pages cfg < 2 ^ 32"
    using ok NIL_less by (simp add: config_ok_def)
  ultimately have small: "?n mod 2 ^ 32 = ?n"
    by simp
  note addr = page_address [OF ok disjI1 [OF off]]
  note tag = even_tag(3,4) [OF addr(2,1)]
  obtain s2 role2 where s2: "page_deallocate cfg off ?n s1 = Some s2" "pre_sound cfg role2 s2" "length (batch_list s2) \<le> coalesce_buffer cfg"
    "held_blocks cfg role2 s2 = held_blocks cfg role s1" "held_pages (pub_pages cfg) role2 s2 = held_pages (pub_pages cfg) role s1 - {off..<off + ?n}"
    "remote_slab s2 = remote_slab s1" "remote_page s2 = remote_page s1"
    using page_deallocate_sound [OF s1(2) n, of off] assms(4) s1(6) by blast
  have "(off + ?n) * 2 ^ page_shift cfg < 2 ^ 64"
    using page_address(1) [OF ok, of "off + ?n"] stop n by fastforce
  then have "?n * 2 ^ page_shift cfg < 2 ^ 64"
    using le_less_trans [OF mult_le_mono1 [OF le_add2]] by blast
  then have size: "?n * 2 ^ page_shift cfg mod 2 ^ 64 = ?n * 2 ^ page_shift cfg"
    by (rule mod_less)
  have "deallocate cfg (off * 2 ^ page_shift cfg) bytes s =
      map_option (Pair (?n * 2 ^ page_shift cfg)) (if coalesce_buffer cfg \<le> batch_pages s2 then coalesce cfg s2 else Some s2)"
    unfolding deallocate_def s1(1) bind.bind_lunit if_not_P [OF tag(1)] tag(2) addr(3,4) small size s2(1) by (simp add: map_option_bind_pair)
  then show ?thesis
    using release_finish [OF ok s2(2,3)] s1(3-6) s2(4-7) by auto
qed

text \<open>Growing in place: all of the pages or none.\<close>

lemma extend_valid:
  assumes "config_ok cfg" "valid cfg role s" "0 < n"
  shows "\<exists>ext role' s'. page_extend cfg off n s = Some (ext, s') \<and> valid cfg role' s' \<and> user_blocks cfg role' s' = user_blocks cfg role s \<and>
    (if ext then {off..<off + n} \<subseteq> {..<pub_pages cfg} \<and> {off..<off + n} \<inter> user_pages cfg role s = {} \<and>
       user_pages cfg role' s' = user_pages cfg role s \<union> {off..<off + n}
     else s' = s \<and> user_pages cfg role' s' = user_pages cfg role s)"
proof -
  have V: "sound cfg role s"
    using assms(2) by (simp add: valid_def)
  then have store: "store (pub_pages cfg) role (batch_list s) s"
    by (simp add: sound_def)
  obtain ext role' s' where e: "page_extend cfg off n s = Some (ext, s')"
    "if ext then store (pub_pages cfg) role' (batch_list s') s' \<and> gives {off..<off + n} role s role' s' \<and>
       occupied s' = add64 (occupied s) (n * 2 ^ page_shift cfg)
     else s' = s \<and> (\<forall>i. role i = InTree \<longrightarrow> offset (nodes s i) = off \<longrightarrow> npages (nodes s i) < n)"
    using page_extend_correct [OF store assms(3)] by blast
  show ?thesis
  proof (cases ext)
    case True
    then have t: "sound cfg role' s'" "took cfg {off..<off + n} role s role' s'"
      using gives_sound [OF V, of role' s' "{off..<off + n}"] e(2) by simp_all
    note v = took_valid [OF assms(2) t]
    have "{off..<off + n} \<subseteq> {..<pub_pages cfg}"
      using t(2) unfolding took_def by blast
    then show ?thesis
      using v e(1) True by (intro exI [of _ ext] exI [of _ role'] exI [of _ s']) simp
  next
    case False
    then show ?thesis
      using e assms(2) by (intro exI [of _ ext] exI [of _ role] exI [of _ s]) simp
  qed
qed

lemma page_reserve_empty:
  assumes "config_ok cfg" "valid cfg role s" "0 < n" "batch_list s = []" "remote_slab s = []" "remote_page s = []"
  shows "\<exists>k role' s'. page_reserve cfg off n s = Some (k, s') \<and> valid cfg role' s' \<and> user_blocks cfg role' s' = user_blocks cfg role s \<and>
    (if k = 0 then user_pages cfg role' s' = user_pages cfg role s
     else k = n * 2 ^ page_shift cfg \<and> {off..<off + n} \<subseteq> {..<pub_pages cfg} \<and> {off..<off + n} \<inter> user_pages cfg role s = {} \<and>
       user_pages cfg role' s' = user_pages cfg role s \<union> {off..<off + n})"
proof -
  obtain ext role' s' where e: "page_extend cfg off n s = Some (ext, s')" "valid cfg role' s'" "user_blocks cfg role' s' = user_blocks cfg role s"
    "if ext then {off..<off + n} \<subseteq> {..<pub_pages cfg} \<and> {off..<off + n} \<inter> user_pages cfg role s = {} \<and>
       user_pages cfg role' s' = user_pages cfg role s \<union> {off..<off + n}
     else s' = s \<and> user_pages cfg role' s' = user_pages cfg role s"
    using extend_valid [OF assms(1-3)] by blast
  show ?thesis
  proof (cases ext)
    case True
    then have "page_reserve cfg off n s = Some (n * 2 ^ page_shift cfg, s')"
      by (subst page_reserve.simps) (simp add: e(1))
    moreover have "n * 2 ^ page_shift cfg \<noteq> 0"
      using assms(3) by simp
    ultimately show ?thesis
      using e(2-4) True by (intro exI [of _ "n * 2 ^ page_shift cfg"] exI [of _ role'] exI [of _ s']) simp
  next
    case False
    then have s': "s' = s"
      using e(4) by simp
    have "s\<lparr>remote_slab := []\<rparr> = s" "s\<lparr>remote_page := []\<rparr> = s"
      using assms(5,6) by simp_all
    then have "drain_remote cfg s = Some s"
      by (simp add: drain_remote_def assms(5,6))
    then have "page_reserve cfg off n s = Some (0, s)"
      using False s' by (subst page_reserve.simps) (simp add: e(1) assms(4))
    then show ?thesis
      using assms(2) by (intro exI [of _ 0] exI [of _ role] exI [of _ s]) simp
  qed
qed

lemma page_reserve_correct:
  assumes "config_ok cfg" "valid cfg role s" "0 < n"
  shows "\<exists>k role' s'. page_reserve cfg off n s = Some (k, s') \<and> valid cfg role' s' \<and> user_blocks cfg role' s' = user_blocks cfg role s \<and>
    (if k = 0 then user_pages cfg role' s' = user_pages cfg role s
     else k = n * 2 ^ page_shift cfg \<and> {off..<off + n} \<subseteq> {..<pub_pages cfg} \<and> {off..<off + n} \<inter> user_pages cfg role s = {} \<and>
       user_pages cfg role' s' = user_pages cfg role s \<union> {off..<off + n})"
proof -
  obtain ext role' s' where e: "page_extend cfg off n s = Some (ext, s')" "valid cfg role' s'" "user_blocks cfg role' s' = user_blocks cfg role s"
    "if ext then {off..<off + n} \<subseteq> {..<pub_pages cfg} \<and> {off..<off + n} \<inter> user_pages cfg role s = {} \<and>
       user_pages cfg role' s' = user_pages cfg role s \<union> {off..<off + n}
     else s' = s \<and> user_pages cfg role' s' = user_pages cfg role s"
    using extend_valid [OF assms] by blast
  show ?thesis
  proof (cases ext)
    case True
    then have "page_reserve cfg off n s = Some (n * 2 ^ page_shift cfg, s')"
      by (subst page_reserve.simps) (simp add: e(1))
    moreover have "n * 2 ^ page_shift cfg \<noteq> 0"
      using assms(3) by simp
    ultimately show ?thesis
      using e(2-4) True by (intro exI [of _ "n * 2 ^ page_shift cfg"] exI [of _ role'] exI [of _ s']) simp
  next
    case False
    then have s': "s' = s"
      using e(4) by simp
    obtain s1 role1 where s1: "drain_remote cfg s = Some s1" "valid cfg role1 s1" "remote_slab s1 = []" "remote_page s1 = []"
      "user_blocks cfg role1 s1 = user_blocks cfg role s" "user_pages cfg role1 s1 = user_pages cfg role s"
      using drain_remote_valid [OF assms(1,2)] by blast
    show ?thesis
    proof (cases "batch_list s1 \<noteq> [] \<and> batch_min s1 \<le> off \<and> off \<le> batch_max s1")
      case True
      have "pre_sound cfg role1 s1" "0 < coalesce_buffer cfg"
        using s1(2) assms(1) by (simp_all add: valid_def sound_pre config_ok_def)
      then obtain s2 role2 where s2: "coalesce cfg s1 = Some s2" "sound cfg role2 s2" "same_user cfg role1 s1 role2 s2" "batch_list s2 = []"
        using coalesce_sound True by blast
      note v2 = same_user_valid [OF s1(2) s2(2,3)]
      have "remote_slab s2 = []" "remote_page s2 = []"
        using s2(3) s1(3,4) by (simp_all add: same_user_def)
      note again = page_reserve_empty [OF assms(1) v2(1) assms(3) s2(4) this, of off, unfolded v2(2,3) s1(5,6)]
      have "page_reserve cfg off n s = page_reserve cfg off n s2"
        using True \<open>\<not> ext\<close> s' by (subst page_reserve.simps) (simp add: e(1) s1(1) s2(1))
      then show ?thesis
        using again by simp
    next
      case keep: False
      have "page_reserve cfg off n s = Some (0, s1)"
        using \<open>\<not> ext\<close> s' by (subst page_reserve.simps) (simp add: e(1) s1(1) if_not_P [OF keep] del: de_Morgan_conj not_le)
      then show ?thesis
        using s1(2,5,6) by (intro exI [of _ 0] exI [of _ role1] exI [of _ s1]) simp
    qed
  qed
qed

lemma reserve_correct:
  assumes "config_ok cfg" "holds cfg s B P" "off \<le> pub_pages cfg" "0 < bytes" "pages_of cfg bytes < 2 ^ 32"
  shows "\<exists>k s'. reserve cfg (off * 2 ^ page_shift cfg) bytes s = Some (k, s') \<and>
    (if k = 0 then holds cfg s' B P
     else k = pages_of cfg bytes * 2 ^ page_shift cfg \<and> {off..<off + pages_of cfg bytes} \<inter> P = {} \<and>
       holds cfg s' B (P \<union> {off..<off + pages_of cfg bytes}))"
proof -
  note ok = assms(1)
  obtain role where r: "valid cfg role s" "user_blocks cfg role s = B" "user_pages cfg role s = P"
    using assms(2) by (auto simp: holds_def)
  note addr = page_address(3,4) [OF ok, of off]
  have "reserve cfg (off * 2 ^ page_shift cfg) bytes s = page_reserve cfg off (pages_of cfg bytes) s"
    using addr assms(3,5) by (auto simp: reserve_def le_less)
  moreover obtain k role' s' where t: "page_reserve cfg off (pages_of cfg bytes) s = Some (k, s')" "valid cfg role' s'"
    "user_blocks cfg role' s' = B"
    "if k = 0 then user_pages cfg role' s' = P
     else k = pages_of cfg bytes * 2 ^ page_shift cfg \<and> {off..<off + pages_of cfg bytes} \<subseteq> {..<pub_pages cfg} \<and>
       {off..<off + pages_of cfg bytes} \<inter> P = {} \<and> user_pages cfg role' s' = P \<union> {off..<off + pages_of cfg bytes}"
    using page_reserve_correct [OF ok r(1) pages_of_spec(1) [of bytes cfg, OF assms(4)], of off] unfolding r(2,3) by blast
  ultimately have "reserve cfg (off * 2 ^ page_shift cfg) bytes s = Some (k, s')"
    by simp
  moreover have "if k = 0 then holds cfg s' B P
      else k = pages_of cfg bytes * 2 ^ page_shift cfg \<and> {off..<off + pages_of cfg bytes} \<inter> P = {} \<and>
        holds cfg s' B (P \<union> {off..<off + pages_of cfg bytes})"
    using t(4) holdsI [OF t(2,3)] by (cases "k = 0") simp_all
  ultimately show ?thesis
    by blast
qed

section \<open>Requests of other threads\<close>

lemma free_slab_holds:
  assumes "config_ok cfg" "holds cfg s B P" "(q, n) \<in> B"
  shows "holds cfg (free_slab cfg True True q s) (B - {(q, n)}) P"
proof -
  note ok = assms(1)
  obtain role where r: "valid cfg role s" "user_blocks cfg role s = B" "user_pages cfg role s = P"
    using assms(2) by (auto simp: holds_def)
  have V: "sound cfg role s" "distinct (remote_slab s)" "set (remote_slab s) \<subseteq> fst ` held_blocks cfg role s"
    "runs_ok cfg (held_pages (pub_pages cfg) role s) (remote_page s)"
    using r(1) by (simp_all add: valid_def)
  have eq: "free_slab cfg True True q s = s\<lparr>remote_slab := q # remote_slab s\<rparr>"
    by (simp add: free_slab_def)
  have q: "(q, n) \<in> held_blocks cfg role s" "q \<notin> set (remote_slab s)"
    using assms(3) by (auto simp: r(2) [symmetric] user_blocks_def with_slabs_def)
  have "q \<in> fst ` held_blocks cfg role s"
    using q(1) by force
  then have "valid cfg role (s\<lparr>remote_slab := q # remote_slab s\<rparr>)"
    using V q(2) by (simp add: valid_def)
  moreover have "user_blocks cfg role (s\<lparr>remote_slab := q # remote_slab s\<rparr>) = B - {(q, n)}"
  proof (rule set_eqI)
    fix x :: "nat \<times> nat"
    obtain p m where x: "x = (p, m)"
      by force
    have one: "m = n" if "(q, m) \<in> held_blocks cfg role s"
      by (rule sound_blocks_unique [OF ok V(1) that q(1)])
    have B: "y \<in> B \<longleftrightarrow> y \<in> held_blocks cfg role s \<and> fst y \<notin> set (remote_slab s)" for y
      unfolding r(2) [symmetric] user_blocks_def with_slabs_def by simp blast
    show "x \<in> user_blocks cfg role (s\<lparr>remote_slab := q # remote_slab s\<rparr>) \<longleftrightarrow> x \<in> B - {(q, n)}"
      unfolding x user_blocks_def with_slabs_def using one by (cases "p = q") (simp_all add: B, blast+)
  qed
  moreover have "user_pages cfg role (s\<lparr>remote_slab := q # remote_slab s\<rparr>) = P"
    by (simp add: r(3) [symmetric] user_pages_def)
  ultimately show ?thesis
    unfolding eq by (rule holdsI)
qed

lemma free_page_holds:
  assumes "config_ok cfg" "holds cfg s B P" "0 < n" "{off..<off + n} \<subseteq> P"
  shows "holds cfg (free_page cfg True True (off * 2 ^ page_shift cfg) n s) B (P - {off..<off + n})"
proof -
  let ?r = "(off * 2 ^ page_shift cfg, n)"
  obtain role where r: "valid cfg role s" "user_blocks cfg role s = B" "user_pages cfg role s = P"
    using assms(2) by (auto simp: holds_def)
  have V: "sound cfg role s" "distinct (remote_slab s)" "set (remote_slab s) \<subseteq> fst ` held_blocks cfg role s"
    "runs_ok cfg (held_pages (pub_pages cfg) role s) (remote_page s)"
    using r(1) by (simp_all add: valid_def)
  have eq: "free_page cfg True True (off * 2 ^ page_shift cfg) n s = s\<lparr>remote_page := ?r # remote_page s\<rparr>"
    by (simp add: free_page_def)
  have run: "run_of cfg ?r = {off..<off + n}"
    by (simp add: run_of_def)
  have sub: "{off..<off + n} \<subseteq> held_pages (pub_pages cfg) role s" "{off..<off + n} \<inter> run_pages cfg (remote_page s) = {}"
    using assms(4) by (auto simp: r(3) [symmetric] user_pages_def)
  have "runs_ok cfg (held_pages (pub_pages cfg) role s) (?r # remote_page s)"
    using assms(3) sub runs_ok_diff [OF V(4) sub(2)] by (simp add: run)
  then have "valid cfg role (s\<lparr>remote_page := ?r # remote_page s\<rparr>)"
    using V(1-3) by (simp add: valid_def)
  moreover have "user_blocks cfg role (s\<lparr>remote_page := ?r # remote_page s\<rparr>) = B"
    by (simp add: r(2) [symmetric] user_blocks_def)
  moreover have "user_pages cfg role (s\<lparr>remote_page := ?r # remote_page s\<rparr>) = P - {off..<off + n}"
    by (auto simp: r(3) [symmetric] user_pages_def run)
  ultimately show ?thesis
    unfolding eq by (rule holdsI)
qed

section \<open>Runs of requests\<close>

text \<open>An interface whose steps keep a contract between a state and what its clients hold: what holds in every state
  that steps can reach.\<close>

locale held_contract =
  fixes initial :: "'c \<Rightarrow> 's \<times> 'h \<Rightarrow> bool"
    and step :: "'c \<Rightarrow> 's \<times> 'h \<Rightarrow> 's \<times> 'h \<Rightarrow> bool"
    and meets :: "'c \<Rightarrow> 's \<times> 'h \<Rightarrow> bool"
    and safe :: "'c \<Rightarrow> 'h \<Rightarrow> bool"
  assumes initial_meets: "initial c x \<Longrightarrow> meets c x"
    and step_meets: "meets c x \<Longrightarrow> step c x y \<Longrightarrow> meets c y"
    and meets_safe: "meets c (s, h) \<Longrightarrow> safe c h"
begin

lemma run_meets:
  assumes "initial c x" "(step c)\<^sup>*\<^sup>* x y"
  shows "meets c y"
  using assms(2) by (induction rule: rtranclp_induct) (auto intro: initial_meets [OF assms(1)] step_meets)

lemma run_safe: "initial c x \<Longrightarrow> (step c)\<^sup>*\<^sup>* x (s, h) \<Longrightarrow> safe c h"
  by (rule meets_safe [OF run_meets])

end

text \<open>One request of the owner or of another thread, with the blocks and pages in use before and after it.\<close>

inductive request_step :: "config \<Rightarrow> space \<times> (nat \<times> nat) set \<times> nat set \<Rightarrow> space \<times> (nat \<times> nat) set \<times> nat set \<Rightarrow> bool" for cfg where
  get_block: "request_ok cfg bytes al \<Longrightarrow> searches_ok cfg bytes al s \<Longrightarrow> allocate cfg bytes al s = Some (Inr (p, n), s') \<Longrightarrow> is_slab p \<Longrightarrow>
    request_step cfg (s, B, P) (s', insert (clear_slab p, n) B, P)"
| get_pages: "request_ok cfg bytes al \<Longrightarrow> searches_ok cfg bytes al s \<Longrightarrow> allocate cfg bytes al s = Some (Inr (p, n), s') \<Longrightarrow> \<not> is_slab p \<Longrightarrow>
    request_step cfg (s, B, P) (s', B, P \<union> run_at cfg p n)"
| refused: "request_ok cfg bytes al \<Longrightarrow> searches_ok cfg bytes al s \<Longrightarrow> allocate cfg bytes al s = Some (Inl e, s') \<Longrightarrow>
    request_step cfg (s, B, P) (s', B, P)"
| put_block: "(q, n) \<in> B \<Longrightarrow> deallocate cfg (set_slab q) bytes s = Some (k, s') \<Longrightarrow> request_step cfg (s, B, P) (s', B - {(q, n)}, P)"
| put_pages: "0 < bytes \<Longrightarrow> {off..<off + pages_of cfg bytes} \<subseteq> P \<Longrightarrow> deallocate cfg (off * 2 ^ page_shift cfg) bytes s = Some (k, s') \<Longrightarrow>
    request_step cfg (s, B, P) (s', B, P - {off..<off + pages_of cfg bytes})"
| grow: "off \<le> pub_pages cfg \<Longrightarrow> 0 < bytes \<Longrightarrow> pages_of cfg bytes < 2 ^ 32 \<Longrightarrow> reserve cfg (off * 2 ^ page_shift cfg) bytes s = Some (k, s') \<Longrightarrow>
    request_step cfg (s, B, P) (s', B, if k = 0 then P else P \<union> {off..<off + pages_of cfg bytes})"
| remote_block: "(q, n) \<in> B \<Longrightarrow> request_step cfg (s, B, P) (free_slab cfg True True q s, B - {(q, n)}, P)"
| remote_pages: "0 < n \<Longrightarrow> {off..<off + n} \<subseteq> P \<Longrightarrow>
    request_step cfg (s, B, P) (free_page cfg True True (off * 2 ^ page_shift cfg) n s, B, P - {off..<off + n})"

definition new_space :: "config \<Rightarrow> space \<times> (nat \<times> nat) set \<times> nat set \<Rightarrow> bool" where
  "new_space cfg x \<longleftrightarrow> x = (init_space cfg, {}, {})"

definition space_meets :: "config \<Rightarrow> space \<times> (nat \<times> nat) set \<times> nat set \<Rightarrow> bool" where
  "space_meets cfg x \<longleftrightarrow> config_ok cfg \<longrightarrow> holds cfg (fst x) (fst (snd x)) (snd (snd x))"

text \<open>Nothing in use overlaps, and all of it lies in the partition.\<close>

definition disjoint_use :: "config \<Rightarrow> (nat \<times> nat) set \<times> nat set \<Rightarrow> bool" where
  "disjoint_use cfg h \<longleftrightarrow>
     (\<forall>x \<in> fst h. \<forall>y \<in> fst h. x \<noteq> y \<longrightarrow> bytes_of x \<inter> bytes_of y = {}) \<and>
     (\<forall>x \<in> fst h. \<forall>k \<in> snd h. bytes_of x \<inter> page_bytes cfg k = {}) \<and>
     (\<forall>x \<in> fst h. 8 dvd fst x \<and> 8 \<le> snd x \<and> fst x + snd x \<le> pub_pages cfg * 2 ^ page_shift cfg) \<and> snd h \<subseteq> {..<pub_pages cfg}"

lemma request_step_meets:
  assumes "space_meets cfg x" "request_step cfg x y"
  shows "space_meets cfg y"
  using assms(2,1)
proof (induction rule: request_step.induct)
  case (get_block bytes al s p n s' B P)
  then show ?case
    using allocate_correct [of cfg s B P bytes al] by (auto simp: space_meets_def)
next
  case (get_pages bytes al s p n s' B P)
  then show ?case
    using allocate_correct [of cfg s B P bytes al] by (auto simp: space_meets_def)
next
  case (refused bytes al s e s' B P)
  then show ?case
    using allocate_correct [of cfg s B P bytes al] by (auto simp: space_meets_def)
next
  case (put_block q n B bytes s k s' P)
  then show ?case
    using deallocate_block [of cfg s B P q n bytes] by (auto simp: space_meets_def)
next
  case (put_pages bytes off P s k s' B)
  then show ?case
    using deallocate_pages [of cfg s B P bytes off] by (auto simp: space_meets_def)
next
  case (grow off bytes s k s' B P)
  then show ?case
    using reserve_correct [of cfg s B P off bytes] by (auto simp: space_meets_def split: if_splits)
next
  case (remote_block q n B s P)
  then show ?case
    using free_slab_holds [of cfg s B P q n] by (simp add: space_meets_def)
next
  case (remote_pages n off P s B)
  then show ?case
    using free_page_holds [of cfg s B P n off] by (simp add: space_meets_def)
qed

interpretation requests: held_contract new_space request_step space_meets "\<lambda>cfg h. config_ok cfg \<longrightarrow> disjoint_use cfg h"
proof
  show "space_meets cfg x" if "new_space cfg x" for cfg x
    using that init_holds by (auto simp: new_space_def space_meets_def)
  show "space_meets cfg y" if "space_meets cfg x" "request_step cfg x y" for cfg x y
    by (rule request_step_meets [OF that])
  show "config_ok cfg \<longrightarrow> disjoint_use cfg h" if "space_meets cfg (s, h)" for cfg s h
    using holds_apart [of cfg s "fst h" "snd h"] that unfolding disjoint_use_def space_meets_def by simp
qed

definition reachable :: "config \<Rightarrow> space \<Rightarrow> (nat \<times> nat) set \<Rightarrow> nat set \<Rightarrow> bool" where
  "reachable cfg s B P \<longleftrightarrow> (\<exists>x. new_space cfg x \<and> (request_step cfg)\<^sup>*\<^sup>* x (s, B, P))"

lemma reachable_start: "reachable cfg (init_space cfg) {} {}"
  unfolding reachable_def new_space_def by blast

lemma reachable_step: "reachable cfg s B P \<Longrightarrow> request_step cfg (s, B, P) (s', B', P') \<Longrightarrow> reachable cfg s' B' P'"
  unfolding reachable_def by (blast intro: rtranclp.rtrancl_into_rtrancl)

lemma reachable_meets:
  assumes "reachable cfg s B P" "config_ok cfg"
  shows "holds cfg s B P"
  using assms requests.run_meets [of cfg _ "(s, B, P)"] by (auto simp: reachable_def space_meets_def)

text \<open>The constants of the default build: 8 GiB of which 12225 pages are the private partition, so that the public one
  starts one page off the alignment of slabs.  The address is one the system may choose.\<close>

definition default_config :: config where
  "default_config = \<lparr>page_shift = 12, pub_pages = 2084927, base_page = 2 ^ 25 + 12225, coalesce_buffer = 4096, insertion_threshold = 64\<rparr>"

lemma default_ok: "config_ok default_config"
  by (simp add: config_ok_def default_config_def NIL_def)

lemma default_request: "request_ok default_config 100 8" "request_ok default_config 100000 4096"
proof -
  have "\<exists>k < 64. (8 :: nat) = 2 ^ k" "\<exists>k < 64. (4096 :: nat) = 2 ^ k"
    by (rule exI [of _ 3], simp) (rule exI [of _ 12], simp)
  then show "request_ok default_config 100 8" "request_ok default_config 100000 4096"
    by (simp_all add: request_ok_def power_of_two_def default_config_def pages_of_def)
qed

text \<open>A new address space of the default build serves a request for pages and one for a block.\<close>

lemma default_region:
  "heap_size (init_space default_config) = 1" "heap_array (init_space default_config) 0 = 0"
  "npages (nodes (init_space default_config) 0) = 2084927" "offset (nodes (init_space default_config) 0) = 0"
  by (simp_all add: init_space_eq empty_space_def default_config_def)

lemma default_phase: "page_phase default_config (slab_bytes default_config) = 1" "slab_bytes default_config div 2 ^ page_shift default_config = 32"
proof -
  show "page_phase default_config (slab_bytes default_config) = 1"
    unfolding page_phase_def and_low [OF slab_aligned(1) [OF default_ok]] by (simp add: slab_bytes_def default_config_def)
  show "slab_bytes default_config div 2 ^ page_shift default_config = 32"
    by (simp add: slab_bytes_def)
qed

lemma default_searches: "search_ok default_config 25 4096 (init_space default_config)"
  "search_ok default_config 32 (slab_bytes default_config) (init_space default_config)"
proof -
  have "(4096 :: nat) div 2 ^ page_shift default_config = 1"
    by (simp add: default_config_def)
  then show "search_ok default_config 25 4096 (init_space default_config)"
    by (simp add: search_ok_def wraps_def)
  show "search_ok default_config 32 (slab_bytes default_config) (init_space default_config)"
    unfolding search_ok_def default_phase by (simp add: default_region wraps_def)
qed

lemma default_bisect:
  "fst (page_bisect 0 25 1 b (init_space default_config)) \<noteq> NIL" "fst (page_bisect 0 32 32 1 (init_space default_config)) \<noteq> NIL"
proof -
  let ?n = "nodes (init_space default_config) 0"
  have "\<exists>k < 63. (32 :: nat) = 2 ^ k"
    by (rule exI [of _ 5]) simp
  then have "placeable 32 32 1 ?n"
    by (simp add: placeable_iff wraps_def default_region)
  moreover have "31 + 32 \<le> npages ?n" "32 dvd 1 + offset ?n + 31"
    by (simp_all add: default_region)
  ultimately have place: "place_in ?n 32 32 1 \<noteq> None"
    using place_in_spec [of 32 32 1 ?n] by (force simp: default_region split: option.splits)
  show "fst (page_bisect 0 25 1 b (init_space default_config)) \<noteq> NIL"
    by (subst page_bisect.simps) (simp add: default_region Let_def NIL_def place_in_def)
  show "fst (page_bisect 0 32 32 1 (init_space default_config)) \<noteq> NIL"
    using place by (subst page_bisect.simps) (auto simp: default_region Let_def NIL_def split: option.splits)
qed

lemma default_role: "\<exists>role. sound default_config role (init_space default_config)"
  using init_holds [OF default_ok] by (auto simp: holds_def valid_def)

lemma default_pages:
  "\<exists>s off. reachable default_config s {} {off..<off + 25}"
proof -
  let ?s = "init_space default_config"
  note ok = default_ok
  obtain role where role: "sound default_config role ?s"
    using default_role by blast
  have al: "power_of_two 4096"
    using default_request(2) by (simp add: request_ok_def)
  have "slab_max default_config < 100000"
    using slab_count_spec(1) [of "slab_count default_config - 1" default_config] slab_count_spec(2) [of default_config]
    by (simp add: default_config_def)
  then have big: "\<not> (100000 \<le> slab_max default_config \<and> (4096 :: nat) \<le> 8 \<and> slab_class default_config 100000 4096 < slab_count default_config)"
    by simp
  have pages: "pages_of default_config 100000 mod 2 ^ 32 = 25" "(4096 :: nat) div 2 ^ page_shift default_config = 1"
    by (simp_all add: pages_of_def default_config_def)
  obtain off s' role' where a: "page_allocate default_config 25 4096 ?s = Some (Inr off, s')" "took default_config {off..<off + 25} role ?s role' s'"
    using page_allocate_hit [OF ok role al _ default_searches(1)] default_bisect(1) unfolding pages(2) by auto
  have eq: "allocate default_config 100000 4096 ?s = Some (Inr (off * 4096, 25 * 4096), s')"
    unfolding allocate_def if_not_P [OF big] Let_def pages(1) a(1) by (simp add: default_config_def)
  have "{off..<off + 25} \<subseteq> {..<pub_pages default_config}"
    using a(2) by (simp add: took_def)
  then have off: "off < pub_pages default_config"
    by (auto simp: subset_iff)
  have "page_searches_ok default_config 25 4096 ?s"
    by (rule search_ok_start) (simp add: pages(2))
  then have search: "searches_ok default_config 100000 4096 ?s"
    unfolding searches_ok_def if_not_P [OF big] pages(1) .
  have "\<not> is_slab (off * 4096)"
    using even_tag(3) [OF page_address(2,1) [OF ok disjI1 [OF off]]] by (simp add: default_config_def)
  from reachable_step [OF reachable_start request_step.get_pages [OF default_request(2) search eq this]]
  have "reachable default_config s' {} {off..<off + 25}"
    by (simp add: run_at_def default_config_def)
  then show ?thesis
    by blast
qed

lemma default_class: "100 \<le> slab_max default_config \<and> (8 :: nat) \<le> 8 \<and> slab_class default_config 100 8 < slab_count default_config"
proof -
  have "100 \<le> slab_max default_config"
    by (simp add: slab_max_def default_config_def slabs_loop.simps next_class_def)
  then show ?thesis
    using slab_class_found [OF default_ok, of 8 100] default_request(1) by (simp add: request_ok_def)
qed

lemma default_fields:
  "remote_slab (init_space default_config) = []" "remote_page (init_space default_config) = []" "batch_pages (init_space default_config) = 0"
  "slabs (init_space default_config) c = NIL" "drain_remote default_config (init_space default_config) = Some (init_space default_config)"
proof -
  show fields: "remote_slab (init_space default_config) = []" "remote_page (init_space default_config) = []"
    "batch_pages (init_space default_config) = 0" "slabs (init_space default_config) c = NIL"
    by (simp_all add: init_space_eq empty_space_def)
  have "init_space default_config\<lparr>remote_slab := []\<rparr> = init_space default_config" "init_space default_config\<lparr>remote_page := []\<rparr> = init_space default_config"
    using fields(1,2) by simp_all
  then show "drain_remote default_config (init_space default_config) = Some (init_space default_config)"
    by (simp add: drain_remote_def fields(1,2))
qed

lemma default_small: "searches_ok default_config 100 8 (init_space default_config)"
proof -
  have low: "\<not> coalesce_buffer default_config \<le> batch_pages (init_space default_config)"
    by (simp add: default_fields) (simp add: default_config_def)
  have "page_searches_ok default_config 32 (slab_bytes default_config) (init_space default_config)"
    unfolding page_searches_ok_def default_phase using default_searches(2) default_bisect(2) by simp
  then show ?thesis
    unfolding searches_ok_def if_P [OF default_class] slab_searches_ok_def default_fields(5) bind.bind_lunit if_not_P [OF low] by simp
qed

lemma default_block:
  "\<exists>s q n. reachable default_config s {(q, n)} {}"
proof -
  let ?s = "init_space default_config"
  obtain role where role: "sound default_config role ?s"
    using default_role by blast
  obtain off s1 role1 where a: "page_allocate default_config 32 (slab_bytes default_config) ?s = Some (Inr off, s1)"
    "took default_config {off..<off + 32} role ?s role1 s1"
    using page_allocate_hit [OF default_ok role slab_aligned(1) [OF default_ok] _ default_searches(2)] default_bisect(2)
    unfolding default_phase by auto
  define c where "c = slab_class default_config 100 8"
  have low: "\<not> coalesce_buffer default_config \<le> batch_pages ?s"
    by (simp add: default_fields) (simp add: default_config_def)
  obtain i s2 where i: "init_slab default_config c off s1 = (i, s2)"
    by force
  have new: "new_slab default_config c ?s = Some (Inr i, s2)"
    unfolding new_slab_def default_fields(5) bind.bind_lunit if_not_P [OF low] a(1) fst_conv snd_conv by (simp add: i)
  obtain p s3 where p: "slab_take default_config c i s2 = (p, s3)"
    by force
  have slab: "slab_allocate default_config c ?s = Some (Inr p, s3)"
    unfolding slab_allocate_def if_P [OF default_fields(4)] new bind.bind_lunit fst_conv snd_conv by (simp add: p)
  have eq: "allocate default_config 100 8 ?s = Some (Inr (set_slab p, slab_class_size c), s3)"
    unfolding allocate_def if_P [OF default_class [folded c_def]] Let_def c_def [symmetric] slab by simp
  have "odd (set_slab p)"
    by (cases "even p") (simp_all add: set_slab_def or_one_eq [where 'a = nat, unfolded One_nat_def])
  then have "is_slab (set_slab p)"
    by (simp add: is_slab_def and_one_eq [where 'a = nat, unfolded One_nat_def] odd_iff_mod_2_eq_one)
  from reachable_step [OF reachable_start request_step.get_block [OF default_request(1) default_small eq this]] show ?thesis
    by blast
qed

text \<open>A partition on the alignments of slabs and of the request never makes a search wrap.\<close>

lemma searches_ok_start:
  assumes "page_phase cfg (slab_bytes cfg) = 0" "page_phase cfg al = 0"
  shows "searches_ok cfg bytes al s"
  unfolding searches_ok_def slab_searches_ok_def using assms search_ok_start by (simp split: option.split)

text \<open>C1.  In every state that requests of the owner and of other threads can reach, blocks and pages in use do not
  overlap, blocks are aligned to a pointer, and all of them lie in the public partition.  The constants are in range
  (\<open>config_ok\<close>); the requests ask for a positive size below \<open>2 ^ 32\<close> pages on a power of two, release what is in use, and
  no search of an allocation meets a region for which the difference of \<open>page_bisect\<close> wraps (\<open>searches_ok\<close>).\<close>

theorem no_overlap:
  assumes "config_ok cfg" "reachable cfg s B P"
  shows "(\<forall>x \<in> B. \<forall>y \<in> B. x \<noteq> y \<longrightarrow> bytes_of x \<inter> bytes_of y = {}) \<and>
    (\<forall>x \<in> B. \<forall>k \<in> P. bytes_of x \<inter> page_bytes cfg k = {}) \<and>
    (\<forall>x \<in> B. 8 dvd fst x \<and> 8 \<le> snd x \<and> fst x + snd x \<le> pub_pages cfg * 2 ^ page_shift cfg) \<and> P \<subseteq> {..<pub_pages cfg}"
proof -
  obtain x where "new_space cfg x" "(request_step cfg)\<^sup>*\<^sup>* x (s, B, P)"
    using assms(2) by (auto simp: reachable_def)
  from requests.run_safe [OF this] show ?thesis
    using assms(1) by (simp add: disjoint_use_def)
qed

lemma allocation_reachable:
  assumes "config_ok cfg" "reachable cfg s B P" "request_ok cfg bytes al" "searches_ok cfg bytes al s"
  shows "\<exists>r s'. allocate cfg bytes al s = Some (r, s') \<and>
    (case r of
       Inl e \<Rightarrow> e = MemoryError \<and> reachable cfg s' B P
     | Inr (p, n) \<Rightarrow> bytes \<le> n \<and> al dvd base_page cfg * 2 ^ page_shift cfg + clear_slab p \<and>
         (if is_slab p then (clear_slab p, n) \<notin> B \<and> reachable cfg s' (insert (clear_slab p, n) B) P
          else clear_slab p = p \<and> run_at cfg p n \<inter> P = {} \<and> reachable cfg s' B (P \<union> run_at cfg p n)))"
proof -
  obtain r s' where a: "allocate cfg bytes al s = Some (r, s')"
    "case r of
       Inl e \<Rightarrow> e = MemoryError \<and> holds cfg s' B P
     | Inr (p, n) \<Rightarrow> bytes \<le> n \<and> al dvd base_page cfg * 2 ^ page_shift cfg + clear_slab p \<and>
         (if is_slab p then (clear_slab p, n) \<notin> B \<and> holds cfg s' (insert (clear_slab p, n) B) P
          else clear_slab p = p \<and> 2 ^ page_shift cfg dvd p \<and> 2 ^ page_shift cfg dvd n \<and> run_at cfg p n \<inter> P = {} \<and> holds cfg s' B (P \<union> run_at cfg p n))"
    using allocate_correct [OF assms(1) reachable_meets [OF assms(2,1)] assms(3,4)] by blast
  show ?thesis
  proof (cases r)
    case (Inl e)
    then have "reachable cfg s' B P"
      using a(1) by (intro reachable_step [OF assms(2)] request_step.refused [OF assms(3,4)]) simp
    then show ?thesis
      using a Inl by auto
  next
    case (Inr x)
    obtain p n where x: "x = (p, n)"
      by force
    note step = request_step.get_block [OF assms(3,4) a(1) [unfolded Inr x]] request_step.get_pages [OF assms(3,4) a(1) [unfolded Inr x]]
    show ?thesis
      using a Inr x reachable_step [OF assms(2)] step by (cases "is_slab p") auto
  qed
qed

text \<open>C2.  An allocation of a positive size below \<open>2 ^ 32\<close> pages on a power of two, none of whose searches meets a region
  for which the difference of \<open>page_bisect\<close> wraps, returns.  It refuses with \<open>MemoryError\<close> and changes nothing in use, or it
  returns memory of at least the size asked for, aligned in memory as asked, that was not in use before and is in use
  now: a tagged block or whole pages.\<close>

theorem allocation_served:
  assumes "config_ok cfg" "reachable cfg s B P" "request_ok cfg bytes al" "searches_ok cfg bytes al s"
  shows "\<exists>r s'. allocate cfg bytes al s = Some (r, s') \<and>
    (case r of
       Inl e \<Rightarrow> e = MemoryError \<and> reachable cfg s' B P
     | Inr (p, n) \<Rightarrow> bytes \<le> n \<and> al dvd base_page cfg * 2 ^ page_shift cfg + clear_slab p \<and>
         (if is_slab p then (clear_slab p, n) \<notin> B \<and> reachable cfg s' (insert (clear_slab p, n) B) P
          else clear_slab p = p \<and> run_at cfg p n \<inter> P = {} \<and> reachable cfg s' B (P \<union> run_at cfg p n)))"
  by (rule allocation_reachable [OF assms])

lemma allocation_served_witness:
  "\<exists>r s'. allocate default_config 100 8 (init_space default_config) = Some (r, s') \<and>
    (case r of Inl e \<Rightarrow> e = MemoryError | Inr (p, n) \<Rightarrow> 100 \<le> n)"
proof -
  obtain r s' where r: "allocate default_config 100 8 (init_space default_config) = Some (r, s')"
    "case r of
       Inl e \<Rightarrow> e = MemoryError \<and> reachable default_config s' {} {}
     | Inr (p, n) \<Rightarrow> 100 \<le> n \<and> 8 dvd base_page default_config * 2 ^ page_shift default_config + clear_slab p \<and>
         (if is_slab p then (clear_slab p, n) \<notin> {} \<and> reachable default_config s' (insert (clear_slab p, n) {}) {}
          else clear_slab p = p \<and> run_at default_config p n \<inter> {} = {} \<and> reachable default_config s' {} ({} \<union> run_at default_config p n))"
    using allocation_served [OF default_ok reachable_start default_request(1) default_small] by blast
  then show ?thesis
    by (intro exI [of _ r] exI [of _ s']) (cases r; auto)
qed

lemma release_reachable:
  assumes "config_ok cfg" "reachable cfg s B P"
  shows "((q, n) \<in> B \<longrightarrow> (\<exists>s'. deallocate cfg (set_slab q) bytes s = Some (n, s') \<and> reachable cfg s' (B - {(q, n)}) P)) \<and>
    (0 < bytes \<and> {off..<off + pages_of cfg bytes} \<subseteq> P \<longrightarrow>
      (\<exists>s'. deallocate cfg (off * 2 ^ page_shift cfg) bytes s = Some (pages_of cfg bytes * 2 ^ page_shift cfg, s') \<and> reachable cfg s' B (P - {off..<off + pages_of cfg bytes})))"
proof (intro conjI impI)
  note meets = assms(1) reachable_meets [OF assms(2,1)]
  show "\<exists>s'. deallocate cfg (set_slab q) bytes s = Some (n, s') \<and> reachable cfg s' (B - {(q, n)}) P" if "(q, n) \<in> B"
    using deallocate_block [OF meets that] request_step.put_block [OF that] reachable_step [OF assms(2)] by blast
  show "\<exists>s'. deallocate cfg (off * 2 ^ page_shift cfg) bytes s = Some (pages_of cfg bytes * 2 ^ page_shift cfg, s') \<and> reachable cfg s' B (P - {off..<off + pages_of cfg bytes})"
    if "0 < bytes \<and> {off..<off + pages_of cfg bytes} \<subseteq> P"
    using deallocate_pages [OF meets conjunct1 [OF that] conjunct2 [OF that]] request_step.put_pages [OF conjunct1 [OF that] conjunct2 [OF that]]
      reachable_step [OF assms(2)] by blast
qed

text \<open>C3.  In a state that requests can reach (constants in range, no search of an allocation has met a wrapping region),
  every release returns: of a block in use, and of any pages in use, be they all of an allocation or a part of it.
  Exactly these go out of use, and their size is returned.\<close>

theorem release_served:
  assumes "config_ok cfg" "reachable cfg s B P"
  shows "((q, n) \<in> B \<longrightarrow> (\<exists>s'. deallocate cfg (set_slab q) bytes s = Some (n, s') \<and> reachable cfg s' (B - {(q, n)}) P)) \<and>
    (0 < bytes \<and> {off..<off + pages_of cfg bytes} \<subseteq> P \<longrightarrow>
      (\<exists>s'. deallocate cfg (off * 2 ^ page_shift cfg) bytes s = Some (pages_of cfg bytes * 2 ^ page_shift cfg, s') \<and> reachable cfg s' B (P - {off..<off + pages_of cfg bytes})))"
  by (rule release_reachable [OF assms])

lemma growth_reachable:
  assumes "config_ok cfg" "reachable cfg s B P" "off \<le> pub_pages cfg" "0 < bytes" "pages_of cfg bytes < 2 ^ 32"
  shows "\<exists>k s'. reserve cfg (off * 2 ^ page_shift cfg) bytes s = Some (k, s') \<and>
    (if k = 0 then reachable cfg s' B P
     else k = pages_of cfg bytes * 2 ^ page_shift cfg \<and> {off..<off + pages_of cfg bytes} \<inter> P = {} \<and>
       reachable cfg s' B (P \<union> {off..<off + pages_of cfg bytes}))"
proof -
  obtain k s' where r: "reserve cfg (off * 2 ^ page_shift cfg) bytes s = Some (k, s')"
    "if k = 0 then holds cfg s' B P
     else k = pages_of cfg bytes * 2 ^ page_shift cfg \<and> {off..<off + pages_of cfg bytes} \<inter> P = {} \<and>
       holds cfg s' B (P \<union> {off..<off + pages_of cfg bytes})"
    using reserve_correct [OF assms(1) reachable_meets [OF assms(2,1)] assms(3-5)] by blast
  from reachable_step [OF assms(2) request_step.grow [OF assms(3-5) r(1)]] r show ?thesis
    by (intro exI [of _ k] exI [of _ s']) (cases "k = 0"; simp)
qed

text \<open>C6.  In a state that requests can reach (constants in range, no search of an allocation has met a wrapping region), a
  request for a positive size below \<open>2 ^ 32\<close> pages to grow in place returns, and takes either all of the pages it asks for,
  none of which was in use, or nothing.\<close>

theorem growth_in_place:
  assumes "config_ok cfg" "reachable cfg s B P" "off \<le> pub_pages cfg" "0 < bytes" "pages_of cfg bytes < 2 ^ 32"
  shows "\<exists>k s'. reserve cfg (off * 2 ^ page_shift cfg) bytes s = Some (k, s') \<and>
    (if k = 0 then reachable cfg s' B P
     else k = pages_of cfg bytes * 2 ^ page_shift cfg \<and> {off..<off + pages_of cfg bytes} \<inter> P = {} \<and>
       reachable cfg s' B (P \<union> {off..<off + pages_of cfg bytes}))"
  by (rule growth_reachable [OF assms])

lemma remote_reachable:
  assumes "config_ok cfg" "reachable cfg s B P"
  shows "((q, n) \<in> B \<longrightarrow> reachable cfg (free_slab cfg True True q s) (B - {(q, n)}) P) \<and>
    (0 < k \<and> {off..<off + k} \<subseteq> P \<longrightarrow> reachable cfg (free_page cfg True True (off * 2 ^ page_shift cfg) k s) B (P - {off..<off + k})) \<and>
    (\<exists>s'. drain_remote cfg s = Some s' \<and> remote_slab s' = [] \<and> remote_page s' = [] \<and> holds cfg s' B P)"
proof (intro conjI impI)
  show "reachable cfg (free_slab cfg True True q s) (B - {(q, n)}) P" if "(q, n) \<in> B"
    by (rule reachable_step [OF assms(2) request_step.remote_block [OF that]])
  show "reachable cfg (free_page cfg True True (off * 2 ^ page_shift cfg) k s) B (P - {off..<off + k})" if "0 < k \<and> {off..<off + k} \<subseteq> P"
    by (rule reachable_step [OF assms(2) request_step.remote_pages]) (use that in auto)
  obtain role where "valid cfg role s" "user_blocks cfg role s = B" "user_pages cfg role s = P"
    using reachable_meets [OF assms(2,1)] by (auto simp: holds_def)
  then show "\<exists>s'. drain_remote cfg s = Some s' \<and> remote_slab s' = [] \<and> remote_page s' = [] \<and> holds cfg s' B P"
    using drain_remote_valid [OF assms(1), of role s] by (auto intro: holdsI)
qed

text \<open>C5.  In a state that requests can reach (constants in range, no search of an allocation has met a wrapping region), a
  block or pages that another thread releases go out of use at once, and the owner's next drain carries every
  waiting request out without changing what is in use.\<close>

theorem remote_release:
  assumes "config_ok cfg" "reachable cfg s B P"
  shows "((q, n) \<in> B \<longrightarrow> reachable cfg (free_slab cfg True True q s) (B - {(q, n)}) P) \<and>
    (0 < k \<and> {off..<off + k} \<subseteq> P \<longrightarrow> reachable cfg (free_page cfg True True (off * 2 ^ page_shift cfg) k s) B (P - {off..<off + k})) \<and>
    (\<exists>s'. drain_remote cfg s = Some s' \<and> remote_slab s' = [] \<and> remote_page s' = [] \<and> holds cfg s' B P)"
  by (rule remote_reachable [OF assms])

text \<open>C4.  In a state that requests can reach (constants in range, no search of an allocation has met a wrapping region) and
  where no request of another thread waits, the counter of occupied bytes is the size of everything in use, modulo
  its 64 bits: it is zero when nothing is in use, as the unmapping at the end of a thread needs.\<close>

theorem bytes_accounted:
  assumes "config_ok cfg" "reachable cfg s B P" "remote_slab s = []" "remote_page s = []"
  shows "occupied s = ((\<Sum>x \<in> B. snd x) + card P * 2 ^ page_shift cfg) mod 2 ^ 64"
proof -
  obtain role where r: "valid cfg role s" "user_blocks cfg role s = B" "user_pages cfg role s = P"
    using reachable_meets [OF assms(2,1)] by (auto simp: holds_def)
  have "held_blocks cfg role s = B" "held_pages (pub_pages cfg) role s = P"
    using r(2,3) assms(3,4) by (simp_all add: user_blocks_def user_pages_def with_slabs_def)
  then show ?thesis
    using r(1) by (simp add: valid_def sound_def accounted_def)
qed

lemma bytes_accounted_witness: "occupied (init_space default_config) = 0"
  using bytes_accounted [OF default_ok reachable_start] by (simp add: default_fields)

lemma no_overlap_witness: "\<exists>s q n. reachable default_config s {(q, n)} {} \<and> 8 dvd q \<and> q + n \<le> 2084927 * 4096"
proof -
  obtain s q n where r: "reachable default_config s {(q, n)} {}"
    using default_block by blast
  then show ?thesis
    using no_overlap [OF default_ok r] by (intro exI [of _ s] exI [of _ q] exI [of _ n]) (simp add: default_config_def)
qed

lemma release_served_witness: "\<exists>s q n s'. deallocate default_config (set_slab q) 0 s = Some (n, s') \<and> reachable default_config s' {} {}"
proof -
  obtain s q n where r: "reachable default_config s {(q, n)} {}"
    using default_block by blast
  then show ?thesis
    using release_served [OF default_ok r, of q n 0 0] by auto
qed

lemma growth_in_place_witness: "\<exists>k s'. reserve default_config (7 * 4096) 5000 (init_space default_config) = Some (k, s')"
proof -
  have "7 \<le> pub_pages default_config" "pages_of default_config 5000 < 2 ^ 32" "2 ^ page_shift default_config = (4096 :: nat)"
    by (simp_all add: default_config_def pages_of_def)
  then show ?thesis
    using growth_in_place [OF default_ok reachable_start, of 7 5000] by auto
qed

lemma remote_release_witness: "\<exists>s off s'. drain_remote default_config (free_page default_config True True (off * 4096) 5 s) = Some s'"
proof -
  obtain s off where r: "reachable default_config s {} {off..<off + 25}"
    using default_pages by blast
  have page: "2 ^ page_shift default_config = (4096 :: nat)"
    by (simp add: default_config_def)
  have "{off..<off + 5} \<subseteq> {off..<off + 25}"
    by auto
  then have "reachable default_config (free_page default_config True True (off * 4096) 5 s) {} ({off..<off + 25} - {off..<off + 5})"
    using remote_release [OF default_ok r, of 0 0 5 off] unfolding page by simp
  from remote_release [OF default_ok this, of 0 0 0 0] show ?thesis
    by blast
qed

end
