(* ===== verification/AllocGuards.thy ===== *)
theory AllocGuards
  imports AllocNodes "HOL-Library.Multiset"
begin

text \<open>
  The calls of several threads on one address space: the counter of calls in flight, the owner's pointer, the
  counter of occupied bytes and the two stacks of deferred requests.  Each atomic access is a step of its own; the
  work between them is only seen through the bytes it takes or gives back.  The memory is sequentially
  consistent.
\<close>

section \<open>The header that threads share\<close>

text \<open>\<open>owner_set\<close> is false when the owner's pointer is null, \<open>deferred True\<close> is the stack of blocks and
  \<open>deferred False\<close> that of pages, as sizes.  \<open>in_use\<close> is what the program holds, and \<open>unmaps\<close> counts
  the calls that unmap the space.\<close>

record header =
  in_flight :: nat
  owner_set :: bool
  bytes_used :: nat
  deferred :: "bool \<Rightarrow> nat list"
  in_use :: "nat multiset"
  unmaps :: nat

text \<open>Where a thread is: what is left of a call after the stacks have been taken, and the points between two
  accesses.\<close>

datatype rest = Leave | Subtract nat | Grow nat | Return

datatype pc =
    Outside
  | Freeing nat bool
  | Pushing nat bool
  | Pushed bool
  | Taking "bool list" rest
  | Draining "bool list" "nat list" rest
  | Closing
  | AskOwner
  | AskBytes
  | Unmapping

section \<open>Steps\<close>

text \<open>A guard enters; the one of an allocation leaves; the one of a release leaves and, if it was the last call,
  looks at the owner, then at the counter of bytes, and unmaps the space.\<close>

definition enter :: "header \<Rightarrow> header" where
  "enter h = h\<lparr>in_flight := add64 (in_flight h) 1\<rparr>"

definition acquire_exit :: "header \<Rightarrow> pc \<times> header" where
  "acquire_exit h = (Outside, h\<lparr>in_flight := sub64 (in_flight h) 1\<rparr>)"

definition release_exit :: "header \<Rightarrow> pc \<times> header" where
  "release_exit h = (if in_flight h = 1 then AskOwner else Outside, h\<lparr>in_flight := sub64 (in_flight h) 1\<rparr>)"

definition ask_owner :: "header \<Rightarrow> pc \<times> header" where
  "ask_owner h = (if \<not> owner_set h then AskBytes else Outside, h)"

definition ask_bytes :: "header \<Rightarrow> pc \<times> header" where
  "ask_bytes h = (if bytes_used h = 0 then Unmapping else Outside, h)"

definition unmap :: "header \<Rightarrow> pc \<times> header" where
  "unmap h = (Outside, h\<lparr>unmaps := unmaps h + 1\<rparr>)"

definition subtract_bytes :: "nat \<Rightarrow> header \<Rightarrow> header" where
  "subtract_bytes n h = h\<lparr>bytes_used := sub64 (bytes_used h) n\<rparr>"

text \<open>A release by another thread: it looks at the owner, pushes the request, looks again, and takes the stack
  itself when the owner has gone in between.\<close>

definition free_start :: "nat \<Rightarrow> bool \<Rightarrow> header \<Rightarrow> pc \<times> header" where
  "free_start n b h = (if \<not> owner_set h then Taking [] (Subtract n) else Pushing n b, h)"

definition free_push :: "nat \<Rightarrow> bool \<Rightarrow> header \<Rightarrow> pc \<times> header" where
  "free_push n b h = (Pushed b, h\<lparr>deferred := (deferred h)(b := n # deferred h b)\<rparr>)"

definition free_recheck :: "bool \<Rightarrow> header \<Rightarrow> pc \<times> header" where
  "free_recheck b h = (if \<not> owner_set h then Taking [b] Leave else Taking [] Leave, h)"

text \<open>A stack is taken as a whole; the owner at its end clears its pointer and takes both.\<close>

definition take_stack :: "bool \<Rightarrow> bool list \<Rightarrow> rest \<Rightarrow> header \<Rightarrow> pc \<times> header" where
  "take_stack k ks r h = (Draining ks (deferred h k) r, h\<lparr>deferred := (deferred h)(k := [])\<rparr>)"

definition clear_owner :: "header \<Rightarrow> pc \<times> header" where
  "clear_owner h = (Taking [True, False] Leave, h\<lparr>owner_set := False\<rparr>)"

fun advance :: "pc \<Rightarrow> header \<Rightarrow> pc \<times> header" where
  "advance Outside h = (Outside, h)"
| "advance (Freeing n b) h = free_start n b h"
| "advance (Pushing n b) h = free_push n b h"
| "advance (Pushed b) h = free_recheck b h"
| "advance (Taking (k # ks) r) h = take_stack k ks r h"
| "advance (Draining ks (n # l) r) h = (Draining ks l r, subtract_bytes n h)"
| "advance (Draining ks [] r) h = (Taking ks r, h)"
| "advance (Taking [] (Subtract n)) h = (Taking [] Leave, subtract_bytes n h)"
| "advance (Taking [] (Grow n)) h = (Taking [] Return, h\<lparr>bytes_used := add64 (bytes_used h) n, in_use := add_mset n (in_use h)\<rparr>)"
| "advance (Taking [] Return) h = acquire_exit h"
| "advance (Taking [] Leave) h = release_exit h"
| "advance Closing h = clear_owner h"
| "advance AskOwner h = ask_owner h"
| "advance AskBytes h = ask_bytes h"
| "advance Unmapping h = unmap h"

section \<open>The system of threads\<close>

text \<open>Thread 0 is the owner; \<open>handle\<close> tells whether its pointer to the address space is set.\<close>

record threads =
  pcs :: "nat \<Rightarrow> pc"
  hdr :: header
  handle :: bool

definition new_threads :: threads where
  "new_threads = \<lparr>pcs = (\<lambda>_. Outside), hdr = \<lparr>in_flight = 0, owner_set = True, bytes_used = 0, deferred = (\<lambda>_. []), in_use = {#}, unmaps = 0\<rparr>,
     handle = True\<rparr>"

text \<open>What can happen: the owner allocates (after a drain or not) or is refused, releases, or ends; another thread, or
  the owner after its end, releases a region; or a thread takes its next step.\<close>

datatype event = Allocate bool nat | Refuse | Local nat | Remote nat nat bool | Close | Advance nat

definition move :: "nat \<Rightarrow> pc \<Rightarrow> header \<Rightarrow> threads \<Rightarrow> threads" where
  "move t p h s = s\<lparr>pcs := (pcs s)(t := p), hdr := h\<rparr>"

definition drop_use :: "nat \<Rightarrow> header \<Rightarrow> header" where
  "drop_use n h = h\<lparr>in_use := in_use h - {#n#}\<rparr>"

text \<open>The memory of a space is below 64 bits.\<close>

fun has_room :: "pc \<Rightarrow> header \<Rightarrow> bool" where
  "has_room (Taking [] (Grow n)) h = (bytes_used h + n < 2 ^ 64)"
| "has_room p h = True"

fun occur :: "nat \<Rightarrow> event \<Rightarrow> threads \<Rightarrow> threads option" where
  "occur N (Allocate drain n) s = (
     if pcs s 0 = Outside \<and> handle s \<and> 0 < n
     then Some (move 0 (Taking (if drain then [True, False] else []) (Grow n)) (enter (hdr s)) s) else None)"
| "occur N Refuse s = (
     if pcs s 0 = Outside \<and> handle s then Some (move 0 (Taking [True, False] Return) (enter (hdr s)) s) else None)"
| "occur N (Local n) s = (
     if pcs s 0 = Outside \<and> handle s \<and> n \<in># in_use (hdr s)
     then Some (move 0 (Taking [True, False] (Subtract n)) (enter (drop_use n (hdr s))) s) else None)"
| "occur N (Remote t n b) s = (
     if t < N \<and> pcs s t = Outside \<and> (t = 0 \<longrightarrow> \<not> handle s) \<and> n \<in># in_use (hdr s)
     then Some (move t (Freeing n b) (enter (drop_use n (hdr s))) s) else None)"
| "occur N Close s = (
     if pcs s 0 = Outside \<and> handle s then Some (move 0 Closing (enter (hdr s)) (s\<lparr>handle := False\<rparr>)) else None)"
| "occur N (Advance t) s = (
     if t < N \<and> pcs s t \<noteq> Outside \<and> has_room (pcs s t) (hdr s)
     then let (p, h) = advance (pcs s t) (hdr s) in Some (move t p h s) else None)"

text \<open>The states that some order of events reaches.\<close>

inductive reached :: "nat \<Rightarrow> threads \<Rightarrow> bool" for N where
  new: "reached N new_threads"
| event: "reached N s \<Longrightarrow> occur N e s = Some s' \<Longrightarrow> reached N s'"

fun occur_all :: "nat \<Rightarrow> event list \<Rightarrow> threads \<Rightarrow> threads option" where
  "occur_all N [] s = Some s"
| "occur_all N (e # es) s = (case occur N e s of None \<Rightarrow> None | Some s' \<Rightarrow> occur_all N es s')"

lemma occur_all_reached: "reached N s \<Longrightarrow> occur_all N es s = Some s' \<Longrightarrow> reached N s'"
  by (induction es arbitrary: s) (auto split: option.splits intro: reached.event)

section \<open>The invariant\<close>

primrec left_over :: "rest \<Rightarrow> nat" where
  "left_over Leave = 0"
| "left_over (Subtract n) = n"
| "left_over (Grow n) = 0"
| "left_over Return = 0"

primrec allocates :: "rest \<Rightarrow> bool" where
  "allocates Leave = False"
| "allocates (Subtract n) = False"
| "allocates (Grow n) = True"
| "allocates Return = True"

text \<open>Bytes that a thread has yet to subtract, threads that the counter of calls sees, threads that will take a stack,
  and threads in an allocation.\<close>

fun pending :: "pc \<Rightarrow> nat" where
  "pending (Freeing n b) = n"
| "pending (Pushing n b) = n"
| "pending (Taking ks r) = left_over r"
| "pending (Draining ks l r) = sum_list l + left_over r"
| "pending p = 0"

fun inside :: "pc \<Rightarrow> bool" where
  "inside Outside = False"
| "inside AskOwner = False"
| "inside AskBytes = False"
| "inside Unmapping = False"
| "inside p = True"

fun collects :: "bool \<Rightarrow> pc \<Rightarrow> bool" where
  "collects k (Pushed b) = (b = k)"
| "collects k (Taking ks r) = (k \<in> set ks)"
| "collects k (Draining ks l r) = (k \<in> set ks)"
| "collects k p = False"

fun allocating :: "pc \<Rightarrow> bool" where
  "allocating (Taking ks r) = allocates r"
| "allocating (Draining ks l r) = allocates r"
| "allocating p = False"

fun sized :: "pc \<Rightarrow> bool" where
  "sized (Taking ks (Grow n)) = (0 < n)"
| "sized (Draining ks l (Grow n)) = (0 < n)"
| "sized p = True"

definition known_bytes :: "header \<Rightarrow> nat" where
  "known_bytes h = sum_mset (in_use h) + sum_list (deferred h True) + sum_list (deferred h False)"

definition counted :: "nat \<Rightarrow> threads \<Rightarrow> bool" where
  "counted N s \<longleftrightarrow>
     in_flight (hdr s) = (\<Sum>t<N. of_bool (inside (pcs s t))) \<and>
     bytes_used (hdr s) = known_bytes (hdr s) + (\<Sum>t<N. pending (pcs s t)) \<and> bytes_used (hdr s) < 2 ^ 64 \<and>
     (\<forall>n \<in># in_use (hdr s). 0 < n) \<and> (\<forall>t<N. sized (pcs s t))"

definition owned :: "nat \<Rightarrow> threads \<Rightarrow> bool" where
  "owned N s \<longleftrightarrow>
     (owner_set (hdr s) \<longleftrightarrow> handle s \<or> pcs s 0 = Closing) \<and> (handle s \<longrightarrow> pcs s 0 \<noteq> Closing) \<and>
     (\<forall>t<N. (pcs s t = Closing \<longrightarrow> t = 0) \<and> (allocating (pcs s t) \<longrightarrow> t = 0 \<and> handle s))"

definition ending :: "nat \<Rightarrow> threads \<Rightarrow> bool" where
  "ending N s \<longleftrightarrow>
     (\<forall>t<N. (pcs s t \<in> {AskBytes, Unmapping} \<longrightarrow> \<not> owner_set (hdr s)) \<and> (pcs s t = Unmapping \<longrightarrow> bytes_used (hdr s) = 0)) \<and>
     (\<not> owner_set (hdr s) \<longrightarrow> (\<forall>k. deferred (hdr s) k \<noteq> [] \<longrightarrow> (\<exists>t<N. collects k (pcs s t)))) \<and>
     (0 < unmaps (hdr s) \<longrightarrow> \<not> owner_set (hdr s) \<and> bytes_used (hdr s) = 0) \<and>
     (\<not> owner_set (hdr s) \<longrightarrow> bytes_used (hdr s) = 0 \<longrightarrow> 0 < unmaps (hdr s) \<or> (\<exists>t<N. pcs s t \<noteq> Outside))"

lemma move_simps [simp]: "pcs (move t p h s) = (pcs s)(t := p)" "hdr (move t p h s) = h" "handle (move t p h s) = handle s"
  by (simp_all add: move_def)

text \<open>A sum over the threads after one of them moved.\<close>

lemma sum_move:
  assumes "t < N"
  shows "(\<Sum>u<N. f (if u = t then p else pcs s u)) + f (pcs s t) = (\<Sum>u<N. f (pcs s u)) + (f p :: nat)"
proof -
  have "(\<Sum>u<N. f (if u = t then p else pcs s u)) = f p + (\<Sum>u\<in>{..<N} - {t}. f (pcs s u))"
    using assms by (subst sum.remove [of _ t]) (auto intro!: sum.cong)
  moreover have "(\<Sum>u<N. f (pcs s u)) = f (pcs s t) + (\<Sum>u\<in>{..<N} - {t}. f (pcs s u))"
    using assms by (subst sum.remove [of _ t]) auto
  ultimately show ?thesis
    by simp
qed

lemma counted_move:
  assumes "counted N s" "t < N" "in_flight h + of_bool (inside (pcs s t)) = in_flight (hdr s) + of_bool (inside p)"
    "bytes_used h + known_bytes (hdr s) + pending (pcs s t) = bytes_used (hdr s) + known_bytes h + pending p"
    "bytes_used h < 2 ^ 64" "\<forall>n \<in># in_use h. 0 < n" "sized p"
  shows "counted N (move t p h s)"
  using assms sum_move [OF assms(2), where f = "\<lambda>p. of_bool (inside p)" and s = s and p = p]
    sum_move [OF assms(2), where f = pending and s = s and p = p]
  by (simp add: counted_def fun_upd_def)

lemma pending_known:
  assumes "counted N s" "t < N"
  shows "pending (pcs s t) + known_bytes (hdr s) \<le> bytes_used (hdr s)" "bytes_used (hdr s) < 2 ^ 64"
  using assms member_le_sum [of t "{..<N}" "\<lambda>t. pending (pcs s t)"] by (simp_all add: counted_def)

lemma flight_bounds:
  assumes "counted N s" "t < N" "N < 2 ^ 64"
  shows "inside (pcs s t) \<Longrightarrow> 0 < in_flight (hdr s)" "in_flight (hdr s) \<le> N" "\<not> inside (pcs s t) \<Longrightarrow> in_flight (hdr s) < N"
proof -
  have eq: "in_flight (hdr s) = card {t. t < N \<and> inside (pcs s t)}"
    using assms(1) by (simp add: counted_def sum.If_cases of_bool_def lessThan_def Collect_conj_eq [symmetric] conj_commute) 
  have fin: "finite {t. t < N \<and> inside (pcs s t)}" and sub: "{t. t < N \<and> inside (pcs s t)} \<subseteq> {..<N}"
    by auto
  show "0 < in_flight (hdr s)" if "inside (pcs s t)"
    unfolding eq using that assms(2) fin by (auto simp: card_gt_0_iff)
  show "in_flight (hdr s) \<le> N"
    unfolding eq using card_mono [OF _ sub] by simp
  show "in_flight (hdr s) < N" if "\<not> inside (pcs s t)"
    unfolding eq using psubset_card_mono [of "{..<N}" "{t. t < N \<and> inside (pcs s t)}"] that assms(2) by auto
qed

section \<open>Every event keeps the invariant\<close>

lemmas step_defs = free_start_def free_push_def free_recheck_def take_stack_def clear_owner_def acquire_exit_def release_exit_def
  ask_owner_def ask_bytes_def unmap_def subtract_bytes_def enter_def drop_use_def

lemma advance_counted:
  assumes "counted N s" "t < N" "N < 2 ^ 64" "pcs s t \<noteq> Outside" "has_room (pcs s t) (hdr s)" "advance (pcs s t) (hdr s) = (p, h)"
  shows "counted N (move t p h s)"
proof (rule counted_move [OF assms(1,2)])
  note bound = pending_known [OF assms(1,2)] flight_bounds [OF assms(1-3)] assms(3)
  have size: "sized (pcs s t)"
    using assms(1,2) by (simp add: counted_def)
  show "in_flight h + of_bool (inside (pcs s t)) = in_flight (hdr s) + of_bool (inside p)"
    using assms(6) bound assms(4) by (cases "(pcs s t, hdr s)" rule: advance.cases) (auto simp: step_defs sub64_eq split: if_splits)
  show "bytes_used h + known_bytes (hdr s) + pending (pcs s t) = bytes_used (hdr s) + known_bytes h + pending p"
    using assms(5,6) bound by (cases "(pcs s t, hdr s)" rule: advance.cases) (auto simp: step_defs known_bytes_def sub64_eq add64_eq split: if_splits)
  show "bytes_used h < 2 ^ 64"
    using assms(5,6) bound by (cases "(pcs s t, hdr s)" rule: advance.cases) (auto simp: step_defs sub64_eq add64_eq split: if_splits)
  show "\<forall>n \<in># in_use h. 0 < n"
    using assms(1,6) size by (cases "(pcs s t, hdr s)" rule: advance.cases) (auto simp: step_defs counted_def split: if_splits)
  show "sized p"
    using assms(6) size by (cases "(pcs s t, hdr s)" rule: advance.cases) (auto simp: step_defs split: if_splits rest.splits elim: sized.elims)
qed

lemma advance_owned:
  assumes "owned N s" "t < N" "pcs s t \<noteq> Outside" "advance (pcs s t) (hdr s) = (p, h)"
  shows "owned N (move t p h s)"
  using assms by (cases "(pcs s t, hdr s)" rule: advance.cases) (auto simp: step_defs owned_def split: if_splits)

lemma advance_ending:
  assumes "counted N s" "owned N s" "ending N s" "t < N" "N < 2 ^ 64" "pcs s t \<noteq> Outside" "advance (pcs s t) (hdr s) = (p, h)"
  shows "ending N (move t p h s)"
proof -
  let ?s = "move t p h s"
  have others: "\<exists>u<N. u \<noteq> t \<and> inside (pcs s u)" if "pcs s t = Taking [] Leave" "in_flight (hdr s) \<noteq> 1"
  proof (rule ccontr)
    assume none: "\<not> (\<exists>u<N. u \<noteq> t \<and> inside (pcs s u))"
    have "(\<Sum>u<N. of_bool (inside (pcs s u))) = (\<Sum>u\<in>{t}. of_bool (inside (pcs s u)) :: nat)"
      by (rule sum.mono_neutral_right) (use none assms(4) in auto)
    then show False
      using that assms(1) by (simp add: counted_def)
  qed
  have alone: "\<not> allocating (pcs s t)" if "\<not> owner_set (hdr s)"
    using that assms(2,4) by (auto simp: owned_def)
  have ends: "pcs s t \<in> {AskBytes, Unmapping} \<Longrightarrow> \<not> owner_set (hdr s)" "pcs s t = Unmapping \<Longrightarrow> bytes_used (hdr s) = 0"
    using assms(3,4) by (auto simp: ending_def)
  note bound = pending_known [OF assms(1,4)]
  have own: "owner_set h \<Longrightarrow> owner_set (hdr s)"
    using assms(7) by (cases "(pcs s t, hdr s)" rule: advance.cases) (auto simp: step_defs split: if_splits)
  have down: "bytes_used h \<le> bytes_used (hdr s)" if "\<not> owner_set (hdr s)"
    using assms(7) bound alone [OF that] by (cases "(pcs s t, hdr s)" rule: advance.cases) (auto simp: step_defs sub64_eq split: if_splits)
  have maps: "unmaps (hdr s) \<le> unmaps h" "unmaps h \<noteq> unmaps (hdr s) \<Longrightarrow> pcs s t = Unmapping \<and> bytes_used h = bytes_used (hdr s) \<and> owner_set h = owner_set (hdr s)"
    using assms(7) by (cases "(pcs s t, hdr s)" rule: advance.cases; auto simp: step_defs split: if_splits)+
  have stack: "collects k p \<or> (deferred (hdr s) k \<noteq> [] \<and> \<not> owner_set (hdr s) \<and> \<not> collects k (pcs s t))"
    if "\<not> owner_set h" "deferred h k \<noteq> []" for k
    using assms(7) that by (cases "(pcs s t, hdr s)" rule: advance.cases) (auto simp: step_defs split: if_splits)
  have out: "0 < unmaps h \<or> (\<exists>u<N. u \<noteq> t \<and> pcs s u \<noteq> Outside)" if "p = Outside" "\<not> owner_set h" "bytes_used h = 0"
    using assms(6,7) that others alone by (cases "(pcs s t, hdr s)" rule: advance.cases) (auto simp: step_defs split: if_splits)
  have here: "p \<in> {AskBytes, Unmapping} \<Longrightarrow> \<not> owner_set h" "p = Unmapping \<Longrightarrow> bytes_used h = 0"
    using assms(7) ends by (cases "(pcs s t, hdr s)" rule: advance.cases; auto simp: step_defs split: if_splits)+
  show ?thesis
    unfolding ending_def move_simps fun_upd_apply
  proof (intro conjI allI impI)
    fix u assume u: "u < N"
    show "\<not> owner_set h" if "(if u = t then p else pcs s u) \<in> {AskBytes, Unmapping}"
      using that here(1) own assms(3) u by (auto simp: ending_def split: if_splits)
    show "bytes_used h = 0" if "(if u = t then p else pcs s u) = Unmapping"
      using that here(2) down assms(3) u by (auto simp: ending_def split: if_splits)
  next
    fix k assume k: "\<not> owner_set h" "deferred h k \<noteq> []"
    show "\<exists>u<N. collects k (if u = t then p else pcs s u)"
      using stack [OF k] assms(3,4) by (auto simp: ending_def)
  next
    assume "0 < unmaps h"
    then have "(0 < unmaps (hdr s)) \<or> pcs s t = Unmapping"
      using maps(2) by fastforce
    then have "\<not> owner_set (hdr s) \<and> bytes_used (hdr s) = 0"
      using ends assms(3) by (auto simp: ending_def)
    then show "\<not> owner_set h" "bytes_used h = 0"
      using own down by auto
  next
    assume a: "\<not> owner_set h" "bytes_used h = 0"
    show "0 < unmaps h \<or> (\<exists>u<N. (if u = t then p else pcs s u) \<noteq> Outside)"
      using out [OF _ a] assms(4) by (cases "p = Outside") auto
  qed
qed

text \<open>The beginning of a call, by a thread outside.\<close>

lemma drop_use_simps [simp]:
  "owner_set (drop_use n h) = owner_set h" "bytes_used (drop_use n h) = bytes_used h" "unmaps (drop_use n h) = unmaps h"
  "deferred (drop_use n h) = deferred h"
  by (simp_all add: drop_use_def)

lemma enter_counted:
  assumes "counted N s" "t < N" "N < 2 ^ 64" "pcs s t = Outside" "inside p" "sized p"
    "(pending p = 0 \<and> h = hdr s) \<or> (pending p \<in># in_use (hdr s) \<and> h = drop_use (pending p) (hdr s))"
  shows "counted N (move t p (enter h) s)"
proof (rule counted_move [OF assms(1,2)])
  have "in_flight (hdr s) < N"
    using flight_bounds(3) [OF assms(1-3)] assms(4) by simp
  then have "in_flight h + 1 < 2 ^ 64" "in_flight h = in_flight (hdr s)"
    using assms(3,7) by (auto simp: drop_use_def)
  then show "in_flight (enter h) + of_bool (inside (pcs s t)) = in_flight (hdr s) + of_bool (inside p)"
    using assms(4,5) by (simp add: enter_def add64_eq)
  have "known_bytes h + pending p = known_bytes (hdr s)"
    using assms(7) by (auto simp: known_bytes_def drop_use_def dest!: multi_member_split)
  then show "bytes_used (enter h) + known_bytes (hdr s) + pending (pcs s t) = bytes_used (hdr s) + known_bytes (enter h) + pending p"
    using assms(4,7) by (auto simp: enter_def drop_use_def known_bytes_def)
  have "\<forall>n \<in># in_use (hdr s). 0 < n" "bytes_used (hdr s) < 2 ^ 64"
    using assms(1) by (simp_all add: counted_def)
  then show "bytes_used (enter h) < 2 ^ 64" "\<forall>n \<in># in_use (enter h). 0 < n" "sized p"
    using assms(6,7) by (auto simp: enter_def drop_use_def dest!: in_diffD)
qed

lemma enter_ending:
  assumes "ending N s" "t < N" "pcs s t = Outside" "inside p" "owner_set h = owner_set (hdr s)" "bytes_used h = bytes_used (hdr s)"
    "unmaps h = unmaps (hdr s)" "deferred h = deferred (hdr s)"
  shows "ending N (move t p (enter h) s)"
proof -
  have same: "owner_set (enter h) = owner_set (hdr s)" "bytes_used (enter h) = bytes_used (hdr s)" "unmaps (enter h) = unmaps (hdr s)"
    "deferred (enter h) = deferred (hdr s)"
    using assms(5-8) by (simp_all add: enter_def)
  have p: "p \<noteq> Outside" "p \<notin> {AskBytes, Unmapping}" "p \<noteq> Unmapping"
    using assms(4) by auto
  have "\<exists>u<N. collects k (if u = t then p else pcs s u)" if "\<exists>u<N. collects k (pcs s u)" for k
    using that assms(3) by auto
  then show ?thesis
    using assms(1) p assms(2) unfolding ending_def move_simps fun_upd_apply same by (intro conjI) (simp_all, blast+)
qed

lemma enter_owned:
  assumes "owned N s" "pcs s t = Outside" "p \<noteq> Closing" "allocating p \<longrightarrow> t = 0 \<and> handle s" "owner_set h = owner_set (hdr s)"
  shows "owned N (move t p (enter h) s)"
  using assms by (auto simp: owned_def enter_def)

lemma close_keeps:
  assumes "counted N s" "owned N s" "ending N s" "0 < N" "N < 2 ^ 64" "pcs s 0 = Outside" "handle s"
  shows "counted N (move 0 Closing (enter (hdr s)) (s\<lparr>handle := False\<rparr>))" "owned N (move 0 Closing (enter (hdr s)) (s\<lparr>handle := False\<rparr>))"
    "ending N (move 0 Closing (enter (hdr s)) (s\<lparr>handle := False\<rparr>))"
proof -
  have same: "counted N (s\<lparr>handle := False\<rparr>)" "ending N (s\<lparr>handle := False\<rparr>)"
    using assms(1,3) by (simp_all add: counted_def ending_def)
  show "counted N (move 0 Closing (enter (hdr s)) (s\<lparr>handle := False\<rparr>))"
    using enter_counted [OF same(1) assms(4,5), of Closing "hdr s"] assms(6) by simp
  show "ending N (move 0 Closing (enter (hdr s)) (s\<lparr>handle := False\<rparr>))"
    using enter_ending [OF same(2) assms(4), of Closing "hdr s"] assms(6) by simp
  have "\<not> allocating (pcs s t)" if "t < N" for t
    using assms(2,6) that by (auto simp: owned_def)
  then show "owned N (move 0 Closing (enter (hdr s)) (s\<lparr>handle := False\<rparr>))"
    using assms(2,7) by (auto simp: owned_def enter_def)
qed

lemma occur_keeps:
  assumes "counted N s" "owned N s" "ending N s" "0 < N" "N < 2 ^ 64" "occur N e s = Some s'"
  shows "counted N s' \<and> owned N s' \<and> ending N s'"
proof -
  note enters = enter_counted [OF assms(1) _ assms(5)] enter_owned [OF assms(2)] enter_ending [OF assms(3)]
  show ?thesis
  proof (cases e)
    case (Allocate drain n)
    then show ?thesis
      using assms(4,6) enters [where t = 0 and h = "hdr s"] by (auto split: if_splits)
  next
    case Refuse
    then show ?thesis
      using assms(4,6) enters [where t = 0 and h = "hdr s"] by (auto split: if_splits)
  next
    case (Local n)
    then show ?thesis
      using assms(4,6) enters [where t = 0 and h = "drop_use n (hdr s)"] by (auto split: if_splits)
  next
    case (Remote t n b)
    then show ?thesis
      using assms(6) enters [where t = t and h = "drop_use n (hdr s)"] by (auto split: if_splits)
  next
    case Close
    then show ?thesis
      using assms(6) close_keeps [OF assms(1-5)] by (auto split: if_splits)
  next
    case (Advance t)
    then have t: "t < N" "pcs s t \<noteq> Outside" "has_room (pcs s t) (hdr s)"
      using assms(6) by (auto split: if_splits)
    obtain p h where a: "advance (pcs s t) (hdr s) = (p, h)"
      by force
    then have "s' = move t p h s"
      using assms(6) t Advance by simp
    then show ?thesis
      using advance_counted [OF assms(1) t(1) assms(5) t(2,3) a] advance_owned [OF assms(2) t(1,2) a]
        advance_ending [OF assms(1-3) t(1) assms(5) t(2) a] by simp
  qed
qed

lemma reached_keeps:
  assumes "reached N s" "0 < N" "N < 2 ^ 64"
  shows "counted N s \<and> owned N s \<and> ending N s"
  using assms(1)
proof (induction rule: reached.induct)
  case new
  then show ?case
    by (simp add: counted_def owned_def ending_def new_threads_def known_bytes_def)
next
  case (event s e s')
  then show ?case
    using occur_keeps [OF _ _ _ assms(2,3)] by blast
qed

section \<open>The end of an address space\<close>

text \<open>C7.  In every order of the accesses, on a sequentially consistent memory, the counter of calls in flight is
  the number of threads inside a guard, the counter of bytes is what is held, deferred or about to be
  subtracted, and once the space has been unmapped the owner is gone and nothing is held or deferred.\<close>

theorem unmapped_after_use:
  assumes "reached N s" "0 < N" "N < 2 ^ 64"
  shows "in_flight (hdr s) = card {t. t < N \<and> inside (pcs s t)} \<and>
    bytes_used (hdr s) = sum_mset (in_use (hdr s)) + sum_list (deferred (hdr s) True) + sum_list (deferred (hdr s) False) + (\<Sum>t<N. pending (pcs s t)) \<and>
    (0 < unmaps (hdr s) \<longrightarrow> \<not> owner_set (hdr s) \<and> in_use (hdr s) = {#} \<and> sum_list (deferred (hdr s) True) = 0 \<and> sum_list (deferred (hdr s) False) = 0)"
proof -
  note inv = reached_keeps [OF assms]
  then have c: "counted N s" "ending N s"
    by simp_all
  have flight: "in_flight (hdr s) = card {t. t < N \<and> inside (pcs s t)}"
    using c(1) by (simp add: counted_def sum.If_cases of_bool_def lessThan_def Collect_conj_eq [symmetric] conj_commute)
  have bytes: "bytes_used (hdr s) = sum_mset (in_use (hdr s)) + sum_list (deferred (hdr s) True) + sum_list (deferred (hdr s) False) + (\<Sum>t<N. pending (pcs s t))"
    using c(1) by (simp add: counted_def known_bytes_def)
  have none: "in_use (hdr s) = {#}" if "sum_mset (in_use (hdr s)) = 0"
    using that c(1) by (cases "in_use (hdr s)") (auto simp: counted_def)
  have "\<not> owner_set (hdr s) \<and> bytes_used (hdr s) = 0" if "0 < unmaps (hdr s)"
    using that c(2) by (simp add: ending_def)
  then show ?thesis
    using flight bytes none by auto
qed

text \<open>C8.  On a sequentially consistent memory (the source asks for release and acquire only), no request is lost
  and no space is forgotten: when the owner has gone and no thread is in a call, both stacks are empty, the
  counter of bytes is what is still held, and if that is nothing the space has been unmapped.\<close>

theorem teardown_complete:
  assumes "reached N s" "0 < N" "N < 2 ^ 64" "\<not> handle s" "\<forall>t<N. pcs s t = Outside"
  shows "deferred (hdr s) True = [] \<and> deferred (hdr s) False = [] \<and> bytes_used (hdr s) = sum_mset (in_use (hdr s)) \<and>
    (in_use (hdr s) = {#} \<longrightarrow> 0 < unmaps (hdr s))"
proof -
  have c: "counted N s" "owned N s" "ending N s"
    using reached_keeps [OF assms(1-3)] by simp_all
  have gone: "\<not> owner_set (hdr s)"
    using c(2) assms(2,4,5) by (simp add: owned_def)
  then have empty: "deferred (hdr s) k = []" for k
    using c(3) assms(5) by (force simp: ending_def)
  then have "bytes_used (hdr s) = sum_mset (in_use (hdr s))"
    using c(1) assms(5) by (simp add: counted_def known_bytes_def)
  then show ?thesis
    using gone empty c(3) assms(5) by (auto simp: ending_def)
qed

text \<open>Two threads release the last two regions after the owner has gone, and both find themselves the last call.\<close>

definition double_run :: "event list" where
  "double_run =
     [Allocate False 8, Advance 0, Advance 0, Allocate False 16, Advance 0, Advance 0,
      Close, Advance 0, Advance 0, Advance 0, Advance 0, Advance 0, Advance 0, Advance 0, Advance 0,
      Remote 1 8 True, Advance 1, Advance 1, Advance 1, Remote 2 16 True, Advance 2, Advance 2]"

lemma double_run_end:
  "\<exists>s. occur_all 3 double_run new_threads = Some s \<and> pcs s 1 = AskOwner \<and> pcs s 2 = Taking [] Leave \<and> \<not> owner_set (hdr s) \<and>
     bytes_used (hdr s) = 0 \<and> in_flight (hdr s) = 1 \<and> unmaps (hdr s) = 0"
  by (simp add: double_run_def new_threads_def move_def step_defs add64_def sub64_def Let_def)

lemma races_run:
  "(\<exists>s. reached 3 s \<and> unmaps (hdr s) = 2) \<and> (\<exists>s. reached 3 s \<and> unmaps (hdr s) = 1 \<and> inside (pcs s 2))"
proof -
  obtain s where s: "occur_all 3 double_run new_threads = Some s" "pcs s 1 = AskOwner" "pcs s 2 = Taking [] Leave" "\<not> owner_set (hdr s)"
    "bytes_used (hdr s) = 0" "in_flight (hdr s) = 1" "unmaps (hdr s) = 0"
    using double_run_end by blast
  have r: "reached 3 s"
    by (rule occur_all_reached [OF reached.new s(1)])
  have "\<exists>s'. occur_all 3 [Advance 2, Advance 1, Advance 1, Advance 1, Advance 2, Advance 2, Advance 2] s = Some s' \<and> unmaps (hdr s') = 2"
    "\<exists>s'. occur_all 3 [Advance 1, Advance 1, Advance 1] s = Some s' \<and> unmaps (hdr s') = 1 \<and> inside (pcs s' 2)"
    using s(2-7) by (simp_all add: move_def step_defs)
  then show ?thesis
    using occur_all_reached [OF r] by blast
qed

text \<open>C9.  The test of a leaving call is not atomic: two calls can each find themselves the last one and unmap the space twice,
  and the space can be unmapped while another call is inside its guard.\<close>

theorem unmap_races:
  "(\<exists>s. reached 3 s \<and> unmaps (hdr s) = 2) \<and> (\<exists>s. reached 3 s \<and> unmaps (hdr s) = 1 \<and> inside (pcs s 2))"
  by (rule races_run)

lemma unmapped_after_use_witness: "\<exists>s. reached 3 s \<and> unmaps (hdr s) = 1 \<and> \<not> owner_set (hdr s) \<and> in_use (hdr s) = {#}"
proof -
  obtain s where "reached 3 s" "unmaps (hdr s) = 1"
    using races_run by blast
  then show ?thesis
    using unmapped_after_use [of 3 s] by auto
qed

text \<open>An owner that ends without having allocated unmaps its space.\<close>

definition end_run :: "event list" where
  "end_run = [Close, Advance 0, Advance 0, Advance 0, Advance 0, Advance 0, Advance 0, Advance 0, Advance 0, Advance 0]"

lemma end_run_end: "\<exists>s. occur_all 1 end_run new_threads = Some s \<and> \<not> handle s \<and> pcs s 0 = Outside \<and> in_use (hdr s) = {#}"
  by (simp add: end_run_def new_threads_def move_def step_defs add64_def sub64_def Let_def)

lemma teardown_complete_witness: "\<exists>s. reached 1 s \<and> deferred (hdr s) True = [] \<and> 0 < unmaps (hdr s)"
proof -
  obtain s where s: "occur_all 1 end_run new_threads = Some s" "\<not> handle s" "pcs s 0 = Outside" "in_use (hdr s) = {#}"
    using end_run_end by blast
  have "reached 1 s"
    by (rule occur_all_reached [OF reached.new s(1)])
  then show ?thesis
    using teardown_complete [of 1 s] s(2-4) by (intro exI [of _ s]) simp
qed

end
