(* ===== verification/AllocChunks.thy ===== *)
theory AllocChunks
  imports AllocNodes
begin

text \<open>
  The ledger of a Windows build: the public partition in chunks of 255 pages, each with a counter of 8 bits of
  its pages in use, which tells which chunks have to be committed before an allocation and can be decommitted after
  a release.
\<close>

section \<open>The operations\<close>

abbreviation CHUNK_WIDTH :: nat where "CHUNK_WIDTH \<equiv> 255"

text \<open>The loops over the chunks after the first one; a counter holds 8 bits.\<close>

fun fill_chunks :: "nat \<Rightarrow> nat \<Rightarrow> (nat \<Rightarrow> nat) \<Rightarrow> nat \<Rightarrow> nat" where
  "fill_chunks i n chunks = (
     if n = 0 then chunks
     else if n < CHUNK_WIDTH then chunks(i := (chunks i + n) mod 2 ^ 8)
     else fill_chunks (i + 1) (n - CHUNK_WIDTH) (chunks(i := CHUNK_WIDTH)))"

fun clear_chunks :: "nat \<Rightarrow> nat \<Rightarrow> (nat \<Rightarrow> nat) \<Rightarrow> nat \<Rightarrow> nat" where
  "clear_chunks i n chunks = (
     if n = 0 then chunks
     else if n < CHUNK_WIDTH then chunks(i := (chunks i + (2 ^ 8 - n)) mod 2 ^ 8)
     else clear_chunks (i + 1) (n - CHUNK_WIDTH) (chunks(i := 0)))"

declare fill_chunks.simps [simp del] clear_chunks.simps [simp del]

definition chunk_increment :: "nat \<Rightarrow> nat \<Rightarrow> (nat \<Rightarrow> nat) \<Rightarrow> nat \<Rightarrow> nat" where
  "chunk_increment off n chunks = (
     let i = off div CHUNK_WIDTH; m = min n (CHUNK_WIDTH - off mod CHUNK_WIDTH)
     in fill_chunks (i + 1) (n - m) (chunks(i := (chunks i + m) mod 2 ^ 8)))"

definition chunk_decrement :: "nat \<Rightarrow> nat \<Rightarrow> (nat \<Rightarrow> nat) \<Rightarrow> nat \<Rightarrow> nat" where
  "chunk_decrement off n chunks = (
     let i = off div CHUNK_WIDTH; m = min n (CHUNK_WIDTH - off mod CHUNK_WIDTH)
     in clear_chunks (i + 1) (n - m) (chunks(i := (chunks i + (2 ^ 8 - m)) mod 2 ^ 8)))"

definition chunk_interval :: "nat \<Rightarrow> nat \<Rightarrow> nat \<Rightarrow> (nat \<Rightarrow> nat) \<Rightarrow> nat \<times> nat" where
  "chunk_interval pub off n chunks = (
     let start = off div CHUNK_WIDTH;
         start = start + (if 0 < chunks start then 1 else 0);
         start = start * CHUNK_WIDTH mod 2 ^ 32;
         s = add32 off n;
         stop = s div CHUNK_WIDTH;
         stop = stop + (if s mod CHUNK_WIDTH \<noteq> 0 \<and> chunks stop = 0 then 1 else 0);
         stop = min (stop * CHUNK_WIDTH mod 2 ^ 32) pub
     in (start, stop))"

text \<open>The calls of the system, as offset and number of pages.\<close>

definition chunk_commit :: "nat \<Rightarrow> nat \<Rightarrow> nat \<Rightarrow> (nat \<Rightarrow> nat) \<Rightarrow> (nat \<times> nat) list" where
  "chunk_commit pub off n chunks = (
     let (start, stop) = chunk_interval pub off n chunks in if start < stop then [(start, stop - start)] else [])"

definition chunk_decommit :: "nat \<Rightarrow> nat \<Rightarrow> nat \<Rightarrow> (nat \<Rightarrow> nat) \<Rightarrow> (nat \<times> nat) list" where
  "chunk_decommit pub off n chunks = (
     let (start, stop) = chunk_interval pub off n chunks in if start < stop then [(start, stop - start)] else [])"

lemma byte_down:
  assumes "m \<le> c" "c \<le> CHUNK_WIDTH"
  shows "(c + (2 ^ 8 - m)) mod 2 ^ 8 = c - m"
proof -
  have "c + (2 ^ 8 - m) = 2 ^ 8 + (c - m)"
    using assms by simp
  then show ?thesis
    using assms by (simp only: mod_add_self1) simp
qed

section \<open>The ledger counts the pages in use\<close>

definition chunk :: "nat \<Rightarrow> nat set" where
  "chunk i = {i * CHUNK_WIDTH..<i * CHUNK_WIDTH + CHUNK_WIDTH}"

definition ledger :: "nat set \<Rightarrow> nat \<Rightarrow> nat" where
  "ledger U i = card (U \<inter> chunk i)"

lemma chunk_iff: "k \<in> chunk i \<longleftrightarrow> k div CHUNK_WIDTH = i"
  unfolding chunk_def by auto

lemma finite_chunk [simp]: "finite (chunk i)" "finite (U \<inter> chunk i)" "card (chunk i) = CHUNK_WIDTH"
  by (simp_all add: chunk_def)

lemma ledger_le: "ledger U i \<le> CHUNK_WIDTH"
  using card_mono [of "chunk i" "U \<inter> chunk i"] by (simp add: ledger_def)

lemma ledger_add: "U \<inter> V = {} \<Longrightarrow> ledger (U \<union> V) i = ledger U i + ledger V i"
  unfolding ledger_def by (subst card_Un_disjoint [symmetric]) (auto simp: Int_Un_distrib2)

lemma ledger_diff: "V \<subseteq> U \<Longrightarrow> ledger (U - V) i = ledger U i - ledger V i"
  unfolding ledger_def by (subst card_Diff_subset [symmetric]) (auto intro: arg_cong [where f = card])

lemma ledger_empty [simp]: "ledger {} i = 0"
  by (simp add: ledger_def)

text \<open>An interval inside of one chunk, and its parts in a longer one.\<close>

lemma in_chunk: "r < CHUNK_WIDTH \<Longrightarrow> (CHUNK_WIDTH * q + r) div CHUNK_WIDTH = q \<and> (CHUNK_WIDTH * q + r) mod CHUNK_WIDTH = r"
  by simp

lemma chunk_cases:
  obtains q r where "a = CHUNK_WIDTH * q + r" "r < CHUNK_WIDTH" "a div CHUNK_WIDTH = q" "a mod CHUNK_WIDTH = r"
  using mult_div_mod_eq [of CHUNK_WIDTH a] by (metis mod_less_divisor zero_less_numeral)

lemma ledger_part:
  assumes "a mod CHUNK_WIDTH + n \<le> CHUNK_WIDTH"
  shows "ledger {a..<a + n} i = (if i = a div CHUNK_WIDTH then n else 0)"
proof -
  obtain q r where a: "a = CHUNK_WIDTH * q + r" "r < CHUNK_WIDTH" "a div CHUNK_WIDTH = q" "a mod CHUNK_WIDTH = r"
    by (rule chunk_cases)
  have "x div CHUNK_WIDTH = q" if "x \<in> {a..<a + n}" for x
  proof -
    have "x = CHUNK_WIDTH * q + (r + (x - a))" "r + (x - a) < CHUNK_WIDTH"
      using that assms unfolding a(4) unfolding a(1) by auto
    then show ?thesis
      by (metis in_chunk)
  qed
  then have "{a..<a + n} \<inter> chunk i = (if i = q then {a..<a + n} else {})"
    by (auto simp: chunk_iff)
  then show ?thesis
    by (simp add: ledger_def a(3))
qed

lemma ledger_split:
  assumes "m \<le> n"
  shows "ledger {a..<a + n} i = ledger {a..<a + m} i + ledger {a + m..<a + n} i"
proof -
  have "{a..<a + n} = {a..<a + m} \<union> {a + m..<a + n}" "{a..<a + m} \<inter> {a + m..<a + n} = {}"
    using assms by auto
  then show ?thesis
    by (simp add: ledger_add)
qed

lemma fill_chunks_spec:
  assumes "\<forall>j. chunks j + ledger {i * CHUNK_WIDTH..<i * CHUNK_WIDTH + n} j \<le> CHUNK_WIDTH"
  shows "fill_chunks i n chunks j = chunks j + ledger {i * CHUNK_WIDTH..<i * CHUNK_WIDTH + n} j"
  using assms
proof (induction i n chunks rule: fill_chunks.induct)
  case (1 i n chunks)
  let ?a = "i * CHUNK_WIDTH"
  show ?case
  proof (cases "n < CHUNK_WIDTH")
    case True
    then have "ledger {?a..<?a + n} j = (if j = i then n else 0)" for j
      using ledger_part [of ?a n j] by simp
    then show ?thesis
      using spec [OF 1(2), of i] True by (simp add: fill_chunks.simps [of i n])
  next
    case False
    define R where "R = ledger {(i + 1) * CHUNK_WIDTH..<(i + 1) * CHUNK_WIDTH + (n - CHUNK_WIDTH)}"
    let ?c = "chunks(i := CHUNK_WIDTH)"
    have full: "ledger {?a..<?a + n} j = (if j = i then CHUNK_WIDTH else 0) + R j" for j
      using ledger_split [of CHUNK_WIDTH n ?a j] ledger_part [of ?a CHUNK_WIDTH j] False by (simp add: R_def add.commute)
    have le: "chunks j + (if j = i then CHUNK_WIDTH else 0) + R j \<le> CHUNK_WIDTH" for j
      using spec [OF 1(2), of j] unfolding full by (simp only: add.assoc)
    then have c: "?c j = chunks j + (if j = i then CHUNK_WIDTH else 0)" for j
      using le [of i] by simp
    have n: "n \<noteq> 0" "\<not> n < CHUNK_WIDTH"
      using False by simp_all
    have bound: "\<forall>j. ?c j + R j \<le> CHUNK_WIDTH"
      unfolding c using le by blast
    have "fill_chunks (i + 1) (n - CHUNK_WIDTH) ?c j = ?c j + R j"
      by (rule 1(1) [OF n bound [unfolded R_def], folded R_def])
    then show ?thesis
      unfolding fill_chunks.simps [of i n] full c if_not_P [OF n(1)] if_not_P [OF n(2)] by (simp only: add.assoc)
  qed
qed

lemma clear_chunks_spec:
  assumes "\<forall>j. ledger {i * CHUNK_WIDTH..<i * CHUNK_WIDTH + n} j \<le> chunks j \<and> chunks j \<le> CHUNK_WIDTH"
  shows "clear_chunks i n chunks j = chunks j - ledger {i * CHUNK_WIDTH..<i * CHUNK_WIDTH + n} j"
  using assms
proof (induction i n chunks rule: clear_chunks.induct)
  case (1 i n chunks)
  let ?a = "i * CHUNK_WIDTH"
  show ?case
  proof (cases "n < CHUNK_WIDTH")
    case True
    then have part: "ledger {?a..<?a + n} j = (if j = i then n else 0)" for j
      using ledger_part [of ?a n j] by simp
    have "n \<le> chunks i" "chunks i \<le> CHUNK_WIDTH"
      using spec [OF 1(2), of i] by (simp_all add: part)
    note down = byte_down [OF this]
    show ?thesis
      unfolding clear_chunks.simps [of i n] part down using True by simp
  next
    case False
    define R where "R = ledger {(i + 1) * CHUNK_WIDTH..<(i + 1) * CHUNK_WIDTH + (n - CHUNK_WIDTH)}"
    let ?c = "chunks(i := 0)"
    have full: "ledger {?a..<?a + n} j = (if j = i then CHUNK_WIDTH else 0) + R j" for j
      using ledger_split [of CHUNK_WIDTH n ?a j] ledger_part [of ?a CHUNK_WIDTH j] False by (simp add: R_def add.commute)
    have le: "(if j = i then CHUNK_WIDTH else 0) + R j \<le> chunks j" "chunks j \<le> CHUNK_WIDTH" for j
      using spec [OF 1(2), of j] unfolding full by simp_all
    then have c: "?c j = chunks j - (if j = i then CHUNK_WIDTH else 0)" for j
      using le [of i] by simp
    have n: "n \<noteq> 0" "\<not> n < CHUNK_WIDTH"
      using False by simp_all
    have bound: "\<forall>j. R j \<le> ?c j \<and> ?c j \<le> CHUNK_WIDTH"
    proof
      fix j
      show "R j \<le> ?c j \<and> ?c j \<le> CHUNK_WIDTH"
        using le [of j] by (cases "j = i") simp_all
    qed
    have "clear_chunks (i + 1) (n - CHUNK_WIDTH) ?c j = ?c j - R j"
      by (rule 1(1) [OF n bound [unfolded R_def], folded R_def])
    then show ?thesis
      unfolding clear_chunks.simps [of i n] full c if_not_P [OF n(1)] if_not_P [OF n(2)] by (simp only: diff_diff_left)
  qed
qed

text \<open>The first chunk of a run, and the rest of it.\<close>

lemma ledger_first:
  assumes "m = min n (CHUNK_WIDTH - off mod CHUNK_WIDTH)" "i = off div CHUNK_WIDTH"
  shows "ledger {off..<off + n} j = (if j = i then m else 0) + ledger {(i + 1) * CHUNK_WIDTH..<(i + 1) * CHUNK_WIDTH + (n - m)} j"
proof -
  obtain r where off: "off = CHUNK_WIDTH * i + r" "r < CHUNK_WIDTH" "off mod CHUNK_WIDTH = r"
    by (rule chunk_cases [of off]) (use assms(2) in simp)
  have m: "m = min n (CHUNK_WIDTH - r)"
    using assms(1) by (simp only: off(3))
  have "r + m \<le> CHUNK_WIDTH"
    using off(2) m by simp
  then have part: "ledger {off..<off + m} j = (if j = i then m else 0)"
    using ledger_part [of off m j] by (simp only: off(3) assms(2))
  have rest: "ledger {off + m..<off + n} j = ledger {(i + 1) * CHUNK_WIDTH..<(i + 1) * CHUNK_WIDTH + (n - m)} j"
  proof (cases "n \<le> CHUNK_WIDTH - r")
    case True
    then show ?thesis
      by (simp add: m)
  next
    case False
    then have "off + m = (i + 1) * CHUNK_WIDTH" "off + n = (i + 1) * CHUNK_WIDTH + (n - m)"
      using off(1,2) by (simp_all add: m)
    then show ?thesis
      by (simp only:)
  qed
  show ?thesis
    using ledger_split [of m n off j] part rest m by simp
qed

lemma increment_ledger:
  assumes "U \<inter> {off..<off + n} = {}"
  shows "chunk_increment off n (ledger U) = ledger (U \<union> {off..<off + n})"
proof
  fix j
  let ?i = "off div CHUNK_WIDTH" and ?m = "min n (CHUNK_WIDTH - off mod CHUNK_WIDTH)"
  let ?R = "{(?i + 1) * CHUNK_WIDTH..<(?i + 1) * CHUNK_WIDTH + (n - ?m)}"
  let ?c = "(ledger U)(?i := (ledger U ?i + ?m) mod 2 ^ 8)"
  have sum: "ledger U j + ((if j = ?i then ?m else 0) + ledger ?R j) = ledger (U \<union> {off..<off + n}) j" for j
    unfolding ledger_first [OF refl refl, of off n j, symmetric] by (rule ledger_add [OF assms, symmetric])
  then have le: "ledger U j + ((if j = ?i then ?m else 0) + ledger ?R j) \<le> CHUNK_WIDTH" for j
    using ledger_le by simp
  have c: "?c j = ledger U j + (if j = ?i then ?m else 0)" for j
    using le [of ?i] by simp
  have "fill_chunks (?i + 1) (n - ?m) ?c j = ?c j + ledger ?R j"
    by (rule fill_chunks_spec) (use le c in \<open>simp add: add.assoc\<close>)
  then show "chunk_increment off n (ledger U) j = ledger (U \<union> {off..<off + n}) j"
    unfolding chunk_increment_def Let_def using c sum [of j] by (simp only: add.assoc)
qed

lemma decrement_ledger:
  assumes "{off..<off + n} \<subseteq> U"
  shows "chunk_decrement off n (ledger U) = ledger (U - {off..<off + n})"
proof
  fix j
  let ?i = "off div CHUNK_WIDTH" and ?m = "min n (CHUNK_WIDTH - off mod CHUNK_WIDTH)"
  let ?R = "{(?i + 1) * CHUNK_WIDTH..<(?i + 1) * CHUNK_WIDTH + (n - ?m)}"
  let ?c = "(ledger U)(?i := (ledger U ?i + (2 ^ 8 - ?m)) mod 2 ^ 8)"
  have run: "(if j = ?i then ?m else 0) + ledger ?R j = ledger {off..<off + n} j" for j
    by (rule ledger_first [OF refl refl, symmetric])
  have le: "(if j = ?i then ?m else 0) + ledger ?R j \<le> ledger U j \<and> ledger U j \<le> CHUNK_WIDTH" for j
    unfolding run using assms by (auto simp: ledger_def intro!: card_mono ledger_le [unfolded ledger_def])
  have "?m \<le> ledger U ?i" "ledger U ?i \<le> CHUNK_WIDTH"
    using le [of ?i] by simp_all
  note down = byte_down [OF this]
  have c: "?c j = ledger U j - (if j = ?i then ?m else 0)" for j
    unfolding down by simp
  have "clear_chunks (?i + 1) (n - ?m) ?c j = ?c j - ledger ?R j"
  proof (rule clear_chunks_spec, intro allI)
    fix j
    show "ledger ?R j \<le> ?c j \<and> ?c j \<le> CHUNK_WIDTH"
      unfolding c using le [of j] by linarith
  qed
  moreover have "ledger U j - (if j = ?i then ?m else 0) - ledger ?R j = ledger (U - {off..<off + n}) j"
    unfolding ledger_diff [OF assms] run [symmetric] by simp
  ultimately show "chunk_decrement off n (ledger U) j = ledger (U - {off..<off + n}) j"
    unfolding chunk_decrement_def Let_def using c [of j] by (simp only:)
qed

section \<open>Which chunks the calls of the system concern\<close>

text \<open>The interval of a run of free pages covers the chunks that meet it and have no page in use.\<close>

lemma chunk_div: "j * CHUNK_WIDTH \<le> k \<Longrightarrow> k < (j + 1) * CHUNK_WIDTH \<Longrightarrow> k div CHUNK_WIDTH = j"
  by (intro div_nat_eqI) (simp_all add: mult.commute)

lemma last_chunk:
  assumes "0 < stop"
  shows "(stop - 1) div CHUNK_WIDTH * CHUNK_WIDTH < stop" "stop \<le> ((stop - 1) div CHUNK_WIDTH + 1) * CHUNK_WIDTH"
    "stop mod CHUNK_WIDTH = 0 \<Longrightarrow> stop = ((stop - 1) div CHUNK_WIDTH + 1) * CHUNK_WIDTH \<and> stop div CHUNK_WIDTH = (stop - 1) div CHUNK_WIDTH + 1"
    "stop mod CHUNK_WIDTH \<noteq> 0 \<Longrightarrow> stop div CHUNK_WIDTH = (stop - 1) div CHUNK_WIDTH"
proof -
  obtain q r where s: "stop = CHUNK_WIDTH * q + r" "r < CHUNK_WIDTH" "stop div CHUNK_WIDTH = q" "stop mod CHUNK_WIDTH = r"
    by (rule chunk_cases)
  have l: "(stop - 1) div CHUNK_WIDTH = (if r = 0 then q - 1 else q)" "r = 0 \<Longrightarrow> 0 < q"
    using assms s(1,2) by (auto intro!: chunk_div simp: algebra_simps)
  then show "(stop - 1) div CHUNK_WIDTH * CHUNK_WIDTH < stop" "stop \<le> ((stop - 1) div CHUNK_WIDTH + 1) * CHUNK_WIDTH"
    "stop mod CHUNK_WIDTH = 0 \<Longrightarrow> stop = ((stop - 1) div CHUNK_WIDTH + 1) * CHUNK_WIDTH \<and> stop div CHUNK_WIDTH = (stop - 1) div CHUNK_WIDTH + 1"
    "stop mod CHUNK_WIDTH \<noteq> 0 \<Longrightarrow> stop div CHUNK_WIDTH = (stop - 1) div CHUNK_WIDTH"
    unfolding s(3,4) l(1) using s(1,2) assms by (cases "r = 0"; simp add: algebra_simps)+
qed

lemma interval_exact:
  assumes "U \<inter> {off..<off + n} = {}" "0 < n" "off + n \<le> pub" "pub + CHUNK_WIDTH \<le> 2 ^ 32"
  shows "{fst (chunk_interval pub off n (ledger U))..<snd (chunk_interval pub off n (ledger U))} =
    {k. k < pub \<and> ledger U (k div CHUNK_WIDTH) = 0 \<and> (\<exists>p \<in> {off..<off + n}. p div CHUNK_WIDTH = k div CHUNK_WIDTH)}"
proof -
  define stop where "stop = off + n"
  define f l where "f = off div CHUNK_WIDTH" and "l = (stop - 1) div CHUNK_WIDTH"
  define a b where "a = f + (if 0 < ledger U f then 1 else 0)"
    and "b = (if stop mod CHUNK_WIDTH = 0 then l + 1 else l + (if ledger U l = 0 then 1 else 0))"
  have stop: "0 < stop" "off < stop" "stop \<le> pub" "stop < 2 ^ 32"
    using assms(2-4) by (simp_all add: stop_def)
  note last = last_chunk [OF stop(1), folded l_def]
  have first: "f * CHUNK_WIDTH \<le> off" "off < (f + 1) * CHUNK_WIDTH"
    using div_times_less_eq_dividend [of off CHUNK_WIDTH] dividend_less_div_times [of CHUNK_WIDTH off] by (simp_all add: f_def)
  have fl: "f \<le> l"
    unfolding f_def l_def using stop(2) by (intro div_le_mono) simp
  have meet: "(\<exists>p \<in> {off..<off + n}. p div CHUNK_WIDTH = j) \<longleftrightarrow> f \<le> j \<and> j \<le> l" for j
  proof
    assume "\<exists>p \<in> {off..<off + n}. p div CHUNK_WIDTH = j"
    then obtain p where "off \<le> p" "p \<le> stop - 1" "p div CHUNK_WIDTH = j"
      by (auto simp: stop_def)
    then show "f \<le> j \<and> j \<le> l"
      unfolding f_def l_def by (auto intro: div_le_mono)
  next
    assume j: "f \<le> j \<and> j \<le> l"
    have "j * CHUNK_WIDTH \<le> l * CHUNK_WIDTH" "(f + 1) * CHUNK_WIDTH \<le> (j + 1) * CHUNK_WIDTH"
      using j by (intro mult_le_mono1; simp)+
    then have "max off (j * CHUNK_WIDTH) \<in> {off..<off + n}" "max off (j * CHUNK_WIDTH) div CHUNK_WIDTH = j"
      using last(1) first(2) stop(2) by (auto simp: stop_def intro!: chunk_div)
    then show "\<exists>p \<in> {off..<off + n}. p div CHUNK_WIDTH = j"
      by blast
  qed
  have inner: "ledger U j = 0" if "f < j" "(j + 1) * CHUNK_WIDTH \<le> stop" for j
  proof -
    have "(f + 1) * CHUNK_WIDTH \<le> j * CHUNK_WIDTH"
      using that(1) by (intro mult_le_mono1) simp
    then have "chunk j \<subseteq> {off..<off + n}"
      using first(2) that(2) by (auto simp: chunk_def stop_def)
    then show ?thesis
      using assms(1) by (auto simp: ledger_def)
  qed
  have index: "a \<le> j \<and> j < b \<longleftrightarrow> f \<le> j \<and> j \<le> l \<and> ledger U j = 0" for j
  proof -
    have middle: "ledger U j = 0" if "f < j" "j < l"
    proof (rule inner [OF that(1)])
      have "(j + 1) * CHUNK_WIDTH \<le> l * CHUNK_WIDTH"
        using that(2) by (intro mult_le_mono1) simp
      then show "(j + 1) * CHUNK_WIDTH \<le> stop"
        using last(1) by linarith
    qed
    have final: "ledger U l = 0" if "f < l" "stop mod CHUNK_WIDTH = 0"
      using inner [OF that(1)] last(3) [OF that(2)] by simp
    consider "j < f" | "j = f" "f = l" | "j = f" "f < l" | "f < j" "j < l" | "f < j" "j = l" | "l < j"
      using fl by linarith
    then show ?thesis
      by cases (use fl middle final in \<open>auto simp: a_def b_def\<close>)
  qed
  have "b * CHUNK_WIDTH \<le> (l + 1) * CHUNK_WIDTH" "a * CHUNK_WIDTH \<le> (l + 1) * CHUNK_WIDTH"
    using fl by (intro mult_le_mono1; simp add: a_def b_def)+
  then have small: "b * CHUNK_WIDTH < 2 ^ 32" "a * CHUNK_WIDTH < 2 ^ 32"
    using last(1) stop(3) assms(4) by simp_all
  have "chunk_interval pub off n (ledger U) = (a * CHUNK_WIDTH, min (b * CHUNK_WIDTH) pub)"
  proof -
    have "stop div CHUNK_WIDTH + (if stop mod CHUNK_WIDTH \<noteq> 0 \<and> ledger U (stop div CHUNK_WIDTH) = 0 then 1 else 0) = b"
      using last(3,4) by (cases "stop mod CHUNK_WIDTH = 0") (simp_all add: b_def)
    moreover have "add32 off n = stop"
      using stop(4) by (simp add: add32_eq stop_def)
    ultimately show ?thesis
      unfolding chunk_interval_def Let_def f_def [symmetric] a_def [symmetric] using small by (simp add: mod_less)
  qed
  then have interval: "{fst (chunk_interval pub off n (ledger U))..<snd (chunk_interval pub off n (ledger U))} = {a * CHUNK_WIDTH..<min (b * CHUNK_WIDTH) pub}"
    by simp
  have "k \<in> {a * CHUNK_WIDTH..<min (b * CHUNK_WIDTH) pub} \<longleftrightarrow> k < pub \<and> a \<le> k div CHUNK_WIDTH \<and> k div CHUNK_WIDTH < b" for k
    using less_eq_div_iff_mult_less_eq [of CHUNK_WIDTH a k] div_less_iff_less_mult [of CHUNK_WIDTH k b] by auto
  then show ?thesis
    unfolding interval meet using index by blast
qed

text \<open>The pages of the chunks with a page in use, which have to be committed, and the pages of a list of calls.\<close>

definition committed :: "nat \<Rightarrow> nat set \<Rightarrow> nat set" where
  "committed pub U = {k. k < pub \<and> 0 < ledger U (k div CHUNK_WIDTH)}"

definition called :: "(nat \<times> nat) list \<Rightarrow> nat set" where
  "called D = (\<Union>(off, n) \<in> set D. {off..<off + n})"

lemma called_interval:
  "called (chunk_commit pub off n chunks) = {fst (chunk_interval pub off n chunks)..<snd (chunk_interval pub off n chunks)}"
  "called (chunk_decommit pub off n chunks) = {fst (chunk_interval pub off n chunks)..<snd (chunk_interval pub off n chunks)}"
  by (cases "chunk_interval pub off n chunks"; simp add: called_def chunk_commit_def chunk_decommit_def)+

lemma ledger_meets: "0 < ledger V j \<longleftrightarrow> (\<exists>p \<in> V. p div CHUNK_WIDTH = j)"
  by (auto simp: ledger_def card_gt_0_iff chunk_iff)

lemma committed_Un: "committed pub (U \<union> V) = committed pub U \<union> committed pub V"
  by (auto simp: committed_def ledger_meets)

lemma called_exact:
  assumes "U \<inter> {off..<off + n} = {}" "0 < n" "off + n \<le> pub" "pub + CHUNK_WIDTH \<le> 2 ^ 32"
  shows "called (chunk_commit pub off n (ledger U)) = committed pub {off..<off + n} - committed pub U"
    "called (chunk_decommit pub off n (ledger U)) = committed pub {off..<off + n} - committed pub U"
  unfolding called_interval interval_exact [OF assms] ledger_meets [of "{off..<off + n}", symmetric]
  by (auto simp: committed_def)

lemma ledger_less: "ledger U i < 2 ^ 8"
  using ledger_le [of U i] by simp

section \<open>The contract of the ledger\<close>

text \<open>C15.  The ledger counts the pages in use of every chunk: adding a run of pages that are not in use, or removing one
  that is, however many chunks it spans, gives the ledger of the new set, and no counter overflows.\<close>

theorem ledger_counts:
  "(U \<inter> {off..<off + n} = {} \<longrightarrow> chunk_increment off n (ledger U) = ledger (U \<union> {off..<off + n})) \<and>
   ({off..<off + n} \<subseteq> U \<longrightarrow> chunk_decrement off n (ledger U) = ledger (U - {off..<off + n})) \<and>
   (\<forall>i. ledger U i < 2 ^ 8)"
  using increment_ledger [of U off n] decrement_ledger [of off n U] ledger_less by blast

lemma ledger_counts_witness:
  "chunk_increment 250 600 (ledger {}) = ledger {250..<850} \<and> chunk_decrement 250 600 (ledger {250..<850}) = ledger {}"
  using ledger_counts [of "{}" 250 600] ledger_counts [of "{250..<850}" 250 600] by simp

text \<open>C16.  Before an allocation exactly the pages are committed that have to be and are not; after a release of pages \<open>F\<close>, on the
  merged run of free pages around them, exactly the pages are decommitted whose chunk has no page in use any more,
  and none twice.\<close>

theorem commits_exact:
  assumes "U \<inter> {off..<off + n} = {}" "0 < n" "off + n \<le> pub" "pub + CHUNK_WIDTH \<le> 2 ^ 32" "F \<subseteq> {off..<off + n}"
  shows "called (chunk_commit pub off n (ledger U)) \<inter> committed pub U = {} \<and>
    committed pub U \<union> called (chunk_commit pub off n (ledger U)) = committed pub (U \<union> {off..<off + n}) \<and>
    called (chunk_decommit pub off n (ledger U)) \<inter> committed pub U = {} \<and>
    committed pub (U \<union> F) - called (chunk_decommit pub off n (ledger U)) = committed pub U"
proof -
  have "committed pub F \<subseteq> committed pub {off..<off + n}"
    using assms(5) by (auto simp: committed_def ledger_meets)
  then show ?thesis
    unfolding called_exact [OF assms(1-4)] committed_Un by auto
qed

lemma commits_exact_witness:
  "called (chunk_commit 1000 250 600 (ledger {0..<10})) \<inter> committed 1000 {0..<10} = {} \<and>
   committed 1000 ({0..<10} \<union> {300..<310}) - called (chunk_decommit 1000 250 600 (ledger {0..<10})) = committed 1000 {0..<10}"
  using commits_exact [of "{0..<10}" 250 600 1000 "{300..<310}"] by auto

end
