(* ===== verification/Spec2Isabelle.thy ===== *)
theory Spec2Isabelle
  imports DivOps IntPow Rounding Primes WordBits BitOps BitScan BitEdit BigWord BitArith BitMul BitDiv BitStrings BitPrint SignedInts UnsignedInts IntStrings AllocSpace AllocGuards AllocChunks
begin

text \<open>
  A verification library for the numeric core and the allocator of \<open>bertrand\<close>, a C++ library of language
  bindings whose numbers and memory are its own.  Modelled are three headers under \<open>src/bertrand\<close>:
  \<open>math.h\<close> (division strategies, powers, primes, bit tricks on words), \<open>bits.h\<close> (sets of bits of
  any width and the signed and unsigned integers over them) and \<open>allocate.h\<close> (the address space that each
  thread allocates from).

  \<^bold>\<open>How the parts interact.\<close>  The integers \<open>Int\<close> and \<open>UInt\<close> wrap a \<open>Bits\<close> and call its loops over words;
  these use the double-width products and quotients of \<open>impl::integer::big_word\<close>, and the power-of-two
  helpers of \<open>math.h\<close>.  Parsing and printing rest on multiplication and division of \<open>Bits\<close>.  The allocator
  stands apart: the handle of a thread (\<open>allocate\<close>, \<open>deallocate\<close>, \<open>reserve\<close>) serves small requests from
  slabs and others from runs of pages; slabs are runs of 32 pages themselves; runs are cut from free regions that
  a treap (by offset) and a heap (by size) index, and released runs wait in a batch until they are
  sorted and coalesced.  Other threads push their releases on two stacks that the owner drains.

  \<^bold>\<open>Theories and sources.\<close>

  \<^item> \<open>Prelude\<close>: the errors of \<open>except.h\<close>, results as sums, facts on integer division.  \<open>CInt\<close>: built-in
    integer types by width and signedness, with wrap-around and undefined behaviour as an error.
  \<^item> \<open>DivRound\<close>, \<open>DivOps\<close>: \<open>impl::math::div\<close> with its eleven strategies, and the objects \<open>div\<close>, \<open>mod\<close>,
    \<open>divmod\<close>.  \<open>Rounding\<close>: \<open>round\<close>.  \<open>IntPow\<close>: \<open>pow\<close> by squaring, and modulo.  \<open>Primes\<close>:
    multiplication modulo a word, Miller-Rabin, \<open>next_prime\<close>.  \<open>WordBits\<close>: powers of two, logarithms, reversal.
  \<^item> \<open>Limbs\<close>: the array of words behind \<open>Bits\<close> and its value.  \<open>BitOps\<close>: bitwise operators and
    shifts.  \<open>BitScan\<close>: queries, searches, indexing.  \<open>BitEdit\<close>: fill, flip, reverse, rotate.
    \<open>BigWord\<close>: the double word.  \<open>BitArith\<close>: comparison, sums, steps.  \<open>BitMul\<close>, \<open>BitDiv\<close>: products,
    deposits, quotients.  \<open>BitStrings\<close>, \<open>BitPrint\<close>: digits in and out.  \<open>SignedInts\<close>, \<open>UnsignedInts\<close>:
    the two wrappers.  \<open>IntStrings\<close>: their string conversions.
  \<^item> \<open>AllocNodes\<close>: the records of nodes and of the address space (the header of \<open>address_space_base\<close>).
    \<open>AllocTreap\<close>: \<open>treap_split\<close> to \<open>treap_next\<close>, with pointers to links as data.  \<open>AllocHeap\<close>:
    \<open>heap_swap\<close> to \<open>heap_fix\<close>.  \<open>AllocSort\<close>: \<open>insertion_sort\<close>, \<open>radix_sort\<close>.  \<open>AllocStore\<close>: \<open>get_node\<close>,
    \<open>put_node\<close> and the invariant that treap, heap, batch and free list share the nodes.  \<open>AllocCoalesce\<close>:
    \<open>cascade\<close>, \<open>coalesce\<close>.  \<open>AllocOrder\<close>: when coalescing keeps the heap in order.  \<open>AllocPages\<close>: \<open>page_bisect\<close>, \<open>page_deallocate\<close>, the parts of \<open>page_allocate\<close>
    and \<open>page_reserve\<close> that divide a region, the constructor.  \<open>AllocSlabs\<close>: size classes, slabs, remote
    frees.  \<open>AllocFree\<close>: release of blocks and drains keep the invariant.  \<open>AllocRequests\<close>:
    \<open>page_allocate\<close>, \<open>page_reserve\<close>, \<open>slab_allocate\<close> and the handle.  \<open>AllocSpace\<close>: the contract of the whole.
    \<open>AllocGuards\<close>: the guards \<open>acquire\<close> and \<open>release\<close>, the end of a thread and the accesses of remote frees to the shared
    fields, interleaved.  \<open>AllocChunks\<close>: the ledger \<open>chunk_increment\<close> to \<open>chunk_decommit\<close> of a Windows build.

  \<^bold>\<open>What the lemmas show.\<close>

  \<^item> Numbers: every strategy rounds the exact quotient as it names; powers and primality tests meet
    their mathematical definitions; each routine of \<open>Bits\<close> denotes the operation on numbers modulo its
    width, with its overflow flag, on every branch where it does; where it does not, the theorem names the
    operands (\<open>division_loses_word\<close>, \<open>divisor_alias\<close>, \<open>negative_prints_bits\<close>) or a lemma evaluates some.  \<open>composite_is_native\<close> gives one contract (the locale of \<open>BigWord\<close>) to the two
    double words; \<open>uint_refines\<close> is the refinement of arithmetic modulo a power of two by the wrapper, on the statements
    that \<open>run_exact\<close> admits; \<open>uint_padding_clear\<close> holds for all of them.
  \<^item> Allocator structures: treap edits correspond to edits of the tree that the links spell out; heap edits keep
    back links and order; the radix sort is the stable sort; the bisection finds a region that fits, unless a
    difference wraps (\<open>search_wraps\<close> shows what it returns then); coalescing keeps the heap in order unless it
    joins two free regions (\<open>joining_loses_order\<close>).
  \<^item> Allocator contract: an abstract state is the set of blocks and the set of pages in use.  \<open>holds\<close>
    relates it to an address space, through a role for every node (free, batched, slab, unused).
    \<open>request_step\<close> is the step relation of requests; \<open>reachable\<close> its closure from a new address space.  The
    locale \<open>held_contract\<close> states the invariant rule, and its interpretation on the model yields
    \<open>no_overlap\<close>.  Every request in a reachable state returns, refuses or serves as promised, and the counter
    of bytes is exact whenever no remote request waits.
  \<^item> Threads: the states that some order of atomic accesses reaches (\<open>reached\<close>), with an invariant of the counters and of who
    will take which stack.  No request is lost, and a space that is done with is unmapped, after its last use; but
    it can be unmapped twice.

  \<^bold>\<open>Modelling choices.\<close>  Words of \<open>Bits\<close> are lists of a word type of any length; the out parameters of the signed division are places in a
  store of objects (\<open>int_divmod_at\<close>), since they may be the same object as an operand; node indices, offsets and
  byte counts of the allocator are naturals with the wrap-around at 32 or 64 bits written out.  Exceptions
  are values of a sum; undefined behaviour is \<open>None\<close> in \<open>math.h\<close> and the error \<open>Undefined\<close> in \<open>bits.h\<close>.  In the
  allocator \<open>None\<close> is a loop that does not end or an access outside of an array; loops over links are
  partial functions in the option type, and each theorem that a request is served shows that the
  result is not \<open>None\<close>.  Fuel appears twice: parsing gets the length of the string, as each turn consumes a
  character, and the deposit of \<open>BitMul\<close> the number of bits, as each turn clears one; both are proved to suffice.

  \<^bold>\<open>Assumptions.\<close>  The allocator is that of a Unix build without the checks of \<open>VMEM_DEBUG\<close>, after the address
  space has been mapped; decommitting succeeds (and is recorded).  \<open>config_ok\<close> asks for pages of 8 bytes
  to 16 KiB (\<open>large_page_truncates\<close> shows what happens above), a partition of fewer than \<open>NIL\<close> pages below
  the end of memory and a batch buffer that is not empty.  \<open>request_ok\<close> asks for an alignment that is a power of
  two and for a size that is positive and below \<open>2 ^ 32\<close> pages.  \<open>searches_ok\<close> asks, of the states that the searches of
  an allocation run in, that the difference of \<open>page_bisect\<close> wraps for no region that is large enough: a condition that the
  code does not check, and that fails late, when the free regions near the start of a partition off the alignment are the largest.
  \<open>default_config\<close> has the constants of the default build; the witnesses are requests on it.  In \<open>AllocSpace\<close> a request of another thread is one
  step: a push and a drain are atomic, and the two observations of the owner in \<open>free_slab\<close> and
  \<open>free_page\<close> are arguments; \<open>AllocGuards\<close> splits it into its accesses, on a sequentially consistent memory,
  and sees of the work between them only the bytes.  There are fewer than \<open>2 ^ 64\<close> threads.

  \<^bold>\<open>Not modelled.\<close>  Of \<open>bits.h\<close>: variadic constructors, views, stream and format hooks, the soft floating
  point.  Of \<open>allocate.h\<close>: the templates \<open>Space\<close>, the system calls, the calls of the chunk
  ledger from the operations on pages, the mapping of a space at its first use, and the contents of blocks.
  Of the rest of the repository: the metaprogramming headers, adaptors of iterators and ranges (overload
  resolution, without a state of their own), compile-time strings, the containers, and the glue to Python.
\<close>

end
